(* ===== verification/Prelude.thy ===== *)
theory Prelude
  imports Main "HOL-Library.Word" "HOL-Library.Char_ord" "HOL-Library.List_Lexorder"
begin

text \<open>
  What every component shares: the exceptions of the C++ code as a datatype, computations
  that keep their state when they throw, bytes and characters, and a few facts on lists.

  A \<open>std::string\<close> is a \<^typ>\<open>string\<close>: a \<^typ>\<open>char\<close> of HOL is one byte.  The order that
  \<^theory_text>\<open>Char_ord\<close> and \<^theory_text>\<open>List_Lexorder\<close> give is the one of \<open>std::string::operator<\<close>
  (lexicographic on unsigned bytes).  The bytes of a hash (\<open>uint8_t hash[32]\<close>) are
  \<^typ>\<open>8 word\<close>s.
\<close>

unbundle bit_operations_syntax

subsection \<open>Exceptions\<close>

text \<open>
  One constructor per exception class that the modelled code throws or catches.  The
  argument is the format string of the throw (its \<open>%s\<close> arguments are not interpolated, and
  the quotes around them are left out), so
  that two different throws of one class stay different values.  \<open>SysError\<close> carries the
  errno it was thrown for, \<open>FilesystemError\<close> is the \<open>std::filesystem::filesystem_error\<close> of the standard
  library.  \<open>Abort\<close> is a failed \<open>assert\<close>: the process ends and no handler
  runs.  \<open>Diverge\<close> marks a loop that did not return within its fuel; it is no exception of
  the code, and the components prove that it does not occur.
\<close>

datatype errno = ENOENT | EEXIST | ENOTDIR | EACCES | EMLINK | ENOSPC | ELOOP | EPERM | EISDIR
  | EINTR | EAGAIN | ESPIPE | EINVAL | ENOTEMPTY | EXDEV | EBUSY | ENOSYS | EOPNOTSUPP | EOTHER

datatype exn =
    Error string
  | UsageError string
  | FormatError string
  | EndOfFile string
  | SerialisationError string
  | BadHash string
  | BadCanonPath string
  | BadStorePath string
  | BadStorePathName string
  | SourceAccessorError string
  | FileNotFound string
  | NotASymlink string
  | NotADirectory string
  | NotARegularFile string
  | SymlinkNotAllowed string
  | InvalidPath string
  | PathInUse string
  | ThreadPoolShutDown string
  | SysError errno string
  | FilesystemError errno
  | SQLiteError string
  | SQLiteBusy string
  | Interrupted string
  | Abort string
  | Diverge

text \<open>\<open>catch (Error &)\<close> takes every class but the ones that do not derive from \<open>Error\<close>.\<close>

fun is_Error :: "exn \<Rightarrow> bool" where
  "is_Error (Interrupted _) = False"
| "is_Error (FilesystemError _) = False"
| "is_Error (Abort _) = False"
| "is_Error Diverge = False"
| "is_Error _ = True"

text \<open>The classes that derive from \<open>SourceAccessorError\<close>.\<close>

fun is_SourceAccessorError :: "exn \<Rightarrow> bool" where
  "is_SourceAccessorError (SourceAccessorError _) = True"
| "is_SourceAccessorError (FileNotFound _) = True"
| "is_SourceAccessorError (NotASymlink _) = True"
| "is_SourceAccessorError (NotADirectory _) = True"
| "is_SourceAccessorError (NotARegularFile _) = True"
| "is_SourceAccessorError _ = False"

fun is_BadStorePath :: "exn \<Rightarrow> bool" where
  "is_BadStorePath (BadStorePath _) = True"
| "is_BadStorePath (BadStorePathName _) = True"
| "is_BadStorePath _ = False"

subsection \<open>Pure results\<close>

text \<open>A function that may throw and has no state: \<^typ>\<open>exn + 'a\<close>, with \<open>Inl\<close> for the throw.\<close>

definition bindE :: "exn + 'a \<Rightarrow> ('a \<Rightarrow> exn + 'b) \<Rightarrow> exn + 'b" where
  "bindE r f = (case r of Inl e \<Rightarrow> Inl e | Inr x \<Rightarrow> f x)"

lemma bindE_simps [simp]: "bindE (Inl e) f = Inl e" "bindE (Inr x) f = f x"
  by (simp_all add: bindE_def)

lemma bindE_eq_Inr: "bindE r f = Inr y \<longleftrightarrow> (\<exists>x. r = Inr x \<and> f x = Inr y)"
  by (cases r) simp_all

lemma bindE_eq_Inl: "bindE r f = Inl e \<longleftrightarrow> r = Inl e \<or> (\<exists>x. r = Inr x \<and> f x = Inl e)"
  by (cases r) simp_all

text \<open>\<open>try { r } catch\<close>: the handler sees the exception.\<close>

definition catchE :: "exn + 'a \<Rightarrow> (exn \<Rightarrow> exn + 'a) \<Rightarrow> exn + 'a" where
  "catchE r h = (case r of Inl e \<Rightarrow> h e | Inr x \<Rightarrow> Inr x)"

lemma catchE_simps [simp]: "catchE (Inl e) h = h e" "catchE (Inr x) h = Inr x"
  by (simp_all add: catchE_def)

subsection \<open>Stateful computations\<close>

text \<open>
  A computation that may throw and changes a state.  The state that a throw leaves behind is
  part of the result, as side effects done before a C++ throw persist.
\<close>

type_synonym ('s, 'a) M = "'s \<Rightarrow> (exn + 'a) \<times> 's"

definition ret :: "'a \<Rightarrow> ('s, 'a) M" where
  "ret x = (\<lambda>s. (Inr x, s))"

definition throw :: "exn \<Rightarrow> ('s, 'a) M" where
  "throw e = (\<lambda>s. (Inl e, s))"

definition bindM :: "('s, 'a) M \<Rightarrow> ('a \<Rightarrow> ('s, 'b) M) \<Rightarrow> ('s, 'b) M" where
  "bindM m f = (\<lambda>s. case m s of (Inl e, t) \<Rightarrow> (Inl e, t) | (Inr x, t) \<Rightarrow> f x t)"

definition seqM :: "('s, 'a) M \<Rightarrow> ('s, 'b) M \<Rightarrow> ('s, 'b) M" where
  "seqM m n = bindM m (\<lambda>_. n)"

definition getS :: "('s \<Rightarrow> 'a) \<Rightarrow> ('s, 'a) M" where
  "getS f = (\<lambda>s. (Inr (f s), s))"

definition modS :: "('s \<Rightarrow> 's) \<Rightarrow> ('s, unit) M" where
  "modS f = (\<lambda>s. (Inr (), f s))"

definition liftE :: "exn + 'a \<Rightarrow> ('s, 'a) M" where
  "liftE r = (\<lambda>s. (r, s))"

text \<open>\<open>try { m } catch\<close>: the handler runs in the state that the throw left.\<close>

definition catchM :: "('s, 'a) M \<Rightarrow> (exn \<Rightarrow> ('s, 'a) M) \<Rightarrow> ('s, 'a) M" where
  "catchM m h = (\<lambda>s. case m s of (Inl e, t) \<Rightarrow> h e t | (Inr x, t) \<Rightarrow> (Inr x, t))"

fun forM :: "('a \<Rightarrow> ('s, unit) M) \<Rightarrow> 'a list \<Rightarrow> ('s, unit) M" where
  "forM f [] = ret ()"
| "forM f (x # xs) = seqM (f x) (forM f xs)"

text \<open>Computations on one component of a pair of states.\<close>

definition onL :: "('s, 'a) M \<Rightarrow> ('s \<times> 't, 'a) M" where
  "onL m = (\<lambda>(s, t). case m s of (r, s') \<Rightarrow> (r, (s', t)))"

definition onR :: "('t, 'a) M \<Rightarrow> ('s \<times> 't, 'a) M" where
  "onR m = (\<lambda>(s, t). case m t of (r, t') \<Rightarrow> (r, (s, t')))"

named_theorems run "evaluation of stateful computations"

lemma run_ret [run, simp]: "ret x s = (Inr x, s)"
  by (simp add: ret_def)

lemma run_throw [run, simp]: "throw e s = (Inl e, s)"
  by (simp add: throw_def)

lemma run_getS [run, simp]: "getS f s = (Inr (f s), s)"
  by (simp add: getS_def)

lemma run_modS [run, simp]: "modS f s = (Inr (), f s)"
  by (simp add: modS_def)

lemma run_liftE [run, simp]: "liftE r s = (r, s)"
  by (simp add: liftE_def)

lemma run_bindM [run]:
  "bindM m f s = (case m s of (Inl e, t) \<Rightarrow> (Inl e, t) | (Inr x, t) \<Rightarrow> f x t)"
  by (simp add: bindM_def)

lemma run_seqM [run]:
  "seqM m n s = (case m s of (Inl e, t) \<Rightarrow> (Inl e, t) | (Inr x, t) \<Rightarrow> n t)"
  by (simp add: seqM_def bindM_def)

lemma run_catchM [run]:
  "catchM m h s = (case m s of (Inl e, t) \<Rightarrow> h e t | (Inr x, t) \<Rightarrow> (Inr x, t))"
  by (simp add: catchM_def)

lemma run_onL [run]: "onL m (s, t) = (case m s of (r, s') \<Rightarrow> (r, (s', t)))"
  by (simp add: onL_def)

lemma run_onR [run]: "onR m (s, t) = (case m t of (r, t') \<Rightarrow> (r, (s, t')))"
  by (simp add: onR_def)

text \<open>Stepping: once the first computation's result is known, the rest runs from there.\<close>

lemma bindM_Inr [simp]: "m s = (Inr x, t) \<Longrightarrow> bindM m f s = f x t"
  by (simp add: bindM_def)

lemma bindM_Inl [simp]: "m s = (Inl e, t) \<Longrightarrow> bindM m f s = (Inl e, t)"
  by (simp add: bindM_def)

lemma seqM_Inr [simp]: "m s = (Inr x, t) \<Longrightarrow> seqM m n s = n t"
  by (simp add: seqM_def)

lemma seqM_Inl [simp]: "m s = (Inl e, t) \<Longrightarrow> seqM m n s = (Inl e, t)"
  by (simp add: seqM_def)

lemma catchM_Inr [simp]: "m s = (Inr x, t) \<Longrightarrow> catchM m h s = (Inr x, t)"
  by (simp add: catchM_def)

lemma catchM_Inl [simp]: "m s = (Inl e, t) \<Longrightarrow> catchM m h s = h e t"
  by (simp add: catchM_def)

lemma onL_step [simp]: "m s = (r, s') \<Longrightarrow> onL m (s, t) = (r, (s', t))"
  by (simp add: onL_def)

lemma onR_step [simp]: "m t = (r, t') \<Longrightarrow> onR m (s, t) = (r, (s, t'))"
  by (simp add: onR_def)

lemma bindM_eq_Inr:
  "bindM m f s = (Inr y, u) \<longleftrightarrow> (\<exists>x t. m s = (Inr x, t) \<and> f x t = (Inr y, u))"
  by (auto simp: bindM_def split: prod.splits sum.splits)

lemma seqM_eq_Inr:
  "seqM m n s = (Inr y, u) \<longleftrightarrow> (\<exists>x t. m s = (Inr x, t) \<and> n t = (Inr y, u))"
  by (simp add: seqM_def bindM_eq_Inr)

lemma bindM_assoc: "bindM (bindM m f) g = bindM m (\<lambda>x. bindM (f x) g)"
  by (rule ext) (simp add: bindM_def split: prod.splits sum.splits)

text \<open>
  \<open>keeps P m\<close>: the computation keeps \<open>P\<close>, whether it returns or throws.
\<close>

definition keeps :: "('s \<Rightarrow> bool) \<Rightarrow> ('s, 'a) M \<Rightarrow> bool" where
  "keeps P m \<longleftrightarrow> (\<forall>s. P s \<longrightarrow> P (snd (m s)))"

named_theorems keep "computations that keep an invariant"

lemma keepsD: "keeps P m \<Longrightarrow> P s \<Longrightarrow> P (snd (m s))"
  by (simp add: keeps_def)

lemma keeps_ret [keep]: "keeps P (ret x)"
  by (simp add: keeps_def)

lemma keeps_throw [keep]: "keeps P (throw e)"
  by (simp add: keeps_def)

lemma keeps_getS [keep]: "keeps P (getS f)"
  by (simp add: keeps_def)

lemma keeps_liftE [keep]: "keeps P (liftE r)"
  by (simp add: keeps_def)

lemma keeps_modS: "(\<And>s. P s \<Longrightarrow> P (f s)) \<Longrightarrow> keeps P (modS f)"
  by (simp add: keeps_def)

lemma keeps_bindM [keep]: "keeps P m \<Longrightarrow> (\<And>x. keeps P (f x)) \<Longrightarrow> keeps P (bindM m f)"
  by (force simp: keeps_def bindM_def split: prod.splits sum.splits)

lemma keeps_seqM [keep]: "keeps P m \<Longrightarrow> keeps P n \<Longrightarrow> keeps P (seqM m n)"
  by (simp add: seqM_def keeps_bindM)

lemma keeps_catchM [keep]: "keeps P m \<Longrightarrow> (\<And>e. keeps P (h e)) \<Longrightarrow> keeps P (catchM m h)"
  by (force simp: keeps_def catchM_def split: prod.splits sum.splits)

lemma keeps_forM [keep]: "(\<And>x. x \<in> set xs \<Longrightarrow> keeps P (f x)) \<Longrightarrow> keeps P (forM f xs)"
  by (induction xs) (auto intro: keep)

lemma keeps_if [keep]: "(b \<Longrightarrow> keeps P m) \<Longrightarrow> (\<not> b \<Longrightarrow> keeps P n) \<Longrightarrow> keeps P (if b then m else n)"
  by simp

lemma forM_append: "forM f (xs @ ys) = seqM (forM f xs) (forM f ys)"
  by (induction xs) (auto simp: fun_eq_iff seqM_def bindM_def split: prod.splits sum.splits)

lemma take_join: "m \<le> n \<Longrightarrow> take m xs @ take (n - m) (drop m xs) = take n xs"
  by (metis le_add_diff_inverse take_add)

subsection \<open>Bytes and characters\<close>

type_synonym byte = "8 word"

definition byte_char :: "byte \<Rightarrow> char" where
  "byte_char w = char_of (unat w)"

definition char_byte :: "char \<Rightarrow> byte" where
  "char_byte c = word_of_nat (of_char c)"

lemma char_byte_char [simp]: "char_byte (byte_char w) = w"
proof -
  have "unat w < 2 ^ LENGTH(8)"
    by (rule unsigned_less)
  then have "unat w mod 256 = unat w"
    by simp
  then show ?thesis
    by (simp add: char_byte_def byte_char_def)
qed

lemma byte_char_byte [simp]: "byte_char (char_byte c) = c"
  by (simp add: char_byte_def byte_char_def unat_of_nat)

lemma map_char_byte_char [simp]: "map char_byte (map byte_char ws) = ws"
  by (simp add: comp_def)

lemma map_byte_char_byte [simp]: "map byte_char (map char_byte cs) = cs"
  by (simp add: comp_def)

lemma byte_char_inject [simp]: "byte_char v = byte_char w \<longleftrightarrow> v = w"
  by (metis char_byte_char)

lemma char_byte_inject [simp]: "char_byte c = char_byte d \<longleftrightarrow> c = d"
  by (metis byte_char_byte)

lemma byte_eqI:
  "(bit a 0 = bit b 0) \<Longrightarrow> (bit a 1 = bit b 1) \<Longrightarrow> (bit a 2 = bit b 2) \<Longrightarrow> (bit a 3 = bit b 3) \<Longrightarrow>
   (bit a 4 = bit b 4) \<Longrightarrow> (bit a 5 = bit b 5) \<Longrightarrow> (bit a 6 = bit b 6) \<Longrightarrow> (bit a 7 = bit b 7) \<Longrightarrow>
   a = (b :: byte)"
proof (rule bit_word_eqI)
  fix n assume h: "bit a 0 = bit b 0" "bit a 1 = bit b 1" "bit a 2 = bit b 2" "bit a 3 = bit b 3"
   "bit a 4 = bit b 4" "bit a 5 = bit b 5" "bit a 6 = bit b 6" "bit a 7 = bit b 7" and l: "n < LENGTH(8)"
  from l have "n = 0 \<or> n = 1 \<or> n = 2 \<or> n = 3 \<or> n = 4 \<or> n = 5 \<or> n = 6 \<or> n = 7"
    by (simp, linarith)
  with h show "bit a n = bit b n" by (elim disjE) simp_all
qed

lemma byte_no_bit: "8 \<le> n \<Longrightarrow> \<not> bit (a :: byte) n"
  using bit_imp_le_length[of a n] by auto

end
