(* ===== verification/LruCache.thy ===== *)
theory LruCache
  imports Prelude "HOL-Library.AList"
begin

text \<open>
  The least-recently-used cache of \<open>src/libutil/include/nix/util/lru-cache.hh\<close>.

  The C++ keeps a \<open>std::map\<close> from keys to a value and an iterator into a list, and the list
  holds iterators back into the map.  Both kinds of iterator are stable, so an iterator into
  the map is the key it points at, and the list iterator stored under a key is that key's
  (only) place in the list: \<open>lru.erase(it)\<close> removes the key, \<open>splice\<close> moves it to the end.

  The contract is the locale \<open>cache\<close> below: a bounded recency list.  The interpretation shows
  that the map-and-list pair implements it.
\<close>

record ('k, 'v) lru_cache =
  capacity :: nat
  data :: "('k \<times> 'v) list"
  lru :: "'k list"

definition lru_new :: "nat \<Rightarrow> ('k, 'v) lru_cache" where
  "lru_new cap = \<lparr>capacity = cap, data = [], lru = []\<rparr>"

definition lru_promote :: "'k \<Rightarrow> ('k, 'v) lru_cache \<Rightarrow> ('k, 'v) lru_cache" where
  "lru_promote it c = c\<lparr>lru := remove1 it (lru c) @ [it]\<rparr>"

definition lru_erase :: "'k \<Rightarrow> ('k, 'v) lru_cache \<Rightarrow> bool \<times> ('k, 'v) lru_cache" where
  "lru_erase key c =
     (case map_of (data c) key of
        None \<Rightarrow> (False, c)
      | Some _ \<Rightarrow> (True, c\<lparr>lru := remove1 key (lru c), data := AList.delete key (data c)\<rparr>))"

definition lru_upsert :: "'k \<Rightarrow> 'v \<Rightarrow> ('k, 'v) lru_cache \<Rightarrow> ('k, 'v) lru_cache" where
  "lru_upsert key value c =
     (if capacity c = 0 then c
      else let c = snd (lru_erase key c);
               c = (if capacity c \<le> length (data c)
                    then let oldest = hd (lru c)
                         in c\<lparr>data := AList.delete oldest (data c), lru := tl (lru c)\<rparr>
                    else c)
           in c\<lparr>data := AList.update key value (data c), lru := lru c @ [key]\<rparr>)"

definition lru_get :: "'k \<Rightarrow> ('k, 'v) lru_cache \<Rightarrow> 'v option \<times> ('k, 'v) lru_cache" where
  "lru_get key c =
     (case map_of (data c) key of
        None \<Rightarrow> (None, c)
      | Some value \<Rightarrow> (Some value, lru_promote key c))"

definition lru_size :: "('k, 'v) lru_cache \<Rightarrow> nat" where
  "lru_size c = length (data c)"

definition lru_clear :: "('k, 'v) lru_cache \<Rightarrow> ('k, 'v) lru_cache" where
  "lru_clear c = c\<lparr>data := [], lru := []\<rparr>"

subsection \<open>Invariant and abstraction\<close>

text \<open>The list holds each key of the map exactly once, and the map never outgrows the cache.\<close>

definition lru_inv :: "('k, 'v) lru_cache \<Rightarrow> bool" where
  "lru_inv c \<longleftrightarrow> distinct (map fst (data c)) \<and> distinct (lru c)
     \<and> set (lru c) = fst ` set (data c) \<and> length (data c) \<le> capacity c"

text \<open>The cache as a list of entries, least recently used first.\<close>

definition recency :: "('k, 'v) lru_cache \<Rightarrow> ('k \<times> 'v) list" where
  "recency c = map (\<lambda>k. (k, the (map_of (data c) k))) (lru c)"

lemma lru_inv_length: "lru_inv c \<Longrightarrow> length (lru c) = length (data c)"
  by (metis card_image distinct_card distinct_map length_map lru_inv_def set_map)

lemma lru_inv_in: "lru_inv c \<Longrightarrow> k \<in> set (lru c) \<longleftrightarrow> map_of (data c) k \<noteq> None"
  by (simp add: lru_inv_def map_of_eq_None_iff)

lemma map_of_recency: "lru_inv c \<Longrightarrow> map_of (recency c) = map_of (data c)"
proof
  fix k
  assume inv: "lru_inv c"
  have "map_of (map (\<lambda>k. (k, f k)) ks) k = (if k \<in> set ks then Some (f k) else None)"
    for ks and f :: "'a \<Rightarrow> 'b"
    by (induction ks) auto
  then show "map_of (recency c) k = map_of (data c) k"
    using lru_inv_in [OF inv, of k] by (auto simp: recency_def)
qed

lemma update_new: "k \<notin> fst ` set xs \<Longrightarrow> AList.update k v xs = xs @ [(k, v)]"
  by (induction xs) auto

lemma delete_absent: "k \<notin> fst ` set xs \<Longrightarrow> AList.delete k xs = xs"
  by (induction xs) auto

lemma set_delete_keys: "fst ` set (AList.delete k xs) = fst ` set xs - {k}"
  by (simp add: AList.delete_eq) force

lemma filter_keys_map:
  "filter (\<lambda>(k', _). k' \<noteq> k) (map (\<lambda>k. (k, f k)) ks) = map (\<lambda>k. (k, f k)) (filter (\<lambda>k'. k' \<noteq> k) ks)"
  by (induction ks) auto

lemma lru_erase_facts:
  fixes c :: "('k, 'v) lru_cache" and k :: 'k
  assumes "lru_inv c"
  defines "c' \<equiv> snd (lru_erase k c)"
  shows "lru_inv c'" "capacity c' = capacity c" "k \<notin> set (lru c')"
    "recency c' = filter (\<lambda>(k', _). k' \<noteq> k) (recency c)"
proof -
  have c': "lru c' = remove1 k (lru c)" "data c' = AList.delete k (data c)"
    "capacity c' = capacity c"
    using lru_inv_in [OF assms(1), of k]
    by (auto simp: c'_def lru_erase_def remove1_idem delete_absent map_of_eq_None_iff
        split: option.splits)
  show "capacity c' = capacity c" "k \<notin> set (lru c')"
    using assms(1) by (simp_all add: c' lru_inv_def)
  show "lru_inv c'"
    using assms(1) length_delete_le [of k "data c"]
    by (auto simp: lru_inv_def c' set_delete_keys distinct_delete distinct_remove1)
  have "lru c' = filter (\<lambda>k'. k' \<noteq> k) (lru c)"
    using assms(1) by (simp add: c' lru_inv_def distinct_remove1_removeAll removeAll_filter_not_eq)
      (metis)
  then show "recency c' = filter (\<lambda>(k', _). k' \<noteq> k) (recency c)"
    by (auto simp: recency_def filter_keys_map c' delete_conv' cong: map_cong)
qed

text \<open>What \<open>upsert\<close> and \<open>get\<close> do to the recency list.\<close>

definition recency_upsert :: "nat \<Rightarrow> 'k \<Rightarrow> 'v \<Rightarrow> ('k \<times> 'v) list \<Rightarrow> ('k \<times> 'v) list" where
  "recency_upsert cap k v xs =
     (let xs = filter (\<lambda>(k', _). k' \<noteq> k) xs
      in (if cap \<le> length xs then tl xs else xs) @ [(k, v)])"

definition recency_get :: "'k \<Rightarrow> ('k \<times> 'v) list \<Rightarrow> ('k \<times> 'v) list" where
  "recency_get k xs =
     (case map_of xs k of None \<Rightarrow> xs | Some v \<Rightarrow> filter (\<lambda>(k', _). k' \<noteq> k) xs @ [(k, v)])"

lemma lru_evict_facts:
  assumes "lru_inv c" and "lru c \<noteq> []"
  defines "c' \<equiv> c\<lparr>data := AList.delete (hd (lru c)) (data c), lru := tl (lru c)\<rparr>"
  shows "lru_inv c'" "length (data c') < capacity c" "recency c' = tl (recency c)"
    "set (lru c') \<subseteq> set (lru c)"
proof -
  obtain k ks where lru: "lru c = k # ks"
    using assms(2) by (cases "lru c") auto
  have keys: "set ks = fst ` set (AList.delete k (data c))" "distinct ks" "k \<notin> set ks"
    using assms(1) lru by (auto simp: lru_inv_def set_delete_keys)
  then have "length (AList.delete k (data c)) = length ks"
    using assms(1) by (metis distinct_card distinct_delete distinct_map card_image
        length_map lru_inv_def set_map)
  moreover have "length (lru c) = length (data c)"
    by (rule lru_inv_length [OF assms(1)])
  ultimately show "lru_inv c'" "length (data c') < capacity c"
    using assms(1) keys by (auto simp: lru_inv_def c'_def lru distinct_delete)
  show "recency c' = tl (recency c)"
    using keys(3) by (auto simp: recency_def c'_def lru delete_conv')
  show "set (lru c') \<subseteq> set (lru c)"
    by (simp add: c'_def lru subset_insertI)
qed

lemma lru_upsert_facts:
  assumes "lru_inv c" and "0 < capacity c"
  shows "lru_inv (lru_upsert k v c)"
    and "recency (lru_upsert k v c) = recency_upsert (capacity c) k v (recency c)"
proof -
  define c1 where "c1 = snd (lru_erase k c)"
  note c1 = lru_erase_facts [OF assms(1), of k, folded c1_def]
  define full where "full = (capacity c \<le> length (data c1))"
  define c2 where "c2 = (if full then c1\<lparr>data := AList.delete (hd (lru c1)) (data c1),
      lru := tl (lru c1)\<rparr> else c1)"
  have len: "length (lru c1) = length (data c1)" "length (recency c1) = length (data c1)"
    using lru_inv_length [OF c1(1)] by (simp_all add: recency_def)
  have ne: "full \<Longrightarrow> lru c1 \<noteq> []"
    using len assms(2) by (auto simp: full_def)
  have up: "lru_upsert k v c = c2\<lparr>data := AList.update k v (data c2), lru := lru c2 @ [k]\<rparr>"
    using assms(2) by (simp add: lru_upsert_def Let_def c2_def full_def c1_def [symmetric] c1(2))
  have c2: "lru_inv c2" "length (data c2) < capacity c2" "k \<notin> set (lru c2)"
    "recency c2 = (if full then tl (recency c1) else recency c1)"
    using lru_evict_facts [OF c1(1) ne] c1 by (auto simp: c2_def full_def)
  then have "k \<notin> fst ` set (data c2)"
    by (simp add: lru_inv_def)
  then have upd: "AList.update k v (data c2) = data c2 @ [(k, v)]"
    by (rule update_new)
  have other: "x \<in> set (lru c2) \<Longrightarrow> x \<noteq> k" for x
    using c2(3) by auto
  show "lru_inv (lru_upsert k v c)"
    using c2 by (auto simp: up upd lru_inv_def)
  have "map_of (data c2 @ [(k, v)]) x = (if x = k then Some v else map_of (data c2) x)" for x
    using \<open>k \<notin> fst ` set (data c2)\<close>
    by (simp add: map_add_def flip: map_of_eq_None_iff split: option.split)
  then have "recency (lru_upsert k v c) = recency c2 @ [(k, v)]"
    using other by (simp add: recency_def up upd)
  also have "\<dots> = recency_upsert (capacity c) k v (recency c)"
    by (simp add: recency_upsert_def Let_def c2(4) c1(4) [symmetric] full_def len)
  finally show "recency (lru_upsert k v c) = recency_upsert (capacity c) k v (recency c)" .
qed

lemma lru_get_facts:
  assumes "lru_inv c"
  shows "lru_inv (snd (lru_get k c))" "fst (lru_get k c) = map_of (recency c) k"
    and "recency (snd (lru_get k c)) = recency_get k (recency c)"
proof -
  show "fst (lru_get k c) = map_of (recency c) k"
    by (simp add: map_of_recency [OF assms] lru_get_def split: option.split)
  show "lru_inv (snd (lru_get k c))"
    using assms by (auto simp: lru_inv_def lru_get_def lru_promote_def distinct_remove1
        dest!: map_of_SomeD split: option.split) force+
  have "remove1 k (lru c) = filter (\<lambda>k'. k' \<noteq> k) (lru c)"
    using assms by (simp add: lru_inv_def distinct_remove1_removeAll removeAll_filter_not_eq)
      (metis)
  then show "recency (snd (lru_get k c)) = recency_get k (recency c)"
    using filter_keys_map [of k "\<lambda>k. the (map_of (data c) k)" "lru c"]
    unfolding recency_get_def map_of_recency [OF assms]
    by (cases "map_of (data c) k") (simp_all add: lru_get_def lru_promote_def recency_def)
qed

subsection \<open>The contract\<close>

text \<open>
  What a client may rely on: an abstraction to a recency list that the operations act on as
  \<^const>\<open>recency_upsert\<close> and \<^const>\<open>recency_get\<close> do.  The client's lemmas are proved from
  these laws alone.
\<close>

locale recency_cache =
  fixes inv :: "'c \<Rightarrow> bool" and cap :: "'c \<Rightarrow> nat" and abs :: "'c \<Rightarrow> ('k \<times> 'v) list"
    and upsert :: "'k \<Rightarrow> 'v \<Rightarrow> 'c \<Rightarrow> 'c" and lookup :: "'k \<Rightarrow> 'c \<Rightarrow> 'v option \<times> 'c"
  assumes keys_distinct: "inv c \<Longrightarrow> distinct (map fst (abs c))"
    and bounded: "inv c \<Longrightarrow> length (abs c) \<le> cap c"
    and upsert_inv: "inv c \<Longrightarrow> 0 < cap c \<Longrightarrow> inv (upsert k v c)"
    and upsert_cap: "cap (upsert k v c) = cap c"
    and upsert_abs: "inv c \<Longrightarrow> 0 < cap c \<Longrightarrow>
      abs (upsert k v c) = recency_upsert (cap c) k v (abs c)"
    and lookup_value: "inv c \<Longrightarrow> fst (lookup k c) = map_of (abs c) k"
    and lookup_inv: "inv c \<Longrightarrow> inv (snd (lookup k c))"
    and lookup_abs: "inv c \<Longrightarrow> abs (snd (lookup k c)) = recency_get k (abs c)"
begin

text \<open>A value survives as long as fewer than \<open>cap\<close> different keys follow it.\<close>

lemma upsert_keeps_recent:
  assumes "inv c" and "abs c = ys @ (k, v) # zs" and "fst ` set zs \<subseteq> T" and "finite T"
    and "k' \<noteq> k" and "card (insert k' T) < cap c"
  shows "\<exists>ys' zs'. abs (upsert k' v' c) = ys' @ (k, v) # zs' \<and> fst ` set zs' \<subseteq> insert k' T"
proof -
  have pos: "0 < cap c" using assms(6) by simp
  let ?f = "filter (\<lambda>(k'', _). k'' \<noteq> k')"
  have f: "?f (abs c) = ?f ys @ (k, v) # ?f zs"
    using assms(2,5) by simp
  show ?thesis
  proof (cases "cap c \<le> length (?f (abs c)) \<and> ?f ys = []")
    case True
    have d: "distinct (k' # map fst (?f zs))"
      using keys_distinct [OF assms(1)] assms(2) by (auto simp: distinct_map_filter)
    have "set (k' # map fst (?f zs)) \<subseteq> insert k' T"
      using assms(3) by auto
    then have "Suc (length (?f zs)) \<le> card (insert k' T)"
      using distinct_card [OF d] card_mono assms(4) by (metis finite_insert length_Cons length_map)
    moreover have "length (?f (abs c)) = Suc (length (?f zs))"
      using f True by simp
    ultimately show ?thesis using True assms(6) by linarith
  next
    case False
    have "abs (upsert k' v' c) =
        (if cap c \<le> length (?f (abs c)) then tl (?f ys) else ?f ys) @ (k, v) # (?f zs @ [(k', v')])"
      using False by (cases "?f ys")
        (simp_all add: upsert_abs [OF assms(1) pos] recency_upsert_def Let_def f)
    moreover have "fst ` set (?f zs @ [(k', v')]) \<subseteq> insert k' T"
      using assms(3) by auto
    ultimately show ?thesis by blast
  qed
qed

lemma upsert_recent:
  assumes "inv c" and "0 < cap c"
  shows "\<exists>ys. abs (upsert k v c) = ys @ [(k, v)]"
  by (auto simp: upsert_abs [OF assms] recency_upsert_def Let_def)

lemma upserts_keep_recent:
  assumes "inv c" and "abs c = ys @ (k, v) # zs" and "fst ` set zs \<subseteq> T" and "finite T"
    and "k \<notin> fst ` set kvs" and "card (T \<union> fst ` set kvs) < cap c"
  shows "fst (lookup k (fold (\<lambda>(k', v'). upsert k' v') kvs c)) = Some v"
  using assms
proof (induction kvs arbitrary: c ys zs T)
  case Nil
  have "(k, v) \<in> set (abs c)"
    by (simp add: Nil.prems(2))
  with keys_distinct [OF Nil.prems(1)] have "map_of (abs c) k = Some v"
    by (rule map_of_is_SomeI)
  then show ?case by (simp add: lookup_value [OF Nil.prems(1)])
next
  case (Cons e kvs)
  obtain k' v' where e: "e = (k', v')" by (cases e)
  have pos: "0 < cap c" using Cons.prems(6) by simp
  have "card (insert k' T) \<le> card (T \<union> fst ` set (e # kvs))"
    using Cons.prems(4) by (intro card_mono) (auto simp: e)
  with Cons.prems obtain ys' zs' where "abs (upsert k' v' c) = ys' @ (k, v) # zs'"
    "fst ` set zs' \<subseteq> insert k' T"
    using upsert_keeps_recent [OF Cons.prems(1-4), of k' v'] by (auto simp: e)
  from Cons.IH [OF upsert_inv [OF Cons.prems(1) pos] this] Cons.prems show ?case
    by (simp add: e upsert_cap)
qed

lemma upsert_then_get:
  assumes "inv c" and "0 < cap c" and "k \<notin> fst ` set kvs" and "card (fst ` set kvs) < cap c"
  shows "fst (lookup k (fold (\<lambda>(k', v'). upsert k' v') kvs (upsert k v c))) = Some v"
proof -
  obtain ys where "abs (upsert k v c) = ys @ (k, v) # []"
    using upsert_recent [OF assms(1,2)] by auto
  from upserts_keep_recent [OF upsert_inv [OF assms(1,2)] this, of "{}" kvs] assms
  show ?thesis by (simp add: upsert_cap)
qed

end

lemma recency_keys: "map fst (recency c) = lru c"
  by (simp add: recency_def comp_def)

interpretation lru: recency_cache lru_inv capacity recency lru_upsert lru_get
proof unfold_locales
  fix c :: "('k, 'v) lru_cache" and k v
  show "capacity (lru_upsert k v c) = capacity c"
    by (simp add: lru_upsert_def lru_erase_def Let_def split: option.split)
next
  fix c :: "('k, 'v) lru_cache"
  assume inv: "lru_inv c"
  then show "distinct (map fst (recency c))"
    by (simp add: recency_keys lru_inv_def)
  show "length (recency c) \<le> capacity c"
    using inv lru_inv_length [OF inv] by (simp add: recency_def lru_inv_def)
qed (simp_all add: lru_upsert_facts lru_get_facts)

lemma lru_new_inv: "lru_inv (lru_new cap)"
  by (simp add: lru_inv_def lru_new_def)

lemma lru_clear_inv: "lru_inv c \<Longrightarrow> lru_inv (lru_clear c)"
  by (simp add: lru_inv_def lru_clear_def)

lemma lru_size_bound: "lru_inv c \<Longrightarrow> lru_size c \<le> capacity c"
  by (simp add: lru_inv_def lru_size_def)


subsection \<open>Properties\<close>

text \<open>
  C15.  A cached value survives as long as fewer than \<open>capacity\<close> different other keys are
  inserted after it, and the cache never holds more than \<open>capacity\<close> entries.
\<close>

theorem lru_upsert_then_get:
  assumes "lru_inv c" and "0 < capacity c"
    and "k \<notin> fst ` set kvs" and "card (fst ` set kvs) < capacity c"
  shows "fst (lru_get k (fold (\<lambda>(k', v'). lru_upsert k' v') kvs (lru_upsert k v c))) = Some v \<and>
    lru_size (lru_upsert k v c) \<le> capacity c"
  using lru.upsert_then_get [OF assms, of v] lru_size_bound [OF lru.upsert_inv [OF assms(1,2)], of k v]
  by (simp add: lru.upsert_cap)

theorem lru_upsert_then_get_witness:
  "fst (lru_get (1 :: nat) (fold (\<lambda>(k', v'). lru_upsert k' v') [(2, ''b''), (2, ''c'')] (lru_upsert 1 ''a'' (lru_new 2)))) = Some ''a'' \<and>
    lru_size (lru_upsert (1 :: nat) ''a'' (lru_new 2)) \<le> 2"
  using lru_upsert_then_get [of "lru_new 2" "1 :: nat" "[(2, ''b''), (2, ''c'')]" "''a''"] lru_new_inv [of 2]
  by (simp add: lru_new_def)

end
