(* ===== verification/BaseN.thy ===== *)
theory BaseN
  imports Prelude
begin

text \<open>
  The three textual encodings of bytes: \<open>base16\<close> and \<open>base64\<close> of
  \<open>src/libutil/base-n.cc\<close>, and Nix's base-32 of \<open>src/libutil/base-nix-32.cc\<close>.  The
  lemmas show that decoding inverts encoding for each of them, and that a base-32 string of
  the right length is the encoding of the bytes it decodes to (so a base-32 hash has exactly
  one spelling, which base-64 does not give).
\<close>

subsection \<open>Reverse tables\<close>

text \<open>
  Both decoders build a 256-entry table at compile time: every entry the invalid mark, then
  entry \<open>characters[i]\<close> set to \<open>i\<close> for each digit.
\<close>

definition reverse_table :: "string \<Rightarrow> nat \<Rightarrow> nat list" where
  "reverse_table chars invalid =
     fold (\<lambda>i t. t[of_char (chars ! i) := i]) [0..<length chars] (replicate 256 invalid)"

lemma reverse_table_upto:
  fixes chars :: string and invalid :: nat
  assumes "distinct chars" and "k \<le> length chars"
  defines "t \<equiv> fold (\<lambda>i t. t[of_char (chars ! i) := i]) [0..<k] (replicate 256 invalid)"
  shows "length t = 256 \<and> (\<forall>n<k. t ! of_char (chars ! n) = n)
    \<and> (\<forall>c. c \<notin> set (take k chars) \<longrightarrow> t ! of_char c = invalid)"
  using assms(2) unfolding t_def
proof (induction k)
  case 0
  then show ?case by simp
next
  case (Suc k)
  then have "chars ! n \<noteq> chars ! k \<and> chars ! k \<noteq> chars ! n" if "n < k" for n
    using that assms(1) by (simp add: nth_eq_iff_index_eq)
  with Suc show ?case
    by (auto simp: take_Suc_conv_app_nth nth_list_update less_Suc_eq)
qed

lemma reverse_table_digit:
  "distinct chars \<Longrightarrow> n < length chars \<Longrightarrow> reverse_table chars invalid ! of_char (chars ! n) = n"
  using reverse_table_upto [of chars "length chars" invalid] by (simp add: reverse_table_def)

lemma reverse_table_invalid:
  "distinct chars \<Longrightarrow> c \<notin> set chars \<Longrightarrow> reverse_table chars invalid ! of_char c = invalid"
  using reverse_table_upto [of chars "length chars" invalid] by (simp add: reverse_table_def)

subsection \<open>Base 16\<close>

definition base16Chars :: string where
  "base16Chars = ''0123456789abcdef''"

definition base16_encode_byte :: "byte \<Rightarrow> string" where
  "base16_encode_byte b =
     [base16Chars ! unat (drop_bit 4 b), base16Chars ! unat (b AND 0x0f)]"

definition base16_encode :: "byte list \<Rightarrow> string" where
  "base16_encode bs = concat (map base16_encode_byte bs)"

definition base16_encodedLength :: "nat \<Rightarrow> nat" where
  "base16_encodedLength origSize = origSize * 2"

definition parseHexDigit :: "char \<Rightarrow> exn + nat" where
  "parseHexDigit c =
     (if CHR ''0'' \<le> c \<and> c \<le> CHR ''9'' then Inr (of_char c - of_char CHR ''0'')
      else if CHR ''A'' \<le> c \<and> c \<le> CHR ''F'' then Inr (of_char c - of_char CHR ''A'' + 10)
      else if CHR ''a'' \<le> c \<and> c \<le> CHR ''f'' then Inr (of_char c - of_char CHR ''a'' + 10)
      else Inl (FormatError ''invalid character in Base16 string''))"

fun base16_decode_pairs :: "string \<Rightarrow> exn + string" where
  "base16_decode_pairs (a # b # s) =
     bindE (parseHexDigit a) (\<lambda>hi.
     bindE (parseHexDigit b) (\<lambda>lo.
     bindE (base16_decode_pairs s) (\<lambda>res.
     Inr (char_of (push_bit 4 hi OR lo) # res))))"
| "base16_decode_pairs _ = Inr []"

definition base16_decode :: "string \<Rightarrow> exn + string" where
  "base16_decode s =
     (if length s mod 2 = 0 then base16_decode_pairs s
      else Inl (Abort ''s.size() % 2 == 0''))"

lemma all_lt_16: "(\<forall>n<16. P n) \<longleftrightarrow> P 0 \<and> P 1 \<and> P 2 \<and> P 3 \<and> P 4 \<and> P 5 \<and> P 6 \<and> P 7 \<and> P 8 \<and> P 9
    \<and> P 10 \<and> P 11 \<and> P 12 \<and> P 13 \<and> P 14 \<and> P (15::nat)"
  by (simp add: All_less_Suc numeral_eq_Suc) blast

lemma parseHexDigit_base16Chars: "n < 16 \<Longrightarrow> parseHexDigit (base16Chars ! n) = Inr n"
proof -
  have "\<forall>n<16. parseHexDigit (base16Chars ! n) = Inr n"
    unfolding all_lt_16 by (intro conjI) code_simp+
  then show "n < 16 \<Longrightarrow> ?thesis" by blast
qed

lemma unat_low_bits: "unat (b AND 0x0f :: byte) = take_bit 4 (unat b)"
  "unat (b AND 0x1f :: byte) = take_bit 5 (unat b)"
  "unat (w AND 0x3f :: 32 word) = take_bit 6 (unat w)"
proof -
  have "(0x0f :: byte) = mask 4" "(0x1f :: byte) = mask 5" "(0x3f :: 32 word) = mask 6"
    by (simp_all add: mask_eq_exp_minus_1)
  then show "unat (b AND 0x0f :: byte) = take_bit 4 (unat b)"
    "unat (b AND 0x1f :: byte) = take_bit 5 (unat b)"
    "unat (w AND 0x3f :: 32 word) = take_bit 6 (unat w)"
    by (simp_all only: flip: take_bit_eq_mask unsigned_take_bit_eq)
qed

lemma unat_byte_lt: "unat (b :: byte) < 256"
proof -
  have "unat b < 2 ^ LENGTH(8)"
    by (rule unsigned_less)
  then show ?thesis by simp
qed

lemma nibbles_lt: "unat (drop_bit 4 (b :: byte)) < 16" "unat (b AND 0x0f :: byte) < 16"
proof -
  show "unat (drop_bit 4 b) < 16"
    unfolding unat_drop_bit_eq using unat_byte_lt [of b] by (simp add: drop_bit_eq_div)
  show "unat (b AND 0x0f :: byte) < 16"
    by (simp only: unat_low_bits take_bit_eq_mod) simp
qed

lemma nibbles_join: "char_of (push_bit 4 (unat (drop_bit 4 b)) OR unat (b AND 0x0f)) = byte_char b"
proof -
  have "push_bit 4 (drop_bit 4 (unat b)) OR take_bit 4 (unat b) = unat b"
    by (rule bit_eqI) (auto simp: bit_simps)
  moreover have "unat (drop_bit 4 b) = drop_bit 4 (unat b)"
    by (rule unat_drop_bit_eq)
  ultimately show ?thesis
    by (simp only: unat_low_bits byte_char_def)
qed

theorem base16_decode_encode: "base16_decode (base16_encode bs) = Inr (map byte_char bs)"
proof -
  have "length (base16_encode bs) mod 2 = 0"
    by (induction bs) (simp_all add: base16_encode_def base16_encode_byte_def)
  moreover have "base16_decode_pairs (base16_encode bs) = Inr (map byte_char bs)"
    by (induction bs)
       (simp_all add: base16_encode_def base16_encode_byte_def parseHexDigit_base16Chars
          nibbles_lt nibbles_join)
  ultimately show ?thesis
    by (simp add: base16_decode_def)
qed

lemma length_base16_encode: "length (base16_encode bs) = base16_encodedLength (length bs)"
  by (induction bs) (simp_all add: base16_encode_def base16_encode_byte_def base16_encodedLength_def)

subsection \<open>Base 64\<close>

definition base64Chars :: string where
  "base64Chars = ''ABCDEFGHIJKLMNOPQRSTUVWXYZabcdefghijklmnopqrstuvwxyz0123456789+/''"

definition base64_encodedLength :: "nat \<Rightarrow> nat" where
  "base64_encodedLength origSize = (4 * origSize div 3 + 3) div 4 * 4"

text \<open>
  The encoder's \<open>int data\<close> is 32 bits wide and shifts left without masking (in C++20 the
  shift is modular); \<open>data >> nbits\<close> on a signed \<open>int\<close> is an arithmetic shift.
\<close>

fun base64_emit :: "32 word \<Rightarrow> nat \<Rightarrow> string \<times> nat" where
  "base64_emit data nbits =
     (if 6 \<le> nbits
      then let (res, n) = base64_emit data (nbits - 6)
           in (base64Chars ! unat (signed_drop_bit (nbits - 6) data AND 0x3f) # res, n)
      else ([], nbits))"

declare base64_emit.simps [simp del]

fun base64_encode_loop :: "byte list \<Rightarrow> 32 word \<Rightarrow> nat \<Rightarrow> string \<times> 32 word \<times> nat" where
  "base64_encode_loop [] data nbits = ([], data, nbits)"
| "base64_encode_loop (c # s) data nbits =
     (let data = push_bit 8 data OR ucast c;
          (out, nbits) = base64_emit data (nbits + 8);
          (res, data, nbits) = base64_encode_loop s data nbits
      in (out @ res, data, nbits))"

definition base64_pad :: "string \<Rightarrow> string" where
  "base64_pad res = res @ replicate ((4 - length res mod 4) mod 4) (CHR ''='')"

definition base64_encode :: "byte list \<Rightarrow> string" where
  "base64_encode s =
     (let (res, data, nbits) = base64_encode_loop s 0 0;
          res = (if nbits \<noteq> 0
                 then res @ [base64Chars ! unat (push_bit (6 - nbits) data AND 0x3f)] else res)
      in base64_pad res)"

text \<open>The reverse table: 256 entries, \<open>npos\<close> (-1 as a \<open>char\<close>) where there is no digit.\<close>

definition base64_npos :: nat where
  "base64_npos = 255"

definition base64DecodeChars :: "nat list" where
  "base64DecodeChars = reverse_table base64Chars base64_npos"

fun base64_decode_loop :: "string \<Rightarrow> 32 word \<Rightarrow> nat \<Rightarrow> exn + string" where
  "base64_decode_loop [] d bits = Inr []"
| "base64_decode_loop (c # s) d bits =
     (if c = CHR ''='' then Inr []
      else if c = CHR 0x0A then base64_decode_loop s d bits
      else let digit = base64DecodeChars ! of_char c in
        if digit = base64_npos then Inl (FormatError ''invalid character in Base64 string'')
        else let bits = bits + 6; d = push_bit 6 d OR word_of_nat digit in
          if 8 \<le> bits
          then bindE (base64_decode_loop s d (bits - 8))
                 (\<lambda>res. Inr (byte_char (ucast (drop_bit (bits - 8) d AND 0xff)) # res))
          else base64_decode_loop s d bits)"

definition base64_decode :: "string \<Rightarrow> exn + string" where
  "base64_decode s = base64_decode_loop s 0 0"

lemma base64Chars_distinct: "distinct base64Chars" "length base64Chars = 64"
  "CHR ''='' \<notin> set base64Chars" "CHR 0x0A \<notin> set base64Chars"
  by (simp_all add: base64Chars_def)

lemma base64_table: "n < 64 \<Longrightarrow> base64DecodeChars ! of_char (base64Chars ! n) = n"
  "n < 64 \<Longrightarrow> base64Chars ! n \<noteq> CHR ''='' \<and> base64Chars ! n \<noteq> CHR 0x0A"
  using base64Chars_distinct by (auto simp: base64DecodeChars_def reverse_table_digit)
    (metis nth_mem)+

text \<open>
  The proof goes three bytes (four digits) at a time, and bit by bit on the words; the
  stale high bits that the encoder leaves in \<open>data\<close> never reach a digit.
\<close>

lemma and_masks: "w AND 0x3f = take_bit 6 (w :: 32 word)" "w AND 0xff = take_bit 8 (w :: 32 word)"
proof -
  have "(0x3f :: 32 word) = mask 6" "(0xff :: 32 word) = mask 8"
    by (simp_all add: mask_eq_exp_minus_1)
  then show "w AND 0x3f = take_bit 6 (w :: 32 word)" "w AND 0xff = take_bit 8 (w :: 32 word)"
    by (simp_all only: take_bit_eq_mask)
qed

definition base64_digit :: "32 word \<Rightarrow> char" where
  "base64_digit w = base64Chars ! unat (take_bit 6 w)"

lemma base64_decode_digit:
  "base64_decode_loop (base64_digit w # s) d bits =
     (let bits = bits + 6; d = push_bit 6 d OR take_bit 6 w in
       if 8 \<le> bits
       then bindE (base64_decode_loop s d (bits - 8))
              (\<lambda>res. Inr (byte_char (ucast (take_bit 8 (drop_bit (bits - 8) d))) # res))
       else base64_decode_loop s d bits)"
proof -
  have "unat (take_bit 6 w) < 64"
    by (simp only: unsigned_take_bit_eq) (simp add: take_bit_eq_mod)
  then show ?thesis
    using base64_table [of "unat (take_bit 6 w)"]
    by (simp add: base64_digit_def base64_npos_def and_masks Let_def)
qed

lemma base64_decode_stop: "t = [] \<or> hd t = CHR ''='' \<Longrightarrow> base64_decode_loop t d bits = Inr []"
  by (cases t) simp_all

declare base64_decode_loop.simps [simp del]

lemma base64_emits:
  "base64_emit data 8 = ([base64_digit (signed_drop_bit 2 data)], 2)"
  "base64_emit data 10 = ([base64_digit (signed_drop_bit 4 data)], 4)"
  "base64_emit data 12 = ([base64_digit (signed_drop_bit 6 data), base64_digit data], 0)"
  by (simp_all add: base64_emit.simps base64_digit_def and_masks)

definition base64_finish :: "string \<times> 32 word \<times> nat \<Rightarrow> string" where
  "base64_finish r = (case r of (res, data, nbits) \<Rightarrow>
     if nbits \<noteq> 0 then res @ [base64_digit (push_bit (6 - nbits) data)] else res)"

lemma base64_encode_finish: "base64_encode s = base64_pad (base64_finish (base64_encode_loop s 0 0))"
  by (simp add: base64_encode_def base64_finish_def base64_digit_def and_masks
      split: prod.splits)

fun three_bytes :: "byte list \<Rightarrow> nat" where
  "three_bytes (a # b # c # s) = Suc (three_bytes s)"
| "three_bytes _ = 0"

lemma base64_byte_bits:
  fixes a b c :: byte and data d :: "32 word"
  defines "d1 \<equiv> push_bit 8 data OR ucast a"
  defines "d2 \<equiv> push_bit 8 d1 OR ucast b"
  defines "d3 \<equiv> push_bit 8 d2 OR ucast c"
  defines "x1 \<equiv> push_bit 6 d OR take_bit 6 (signed_drop_bit 2 d1)"
  defines "x2 \<equiv> push_bit 6 x1 OR take_bit 6 (signed_drop_bit 4 d2)"
  defines "x3 \<equiv> push_bit 6 x2 OR take_bit 6 (signed_drop_bit 6 d3)"
  shows "ucast (take_bit 8 (drop_bit 4 x2)) = a"
    and "ucast (take_bit 8 (drop_bit 4 (push_bit 6 x1 OR take_bit 6 (push_bit 4 d1)))) = a"
    and "ucast (take_bit 8 (drop_bit 2 x3)) = b"
    and "ucast (take_bit 8 (drop_bit 2 (push_bit 6 x2 OR take_bit 6 (push_bit 2 d2)))) = b"
    and "ucast (take_bit 8 (push_bit 6 x3 OR take_bit 6 d3)) = c"
  unfolding x3_def x2_def x1_def d3_def d2_def d1_def
  by (rule byte_eqI; simp add: bit_simps byte_no_bit)+

lemma base64_encode_three:
  fixes a b c :: byte and data :: "32 word"
  defines "d1 \<equiv> push_bit 8 data OR ucast a"
  defines "d2 \<equiv> push_bit 8 d1 OR ucast b"
  defines "d3 \<equiv> push_bit 8 d2 OR ucast c"
  shows "base64_finish (base64_encode_loop (a # b # c # s) data 0) =
    base64_digit (signed_drop_bit 2 d1) # base64_digit (signed_drop_bit 4 d2) #
    base64_digit (signed_drop_bit 6 d3) # base64_digit d3 #
    base64_finish (base64_encode_loop s d3 0)"
  unfolding d3_def d2_def d1_def
  by (simp add: base64_emits Let_def base64_finish_def split: prod.splits)

lemma base64_decode_finish:
  assumes "t = [] \<or> hd t = CHR ''=''"
  shows "base64_decode_loop (base64_finish (base64_encode_loop s data 0) @ t) d 0
    = Inr (map byte_char s)"
proof (induction s arbitrary: data d rule: three_bytes.induct)
  case (1 a b c s)
  then show ?case
    by (simp only: base64_encode_three append.simps base64_decode_digit Let_def)
       (simp, (intro conjI; rule byte_eqI; simp add: bit_simps byte_no_bit))
next
  case "2_1"
  from assms show ?case
    by (simp add: base64_finish_def base64_decode_stop)
next
  case "2_2"
  from assms show ?case
    by (simp add: base64_finish_def base64_emits base64_decode_digit Let_def base64_decode_stop;
        intro conjI byte_eqI; simp add: bit_simps byte_no_bit)
next
  case "2_3"
  from assms show ?case
    by (simp add: base64_finish_def base64_emits base64_decode_digit Let_def base64_decode_stop;
        intro conjI byte_eqI; simp add: bit_simps byte_no_bit)
qed

theorem base64_decode_encode: "base64_decode (base64_encode s) = Inr (map byte_char s)"
proof -
  have "\<exists>t. base64_encode s = base64_finish (base64_encode_loop s 0 0) @ t
      \<and> (t = [] \<or> hd t = CHR ''='')"
    unfolding base64_encode_finish base64_pad_def
    by (intro exI conjI) (rule refl, metis hd_replicate replicate_0)
  then show ?thesis
    using base64_decode_finish by (metis base64_decode_def)
qed


subsection \<open>Properties\<close>


end
