(* ===== verification/BaseNix32.thy ===== *)
theory BaseNix32
  imports BaseN
begin

text \<open>
  Nix's base-32 (\<open>src/libutil/base-nix-32.cc\<close>, \<open>base-nix-32.hh\<close>): the bytes are one
  little-endian number, written as 5-bit digits with the most significant digit first.  The
  lemmas reduce both directions to statements about single bits of the byte array
  (\<open>bit_at\<close>): decoding inverts encoding, and a string of the right length is the encoding of
  what it decodes to.
\<close>

definition nix32_characters :: string where
  "nix32_characters = ''0123456789abcdfghijklmnpqrsvwxyz''"

definition nix32_invalid :: nat where
  "nix32_invalid = 255"

definition nix32_reverseMap :: "nat list" where
  "nix32_reverseMap = reverse_table nix32_characters nix32_invalid"

definition lookupReverse :: "char \<Rightarrow> byte option" where
  "lookupReverse base32 =
     (let digit = nix32_reverseMap ! of_char base32
      in if digit = nix32_invalid then None else Some (word_of_nat digit))"

text \<open>
  The C++ computes in \<open>size_t\<close>; the only caller with length 0 returns before it, so the
  subtraction never wraps.
\<close>

definition nix32_encodedLength :: "nat \<Rightarrow> nat" where
  "nix32_encodedLength originalLength = (originalLength * 8 - 1) div 5 + 1"

text \<open>
  One digit: \<open>b = n * 5\<close> is an \<open>unsigned int\<close>, so it is taken modulo \<open>2^32\<close>; \<open>i >= size - 1\<close>
  keeps the read of the next byte in bounds.
\<close>

definition nix32_digit :: "byte list \<Rightarrow> nat \<Rightarrow> byte" where
  "nix32_digit bs n =
     (let b = (n * 5) mod 2 ^ 32; i = b div 8; j = b mod 8;
          c = drop_bit j (bs ! i)
            OR (if length bs - 1 \<le> i then 0 else push_bit (8 - j) (bs ! (i + 1)))
      in c AND 0x1f)"

definition nix32_encode :: "byte list \<Rightarrow> string" where
  "nix32_encode bs =
     (if length bs = 0 then []
      else map (\<lambda>n. nix32_characters ! unat (nix32_digit bs n))
             (rev [0..<nix32_encodedLength (length bs)]))"

definition resize :: "nat \<Rightarrow> byte list \<Rightarrow> byte list" where
  "resize n res = take n res @ replicate (n - length res) 0"

definition nix32_put :: "nat \<Rightarrow> byte \<Rightarrow> byte list \<Rightarrow> byte list" where
  "nix32_put n digit res =
     (let b = (n * 5) mod 2 ^ 32; i = b div 8; j = b mod 8;
          res = resize (i + 1) res;
          res = res[i := res ! i OR push_bit j digit]
      in if drop_bit (8 - j) digit \<noteq> 0
         then let res = resize (i + 2) res
              in res[i + 1 := res ! (i + 1) OR drop_bit (8 - j) digit]
         else res)"

text \<open>The loop runs over the string from its end.\<close>

fun nix32_decode_loop :: "string \<Rightarrow> nat \<Rightarrow> byte list \<Rightarrow> exn + byte list" where
  "nix32_decode_loop [] n res = Inr res"
| "nix32_decode_loop (c # cs) n res =
     (case lookupReverse c of
        None \<Rightarrow> Inl (FormatError ''invalid character in Nix32 (Nix's Base32 variation) string'')
      | Some digit \<Rightarrow> nix32_decode_loop cs (n + 1) (nix32_put n digit res))"

definition nix32_decode :: "string \<Rightarrow> exn + string" where
  "nix32_decode s = bindE (nix32_decode_loop (rev s) 0 []) (\<lambda>res. Inr (map byte_char res))"

subsection \<open>Digits and characters\<close>

lemma nix32_characters_distinct: "distinct nix32_characters" "length nix32_characters = 32"
  by (simp_all add: nix32_characters_def)

lemma unat_less_32_iff: "unat w < 32 \<longleftrightarrow> (\<forall>m\<ge>5. \<not> bit (w :: byte) m)"
proof -
  have "unat w < 32 \<longleftrightarrow> take_bit 5 (unat w) = unat w"
    by (simp add: take_bit_nat_eq_self_iff)
  also have "\<dots> \<longleftrightarrow> (\<forall>m. (m < 5 \<and> bit (unat w) m) = bit (unat w) m)"
    by (simp add: bit_eq_iff bit_take_bit_iff)
  also have "\<dots> \<longleftrightarrow> (\<forall>m. (m < 5 \<and> bit w m) = bit w m)"
    by (simp add: bit_unsigned_iff)
  also have "\<dots> \<longleftrightarrow> (\<forall>m\<ge>5. \<not> bit w m)"
    by (meson not_le)
  finally show ?thesis .
qed

lemma lookupReverse_eq_Some:
  "lookupReverse c = Some d \<longleftrightarrow> unat d < 32 \<and> c = nix32_characters ! unat d"
proof (cases "c \<in> set nix32_characters")
  case True
  then obtain n where n: "n < 32" "c = nix32_characters ! n"
    using nix32_characters_distinct(2) by (metis in_set_conv_nth)
  then have "lookupReverse c = Some (word_of_nat n)"
    by (simp add: lookupReverse_def nix32_reverseMap_def nix32_invalid_def
        reverse_table_digit nix32_characters_distinct)
  moreover have "unat (word_of_nat n :: byte) = n"
    using n(1) by (simp add: unat_of_nat)
  moreover have "n = unat d" if "unat d < 32" "c = nix32_characters ! unat d"
    using that n nix32_characters_distinct by (metis nth_eq_iff_index_eq)
  ultimately show ?thesis
    using n by auto
next
  case False
  then have "lookupReverse c = None"
    by (simp add: lookupReverse_def nix32_reverseMap_def nix32_invalid_def
        reverse_table_invalid nix32_characters_distinct)
  moreover have "c \<noteq> nix32_characters ! n" if "n < 32" for n
    using that False nix32_characters_distinct(2) by (metis nth_mem)
  ultimately show ?thesis
    by auto
qed

subsection \<open>Single bits of a byte array\<close>

definition bit_at :: "byte list \<Rightarrow> nat \<Rightarrow> bool" where
  "bit_at bs m \<longleftrightarrow> m div 8 < length bs \<and> bit (bs ! (m div 8)) (m mod 8)"

lemma bit_at_beyond: "8 * length bs \<le> m \<Longrightarrow> \<not> bit_at bs m"
  by (simp add: bit_at_def) linarith

lemma bit_at_eqI:
  assumes "length xs = length ys" and "\<And>m. bit_at xs m = bit_at ys m"
  shows "xs = ys"
proof (rule nth_equalityI)
  fix i assume i: "i < length xs"
  show "xs ! i = ys ! i"
  proof (rule bit_eqI)
    fix k :: nat
    show "bit (xs ! i) k = bit (ys ! i) k"
    proof (cases "k < 8")
      case True
      then have "(8 * i + k) div 8 = i" "(8 * i + k) mod 8 = k"
        by simp_all
      with i assms show ?thesis
        by (metis bit_at_def)
    next
      case False
      then show ?thesis by (simp add: byte_no_bit)
    qed
  qed
qed (rule assms)

lemma length_resize [simp]: "length (resize n xs) = n"
  by (simp add: resize_def)

lemma bit_at_resize: "bit_at (resize n xs) m \<longleftrightarrow> bit_at xs m \<and> m < 8 * n"
proof -
  have "m div 8 < n \<longleftrightarrow> m < 8 * n"
    by (simp add: div_less_iff_less_mult mult.commute)
  then show ?thesis
    by (auto simp: bit_at_def resize_def nth_append)
qed

lemma bit_at_update:
  "i < length xs \<Longrightarrow>
   bit_at (xs[i := xs ! i OR w]) m \<longleftrightarrow> bit_at xs m \<or> m div 8 = i \<and> bit w (m mod 8)"
  by (auto simp: bit_at_def nth_list_update bit_or_iff)

text \<open>A digit holds the five bits of the array from \<open>5 * n\<close> on.\<close>

lemma bit_nix32_digit:
  assumes "n * 5 < 2 ^ 32" and "n * 5 < 8 * length bs"
  shows "bit (nix32_digit bs n) k \<longleftrightarrow> k < 5 \<and> bit_at bs (n * 5 + k)"
proof -
  define i j where "i = n * 5 div 8" and "j = n * 5 mod 8"
  have n: "n * 5 = 8 * i + j" and j: "j < 8"
    by (simp_all add: i_def j_def)
  have i: "i < length bs"
    using assms(2) by (simp add: i_def less_mult_imp_div_less)
  have mask: "(0x1f :: byte) = mask 5"
    by (simp add: mask_eq_exp_minus_1)
  have "bit (nix32_digit bs n) k \<longleftrightarrow> k < 5 \<and>
      (bit (bs ! i) (j + k) \<or> \<not> length bs - 1 \<le> i \<and> 8 - j \<le> k \<and> bit (bs ! (i + 1)) (k - (8 - j)))"
    using assms(1) i_def j_def
    by (auto simp: nix32_digit_def Let_def mask bit_simps byte_no_bit)
  also have "\<dots> \<longleftrightarrow> k < 5 \<and> bit_at bs (n * 5 + k)"
  proof (cases "j + k < 8")
    case True
    then have "(8 * i + j + k) div 8 = i" "(8 * i + j + k) mod 8 = j + k"
      by (simp_all add: add.assoc)
    with True i show ?thesis
      by (auto simp: bit_at_def n)
  next
    case False
    then obtain r where r: "j + k = 8 + r"
      by (metis le_add_diff_inverse not_less)
    show ?thesis
    proof (cases "k < 5")
      case True
      with r j have "r < 8" by linarith
      moreover have jk: "8 * i + j + k = r + 8 * (i + 1)"
        by (simp add: add.assoc r)
      ultimately have "(8 * i + j + k) div 8 = i + 1" "(8 * i + j + k) mod 8 = r"
        by (simp_all only: jk div_mult_self2 mod_mult_self2) simp_all
      moreover have "k - (8 - j) = r" "8 - j \<le> k"
        using r j by linarith+
      moreover have "\<not> bit (bs ! i) (j + k)"
        using r by (simp add: byte_no_bit)
      moreover have "\<not> length bs - 1 \<le> i \<longleftrightarrow> i + 1 < length bs"
        using i by linarith
      ultimately show ?thesis
        by (simp only: bit_at_def n) simp
    qed simp
  qed
  finally show ?thesis .
qed

subsection \<open>Decoding, bit by bit\<close>

lemma spill_bits:
  fixes d :: byte
  assumes "j < 8"
  shows "(q = i \<and> bit (push_bit j d) t \<or> q = i + 1 \<and> bit (drop_bit (8 - j) d) t) \<and> t < 8
    \<longleftrightarrow> 8 * i + j \<le> 8 * q + t \<and> t < 8 \<and> bit d (8 * q + t - (8 * i + j))"
proof (cases "t < 8")
  case t: True
  consider "q < i" | "q = i" | "q = i + 1" | "i + 1 < q"
    by linarith
  then show ?thesis
  proof cases
    case 1
    then have "8 * q + t < 8 * i + j" using t by linarith
    with 1 show ?thesis by simp
  next
    case 2
    then show ?thesis using t assms by (auto simp: bit_simps)
  next
    case 3
    then have "8 * q + t - (8 * i + j) = 8 - j + t" "8 * i + j \<le> 8 * q + t"
      using assms by linarith+
    moreover have "q \<noteq> i" using 3 by linarith
    moreover have "bit (drop_bit (8 - j) d) t = bit d (8 - j + t)"
      by (rule bit_drop_bit_eq [THEN fun_cong, unfolded comp_def])
    ultimately show ?thesis using 3 t by (simp only: simp_thms)
  next
    case 4
    then have "8 \<le> 8 * q + t - (8 * i + j)" using assms by linarith
    then have "\<not> bit d (8 * q + t - (8 * i + j))" by (rule byte_no_bit)
    moreover have "q \<noteq> i" "q \<noteq> i + 1" using 4 by linarith+
    ultimately show ?thesis by (simp only: simp_thms)
  qed
qed simp

lemma nix32_put_bits:
  assumes n: "n * 5 < 2 ^ 32" and len: "length res \<le> n * 5 div 8 + 1"
  shows "bit_at (nix32_put n d res) m \<longleftrightarrow> bit_at res m \<or> n * 5 \<le> m \<and> bit d (m - n * 5)"
    and "length (nix32_put n d res) =
      n * 5 div 8 + (if drop_bit (8 - n * 5 mod 8) d \<noteq> 0 then 2 else 1)"
proof -
  define i j where "i = n * 5 div 8" and "j = n * 5 mod 8"
  have nij: "n * 5 = 8 * i + j" and j: "j < 8"
    by (simp_all add: i_def j_def)
  have mod: "n * 5 mod 2 ^ 32 = n * 5"
    using n by simp
  define r where "r = (resize (i + 1) res)[i := resize (i + 1) res ! i OR push_bit j d]"
  have put: "nix32_put n d res =
      (if drop_bit (8 - j) d \<noteq> 0
       then (resize (i + 2) r)[i + 1 := resize (i + 2) r ! (i + 1) OR drop_bit (8 - j) d] else r)"
    unfolding nix32_put_def Let_def mod r_def i_def j_def ..
  have len_r: "length r = i + 1"
    by (simp add: r_def)
  show "length (nix32_put n d res) =
      n * 5 div 8 + (if drop_bit (8 - n * 5 mod 8) d \<noteq> 0 then 2 else 1)"
    unfolding put i_def [symmetric] j_def [symmetric] by (simp add: len_r)
  have res: "bit_at res m \<Longrightarrow> m < 8 * (i + 1)"
    using len bit_at_beyond [of res m] by (fold i_def) (metis less_le_trans mult_le_mono2 not_le)
  have bit_r: "bit_at r m \<longleftrightarrow> bit_at res m \<or> m div 8 = i \<and> bit (push_bit j d) (m mod 8)"
    using res by (auto simp: r_def bit_at_update bit_at_resize)
  then have r: "bit_at r m \<Longrightarrow> m < 8 * (i + 2)"
    using res by auto
  have "bit_at (nix32_put n d res) m \<longleftrightarrow> bit_at res m \<or>
      m div 8 = i \<and> bit (push_bit j d) (m mod 8) \<or>
      m div 8 = i + 1 \<and> bit (drop_bit (8 - j) d) (m mod 8)"
    unfolding put using r by (auto simp: bit_at_update bit_at_resize bit_r)
  also have "\<dots> \<longleftrightarrow> bit_at res m \<or> n * 5 \<le> m \<and> bit d (m - n * 5)"
    using spill_bits [OF j, of "m div 8" i d "m mod 8"] by (simp add: nij)
  finally show "bit_at (nix32_put n d res) m \<longleftrightarrow> bit_at res m \<or> n * 5 \<le> m \<and> bit d (m - n * 5)" .
qed

lemma nix32_put_length:
  assumes "n * 5 < 2 ^ 32" "length res \<le> n * 5 div 8 + 1" "unat d < 32"
  shows "length (nix32_put n d res) \<le> (n + 1) * 5 div 8 + 1"
proof -
  have "4 \<le> n * 5 mod 8" if spill: "drop_bit (8 - n * 5 mod 8) d \<noteq> 0"
  proof (rule ccontr)
    assume "\<not> ?thesis"
    then have "5 \<le> 8 - n * 5 mod 8" by linarith
    then have "drop_bit (8 - n * 5 mod 8) d = 0"
      using assms(3) by (intro bit_eqI) (simp add: bit_simps unat_less_32_iff)
    with spill show False by simp
  qed
  moreover have "n * 5 div 8 + 1 \<le> (n + 1) * 5 div 8" if "4 \<le> n * 5 mod 8"
    using that by presburger
  moreover have "n * 5 div 8 \<le> (n + 1) * 5 div 8"
    by presburger
  ultimately show ?thesis
    unfolding nix32_put_bits(2) [OF assms(1,2), of d] by (simp split: if_splits)
qed

text \<open>
  What the loop leaves in the array when it has read the digits \<open>D 0, D 1, \<dots>\<close>: bit \<open>m\<close> is
  bit \<open>m mod 5\<close> of digit \<open>m div 5\<close>.
\<close>

lemma nix32_loop_bits:
  assumes "nix32_decode_loop cs n res = Inr r"
    and "(n + length cs) * 5 < 2 ^ 32" and "length res \<le> n * 5 div 8 + 1"
  shows "\<exists>D. (\<forall>k<length cs. lookupReverse (cs ! k) = Some (D k))
    \<and> (\<forall>m. bit_at r m \<longleftrightarrow> bit_at res m
          \<or> (\<exists>k<length cs. (n + k) * 5 \<le> m \<and> bit (D k) (m - (n + k) * 5)))"
  using assms
proof (induction cs arbitrary: n res)
  case Nil
  then show ?case by simp
next
  case (Cons c cs)
  from Cons.prems(1) obtain d where d: "lookupReverse c = Some d"
    and loop: "nix32_decode_loop cs (n + 1) (nix32_put n d res) = Inr r"
    by (auto split: option.splits)
  have n5: "n * 5 < 2 ^ 32"
    using Cons.prems(2) by simp
  from d have "unat d < 32"
    by (simp add: lookupReverse_eq_Some)
  then have "length (nix32_put n d res) \<le> (n + 1) * 5 div 8 + 1"
    by (rule nix32_put_length [OF n5 Cons.prems(3)])
  moreover have "(n + 1 + length cs) * 5 < 2 ^ 32"
    using Cons.prems(2) by simp
  ultimately obtain D where D: "\<forall>k<length cs. lookupReverse (cs ! k) = Some (D k)"
    and bits: "\<And>m. bit_at r m \<longleftrightarrow> bit_at (nix32_put n d res) m
        \<or> (\<exists>k<length cs. (n + 1 + k) * 5 \<le> m \<and> bit (D k) (m - (n + 1 + k) * 5))"
    using Cons.IH [OF loop] by blast
  define D' where "D' = case_nat d D"
  have "\<forall>k<length (c # cs). lookupReverse ((c # cs) ! k) = Some (D' k)"
    using D d by (auto simp: D'_def less_Suc_eq_0_disj)
  moreover have "bit_at r m \<longleftrightarrow> bit_at res m
      \<or> (\<exists>k<length (c # cs). (n + k) * 5 \<le> m \<and> bit (D' k) (m - (n + k) * 5))" for m
    unfolding bits nix32_put_bits(1) [OF n5 Cons.prems(3)]
    by (simp add: D'_def Ex_less_Suc2 add.commute add.left_commute)
  ultimately show ?case by blast
qed

lemma nix32_loop_total:
  "\<forall>c \<in> set cs. lookupReverse c \<noteq> None \<Longrightarrow> \<exists>r. nix32_decode_loop cs n res = Inr r"
  by (induction cs arbitrary: n res) auto

lemma nix32_loop_length:
  assumes "nix32_decode_loop cs n res = Inr r" and "cs \<noteq> []"
    and "(n + length cs) * 5 < 2 ^ 32" and "length res \<le> n * 5 div 8 + 1"
  defines "i \<equiv> (n + length cs - 1) * 5 div 8"
  shows "length r = i + 1 \<or> length r = i + 2 \<and> (\<exists>m\<ge>8 * (i + 1). bit_at r m)"
  using assms(1-4) unfolding i_def
proof (induction cs arbitrary: n res)
  case Nil
  then show ?case by simp
next
  case (Cons c cs)
  from Cons.prems(1) obtain d where d: "lookupReverse c = Some d"
    and loop: "nix32_decode_loop cs (n + 1) (nix32_put n d res) = Inr r"
    by (auto split: option.splits)
  have n5: "n * 5 < 2 ^ 32"
    using Cons.prems(3) by simp
  from d have d32: "unat d < 32"
    by (simp add: lookupReverse_eq_Some)
  show ?case
  proof (cases "cs = []")
    case False
    then have "n + 1 + length cs - 1 = n + length (c # cs) - 1"
      by simp
    with Cons.IH [OF loop False] Cons.prems(3) nix32_put_length [OF n5 Cons.prems(4) d32]
    show ?thesis by simp
  next
    case True
    with loop have r: "r = nix32_put n d res" by simp
    show ?thesis
    proof (cases "drop_bit (8 - n * 5 mod 8) d = 0")
      case True
      then show ?thesis
        using nix32_put_bits(2) [OF n5 Cons.prems(4), of d] r \<open>cs = []\<close> by simp
    next
      case False
      then obtain t where t: "bit d (8 - n * 5 mod 8 + t)"
        by (auto simp: bit_eq_iff bit_simps)
      define q j where "q = n * 5 div 8" and "j = n * 5 mod 8"
      have "n * 5 = 8 * q + j" "j < 8"
        by (simp_all add: q_def j_def)
      then have "n * 5 \<le> 8 * (q + 1) + t" "8 * (q + 1) + t - n * 5 = 8 - j + t"
        by arith+
      then have "n * 5 \<le> 8 * (n * 5 div 8 + 1) + t"
        "8 * (n * 5 div 8 + 1) + t - n * 5 = 8 - n * 5 mod 8 + t"
        by (simp_all only: q_def j_def)
      with t have "bit_at r (8 * (n * 5 div 8 + 1) + t)"
        unfolding r nix32_put_bits(1) [OF n5 Cons.prems(4)] by simp
      then show ?thesis
        using nix32_put_bits(2) [OF n5 Cons.prems(4), of d] r False \<open>cs = []\<close>
        by (auto intro: exI [of _ "8 * (n * 5 div 8 + 1) + t"])
    qed
  qed
qed

lemma nix32_decode_eq_Inr:
  "nix32_decode s = Inr d \<longleftrightarrow> (\<exists>r. nix32_decode_loop (rev s) 0 [] = Inr r \<and> d = map byte_char r)"
  by (auto simp: nix32_decode_def bindE_eq_Inr)

lemma length_nix32_encode:
  "bs \<noteq> [] \<Longrightarrow> length (nix32_encode bs) = nix32_encodedLength (length bs)"
  by (simp add: nix32_encode_def)

lemma nix32_encode_nth:
  "bs \<noteq> [] \<Longrightarrow> k < nix32_encodedLength (length bs) \<Longrightarrow>
   rev (nix32_encode bs) ! k = nix32_characters ! unat (nix32_digit bs k)"
  by (simp add: nix32_encode_def rev_map)

subsection \<open>Round trips\<close>

lemma nix32_length_arith:
  assumes "0 < (B::nat)"
  shows "(nix32_encodedLength B - 1) * 5 div 8 = B - 1"
    and "8 * B \<le> nix32_encodedLength B * 5"
    and "k < nix32_encodedLength B \<Longrightarrow> k * 5 < 8 * B"
    and "nix32_encodedLength B * 5 \<le> 8 * B + 4"
proof -
  define q r where "q = (B * 8 - 1) div 5" and "r = (B * 8 - 1) mod 5"
  have "B * 8 - 1 = 5 * q + r" "r < 5"
    by (simp_all add: q_def r_def)
  then have q: "5 * q + r + 1 = B * 8"
    using assms by linarith
  have len: "nix32_encodedLength B = q + 1"
    by (simp add: nix32_encodedLength_def q_def)
  have "q * 5 div 8 = B - 1"
    using q \<open>r < 5\<close> assms by (intro div_nat_eqI) simp_all
  then show "(nix32_encodedLength B - 1) * 5 div 8 = B - 1"
    by (simp add: len)
  show "8 * B \<le> nix32_encodedLength B * 5"
    and "k < nix32_encodedLength B \<Longrightarrow> k * 5 < 8 * B"
    and "nix32_encodedLength B * 5 \<le> 8 * B + 4"
    unfolding len using q \<open>r < 5\<close> by simp_all
qed

lemma nix32_digits_in:
  assumes "bs \<noteq> []" and "length bs < 2 ^ 28" and "k < nix32_encodedLength (length bs)"
  shows "bit (nix32_digit bs k) m \<longleftrightarrow> m < 5 \<and> bit_at bs (k * 5 + m)"
    and "unat (nix32_digit bs k) < 32"
proof -
  have B: "0 < length bs"
    using assms(1) by simp
  have "k * 5 < 8 * length bs"
    by (rule nix32_length_arith(3) [OF B assms(3)])
  with assms(2) have "k * 5 < 2 ^ 32" "k * 5 < 8 * length bs"
    by simp_all
  from bit_nix32_digit [OF this]
  show bits: "bit (nix32_digit bs k) m \<longleftrightarrow> m < 5 \<and> bit_at bs (k * 5 + m)" for m .
  show "unat (nix32_digit bs k) < 32"
    by (simp add: unat_less_32_iff bits)
qed

text \<open>Digits read from a bit on: \<open>m\<close> lies in exactly one of them.\<close>

lemma digit_of_bit:
  "(\<exists>k<L. k * 5 \<le> m \<and> m - k * 5 < 5 \<and> P k (m - k * 5)) \<longleftrightarrow>
   m < L * 5 \<and> P (m div 5) (m mod 5)" for m :: nat
proof
  assume "\<exists>k<L. k * 5 \<le> m \<and> m - k * 5 < 5 \<and> P k (m - k * 5)"
  then obtain k where k: "k < L" "k * 5 \<le> m" "m - k * 5 < 5" "P k (m - k * 5)"
    by blast
  define t where "t = m - k * 5"
  have "m = t + k * 5" "t < 5"
    using k by (simp_all add: t_def)
  with k(1,4) show "m < L * 5 \<and> P (m div 5) (m mod 5)"
    by simp
next
  assume m: "m < L * 5 \<and> P (m div 5) (m mod 5)"
  have "m div 5 < L"
    using m by (simp add: div_less_iff_less_mult)
  moreover have "m div 5 * 5 \<le> m \<and> m - m div 5 * 5 = m mod 5 \<and> m mod 5 < 5"
    by (simp add: minus_div_mult_eq_mod)
  ultimately show "\<exists>k<L. k * 5 \<le> m \<and> m - k * 5 < 5 \<and> P k (m - k * 5)"
    using m by metis
qed

theorem nix32_decode_encode:
  assumes "length bs < 2 ^ 28"
  shows "nix32_decode (nix32_encode bs) = Inr (map byte_char bs)"
proof (cases "bs = []")
  case True
  then show ?thesis by (simp add: nix32_encode_def nix32_decode_def)
next
  case False
  define L where "L = nix32_encodedLength (length bs)"
  define cs where "cs = rev (nix32_encode bs)"
  have B: "0 < length bs" using False by simp
  have len: "length cs = L"
    by (simp add: cs_def L_def length_nix32_encode False)
  have L: "(0 + length cs) * 5 < 2 ^ 32"
    using nix32_length_arith(4) [OF B] assms by (simp add: len L_def)
  have look: "lookupReverse (cs ! k) = Some (nix32_digit bs k)" if "k < L" for k
    using that nix32_digits_in(2) [OF False assms]
    by (simp add: cs_def nix32_encode_nth [OF False] L_def lookupReverse_eq_Some)
  then have "\<forall>c\<in>set cs. lookupReverse c \<noteq> None"
    by (metis in_set_conv_nth len option.distinct(1))
  then obtain r where r: "nix32_decode_loop cs 0 [] = Inr r"
    using nix32_loop_total by blast
  obtain D where D: "\<forall>k<length cs. lookupReverse (cs ! k) = Some (D k)"
    and bits: "\<And>m. bit_at r m \<longleftrightarrow> bit_at [] m
      \<or> (\<exists>k<length cs. (0 + k) * 5 \<le> m \<and> bit (D k) (m - (0 + k) * 5))"
    using nix32_loop_bits [OF r L] by auto
  have "bit_at r m \<longleftrightarrow> bit_at bs m" for m
  proof -
    have "bit_at r m \<longleftrightarrow> (\<exists>k<L. k * 5 \<le> m \<and> bit (nix32_digit bs k) (m - k * 5))"
      using bits D look len by (auto simp: bit_at_def)
    also have "\<dots> \<longleftrightarrow> (\<exists>k<L. k * 5 \<le> m \<and> m - k * 5 < 5 \<and> bit_at bs (k * 5 + (m - k * 5)))"
      using nix32_digits_in(1) [OF False assms] by (auto simp: L_def)
    also have "\<dots> \<longleftrightarrow> m < L * 5 \<and> bit_at bs m"
      unfolding digit_of_bit [where P = "\<lambda>k t. bit_at bs (k * 5 + t)"] by simp
    finally show ?thesis
      using nix32_length_arith(2) [OF B] bit_at_beyond [of bs m] by (auto simp: L_def)
  qed
  moreover have "length r = length bs"
  proof -
    have "\<not> (\<exists>m\<ge>8 * (length bs - 1 + 1). bit_at r m)"
      using calculation bit_at_beyond [of bs] B by simp
    moreover have "cs \<noteq> []" "(0 + length cs - 1) * 5 div 8 = length bs - 1"
      using len nix32_length_arith(1) [OF B] by (auto simp: L_def nix32_encodedLength_def)
    ultimately show ?thesis
      using nix32_loop_length [OF r _ L] B by auto
  qed
  ultimately show ?thesis
    using bit_at_eqI r by (auto simp: nix32_decode_eq_Inr cs_def)
qed

text \<open>
  The other direction: a string whose length is that of an encoding is the encoding of the
  bytes it decodes to.  A digit that spills past the last byte makes the result one byte too
  long, so it is the length that rejects it.
\<close>

theorem nix32_encode_decode:
  assumes "nix32_decode s = Inr d" and "length s = nix32_encodedLength (length d)"
    and "d \<noteq> []" and "length d < 2 ^ 28"
  shows "nix32_encode (map char_byte d) = s"
proof -
  from assms(1) obtain r where r: "nix32_decode_loop (rev s) 0 [] = Inr r" "d = map byte_char r"
    by (auto simp: nix32_decode_eq_Inr)
  define L where "L = nix32_encodedLength (length r)"
  have len: "length s = L" "r \<noteq> []" "length r < 2 ^ 28"
    using assms r by (simp_all add: L_def)
  have B: "0 < length r" using len by simp
  have L: "(0 + length (rev s)) * 5 < 2 ^ 32"
    using nix32_length_arith(4) [OF B] len by (simp add: L_def)
  obtain D where D: "\<forall>k<L. lookupReverse (rev s ! k) = Some (D k)"
    and bits: "\<And>m. bit_at r m \<longleftrightarrow> (\<exists>k<L. k * 5 \<le> m \<and> bit (D k) (m - k * 5))"
    using nix32_loop_bits [OF r(1) L] by (auto simp: bit_at_def len(1))
  have D5: "\<not> bit (D k) t" if "k < L" "5 \<le> t" for k t
    using D that by (simp add: lookupReverse_eq_Some unat_less_32_iff)
  have "bit_at r m \<longleftrightarrow> m < L * 5 \<and> bit (D (m div 5)) (m mod 5)" for m
    unfolding bits digit_of_bit [where P = "\<lambda>k. bit (D k)", symmetric] by (metis D5 not_less)
  then have all: "bit_at r m \<longleftrightarrow> m < L * 5 \<and> bit (D (m div 5)) (m mod 5)" for m .
  have "nix32_digit r k = D k" if k: "k < L" for k
  proof (rule bit_eqI)
    fix t
    have "bit (nix32_digit r k) t \<longleftrightarrow> t < 5 \<and> bit_at r (k * 5 + t)"
      using nix32_digits_in(1) [OF len(2,3)] k by (simp add: L_def)
    also have "\<dots> \<longleftrightarrow> t < 5 \<and> bit (D k) t"
      using k by (auto simp: all)
    also have "\<dots> \<longleftrightarrow> bit (D k) t"
      using D5 [OF k, of t] by linarith
    finally show "bit (nix32_digit r k) t = bit (D k) t" .
  qed
  then have "rev (nix32_encode r) = rev s"
    using D len nix32_encode_nth [OF len(2)]
    by (intro nth_equalityI) (auto simp: length_nix32_encode L_def lookupReverse_eq_Some)
  then show ?thesis
    by (simp add: r(2) comp_def)
qed

text \<open>So two strings of that length that decode to the same bytes are equal.\<close>

lemma nix32_decode_inj:
  assumes "nix32_decode s = Inr d" "nix32_decode t = Inr d"
    and "length s = nix32_encodedLength (length d)" "length t = nix32_encodedLength (length d)"
    and "d \<noteq> []" "length d < 2 ^ 28"
  shows "s = t"
  using nix32_encode_decode [OF assms(1,3,5,6)] nix32_encode_decode [OF assms(2,4,5,6)] by simp

lemma set_nix32_encode: "length bs < 2 ^ 28 \<Longrightarrow> set (nix32_encode bs) \<subseteq> set nix32_characters"
proof (cases "bs = []")
  case False
  assume "length bs < 2 ^ 28"
  then show ?thesis
    using nix32_digits_in(2) [OF False] nix32_characters_distinct(2)
    by (auto simp: nix32_encode_def)
qed (simp add: nix32_encode_def)


subsection \<open>Properties\<close>

text \<open>
  C13.  Nix base-32 is a bijection between the byte strings of a length and the accepted digit
  strings of the encoded length: a string of that length decodes to some bytes exactly if it
  is their encoding.  Below 2 ^ 28 bytes the bit positions fit the code's 32-bit counters.
\<close>

theorem nix32_bijection:
  assumes "bs \<noteq> []" and "length bs < 2 ^ 28"
  shows "nix32_decode s = Inr (map byte_char bs) \<and> length s = nix32_encodedLength (length bs)
     \<longleftrightarrow> s = nix32_encode bs"
  using nix32_decode_encode [OF assms(2)] length_nix32_encode [OF assms(1)]
    nix32_encode_decode [of s "map byte_char bs"] assms
  by (auto simp: comp_def)

theorem nix32_bijection_witness:
  "nix32_decode (nix32_encode [0xAB, 7]) = Inr (map byte_char [0xAB, 7]) \<and>
   length (nix32_encode [0xAB, 7]) = nix32_encodedLength (length ([0xAB, 7] :: byte list))"
  using nix32_bijection [of "[0xAB, 7]" "nix32_encode [0xAB, 7]"] by simp

end
