(* ===== verification/StringUtil.thy ===== *)
theory StringUtil
  imports Prelude "HOL-Library.Sublist"
begin

text \<open>
  The string helpers of libutil: tokenising, splitting, joining and replacing
  (\<open>strings-inline.hh\<close>, \<open>util.cc\<close>), prefix splitting (\<open>split.hh\<close>) and \<open>alignUp\<close>
  (\<open>alignment.hh\<close>).  Positions into a string become suffixes of it:
  \<open>find_first_of(seps, pos)\<close> is where \<^const>\<open>takeWhile\<close> stops on the suffix at \<open>pos\<close>.
\<close>

subsection \<open>Tokenising, splitting, joining\<close>

lemma dropWhile_shorter: "dropWhile P s = c # rest \<Longrightarrow> length rest < length s"
  by (metis length_Cons length_dropWhile_le Suc_le_eq)

function tokenizeString :: "string \<Rightarrow> string \<Rightarrow> string list" where
  "tokenizeString s separators =
     (case dropWhile (\<lambda>c. c \<in> set separators) s of
        [] \<Rightarrow> []
      | c # rest \<Rightarrow>
          (c # takeWhile (\<lambda>c. c \<notin> set separators) rest)
          # tokenizeString (dropWhile (\<lambda>c. c \<notin> set separators) rest) separators)"
  by pat_completeness auto
termination
  by (relation "measure (\<lambda>(s, _). length s)")
     (auto dest!: dropWhile_shorter intro: le_less_trans [OF length_dropWhile_le])

declare tokenizeString.simps [simp del]

function splitString :: "string \<Rightarrow> string \<Rightarrow> string list" where
  "splitString s separators =
     takeWhile (\<lambda>c. c \<notin> set separators) s
     # (case dropWhile (\<lambda>c. c \<notin> set separators) s of
          [] \<Rightarrow> []
        | _ # rest \<Rightarrow> splitString rest separators)"
  by pat_completeness auto
termination
  by (relation "measure (\<lambda>(s, _). length s)") (auto dest!: dropWhile_shorter)

declare splitString.simps [simp del]

text \<open>The join loop with its \<open>tail\<close> flag (the size it computes first is only reserved).\<close>

fun concatStringsSep_loop :: "string \<Rightarrow> bool \<Rightarrow> string list \<Rightarrow> string" where
  "concatStringsSep_loop sep tail [] = []"
| "concatStringsSep_loop sep tail (i # ss) =
     (if tail then sep else []) @ i @ concatStringsSep_loop sep True ss"

definition concatStringsSep :: "string \<Rightarrow> string list \<Rightarrow> string" where
  "concatStringsSep sep ss = concatStringsSep_loop sep False ss"

definition concatStrings :: "string list \<Rightarrow> string" where
  "concatStrings parts = concatStringsSep [] parts"

lemma concatStringsSep_loop_True:
  "concatStringsSep_loop sep True ss = concat (map (\<lambda>s. sep @ s) ss)"
  by (induction ss) simp_all

lemma concatStringsSep_Cons:
  "concatStringsSep sep (s # ss) = s @ concat (map (\<lambda>s. sep @ s) ss)"
  by (simp add: concatStringsSep_def concatStringsSep_loop_True)

lemma concatStrings_eq [simp]: "concatStrings ss = concat ss"
  by (cases ss) (simp_all add: concatStrings_def concatStringsSep_def concatStringsSep_loop_True)

lemma splitString_nonempty: "splitString s seps \<noteq> []"
  by (subst splitString.simps) simp

text \<open>Splitting at one character and joining with it again gives the string back.\<close>

lemma splitString_none: "c \<notin> set s \<Longrightarrow> splitString s [c] = [s]"
proof -
  assume "c \<notin> set s"
  then have "takeWhile (\<lambda>d. d \<notin> set [c]) s = s" "dropWhile (\<lambda>d. d \<notin> set [c]) s = []"
    by (induction s) auto
  then show ?thesis
    by (subst splitString.simps) (simp only: list.case)
qed

lemma splitString_sep: "c \<notin> set p \<Longrightarrow> splitString (p @ c # rest) [c] = p # splitString rest [c]"
proof -
  assume "c \<notin> set p"
  then have "takeWhile (\<lambda>d. d \<notin> set [c]) (p @ c # rest) = p"
    "dropWhile (\<lambda>d. d \<notin> set [c]) (p @ c # rest) = c # rest"
    by (induction p) auto
  then show ?thesis
    by (subst splitString.simps) simp
qed

theorem concat_splitString: "concatStringsSep [c] (splitString s [c]) = s"
proof (induction s rule: length_induct)
  case (1 s)
  show ?case
  proof (cases "c \<in> set s")
    case False
    then show ?thesis
      by (simp add: splitString_none concatStringsSep_Cons)
  next
    case True
    then obtain p rest where s: "s = p @ c # rest" and p: "c \<notin> set p"
      by (meson split_list_first)
    obtain t ts where ts: "splitString rest [c] = t # ts"
      using splitString_nonempty by (cases "splitString rest [c]") auto
    moreover have "concatStringsSep [c] (splitString rest [c]) = rest"
      using 1 s by simp
    ultimately show ?thesis
      by (simp add: s splitString_sep [OF p] concatStringsSep_Cons)
  qed
qed

theorem split_concatStrings:
  assumes "ss \<noteq> []" and "\<forall>s \<in> set ss. c \<notin> set s"
  shows "splitString (concatStringsSep [c] ss) [c] = ss"
  using assms
proof (induction ss)
  case (Cons s ss)
  show ?case
  proof (cases ss)
    case Nil
    with Cons.prems show ?thesis
      by (simp add: concatStringsSep_Cons splitString_none)
  next
    case (Cons t ts)
    with Cons.IH Cons.prems show ?thesis
      by (simp add: concatStringsSep_Cons splitString_sep)
  qed
qed simp

text \<open>No token is empty or contains a separator.\<close>

lemma tokenizeString_tokens:
  "t \<in> set (tokenizeString s seps) \<Longrightarrow> t \<noteq> [] \<and> (\<forall>c \<in> set t. c \<notin> set seps)"
proof (induction s seps rule: tokenizeString.induct)
  case (1 s seps)
  show ?case
  proof (cases "dropWhile (\<lambda>c. c \<in> set seps) s")
    case Nil
    with "1.prems" show ?thesis
      by (subst (asm) tokenizeString.simps) simp
  next
    case (Cons c rest)
    then have "c \<notin> set seps"
      using hd_dropWhile [of "\<lambda>c. c \<in> set seps" s] by simp
    moreover from Cons "1.prems" have "t = c # takeWhile (\<lambda>c. c \<notin> set seps) rest
        \<or> t \<in> set (tokenizeString (dropWhile (\<lambda>c. c \<notin> set seps) rest) seps)"
      by (subst (asm) tokenizeString.simps) simp
    ultimately show ?thesis
    proof (elim disjE)
      assume "t \<in> set (tokenizeString (dropWhile (\<lambda>c. c \<notin> set seps) rest) seps)"
      then show ?thesis by (rule "1.IH" [OF Cons])
    qed (auto dest: set_takeWhileD)
  qed
qed

subsection \<open>Prefixes, trailing whitespace, replacement\<close>

definition hasPrefix :: "string \<Rightarrow> string \<Rightarrow> bool" where
  "hasPrefix s pre \<longleftrightarrow> take (length pre) s = pre"

lemma hasPrefix_iff: "hasPrefix s p \<longleftrightarrow> prefix p s"
  by (auto simp: hasPrefix_def prefix_def) (metis append_take_drop_id)

text \<open>Both split functions return what they return and the new value of their argument.\<close>

definition splitPrefixTo :: "string \<Rightarrow> char \<Rightarrow> string option \<times> string" where
  "splitPrefixTo str separator =
     (case dropWhile (\<lambda>c. c \<noteq> separator) str of
        [] \<Rightarrow> (None, str)
      | _ # rest \<Rightarrow> (Some (takeWhile (\<lambda>c. c \<noteq> separator) str), rest))"

definition splitPrefix :: "string \<Rightarrow> string \<Rightarrow> bool \<times> string" where
  "splitPrefix str pre =
     (let res = hasPrefix str pre in (res, if res then drop (length pre) str else str))"

lemma splitPrefixTo_found: "c \<notin> set p \<Longrightarrow> splitPrefixTo (p @ c # s) c = (Some p, s)"
proof -
  assume c: "c \<notin> set p"
  have "takeWhile (\<lambda>d. d \<noteq> c) (p @ c # s) = p" "dropWhile (\<lambda>d. d \<noteq> c) (p @ c # s) = c # s"
    using c by (induction p) auto
  then show ?thesis by (simp add: splitPrefixTo_def)
qed

lemma splitPrefixTo_missing: "c \<notin> set s \<Longrightarrow> splitPrefixTo s c = (None, s)"
proof -
  assume "c \<notin> set s"
  then have "dropWhile (\<lambda>d. d \<noteq> c) s = []"
    by (induction s) auto
  then show ?thesis by (simp only: splitPrefixTo_def list.case)
qed

lemma splitPrefix_append [simp]: "splitPrefix (p @ s) p = (True, s)"
  by (simp add: splitPrefix_def hasPrefix_def)

definition chomp :: "string \<Rightarrow> string" where
  "chomp s = rev (dropWhile (\<lambda>c. c \<in> {CHR '' '', CHR 0x0A, CHR 0x0D, CHR 0x09}) (rev s))"

function replaceStrings_loop :: "string \<Rightarrow> string \<Rightarrow> string \<Rightarrow> string" where
  "replaceStrings_loop res from to =
     (if from = [] then res
      else if hasPrefix res from then to @ replaceStrings_loop (drop (length from) res) from to
      else case res of [] \<Rightarrow> [] | c # cs \<Rightarrow> c # replaceStrings_loop cs from to)"
  by pat_completeness auto
termination
proof (relation "measure (\<lambda>(res, _, _). length res)")
  fix res "from" to :: string
  assume "from \<noteq> []" "hasPrefix res from"
  then have "res \<noteq> []" by (auto simp: hasPrefix_def)
  with \<open>from \<noteq> []\<close> show "((drop (length from) res, from, to), res, from, to)
      \<in> measure (\<lambda>(res, _, _). length res)"
    by simp
qed auto

declare replaceStrings_loop.simps [simp del]

definition replaceStrings :: "string \<Rightarrow> string \<Rightarrow> string \<Rightarrow> string" where
  "replaceStrings res from to = (if from = [] then res else replaceStrings_loop res from to)"

subsection \<open>Alignment\<close>

text \<open>
  \<open>alignUp\<close> at type \<open>uint64_t\<close>.  Its first assertion is that the alignment is a power of two;
  the overflow check compares with \<open>max - (alignment - 1)\<close>.
\<close>

definition has_single_bit :: "nat \<Rightarrow> bool" where
  "has_single_bit n \<longleftrightarrow> n \<noteq> 0 \<and> n AND (n - 1) = 0"

definition alignUp :: "64 word \<Rightarrow> nat \<Rightarrow> exn + 64 word" where
  "alignUp val alignment =
     (if \<not> has_single_bit alignment then Inl (Abort ''alignment must be a power of 2'')
      else if 2 ^ 64 - 1 < alignment then Inl (Abort ''alignment <= max'')
      else let mask = NOT (of_nat alignment - 1 :: 64 word) in
        if - 1 - (of_nat alignment - 1) < val
        then Inl (Error ''can't align %d to %d: value is too large'')
        else Inr ((val + of_nat alignment - 1) AND mask))"

lemma unat_u64_lt: "unat (n :: 64 word) < 2 ^ 64"
proof -
  have "unat n < 2 ^ LENGTH(64)"
    by (rule unsigned_less)
  then show ?thesis by simp
qed

lemma unat_and_minus_8: "unat (w AND - 8 :: 64 word) = unat w div 8 * 8"
proof -
  have m: "(- 8 :: 64 word) = NOT (mask 3)"
    by (simp add: mask_eq_exp_minus_1)
  have "w AND - 8 = push_bit 3 (drop_bit 3 w)"
    unfolding m by (auto intro!: bit_eqI simp: bit_simps dest: bit_imp_le_length)
  then have "unat (w AND - 8) = take_bit 64 (push_bit 3 (unat (drop_bit 3 w)))"
    by (simp add: unsigned_push_bit_eq)
  also have "\<dots> = unat w div 8 * 8 mod 2 ^ 64"
    by (simp only: unat_drop_bit_eq) (simp add: take_bit_eq_mod push_bit_eq_mult drop_bit_eq_div)
  also have "\<dots> = unat w div 8 * 8"
    using unat_u64_lt [of w] by (intro mod_less) (metis div_times_less_eq_dividend le_less_trans)
  finally show ?thesis .
qed

lemma alignUp_8:
  "alignUp v 8 =
    (if 2 ^ 64 - 8 < unat v then Inl (Error ''can't align %d to %d: value is too large'')
     else Inr (word_of_nat ((unat v + 7) div 8 * 8)))"
proof -
  have single: "has_single_bit 8"
    by (simp add: has_single_bit_def)
  have "- 1 - (8 - 1) < v \<longleftrightarrow> 2 ^ 64 - 8 < unat v"
    by (simp add: word_less_nat_alt)
  moreover have "unat v \<le> 2 ^ 64 - 8 \<Longrightarrow>
      (v + 7) AND - 8 = word_of_nat ((unat v + 7) div 8 * 8)"
  proof -
    assume "unat v \<le> 2 ^ 64 - 8"
    then have "unat (v + 7) = unat v + 7"
      by (simp add: unat_word_ariths)
    then have "unat ((v + 7) AND - 8) = (unat v + 7) div 8 * 8"
      by (simp add: unat_and_minus_8)
    then show ?thesis by (metis of_nat_unat ucast_id)
  qed
  ultimately show ?thesis
    using single by (auto simp: alignUp_def Let_def not_less algebra_simps)
qed


subsection \<open>Properties\<close>

text \<open>
  Splitting at a character gives the one list of pieces without that character that joins
  back to the string, and tokens are the non-empty pieces without a separator.
\<close>

theorem splitString_unique:
  "splitString s [c] = ss \<longleftrightarrow> ss \<noteq> [] \<and> list_all (\<lambda>t. c \<notin> set t) ss \<and> concatStringsSep [c] ss = s"
proof
  have "c \<notin> set t" if "t \<in> set (splitString s [c])" for t
    using that
  proof (induction s rule: length_induct)
    case (1 s)
    show ?case
    proof (cases "c \<in> set s")
      case True
      then obtain p rest where s: "s = p @ c # rest" and p: "c \<notin> set p"
        by (meson split_list_first)
      with 1 show ?thesis by (auto simp: splitString_sep)
    qed (use 1 in \<open>auto simp: splitString_none\<close>)
  qed
  then show "splitString s [c] = ss \<Longrightarrow> ss \<noteq> [] \<and> list_all (\<lambda>t. c \<notin> set t) ss \<and> concatStringsSep [c] ss = s"
    using splitString_nonempty [of s "[c]"] concat_splitString [of c s] by (auto simp: list_all_iff)
next
  assume "ss \<noteq> [] \<and> list_all (\<lambda>t. c \<notin> set t) ss \<and> concatStringsSep [c] ss = s"
  then show "splitString s [c] = ss"
    using split_concatStrings [of ss c] by (auto simp: list_all_iff)
qed

end
