(* ===== verification/Hash.thy ===== *)
theory Hash
  imports BaseNix32 StringUtil
begin

text \<open>
  Hashes (\<open>libutil/hash.cc\<close>): the value, its rendered forms and the parser of those forms,
  the folding of a digest to fewer bytes.  SHA-256 itself is OpenSSL's: a record of its
  three entry points that every definition which hashes takes as its first argument.
\<close>

subsection \<open>SHA-256\<close>

text \<open>
  \<open>SHA256_Init\<close>, \<open>SHA256_Update\<close> and \<open>SHA256_Final\<close> over an opaque context.  What the code
  relies on: a message may be fed in pieces, and a digest has 32 bytes.
\<close>

record 'c sha256_api =
  SHA256_Init :: 'c
  SHA256_Update :: "'c \<Rightarrow> string \<Rightarrow> 'c"
  SHA256_Final :: "'c \<Rightarrow> byte list"

definition sha256_ok :: "'c sha256_api \<Rightarrow> bool" where
  "sha256_ok sha \<longleftrightarrow>
     (\<forall>c s t. SHA256_Update sha (SHA256_Update sha c s) t = SHA256_Update sha c (s @ t)) \<and>
     (\<forall>c. SHA256_Update sha c [] = c) \<and>
     (\<forall>c. length (SHA256_Final sha c) = 32)"

lemma sha256_okD:
  "sha256_ok sha \<Longrightarrow> SHA256_Update sha (SHA256_Update sha c s) t = SHA256_Update sha c (s @ t)"
  "sha256_ok sha \<Longrightarrow> SHA256_Update sha c [] = c"
  "sha256_ok sha \<Longrightarrow> length (SHA256_Final sha c) = 32"
  by (simp_all add: sha256_ok_def)

text \<open>A function with these laws, for concrete evaluations: the bytes themselves, cut to 32.\<close>

definition toy_sha :: "string sha256_api" where
  "toy_sha = \<lparr> SHA256_Init = [], SHA256_Update = (@), SHA256_Final = (\<lambda>s. resize 32 (map char_byte s)) \<rparr>"

lemma toy_sha_ok: "sha256_ok toy_sha"
  by (simp add: sha256_ok_def toy_sha_def)

subsection \<open>The hash value\<close>

definition hashAlgoName :: string where
  "hashAlgoName = ''sha256''"

definition hashSizeSha256 :: nat where
  "hashSizeSha256 = 32"

datatype HashFormat = Nix32 | Base16 | SRI

record Hash =
  hashSize :: nat
  hash :: "byte list"

definition zero_hash :: Hash where
  "zero_hash = \<lparr> hashSize = hashSizeSha256, hash = replicate hashSizeSha256 0 \<rparr>"

definition hash_eq :: "Hash \<Rightarrow> Hash \<Rightarrow> bool" where
  "hash_eq h h2 =
     (if hashSize h \<noteq> hashSize h2 then False
      else list_all (\<lambda>i. hash h ! i = hash h2 ! i) [0..<hashSize h])"

definition hashString :: "'c sha256_api \<Rightarrow> string \<Rightarrow> Hash" where
  "hashString sha s =
     zero_hash\<lparr>hash := SHA256_Final sha (SHA256_Update sha (SHA256_Init sha) s)\<rparr>"

text \<open>A full digest.\<close>

definition sha256_hash :: "Hash \<Rightarrow> bool" where
  "sha256_hash h \<longleftrightarrow> hashSize h = 32 \<and> length (hash h) = 32"

lemma hashString_sha256: "sha256_ok sha \<Longrightarrow> sha256_hash (hashString sha s)"
  by (simp add: sha256_hash_def hashString_def zero_hash_def hashSizeSha256_def sha256_okD)

lemma hash_eq_iff:
  assumes "length (hash h) = 32" "length (hash h2) = 32" "hashSize h \<le> 32"
  shows "hash_eq h h2 \<longleftrightarrow> hashSize h = hashSize h2 \<and> take (hashSize h) (hash h) = take (hashSize h) (hash h2)"
  using assms by (auto simp: hash_eq_def list_all_iff list_eq_iff_nth_eq)

subsection \<open>Rendering and parsing\<close>

definition hash_to_string :: "Hash \<Rightarrow> HashFormat \<Rightarrow> bool \<Rightarrow> exn + string" where
  "hash_to_string h hashFormat includeAlgo =
     (let s = (if hashFormat = SRI \<or> includeAlgo
               then hashAlgoName @ [if hashFormat = SRI then CHR ''-'' else CHR '':''] else []) in
      if hashSize h = 0 then Inl (Abort ''hashSize'')
      else let bytes = take (hashSize h) (hash h) in
        case hashFormat of
          Base16 \<Rightarrow> Inr (s @ base16_encode bytes)
        | Nix32 \<Rightarrow> Inr (s @ nix32_encode bytes)
        | SRI \<Rightarrow> Inr (s @ base64_encode bytes))"

definition baseFromSize :: "string \<Rightarrow> exn + (string \<Rightarrow> exn + string)" where
  "baseFromSize rest =
     (if length rest = base16_encodedLength hashSizeSha256 then Inr base16_decode
      else if length rest = nix32_encodedLength hashSizeSha256 then Inr nix32_decode
      else if length rest = base64_encodedLength hashSizeSha256 then Inr base64_decode
      else Inl (BadHash ''hash %s has wrong length for hash algorithm %s''))"

text \<open>
  A decoder that throws leaves \<open>d\<close> empty: the handler adds a trace line to the exception and
  drops it.  The empty string then fails the length check.
\<close>

definition parseLowLevel :: "string \<Rightarrow> (string \<Rightarrow> exn + string) \<Rightarrow> exn + Hash" where
  "parseLowLevel rest decode =
     bindE (catchE (decode rest) (\<lambda>e. if is_Error e then Inr [] else Inl e)) (\<lambda>d.
       if length d \<noteq> hashSize zero_hash
       then Inl (BadHash ''invalid %s hash %s, length %d != expected length %d'')
       else Inr (zero_hash\<lparr>hash := map char_byte d\<rparr>))"

definition parseAnyPrefixed :: "string \<Rightarrow> exn + Hash" where
  "parseAnyPrefixed original =
     (let (algoRaw, rest) = splitPrefixTo original (CHR '':'');
          (algoRaw, rest, isSRI) =
            (case algoRaw of
               Some a \<Rightarrow> (Some a, rest, False)
             | None \<Rightarrow> let (algoRaw, rest) = splitPrefixTo rest (CHR ''-'')
                       in (algoRaw, rest, algoRaw \<noteq> None))
      in case algoRaw of
           None \<Rightarrow> Inl (BadHash ''hash %s does not include a type'')
         | Some algo \<Rightarrow>
             if algo \<noteq> hashAlgoName
             then Inl (BadHash ''hash %s is not %s, which is the only algorithm this store uses'')
             else bindE (if isSRI then Inr base64_decode else baseFromSize rest) (parseLowLevel rest))"

text \<open>The digest folded to \<open>newSize\<close> bytes; the \<open>%\<close> of a zero size traps.\<close>

definition compressHash :: "Hash \<Rightarrow> nat \<Rightarrow> exn + Hash" where
  "compressHash h newSize =
     (if newSize = 0 \<and> hashSize h \<noteq> 0 then Inl (Abort ''division by zero'')
      else Inr (fold (\<lambda>i r. r\<lparr>hash := (hash r)[i mod newSize := hash r ! (i mod newSize) XOR hash h ! i]\<rparr>)
             [0..<hashSize h] (zero_hash\<lparr>hashSize := newSize\<rparr>)))"

subsection \<open>Facts\<close>

lemma low_6_bits_less: "unat (w AND 0x3f :: 32 word) < 64"
proof -
  have "w AND 0x3f \<le> (0x3f :: 32 word)" by (rule word_and_le1)
  then have "unat (w AND 0x3f) \<le> unat (0x3f :: 32 word)" by (simp only: word_le_nat_alt)
  then show ?thesis by simp
qed

lemma base64_emit_chars: "set (fst (base64_emit data nbits)) \<subseteq> set base64Chars"
proof (induction data nbits rule: base64_emit.induct)
  case (1 data nbits)
  show ?case
    using 1 low_6_bits_less base64Chars_distinct(2)
    by (auto simp: base64_emit.simps [of data nbits] split: prod.splits intro!: nth_mem)
qed

lemma base64_encode_loop_chars: "set (fst (base64_encode_loop s data nbits)) \<subseteq> set base64Chars"
proof (induction s arbitrary: data nbits)
  case (Cons c s)
  show ?case
    using base64_emit_chars [of "push_bit 8 data OR ucast c" "nbits + 8"] Cons
    by (auto simp: Let_def split: prod.splits) (metis fst_conv subsetD)
qed simp

lemma set_base64_encode: "set (base64_encode s) \<subseteq> insert (CHR ''='') (set base64Chars)"
proof -
  have "base64Chars ! unat (w AND 0x3f) \<in> set base64Chars" for w :: "32 word"
    using low_6_bits_less [of w] base64Chars_distinct(2) by simp
  then show ?thesis
    using base64_encode_loop_chars [of s 0 0]
    by (cases "base64_encode_loop s 0 0") (auto simp: base64_encode_def base64_pad_def)
qed

lemma hash_algo_found:
  "splitPrefixTo (hashAlgoName @ CHR '':'' # s) (CHR '':'') = (Some hashAlgoName, s)"
  "splitPrefixTo (hashAlgoName @ CHR ''-'' # s) (CHR ''-'') = (Some hashAlgoName, s)"
  using splitPrefixTo_found [of "CHR '':''" hashAlgoName s]
    splitPrefixTo_found [of "CHR ''-''" hashAlgoName s] by (auto simp: hashAlgoName_def)

lemma hash_base_lengths:
  "base16_encodedLength hashSizeSha256 = 64" "nix32_encodedLength hashSizeSha256 = 52"
  "base64_encodedLength hashSizeSha256 = 44"
  by (simp_all add: base16_encodedLength_def nix32_encodedLength_def base64_encodedLength_def
      hashSizeSha256_def)

lemma parseLowLevel_Inr:
  "sha256_hash h \<Longrightarrow> decode rest = Inr (map byte_char (hash h)) \<Longrightarrow> parseLowLevel rest decode = Inr h"
  by (cases h) (simp add: parseLowLevel_def sha256_hash_def zero_hash_def hashSizeSha256_def comp_def)

text \<open>Whatever form the hash is rendered in, with its algorithm, the parser reads it back.\<close>

lemma parse_to_string:
  assumes h: "sha256_hash h"
  shows "bindE (hash_to_string h fmt True) parseAnyPrefixed = Inr h"
proof (cases fmt)
  case Nix32
  have "length (nix32_encode (hash h)) = 52" "nix32_decode (nix32_encode (hash h)) = Inr (map byte_char (hash h))"
    using h length_nix32_encode [of "hash h"] nix32_decode_encode [of "hash h"] hash_base_lengths(2)
    by (cases "hash h = []"; simp add: sha256_hash_def hashSizeSha256_def)+
  with h Nix32 show ?thesis
    by (simp add: hash_to_string_def sha256_hash_def parseAnyPrefixed_def hash_algo_found
        baseFromSize_def hash_base_lengths parseLowLevel_Inr)
next
  case Base16
  have "length (base16_encode (hash h)) = 64"
    using h by (simp add: length_base16_encode base16_encodedLength_def sha256_hash_def)
  with h Base16 show ?thesis
    by (simp add: hash_to_string_def sha256_hash_def parseAnyPrefixed_def hash_algo_found
        baseFromSize_def hash_base_lengths parseLowLevel_Inr base16_decode_encode)
next
  case SRI
  have "CHR '':'' \<notin> set base64Chars" by (simp add: base64Chars_def)
  then have "CHR '':'' \<notin> set (hashAlgoName @ CHR ''-'' # base64_encode (hash h))"
    using set_base64_encode [of "hash h"] by (auto simp: hashAlgoName_def)
  with h SRI show ?thesis
    by (simp add: hash_to_string_def sha256_hash_def parseAnyPrefixed_def hash_algo_found
        splitPrefixTo_missing parseLowLevel_Inr base64_decode_encode)
qed

lemma compressHash_total: "newSize \<noteq> 0 \<Longrightarrow> \<exists>r. compressHash h newSize = Inr r"
  by (simp add: compressHash_def)

text \<open>Byte \<open>j\<close> of the folded hash is the sum of the bytes of its residue class.\<close>

definition xor_bytes :: "byte list \<Rightarrow> byte" where
  "xor_bytes bs = fold (XOR) bs 0"

lemma compressHash_bytes:
  assumes n: "0 < n" "n \<le> 32" and r: "compressHash h n = Inr r" and j: "j < n"
  shows "hashSize r = n" "length (hash r) = 32"
    "hash r ! j = xor_bytes (map ((!) (hash h)) (filter (\<lambda>i. i mod n = j) [0..<hashSize h]))"
proof -
  define step :: "nat \<Rightarrow> Hash \<Rightarrow> Hash" where "step = (\<lambda>i r. r\<lparr>hash := (hash r)[i mod n := hash r ! (i mod n) XOR hash h ! i]\<rparr>)"
  have "hashSize (fold step is z) = n \<and> length (hash (fold step is z)) = 32 \<and>
      hash (fold step is z) ! j =
        fold (XOR) (map ((!) (hash h)) (filter (\<lambda>i. i mod n = j) is)) (hash z ! j)"
    if "hashSize z = n" "length (hash z) = 32" for "is" and z :: Hash
    using that
  proof (induction "is" arbitrary: z)
    case (Cons i "is")
    have "j < 32" "i mod n < 32"
      using j n mod_less_divisor [OF n(1), of i] by linarith+
    then show ?case
      using Cons.IH [of "step i z"] Cons.prems
      by (auto simp: step_def nth_list_update xor.commute)
  qed simp
  from this [of "zero_hash\<lparr>hashSize := n\<rparr>" "[0..<hashSize h]"] n r j
  show "hashSize r = n" "length (hash r) = 32"
    "hash r ! j = xor_bytes (map ((!) (hash h)) (filter (\<lambda>i. i mod n = j) [0..<hashSize h]))"
    by (auto simp: compressHash_def step_def zero_hash_def hashSizeSha256_def xor_bytes_def)
qed

lemma hash_decoders_FormatError:
  "length s = 64 \<Longrightarrow> base16_decode s = Inl e \<Longrightarrow> is_Error e" "nix32_decode s = Inl e \<Longrightarrow> is_Error e"
  "base64_decode s = Inl e \<Longrightarrow> is_Error e"
proof -
  have p: "parseHexDigit c = Inl e \<Longrightarrow> is_Error e" for c
    by (auto simp: parseHexDigit_def split: if_splits)
  have "base16_decode_pairs s = Inl e \<Longrightarrow> is_Error e" for s
    by (induction s rule: base16_decode_pairs.induct) (auto simp: bindE_eq_Inl dest: p)
  then show "length s = 64 \<Longrightarrow> base16_decode s = Inl e \<Longrightarrow> is_Error e"
    by (auto simp: base16_decode_def split: if_splits)
  have "nix32_decode_loop t n r = Inl e \<Longrightarrow> is_Error e" for t n r
    by (induction t n r rule: nix32_decode_loop.induct) (auto split: option.splits if_splits)
  then show "nix32_decode s = Inl e \<Longrightarrow> is_Error e"
    by (auto simp: nix32_decode_def bindE_eq_Inl)
  have "base64_decode_loop t d n = Inl e \<Longrightarrow> is_Error e" for t d n
    by (induction t d n rule: base64_decode_loop.induct)
       (auto simp: bindE_eq_Inl Let_def base64_decode_loop.simps split: if_splits)
  then show "base64_decode s = Inl e \<Longrightarrow> is_Error e"
    by (simp add: base64_decode_def)
qed

text \<open>The parser is total up to \<open>BadHash\<close>, and what it accepts is a full digest.\<close>

lemma parseLowLevel_result:
  assumes "\<And>e. decode s = Inl e \<Longrightarrow> is_Error e"
  shows "(\<exists>m. parseLowLevel s decode = Inl (BadHash m)) \<or>
         (\<exists>h. parseLowLevel s decode = Inr h \<and> sha256_hash h)"
  using assms
  by (cases "decode s") (auto simp: parseLowLevel_def sha256_hash_def zero_hash_def hashSizeSha256_def)

lemma parseAnyPrefixed_result:
  "(\<exists>m. parseAnyPrefixed s = Inl (BadHash m)) \<or> (\<exists>h. parseAnyPrefixed s = Inr h \<and> sha256_hash h)"
  using parseLowLevel_result [OF hash_decoders_FormatError(1)]
    parseLowLevel_result [OF hash_decoders_FormatError(2)]
    parseLowLevel_result [OF hash_decoders_FormatError(3)]
  by (simp add: parseAnyPrefixed_def Let_def baseFromSize_def hash_base_lengths
      split: prod.splits option.splits)


subsection \<open>Properties\<close>



text \<open>
  Folding a hash to \<open>n\<close> bytes: byte \<open>j\<close> of the result is the exclusive or of the bytes at
  the positions congruent to \<open>j\<close>, and the size is \<open>n\<close>.
\<close>

theorem compressHash_folds:
  assumes "0 < n" and "n \<le> 32" and "j < n"
  shows "\<exists>r. compressHash h n = Inr r \<and> hashSize r = n \<and>
    hash r ! j = xor_bytes (map ((!) (hash h)) (filter (\<lambda>i. i mod n = j) [0..<hashSize h]))"
  using compressHash_total [of n h] compressHash_bytes(1,3) [OF assms(1,2) _ assms(3)] assms(1) by blast

theorem compressHash_folds_witness:
  "\<exists>r. compressHash (hashString toy_sha ''x'') 20 = Inr r \<and> hashSize r = 20 \<and>
    hash r ! 3 = xor_bytes (map ((!) (hash (hashString toy_sha ''x'')))
      (filter (\<lambda>i. i mod 20 = 3) [0..<hashSize (hashString toy_sha ''x'')]))"
  by (rule compressHash_folds) simp_all

end
