(* ===== verification/Serialise.thy ===== *)
theory Serialise
  imports Hash
begin

text \<open>
  Byte streams (\<open>libutil/serialise.cc\<close>, \<open>serialise.hh\<close>, the \<open>HashSink\<close> of \<open>hash.cc\<close>).  A
  sink is its \<open>operator()\<close>, a source its \<open>read\<close>, both computations on the state of the
  object; a sink or source that wraps another one has that one's state as a part of its own.
  The locales \<open>byte_sink\<close> and \<open>byte_source\<close> are the two contracts, and every class of the
  code is an interpretation of one of them.
\<close>

type_synonym 's sink = "string \<Rightarrow> ('s, unit) M"
type_synonym 's source = "nat \<Rightarrow> ('s, string) M"

subsection \<open>Sinks\<close>

text \<open>\<open>StringSink\<close>: the state is its string.\<close>

definition StringSink :: "string sink" where
  "StringSink data = modS (\<lambda>s. s @ data)"

definition NullSink :: "'s sink" where
  "NullSink data = ret ()"

definition TeeSink :: "'s sink \<Rightarrow> 't sink \<Rightarrow> ('s \<times> 't) sink" where
  "TeeSink sink1 sink2 data = seqM (onL (sink1 data)) (onR (sink2 data))"

text \<open>
  \<open>BufferedSink\<close>: the buffer holds the bytes up to \<open>bufPos\<close>.  The state pairs it with the
  state of the object that \<open>writeUnbuffered\<close> works on.
\<close>

record buffered_sink =
  bufSize :: nat
  buffer :: string

definition bufPos :: "buffered_sink \<Rightarrow> nat" where
  "bufPos b = length (buffer b)"

definition BufferedSink_flush :: "'u sink \<Rightarrow> (buffered_sink \<times> 'u, unit) M" where
  "BufferedSink_flush writeUnbuffered =
     bindM (getS fst) (\<lambda>b.
       if bufPos b = 0 then ret ()
       else seqM (onL (modS (\<lambda>b. b\<lparr>buffer := []\<rparr>))) (onR (writeUnbuffered (buffer b))))"

function BufferedSink_loop :: "'u sink \<Rightarrow> string \<Rightarrow> (buffered_sink \<times> 'u, unit) M" where
  "BufferedSink_loop writeUnbuffered data =
     (if data = [] then ret ()
      else bindM (getS fst) (\<lambda>b.
        if bufSize b - bufPos b \<le> length data
        then seqM (BufferedSink_flush writeUnbuffered) (onR (writeUnbuffered data))
        else
          let n = (if bufSize b - bufPos b < length data then bufSize b - bufPos b else length data) in
          seqM (onL (modS (\<lambda>b. b\<lparr>buffer := buffer b @ take n data\<rparr>)))
            (seqM (bindM (getS fst) (\<lambda>b.
                     if bufPos b = bufSize b then BufferedSink_flush writeUnbuffered else ret ()))
               (if n = 0 then throw Diverge else BufferedSink_loop writeUnbuffered (drop n data)))))"
  by pat_completeness auto
termination
  by (relation "measure (\<lambda>(_, d). length d)") auto

declare BufferedSink_loop.simps [simp del]

definition BufferedSink :: "'u sink \<Rightarrow> (buffered_sink \<times> 'u) sink" where
  "BufferedSink writeUnbuffered data = BufferedSink_loop writeUnbuffered data"

definition BufferedSink_new :: "nat \<Rightarrow> buffered_sink" where
  "BufferedSink_new sz = \<lparr> bufSize = sz, buffer = [] \<rparr>"

text \<open>\<open>HashSink\<close>: a buffered sink of 1 KiB over the digest context and the byte count.\<close>

record 'c hash_state =
  ctx :: 'c
  hashed_bytes :: "64 word"

definition HashSink_writeUnbuffered :: "'c sha256_api \<Rightarrow> 'c hash_state sink" where
  "HashSink_writeUnbuffered sha data =
     modS (\<lambda>h. h\<lparr>hashed_bytes := hashed_bytes h + word_of_nat (length data),
                  ctx := SHA256_Update sha (ctx h) data\<rparr>)"

definition HashSink :: "'c sha256_api \<Rightarrow> (buffered_sink \<times> 'c hash_state) sink" where
  "HashSink sha = BufferedSink (HashSink_writeUnbuffered sha)"

definition HashSink_new :: "'c sha256_api \<Rightarrow> buffered_sink \<times> 'c hash_state" where
  "HashSink_new sha = (BufferedSink_new 1024, \<lparr> ctx = SHA256_Init sha, hashed_bytes = 0 \<rparr>)"

definition HashSink_finish :: "'c sha256_api \<Rightarrow> (buffered_sink \<times> 'c hash_state, Hash \<times> 64 word) M" where
  "HashSink_finish sha =
     seqM (BufferedSink_flush (HashSink_writeUnbuffered sha))
       (getS (\<lambda>(_, h). (zero_hash\<lparr>hash := SHA256_Final sha (ctx h)\<rparr>, hashed_bytes h)))"

text \<open>\<open>currentHash\<close> finishes a copy of the context, so the object can go on.\<close>

definition HashSink_currentHash :: "'c sha256_api \<Rightarrow> (buffered_sink \<times> 'c hash_state, Hash \<times> 64 word) M" where
  "HashSink_currentHash sha =
     seqM (BufferedSink_flush (HashSink_writeUnbuffered sha))
       (getS (\<lambda>(_, h). let ctx2 = ctx h in (zero_hash\<lparr>hash := SHA256_Final sha ctx2\<rparr>, hashed_bytes h)))"

subsection \<open>Sources\<close>

text \<open>\<open>Source::operator()\<close>: the loop reads until it has the bytes.  A read that returns nothing
  makes no progress; the fuel bounds the number of reads.\<close>

fun read_loop :: "nat \<Rightarrow> 's source \<Rightarrow> nat \<Rightarrow> ('s, string) M" where
  "read_loop fuel read len =
     (if len = 0 then ret []
      else case fuel of
        0 \<Rightarrow> throw Diverge
      | Suc fuel \<Rightarrow>
          bindM (read len) (\<lambda>chunk.
          bindM (read_loop fuel read (len - length chunk)) (\<lambda>rest.
          ret (chunk @ rest))))"

declare read_loop.simps [simp del]

definition read_exact :: "'s source \<Rightarrow> nat \<Rightarrow> ('s, string) M" where
  "read_exact read len = read_loop len read len"

text \<open>\<open>drainInto\<close> to the end of the file, and for a length.\<close>

fun drainInto_loop :: "nat \<Rightarrow> 's source \<Rightarrow> 't sink \<Rightarrow> ('s \<times> 't, unit) M" where
  "drainInto_loop 0 read sink = throw Diverge"
| "drainInto_loop (Suc fuel) read sink =
     bindM (catchM
         (bindM (onL (read 8192)) (\<lambda>chunk. seqM (onR (sink chunk)) (ret True)))
         (\<lambda>e. case e of EndOfFile _ \<Rightarrow> ret False | _ \<Rightarrow> throw e))
       (\<lambda>more. if more then drainInto_loop fuel read sink else ret ())"

fun drainInto_len :: "nat \<Rightarrow> 's source \<Rightarrow> 't sink \<Rightarrow> nat \<Rightarrow> ('s \<times> 't, unit) M" where
  "drainInto_len fuel read sink len =
     (if len = 0 then ret ()
      else case fuel of
        0 \<Rightarrow> throw Diverge
      | Suc fuel \<Rightarrow>
          bindM (onL (read (min len 65536))) (\<lambda>chunk.
          seqM (onR (sink chunk))
            (if \<not> length chunk \<le> len then throw (Abort ''n <= len'')
             else drainInto_len fuel read sink (len - length chunk))))"

declare drainInto_len.simps [simp del]

fun skip_loop :: "nat \<Rightarrow> 's source \<Rightarrow> nat \<Rightarrow> ('s, unit) M" where
  "skip_loop fuel read len =
     (if len = 0 then ret ()
      else case fuel of
        0 \<Rightarrow> throw Diverge
      | Suc fuel \<Rightarrow>
          bindM (read (min len 8192)) (\<lambda>chunk.
            if \<not> length chunk \<le> len then throw (Abort ''n <= len'')
            else skip_loop fuel read (len - length chunk)))"

declare skip_loop.simps [simp del]

definition Source_skip :: "'s source \<Rightarrow> nat \<Rightarrow> ('s, unit) M" where
  "Source_skip read len = skip_loop len read len"

record string_source =
  str_src :: string
  str_pos :: nat

definition StringSource_read :: "string_source source" where
  "StringSource_read len =
     bindM (getS id) (\<lambda>x.
       if str_pos x = length (str_src x) then throw (EndOfFile ''end of string reached'')
       else
         let data = take len (drop (str_pos x) (str_src x)) in
         seqM (modS (\<lambda>x. x\<lparr>str_pos := str_pos x + length data\<rparr>)) (ret data))"

definition StringSource_skip :: "nat \<Rightarrow> (string_source, unit) M" where
  "StringSource_skip len =
     bindM (getS id) (\<lambda>x.
       let remain = length (str_src x) - str_pos x in
       if remain < len
       then seqM (modS (\<lambda>x. x\<lparr>str_pos := length (str_src x)\<rparr>)) (throw (EndOfFile ''end of string reached''))
       else modS (\<lambda>x. x\<lparr>str_pos := str_pos x + len\<rparr>))"

definition TeeSource_read :: "'s source \<Rightarrow> 't sink \<Rightarrow> ('s \<times> 't) source" where
  "TeeSource_read orig sink len =
     bindM (onL (orig len)) (\<lambda>data. seqM (onR (sink data)) (ret data))"

text \<open>\<open>LengthSource\<close>: the right part of the state is \<open>total\<close>.\<close>

definition LengthSource_read :: "'s source \<Rightarrow> ('s \<times> 64 word) source" where
  "LengthSource_read next len =
     bindM (onL (next len)) (\<lambda>data.
     seqM (onR (modS (\<lambda>total. total + word_of_nat (length data)))) (ret data))"

record buffered_source =
  in_bufSize :: nat
  bufPosIn :: nat
  bufPosOut :: nat
  in_buffer :: string

definition BufferedSource_new :: "nat \<Rightarrow> buffered_source" where
  "BufferedSource_new sz = \<lparr> in_bufSize = sz, bufPosIn = 0, bufPosOut = 0, in_buffer = [] \<rparr>"

text \<open>\<open>readUnbuffered\<close> overwrites the front of the buffer and leaves the rest as it is.\<close>

definition BufferedSource_read :: "'u source \<Rightarrow> (buffered_source \<times> 'u) source" where
  "BufferedSource_read readUnbuffered len =
     seqM (bindM (getS fst) (\<lambda>b.
             if bufPosIn b = 0
             then bindM (onR (readUnbuffered (in_bufSize b))) (\<lambda>data.
                    onL (modS (\<lambda>b. b\<lparr>in_buffer := data @ drop (length data) (in_buffer b),
                                     bufPosIn := length data\<rparr>)))
             else ret ()))
       (bindM (getS fst) (\<lambda>b.
          let n = min len (bufPosIn b - bufPosOut b);
              data = take n (drop (bufPosOut b) (in_buffer b)) in
          seqM (onL (modS (\<lambda>b. b\<lparr>bufPosOut := bufPosOut b + n\<rparr>)))
            (seqM (onL (modS (\<lambda>b. if bufPosIn b = bufPosOut b
                                   then b\<lparr>bufPosIn := 0, bufPosOut := 0\<rparr> else b)))
               (ret data))))"

subsection \<open>The wire format\<close>

text \<open>\<open>operator<<(Sink &, uint64_t)\<close>: eight bytes, the least significant first.\<close>

definition le64 :: "64 word \<Rightarrow> string" where
  "le64 n = map (\<lambda>i. byte_char (ucast (drop_bit (8 * i) n AND 0xff))) [0..<8]"

definition write_u64 :: "'s sink \<Rightarrow> 64 word \<Rightarrow> ('s, unit) M" where
  "write_u64 sink n = sink (le64 n)"

definition writePadding :: "'s sink \<Rightarrow> nat \<Rightarrow> ('s, unit) M" where
  "writePadding sink len =
     (if len mod 8 \<noteq> 0 then sink (replicate (8 - len mod 8) (CHR 0x00)) else ret ())"

definition writeString :: "'s sink \<Rightarrow> string \<Rightarrow> ('s, unit) M" where
  "writeString sink data =
     seqM (write_u64 sink (word_of_nat (length data)))
       (seqM (sink data) (writePadding sink (length data)))"

definition writeStrings :: "'s sink \<Rightarrow> string list \<Rightarrow> ('s, unit) M" where
  "writeStrings sink ss =
     seqM (write_u64 sink (word_of_nat (length ss))) (forM (writeString sink) ss)"

definition readLittleEndian :: "string \<Rightarrow> 64 word" where
  "readLittleEndian s = foldr (\<lambda>c n. push_bit 8 n OR ucast (char_byte c)) s 0"

text \<open>\<open>readNum<T>\<close>; \<open>tmax\<close> is \<open>std::numeric_limits<T>::max()\<close>.\<close>

definition readNum :: "64 word \<Rightarrow> 's source \<Rightarrow> ('s, 64 word) M" where
  "readNum tmax source =
     bindM (read_exact source 8) (\<lambda>buf.
       let n = readLittleEndian buf in
       if tmax < n then throw (SerialisationError ''serialised integer %d is too large for type %s'')
       else ret n)"

definition readInt :: "'s source \<Rightarrow> ('s, 64 word) M" where
  "readInt source = readNum 0xffffffff source"

definition readLongLong :: "'s source \<Rightarrow> ('s, 64 word) M" where
  "readLongLong source = readNum (-1) source"

definition readPadding :: "nat \<Rightarrow> 's source \<Rightarrow> ('s, unit) M" where
  "readPadding len source =
     (if len mod 8 \<noteq> 0 then
        bindM (read_exact source (8 - len mod 8)) (\<lambda>zero.
          if list_ex (\<lambda>c. c \<noteq> CHR 0x00) zero then throw (SerialisationError ''non-zero padding'')
          else ret ())
      else ret ())"

definition readString :: "64 word \<Rightarrow> 's source \<Rightarrow> ('s, string) M" where
  "readString max_len source =
     bindM (readNum (-1) source) (\<lambda>len.
       if max_len < len then throw (SerialisationError ''string is too long'')
       else bindM (read_exact source (unat len)) (\<lambda>res.
         seqM (readPadding (unat len) source) (ret res)))"

definition padding :: "nat \<Rightarrow> string" where
  "padding len = (if len mod 8 \<noteq> 0 then replicate (8 - len mod 8) (CHR 0x00) else [])"

text \<open>A string on the wire.\<close>

definition wire :: "string \<Rightarrow> string" where
  "wire s = le64 (word_of_nat (length s)) @ s @ padding (length s)"

lemma length_le64 [simp]: "length (le64 n) = 8"
  by (simp add: le64_def)

lemma le64_and_ff: "ucast (drop_bit k n AND 0xff :: 64 word) = (ucast (drop_bit k n) :: byte)"
proof (rule byte_eqI)
  have ff: "(0xff :: 64 word) = mask 8" by (simp add: mask_eq_exp_minus_1)
  show "bit (ucast (drop_bit k n AND 0xff :: 64 word) :: byte) 0 = bit (ucast (drop_bit k n) :: byte) 0"
    "bit (ucast (drop_bit k n AND 0xff :: 64 word) :: byte) 1 = bit (ucast (drop_bit k n) :: byte) 1"
    "bit (ucast (drop_bit k n AND 0xff :: 64 word) :: byte) 2 = bit (ucast (drop_bit k n) :: byte) 2"
    "bit (ucast (drop_bit k n AND 0xff :: 64 word) :: byte) 3 = bit (ucast (drop_bit k n) :: byte) 3"
    "bit (ucast (drop_bit k n AND 0xff :: 64 word) :: byte) 4 = bit (ucast (drop_bit k n) :: byte) 4"
    "bit (ucast (drop_bit k n AND 0xff :: 64 word) :: byte) 5 = bit (ucast (drop_bit k n) :: byte) 5"
    "bit (ucast (drop_bit k n AND 0xff :: 64 word) :: byte) 6 = bit (ucast (drop_bit k n) :: byte) 6"
    "bit (ucast (drop_bit k n AND 0xff :: 64 word) :: byte) 7 = bit (ucast (drop_bit k n) :: byte) 7"
    unfolding ff by (simp_all add: bit_simps)
qed

lemma byte_join: "push_bit 8 (drop_bit (8 * Suc i) n) OR ucast (ucast (drop_bit (8 * i) n) :: byte) = drop_bit (8 * i) (n :: 64 word)"
proof (rule bit_word_eqI)
  fix k assume k: "k < LENGTH(64)"
  show "bit (push_bit 8 (drop_bit (8 * Suc i) n) OR ucast (ucast (drop_bit (8 * i) n) :: byte)) k
      = bit (drop_bit (8 * i) n) k"
  proof (cases "k < 8")
    case True
    then show ?thesis using k by (simp add: bit_simps)
  next
    case False
    then have "8 * Suc i + (k - 8) = 8 * i + k" by simp
    with False show ?thesis using k by (simp only: bit_simps) auto
  qed
qed

lemma readLittleEndian_le64 [simp]: "readLittleEndian (le64 n) = n"
proof -
  define f where "f = (\<lambda>(b :: byte) (n :: 64 word). push_bit 8 n OR ucast b)"
  define g where "g = (\<lambda>i. ucast (drop_bit (8 * i) n) :: byte)"
  have "foldr f (map g [8 - j..<8]) 0 = drop_bit (8 * (8 - j)) n" if "j \<le> 8" for j
    using that
  proof (induction j)
    case 0
    have "drop_bit 64 n = 0" by (rule bit_word_eqI) (auto simp: bit_simps dest: bit_imp_le_length)
    then show ?case by simp
  next
    case (Suc j)
    then have j: "Suc (8 - Suc j) = 8 - j" by linarith
    have "[8 - Suc j..<8] = (8 - Suc j) # [8 - j..<8]"
      unfolding j [symmetric] by (rule upt_conv_Cons) simp
    with j Suc byte_join [of "8 - Suc j" n] show ?case
      by (simp only: list.map foldr.simps comp_apply f_def g_def)
  qed
  from this [of 8] have "foldr f (map g [0..<8]) 0 = n" by simp
  moreover have "readLittleEndian (le64 n) = foldr f (map g [0..<8]) 0"
    by (simp add: readLittleEndian_def le64_def foldr_map comp_def le64_and_ff f_def g_def)
  ultimately show ?thesis by simp
qed

subsection \<open>The contract of a sink\<close>

text \<open>
  A sink accepts every piece of data, and what it has accepted in all is the concatenation of
  the pieces: where one write ends and the next begins does not matter.  \<open>has s w\<close>: the
  object is in a state \<open>s\<close> that accepting \<open>w\<close> leads to.
\<close>

locale byte_sink =
  fixes has :: "'s \<Rightarrow> string \<Rightarrow> bool" and sink :: "'s sink"
  assumes accepts: "has s w \<Longrightarrow> \<exists>t. sink data s = (Inr (), t) \<and> has t (w @ data)"
begin

text \<open>\<open>m\<close> writes \<open>d\<close> and returns.\<close>

definition writes :: "('s, unit) M \<Rightarrow> string \<Rightarrow> bool" where
  "writes m d \<longleftrightarrow> (\<forall>s w. has s w \<longrightarrow> (\<exists>t. m s = (Inr (), t) \<and> has t (w @ d)))"

lemma writesD: "writes m d \<Longrightarrow> has s w \<Longrightarrow> \<exists>t. m s = (Inr (), t) \<and> has t (w @ d)"
  by (simp add: writes_def)

lemma writes_sink: "writes (sink d) d"
  using accepts by (simp add: writes_def)

lemma writes_ret: "writes (ret ()) []"
  by (simp add: writes_def)

lemma writes_seq: "writes m d \<Longrightarrow> writes n e \<Longrightarrow> writes (seqM m n) (d @ e)"
  unfolding writes_def by (metis append.assoc seqM_Inr)

lemma writes_forM: "(\<And>x. x \<in> set xs \<Longrightarrow> writes (f x) (g x)) \<Longrightarrow> writes (forM f xs) (concat (map g xs))"
  by (induction xs) (auto intro: writes_ret writes_seq)

lemma writes_u64: "writes (write_u64 sink n) (le64 n)"
  by (simp add: write_u64_def writes_sink)

lemma writes_padding: "writes (writePadding sink n) (padding n)"
  by (simp add: writePadding_def padding_def writes_sink writes_ret)

lemma writes_string: "writes (writeString sink x) (wire x)"
  unfolding writeString_def wire_def
  by (intro writes_seq writes_sink writes_padding writes_u64)

lemma writes_strings:
  "writes (writeStrings sink xs) (le64 (word_of_nat (length xs)) @ concat (map wire xs))"
  unfolding writeStrings_def by (intro writes_seq writes_forM writes_string writes_u64)

end

text \<open>
  A buffered sink over a sink: it has accepted what it passed on and what it still holds.
\<close>

definition buffered_has :: "('u \<Rightarrow> string \<Rightarrow> bool) \<Rightarrow> buffered_sink \<times> 'u \<Rightarrow> string \<Rightarrow> bool" where
  "buffered_has has = (\<lambda>(b, u) w.
     bufPos b < bufSize b \<and> (\<exists>v. has u v \<and> w = v @ buffer b))"

locale buffered_byte_sink = byte_sink has writeUnbuffered
  for has :: "'u \<Rightarrow> string \<Rightarrow> bool" and writeUnbuffered :: "'u sink"
begin

lemma flush_facts:
  assumes "bufPos b < bufSize b" "has u v"
  shows "\<exists>u'. BufferedSink_flush writeUnbuffered (b, u) = (Inr (), (b\<lparr>buffer := []\<rparr>, u')) \<and>
      has u' (v @ buffer b)"
proof (cases "bufPos b = 0")
  case True
  then have "b\<lparr>buffer := []\<rparr> = b" by (simp add: bufPos_def)
  with True assms(2) show ?thesis by (simp add: BufferedSink_flush_def bufPos_def)
next
  case False
  obtain u' where "writeUnbuffered (buffer b) u = (Inr (), u')" "has u' (v @ buffer b)"
    using accepts [OF assms(2)] by blast
  with False show ?thesis by (simp add: BufferedSink_flush_def)
qed

lemma BufferedSink_accepts:
  assumes "buffered_has has s w"
  shows "\<exists>t. BufferedSink writeUnbuffered data s = (Inr (), t) \<and> buffered_has has t (w @ data)"
proof (cases "data = []")
  case True
  with assms show ?thesis by (simp add: BufferedSink_def BufferedSink_loop.simps)
next
  case False
  obtain b u v where s: "s = (b, u)" "bufPos b < bufSize b" "has u v" "w = v @ buffer b"
    using assms by (auto simp: buffered_has_def)
  show ?thesis
  proof (cases "bufSize b - bufPos b \<le> length data")
    case True
    obtain u' where 1: "BufferedSink_flush writeUnbuffered (b, u) = (Inr (), (b\<lparr>buffer := []\<rparr>, u'))"
      "has u' (v @ buffer b)"
      using flush_facts [OF s(2,3)] by blast
    obtain u'' where "writeUnbuffered data u' = (Inr (), u'')" "has u'' ((v @ buffer b) @ data)"
      using accepts [OF 1(2)] by blast
    with 1 True False s show ?thesis
      by (auto simp: BufferedSink_def BufferedSink_loop.simps [of _ data] buffered_has_def bufPos_def)
  next
    case fits: False
    then have "length (buffer b) + length data < bufSize b" by (simp add: bufPos_def)
    with fits have "BufferedSink writeUnbuffered data (b, u) = (Inr (), (b\<lparr>buffer := buffer b @ data\<rparr>, u))"
      using False
      by (simp add: BufferedSink_def BufferedSink_loop.simps bufPos_def Let_def run)
    moreover have "buffered_has has (b\<lparr>buffer := buffer b @ data\<rparr>, u) (w @ data)"
      using fits s by (simp add: buffered_has_def bufPos_def)
    ultimately show ?thesis using s(1) by blast
  qed
qed

lemma flush_all:
  "buffered_has has (b, u) w \<Longrightarrow>
   \<exists>u'. BufferedSink_flush writeUnbuffered (b, u) = (Inr (), (b\<lparr>buffer := []\<rparr>, u')) \<and> has u' w"
  using flush_facts by (fastforce simp: buffered_has_def)

end

sublocale buffered_byte_sink \<subseteq> buffered: byte_sink "buffered_has has" "BufferedSink writeUnbuffered"
  by unfold_locales (rule BufferedSink_accepts)

interpretation string_sink: buffered_byte_sink "(=)" StringSink
  by unfold_locales (simp add: StringSink_def)

lemma NullSink_accepts: "NullSink data s = (Inr (), s)"
  by (simp add: NullSink_def)

text \<open>\<open>TeeSink\<close> over two sinks: each has all of it.\<close>

locale tee_byte_sink = s1: byte_sink has1 sink1 + s2: byte_sink has2 sink2
  for has1 :: "'s \<Rightarrow> string \<Rightarrow> bool" and sink1 :: "'s sink"
    and has2 :: "'t \<Rightarrow> string \<Rightarrow> bool" and sink2 :: "'t sink"
begin

lemma tee_accepts:
  "has1 s v \<Longrightarrow> has2 t w \<Longrightarrow>
   \<exists>s' t'. TeeSink sink1 sink2 data (s, t) = (Inr (), (s', t')) \<and> has1 s' (v @ data) \<and> has2 t' (w @ data)"
  using s1.accepts [of s v data] s2.accepts [of t w data] by (auto simp: TeeSink_def)

end

sublocale tee_byte_sink \<subseteq> tee: byte_sink "\<lambda>(s, t) w. has1 s w \<and> has2 t w" "TeeSink sink1 sink2"
  using tee_accepts by unfold_locales fastforce

text \<open>The digest context has seen the bytes.\<close>

definition hashed :: "'c sha256_api \<Rightarrow> 'c hash_state \<Rightarrow> string \<Rightarrow> bool" where
  "hashed sha h w \<longleftrightarrow> sha256_ok sha \<and> ctx h = SHA256_Update sha (SHA256_Init sha) w \<and>
     hashed_bytes h = word_of_nat (length w)"

interpretation hash_sink: buffered_byte_sink "hashed sha" "HashSink_writeUnbuffered sha" for sha
  by unfold_locales (simp add: HashSink_writeUnbuffered_def hashed_def sha256_okD)

interpretation hash_and_string: tee_byte_sink "buffered_has (hashed sha)" "BufferedSink (HashSink_writeUnbuffered sha)"
    "(=)" StringSink for sha
  by unfold_locales

lemma HashSink_new_has: "sha256_ok sha \<Longrightarrow> buffered_has (hashed sha) (HashSink_new sha) []"
  by (simp add: HashSink_new_def buffered_has_def hashed_def BufferedSink_new_def bufPos_def sha256_okD)

lemma HashSink_finish_hash:
  assumes "buffered_has (hashed sha) s w"
  shows "fst (HashSink_finish sha s) = Inr (hashString sha w, word_of_nat (length w))"
proof -
  obtain b u where s: "s = (b, u)" by (cases s)
  then obtain u' where "BufferedSink_flush (HashSink_writeUnbuffered sha) (b, u) = (Inr (), (b\<lparr>buffer := []\<rparr>, u'))"
      "hashed sha u' w"
    using hash_sink.flush_all assms by blast
  with s show ?thesis by (simp add: HashSink_finish_def hashed_def hashString_def)
qed

text \<open>\<open>currentHash\<close> says the digest so far and leaves an object that can take more.\<close>

lemma HashSink_currentHash_hash:
  assumes "buffered_has (hashed sha) s w"
  shows "\<exists>t. HashSink_currentHash sha s = (Inr (hashString sha w, word_of_nat (length w)), t) \<and>
      buffered_has (hashed sha) t w"
proof -
  obtain b u where s: "s = (b, u)" by (cases s)
  then obtain u' where u': "BufferedSink_flush (HashSink_writeUnbuffered sha) (b, u) = (Inr (), (b\<lparr>buffer := []\<rparr>, u'))"
      "hashed sha u' w"
    using hash_sink.flush_all assms by blast
  have "0 < bufSize b" using assms s by (auto simp: buffered_has_def)
  with s u' show ?thesis
    by (simp add: HashSink_currentHash_def hashed_def hashString_def buffered_has_def bufPos_def)
qed

subsection \<open>The contract of a source\<close>

text \<open>
  \<open>pending s p\<close>: the source in state \<open>s\<close> still has the bytes \<open>p\<close> to deliver.  A read of at
  least one byte delivers a piece of its own choosing; when there is nothing left, every read
  throws \<open>EndOfFile\<close>.
\<close>

locale byte_source =
  fixes pending :: "'s \<Rightarrow> string \<Rightarrow> bool" and eof :: string and read :: "'s source"
  assumes read_some: "pending s p \<Longrightarrow> p \<noteq> [] \<Longrightarrow> 0 < n \<Longrightarrow>
      \<exists>k t. 0 < k \<and> k \<le> n \<and> k \<le> length p \<and> read n s = (Inr (take k p), t) \<and> pending t (drop k p)"
    and read_eof: "pending s [] \<Longrightarrow> \<exists>t. read n s = (Inl (EndOfFile eof), t) \<and> pending t []"

text \<open>The plainest source: a list of bytes, delivered in pieces as large as asked for.\<close>

definition list_source :: "string \<Rightarrow> string source" where
  "list_source eof len p = (if p = [] then (Inl (EndOfFile eof), []) else (Inr (take len p), drop len p))"

text \<open>
  \<open>simulates pending m q\<close>: \<open>m\<close> on a source does what \<open>q\<close> does on the list of its bytes,
  with the same result and the same exception.
\<close>

definition simulates :: "('s \<Rightarrow> string \<Rightarrow> bool) \<Rightarrow> ('s, 'a) M \<Rightarrow> (string, 'a) M \<Rightarrow> bool" where
  "simulates pending m q \<longleftrightarrow>
     (\<forall>s p. pending s p \<longrightarrow> (\<exists>t. m s = (fst (q p), t) \<and> pending t (snd (q p))))"

named_theorems sim "simulation of computations on a source"

lemma simulatesD:
  "simulates pending m q \<Longrightarrow> pending s p \<Longrightarrow> q p = (r, p') \<Longrightarrow> \<exists>t. m s = (r, t) \<and> pending t p'"
  by (metis simulates_def fst_conv snd_conv)

lemma simulates_ret [sim]: "simulates pending (ret x) (ret x)"
  by (simp add: simulates_def)

lemma simulates_throw [sim]: "simulates pending (throw e) (throw e)"
  by (simp add: simulates_def)

lemma simulates_liftE [sim]: "simulates pending (liftE r) (liftE r)"
  by (simp add: simulates_def)

lemma simulates_bindM [sim]:
  assumes "simulates pending m q" "\<And>x. simulates pending (f x) (g x)"
  shows "simulates pending (bindM m f) (bindM q g)"
  unfolding simulates_def
proof (intro allI impI)
  fix s p assume p: "pending s p"
  obtain r p' where q: "q p = (r, p')" by (cases "q p")
  then obtain t where t: "m s = (r, t)" "pending t p'"
    using simulatesD [OF assms(1) p] by blast
  show "\<exists>t. bindM m f s = (fst (bindM q g p), t) \<and> pending t (snd (bindM q g p))"
  proof (cases r)
    case (Inr x)
    obtain r' p'' where g: "g x p' = (r', p'')" by (cases "g x p'")
    then obtain u where "f x t = (r', u)" "pending u p''"
      using simulatesD [OF assms(2) t(2)] by blast
    with g q t Inr show ?thesis by simp
  qed (use t q in simp)
qed

lemma simulates_seqM [sim]:
  "simulates pending m q \<Longrightarrow> simulates pending n r \<Longrightarrow> simulates pending (seqM m n) (seqM q r)"
  by (simp add: seqM_def simulates_bindM)

lemma simulates_if [sim]:
  "(b \<Longrightarrow> simulates pending m q) \<Longrightarrow> (\<not> b \<Longrightarrow> simulates pending n r) \<Longrightarrow>
   simulates pending (if b then m else n) (if b then q else r)"
  by simp

lemma read_exact_list:
  "read_exact (list_source eof) n p =
     (if n \<le> length p then (Inr (take n p), drop n p) else (Inl (EndOfFile eof), []))"
proof (cases "n = 0")
  case False
  have "read_loop (Suc f) (list_source eof) n p =
      (if n \<le> length p then (Inr (take n p), drop n p) else (Inl (EndOfFile eof), []))"
    if "n \<le> Suc f" for f
  proof (cases "p = []")
    case True
    with False show ?thesis by (simp add: read_loop.simps [of "Suc f"] list_source_def)
  next
    case nonempty: False
    have "read_loop f (list_source eof) (n - length p) [] = (Inl (EndOfFile eof), [])"
      if "\<not> n \<le> length p"
    proof -
      have "0 < length p" using nonempty by simp
      with that \<open>n \<le> Suc f\<close> have "0 < f" by linarith
      then obtain g where "f = Suc g" by (cases f) auto
      then show ?thesis using that by (simp add: read_loop.simps [of "Suc g"] list_source_def)
    qed
    with False nonempty show ?thesis
      by (simp add: read_loop.simps [of "Suc f"] list_source_def read_loop.simps [of _ _ 0] min_def)
  qed
  from this [of "n - 1"] False show ?thesis
    by (simp add: read_exact_def)
qed (simp add: read_exact_def read_loop.simps)

context byte_source
begin

lemma read_loop_spec:
  assumes "pending s p" "n \<le> fuel"
  shows "\<exists>t. read_loop fuel read n s =
      (if n \<le> length p then (Inr (take n p), t) else (Inl (EndOfFile eof), t)) \<and>
      pending t (drop n p)"
  using assms
proof (induction fuel arbitrary: n s p)
  case 0
  then show ?case by (simp add: read_loop.simps)
next
  case (Suc fuel)
  show ?case
  proof (cases "n = 0")
    case True
    with Suc.prems show ?thesis by (simp add: read_loop.simps)
  next
    case n: False
    show ?thesis
    proof (cases "p = []")
      case True
      then obtain t where "read n s = (Inl (EndOfFile eof), t)" "pending t []"
        using read_eof Suc.prems(1) by blast
      with True n show ?thesis by (simp add: read_loop.simps [of "Suc fuel"])
    next
      case False
      then obtain k t where k: "0 < k" "k \<le> n" "k \<le> length p" "read n s = (Inr (take k p), t)"
          "pending t (drop k p)"
        using read_some [OF Suc.prems(1) False] n by blast
      obtain u where u: "read_loop fuel read (n - k) t =
          (if n - k \<le> length (drop k p) then (Inr (take (n - k) (drop k p)), u)
           else (Inl (EndOfFile eof), u))" "pending u (drop (n - k) (drop k p))"
        using Suc.IH [OF k(5), of "n - k"] Suc.prems(2) k(1) by fastforce
      have eqs: "take k p @ take (n - k) (drop k p) = take n p" "drop (n - k) (drop k p) = drop n p"
          "n - k \<le> length p - k \<longleftrightarrow> n \<le> length p" "min (length p) k = k"
        using k by (auto simp: take_add [symmetric])
      have "read_loop (Suc fuel) read n s =
          (if n \<le> length p then (Inr (take k p @ take (n - k) (drop k p)), u) else (Inl (EndOfFile eof), u))"
        using k(4) n u(1)
        by (cases "n \<le> length p") (simp_all add: read_loop.simps [of "Suc fuel"] eqs(3,4))
      with u(2) show ?thesis unfolding eqs by blast
    qed
  qed
qed

lemma simulates_read_exact [sim]:
  "simulates pending (read_exact read n) (read_exact (list_source eof) n)"
  unfolding simulates_def
proof (intro allI impI)
  fix s p assume "pending s p"
  then show "\<exists>t. read_exact read n s = (fst (read_exact (list_source eof) n p), t) \<and>
      pending t (snd (read_exact (list_source eof) n p))"
    using read_loop_spec [of s p n n] by (fastforce simp: read_exact_def [of read] read_exact_list)
qed

lemma simulates_readNum [sim]: "simulates pending (readNum m read) (readNum m (list_source eof))"
  unfolding readNum_def Let_def by (intro sim)

lemma simulates_readPadding [sim]:
  "simulates pending (readPadding n read) (readPadding n (list_source eof))"
  unfolding readPadding_def by (intro sim)

lemma simulates_readString [sim]:
  "simulates pending (readString m read) (readString m (list_source eof))"
  unfolding readString_def by (intro sim)

lemma skip_loop_spec:
  assumes "pending s p" "n \<le> fuel"
  shows "\<exists>t. skip_loop fuel read n s =
      ((if n \<le> length p then Inr () else Inl (EndOfFile eof)), t) \<and> pending t (drop n p)"
  using assms
proof (induction fuel arbitrary: n s p)
  case 0
  then show ?case by (simp add: skip_loop.simps)
next
  case (Suc fuel)
  show ?case
  proof (cases "n = 0 \<or> p = []")
    case True
    then show ?thesis
      using Suc.prems read_eof [of s "min n 8192"]
      by (cases "n = 0") (auto simp: skip_loop.simps)
  next
    case False
    then obtain k t where k: "0 < k" "k \<le> min n 8192" "k \<le> length p"
        "read (min n 8192) s = (Inr (take k p), t)" "pending t (drop k p)"
      using read_some [OF Suc.prems(1), of "min n 8192"] by auto
    obtain u where u: "skip_loop fuel read (n - k) t =
        ((if n - k \<le> length (drop k p) then Inr () else Inl (EndOfFile eof)), u)"
        "pending u (drop (n - k) (drop k p))"
      using Suc.IH [OF k(5), of "n - k"] Suc.prems(2) k(1) by fastforce
    have eqs: "drop (n - k) (drop k p) = drop n p" "n - k \<le> length (drop k p) \<longleftrightarrow> n \<le> length p"
        "min (length p) k = k" "k \<le> n"
      using k by auto
    have "skip_loop (Suc fuel) read n s = skip_loop fuel read (n - k) t"
      using k(4) False by (simp add: skip_loop.simps [of "Suc fuel"] eqs(3,4))
    with u show ?thesis unfolding eqs by (intro exI [of _ u]) simp
  qed
qed

end

subsection \<open>From a source into a sink\<close>

locale source_to_byte_sink = src: byte_source pending eof read + snk: byte_sink has sink
  for pending :: "'s \<Rightarrow> string \<Rightarrow> bool" and eof :: string and read :: "'s source"
    and has :: "'t \<Rightarrow> string \<Rightarrow> bool" and sink :: "'t sink"
begin

text \<open>Draining moves everything that is left, and more fuel than bytes is enough.\<close>

lemma drainInto_all:
  assumes "pending s p" "has k w" "length p < fuel"
  shows "\<exists>t k'. drainInto_loop fuel read sink (s, k) = (Inr (), (t, k')) \<and> pending t [] \<and> has k' (w @ p)"
  using assms
proof (induction fuel arbitrary: s k p w)
  case (Suc fuel)
  show ?case
  proof (cases "p = []")
    case True
    then obtain t where "read 8192 s = (Inl (EndOfFile eof), t)" "pending t []"
      using src.read_eof Suc.prems(1) by blast
    with True Suc.prems(2) show ?thesis by (simp add: run)
  next
    case False
    then obtain n t where n: "0 < n" "n \<le> length p" "read 8192 s = (Inr (take n p), t)" "pending t (drop n p)"
      using src.read_some [OF Suc.prems(1) False, of 8192] by auto
    obtain k' where k': "sink (take n p) k = (Inr (), k')" "has k' (w @ take n p)"
      using snk.accepts [OF Suc.prems(2)] by blast
    have "length (drop n p) < fuel" using n Suc.prems(3) by simp
    with Suc.IH [OF n(4) k'(2)] obtain t' k'' where
      "drainInto_loop fuel read sink (t, k') = (Inr (), (t', k''))" "pending t' []" "has k'' (w @ p)"
      by auto
    with n k' show ?thesis by simp
  qed
qed simp

text \<open>With a length: exactly that much moves, or what there is and then \<open>EndOfFile\<close>.\<close>

lemma drainInto_len_spec:
  assumes "pending s p" "has k w" "n \<le> fuel"
  shows "\<exists>t k'. drainInto_len fuel read sink n (s, k) =
      ((if n \<le> length p then Inr () else Inl (EndOfFile eof)), (t, k')) \<and>
      pending t (drop n p) \<and> has k' (w @ take n p)"
  using assms
proof (induction fuel arbitrary: s k p w n)
  case 0
  then show ?case by (auto simp: drainInto_len.simps)
next
  case (Suc fuel)
  show ?case
  proof (cases "n = 0 \<or> p = []")
    case True
    then show ?thesis
      using Suc.prems src.read_eof [of s "min n 65536"]
      by (cases "n = 0") (auto simp: drainInto_len.simps)
  next
    case False
    then obtain j t where j: "0 < j" "j \<le> min n 65536" "j \<le> length p"
        "read (min n 65536) s = (Inr (take j p), t)" "pending t (drop j p)"
      using src.read_some [OF Suc.prems(1), of "min n 65536"] by auto
    obtain k' where k': "sink (take j p) k = (Inr (), k')" "has k' (w @ take j p)"
      using snk.accepts [OF Suc.prems(2)] by blast
    obtain t' k'' where u: "drainInto_len fuel read sink (n - j) (t, k') =
        ((if n - j \<le> length (drop j p) then Inr () else Inl (EndOfFile eof)), (t', k''))"
        "pending t' (drop (n - j) (drop j p))" "has k'' ((w @ take j p) @ take (n - j) (drop j p))"
      using Suc.IH [OF j(5) k'(2), of "n - j"] Suc.prems(3) j(1) by fastforce
    have eqs: "drop (n - j) (drop j p) = drop n p" "n - j \<le> length (drop j p) \<longleftrightarrow> n \<le> length p"
        "min (length p) j = j" "j \<le> n" "(w @ take j p) @ take (n - j) (drop j p) = w @ take n p"
      using j by (auto simp: take_add [symmetric])
    have "drainInto_len (Suc fuel) read sink n (s, k) = drainInto_len fuel read sink (n - j) (t, k')"
      using j(4) k' False by (simp add: drainInto_len.simps [of "Suc fuel"] eqs(3,4))
    with u show ?thesis unfolding eqs by (intro exI [of _ t'] exI [of _ k'']) simp
  qed
qed

end

subsection \<open>The sources of the code keep the contract\<close>

definition string_pending :: "string_source \<Rightarrow> string \<Rightarrow> bool" where
  "string_pending x p \<longleftrightarrow> str_pos x \<le> length (str_src x) \<and> p = drop (str_pos x) (str_src x)"

interpretation string_source: byte_source string_pending "''end of string reached''" StringSource_read
proof
  fix x p and n :: nat
  assume h: "string_pending x p" "p \<noteq> []" "0 < n"
  then have "str_pos x < length (str_src x)" by (simp add: string_pending_def)
  with h show "\<exists>k t. 0 < k \<and> k \<le> n \<and> k \<le> length p \<and> StringSource_read n x = (Inr (take k p), t) \<and>
      string_pending t (drop k p)"
    by (intro exI [of _ "min n (length p)"])
       (auto simp: StringSource_read_def Let_def string_pending_def min_def add.commute)
next
  fix x and n :: nat
  assume "string_pending x []"
  then show "\<exists>t. StringSource_read n x = (Inl (EndOfFile ''end of string reached''), t) \<and> string_pending t []"
    by (simp add: StringSource_read_def string_pending_def)
qed

text \<open>\<open>StringSource\<close> overrides \<open>skip\<close>; the override does what skipping by reading does.\<close>

lemma StringSource_skip_eq:
  assumes "string_pending x p"
  shows "\<exists>t. StringSource_skip n x =
      ((if n \<le> length p then Inr () else Inl (EndOfFile ''end of string reached'')), t) \<and>
      string_pending t (drop n p)"
  using assms by (auto simp: StringSource_skip_def Let_def string_pending_def add.commute)

definition tee_pending ::
  "('s \<Rightarrow> string \<Rightarrow> bool) \<Rightarrow> ('t \<Rightarrow> string \<Rightarrow> bool) \<Rightarrow> string \<Rightarrow> 's \<times> 't \<Rightarrow> string \<Rightarrow> bool" where
  "tee_pending pending has all = (\<lambda>(s, k) p. pending s p \<and> (\<exists>w. has k w \<and> all = w @ p))"

text \<open>A tee delivers what its source does, and its sink has got whatever was delivered.\<close>

context source_to_byte_sink
begin

lemma tee_source_spec: "byte_source (tee_pending pending has all) eof (TeeSource_read read sink)"
proof
  fix x p and n :: nat
  assume h: "tee_pending pending has all x p" "p \<noteq> []" "0 < n"
  obtain s k w where x: "x = (s, k)" "pending s p" "has k w" "all = w @ p"
    using h(1) by (auto simp: tee_pending_def)
  obtain j t where j: "0 < j" "j \<le> n" "j \<le> length p" "read n s = (Inr (take j p), t)" "pending t (drop j p)"
    using src.read_some [OF x(2) h(2,3)] by blast
  obtain k' where "sink (take j p) k = (Inr (), k')" "has k' (w @ take j p)"
    using snk.accepts [OF x(3)] by blast
  with j x show "\<exists>j t. 0 < j \<and> j \<le> n \<and> j \<le> length p \<and> TeeSource_read read sink n x = (Inr (take j p), t) \<and>
      tee_pending pending has all t (drop j p)"
    by (intro exI [of _ j]) (auto simp: TeeSource_read_def tee_pending_def)
next
  fix x and n :: nat
  assume "tee_pending pending has all x []"
  then obtain s k where x: "x = (s, k)" "pending s []" "has k all" by (auto simp: tee_pending_def)
  obtain t where "read n s = (Inl (EndOfFile eof), t)" "pending t []"
    using src.read_eof [OF x(2)] by blast
  with x show "\<exists>t. TeeSource_read read sink n x = (Inl (EndOfFile eof), t) \<and> tee_pending pending has all t []"
    by (auto simp: TeeSource_read_def tee_pending_def)
qed

end

definition length_pending :: "('s \<Rightarrow> string \<Rightarrow> bool) \<Rightarrow> 64 word \<Rightarrow> 's \<times> 64 word \<Rightarrow> string \<Rightarrow> bool" where
  "length_pending pending all = (\<lambda>(s, total) p. pending s p \<and> total + word_of_nat (length p) = all)"

text \<open>\<open>total\<close> is what was delivered: with what is left it stays the length of the whole.\<close>

context byte_source
begin

lemma length_source_spec: "byte_source (length_pending pending all) eof (LengthSource_read read)"
proof
  fix x p and n :: nat
  assume h: "length_pending pending all x p" "p \<noteq> []" "0 < n"
  obtain s m where x: "x = (s, m)" "pending s p" "m + word_of_nat (length p) = all"
    using h(1) by (auto simp: length_pending_def)
  obtain j t where j: "0 < j" "j \<le> n" "j \<le> length p" "read n s = (Inr (take j p), t)" "pending t (drop j p)"
    using read_some [OF x(2) h(2,3)] by blast
  have "m + word_of_nat j + word_of_nat (length p - j) = all"
    using x(3) j(3) by (simp add: of_nat_diff)
  with j x show "\<exists>j t. 0 < j \<and> j \<le> n \<and> j \<le> length p \<and> LengthSource_read read n x = (Inr (take j p), t) \<and>
      length_pending pending all t (drop j p)"
    by (intro exI [of _ j]) (auto simp: LengthSource_read_def length_pending_def min_def)
next
  fix x and n :: nat
  assume "length_pending pending all x []"
  then obtain s m where x: "x = (s, m)" "pending s []" "m = all" by (auto simp: length_pending_def)
  obtain t where "read n s = (Inl (EndOfFile eof), t)" "pending t []"
    using read_eof [OF x(2)] by blast
  with x show "\<exists>t. LengthSource_read read n x = (Inl (EndOfFile eof), t) \<and> length_pending pending all t []"
    by (auto simp: LengthSource_read_def length_pending_def)
qed

end

text \<open>A buffered source has what its buffer holds and what the source under it has.\<close>

definition buffered_rest :: "buffered_source \<Rightarrow> string" where
  "buffered_rest b = take (bufPosIn b - bufPosOut b) (drop (bufPosOut b) (in_buffer b))"

definition buffered_source_ok :: "buffered_source \<Rightarrow> bool" where
  "buffered_source_ok b \<longleftrightarrow> 0 < in_bufSize b \<and> bufPosIn b \<le> length (in_buffer b) \<and>
     (if bufPosIn b = 0 then bufPosOut b = 0 else bufPosOut b < bufPosIn b)"

definition buffered_pending ::
  "('u \<Rightarrow> string \<Rightarrow> bool) \<Rightarrow> buffered_source \<times> 'u \<Rightarrow> string \<Rightarrow> bool" where
  "buffered_pending pending = (\<lambda>(b, u) p.
     buffered_source_ok b \<and> (\<exists>v. pending u v \<and> p = buffered_rest b @ v))"

lemma BufferedSource_new_ok: "0 < n \<Longrightarrow> buffered_source_ok (BufferedSource_new n)"
  "buffered_rest (BufferedSource_new n) = []"
  by (simp_all add: BufferedSource_new_def buffered_source_ok_def buffered_rest_def)

text \<open>The second half of a read, on a buffer that holds something.\<close>

lemma BufferedSource_copy_out:
  assumes b: "bufPosOut b < bufPosIn b" "bufPosIn b \<le> length (in_buffer b)" "0 < in_bufSize b"
  shows "\<exists>b'. BufferedSource_read r len (b, u) = (Inr (take len (buffered_rest b)), (b', u)) \<and>
      buffered_source_ok b' \<and> buffered_rest b' = drop len (buffered_rest b)"
proof -
  define n where "n = min len (bufPosIn b - bufPosOut b)"
  define b' where "b' = (let c = b\<lparr>bufPosOut := bufPosOut b + n\<rparr> in
      if bufPosIn c = bufPosOut c then c\<lparr>bufPosIn := 0, bufPosOut := 0\<rparr> else c)"
  have "take n (drop (bufPosOut b) (in_buffer b)) = take len (buffered_rest b)"
    by (simp add: n_def buffered_rest_def min_def)
  then have run: "BufferedSource_read r len (b, u) = (Inr (take len (buffered_rest b)), (b', u))"
    using b by (simp add: BufferedSource_read_def run Let_def b'_def n_def)
  have "buffered_rest b' = drop len (buffered_rest b)"
    using b by (auto simp: b'_def Let_def buffered_rest_def n_def drop_take add.commute min_def)
  moreover have "buffered_source_ok b'"
    using b by (auto simp: b'_def Let_def buffered_source_ok_def n_def)
  ultimately show ?thesis using run by blast
qed

locale buffered_byte_source = byte_source pending eof readUnbuffered
  for pending :: "'u \<Rightarrow> string \<Rightarrow> bool" and eof :: string and readUnbuffered :: "'u source"
begin

text \<open>With an empty buffer the read fills it first.\<close>

lemma BufferedSource_fill:
  assumes "bufPosIn b = 0" "bufPosOut b = 0" "0 < in_bufSize b" "pending u v" "v \<noteq> []"
  shows "\<exists>b' u'. BufferedSource_read readUnbuffered len (b, u) = BufferedSource_read readUnbuffered len (b', u') \<and>
      bufPosOut b' < bufPosIn b' \<and> bufPosIn b' \<le> length (in_buffer b') \<and> 0 < in_bufSize b' \<and>
      (\<exists>w. pending u' w \<and> v = buffered_rest b' @ w)"
proof -
  obtain k u' where k: "0 < k" "k \<le> in_bufSize b" "k \<le> length v"
      "readUnbuffered (in_bufSize b) u = (Inr (take k v), u')" "pending u' (drop k v)"
    using read_some [OF assms(4,5,3)] by blast
  define b' where "b' = b\<lparr>in_buffer := take k v @ drop k (in_buffer b), bufPosIn := k\<rparr>"
  have "BufferedSource_read readUnbuffered len (b, u) = BufferedSource_read readUnbuffered len (b', u')"
    using assms(1) k by (simp add: BufferedSource_read_def run b'_def min_def)
  moreover have "buffered_rest b' = take k v"
    using assms(2) k by (simp add: buffered_rest_def b'_def)
  moreover have "bufPosOut b' < bufPosIn b'" "bufPosIn b' \<le> length (in_buffer b')" "0 < in_bufSize b'"
    using assms k by (simp_all add: b'_def)
  ultimately show ?thesis using k(5) by (metis append_take_drop_id)
qed

lemma BufferedSource_some:
  assumes x: "buffered_pending pending x p" "p \<noteq> []" "0 < n"
  shows "\<exists>k t. 0 < k \<and> k \<le> n \<and> k \<le> length p \<and> BufferedSource_read readUnbuffered n x = (Inr (take k p), t) \<and>
      buffered_pending pending t (drop k p)"
proof -
  obtain b u v where b: "x = (b, u)" "buffered_source_ok b" "pending u v" "p = buffered_rest b @ v"
    using x(1) by (auto simp: buffered_pending_def)
  obtain b' u' w where b': "BufferedSource_read readUnbuffered n x = BufferedSource_read readUnbuffered n (b', u')"
      "bufPosOut b' < bufPosIn b'" "bufPosIn b' \<le> length (in_buffer b')" "0 < in_bufSize b'"
      "pending u' w" "p = buffered_rest b' @ w"
  proof (cases "bufPosIn b = 0")
    case True
    then have "buffered_rest b = []" "bufPosOut b = 0" "0 < in_bufSize b" "v \<noteq> []"
      using b x(2) by (auto simp: buffered_source_ok_def buffered_rest_def)
    with True b BufferedSource_fill [of b u v n] that show ?thesis by auto
  next
    case False
    with b that [of b u v] show ?thesis by (auto simp: buffered_source_ok_def)
  qed
  obtain c where c: "BufferedSource_read readUnbuffered n (b', u') = (Inr (take n (buffered_rest b')), (c, u'))"
      "buffered_source_ok c" "buffered_rest c = drop n (buffered_rest b')"
    using BufferedSource_copy_out [OF b'(2,3,4), of readUnbuffered n u'] by blast
  define k where "k = min n (length (buffered_rest b'))"
  have "buffered_rest b' \<noteq> []" using b'(2,3) by (simp add: buffered_rest_def)
  then have k: "0 < k" "k \<le> n" "k \<le> length p" using x(3) b'(6) by (auto simp: k_def)
  have "take n (buffered_rest b') = take k p" "drop n (buffered_rest b') @ w = drop k p"
    by (auto simp: k_def b'(6) min_def)
  with k b'(1,5) c show ?thesis
    by (intro exI [of _ k]) (auto simp: buffered_pending_def)
qed

lemma BufferedSource_eof:
  assumes "buffered_pending pending x []"
  shows "\<exists>t. BufferedSource_read readUnbuffered n x = (Inl (EndOfFile eof), t) \<and> buffered_pending pending t []"
proof -
  obtain b u where b: "x = (b, u)" "buffered_source_ok b" "pending u []" "buffered_rest b = []"
    using assms by (auto simp: buffered_pending_def)
  then have "bufPosIn b = 0" "bufPosOut b = 0"
    by (auto simp: buffered_source_ok_def buffered_rest_def split: if_splits)
  moreover obtain u' where "readUnbuffered (in_bufSize b) u = (Inl (EndOfFile eof), u')" "pending u' []"
    using read_eof [OF b(3)] by blast
  ultimately show ?thesis
    using b by (auto simp: BufferedSource_read_def run buffered_pending_def)
qed

end

sublocale buffered_byte_source \<subseteq> buffered: byte_source "buffered_pending pending" eof "BufferedSource_read readUnbuffered"
  using BufferedSource_some BufferedSource_eof by unfold_locales

subsection \<open>Strings on the wire\<close>

lemma length_padding: "length (padding n) = (if n mod 8 \<noteq> 0 then 8 - n mod 8 else 0)"
  by (simp add: padding_def)

lemma read_list_exactly: "length x = n \<Longrightarrow> read_exact (list_source eof) n (x @ p) = (Inr x, p)"
  by (simp add: read_exact_list)

lemma readNum_le64: "n \<le> m \<Longrightarrow> readNum m (list_source eof) (le64 n @ p) = (Inr n, p)"
  by (simp add: readNum_def read_list_exactly Let_def)

lemma readPadding_padding: "readPadding n (list_source eof) (padding n @ p) = (Inr (), p)"
  by (cases "n mod 8 = 0")
     (simp_all add: readPadding_def padding_def read_list_exactly list_ex_iff)

lemma readString_wire:
  assumes "length x < 2 ^ 64" "length x \<le> unat m"
  shows "readString m (list_source eof) (wire x @ p) = (Inr x, p)"
proof -
  have u: "unat (word_of_nat (length x) :: 64 word) = length x"
    using assms(1) by (simp add: unat_of_nat)
  then have "\<not> m < word_of_nat (length x)"
    using assms(2) by (simp add: word_less_nat_alt)
  moreover have "readNum (-1) (list_source eof) (le64 (word_of_nat (length x)) @ q) = (Inr (word_of_nat (length x)), q)" for q
    by (simp add: readNum_le64)
  ultimately show ?thesis
    by (simp add: readString_def wire_def u read_list_exactly readPadding_padding)
qed

text \<open>Eight bytes are what the integer read from them is written as.\<close>

lemma readLittleEndian_byte:
  "i < length s \<Longrightarrow> i < 8 \<Longrightarrow> ucast (drop_bit (8 * i) (readLittleEndian s)) = char_byte (s ! i)"
proof (induction s arbitrary: i)
  case (Cons c s)
  define n where "n = readLittleEndian s"
  have cons: "readLittleEndian (c # s) = push_bit 8 n OR ucast (char_byte c)"
    by (simp add: readLittleEndian_def n_def)
  show ?case
  proof (cases i)
    case 0
    have "ucast (push_bit 8 n OR ucast (char_byte c)) = char_byte c"
      by (rule bit_word_eqI) (simp add: bit_simps)
    with 0 show ?thesis by (simp add: cons)
  next
    case (Suc j)
    have "ucast (drop_bit (8 * Suc j) (push_bit 8 n OR ucast (char_byte c))) = (ucast (drop_bit (8 * j) n) :: byte)"
    proof (rule bit_word_eqI)
      fix k assume "k < LENGTH(8)"
      then have k: "8 * Suc j + k < 64" "8 \<le> 8 * Suc j + k" "8 * Suc j + k - 8 = 8 * j + k" "k < 8"
        using Cons.prems Suc by simp_all
      then have "\<not> bit (ucast (char_byte c) :: 64 word) (8 * Suc j + k)"
        by (simp add: bit_simps byte_no_bit)
      with k show "bit (ucast (drop_bit (8 * Suc j) (push_bit 8 n OR ucast (char_byte c))) :: byte) k
          = bit (ucast (drop_bit (8 * j) n) :: byte) k"
        by (simp add: bit_simps del: mult_Suc_right)
    qed
    then show ?thesis
      using Cons.IH [of j] Cons.prems Suc by (simp add: cons n_def)
  qed
qed simp

lemma le64_readLittleEndian: "length s = 8 \<Longrightarrow> le64 (readLittleEndian s) = s"
  by (rule nth_equalityI) (simp_all add: le64_def le64_and_ff readLittleEndian_byte)

lemma readNum_accepts:
  assumes "readNum m (list_source eof) p = (Inr n, q)"
  shows "p = le64 n @ q \<and> n \<le> m"
proof -
  have "8 \<le> length p" "n = readLittleEndian (take 8 p)" "q = drop 8 p" "n \<le> m"
    using assms by (auto simp: readNum_def bindM_eq_Inr read_exact_list Let_def split: if_splits)
  then show ?thesis using le64_readLittleEndian [of "take 8 p"] by simp
qed

text \<open>What \<open>readString\<close> accepts is exactly a string on the wire.\<close>

lemma readPadding_accepts:
  assumes "readPadding n (list_source eof) p = (Inr (), q)"
  shows "p = padding n @ q"
proof (cases "n mod 8 = 0")
  case False
  define z where "z = take (8 - n mod 8) p"
  have "8 - n mod 8 \<le> length p" "q = drop (8 - n mod 8) p" "\<forall>c\<in>set z. c = CHR 0x00"
    using assms False
    by (auto simp: readPadding_def bindM_eq_Inr read_exact_list list_ex_iff z_def split: if_splits)
  then have "length z = 8 - n mod 8" "\<forall>c\<in>set z. c = CHR 0x00"
    by (simp_all add: z_def)
  then have "z = padding n"
    using False replicate_length_same [of z "CHR 0x00"] by (simp add: padding_def)
  with \<open>q = _\<close> show ?thesis unfolding z_def by (metis append_take_drop_id)
qed (use assms in \<open>simp add: readPadding_def padding_def\<close>)

lemma readString_accepts:
  assumes "readString m (list_source eof) p = (Inr x, q)"
  shows "p = wire x @ q \<and> length x < 2 ^ 64 \<and> length x \<le> unat m"
proof -
  obtain len r r' where 1: "readNum (-1) (list_source eof) p = (Inr len, r)" "\<not> m < len"
    "read_exact (list_source eof) (unat len) r = (Inr x, r')"
    "readPadding (unat len) (list_source eof) r' = (Inr (), q)"
    using assms by (auto simp: readString_def bindM_eq_Inr seqM_eq_Inr split: if_splits)
  from readNum_accepts [OF 1(1)] have "p = le64 len @ r" by simp
  moreover have x: "length x = unat len" "r = x @ r'"
    using 1(3) by (auto simp: read_exact_list split: if_splits)
  moreover have "r' = padding (length x) @ q" using readPadding_accepts [OF 1(4)] x(1) by simp
  moreover have "word_of_nat (length x) = len" "length x < 2 ^ 64"
    using x(1) unat_u64_lt [of len] by simp_all
  ultimately show ?thesis
    using 1(2) by (simp add: wire_def word_less_nat_alt)
qed


subsection \<open>Properties\<close>

text \<open>
  C5.  The digest does not depend on how the data was cut into writes, nor on the size of the
  sink's buffer: it is the digest of the concatenation, with its length.
\<close>

theorem hash_of_chunks:
  assumes "sha256_ok sha"
  shows "fst (seqM (forM (HashSink sha) chunks) (HashSink_finish sha) (HashSink_new sha)) =
    Inr (hashString sha (concat chunks), word_of_nat (length (concat chunks)))"
proof -
  have "hash_sink.buffered.writes sha (forM (HashSink sha) chunks) (concat (map id chunks))"
    by (rule hash_sink.buffered.writes_forM)
       (simp add: HashSink_def hash_sink.buffered.writes_sink)
  from hash_sink.buffered.writesD [OF this HashSink_new_has [OF assms]] obtain t where
    "forM (HashSink sha) chunks (HashSink_new sha) = (Inr (), t)" "buffered_has (hashed sha) t (concat chunks)"
    by auto
  with HashSink_finish_hash show ?thesis by (simp add: run)
qed

theorem hash_of_chunks_witness:
  "fst (seqM (forM (HashSink toy_sha) [''ab'', [], ''c'']) (HashSink_finish toy_sha) (HashSink_new toy_sha)) =
    Inr (hashString toy_sha ''abc'', 3)"
  using hash_of_chunks [OF toy_sha_ok, of "[''ab'', [], ''c'']"] by simp

text \<open>
  C6.  Reading a string from the wire: it succeeds exactly on the eight bytes of the length,
  the string and zero padding to a multiple of eight, within the bound, and stops right
  behind them.
\<close>

theorem readString_exactly_wire:
  "(\<exists>t. readString m StringSource_read \<lparr> str_src = p, str_pos = 0 \<rparr> = (Inr x, t) \<and> string_pending t q)
   \<longleftrightarrow> p = wire x @ q \<and> length x < 2 ^ 64 \<and> length x \<le> unat m"
proof -
  have p: "string_pending \<lparr> str_src = p, str_pos = 0 \<rparr> p" by (simp add: string_pending_def)
  obtain r q' where r: "readString m (list_source ''end of string reached'') p = (r, q')"
    by (cases "readString m (list_source ''end of string reached'') p")
  from simulatesD [OF string_source.simulates_readString p r] obtain t where
    t: "readString m StringSource_read \<lparr> str_src = p, str_pos = 0 \<rparr> = (r, t)" "string_pending t q'"
    by blast
  have "string_pending t q \<longleftrightarrow> q = q'" using t(2) by (auto simp: string_pending_def)
  then have "(\<exists>t. readString m StringSource_read \<lparr> str_src = p, str_pos = 0 \<rparr> = (Inr x, t) \<and> string_pending t q)
      \<longleftrightarrow> r = Inr x \<and> q = q'" using t by auto
  also have "\<dots> \<longleftrightarrow> p = wire x @ q \<and> length x < 2 ^ 64 \<and> length x \<le> unat m"
    using readString_accepts [of m _ p x q'] readString_wire [of x m _ q] r by auto
  finally show ?thesis .
qed

end
