(* ===== verification/FileDescriptor.thy ===== *)
theory FileDescriptor
  imports Serialise
begin

text \<open>
  Reads and writes on file descriptors (\<open>libutil/file-descriptor.cc\<close>) and the two streams
  over them, \<open>FdSink\<close> and \<open>FdSource\<close> of \<open>libutil/serialise.cc\<close>.

  The kernel side is a file or pipe with an offset and a script: the outcome of each call to
  come, as a kernel is free to choose it.  A call may transfer less than asked for, be
  interrupted by a signal, find nothing to do on a non-blocking descriptor, or fail.  With
  the script used up every call transfers all it can.  \<open>fd_signals\<close> are the answers of the
  interrupt flag that \<open>checkInterrupt\<close> looks at.
\<close>

subsection \<open>The kernel\<close>

datatype io_outcome = Transfer nat | Intr | Again | Failed errno

record kernel_fd =
  fd_bytes :: string
  fd_off :: nat
  fd_seekable :: bool
  fd_script :: "io_outcome list"
  fd_signals :: "bool list"

definition checkInterrupt :: "(kernel_fd, unit) M" where
  "checkInterrupt k =
     (case fd_signals k of
        [] \<Rightarrow> (Inr (), k)
      | b # r \<Rightarrow> ((if b then Inl (Interrupted ''interrupted by the user'') else Inr ()), k\<lparr>fd_signals := r\<rparr>))"

text \<open>One system call: how much of \<open>avail\<close> bytes is transferred, or the error number.\<close>

definition sys_transfer :: "nat \<Rightarrow> nat \<Rightarrow> kernel_fd \<Rightarrow> (errno + nat) \<times> kernel_fd" where
  "sys_transfer least avail k =
     (case fd_script k of
        [] \<Rightarrow> (Inr avail, k)
      | out # r \<Rightarrow>
          ((case out of Transfer n \<Rightarrow> Inr (min avail (max least n)) | Intr \<Rightarrow> Inl EINTR | Again \<Rightarrow> Inl EAGAIN
            | Failed e \<Rightarrow> Inl e), k\<lparr>fd_script := r\<rparr>))"

text \<open>\<open>::read\<close> and \<open>::pread\<close> return 0 at the end of the file only.\<close>

definition sys_pread :: "nat \<Rightarrow> nat \<Rightarrow> kernel_fd \<Rightarrow> (errno + string) \<times> kernel_fd" where
  "sys_pread offset len k =
     (case sys_transfer 1 (min len (length (fd_bytes k) - offset)) k of
        (Inl e, k) \<Rightarrow> (Inl e, k)
      | (Inr n, k) \<Rightarrow> (Inr (take n (drop offset (fd_bytes k))), k))"

definition sys_read :: "nat \<Rightarrow> kernel_fd \<Rightarrow> (errno + string) \<times> kernel_fd" where
  "sys_read len k =
     (case sys_pread (fd_off k) len k of
        (Inl e, k) \<Rightarrow> (Inl e, k)
      | (Inr data, k) \<Rightarrow> (Inr data, k\<lparr>fd_off := fd_off k + length data\<rparr>))"

text \<open>\<open>::write\<close> appends: the descriptors the program writes to are new files and pipes.\<close>

definition sys_write :: "string \<Rightarrow> kernel_fd \<Rightarrow> (errno + nat) \<times> kernel_fd" where
  "sys_write data k =
     (case sys_transfer 0 (length data) k of
        (Inl e, k) \<Rightarrow> (Inl e, k)
      | (Inr n, k) \<Rightarrow> (Inr n, k\<lparr>fd_bytes := fd_bytes k @ take n data\<rparr>))"

definition sys_lseek_cur :: "nat \<Rightarrow> kernel_fd \<Rightarrow> (errno + unit) \<times> kernel_fd" where
  "sys_lseek_cur len k =
     (if fd_seekable k then (Inr (), k\<lparr>fd_off := fd_off k + len\<rparr>) else (Inl ESPIPE, k))"

subsection \<open>Reading and writing\<close>

text \<open>The loops end: an interrupted call uses up a line of the script.\<close>

lemma sys_transfer_script:
  "sys_transfer l n k = (r, k') \<Longrightarrow> fd_script k' = tl (fd_script k)"
  "sys_transfer l n k = (Inl e, k') \<Longrightarrow> fd_script k \<noteq> []"
  by (auto simp: sys_transfer_def split: list.splits)

lemma checkInterrupt_script: "fd_script (snd (checkInterrupt k)) = fd_script k"
  "fd_bytes (snd (checkInterrupt k)) = fd_bytes k" "fd_off (snd (checkInterrupt k)) = fd_off k"
  by (auto simp: checkInterrupt_def split: list.splits)

lemma checkInterruptD: "(r, k') = checkInterrupt k \<Longrightarrow> fd_script k' = fd_script k"
  using checkInterrupt_script(1) [of k] by (metis snd_conv)

lemma sys_pread_script:
  "sys_pread off len k = (Inl e, k') \<Longrightarrow> length (fd_script k') < length (fd_script k)"
  using sys_transfer_script
  by (fastforce simp: sys_pread_def split: prod.splits sum.splits)

lemma sys_read_script:
  "sys_read len k = (Inl e, k') \<Longrightarrow> length (fd_script k') < length (fd_script k)"
  using sys_pread_script by (fastforce simp: sys_read_def split: prod.splits sum.splits)

lemma sys_write_script:
  "sys_write data k = (Inl e, k') \<Longrightarrow> length (fd_script k') < length (fd_script k)"
  using sys_transfer_script
  by (fastforce simp: sys_write_def split: prod.splits sum.splits)

function nix_read :: "nat \<Rightarrow> kernel_fd \<Rightarrow> (exn + string) \<times> kernel_fd" where
  "nix_read len k =
     (case checkInterrupt k of
        (Inl e, k) \<Rightarrow> (Inl e, k)
      | (Inr _, k) \<Rightarrow>
          (case sys_read len k of
             (Inr data, k) \<Rightarrow> (Inr data, k)
           | (Inl e, k) \<Rightarrow>
               if e = EINTR then nix_read len k else (Inl (SysError e ''read of %1% bytes''), k)))"
  by pat_completeness auto
termination
  by (relation "measure (\<lambda>(_, k). length (fd_script k))")
     (simp, simp only: in_measure case_prod_conv, metis checkInterruptD sys_read_script)

declare nix_read.simps [simp del]

function readOffset :: "nat \<Rightarrow> nat \<Rightarrow> kernel_fd \<Rightarrow> (exn + string) \<times> kernel_fd" where
  "readOffset offset len k =
     (case checkInterrupt k of
        (Inl e, k) \<Rightarrow> (Inl e, k)
      | (Inr _, k) \<Rightarrow>
          (case sys_pread offset len k of
             (Inr data, k) \<Rightarrow> (Inr data, k)
           | (Inl e, k) \<Rightarrow>
               if e = EINTR then readOffset offset len k
               else (Inl (SysError e ''pread of %1% bytes at offset %2%''), k)))"
  by pat_completeness auto
termination
  by (relation "measure (\<lambda>(_, _, k). length (fd_script k))")
     (simp, simp only: in_measure case_prod_conv, metis checkInterruptD sys_pread_script)

declare readOffset.simps [simp del]

function nix_write :: "bool \<Rightarrow> string \<Rightarrow> kernel_fd \<Rightarrow> (exn + nat) \<times> kernel_fd" where
  "nix_write allowInterrupts data k =
     (case (if allowInterrupts then checkInterrupt k else (Inr (), k)) of
        (Inl e, k) \<Rightarrow> (Inl e, k)
      | (Inr _, k) \<Rightarrow>
          (case sys_write data k of
             (Inr n, k) \<Rightarrow> (Inr n, k)
           | (Inl e, k) \<Rightarrow>
               if e = EINTR then nix_write allowInterrupts data k
               else (Inl (SysError e ''write of %1% bytes''), k)))"
  by pat_completeness auto
termination
  by (relation "measure (\<lambda>(_, _, k). length (fd_script k))")
     (simp, simp only: in_measure case_prod_conv, metis checkInterruptD sys_write_script prod.inject)

declare nix_write.simps [simp del]

text \<open>\<open>retryOnBlock\<close> around a write: on \<open>EAGAIN\<close> it polls (which waits) and tries again.\<close>

lemma nix_write_script:
  "nix_write a data k = (Inl (SysError e m), k') \<Longrightarrow> length (fd_script k') < length (fd_script k)"
proof (induction a data k rule: nix_write.induct)
  case (1 a data k)
  obtain r k1 where c: "(if a then checkInterrupt k else (Inr (), k)) = (r, k1)"
    by (cases "if a then checkInterrupt k else (Inr (), k)")
  then have k1: "fd_script k1 = fd_script k"
    using checkInterruptD [of r k1 k] by (auto split: if_splits)
  obtain x k2 where w: "sys_write data k1 = (x, k2)" by (cases "sys_write data k1")
  have r: "r = Inr () \<or> (\<exists>m. r = Inl (Interrupted m))"
    using c by (auto simp: checkInterrupt_def split: if_splits list.splits)
  show ?case
  proof (cases r)
    case (Inl e)
    with r c 1(2) show ?thesis by (subst (asm) nix_write.simps) auto
  next
    case (Inr u)
    show ?thesis
    proof (cases x)
      case x: (Inl e')
      then have lt: "length (fd_script k2) < length (fd_script k)"
        using sys_write_script w k1 by metis
      show ?thesis
      proof (cases "e' = EINTR")
        case True
        then have "nix_write a data k2 = (Inl (SysError e m), k')"
          using 1(2) c w x Inr by (subst (asm) nix_write.simps) simp
        then show ?thesis
          using 1(1) [OF c [symmetric] _ w [symmetric] _ True] x Inr lt by fastforce
      next
        case False
        with 1(2) c w x Inr lt show ?thesis by (subst (asm) nix_write.simps) simp
      qed
    next
      case (Inr n)
      with 1(2) c w \<open>r = Inr u\<close> show ?thesis by (subst (asm) nix_write.simps) simp
    qed
  qed
qed

function retry_write :: "bool \<Rightarrow> string \<Rightarrow> kernel_fd \<Rightarrow> (exn + nat) \<times> kernel_fd" where
  "retry_write allowInterrupts data k =
     (case nix_write allowInterrupts data k of
        (Inr n, k) \<Rightarrow> (Inr n, k)
      | (Inl (SysError e m), k) \<Rightarrow>
          if e = EAGAIN then retry_write allowInterrupts data k else (Inl (SysError e m), k)
      | (Inl e, k) \<Rightarrow> (Inl e, k))"
  by pat_completeness auto
termination
  by (relation "measure (\<lambda>(_, _, k). length (fd_script k))")
     (simp, simp only: in_measure case_prod_conv, metis nix_write_script)

declare retry_write.simps [simp del]

text \<open>A write that returns has used a line of the script, or has written everything.\<close>

lemma sys_write_progress:
  "sys_write data k = (r, k') \<Longrightarrow> length (fd_script k') \<le> length (fd_script k)"
  "sys_write data k = (Inr n, k') \<Longrightarrow>
   n \<le> length data \<and> fd_bytes k' = fd_bytes k @ take n data \<and>
   (n = length data \<or> length (fd_script k') < length (fd_script k))"
  by (auto simp: sys_write_def sys_transfer_def split: list.splits io_outcome.splits sum.splits prod.splits)

lemma checkInterruptD': "(r, k') = checkInterrupt k \<Longrightarrow> fd_bytes k' = fd_bytes k"
  using checkInterrupt_script(2) [of k] by (metis snd_conv)

lemma nix_write_progress:
  "nix_write a data k = (Inr n, k') \<Longrightarrow>
   n \<le> length data \<and> fd_bytes k' = fd_bytes k @ take n data \<and>
   length (fd_script k') \<le> length (fd_script k) \<and>
   (n = length data \<or> length (fd_script k') < length (fd_script k))"
proof (induction a data k rule: nix_write.induct)
  case (1 a data k)
  obtain r k1 where c: "(if a then checkInterrupt k else (Inr (), k)) = (r, k1)"
    by (cases "if a then checkInterrupt k else (Inr (), k)")
  then have k1: "fd_script k1 = fd_script k" "fd_bytes k1 = fd_bytes k"
    using checkInterruptD [of r k1 k] checkInterruptD' [of r k1 k] by (auto split: if_splits)
  obtain x k2 where w: "sys_write data k1 = (x, k2)" by (cases "sys_write data k1")
  show ?case
  proof (cases r)
    case (Inl e)
    with c 1(2) show ?thesis by (subst (asm) nix_write.simps) simp
  next
    case r: (Inr u)
    show ?thesis
    proof (cases x)
      case x: (Inl e')
      have lt: "length (fd_script k2) < length (fd_script k)" "fd_bytes k2 = fd_bytes k"
        using sys_write_script [of data k1 e' k2] w x k1
        by (auto simp: sys_write_def sys_transfer_def split: list.splits prod.splits sum.splits)
      have e': "e' = EINTR"
        using 1(2) c w x r by (subst (asm) nix_write.simps) (simp split: if_splits)
      then have "nix_write a data k2 = (Inr n, k')"
        using 1(2) c w x r by (subst (asm) nix_write.simps) simp
      then show ?thesis
        using 1(1) [OF c [symmetric] _ w [symmetric] _ e'] x r lt by fastforce
    next
      case (Inr n')
      then have "n' = n" "k2 = k'"
        using 1(2) c w r by (subst (asm) nix_write.simps, simp)+
      with Inr sys_write_progress(1) [OF w] sys_write_progress(2) [of data k1 n k'] w k1
      show ?thesis by simp
    qed
  qed
qed

lemma nix_write_bytes_on_error:
  "nix_write a data k = (Inl e, k') \<Longrightarrow> fd_bytes k' = fd_bytes k"
proof (induction a data k rule: nix_write.induct)
  case (1 a data k)
  obtain r k1 where c: "(if a then checkInterrupt k else (Inr (), k)) = (r, k1)"
    by (cases "if a then checkInterrupt k else (Inr (), k)")
  then have k1: "fd_bytes k1 = fd_bytes k"
    using checkInterruptD' [of r k1 k] by (auto split: if_splits)
  obtain x k2 where w: "sys_write data k1 = (x, k2)" by (cases "sys_write data k1")
  show ?case
  proof (cases r)
    case (Inl e)
    with c k1 1(2) show ?thesis by (subst (asm) nix_write.simps) simp
  next
    case r: (Inr u)
    show ?thesis
    proof (cases x)
      case x: (Inl e')
      have k2: "fd_bytes k2 = fd_bytes k"
        using w x k1 by (auto simp: sys_write_def sys_transfer_def split: list.splits prod.splits sum.splits)
      show ?thesis
      proof (cases "e' = EINTR")
        case True
        then have "nix_write a data k2 = (Inl e, k')"
          using 1(2) c w x r by (subst (asm) nix_write.simps) simp
        then show ?thesis
          using 1(1) [OF c [symmetric] _ w [symmetric] _ True] x r k2 by fastforce
      next
        case False
        with 1(2) c w x r k2 show ?thesis by (subst (asm) nix_write.simps) simp
      qed
    next
      case (Inr n)
      with 1(2) c w r show ?thesis by (subst (asm) nix_write.simps) simp
    qed
  qed
qed

lemma retry_write_progress:
  "retry_write a data k = (Inr n, k') \<Longrightarrow>
   n \<le> length data \<and> fd_bytes k' = fd_bytes k @ take n data \<and>
   length (fd_script k') \<le> length (fd_script k) \<and>
   (n = length data \<or> length (fd_script k') < length (fd_script k))"
proof (induction a data k rule: retry_write.induct)
  case (1 a data k)
  obtain x k1 where w: "nix_write a data k = (x, k1)" by (cases "nix_write a data k")
  show ?case
  proof (cases x)
    case (Inr m)
    then show ?thesis
      using 1(2) w nix_write_progress [of a data k n k'] by (subst (asm) retry_write.simps) simp
  next
    case (Inl e)
    then obtain er m where e: "e = SysError er m" "er = EAGAIN"
      using 1(2) w by (subst (asm) retry_write.simps) (auto split: exn.splits if_splits)
    have "retry_write a data k1 = (Inr n, k')"
      using 1(2) w Inl e by (subst (asm) retry_write.simps) simp
    then show ?thesis
      using 1(1) [OF w [symmetric] Inl e] nix_write_bytes_on_error [of a data k _ k1] w Inl e
        nix_write_script [of a data k er m k1]
      by fastforce
  qed
qed

lemma writeFull_step:
  assumes "s \<noteq> []" "(Inr u, k1) = (if a then checkInterrupt k else (Inr (), k))"
    "(Inr n, k2) = retry_write a s k1"
  shows "length (fd_script k2) + length (if 0 < n then drop n s else s) < length (fd_script k) + length s"
proof -
  have "fd_script k1 = fd_script k"
    using assms(2) checkInterruptD [of "Inr u" k1 k] by (auto split: if_splits)
  then show ?thesis
    using retry_write_progress [of a s k1 n k2] assms(1,3) by (cases s) auto
qed

function writeFull :: "string \<Rightarrow> bool \<Rightarrow> kernel_fd \<Rightarrow> (exn + unit) \<times> kernel_fd" where
  "writeFull s allowInterrupts k =
     (if s = [] then (Inr (), k)
      else case (if allowInterrupts then checkInterrupt k else (Inr (), k)) of
        (Inl e, k) \<Rightarrow> (Inl e, k)
      | (Inr _, k) \<Rightarrow>
          (case retry_write allowInterrupts s k of
             (Inl e, k) \<Rightarrow> (Inl e, k)
           | (Inr res, k) \<Rightarrow> writeFull (if 0 < res then drop res s else s) allowInterrupts k))"
  by pat_completeness auto
termination
  by (relation "measure (\<lambda>(s, _, k). length (fd_script k) + length s)")
     (simp, simp only: in_measure case_prod_conv, metis writeFull_step)

declare writeFull.simps [simp del]

lemma retry_write_bytes_on_error:
  "retry_write a data k = (Inl e, k') \<Longrightarrow> fd_bytes k' = fd_bytes k"
proof (induction a data k rule: retry_write.induct)
  case (1 a data k)
  obtain x k1 where w: "nix_write a data k = (x, k1)" by (cases "nix_write a data k")
  show ?case
  proof (cases x)
    case (Inr m)
    then show ?thesis
      using 1(2) w by (subst (asm) retry_write.simps) simp
  next
    case (Inl e1)
    then have k1: "fd_bytes k1 = fd_bytes k" using w nix_write_bytes_on_error by blast
    show ?thesis
    proof (cases "\<exists>m. e1 = SysError EAGAIN m")
      case True
      then obtain m where m: "e1 = SysError EAGAIN m" by blast
      then have "retry_write a data k1 = (Inl e, k')"
        using 1(2) w Inl by (subst (asm) retry_write.simps) simp
      then show ?thesis using 1(1) [OF w [symmetric] Inl m] k1 by simp
    next
      case False
      then have "k' = k1"
        using 1(2) w Inl by (subst (asm) retry_write.simps) (auto split: exn.splits if_splits)
      with k1 show ?thesis by simp
    qed
  qed
qed

text \<open>
  \<open>writeFull\<close>: when it returns, the file has grown by exactly the string, however the kernel
  cut the writes up; when it throws, by a prefix of it.
\<close>

lemma writeFull_bytes:
  "writeFull s a k = (r, k') \<Longrightarrow>
   \<exists>n. fd_bytes k' = fd_bytes k @ take n s \<and> (r = Inr () \<longrightarrow> n = length s)"
proof (induction s a k rule: writeFull.induct)
  case (1 s a k)
  show ?case
  proof (cases "s = []")
    case True
    with 1(2) show ?thesis by (simp add: writeFull.simps)
  next
    case False
    obtain x k1 where c: "(if a then checkInterrupt k else (Inr (), k)) = (x, k1)"
      by (cases "if a then checkInterrupt k else (Inr (), k)")
    then have k1: "fd_bytes k1 = fd_bytes k"
      using checkInterruptD' [of x k1 k] by (auto split: if_splits)
    show ?thesis
    proof (cases x)
      case (Inl e)
      then have "r = Inl e \<and> k' = k1"
        using 1(2) c False by (subst (asm) writeFull.simps) simp
      with k1 show ?thesis by (intro exI [of _ 0]) simp
    next
      case x: (Inr u)
      obtain y k2 where w: "retry_write a s k1 = (y, k2)" by (cases "retry_write a s k1")
      show ?thesis
      proof (cases y)
        case y: (Inl e)
        then have "r = Inl e \<and> k' = k2"
          using 1(2) c False x w by (subst (asm) writeFull.simps) simp
        moreover have "fd_bytes k2 = fd_bytes k"
          using retry_write_bytes_on_error w y k1 by metis
        ultimately show ?thesis by (intro exI [of _ 0]) simp
      next
        case y: (Inr m)
        have "writeFull (if 0 < m then drop m s else s) a k2 = (r, k')"
          using 1(2) c False x w y by (subst (asm) writeFull.simps) simp
        from 1(1) [OF False c [symmetric] x w [symmetric] y this] obtain n where
          n: "fd_bytes k' = fd_bytes k2 @ take n (drop m s)" "r = Inr () \<longrightarrow> n = length s - m"
          by (cases "m = 0") auto
        have k2: "m \<le> length s" "fd_bytes k2 = fd_bytes k @ take m s"
          using retry_write_progress [of a s k1 m k2] w y k1 by simp_all
        have "fd_bytes k' = fd_bytes k @ take (m + n) s"
          using n(1) k2(2) by (simp add: take_add)
        moreover have "r = Inr () \<longrightarrow> m + n = length s" using n(2) k2(1) by simp
        ultimately show ?thesis by blast
      qed
    qed
  qed
qed

subsection \<open>Draining a descriptor\<close>

text \<open>
  \<open>drainFD\<close> into a sink.  \<open>expected\<close> is \<open>opts.expectedSize\<close>; with \<open>block\<close> unset the
  descriptor is non-blocking and \<open>EAGAIN\<close> ends the loop.  The fuel bounds the reads.
\<close>

fun drainFD_loop ::
  "nat \<Rightarrow> 't sink \<Rightarrow> nat option \<Rightarrow> bool \<Rightarrow> nat \<Rightarrow> (kernel_fd \<times> 't, unit) M" where
  "drainFD_loop 0 sink expected block bytesRead = throw Diverge"
| "drainFD_loop (Suc fuel) sink expected block bytesRead =
     seqM (onL checkInterrupt)
       (if expected = Some bytesRead then ret ()
        else
          let toRead = (case expected of None \<Rightarrow> 64 * 1024 | Some e \<Rightarrow> min (64 * 1024) (e - bytesRead)) in
          bindM (catchM (bindM (onL (nix_read toRead)) (\<lambda>data. ret (Some data)))
              (\<lambda>e. case e of
                 SysError er _ \<Rightarrow> if \<not> block \<and> er = EAGAIN then ret None else throw e
               | _ \<Rightarrow> throw e))
            (\<lambda>got. case got of
               None \<Rightarrow> ret ()
             | Some data \<Rightarrow>
                 if length data = 0 then
                   (if (case expected of None \<Rightarrow> False | Some e \<Rightarrow> bytesRead < e)
                    then throw (EndOfFile ''unexpected end-of-file'') else ret ())
                 else seqM (onR (sink data))
                        (drainFD_loop fuel sink expected block (bytesRead + length data))))"

definition drainFD_sink :: "nat \<Rightarrow> 't sink \<Rightarrow> nat option \<Rightarrow> bool \<Rightarrow> (kernel_fd \<times> 't, unit) M" where
  "drainFD_sink fuel sink expected block = drainFD_loop fuel sink expected block 0"

text \<open>The overload that returns a string, and \<open>readFile\<close> over it.  The fuel is more than the
  bytes of the file, which the loop reads one read of at least a byte at a time.\<close>

definition drainFD :: "nat \<Rightarrow> bool \<Rightarrow> bool \<Rightarrow> (kernel_fd, string) M" where
  "drainFD sz expected block k =
     (case drainFD_sink (Suc (length (fd_bytes k))) StringSink (if expected then Some sz else None) block (k, []) of
        (Inl e, (k, _)) \<Rightarrow> (Inl e, k)
      | (Inr _, (k, s)) \<Rightarrow> (Inr s, k))"

definition getFileSize :: "kernel_fd \<Rightarrow> nat" where
  "getFileSize k = length (fd_bytes k)"

definition readFile :: "(kernel_fd, string) M" where
  "readFile = bindM (getS getFileSize) (\<lambda>sz. drainFD sz False True)"

function copyFdRange_loop :: "nat \<Rightarrow> nat \<Rightarrow> 't sink \<Rightarrow> kernel_fd \<times> 't \<Rightarrow> (exn + unit) \<times> kernel_fd \<times> 't" where
  "copyFdRange_loop offset left sink (k, t) =
     (if left = 0 then (Inr (), (k, t))
      else let limit = min left (64 * 1024) in
        case readOffset offset limit k of
          (Inl e, k) \<Rightarrow> (Inl e, (k, t))
        | (Inr data, k) \<Rightarrow>
            let n = length data in
            if n = 0 then (Inl (EndOfFile ''unexpected end-of-file reading from %1%''), (k, t))
            else if \<not> n \<le> left then (Inl (Abort ''n <= left''), (k, t))
            else (case sink data t of
                (Inl e, t) \<Rightarrow> (Inl e, (k, t))
              | (Inr _, t) \<Rightarrow> copyFdRange_loop (offset + n) (left - n) sink (k, t)))"
  by pat_completeness auto
termination
  by (relation "measure (\<lambda>(_, left, _). left)") auto

declare copyFdRange_loop.simps [simp del]

definition copyFdRange :: "nat \<Rightarrow> nat \<Rightarrow> 't sink \<Rightarrow> (kernel_fd \<times> 't, unit) M" where
  "copyFdRange offset nbytes sink = copyFdRange_loop offset nbytes sink"

subsection \<open>Streams on a descriptor\<close>

definition FdSink_writeUnbuffered :: "(kernel_fd \<times> nat) sink" where
  "FdSink_writeUnbuffered data =
     seqM (onR (modS (\<lambda>written. written + length data))) (onL (writeFull data True))"

definition FdSink :: "(buffered_sink \<times> kernel_fd \<times> nat) sink" where
  "FdSink = BufferedSink FdSink_writeUnbuffered"

text \<open>The destructor flushes and swallows what that throws.\<close>

definition FdSink_destroy :: "(buffered_sink \<times> kernel_fd \<times> nat, unit) M" where
  "FdSink_destroy = catchM (BufferedSink_flush FdSink_writeUnbuffered) (\<lambda>_. ret ())"

record fd_source =
  fds_read :: nat
  isSeekable :: bool

definition FdSource_readUnbuffered :: "(kernel_fd \<times> fd_source) source" where
  "FdSource_readUnbuffered len =
     bindM (onL (nix_read len)) (\<lambda>data.
       if length data = 0 then throw (EndOfFile ''unexpected end-of-file'')
       else seqM (onR (modS (\<lambda>f. f\<lparr>fds_read := fds_read f + length data\<rparr>))) (ret data))"

definition FdSource_read :: "(buffered_source \<times> kernel_fd \<times> fd_source) source" where
  "FdSource_read = BufferedSource_read FdSource_readUnbuffered"

definition FdSource_skip :: "nat \<Rightarrow> (buffered_source \<times> kernel_fd \<times> fd_source, unit) M" where
  "FdSource_skip len =
     (\<lambda>(b, k, f).
       let held = bufPosIn b - bufPosOut b;
           (b, len) =
             (if len \<noteq> 0 \<and> in_buffer b \<noteq> [] \<and> held \<noteq> 0
              then if held \<le> len then (b\<lparr>bufPosIn := 0, bufPosOut := 0\<rparr>, len - held)
                   else (b\<lparr>bufPosOut := bufPosOut b + len\<rparr>, 0)
              else (b, len))
       in
         if isSeekable f \<and> len \<noteq> 0 then
           if 2 ^ 63 - 1 < len then (Inl (Error ''cannot skip %d bytes: exceeds maximum file offset''), (b, k, f))
           else (case sys_lseek_cur len k of
               (Inl e, k) \<Rightarrow>
                 if e = ESPIPE
                 then let f = f\<lparr>isSeekable := False\<rparr> in Source_skip FdSource_read len (b, k, f)
                 else (Inl (SysError e ''seeking forward in file''), (b, k, f))
             | (Inr _, k) \<Rightarrow> (Inr (), (b, k, f\<lparr>fds_read := fds_read f + len\<rparr>)))
         else if len \<noteq> 0 then Source_skip FdSource_read len (b, k, f)
         else (Inr (), (b, k, f)))"

subsection \<open>A descriptor whose calls do not fail\<close>

text \<open>Calls may be cut short and interrupted, but do not fail, and nobody interrupts the program.\<close>

definition quiet :: "kernel_fd \<Rightarrow> bool" where
  "quiet k \<longleftrightarrow> fd_signals k = [] \<and> list_all (\<lambda>x. x = Intr \<or> (\<exists>n. x = Transfer n)) (fd_script k)"

lemma checkInterrupt_quiet: "quiet k \<Longrightarrow> checkInterrupt k = (Inr (), k)"
  by (simp add: quiet_def checkInterrupt_def)

lemma sys_pread_quiet:
  assumes "quiet k"
  shows "(\<exists>k'. sys_pread off len k = (Inl EINTR, k') \<and> quiet k' \<and> fd_bytes k' = fd_bytes k \<and>
            fd_off k' = fd_off k \<and> length (fd_script k') < length (fd_script k)) \<or>
         (\<exists>n k'. sys_pread off len k = (Inr (take n (drop off (fd_bytes k))), k') \<and> quiet k' \<and>
            fd_bytes k' = fd_bytes k \<and> fd_off k' = fd_off k \<and> fd_seekable k' = fd_seekable k \<and>
            n \<le> len \<and> n \<le> length (fd_bytes k) - off \<and>
            (0 < len \<longrightarrow> off < length (fd_bytes k) \<longrightarrow> 0 < n))"
proof (cases "fd_script k")
  case Nil
  then show ?thesis
    using assms by (intro disjI2 exI [of _ "min len (length (fd_bytes k) - off)"])
      (simp add: sys_pread_def sys_transfer_def)
next
  case (Cons x r)
  with assms have "x = Intr \<or> (\<exists>n. x = Transfer n)" "quiet (k\<lparr>fd_script := r\<rparr>)"
    by (auto simp: quiet_def)
  then show ?thesis
  proof (elim disjE exE)
    assume "x = Intr" "quiet (k\<lparr>fd_script := r\<rparr>)"
    with Cons show ?thesis by (simp add: sys_pread_def sys_transfer_def)
  next
    fix n assume "x = Transfer n" "quiet (k\<lparr>fd_script := r\<rparr>)"
    with Cons show ?thesis
      by (intro disjI2 exI [of _ "min (min len (length (fd_bytes k) - off)) (max 1 n)"])
         (auto simp: sys_pread_def sys_transfer_def)
  qed
qed

lemma readOffset_quiet:
  assumes "quiet k"
  shows "\<exists>n k'. readOffset off len k = (Inr (take n (drop off (fd_bytes k))), k') \<and> quiet k' \<and>
      fd_bytes k' = fd_bytes k \<and> n \<le> len \<and> n \<le> length (fd_bytes k) - off \<and>
      (0 < len \<longrightarrow> off < length (fd_bytes k) \<longrightarrow> 0 < n)"
  using assms
proof (induction "length (fd_script k)" arbitrary: k rule: less_induct)
  case less
  from sys_pread_quiet [OF less.prems, of off len] show ?case
  proof (elim disjE exE conjE)
    fix k' assume 1: "sys_pread off len k = (Inl EINTR, k')" "quiet k'" "fd_bytes k' = fd_bytes k"
      "length (fd_script k') < length (fd_script k)"
    have "readOffset off len k = readOffset off len k'"
      using 1(1) less.prems by (subst readOffset.simps) (simp add: checkInterrupt_quiet)
    with less.hyps [OF 1(4,2)] 1(3) show ?thesis by simp
  next
    fix n k' assume 1: "sys_pread off len k = (Inr (take n (drop off (fd_bytes k))), k')" "quiet k'"
      "fd_bytes k' = fd_bytes k" "n \<le> len" "n \<le> length (fd_bytes k) - off"
      "0 < len \<longrightarrow> off < length (fd_bytes k) \<longrightarrow> 0 < n"
    have "readOffset off len k = (Inr (take n (drop off (fd_bytes k))), k')"
      using 1(1) less.prems by (subst readOffset.simps) (simp add: checkInterrupt_quiet)
    with 1 show ?thesis by blast
  qed
qed

lemma nix_read_quiet:
  assumes "quiet k"
  shows "\<exists>n k'. nix_read len k = (Inr (take n (drop (fd_off k) (fd_bytes k))), k') \<and> quiet k' \<and>
      fd_bytes k' = fd_bytes k \<and> fd_off k' = fd_off k + n \<and> n \<le> len \<and>
      n \<le> length (fd_bytes k) - fd_off k \<and> (0 < len \<longrightarrow> fd_off k < length (fd_bytes k) \<longrightarrow> 0 < n)"
  using assms
proof (induction "length (fd_script k)" arbitrary: k rule: less_induct)
  case less
  from sys_pread_quiet [OF less.prems, of "fd_off k" len] show ?case
  proof (elim disjE exE conjE)
    fix k' assume 1: "sys_pread (fd_off k) len k = (Inl EINTR, k')" "quiet k'" "fd_bytes k' = fd_bytes k"
      "fd_off k' = fd_off k" "length (fd_script k') < length (fd_script k)"
    have "nix_read len k = nix_read len k'"
      using 1(1) less.prems by (subst nix_read.simps) (simp add: checkInterrupt_quiet sys_read_def)
    with less.hyps [OF 1(5,2)] 1(3,4) show ?thesis by simp
  next
    fix n k' assume 1: "sys_pread (fd_off k) len k = (Inr (take n (drop (fd_off k) (fd_bytes k))), k')"
      "quiet k'" "fd_bytes k' = fd_bytes k" "fd_off k' = fd_off k" "n \<le> len"
      "n \<le> length (fd_bytes k) - fd_off k" "0 < len \<longrightarrow> fd_off k < length (fd_bytes k) \<longrightarrow> 0 < n"
    have "nix_read len k = (Inr (take n (drop (fd_off k) (fd_bytes k))), k'\<lparr>fd_off := fd_off k + n\<rparr>)"
      using 1 less.prems by (subst nix_read.simps) (simp add: checkInterrupt_quiet sys_read_def)
    with 1 show ?thesis by (auto simp: quiet_def)
  qed
qed

text \<open>So a source on such a descriptor keeps the contract, with and without the buffer.\<close>

definition fd_pending :: "kernel_fd \<times> fd_source \<Rightarrow> string \<Rightarrow> bool" where
  "fd_pending x p \<longleftrightarrow> quiet (fst x) \<and> p = drop (fd_off (fst x)) (fd_bytes (fst x))"

interpretation fd_source: buffered_byte_source fd_pending "''unexpected end-of-file''" FdSource_readUnbuffered
proof
  fix x p and n :: nat
  assume h: "fd_pending x p" "p \<noteq> []" "0 < n"
  obtain k f where x: "x = (k, f)" by (cases x)
  with h have q: "quiet k" "p = drop (fd_off k) (fd_bytes k)" "fd_off k < length (fd_bytes k)"
    by (auto simp: fd_pending_def)
  obtain m k' where m: "nix_read n k = (Inr (take m p), k')" "quiet k'" "fd_bytes k' = fd_bytes k"
      "fd_off k' = fd_off k + m" "m \<le> n" "m \<le> length (fd_bytes k) - fd_off k" "0 < m"
    using nix_read_quiet [OF q(1), of n] q(2,3) h(3) by auto
  then show "\<exists>m t. 0 < m \<and> m \<le> n \<and> m \<le> length p \<and> FdSource_readUnbuffered n x = (Inr (take m p), t) \<and>
      fd_pending t (drop m p)"
    using h(2) x q(2)
    by (intro exI [of _ m]) (simp add: FdSource_readUnbuffered_def fd_pending_def add.commute)
next
  fix x and n :: nat
  assume h: "fd_pending x []"
  obtain k f where x: "x = (k, f)" by (cases x)
  with h have q: "quiet k" "length (fd_bytes k) \<le> fd_off k" by (auto simp: fd_pending_def)
  then obtain k' where "nix_read n k = (Inr [], k')" "quiet k'" "fd_bytes k' = fd_bytes k" "fd_off k' = fd_off k"
    using nix_read_quiet [OF q(1), of n] by auto
  with x q show "\<exists>t. FdSource_readUnbuffered n x = (Inl (EndOfFile ''unexpected end-of-file''), t) \<and> fd_pending t []"
    by (simp add: FdSource_readUnbuffered_def fd_pending_def)
qed

text \<open>
  \<open>copyFdRange\<close> copies that range of the file; if the file is shorter, the sink gets what
  there is and the call throws.
\<close>

context byte_sink
begin

lemma copyFdRange_spec:
  assumes "quiet k" "has t w"
  shows "\<exists>k' t'. copyFdRange off n sink (k, t) =
      ((if n \<le> length (fd_bytes k) - off then Inr ()
        else Inl (EndOfFile ''unexpected end-of-file reading from %1%'')), (k', t')) \<and>
      quiet k' \<and> fd_bytes k' = fd_bytes k \<and> has t' (w @ take n (drop off (fd_bytes k)))"
  using assms unfolding copyFdRange_def
proof (induction n arbitrary: off k t w rule: less_induct)
  case (less n)
  show ?case
  proof (cases "n = 0")
    case True
    with less.prems show ?thesis by (simp add: copyFdRange_loop.simps)
  next
    case n: False
    obtain m k' where m: "readOffset off (min n 65536) k = (Inr (take m (drop off (fd_bytes k))), k')"
        "quiet k'" "fd_bytes k' = fd_bytes k" "m \<le> min n 65536" "m \<le> length (fd_bytes k) - off"
        "off < length (fd_bytes k) \<longrightarrow> 0 < m"
      using readOffset_quiet [OF less.prems(1), of off "min n 65536"] n by auto
    show ?thesis
    proof (cases "m = 0")
      case True
      then have "length (fd_bytes k) \<le> off" using m(6) by linarith
      with True n m less.prems(2) show ?thesis
        by (subst copyFdRange_loop.simps) (auto simp: Let_def)
    next
      case False
      obtain t' where t': "sink (take m (drop off (fd_bytes k))) t = (Inr (), t')"
          "has t' (w @ take m (drop off (fd_bytes k)))"
        using accepts [OF less.prems(2)] by blast
      have "n - m < n" using False n m(4) by simp
      from less.IH [OF this m(2) t'(2), of "off + m"] obtain k'' t'' where
        r: "copyFdRange_loop (off + m) (n - m) sink (k', t') =
          ((if n - m \<le> length (fd_bytes k) - (off + m) then Inr ()
            else Inl (EndOfFile ''unexpected end-of-file reading from %1%'')), (k'', t''))"
        "quiet k''" "fd_bytes k'' = fd_bytes k"
        "has t'' (w @ take m (drop off (fd_bytes k)) @ take (n - m) (drop m (drop off (fd_bytes k))))"
        using m(3) by (auto simp: add.commute)
      have eqs: "n - m \<le> length (fd_bytes k) - (off + m) \<longleftrightarrow> n \<le> length (fd_bytes k) - off"
        "take m (drop off (fd_bytes k)) @ take (n - m) (drop m (drop off (fd_bytes k))) = take n (drop off (fd_bytes k))"
        "min (length (fd_bytes k) - off) m = m" "m \<le> n"
        using m(4,5) False take_join [of m n "drop off (fd_bytes k)"] by auto
      have "copyFdRange_loop off n sink (k, t) = copyFdRange_loop (off + m) (n - m) sink (k', t')"
        using n False m(1) t'(1) by (subst copyFdRange_loop.simps) (simp add: Let_def eqs(3,4))
      with r show ?thesis unfolding eqs by (intro exI [of _ k''] exI [of _ t'']) simp
    qed
  qed
qed

lemma drainFD_loop_all:
  assumes "quiet k" "has t w" "length (fd_bytes k) - fd_off k < fuel"
  shows "\<exists>k' t'. drainFD_loop fuel sink None block n (k, t) = (Inr (), (k', t')) \<and>
      quiet k' \<and> fd_bytes k' = fd_bytes k \<and> has t' (w @ drop (fd_off k) (fd_bytes k))"
  using assms
proof (induction fuel arbitrary: k t w n)
  case (Suc fuel)
  obtain m k' where m: "nix_read (64 * 1024) k = (Inr (take m (drop (fd_off k) (fd_bytes k))), k')"
      "quiet k'" "fd_bytes k' = fd_bytes k" "fd_off k' = fd_off k + m"
      "m \<le> length (fd_bytes k) - fd_off k" "fd_off k < length (fd_bytes k) \<longrightarrow> 0 < m"
    using nix_read_quiet [OF Suc.prems(1), of "64 * 1024"] by auto
  show ?case
  proof (cases "m = 0")
    case True
    then have "length (fd_bytes k) \<le> fd_off k" using m(6) by linarith
    with True m Suc.prems show ?thesis by (simp add: run checkInterrupt_quiet)
  next
    case False
    obtain t' where t': "sink (take m (drop (fd_off k) (fd_bytes k))) t = (Inr (), t')"
        "has t' (w @ take m (drop (fd_off k) (fd_bytes k)))"
      using accepts [OF Suc.prems(2)] by blast
    have "length (fd_bytes k') - fd_off k' < fuel"
      using m False Suc.prems(3) by simp
    from Suc.IH [OF m(2) t'(2) this, of "n + m"] obtain k'' t'' where
      r: "drainFD_loop fuel sink None block (n + m) (k', t') = (Inr (), (k'', t''))" "quiet k''"
        "fd_bytes k'' = fd_bytes k" "has t'' (w @ drop (fd_off k) (fd_bytes k))"
      using m by (auto simp: add.commute drop_drop [symmetric] simp del: drop_drop)
    have "min (length (fd_bytes k) - fd_off k) m = m" "\<not> length (fd_bytes k) \<le> fd_off k"
      using m(5) False by simp_all
    with r m False t' Suc.prems(1) show ?thesis by (simp add: run checkInterrupt_quiet)
  qed
qed simp

end

text \<open>\<open>readFile\<close> returns the file, whatever size \<open>fstat\<close> reports.\<close>

lemma readFile_all:
  assumes "quiet k" "fd_off k = 0"
  shows "fst (readFile k) = Inr (fd_bytes k)"
  using string_sink.drainFD_loop_all [of k "[]" "[]" "Suc (length (fd_bytes k))" True 0] assms
  by (auto simp: readFile_def drainFD_def drainFD_sink_def simp del: drainFD_loop.simps)

text \<open>
  \<open>FdSource\<close> overrides \<open>skip\<close>.  Where it can seek, it always returns, also when the file is
  shorter than that: only the next read notices.  Where it cannot, it reads.
\<close>

lemma buffered_rest_length:
  "buffered_source_ok b \<Longrightarrow> length (buffered_rest b) = bufPosIn b - bufPosOut b"
  by (auto simp: buffered_rest_def buffered_source_ok_def split: if_splits)

lemma drop_buffered:
  assumes "buffered_source_ok b" "n < bufPosIn b - bufPosOut b"
  shows "buffered_source_ok (b\<lparr>bufPosOut := bufPosOut b + n\<rparr>)"
    "buffered_rest (b\<lparr>bufPosOut := bufPosOut b + n\<rparr>) = drop n (buffered_rest b)"
  using assms
  by (auto simp: buffered_source_ok_def buffered_rest_def drop_take add.commute split: if_splits)

lemma empty_buffered:
  "buffered_source_ok b \<Longrightarrow> buffered_source_ok (b\<lparr>bufPosIn := 0, bufPosOut := 0\<rparr>)"
  "buffered_rest (b\<lparr>bufPosIn := 0, bufPosOut := 0\<rparr>) = []"
  by (auto simp: buffered_source_ok_def buffered_rest_def)

lemma FdSource_skip_seeks:
  assumes p: "buffered_pending fd_pending (b, k, f) p" and f: "isSeekable f" "fd_seekable k" "n < 2 ^ 63"
  shows "\<exists>t. FdSource_skip n (b, k, f) = (Inr (), t) \<and> buffered_pending fd_pending t (drop n p)"
proof -
  have b: "buffered_source_ok b" "quiet k" "p = buffered_rest b @ drop (fd_off k) (fd_bytes k)"
    using p by (auto simp: buffered_pending_def fd_pending_def)
  note len = buffered_rest_length [OF b(1)]
  have nonempty: "in_buffer b \<noteq> []" if "bufPosIn b - bufPosOut b \<noteq> 0"
    using b(1) that by (auto simp: buffered_source_ok_def split: if_splits)
  show ?thesis
  proof (cases "n < bufPosIn b - bufPosOut b")
    case True
    then have "FdSource_skip n (b, k, f) = (Inr (), b\<lparr>bufPosOut := bufPosOut b + n\<rparr>, k, f)"
      using nonempty by (auto simp: FdSource_skip_def Let_def)
    then show ?thesis
      using drop_buffered [OF b(1) True] b len True
      by (auto simp: buffered_pending_def fd_pending_def)
  next
    case False
    define b' where "b' = (if n \<noteq> 0 \<and> bufPosIn b - bufPosOut b \<noteq> 0 then b\<lparr>bufPosIn := 0, bufPosOut := 0\<rparr> else b)"
    define m where "m = n - (bufPosIn b - bufPosOut b)"
    have b': "buffered_source_ok b'" "buffered_rest b' = []" if "n \<noteq> 0"
      using that b(1) len empty_buffered [of b] by (auto simp: b'_def)
    have d: "drop n p = drop (fd_off k + m) (fd_bytes k)"
      using b(3) len False by (simp add: m_def add.commute)
    have mlt: "m < 2 ^ 63" using f(3) by (simp add: m_def)
    show ?thesis
    proof (cases "m = 0")
      case True
      then have "FdSource_skip n (b, k, f) = (Inr (), b', k, f)"
        using nonempty False by (auto simp: FdSource_skip_def Let_def b'_def m_def)
      moreover have "n = 0 \<Longrightarrow> bufPosIn b - bufPosOut b = 0" using False by simp
      ultimately show ?thesis
        using b b' d True len by (cases "n = 0") (auto simp: buffered_pending_def fd_pending_def b'_def)
    next
      case mne: False
      then have "n \<noteq> 0" by (simp add: m_def)
      have "FdSource_skip n (b, k, f) = (Inr (), b', k\<lparr>fd_off := fd_off k + m\<rparr>, f\<lparr>fds_read := fds_read f + m\<rparr>)"
        using nonempty False mne f(1,2) mlt
        by (auto simp: FdSource_skip_def Let_def b'_def m_def sys_lseek_cur_def)
      then show ?thesis
        using b b' [OF \<open>n \<noteq> 0\<close>] d by (auto simp: buffered_pending_def fd_pending_def quiet_def)
    qed
  qed
qed

lemma nix_write_quiet:
  "quiet k \<Longrightarrow> \<exists>n k'. nix_write a data k = (Inr n, k') \<and> quiet k'"
proof (induction "length (fd_script k)" arbitrary: k rule: less_induct)
  case less
  obtain x k' where w: "sys_write data k = (x, k')" by (cases "sys_write data k")
  have q: "quiet k'" "x = Inl EINTR \<or> (\<exists>n. x = Inr n)"
    using w less.prems
    by (auto simp: sys_write_def sys_transfer_def quiet_def split: list.splits io_outcome.splits)
  have step: "nix_write a data k = (case x of Inr n \<Rightarrow> (Inr n, k')
      | Inl e \<Rightarrow> if e = EINTR then nix_write a data k' else (Inl (SysError e ''write of %1% bytes''), k'))"
    using less.prems w by (subst nix_write.simps) (auto simp: checkInterrupt_quiet split: sum.splits)
  from q(2) show ?case
  proof (elim disjE exE)
    assume "x = Inl EINTR"
    with less.hyps [OF sys_write_script q(1)] w step show ?thesis by simp
  next
    fix n assume "x = Inr n"
    with step q(1) show ?thesis by simp
  qed
qed

lemma writeFull_quiet: "quiet k \<Longrightarrow> fst (writeFull s a k) = Inr () \<and> quiet (snd (writeFull s a k))"
proof (induction s a k rule: writeFull.induct)
  case (1 s a k)
  show ?case
  proof (cases "s = []")
    case True
    with 1(2) show ?thesis by (simp add: writeFull.simps)
  next
    case False
    obtain n k' where n: "nix_write a s k = (Inr n, k')" "quiet k'"
      using nix_write_quiet [OF 1(2)] by blast
    then have r: "retry_write a s k = (Inr n, k')" by (simp add: retry_write.simps)
    have c: "(if a then checkInterrupt k else (Inr (), k)) = (Inr (), k)"
      using checkInterrupt_quiet [OF 1(2)] by simp
    have "writeFull s a k = writeFull (if 0 < n then drop n s else s) a k'"
      by (subst writeFull.simps) (use False c r in simp)
    with 1(1) [OF False c [symmetric] refl r [symmetric] refl n(2)] show ?thesis by simp
  qed
qed

subsection \<open>Properties\<close>

text \<open>
  C7.  \<open>writeFull\<close> against any kernel: what reached the file is always a prefix of the data,
  and all of it when the call returns; and it does return, however the kernel cuts the writes
  short or interrupts them, unless a call fails or the user interrupts.
\<close>

theorem writeFull_writes_all:
  "\<exists>n. fd_bytes (snd (writeFull s a k)) = fd_bytes k @ take n s \<and>
     (fst (writeFull s a k) = Inr () \<longrightarrow> n = length s) \<and>
     (quiet k \<longrightarrow> fst (writeFull s a k) = Inr ())"
  using writeFull_bytes [of s a k "fst (writeFull s a k)" "snd (writeFull s a k)"] writeFull_quiet [of k s a]
  by auto

theorem writeFull_writes_all_witness:
  "fd_bytes (snd (writeFull ''hello'' True
     \<lparr> fd_bytes = [], fd_off = 0, fd_seekable = True, fd_script = [Transfer 2, Intr, Transfer 0], fd_signals = [] \<rparr>)) = ''hello''"
  using writeFull_writes_all [of "''hello''" True
     "\<lparr> fd_bytes = [], fd_off = 0, fd_seekable = True, fd_script = [Transfer 2, Intr, Transfer 0], fd_signals = [] \<rparr>"]
  by (auto simp: quiet_def)

text \<open>
  C8.  Copying a range of a file into a hash gives the digest of that range, in whatever pieces
  the kernel delivers it; a file that is too short is an \<open>EndOfFile\<close>, never a digest of less.
\<close>

theorem copyFdRange_hash:
  assumes "sha256_ok sha" and "quiet k"
  shows "fst (bindM (copyFdRange off n (HashSink sha)) (\<lambda>_. onR (HashSink_finish sha)) (k, HashSink_new sha)) =
    (if n \<le> length (fd_bytes k) - off
     then Inr (hashString sha (take n (drop off (fd_bytes k))),
               word_of_nat (length (take n (drop off (fd_bytes k)))))
     else Inl (EndOfFile ''unexpected end-of-file reading from %1%''))"
proof -
  from hash_sink.buffered.copyFdRange_spec [OF assms(2) HashSink_new_has [OF assms(1)], of off n]
  obtain k' t' where "copyFdRange off n (HashSink sha) (k, HashSink_new sha) =
      ((if n \<le> length (fd_bytes k) - off then Inr ()
        else Inl (EndOfFile ''unexpected end-of-file reading from %1%'')), (k', t'))"
    "buffered_has (hashed sha) t' (take n (drop off (fd_bytes k)))"
    unfolding HashSink_def by auto
  with HashSink_finish_hash [of sha t' "take n (drop off (fd_bytes k))"] show ?thesis
    by (auto simp: run split: prod.splits)
qed

theorem copyFdRange_hash_witness:
  "fst (bindM (copyFdRange 1 2 (HashSink toy_sha)) (\<lambda>_. onR (HashSink_finish toy_sha))
     (\<lparr> fd_bytes = ''abcd'', fd_off = 0, fd_seekable = True, fd_script = [Transfer 1, Intr], fd_signals = [] \<rparr>,
      HashSink_new toy_sha)) = Inr (hashString toy_sha ''bc'', 2)"
  using copyFdRange_hash [OF toy_sha_ok, of "\<lparr> fd_bytes = ''abcd'', fd_off = 0, fd_seekable = True,
     fd_script = [Transfer 1, Intr], fd_signals = [] \<rparr>" 1 2]
  by (simp add: quiet_def)

text \<open>
  Skipping forward on a seekable descriptor leaves a source that delivers what reading and
  dropping that many bytes would leave, whatever the buffer held; past the end of the file it
  returns and leaves an empty source.
\<close>

theorem FdSource_skip_drops:
  assumes "buffered_pending fd_pending (b, k, f) p" and "isSeekable f" and "fd_seekable k" and "n < 2 ^ 63"
  shows "\<exists>t. FdSource_skip n (b, k, f) = (Inr (), t) \<and> buffered_pending fd_pending t (drop n p)"
  using FdSource_skip_seeks [OF assms] .

theorem FdSource_skip_drops_witness:
  "\<exists>t. FdSource_skip 2 (BufferedSource_new 4,
      \<lparr> fd_bytes = ''abcd'', fd_off = 0, fd_seekable = True, fd_script = [], fd_signals = [] \<rparr>,
      \<lparr> fds_read = 0, isSeekable = True \<rparr>) = (Inr (), t) \<and> buffered_pending fd_pending t ''cd''"
  using FdSource_skip_drops [of "BufferedSource_new 4"
      "\<lparr> fd_bytes = ''abcd'', fd_off = 0, fd_seekable = True, fd_script = [], fd_signals = [] \<rparr>"
      "\<lparr> fds_read = 0, isSeekable = True \<rparr>" "''abcd''" 2] BufferedSource_new_ok [of 4]
  by (simp add: buffered_pending_def fd_pending_def quiet_def)

end
