(* ===== verification/CanonPath.thy ===== *)
theory CanonPath
  imports StringUtil
begin

text \<open>
  Paths (\<open>libutil/file-path-impl.hh\<close>, \<open>libutil/canon-path.cc\<close>, \<open>canonPath\<close> and
  \<open>baseNameOf\<close> of \<open>libutil/file-system.cc\<close>): the canonicalisation loop, the class
  \<open>CanonPath\<close> of canonical paths with its operations and its order.
\<close>

subsection \<open>Searching a string\<close>

text \<open>\<open>find\<close> and \<open>rfind\<close> of \<open>std::string\<close>; \<open>None\<close> is \<open>npos\<close>.\<close>

definition find_char :: "char \<Rightarrow> string \<Rightarrow> nat option" where
  "find_char c s = (if c \<in> set s then Some (length (takeWhile (\<lambda>d. d \<noteq> c) s)) else None)"

definition rfind_char :: "char \<Rightarrow> string \<Rightarrow> nat option" where
  "rfind_char c s =
     (case dropWhile (\<lambda>d. d \<noteq> c) (rev s) of [] \<Rightarrow> None | _ # r \<Rightarrow> Some (length r))"

lemma rfind_char_last: "c \<notin> set t \<Longrightarrow> rfind_char c (s @ c # t) = Some (length s)"
proof -
  assume c: "c \<notin> set t"
  then have "dropWhile (\<lambda>d. d \<noteq> c) (rev t @ c # rev s) = c # rev s"
    by (subst dropWhile_append3) auto
  then show ?thesis by (simp add: rfind_char_def)
qed

lemma rfind_char_none: "c \<notin> set s \<Longrightarrow> rfind_char c s = None"
proof -
  assume "c \<notin> set s"
  then have "dropWhile (\<lambda>d. d \<noteq> c) (rev s) = []"
    by (auto simp: dropWhile_eq_Nil_conv)
  then show ?thesis by (simp only: rfind_char_def list.case)
qed

subsection \<open>Canonicalisation\<close>

definition isPathSep :: "char \<Rightarrow> bool" where
  "isPathSep c \<longleftrightarrow> c = CHR ''/''"

text \<open>\<open>std::filesystem::path::parent_path\<close> of an absolute path without a trailing slash.\<close>

definition parent_path :: "string \<Rightarrow> string" where
  "parent_path s =
     (case rfind_char (CHR ''/'') s of
        None \<Rightarrow> []
      | Some 0 \<Rightarrow> ''/''
      | Some n \<Rightarrow> take n s)"

definition maxFollow :: nat where
  "maxFollow = 1024"

text \<open>
  The hook of \<open>canonPath\<close>: \<open>lnk\<close> reads a symlink (\<open>None\<close>: the path is no symlink).  It
  returns the new follow count, result and remaining path.
\<close>

definition follow_symlink ::
  "(string \<Rightarrow> string option) \<Rightarrow> nat \<Rightarrow> string \<Rightarrow> string \<Rightarrow> exn + (nat \<times> string \<times> string)" where
  "follow_symlink lnk followCount result remaining =
     (case lnk result of
        None \<Rightarrow> Inr (followCount, result, remaining)
      | Some target \<Rightarrow>
          let followCount = followCount + 1 in
          if maxFollow \<le> followCount then Inl (Error ''infinite symlink recursion in path %1%'')
          else
            let remaining = concatStrings [target, remaining] in
            if remaining \<noteq> [] \<and> isPathSep (hd remaining) then Inr (followCount, [], remaining)
            else
              let result = parent_path result in
              Inr (followCount, if result = ''/'' then [] else result, remaining))"

lemma follow_symlink_count:
  "follow_symlink lnk n result remaining = Inr (n', result', remaining') \<Longrightarrow>
   (n' = n \<and> result' = result \<and> remaining' = remaining) \<or> (n < n' \<and> n' < maxFollow)"
  by (auto simp: follow_symlink_def Let_def split: option.splits if_splits)

text \<open>
  The loop of \<open>canonPathInner\<close>.  It ends: every turn shortens the remaining path, except when
  it follows a symlink, which it does fewer than \<open>maxFollow\<close> times.
\<close>

function canon_loop :: "(string \<Rightarrow> string option) \<Rightarrow> nat \<Rightarrow> string \<Rightarrow> string \<Rightarrow> exn + string" where
  "canon_loop lnk followCount result remaining =
     (let remaining = dropWhile isPathSep remaining in
      if remaining = [] then Inr result
      else
        let nextComp = takeWhile (\<lambda>c. \<not> isPathSep c) remaining in
        if nextComp = ''.'' then canon_loop lnk followCount result (drop 1 remaining)
        else if nextComp = ''..'' then
          canon_loop lnk followCount
            (if result \<noteq> [] then (case rfind_char (CHR ''/'') result of
               None \<Rightarrow> result | Some n \<Rightarrow> take n result) else result)
            (drop 2 remaining)
        else
          (case follow_symlink lnk followCount (result @ CHR ''/'' # nextComp)
                  (dropWhile (\<lambda>c. \<not> isPathSep c) remaining) of
             Inl e \<Rightarrow> Inl e
           | Inr (followCount, result, remaining) \<Rightarrow> canon_loop lnk followCount result remaining))"
  by pat_completeness auto
termination
proof (relation "inv_image (less_than <*lex*> less_than)
    (\<lambda>(lnk, followCount, result, remaining). (maxFollow - followCount, length remaining))")
  fix lnk :: "string \<Rightarrow> string option" and followCount :: nat and result remaining r n :: string and a b
    and fc :: nat and res rem :: string
  show "wf (inv_image (less_than <*lex*> less_than)
    (\<lambda>(lnk :: string \<Rightarrow> string option, followCount, result :: string, remaining :: string).
       (maxFollow - followCount, length remaining)))"
    by auto
  assume r: "r = dropWhile isPathSep remaining" "r \<noteq> []"
  have le: "length r \<le> length remaining"
    using r by (simp add: length_dropWhile_le)
  have "0 < length r" using r(2) by simp
  with le have lt: "length (drop 1 r) < length remaining" "length (drop 2 r) < length remaining"
    unfolding length_drop by linarith+
  from lt(1) show "((lnk, followCount, result, drop 1 r), lnk, followCount, result, remaining)
    \<in> inv_image (less_than <*lex*> less_than) (\<lambda>(lnk, followCount, result, remaining).
       (maxFollow - followCount, length remaining))"
    by simp
  from lt(2) show "((lnk, followCount,
       if result \<noteq> [] then case rfind_char (CHR ''/'') result of None \<Rightarrow> result | Some n \<Rightarrow> take n result
       else result, drop 2 r), lnk, followCount, result, remaining)
    \<in> inv_image (less_than <*lex*> less_than) (\<lambda>(lnk, followCount, result, remaining).
       (maxFollow - followCount, length remaining))"
    by simp
  assume n: "n = takeWhile (\<lambda>c. \<not> isPathSep c) r"
    and f: "follow_symlink lnk followCount (result @ CHR ''/'' # n)
        (dropWhile (\<lambda>c. \<not> isPathSep c) r) = Inr a" and a: "(fc, b) = a" "(res, rem) = b"
  have "\<not> isPathSep (hd r)"
    using r hd_dropWhile by metis
  then have "length (dropWhile (\<lambda>c. \<not> isPathSep c) r) < length r"
    using r(2) by (cases r) (auto simp: le_imp_less_Suc length_dropWhile_le)
  with f a le show "((lnk, fc, res, rem), lnk, followCount, result, remaining)
    \<in> inv_image (less_than <*lex*> less_than) (\<lambda>(lnk, followCount, result, remaining).
       (maxFollow - followCount, length remaining))"
    by (auto dest!: follow_symlink_count)
qed

declare canon_loop.simps [simp del]

definition canonPathInner :: "(string \<Rightarrow> string option) \<Rightarrow> string \<Rightarrow> exn + string" where
  "canonPathInner lnk remaining =
     (if remaining = [] then Inl (Abort ''remaining'')
      else bindE (canon_loop lnk 0 [] remaining) (\<lambda>result.
        Inr (if result = [] then ''/'' else result)))"


text \<open>
  The reference: split at the slashes, then drop what is empty or \<open>.\<close> and let \<open>..\<close> drop
  what precedes it.
\<close>

definition resolve_step :: "string list \<Rightarrow> string \<Rightarrow> string list" where
  "resolve_step acc c = (if c = [] \<or> c = ''.'' then acc else if c = ''..'' then butlast acc else acc @ [c])"

definition resolve :: "string list \<Rightarrow> string \<Rightarrow> string list" where
  "resolve acc s = foldl resolve_step acc (splitString s ''/'')"

definition render :: "string list \<Rightarrow> string" where
  "render cs = concat (map (\<lambda>c. CHR ''/'' # c) cs)"

definition good_component :: "string \<Rightarrow> bool" where
  "good_component c \<longleftrightarrow> c \<noteq> [] \<and> c \<noteq> ''.'' \<and> c \<noteq> ''..'' \<and> CHR ''/'' \<notin> set c"

lemma resolve_Nil [simp]: "resolve acc [] = acc"
  using splitString_none [of "CHR ''/''" "[]"] by (simp add: resolve_def resolve_step_def)

lemma resolve_slash [simp]: "resolve acc (CHR ''/'' # s) = resolve acc s"
  using splitString_sep [of "CHR ''/''" "[]" s] by (simp add: resolve_def resolve_step_def)

lemma resolve_component:
  assumes "CHR ''/'' \<notin> set c" "rest = [] \<or> hd rest = CHR ''/''"
  shows "resolve acc (c @ rest) = resolve (resolve_step acc c) rest"
proof (cases rest)
  case Nil
  then show ?thesis
    using assms splitString_none [of "CHR ''/''" c]
    by (simp only: append_Nil2 resolve_Nil) (simp add: resolve_def)
next
  case (Cons a r)
  then have "rest = CHR ''/'' # r" using assms(2) by simp
  then show ?thesis
    using splitString_sep [OF assms(1), of r] by (simp only: resolve_slash) (simp add: resolve_def)
qed

lemma resolve_dropSlashes: "resolve acc (dropWhile isPathSep s) = resolve acc s"
  by (induction s) (auto simp: isPathSep_def)

lemma render_append [simp]: "render (xs @ ys) = render xs @ render ys"
  by (simp add: render_def)

lemma render_simps [simp]: "render [] = []" "render (c # cs) = CHR ''/'' # c @ render cs"
  by (simp_all add: render_def)

lemma render_eq_Nil [simp]: "render cs = [] \<longleftrightarrow> cs = []"
  by (cases cs) simp_all

lemma resolve_step_good:
  "list_all good_component acc \<Longrightarrow> CHR ''/'' \<notin> set c \<Longrightarrow> list_all good_component (resolve_step acc c)"
  by (auto simp: resolve_step_def good_component_def list_all_iff dest: in_set_butlastD)

lemma foldl_resolve_good:
  "list_all good_component acc \<Longrightarrow> \<forall>c\<in>set cs. CHR ''/'' \<notin> set c \<Longrightarrow>
   list_all good_component (foldl resolve_step acc cs)"
  by (induction cs arbitrary: acc) (auto intro: resolve_step_good)

lemma splitString_no_sep: "t \<in> set (splitString s [c]) \<Longrightarrow> c \<notin> set t"
proof (induction "length s" arbitrary: s rule: less_induct)
  case less
  have "t = takeWhile (\<lambda>d. d \<noteq> c) s \<or>
      (\<exists>d r. dropWhile (\<lambda>d. d \<noteq> c) s = d # r \<and> t \<in> set (splitString r [c]))"
    using less.prems
    by (subst (asm) splitString.simps, cases "dropWhile (\<lambda>d. d \<noteq> c) s") simp_all
  then show ?case
    using less.hyps dropWhile_shorter by (metis set_takeWhileD)
qed

lemma resolve_good: "list_all good_component acc \<Longrightarrow> list_all good_component (resolve acc s)"
  unfolding resolve_def by (rule foldl_resolve_good) (auto dest: splitString_no_sep)

lemma dropWhile_hd: "dropWhile P s = [] \<or> \<not> P (hd (dropWhile P s))"
  by (cases "dropWhile P s = []") (auto simp: hd_dropWhile)

lemma canon_loop_resolve:
  assumes "list_all good_component acc"
  shows "canon_loop (\<lambda>_. None) n (render acc) s = Inr (render (resolve acc s))"
  using assms
proof (induction "length s" arbitrary: acc s n rule: less_induct)
  case less
  define r where "r = dropWhile isPathSep s"
  have rs: "resolve acc r = resolve acc s" "length r \<le> length s"
    by (simp_all add: r_def resolve_dropSlashes length_dropWhile_le)
  show ?case
  proof (cases "r = []")
    case True
    then show ?thesis
      using rs by (subst canon_loop.simps) (simp add: r_def [symmetric])
  next
    case False
    define c where "c = takeWhile (\<lambda>c. \<not> isPathSep c) r"
    define rest where "rest = dropWhile (\<lambda>c. \<not> isPathSep c) r"
    have split: "r = c @ rest" by (simp add: c_def rest_def)
    have nosep: "CHR ''/'' \<notin> set c"
      unfolding c_def by (auto simp: isPathSep_def dest: set_takeWhileD)
    have rest: "rest = [] \<or> hd rest = CHR ''/''"
      using dropWhile_hd [of "\<lambda>c. \<not> isPathSep c" r] by (simp add: rest_def isPathSep_def)
    have c: "c \<noteq> []"
      using False dropWhile_hd [of isPathSep s]
      by (cases r) (auto simp: c_def r_def)
    then have shorter: "length rest < length s" using split rs(2) by (cases c) auto
    have step: "resolve acc s = resolve (resolve_step acc c) rest"
      using resolve_component [OF nosep rest] rs(1) split by metis
    have IH: "canon_loop (\<lambda>_. None) m (render (resolve_step acc c)) rest = Inr (render (resolve acc s))" for m
      unfolding step using less.hyps [OF shorter] resolve_step_good [OF less.prems nosep] .
    have drops: "drop 1 r = rest" if "c = ''.''" using split that by simp
    have drops2: "drop 2 r = rest" if "c = ''..''" using split that by simp
    have pop: "(if render acc \<noteq> [] then case rfind_char (CHR ''/'') (render acc) of
          None \<Rightarrow> render acc | Some n \<Rightarrow> take n (render acc) else render acc) = render (butlast acc)"
    proof (cases acc rule: rev_cases)
      case (snoc a x)
      then have "CHR ''/'' \<notin> set x" using less.prems by (simp add: good_component_def)
      with snoc show ?thesis using rfind_char_last [of "CHR ''/''" x "render a"] by simp
    qed simp
    show ?thesis
    proof (cases "c = ''.'' \<or> c = ''..''")
      case True
      then show ?thesis
        using IH False c pop drops drops2
        by (subst canon_loop.simps) (auto simp: r_def [symmetric] c_def [symmetric] resolve_step_def)
    next
      case False
      then show ?thesis
        using IH \<open>r \<noteq> []\<close> c
        by (subst canon_loop.simps)
           (simp add: r_def [symmetric] c_def [symmetric] rest_def [symmetric] resolve_step_def
             follow_symlink_def)
    qed
  qed
qed

subsection \<open>The class CanonPath\<close>

datatype CanonPath = CanonPath (path_of: string)

definition absPathPure :: "string \<Rightarrow> exn + string" where
  "absPathPure path = canonPathInner (\<lambda>_. None) path"

definition ensureNoNullBytes :: "string \<Rightarrow> exn + unit" where
  "ensureNoNullBytes s =
     (if CHR 0x00 \<in> set s
      then Inl (BadCanonPath ''path segment %s must not contain null bytes'') else Inr ())"

definition canon_path :: "string \<Rightarrow> exn + CanonPath" where
  "canon_path raw =
     bindE (absPathPure (concatStrings [''/'', raw])) (\<lambda>path.
     bindE (ensureNoNullBytes raw) (\<lambda>_. Inr (CanonPath path)))"

definition canon_path_in :: "string \<Rightarrow> CanonPath \<Rightarrow> exn + CanonPath" where
  "canon_path_in raw root =
     bindE (absPathPure (if 0 < length raw \<and> raw ! 0 = CHR ''/'' then raw
                         else concatStrings [path_of root, ''/'', raw])) (\<lambda>path.
     bindE (ensureNoNullBytes raw) (\<lambda>_. Inr (CanonPath path)))"

definition cp_root :: CanonPath where
  "cp_root = CanonPath ''/''"

definition isRoot :: "CanonPath \<Rightarrow> bool" where
  "isRoot p \<longleftrightarrow> length (path_of p) \<le> 1"

definition absOrEmpty :: "CanonPath \<Rightarrow> string" where
  "absOrEmpty p = (if isRoot p then [] else path_of p)"

definition rel :: "CanonPath \<Rightarrow> string" where
  "rel p = drop 1 (path_of p)"

text \<open>
  The iterator: \<open>segments\<close> is the sequence of values of \<open>*it\<close> as \<open>++it\<close> runs from \<open>begin()\<close>
  to \<open>end()\<close>, on the rest of the path that the iterator holds.  Two iterators of one path
  are equal when the rests start at the same byte, so the end is the empty rest.
\<close>

function segments :: "string \<Rightarrow> string list" where
  "segments remaining =
     (if remaining = [] then []
      else case find_char (CHR ''/'') remaining of
             None \<Rightarrow> [remaining]
           | Some slash \<Rightarrow> take slash remaining # segments (drop (slash + 1) remaining))"
  by pat_completeness auto
termination
  by (relation "measure length") auto

declare segments.simps [simp del]

definition components :: "CanonPath \<Rightarrow> string list" where
  "components p = segments (rel p)"

definition push :: "CanonPath \<Rightarrow> string \<Rightarrow> exn + CanonPath" where
  "push p c =
     (if CHR ''/'' \<in> set c then Inl (Abort ''c.find('/') == c.npos'')
      else if c = ''.'' \<or> c = ''..'' then Inl (Abort ''c != . && c != ..'')
      else bindE (ensureNoNullBytes c) (\<lambda>_.
        Inr (CanonPath ((if \<not> isRoot p then path_of p @ ''/'' else path_of p) @ c))))"

fun push_all :: "CanonPath \<Rightarrow> string list \<Rightarrow> exn + CanonPath" where
  "push_all p [] = Inr p"
| "push_all p (c # cs) = bindE (push p c) (\<lambda>p. push_all p cs)"

definition canon_path_elems :: "string list \<Rightarrow> exn + CanonPath" where
  "canon_path_elems elems = push_all (CanonPath ''/'') elems"

definition fromFilename :: "string \<Rightarrow> exn + CanonPath" where
  "fromFilename segment =
     bindE (canon_path segment) (\<lambda>res.
       if segment \<noteq> rel res \<or> length (components res) \<noteq> 1
       then Inl (BadCanonPath ''invalid filename %s'') else Inr res)"

text \<open>\<open>rfind\<close> of a slash: a path always has one; \<open>npos\<close> is larger than any length.\<close>

definition last_slash :: "CanonPath \<Rightarrow> nat" where
  "last_slash p = (case rfind_char (CHR ''/'') (path_of p) of None \<Rightarrow> 2 ^ 64 - 1 | Some n \<Rightarrow> n)"

definition parent :: "CanonPath \<Rightarrow> CanonPath option" where
  "parent p = (if isRoot p then None else Some (CanonPath (take (max 1 (last_slash p)) (path_of p))))"

definition pop :: "CanonPath \<Rightarrow> exn + CanonPath" where
  "pop p =
     (if isRoot p then Inl (Abort ''!isRoot()'')
      else Inr (CanonPath (take (max 1 (last_slash p)) (path_of p))))"

definition dirOf :: "CanonPath \<Rightarrow> string option" where
  "dirOf p = (if isRoot p then None else Some (take (last_slash p) (path_of p)))"

definition baseName :: "CanonPath \<Rightarrow> string option" where
  "baseName p = (if isRoot p then None else Some (drop ((last_slash p + 1) mod 2 ^ 64) (path_of p)))"

definition isWithin :: "CanonPath \<Rightarrow> CanonPath \<Rightarrow> bool" where
  "isWithin p par \<longleftrightarrow>
     \<not> (length (path_of p) < length (path_of par)
        \<or> take (length (path_of par)) (path_of p) \<noteq> path_of par
        \<or> (1 < length (path_of par) \<and> length (path_of par) < length (path_of p)
           \<and> path_of p ! length (path_of par) \<noteq> CHR ''/''))"

definition removePrefix :: "CanonPath \<Rightarrow> CanonPath \<Rightarrow> exn + CanonPath" where
  "removePrefix p pre =
     (if \<not> isWithin p pre then Inl (Abort ''isWithin(prefix)'')
      else if isRoot pre then Inr p
      else if length (path_of p) = length (path_of pre) then Inr cp_root
      else Inr (CanonPath (drop (length (path_of pre)) (path_of p))))"

definition extend :: "CanonPath \<Rightarrow> CanonPath \<Rightarrow> CanonPath" where
  "extend p x =
     (if isRoot x then p
      else if isRoot p then CanonPath (path_of p @ rel x)
      else CanonPath (path_of p @ path_of x))"

text \<open>
  \<open>operator<=>\<close>: byte by byte, a slash counting as 0.  A \<open>char\<close> is signed on the platforms
  the program is built for, so the bytes from 0x80 on are negative here.
\<close>

definition cp_key :: "char \<Rightarrow> int" where
  "cp_key c = (if c = CHR ''/'' then 0 else sint (char_byte c))"

fun cp_compare :: "string \<Rightarrow> string \<Rightarrow> int" where
  "cp_compare (a # s) (b # t) =
     (if cp_key a < cp_key b then -1 else if cp_key b < cp_key a then 1 else cp_compare s t)"
| "cp_compare [] [] = 0"
| "cp_compare [] (b # t) = -1"
| "cp_compare (a # s) [] = 1"

subsection \<open>Paths as lists of components\<close>

definition valid_component :: "string \<Rightarrow> bool" where
  "valid_component c \<longleftrightarrow> good_component c \<and> CHR 0x00 \<notin> set c"

definition of_components :: "string list \<Rightarrow> CanonPath" where
  "of_components cs = CanonPath (if cs = [] then ''/'' else render cs)"

text \<open>The invariant of the class: the path is the rendering of valid components.\<close>

definition canonical :: "CanonPath \<Rightarrow> bool" where
  "canonical p \<longleftrightarrow> list_all valid_component (components p) \<and> p = of_components (components p)"

lemma valid_componentD:
  "valid_component c \<Longrightarrow> c \<noteq> []" "valid_component c \<Longrightarrow> CHR ''/'' \<notin> set c"
  "valid_component c \<Longrightarrow> CHR 0x00 \<notin> set c" "valid_component c \<Longrightarrow> c \<noteq> ''.''"
  "valid_component c \<Longrightarrow> c \<noteq> ''..''"
  by (simp_all add: valid_component_def good_component_def)

lemma find_char_here: "c \<notin> set s \<Longrightarrow> find_char c (s @ c # t) = Some (length s)"
  by (induction s) (auto simp: find_char_def)

lemma segments_component:
  "CHR ''/'' \<notin> set c \<Longrightarrow> segments (c @ CHR ''/'' # s) = c # segments s"
  using find_char_here [of "CHR ''/''" c s] by (subst segments.simps) simp

lemma segments_render:
  "list_all valid_component (c # cs) \<Longrightarrow> segments (c @ render cs) = c # cs"
proof (induction cs arbitrary: c)
  case Nil
  then have "CHR ''/'' \<notin> set c" "c \<noteq> []" by (auto dest: valid_componentD)
  then show ?case by (subst segments.simps) (simp add: find_char_def)
next
  case (Cons d cs)
  then have "CHR ''/'' \<notin> set c" by (auto dest: valid_componentD)
  with Cons show ?case by (simp add: segments_component)
qed

lemma components_of_components [simp]:
  "list_all valid_component cs \<Longrightarrow> components (of_components cs) = cs"
proof (cases cs)
  case Nil
  then show ?thesis by (simp add: components_def of_components_def rel_def segments.simps)
next
  case (Cons c ds)
  assume "list_all valid_component cs"
  with Cons show ?thesis
    using segments_render [of c ds] by (simp add: components_def of_components_def rel_def)
qed

lemma canonical_of_components: "list_all valid_component cs \<Longrightarrow> canonical (of_components cs)"
  by (simp add: canonical_def)

lemma canonicalE:
  assumes "canonical p"
  obtains cs where "list_all valid_component cs" "p = of_components cs" "components p = cs"
  using assms by (auto simp: canonical_def)

lemma isRoot_of_components: "list_all valid_component cs \<Longrightarrow> isRoot (of_components cs) \<longleftrightarrow> cs = []"
  by (cases cs) (auto simp: isRoot_def of_components_def dest: valid_componentD)

lemma no_nul_splitString:
  "CHR 0x00 \<notin> set s \<Longrightarrow> t \<in> set (splitString s [c]) \<Longrightarrow> CHR 0x00 \<notin> set t"
proof (induction "length s" arbitrary: s rule: less_induct)
  case less
  have "t = takeWhile (\<lambda>d. d \<noteq> c) s \<or>
      (\<exists>d r. dropWhile (\<lambda>d. d \<noteq> c) s = d # r \<and> t \<in> set (splitString r [c]))"
    using less.prems(2)
    by (subst (asm) splitString.simps, cases "dropWhile (\<lambda>d. d \<noteq> c) s") simp_all
  moreover have "CHR 0x00 \<notin> set r" if "dropWhile (\<lambda>d. d \<noteq> c) s = d # r" for d r
    using less.prems(1) that by (metis list.set_intros(2) set_dropWhileD)
  ultimately show ?case
    using less.hyps less.prems(1) dropWhile_shorter by (metis set_takeWhileD)
qed

lemma resolve_step_valid:
  assumes "list_all valid_component acc" "CHR ''/'' \<notin> set c" "CHR 0x00 \<notin> set c"
  shows "list_all valid_component (resolve_step acc c)"
proof -
  have "list_all valid_component (butlast acc)"
    using assms(1) by (auto simp: list_all_iff dest: in_set_butlastD)
  then show ?thesis
    using assms unfolding resolve_step_def valid_component_def good_component_def by simp
qed

lemma foldl_resolve_valid:
  "list_all valid_component acc \<Longrightarrow> \<forall>c\<in>set cs. CHR ''/'' \<notin> set c \<and> CHR 0x00 \<notin> set c \<Longrightarrow>
   list_all valid_component (foldl resolve_step acc cs)"
proof (induction cs arbitrary: acc)
  case (Cons c cs)
  then have "list_all valid_component (resolve_step acc c)"
    using resolve_step_valid [of acc c] by simp
  with Cons.IH [of "resolve_step acc c"] Cons.prems(2) show ?case by simp
qed simp

lemma resolve_valid:
  "list_all valid_component acc \<Longrightarrow> CHR 0x00 \<notin> set s \<Longrightarrow> list_all valid_component (resolve acc s)"
  unfolding resolve_def
  by (rule foldl_resolve_valid) (auto dest: splitString_no_sep no_nul_splitString)

text \<open>The constructor against the reference.\<close>

lemma absPathPure_resolve:
  "s \<noteq> [] \<Longrightarrow> absPathPure s = Inr (path_of (of_components (resolve [] s)))"
  using canon_loop_resolve [of "[]" 0 s]
  by (simp add: absPathPure_def canonPathInner_def of_components_def)

lemma canon_path_eq:
  "canon_path raw =
     (if CHR 0x00 \<in> set raw then Inl (BadCanonPath ''path segment %s must not contain null bytes'')
      else Inr (of_components (resolve [] raw)))"
  by (simp add: canon_path_def absPathPure_resolve ensureNoNullBytes_def)

lemma resolve_append_slash: "resolve acc (s @ CHR ''/'' # t) = resolve (resolve acc s) t"
proof (induction "length s" arbitrary: s acc rule: less_induct)
  case less
  show ?case
  proof (cases "CHR ''/'' \<in> set s")
    case True
    then obtain p r where s: "s = p @ CHR ''/'' # r" "CHR ''/'' \<notin> set p"
      by (meson split_list_first)
    have "resolve acc (p @ CHR ''/'' # x) = resolve (resolve_step acc p) x" for x
      using resolve_component [OF s(2), of "CHR ''/'' # x"] by simp
    with s less.hyps [of r] show ?thesis by simp
  next
    case False
    then show ?thesis
      using resolve_component [OF False, of "CHR ''/'' # t"] resolve_component [OF False, of "[]"]
      by simp
  qed
qed

lemma resolve_render:
  "list_all good_component cs \<Longrightarrow> resolve acc (render cs) = acc @ cs"
proof (induction cs arbitrary: acc)
  case (Cons c cs)
  have "render cs = [] \<or> hd (render cs) = CHR ''/''" by (cases cs) simp_all
  with Cons show ?case
    using resolve_component [of c "render cs" acc] by (simp add: resolve_step_def good_component_def)
qed simp

lemma canon_path_in_eq:
  assumes "CHR 0x00 \<notin> set raw" "list_all valid_component cs"
  shows "canon_path_in raw (of_components cs) =
    Inr (of_components (resolve (if raw \<noteq> [] \<and> hd raw = CHR ''/'' then [] else cs) raw))"
proof -
  have "list_all good_component cs" using assms(2) by (simp add: list_all_iff valid_component_def)
  then have "resolve [] (path_of (of_components cs) @ CHR ''/'' # raw) = resolve cs raw"
    by (simp add: resolve_append_slash of_components_def resolve_render)
  moreover have "path_of (of_components cs) @ CHR ''/'' # raw \<noteq> []" by simp
  ultimately show ?thesis
    using assms(1) absPathPure_resolve [of raw]
    by (auto simp: canon_path_in_def absPathPure_resolve ensureNoNullBytes_def hd_conv_nth)
qed

subsection \<open>The operations on components\<close>

lemma path_of_components_snoc:
  "path_of (of_components (cs @ [c])) = render cs @ CHR ''/'' # c"
  by (simp add: of_components_def)

lemma last_slash_snoc: "valid_component c \<Longrightarrow> last_slash (of_components (cs @ [c])) = length (render cs)"
  using rfind_char_last [of "CHR ''/''" c "render cs"]
  by (simp add: last_slash_def path_of_components_snoc valid_componentD)

lemma push_components:
  assumes "list_all valid_component cs" "valid_component c"
  shows "push (of_components cs) c = Inr (of_components (cs @ [c]))"
  using assms isRoot_of_components [OF assms(1)] valid_componentD [OF assms(2)]
  by (cases cs) (simp_all add: push_def ensureNoNullBytes_def of_components_def)

lemma push_all_components:
  "list_all valid_component cs \<Longrightarrow> list_all valid_component ds \<Longrightarrow>
   push_all (of_components cs) ds = Inr (of_components (cs @ ds))"
  by (induction ds arbitrary: cs) (simp_all add: push_components)

lemma canon_path_elems_components:
  "list_all valid_component cs \<Longrightarrow> canon_path_elems cs = Inr (of_components cs)"
  using push_all_components [of "[]" cs]
  by (simp add: canon_path_elems_def of_components_def)

lemma parent_cut:
  assumes "list_all valid_component cs"
  shows "take (max 1 (length (render cs))) (render cs @ CHR ''/'' # c) = path_of (of_components cs)"
  by (cases cs) (simp_all add: of_components_def)

lemma parent_components:
  assumes "list_all valid_component (cs @ [c])"
  shows "parent (of_components (cs @ [c])) = Some (of_components cs)"
    "pop (of_components (cs @ [c])) = Inr (of_components cs)"
  using assms parent_cut [of cs c] isRoot_of_components [OF assms] last_slash_snoc [of c cs]
  by (simp_all add: parent_def pop_def path_of_components_snoc)

lemma baseName_components:
  assumes "list_all valid_component (cs @ [c])" "length (render cs) < 2 ^ 64 - 1"
  shows "baseName (of_components (cs @ [c])) = Some c"
    "dirOf (of_components (cs @ [c])) = Some (render cs)"
  using assms(2) assms isRoot_of_components [OF assms(1)] last_slash_snoc [of c cs]
  by (simp_all add: baseName_def dirOf_def path_of_components_snoc)

lemma extend_components:
  "list_all valid_component xs \<Longrightarrow> list_all valid_component ys \<Longrightarrow>
   extend (of_components xs) (of_components ys) = of_components (xs @ ys)"
  using isRoot_of_components [of xs] isRoot_of_components [of ys]
  by (cases xs; cases ys) (simp_all add: extend_def of_components_def rel_def)

lemma render_prefix:
  assumes "list_all valid_component xs" "list_all valid_component ys" "ys \<noteq> []"
    and "render xs = render ys @ t" "t = [] \<or> hd t = CHR ''/''"
  shows "\<exists>zs. xs = ys @ zs \<and> t = render zs"
  using assms
proof (induction ys arbitrary: xs)
  case (Cons y ys)
  then obtain x xs' where xs: "xs = x # xs'" by (cases xs) auto
  have len: "u = v" if "u @ r = v @ s" "CHR ''/'' \<notin> set u" "CHR ''/'' \<notin> set v"
      "r = [] \<or> hd r = CHR ''/''" "s = [] \<or> hd s = CHR ''/''" for u v r s
  proof -
    have tw: "takeWhile (\<lambda>c. c \<noteq> CHR ''/'') (w @ z) = w"
      if "CHR ''/'' \<notin> set w" "z = [] \<or> hd z = CHR ''/''" for w z
      using that by (induction w) (cases z, auto)+
    show ?thesis using tw [of u r] tw [of v s] that by simp
  qed
  have h: "render zs = [] \<or> hd (render zs) = CHR ''/''" for zs by (cases zs) simp_all
  have h': "render ys @ t = [] \<or> hd (render ys @ t) = CHR ''/''"
    using Cons.prems(5) by (cases ys) auto
  have "x = y"
    using len [of x "render xs'" y "render ys @ t"] Cons.prems xs h h' by (auto dest: valid_componentD)
  with Cons.prems xs have eq: "render xs' = render ys @ t" by simp
  show ?case
  proof (cases "ys = []")
    case True
    with eq xs \<open>x = y\<close> show ?thesis by simp
  next
    case False
    with Cons.IH [of xs'] Cons.prems xs eq \<open>x = y\<close> show ?thesis by auto
  qed
qed simp

lemma isWithin_components:
  assumes "list_all valid_component xs" "list_all valid_component ys"
  shows "isWithin (of_components xs) (of_components ys) \<longleftrightarrow> prefix ys xs"
proof (cases "ys = []")
  case True
  then show ?thesis by (cases xs) (simp_all add: isWithin_def of_components_def)
next
  case False
  then have y: "path_of (of_components ys) = render ys" "1 < length (render ys)"
    using assms(2) by (cases ys; auto simp: of_components_def dest: valid_componentD)+
  show ?thesis
  proof
    assume w: "isWithin (of_components xs) (of_components ys)"
    then have "length (render ys) \<le> length (path_of (of_components xs))"
      using y by (simp add: isWithin_def)
    with y(2) have "xs \<noteq> []" by (auto simp: of_components_def)
    then have x: "path_of (of_components xs) = render xs" by (simp add: of_components_def)
    define t where "t = drop (length (render ys)) (render xs)"
    from w x y have "render xs = render ys @ t"
      unfolding isWithin_def t_def by (metis append_take_drop_id)
    moreover have "t = [] \<or> hd t = CHR ''/''"
      using w x y unfolding isWithin_def t_def
      by (cases "length (render ys) < length (render xs)") (auto simp: hd_drop_conv_nth)
    ultimately show "prefix ys xs"
      using render_prefix [OF assms False] by (auto simp: prefix_def)
  next
    assume "prefix ys xs"
    then obtain zs where zs: "xs = ys @ zs" by (auto simp: prefix_def)
    then have x: "path_of (of_components xs) = render ys @ render zs"
      using False by (simp add: of_components_def)
    have "zs = [] \<or> render zs ! 0 = CHR ''/''" by (cases zs) simp_all
    with x y show "isWithin (of_components xs) (of_components ys)"
      by (auto simp: isWithin_def nth_append)
  qed
qed

lemma removePrefix_components:
  assumes "list_all valid_component ys" "list_all valid_component zs"
  shows "removePrefix (of_components (ys @ zs)) (of_components ys) = Inr (of_components zs)"
proof -
  have "list_all valid_component (ys @ zs)" using assms by simp
  then have "isWithin (of_components (ys @ zs)) (of_components ys)"
    using isWithin_components assms(1) by (simp add: prefix_def)
  then show ?thesis
    using isRoot_of_components [OF assms(1)]
    by (cases ys; cases zs) (simp_all add: removePrefix_def of_components_def cp_root_def)
qed

lemma resolve_single: "valid_component c \<Longrightarrow> resolve [] c = [c]"
  using resolve_component [of c "[]" "[]"]
  by (simp add: resolve_step_def valid_component_def good_component_def)

text \<open>\<open>fromFilename\<close> accepts the valid components and nothing else.\<close>

lemma fromFilename_iff:
  "fromFilename c = Inr p \<longleftrightarrow> valid_component c \<and> p = of_components [c]"
proof
  assume h: "valid_component c \<and> p = of_components [c]"
  then have "fromFilename c = Inr (of_components [c])"
    using resolve_single [of c] components_of_components [of "[c]"]
    by (auto simp: fromFilename_def canon_path_eq rel_def of_components_def dest: valid_componentD)
  with h show "fromFilename c = Inr p" by simp
next
  assume h: "fromFilename c = Inr p"
  then have nul: "CHR 0x00 \<notin> set c" and p: "p = of_components (resolve [] c)"
    and c: "c = rel p" "length (components p) = 1"
    by (auto simp: fromFilename_def canon_path_eq split: if_splits)
  have v: "list_all valid_component (resolve [] c)" by (rule resolve_valid) (simp_all add: nul)
  with c(2) p obtain d where "resolve [] c = [d]"
    by (cases "resolve [] c") auto
  with c(1) p v have "c = d" by (simp add: rel_def of_components_def)
  with v \<open>resolve [] c = [d]\<close> p show "valid_component c \<and> p = of_components [c]" by simp
qed

subsection \<open>The order\<close>

lemma cp_compare_refl [simp]: "cp_compare s s = 0"
  by (induction s) simp_all

lemma cp_compare_sym: "cp_compare t s = - cp_compare s t"
  by (induction s t rule: cp_compare.induct) auto

lemma cp_compare_trans: "cp_compare s t \<le> 0 \<Longrightarrow> cp_compare t u \<le> 0 \<Longrightarrow> cp_compare s u \<le> 0"
proof (induction s t arbitrary: u rule: cp_compare.induct)
  case (1 a s b t)
  then have ab: "cp_key a < cp_key b \<or> cp_key a = cp_key b \<and> cp_compare s t \<le> 0"
    by (simp split: if_splits)
  show ?case
  proof (cases u)
    case Nil
    then show ?thesis using 1 by simp
  next
    case (Cons c u')
    with 1 have bc: "cp_key b < cp_key c \<or> cp_key b = cp_key c \<and> cp_compare t u' \<le> 0"
      by (simp split: if_splits)
    have "cp_key a < cp_key c \<or> cp_key a = cp_key c \<and> cp_compare s u' \<le> 0"
      using ab bc 1(1) [of u'] by auto
    with Cons show ?thesis by auto
  qed
next
  case (3 b t)
  then show ?case by (cases u) simp_all
next
  case (4 a s)
  then show ?case by simp
qed simp

text \<open>A preorder on all values of the class, total, and an order where no path has a null byte.\<close>

instantiation CanonPath :: preorder
begin

definition less_eq_CanonPath :: "CanonPath \<Rightarrow> CanonPath \<Rightarrow> bool" where
  "p \<le> q \<longleftrightarrow> cp_compare (path_of p) (path_of q) \<le> 0"

definition less_CanonPath :: "CanonPath \<Rightarrow> CanonPath \<Rightarrow> bool" where
  "p < q \<longleftrightarrow> cp_compare (path_of p) (path_of q) < 0"

instance
proof
  fix p q r :: CanonPath
  show "p < q \<longleftrightarrow> p \<le> q \<and> \<not> q \<le> p"
    using cp_compare_sym [of "path_of p" "path_of q"]
    by (auto simp: less_eq_CanonPath_def less_CanonPath_def)
  show "p \<le> p" by (simp add: less_eq_CanonPath_def)
  show "p \<le> q \<Longrightarrow> q \<le> r \<Longrightarrow> p \<le> r"
    using cp_compare_trans by (simp add: less_eq_CanonPath_def)
qed

end

lemma CanonPath_total: "(p :: CanonPath) \<le> q \<or> q \<le> p"
  using cp_compare_sym [of "path_of p" "path_of q"] by (auto simp: less_eq_CanonPath_def)

lemma cp_key_inject: "a \<noteq> CHR 0x00 \<Longrightarrow> b \<noteq> CHR 0x00 \<Longrightarrow> cp_key a = cp_key b \<Longrightarrow> a = b"
proof -
  assume ne: "a \<noteq> CHR 0x00" "b \<noteq> CHR 0x00" and eq: "cp_key a = cp_key b"
  have zero: "c = CHR 0x00" if "sint (char_byte c) = 0" for c
  proof -
    have "char_byte c = 0" using that by (intro signed_word_eqI) simp
    moreover have "char_byte (CHR 0x00) = 0" by (simp add: char_byte_def)
    ultimately show ?thesis by (metis char_byte_inject)
  qed
  show "a = b"
    using ne eq zero by (auto simp: cp_key_def dest!: signed_word_eqI split: if_splits)
qed

lemma cp_compare_eq_0:
  "CHR 0x00 \<notin> set s \<Longrightarrow> CHR 0x00 \<notin> set t \<Longrightarrow> cp_compare s t = 0 \<Longrightarrow> s = t"
proof (induction s t rule: cp_compare.induct)
  case (1 a s b t)
  then have "cp_key a = cp_key b" "s = t" by (auto split: if_splits)
  with 1 show ?case using cp_key_inject [of a b] by (metis list.set_intros(1))
qed simp_all

lemma canonical_no_nul: "canonical p \<Longrightarrow> CHR 0x00 \<notin> set (path_of p)"
  by (erule canonicalE) (auto simp: of_components_def render_def list_all_iff
      dest: valid_componentD split: if_splits)

lemma CanonPath_antisym: "canonical p \<Longrightarrow> canonical q \<Longrightarrow> p \<le> q \<Longrightarrow> q \<le> p \<Longrightarrow> p = q"
  using cp_compare_sym [of "path_of p" "path_of q"]
    cp_compare_eq_0 [OF canonical_no_nul canonical_no_nul, of p q]
  by (simp add: less_eq_CanonPath_def CanonPath.expand)

lemma cp_compare_prefix: "cp_compare s (s @ t) \<le> 0"
  by (induction s) (cases t, auto)+

text \<open>A directory sorts before everything below it.\<close>

lemma directory_before_children: "path_of q = path_of p @ t \<Longrightarrow> p \<le> q"
  by (simp add: less_eq_CanonPath_def cp_compare_prefix)

text \<open>
  With 7-bit names nothing else comes in between: what sorts between a directory and one of
  its descendants is below that directory.  A byte from 0x80 on sorts before the slash.
\<close>

definition ascii :: "string \<Rightarrow> bool" where
  "ascii s \<longleftrightarrow> list_all (\<lambda>c. of_char c < (128 :: nat)) s"

lemma sint_ascii_pos: "of_char c < (128 :: nat) \<Longrightarrow> c \<noteq> CHR 0x00 \<Longrightarrow> 0 < sint (char_byte c)"
proof -
  assume c: "of_char c < (128 :: nat)" "c \<noteq> CHR 0x00"
  have "of_char c \<noteq> (0 :: nat)"
  proof
    assume "of_char c = (0 :: nat)"
    then have "char_of (of_char c :: nat) = (char_of (0 :: nat) :: char)" by (simp only:)
    then have "c = char_of (0 :: nat)" by simp
    then show False using c(2) by (simp add: char_of_def)
  qed
  have u: "unat (char_byte c) = of_char c"
    using c(1) by (simp add: char_byte_def unat_of_nat)
  then have "uint (char_byte c) = int (of_char c)" by (simp only: uint_nat)
  moreover have "sint (char_byte c) = uint (char_byte c)"
    using c(1) \<open>uint (char_byte c) = int (of_char c)\<close>
    by (simp add: sint_uint signed_take_bit_int_eq_self_iff)
  ultimately show ?thesis using \<open>of_char c \<noteq> 0\<close> by simp
qed

lemma cp_compare_subtree:
  "CHR 0x00 \<notin> set m \<Longrightarrow> CHR 0x00 \<notin> set s \<Longrightarrow> ascii m \<Longrightarrow> cp_compare s m \<le> 0 \<Longrightarrow> cp_compare m (s @ CHR ''/'' # t) \<le> 0 \<Longrightarrow>
   m = s \<or> (\<exists>u. m = s @ CHR ''/'' # u)"
proof (induction s arbitrary: m)
  case Nil
  then show ?case
    by (cases m) (auto simp: cp_key_def ascii_def dest: sint_ascii_pos split: if_splits)
next
  case (Cons a s)
  from Cons.prems(4) obtain b m' where m: "m = b # m'" by (cases m) auto
  show ?case
  proof (cases "a = b")
    case True
    with Cons m show ?thesis by (auto simp: ascii_def)
  next
    case False
    have "cp_key a = cp_key b"
      using Cons.prems(4,5) m by (auto split: if_splits)
    then show ?thesis
      using cp_key_inject [of a b] False Cons.prems(1,2) m by (metis list.set_intros(1))
  qed
qed


subsection \<open>Properties\<close>

text \<open>
  C11.  The constructor is the reference: it rejects exactly the strings with a null byte, and
  otherwise gives the components left after dropping empty ones and \<open>.\<close> and letting \<open>..\<close>
  drop its predecessor, which keeps the class invariant.
\<close>

theorem canon_path_reference:
  "canon_path raw =
     (if CHR 0x00 \<in> set raw then Inl (BadCanonPath ''path segment %s must not contain null bytes'')
      else Inr (of_components (resolve [] raw))) \<and>
   (CHR 0x00 \<notin> set raw \<longrightarrow> canonical (of_components (resolve [] raw)))"
  using canon_path_eq [of raw] canonical_of_components [OF resolve_valid [of "[]" raw]] by simp

theorem canon_path_reference_witness:
  "canonical (of_components (resolve [] ''/a/../b/./c''))"
  using canon_path_reference [of "''/a/../b/./c''"] by simp

text \<open>
  Concatenation, containment and \<open>removePrefix\<close> agree: below \<open>q / r\<close> is within \<open>q\<close>,
  removing \<open>q\<close> leaves \<open>r\<close>, and a path is within another exactly if its components start with
  the other's (so \<open>/foobar\<close> is not within \<open>/foo\<close>).
\<close>

theorem canon_path_prefixes:
  assumes "canonical p" and "canonical q" and "canonical r"
  shows "(isWithin p q \<longleftrightarrow> prefix (components q) (components p)) \<and>
    removePrefix (extend q r) q = Inr r"
proof -
  obtain xs ys zs where c: "list_all valid_component xs" "p = of_components xs" "components p = xs"
    "list_all valid_component ys" "q = of_components ys" "components q = ys"
    "list_all valid_component zs" "r = of_components zs"
    using assms by (metis canonicalE)
  show ?thesis
    using isWithin_components [OF c(1,4)] removePrefix_components [OF c(4,7)]
      extend_components [OF c(4,7)] c by simp
qed

lemma canonical_examples:
  "canonical (CanonPath ''/foo'')" "canonical (CanonPath ''/foobar'')" "canonical (CanonPath ''/foo/a'')"
  "canonical (CanonPath ''/foo/b'')"
  using canonical_of_components [of "[''foo'']"] canonical_of_components [of "[''foobar'']"]
    canonical_of_components [of "[''foo'', ''a'']"] canonical_of_components [of "[''foo'', ''b'']"]
  by (simp_all add: of_components_def valid_component_def good_component_def)

theorem canon_path_prefixes_witness:
  "\<not> isWithin (CanonPath ''/foobar'') (CanonPath ''/foo'') \<and>
   removePrefix (extend (CanonPath ''/foo'') (CanonPath ''/foobar'')) (CanonPath ''/foo'') = Inr (CanonPath ''/foobar'')"
  using canon_path_prefixes [OF canonical_examples(2,1,2)] components_of_components [of "[''foobar'']"]
    components_of_components [of "[''foo'']"]
  by (simp add: of_components_def valid_component_def good_component_def)

text \<open>
  C12.  The order of paths puts nothing but its descendants between a directory and one of
  them, for names of 7-bit characters.
\<close>

theorem subtree_contiguous:
  assumes "canonical p" and "canonical m" and "ascii (path_of m)"
    and "path_of q = path_of p @ CHR ''/'' # t" and "p \<le> m" and "m \<le> q"
  shows "m = p \<or> (\<exists>u. path_of m = path_of p @ CHR ''/'' # u)"
  using cp_compare_subtree [OF canonical_no_nul [OF assms(2)] canonical_no_nul [OF assms(1)] assms(3)]
    assms(4-6)
  by (auto simp: less_eq_CanonPath_def CanonPath.expand)

theorem subtree_contiguous_witness:
  "CanonPath ''/foo/a'' = CanonPath ''/foo'' \<or> (\<exists>u. path_of (CanonPath ''/foo/a'') = path_of (CanonPath ''/foo'') @ CHR ''/'' # u)"
  by (rule subtree_contiguous [OF canonical_examples(1,3), of "CanonPath ''/foo/b''" "''b''"])
     (simp_all add: ascii_def less_eq_CanonPath_def cp_key_def char_byte_def)

text \<open>
  The 7-bit restriction is needed: \<open>char\<close> is signed, so a name that goes on with a byte
  from 0x80 on sorts between a directory and its children, although the comment on the
  operator says that separators come before any other character.
\<close>

theorem high_byte_before_separator:
  "CanonPath ''/foo'' \<le> CanonPath (''/foo'' @ [CHR 0x80]) \<and>
   CanonPath (''/foo'' @ [CHR 0x80]) \<le> CanonPath ''/foo/bar'' \<and>
   \<not> isWithin (CanonPath (''/foo'' @ [CHR 0x80])) (CanonPath ''/foo'')"
  by (simp add: less_eq_CanonPath_def cp_key_def char_byte_def isWithin_def isRoot_def)

end
