(* ===== verification/MemoryAccessor.thy ===== *)
theory MemoryAccessor
  imports CanonPath Serialise
begin

text \<open>
  File system objects and the accessor that holds one in memory
  (\<open>libutil/memory-source-accessor.cc\<close>, the interface of \<open>source-accessor.hh\<close>).

  A \<open>File *\<close> that \<open>open\<close> returns points into the tree; here it is the path of the node,
  and a write through it is \<open>update_at\<close>.  A \<open>std::map\<close> of entries is the association list
  in the order of its keys.
\<close>

subsection \<open>File system objects\<close>

datatype fso =
    Regular (executable: bool) (contents: string)
  | Directory (entries: "(string \<times> fso) list")
  | Symlink (target: string)

lemma file_size_in [termination_simp]: "(n, c) \<in> set es \<Longrightarrow> size c < Suc (size_list (size_prod (\<lambda>_. 0) size) es)"
  by (induction es) auto

datatype file_type = tRegular | tSymlink | tDirectory | tChar | tBlock | tSocket | tFifo | tUnknown

record Stat =
  st_type :: file_type
  fileSize :: "64 word option"
  isExecutable :: bool

definition file_lstat :: "fso \<Rightarrow> Stat" where
  "file_lstat f = (case f of
     Regular x c \<Rightarrow> \<lparr> st_type = tRegular, fileSize = Some (word_of_nat (length c)), isExecutable = x \<rparr>
   | Directory _ \<Rightarrow> \<lparr> st_type = tDirectory, fileSize = None, isExecutable = False \<rparr>
   | Symlink _ \<Rightarrow> \<lparr> st_type = tSymlink, fileSize = None, isExecutable = False \<rparr>)"

text \<open>\<open>std::map\<close>: inserting a key that is absent, and changing the value of one that is there.\<close>

fun map_insert :: "'k \<Rightarrow> 'v \<Rightarrow> ('k :: linorder \<times> 'v) list \<Rightarrow> ('k \<times> 'v) list" where
  "map_insert k v [] = [(k, v)]"
| "map_insert k v ((k', v') # es) =
     (if k < k' then (k, v) # (k', v') # es
      else if k = k' then (k, v) # es else (k', v') # map_insert k v es)"

definition map_sorted :: "('k :: linorder \<times> 'v) list \<Rightarrow> bool" where
  "map_sorted es \<longleftrightarrow> sorted_wrt (<) (map fst es)"

lemma map_of_map_insert [simp]:
  "map_sorted es \<Longrightarrow> map_of (map_insert k v es) = (map_of es)(k \<mapsto> v)"
proof (induction es)
  case (Cons e es)
  obtain k' v' where e: "e = (k', v')" by (cases e)
  with Cons.prems have s: "map_sorted es" "\<forall>x\<in>set es. k' < fst x" by (auto simp: map_sorted_def)
  have "map_of es k = None" if "k = k'"
    using s(2) that by (auto simp: map_of_eq_None_iff)
  with Cons.IH [OF s(1)] e show ?case by (auto simp: fun_eq_iff)
qed (simp add: fun_eq_iff)

lemma map_insert_keys: "fst ` set (map_insert k v es) = insert k (fst ` set es)"
  by (induction k v es rule: map_insert.induct) auto

lemma map_sorted_insert [simp]: "map_sorted es \<Longrightarrow> map_sorted (map_insert k v es)"
proof (induction es)
  case (Cons e es)
  obtain k' v' where e: "e = (k', v')" by (cases e)
  with Cons.prems have s: "map_sorted es" "\<forall>x\<in>set (map fst es). k' < x" by (auto simp: map_sorted_def)
  have "set (map fst (map_insert k v es)) = insert k (set (map fst es))"
    using map_insert_keys [of k v es] by simp
  then have "\<forall>x\<in>set (map fst (map_insert k v es)). k' < x" if "k' < k"
    using s(2) that by simp
  with e s Cons.IH [OF s(1)] show ?case
    by (auto simp: map_sorted_def)
qed (simp add: map_sorted_def)

lemma map_sorted_Cons:
  "map_sorted ((k, v) # es) \<longleftrightarrow> map_sorted es \<and> (\<forall>k'\<in>fst ` set es. k < k')"
  by (auto simp: map_sorted_def)

lemma map_sorted_unique: "map_sorted es \<Longrightarrow> (k, v) \<in> set es \<longleftrightarrow> map_of es k = Some v"
proof -
  assume "map_sorted es"
  then have "distinct (map fst es)"
    using strict_sorted_iff by (auto simp: map_sorted_def)
  then show ?thesis by simp
qed

lemma map_insert_last:
  "map_sorted (es @ [(k, v)]) \<Longrightarrow> map_insert k v es = es @ [(k, v)]"
  by (induction es) (auto simp: map_sorted_def)

text \<open>The contents of a tree at a path.\<close>

fun tree_lookup :: "fso \<Rightarrow> string list \<Rightarrow> fso option" where
  "tree_lookup f [] = Some f"
| "tree_lookup (Directory es) (n # ns) =
     (case map_of es n of None \<Rightarrow> None | Some c \<Rightarrow> tree_lookup c ns)"
| "tree_lookup _ (n # ns) = None"

fun update_at :: "string list \<Rightarrow> (fso \<Rightarrow> fso) \<Rightarrow> fso \<Rightarrow> fso" where
  "update_at [] g f = g f"
| "update_at (n # ns) g (Directory es) =
     (case map_of es n of
        None \<Rightarrow> Directory es
      | Some c \<Rightarrow> Directory (map_insert n (update_at ns g c) es))"
| "update_at (n # ns) g f = f"

text \<open>Well formed: entry names are single path components, in the order of the map.\<close>

fun file_ok :: "fso \<Rightarrow> bool" where
  "file_ok (Regular x c) = True"
| "file_ok (Symlink t) = True"
| "file_ok (Directory es) \<longleftrightarrow>
     map_sorted es \<and> list_all (\<lambda>(n, c). valid_component n \<and> file_ok c) es"

lemma file_okD:
  "file_ok (Directory es) \<Longrightarrow> map_sorted es"
  "file_ok (Directory es) \<Longrightarrow> map_of es n = Some c \<Longrightarrow> file_ok c"
  "file_ok (Directory es) \<Longrightarrow> map_of es n = Some c \<Longrightarrow> valid_component n"
  by (auto simp: list_all_iff dest!: map_of_SomeD)

lemma file_ok_insert:
  assumes "file_ok (Directory es)" "valid_component n" "file_ok c"
  shows "file_ok (Directory (map_insert n c es))"
proof -
  have "list_all P (map_insert n c es)" if "P (n, c)" "list_all P es" for P
    using that by (induction n c es rule: map_insert.induct) auto
  with assms show ?thesis by simp
qed

lemma file_ok_update_at:
  "file_ok f \<Longrightarrow> (\<And>x. tree_lookup f ns = Some x \<Longrightarrow> file_ok x \<Longrightarrow> file_ok (g x)) \<Longrightarrow> file_ok (update_at ns g f)"
proof (induction ns g f rule: update_at.induct)
  case (2 n ns g es)
  show ?case
  proof (cases "map_of es n")
    case (Some c)
    have "file_ok (update_at ns g c)"
      using "2.IH" [OF Some] "2.prems" Some file_okD(2) [OF "2.prems"(1) Some] by simp
    with Some "2.prems"(1) file_okD(3) [OF "2.prems"(1) Some] show ?thesis
      by (simp add: file_ok_insert del: file_ok.simps)
  qed (use 2 in simp)
qed auto

lemma lookup_update_same:
  "file_ok f \<Longrightarrow> tree_lookup f ns = Some x \<Longrightarrow> tree_lookup (update_at ns g f) ns = Some (g x)"
proof (induction ns g f rule: update_at.induct)
  case (2 n ns g es)
  then obtain c where "map_of es n = Some c" "tree_lookup c ns = Some x"
    by (auto split: option.splits)
  with 2 file_okD(1,2) [OF 2(2)] show ?case by (simp del: file_ok.simps)
qed auto

text \<open>A path that does not run through the changed node sees no change.\<close>

lemma lookup_update_other:
  "file_ok f \<Longrightarrow> \<not> prefix ns ms \<Longrightarrow> \<not> prefix ms ns \<Longrightarrow>
   tree_lookup (update_at ns g f) ms = tree_lookup f ms"
proof (induction ns g f arbitrary: ms rule: update_at.induct)
  case (2 n ns g es)
  then obtain m ms' where ms: "ms = m # ms'" by (cases ms) auto
  show ?case
  proof (cases "map_of es n")
    case (Some c)
    with 2 ms file_okD(1,2) [OF 2(2)] show ?thesis
      by (cases "m = n") (simp_all del: file_ok.simps)
  qed simp
qed auto

subsection \<open>Opening\<close>

text \<open>
  The walk of \<open>open\<close> from the node \<open>cur\<close> along the rest of the path.  It returns whether
  there is a node at the end, and the subtree of \<open>cur\<close> afterwards: a missing entry is
  inserted as an empty directory on the way, also when the walk then throws.
\<close>

fun open_walk :: "fso option \<Rightarrow> bool \<Rightarrow> string list \<Rightarrow> fso \<Rightarrow> (exn + bool) \<times> fso" where
  "open_walk create newF [] cur =
     (Inr True, (case create of Some c \<Rightarrow> if newF then c else cur | None \<Rightarrow> cur))"
| "open_walk create newF (name # rest) cur =
     (case cur of
        Directory es \<Rightarrow>
          (case map_of es name of
             None \<Rightarrow>
               (case create of
                  None \<Rightarrow> (Inr False, cur)
                | Some c \<Rightarrow>
                    (case open_walk create True rest (Directory []) of
                       (r, child) \<Rightarrow> (r, Directory (map_insert name child es))))
           | Some child \<Rightarrow>
               (case open_walk create newF rest child of
                  (r, child) \<Rightarrow> (r, Directory (map_insert name child es))))
      | Symlink _ \<Rightarrow> (Inl (SymlinkNotAllowed ''file %s is a symlink''), cur)
      | Regular _ _ \<Rightarrow>
          (case create of
             Some _ \<Rightarrow> (Inl (NotADirectory ''file %s is not a directory''), cur)
           | None \<Rightarrow> (Inr False, cur)))"

type_synonym memory = "fso option"

definition mem_open :: "CanonPath \<Rightarrow> fso option \<Rightarrow> (memory, bool) M" where
  "mem_open path create root =
     (if isRoot path \<and> root = None then
        (case create of Some c \<Rightarrow> (Inr True, Some c) | None \<Rightarrow> (Inr False, root))
      else case root of
        None \<Rightarrow> (Inr False, root)
      | Some f \<Rightarrow> (case open_walk create False (components path) f of (r, f) \<Rightarrow> (r, Some f)))"

text \<open>The node that the pointer of a successful \<open>open\<close> leads to, and a write through it.\<close>

definition mem_node :: "CanonPath \<Rightarrow> memory \<Rightarrow> fso option" where
  "mem_node path root = (case root of None \<Rightarrow> None | Some f \<Rightarrow> tree_lookup f (components path))"

definition mem_write :: "CanonPath \<Rightarrow> (fso \<Rightarrow> fso) \<Rightarrow> (memory, unit) M" where
  "mem_write path g = modS (map_option (update_at (components path) g))"

subsection \<open>Reading\<close>

definition mem_file :: "CanonPath \<Rightarrow> memory \<Rightarrow> exn + fso" where
  "mem_file path root =
     bindE (fst (mem_open path None root)) (\<lambda>found.
       case mem_node path root of
         Some f \<Rightarrow> if found then Inr f else Inl (FileNotFound ''file %s does not exist'')
       | None \<Rightarrow> Inl (FileNotFound ''file %s does not exist''))"

definition mem_readFile :: "memory \<Rightarrow> CanonPath \<Rightarrow> 'k sink \<Rightarrow> (64 word \<Rightarrow> ('k, unit) M) \<Rightarrow> ('k, unit) M" where
  "mem_readFile root path sink sizeCallback =
     bindM (liftE (mem_file path root)) (\<lambda>f.
       case f of
         Regular _ c \<Rightarrow> seqM (sizeCallback (word_of_nat (length c))) (sink c)
       | Directory _ \<Rightarrow> throw (NotARegularFile ''file %s is not a regular file'')
       | Symlink _ \<Rightarrow> throw (SymlinkNotAllowed ''file %s is a symlink''))"

definition mem_maybeLstat :: "memory \<Rightarrow> CanonPath \<Rightarrow> exn + Stat option" where
  "mem_maybeLstat root path =
     bindE (fst (mem_open path None root)) (\<lambda>found.
       Inr (if found then map_option file_lstat (mem_node path root) else None))"

definition mem_readDirectory :: "memory \<Rightarrow> CanonPath \<Rightarrow> exn + (string \<times> file_type option) list" where
  "mem_readDirectory root path =
     bindE (mem_file path root) (\<lambda>f.
       case f of
         Directory es \<Rightarrow> Inr (map (\<lambda>(n, c). (n, Some (st_type (file_lstat c)))) es)
       | Regular _ _ \<Rightarrow> Inl (NotADirectory ''file %s is not a directory'')
       | Symlink _ \<Rightarrow> Inl (SymlinkNotAllowed ''file %s is a symlink''))"

definition mem_readLink :: "memory \<Rightarrow> CanonPath \<Rightarrow> exn + string" where
  "mem_readLink root path =
     bindE (mem_file path root) (\<lambda>f.
       case f of Symlink t \<Rightarrow> Inr t | _ \<Rightarrow> Inl (NotASymlink ''file %s is not a symbolic link''))"

subsection \<open>Writing\<close>

text \<open>
  The handlers add a line to the trace of the exception and throw it again, so they do not
  show here.
\<close>

definition mem_addFile :: "CanonPath \<Rightarrow> string \<Rightarrow> (memory, unit) M" where
  "mem_addFile path c =
     seqM (bindM (getS id) (\<lambda>root.
             if root = None \<and> \<not> isRoot path
             then bindM (mem_open cp_root (Some (Directory []))) (\<lambda>_. ret ()) else ret ()))
       (bindM (mem_open path (Some (Regular False []))) (\<lambda>found.
          if \<not> found
          then throw (Error ''file %s cannot be created because some parent directories don't exist'')
          else bindM (getS (mem_node path)) (\<lambda>f.
            case f of
              Some (Regular _ _) \<Rightarrow> mem_write path (\<lambda>f. Regular (executable f) c)
            | _ \<Rightarrow> throw (NotARegularFile ''file %s is not a regular file''))))"

definition MemorySink_createDirectory :: "CanonPath \<Rightarrow> (memory, unit) M" where
  "MemorySink_createDirectory path =
     bindM (mem_open path (Some (Directory []))) (\<lambda>found.
       if \<not> found
       then throw (Error ''directory %s cannot be created because some parent directories don't exist'')
       else bindM (getS (mem_node path)) (\<lambda>f.
         case f of Some (Directory _) \<Rightarrow> ret () | _ \<Rightarrow> throw (NotADirectory ''file %s is not a directory'')))"

text \<open>\<open>createRegularFile\<close> up to the callback; the handle it passes on is the pointer.\<close>

definition MemorySink_openRegular :: "CanonPath \<Rightarrow> (memory, CanonPath) M" where
  "MemorySink_openRegular path =
     bindM (mem_open path (Some (Regular False []))) (\<lambda>found.
       if \<not> found
       then throw (Error ''file %s cannot be created because some parent directories don't exist'')
       else bindM (getS (mem_node path)) (\<lambda>f.
         case f of Some (Regular _ _) \<Rightarrow> ret path
         | _ \<Rightarrow> throw (NotARegularFile ''file %s is not a regular file'')))"

definition CreateMemoryRegularFile_isExecutable :: "CanonPath \<Rightarrow> (memory, unit) M" where
  "CreateMemoryRegularFile_isExecutable f = mem_write f (\<lambda>x. Regular True (contents x))"

text \<open>\<open>size_type\<close> is as wide as the length, so the check for a too large file never fails.\<close>

definition CreateMemoryRegularFile_preallocate :: "CanonPath \<Rightarrow> 64 word \<Rightarrow> (memory, unit) M" where
  "CreateMemoryRegularFile_preallocate f len =
     (if (2 ^ 64 - 1 :: nat) < unat len
      then throw (Error ''cannot preallocate contents for a file that is too large to fit in memory'')
      else ret ())"

definition CreateMemoryRegularFile_write :: "CanonPath \<Rightarrow> memory sink" where
  "CreateMemoryRegularFile_write f data = mem_write f (\<lambda>x. Regular (executable x) (contents x @ data))"

definition MemorySink_createSymlink :: "CanonPath \<Rightarrow> string \<Rightarrow> (memory, unit) M" where
  "MemorySink_createSymlink path t =
     bindM (mem_open path (Some (Symlink []))) (\<lambda>found.
       if \<not> found
       then throw (Error ''symlink %s cannot be created because some parent directories don't exist'')
       else bindM (getS (mem_node path)) (\<lambda>f.
         case f of Some (Symlink _) \<Rightarrow> mem_write path (\<lambda>_. Symlink t)
         | _ \<Rightarrow> throw (NotASymlink ''file %s is not a symbolic link'')))"

subsection \<open>What open does\<close>

text \<open>Without \<open>create\<close> the tree stays as it is, and the answer is whether there is a node there.\<close>

lemma map_insert_present: "map_sorted es \<Longrightarrow> map_of es n = Some c \<Longrightarrow> map_insert n c es = es"
proof (induction n c es rule: map_insert.induct)
  case (2 k v k' v' es)
  have "\<not> k < k'" if "k \<noteq> k'"
  proof -
    have "k \<in> fst ` set es" using 2(3) that by (auto dest!: map_of_SomeD simp: image_iff) force
    then show ?thesis using 2(2) by (auto simp: map_sorted_Cons)
  qed
  with 2 show ?case by (auto simp: map_sorted_Cons)
qed simp

lemma open_walk_None:
  "file_ok cur \<Longrightarrow> open_walk None newF ns cur = (r, cur') \<Longrightarrow>
   cur' = cur \<and> (\<forall>b. r = Inr b \<longrightarrow> b = (tree_lookup cur ns \<noteq> None)) \<and>
   (tree_lookup cur ns \<noteq> None \<longrightarrow> r = Inr True)"
proof (induction ns arbitrary: cur newF cur' r)
  case (Cons n ns)
  show ?case
  proof (cases cur)
    case (Directory es)
    show ?thesis
    proof (cases "map_of es n")
      case None
      with Cons.prems Directory show ?thesis by auto
    next
      case (Some c)
      obtain r' c' where w: "open_walk None newF ns c = (r', c')" by fastforce
      have "file_ok c" using Cons.prems(1) Directory file_okD(2) [of es n c] Some by simp
      from Cons.IH [OF this w] Some Directory w Cons.prems show ?thesis
        using map_insert_present [of es n c] by (auto simp del: file_ok.simps dest: file_okD(1))
    qed
  qed (use Cons.prems in auto)
qed auto

lemma mem_file_Some:
  assumes "root = Some f" "file_ok f" "tree_lookup f (components path) = Some x"
  shows "mem_file path root = Inr x"
proof -
  obtain r f' where w: "open_walk None False (components path) f = (r, f')" by fastforce
  with open_walk_None [OF assms(2) w] assms show ?thesis
    by (simp add: mem_file_def mem_open_def mem_node_def)
qed

lemma mem_file_None:
  assumes "root = Some f" "file_ok f" "tree_lookup f (components path) = None"
  shows "\<exists>e. mem_file path root = Inl e"
  using assms by (cases "fst (mem_open path None root)") (auto simp: mem_file_def mem_node_def)

text \<open>
  With \<open>create\<close>: an existing node stays as it is; a missing one appears together with the
  directories above it, and everything that was there is still there.
\<close>

lemma open_walk_existing:
  "file_ok cur \<Longrightarrow> tree_lookup cur ns = Some x \<Longrightarrow> open_walk create False ns cur = (Inr True, cur)"
proof (induction ns arbitrary: cur)
  case (Cons n ns)
  from Cons.prems(2) obtain es c where "cur = Directory es" "map_of es n = Some c" "tree_lookup c ns = Some x"
    by (cases cur) (auto split: option.splits)
  with Cons file_okD(1,2) [of es] map_insert_present [of es n c] show ?case
    by (simp del: file_ok.simps)
qed (auto split: option.splits)

fun chain :: "string list \<Rightarrow> fso \<Rightarrow> fso" where
  "chain [] f = f"
| "chain (n # ns) f = Directory [(n, chain ns f)]"

lemma open_walk_new: "open_walk (Some c) True ns (Directory []) = (Inr True, chain ns c)"
  by (induction ns) (simp_all add: split_def)

lemma chain_ok: "file_ok c \<Longrightarrow> list_all valid_component ns \<Longrightarrow> file_ok (chain ns c)"
  by (induction ns) (simp_all add: map_sorted_def)

lemma lookup_chain: "tree_lookup (chain ns c) ns = Some c"
  by (induction ns) simp_all

text \<open>The tree with the node at a path replaced or, below an existing directory, added.\<close>

fun put :: "string list \<Rightarrow> fso \<Rightarrow> fso \<Rightarrow> fso" where
  "put [] x f = x"
| "put (n # ns) x (Directory es) =
     (if ns = [] then Directory (map_insert n x es)
      else case map_of es n of
        None \<Rightarrow> Directory es
      | Some c \<Rightarrow> Directory (map_insert n (put ns x c) es))"
| "put (n # ns) x f = f"

text \<open>The parent is a directory and has no such entry.\<close>

fun can_put :: "string list \<Rightarrow> fso \<Rightarrow> bool" where
  "can_put [] f = False"
| "can_put (n # ns) f =
     (case f of
        Directory es \<Rightarrow>
          (case map_of es n of None \<Rightarrow> ns = [] | Some c \<Rightarrow> can_put ns c)
      | _ \<Rightarrow> False)"

lemma open_walk_can_put:
  "file_ok f \<Longrightarrow> can_put ns f \<Longrightarrow> open_walk (Some c) False ns f = (Inr True, put ns c f)"
proof (induction ns arbitrary: f)
  case (Cons n ns)
  then obtain es where f: "f = Directory es" by (cases f) auto
  show ?case
  proof (cases "map_of es n")
    case None
    with Cons f show ?thesis by (simp add: open_walk_new)
  next
    case (Some d)
    with Cons.prems f have d: "can_put ns d" by simp
    then have "ns \<noteq> []" by auto
    with Cons.IH [OF _ d] Cons.prems(1) f Some file_okD(2) [of es n d] show ?thesis
      by (simp del: file_ok.simps)
  qed
qed simp

lemma can_put_cases:
  assumes "file_ok f" "can_put (n # ns) f"
  obtains (here) es where "f = Directory es" "ns = []" "map_of es n = None" "map_sorted es"
  | (below) es d where "f = Directory es" "ns \<noteq> []" "map_of es n = Some d" "can_put ns d" "file_ok d"
      "map_sorted es"
proof -
  from assms(2) obtain es where f: "f = Directory es" by (cases f) auto
  show thesis
  proof (cases "map_of es n")
    case None
    with f assms that(1) show ?thesis by simp
  next
    case (Some d)
    with f assms(2) have d: "can_put ns d" by simp
    then have "ns \<noteq> []" by auto
    with f d Some assms(1) file_okD(1,2) [of es] that(2) show ?thesis by blast
  qed
qed

lemma map_insert_twice: "map_insert n x (map_insert n y es) = map_insert n x es"
  by (induction n y es rule: map_insert.induct) auto

lemma lookup_put: "file_ok f \<Longrightarrow> can_put ns f \<Longrightarrow> tree_lookup (put ns c f) ns = Some c"
proof (induction ns arbitrary: f)
  case (Cons n ns)
  from Cons.prems show ?case
    by (cases rule: can_put_cases) (simp_all add: Cons.IH)
qed simp

lemma lookup_can_put: "file_ok f \<Longrightarrow> can_put ns f \<Longrightarrow> tree_lookup f ns = None"
proof (induction ns arbitrary: f)
  case (Cons n ns)
  from Cons.prems show ?case
    by (cases rule: can_put_cases) (simp_all add: Cons.IH)
qed simp

lemma update_put: "file_ok f \<Longrightarrow> can_put ns f \<Longrightarrow> update_at ns g (put ns c f) = put ns (g c) f"
proof (induction ns arbitrary: f)
  case (Cons n ns)
  from Cons.prems show ?case
    by (cases rule: can_put_cases) (simp_all add: Cons.IH map_insert_twice)
qed simp

lemma put_ok:
  "file_ok f \<Longrightarrow> can_put ns f \<Longrightarrow> file_ok c \<Longrightarrow> list_all valid_component ns \<Longrightarrow> file_ok (put ns c f)"
proof (induction ns arbitrary: f)
  case (Cons n ns)
  from Cons.prems(1,2) show ?case
  proof (cases rule: can_put_cases)
    case (here es)
    with Cons.prems show ?thesis by (simp add: file_ok_insert del: file_ok.simps)
  next
    case (below es d)
    with Cons.prems Cons.IH [OF below(5,4)] show ?thesis
      by (simp add: file_ok_insert del: file_ok.simps)
  qed
qed simp

text \<open>Adding below a directory just put there is putting the larger directory.\<close>

lemma put_put_child:
  "file_ok f \<Longrightarrow> can_put ns f \<Longrightarrow>
   put (ns @ [n]) c (put ns (Directory es) f) = put ns (Directory (map_insert n c es)) f"
proof (induction ns arbitrary: f)
  case (Cons m ns)
  from Cons.prems show ?case
    by (cases rule: can_put_cases) (simp_all add: Cons.IH map_insert_twice)
qed simp

lemma can_put_child:
  "file_ok f \<Longrightarrow> can_put ns f \<Longrightarrow> map_of es n = None \<Longrightarrow> can_put (ns @ [n]) (put ns (Directory es) f)"
proof (induction ns arbitrary: f)
  case (Cons m ns)
  from Cons.prems(1,2) show ?case
    by (cases rule: can_put_cases) (simp_all add: Cons.IH Cons.prems(3))
qed simp

text \<open>The same on the whole memory, whose root may be missing.\<close>

definition memory_ok :: "memory \<Rightarrow> bool" where
  "memory_ok root \<longleftrightarrow> (case root of None \<Rightarrow> True | Some f \<Rightarrow> file_ok f)"

definition mem_can_put :: "string list \<Rightarrow> memory \<Rightarrow> bool" where
  "mem_can_put ns root \<longleftrightarrow> (case root of None \<Rightarrow> ns = [] | Some f \<Rightarrow> can_put ns f)"

definition mem_put :: "string list \<Rightarrow> fso \<Rightarrow> memory \<Rightarrow> memory" where
  "mem_put ns c root = Some (case root of None \<Rightarrow> c | Some f \<Rightarrow> put ns c f)"

lemma mem_open_put:
  assumes "memory_ok root" "mem_can_put ns root" "list_all valid_component ns"
  shows "mem_open (of_components ns) (Some c) root = (Inr True, mem_put ns c root)"
proof (cases root)
  case None
  with assms isRoot_of_components [OF assms(3)] show ?thesis
    by (simp add: mem_open_def mem_can_put_def mem_put_def)
next
  case (Some f)
  then have "open_walk (Some c) False ns f = (Inr True, put ns c f)"
    using assms by (intro open_walk_can_put) (simp_all add: memory_ok_def mem_can_put_def)
  with Some assms(3) show ?thesis
    by (simp add: mem_open_def mem_put_def)
qed

lemma mem_put_facts:
  assumes "memory_ok root" "mem_can_put ns root" "list_all valid_component ns"
  shows "mem_node (of_components ns) (mem_put ns c root) = Some c"
    "mem_write (of_components ns) g (mem_put ns c root) = (Inr (), mem_put ns (g c) root)"
    "file_ok c \<Longrightarrow> memory_ok (mem_put ns c root)"
    "map_of es n = None \<Longrightarrow> mem_can_put (ns @ [n]) (mem_put ns (Directory es) root)"
    "mem_put (ns @ [n]) c (mem_put ns (Directory es) root) = mem_put ns (Directory (map_insert n c es)) root"
  using assms
  by (cases root; auto simp: mem_node_def mem_put_def mem_write_def memory_ok_def mem_can_put_def
      lookup_put update_put put_ok can_put_child put_put_child)+

subsection \<open>Invariant and frame of open\<close>

lemma open_walk_ok:
  "file_ok cur \<Longrightarrow> list_all valid_component ns \<Longrightarrow> (\<And>c. create = Some c \<Longrightarrow> file_ok c) \<Longrightarrow>
   file_ok (snd (open_walk create newF ns cur))"
proof (induction ns arbitrary: cur newF)
  case Nil
  then show ?case by (simp split: option.splits)
next
  case (Cons n ns)
  show ?case
  proof (cases cur)
    case (Directory es)
    have ins: "file_ok (Directory (map_insert n (snd (open_walk create b ns d)) es))" if "file_ok d" for b d
    proof (rule file_ok_insert)
      show "file_ok (Directory es)" using Cons.prems(1) unfolding Directory .
      show "valid_component n" using Cons.prems(2) by simp
      show "file_ok (snd (open_walk create b ns d))"
        by (rule Cons.IH [OF that]) (use Cons.prems in auto)
    qed
    have new: "file_ok (Directory [])" by (simp add: map_sorted_def)
    show ?thesis
    proof (cases "map_of es n")
      case (Some d)
      with Cons.prems(1) Directory have "file_ok d" using file_okD(2) [of es n d] by simp
      with ins [of d newF] Some Directory show ?thesis by (simp only: open_walk.simps fso.case option.case split_def snd_conv)
    next
      case None
      with ins [OF new, of True] Cons.prems(1) Directory show ?thesis
        by (cases create) (simp_all only: open_walk.simps fso.case option.case split_def snd_conv)
    qed
  qed (use Cons.prems in \<open>auto split: option.splits\<close>)
qed

text \<open>What is there and is no directory is still there afterwards.\<close>

lemma open_walk_frame:
  "file_ok cur \<Longrightarrow> tree_lookup cur ms = Some x \<Longrightarrow> (\<And>es. x \<noteq> Directory es) \<Longrightarrow>
   tree_lookup (snd (open_walk create False ns cur)) ms = Some x"
proof (induction ns arbitrary: cur ms)
  case Nil
  then show ?case by (simp split: option.splits)
next
  case (Cons n ns)
  show ?case
  proof (cases cur)
    case (Directory es)
    have "ms \<noteq> []"
    proof
      assume "ms = []"
      then have "x = Directory es" using Cons.prems(2) Directory by simp
      then show False using Cons.prems(3) by blast
    qed
    then obtain m ms' where m1: "ms = m # ms'" by (cases ms) auto
    then obtain d where m: "ms = m # ms'" "map_of es m = Some d" "tree_lookup d ms' = Some x"
      using Cons.prems(2) Directory by (cases "map_of es m") simp_all
    have ms: "map_sorted es" "file_ok d"
      using Cons.prems(1) m(2) unfolding Directory by (blast dest: file_okD)+
    show ?thesis
    proof (cases "map_of es n")
      case None
      with m ms Directory show ?thesis by (cases create) (auto simp: split_def)
    next
      case (Some e)
      with Cons.prems(1) Directory have "file_ok e" using file_okD(2) [of es n e] by simp
      with Cons.IH [of e ms'] Cons.prems(3) Some m ms Directory show ?thesis
        by (cases "m = n") (auto simp: split_def)
    qed
  qed (use Cons.prems in \<open>auto split: option.splits\<close>)
qed

lemma open_walk_found:
  "file_ok cur \<Longrightarrow> open_walk (Some c) newF ns cur = (r, cur') \<Longrightarrow>
   (r = Inr True \<and> tree_lookup cur' ns \<noteq> None) \<or> (\<exists>e. r = Inl e)"
proof (induction ns arbitrary: cur newF r cur')
  case (Cons n ns)
  show ?case
  proof (cases cur)
    case (Directory es)
    have "map_sorted es" using Cons.prems(1) Directory by simp
    moreover have "file_ok (Directory [])" by (simp add: map_sorted_def)
    ultimately show ?thesis
      using Cons.IH Cons.prems Directory file_okD(2) [of es n]
      by (cases "map_of es n") (fastforce split: prod.splits simp del: file_ok.simps)+
  qed (use Cons.prems in auto)
qed auto

lemma mem_open_ok:
  "memory_ok root \<Longrightarrow> canonical p \<Longrightarrow> (\<And>c. create = Some c \<Longrightarrow> file_ok c) \<Longrightarrow>
   memory_ok (snd (mem_open p create root))"
  using open_walk_ok [of _ "components p" create False]
  by (cases root) (auto simp: mem_open_def memory_ok_def canonical_def split_def split: option.splits)

lemma mem_open_frame:
  "memory_ok root \<Longrightarrow> mem_node q root = Some x \<Longrightarrow> (\<And>es. x \<noteq> Directory es) \<Longrightarrow>
   mem_node q (snd (mem_open p create root)) = Some x"
  using open_walk_frame [of _ "components q" x create "components p"]
  by (cases root) (auto simp: mem_open_def mem_node_def memory_ok_def split_def)

lemma mem_write_ok:
  assumes "memory_ok root" "\<And>x. mem_node p root = Some x \<Longrightarrow> file_ok x \<Longrightarrow> file_ok (g x)"
  shows "memory_ok (snd (mem_write p g root))"
  using assms file_ok_update_at [of _ "components p" g]
  by (cases root) (simp_all add: mem_write_def memory_ok_def mem_node_def)

lemma components_inject: "canonical p \<Longrightarrow> canonical q \<Longrightarrow> components p = components q \<Longrightarrow> p = q"
  by (metis canonical_def)

lemma lookup_leaf_prefix:
  "tree_lookup f ns = Some x \<Longrightarrow> (\<And>es. x \<noteq> Directory es) \<Longrightarrow> tree_lookup f (ns @ m # ms) = None"
proof (induction ns arbitrary: f)
  case Nil
  then show ?case by (cases f) auto
next
  case (Cons n ns)
  then show ?case by (cases f) (auto split: option.splits)
qed

lemma mem_write_frame:
  assumes "memory_ok root" "canonical p" "canonical q" "p \<noteq> q"
    and "mem_node p root = Some y" "\<And>es. y \<noteq> Directory es"
    and "mem_node q root = Some x" "\<And>es. x \<noteq> Directory es"
  shows "mem_node q (snd (mem_write p g root)) = Some x"
proof -
  obtain f where f: "root = Some f" "file_ok f" "tree_lookup f (components p) = Some y"
      "tree_lookup f (components q) = Some x"
    using assms by (cases root) (auto simp: mem_node_def memory_ok_def)
  have "components p \<noteq> components q" using components_inject assms(2,3,4) by blast
  then have "\<not> prefix (components p) (components q)" "\<not> prefix (components q) (components p)"
    using lookup_leaf_prefix [OF f(3) assms(6)] lookup_leaf_prefix [OF f(4) assms(8)] f(3,4)
    by (auto simp: prefix_def) (metis append_Nil2 neq_Nil_conv option.distinct(1))+
  then show ?thesis
    using lookup_update_other [OF f(2)] f by (simp add: mem_write_def mem_node_def)
qed

lemma mem_write_node:
  "memory_ok root \<Longrightarrow> mem_node p root = Some y \<Longrightarrow> mem_node p (snd (mem_write p g root)) = Some (g y)"
  by (cases root) (auto simp: mem_write_def mem_node_def memory_ok_def lookup_update_same)

text \<open>
  \<open>addFile\<close>: when it returns, the file is there with the contents given, the tree is well
  formed, and every other file and symlink is what it was.
\<close>

lemma mem_addFile_facts:
  assumes ok: "memory_ok root" "canonical p" and r: "mem_addFile p c root = (Inr (), root')"
  shows "memory_ok root'" "\<exists>x. mem_node p root' = Some (Regular x c)"
    "canonical q \<Longrightarrow> q \<noteq> p \<Longrightarrow> mem_node q root = Some y \<Longrightarrow> (\<And>es. y \<noteq> Directory es) \<Longrightarrow>
     mem_node q root' = Some y"
proof -
  have dir: "file_ok (Directory [])" "file_ok (Regular False [])" by (simp_all add: map_sorted_def)
  have croot: "canonical cp_root"
    using canonical_of_components [of "[]"] by (simp add: of_components_def cp_root_def)
  define root1 where "root1 = (if root = None \<and> \<not> isRoot p
      then snd (mem_open cp_root (Some (Directory [])) root) else root)"
  obtain root2 x z where 2: "mem_open p (Some (Regular False [])) root1 = (Inr True, root2)"
      "mem_node p root2 = Some (Regular x z)"
      "mem_write p (\<lambda>f. Regular (executable f) c) root2 = (Inr (), root')"
  proof -
    have "mem_open cp_root (Some (Directory [])) None = (Inr True, Some (Directory []))"
      by (simp add: mem_open_def isRoot_def cp_root_def)
    then have "bindM (getS id) (\<lambda>root. if root = None \<and> \<not> isRoot p
        then bindM (mem_open cp_root (Some (Directory []))) (\<lambda>_. ret ()) else ret ()) root = (Inr (), root1)"
      by (auto simp: root1_def)
    from r [unfolded mem_addFile_def seqM_eq_Inr this] obtain found root2 where
      o: "mem_open p (Some (Regular False [])) root1 = (Inr found, root2)" "found"
        "(case mem_node p root2 of Some (Regular x z) \<Rightarrow> mem_write p (\<lambda>f. Regular (executable f) c)
          | _ \<Rightarrow> throw (NotARegularFile ''file %s is not a regular file'')) root2 = (Inr (), root')"
      by (auto simp: bindM_eq_Inr split: if_splits)
    then show ?thesis
      using that by (cases "mem_node p root2"; cases "the (mem_node p root2)") auto
  qed
  have ok1: "memory_ok root1"
  proof -
    have "memory_ok (snd (mem_open cp_root (Some (Directory [])) root))"
      by (rule mem_open_ok [OF ok(1) croot]) (use dir(1) in blast)
    then show ?thesis
      unfolding root1_def using ok(1) by (split if_split) blast
  qed
  have ok2: "memory_ok root2"
    using mem_open_ok [OF ok1 ok(2), of "Some (Regular False [])"] dir 2(1) by simp
  have root': "root' = snd (mem_write p (\<lambda>f. Regular (executable f) c) root2)" using 2(3) by simp
  show "memory_ok root'" unfolding root' by (rule mem_write_ok [OF ok2]) simp
  show "\<exists>x. mem_node p root' = Some (Regular x c)"
    unfolding root' using mem_write_node [OF ok2 2(2)] by simp
  assume q: "canonical q" "q \<noteq> p" "mem_node q root = Some y" "\<And>es. y \<noteq> Directory es"
  then have "mem_node q root1 = Some y" by (auto simp: root1_def mem_node_def)
  then have "mem_node q root2 = Some y"
    using mem_open_frame [OF ok1 _ q(4), of q p "Some (Regular False [])"] 2(1) by simp
  then show "mem_node q root' = Some y"
    unfolding root' using mem_write_frame [OF ok2 ok(2) q(1) _ 2(2)] q(2,4) by blast
qed

subsection \<open>Properties\<close>


lemma foo_components:
  "components (CanonPath ''/foo'') = [''foo'']" "components (CanonPath ''/foobar'') = [''foobar'']"
  using components_of_components [of "[''foo'']"] components_of_components [of "[''foobar'']"]
  by (simp_all add: of_components_def valid_component_def good_component_def)


lemma mem_file_put:
  assumes "memory_ok root" "mem_can_put ns root" "list_all valid_component ns" "file_ok c"
  shows "mem_file (of_components ns) (mem_put ns c root) = Inr c"
proof -
  have "memory_ok (mem_put ns c root)" "mem_node (of_components ns) (mem_put ns c root) = Some c"
    using mem_put_facts(1,3) assms by blast+
  then show ?thesis
    using mem_file_Some [of "mem_put ns c root" _ "of_components ns" c]
    by (simp add: memory_ok_def mem_node_def mem_put_def)
qed



end
