(* ===== verification/Archive.thy ===== *)
theory Archive
  imports MemoryAccessor
begin

text \<open>
  The NAR format (\<open>libutil/archive.cc\<close>): \<open>SourceAccessor::dumpPath\<close>, which writes a file
  system object to a sink, and \<open>parseDump\<close>, which reads one from a source and builds it
  through a \<open>FileSystemObjectSink\<close>.  The virtual functions of the two interfaces are the
  fields of a record.  \<open>nar\<close> is the format as a function; \<open>checkInterrupt\<close> is left out.
\<close>

subsection \<open>The accessor interface\<close>

record 'k source_accessor =
  acc_maybeLstat :: "CanonPath \<Rightarrow> exn + Stat option"
  acc_readFile :: "CanonPath \<Rightarrow> 'k sink \<Rightarrow> (64 word \<Rightarrow> ('k, unit) M) \<Rightarrow> ('k, unit) M"
  acc_readDirectory :: "CanonPath \<Rightarrow> exn + (string \<times> file_type option) list"
  acc_readLink :: "CanonPath \<Rightarrow> exn + string"

definition acc_lstat :: "'k source_accessor \<Rightarrow> CanonPath \<Rightarrow> exn + Stat" where
  "acc_lstat acc path =
     bindE (acc_maybeLstat acc path) (\<lambda>st.
       case st of Some st \<Rightarrow> Inr st | None \<Rightarrow> Inl (FileNotFound ''path %s does not exist''))"

definition memory_accessor :: "memory \<Rightarrow> 'k source_accessor" where
  "memory_accessor root =
     \<lparr> acc_maybeLstat = mem_maybeLstat root, acc_readFile = mem_readFile root,
       acc_readDirectory = mem_readDirectory root, acc_readLink = mem_readLink root \<rparr>"

subsection \<open>Dumping\<close>

definition narMaxDepth :: nat where
  "narMaxDepth = 64"

definition narVersionMagic1 :: string where
  "narVersionMagic1 = ''nix-archive-1''"

text \<open>\<open>dumpContents\<close>: the size callback stores the size, which the assertion then looks at.\<close>

definition dumpContents :: "('k \<times> 64 word option) source_accessor \<Rightarrow> 'k sink \<Rightarrow> CanonPath \<Rightarrow> ('k, unit) M" where
  "dumpContents acc sink path =
     seqM (writeString sink ''contents'')
       (\<lambda>k. case acc_readFile acc path (\<lambda>data. onL (sink data))
                  (\<lambda>n. seqM (onR (modS (\<lambda>_. Some n))) (onL (write_u64 sink n))) (k, None) of
          (Inl e, (k, _)) \<Rightarrow> (Inl e, k)
        | (Inr _, (k, None)) \<Rightarrow> (Inl (Abort ''size''), k)
        | (Inr _, (k, Some n)) \<Rightarrow> writePadding sink (unat n) k)"

lemma forM_cong [fundef_cong]:
  "xs = ys \<Longrightarrow> (\<And>x. x \<in> set ys \<Longrightarrow> f x = g x) \<Longrightarrow> forM f xs = forM g ys"
proof -
  have "(\<And>x. x \<in> set ys \<Longrightarrow> f x = g x) \<Longrightarrow> forM f ys = forM g ys" by (induction ys) auto
  then show "xs = ys \<Longrightarrow> (\<And>x. x \<in> set ys \<Longrightarrow> f x = g x) \<Longrightarrow> forM f xs = forM g ys" by simp
qed

definition writeAll :: "'k sink \<Rightarrow> string list \<Rightarrow> ('k, unit) M" where
  "writeAll sink ss = forM (writeString sink) ss"

function dump :: "('k \<times> 64 word option) source_accessor \<Rightarrow> 'k sink \<Rightarrow> CanonPath \<Rightarrow> nat \<Rightarrow> ('k, unit) M" where
  "dump acc sink path depth =
     (if narMaxDepth \<le> depth then throw (Error ''path %s exceeds maximum NAR directory depth of %d'')
      else bindM (liftE (acc_lstat acc path)) (\<lambda>st.
        seqM (writeString sink ''('')
          (seqM
            (case st_type st of
               tRegular \<Rightarrow>
                 seqM (writeAll sink [''type'', ''regular''])
                   (seqM (if isExecutable st then writeAll sink [''executable'', ''''] else ret ())
                     (dumpContents acc sink path))
             | tDirectory \<Rightarrow>
                 seqM (writeAll sink [''type'', ''directory''])
                   (bindM (liftE (acc_readDirectory acc path)) (\<lambda>entries.
                     forM (\<lambda>(name, _).
                         seqM (writeAll sink [''entry'', ''('', ''name'', name, ''node''])
                           (bindM (liftE (push path name)) (\<lambda>child.
                              seqM (dump acc sink child (depth + 1)) (writeString sink '')''))))
                       (filter (\<lambda>(_, t). \<not> (t = Some tFifo \<or> t = Some tSocket)) entries)))
             | tSymlink \<Rightarrow>
                 seqM (writeAll sink [''type'', ''symlink'', ''target''])
                   (bindM (liftE (acc_readLink acc path)) (writeString sink))
             | _ \<Rightarrow> throw (Error ''file %s has an unsupported type''))
            (writeString sink '')''))))"
  by pat_completeness auto
termination
  by (relation "measure (\<lambda>(_, _, _, depth). narMaxDepth - depth)") auto

declare dump.simps [simp del]

definition dumpPath :: "('k \<times> 64 word option) source_accessor \<Rightarrow> CanonPath \<Rightarrow> 'k sink \<Rightarrow> ('k, unit) M" where
  "dumpPath acc path sink =
     seqM (writeString sink narVersionMagic1) (dump acc sink path 0)"

text \<open>\<open>hashPath\<close>: the digest of the dump.\<close>

definition hashPath ::
  "'c sha256_api \<Rightarrow> ((buffered_sink \<times> 'c hash_state) \<times> 64 word option) source_accessor \<Rightarrow> CanonPath \<Rightarrow>
   exn + (Hash \<times> 64 word)" where
  "hashPath sha acc path =
     fst (seqM (dumpPath acc path (HashSink sha)) (HashSink_finish sha) (HashSink_new sha))"

subsection \<open>Parsing\<close>

text \<open>
  The interface of \<open>FileSystemObjectSink\<close> and \<open>CreateRegularFileSink\<close>.  \<open>'d\<close> is a sink
  object (\<open>createDirectory\<close> hands one for the new directory to its callback), \<open>'f\<close> the sink
  of a file's contents, \<open>'t\<close> the state they work on.  The two operations with a callback
  are split into what happens before and after it.
\<close>

record ('d, 'f, 't) fso_sink =
  createDirectory :: "'d \<Rightarrow> CanonPath \<Rightarrow> ('t, 'd \<times> CanonPath) M"
  closeDirectory :: "'d \<Rightarrow> CanonPath \<Rightarrow> 'd \<Rightarrow> ('t, unit) M"
  openRegular :: "'d \<Rightarrow> CanonPath \<Rightarrow> ('t, 'f) M"
  crf_isExecutable :: "'f \<Rightarrow> ('t, unit) M"
  crf_preallocate :: "'f \<Rightarrow> 64 word \<Rightarrow> ('t, unit) M"
  crf_skipContents :: "'f \<Rightarrow> bool"
  crf_write :: "'f \<Rightarrow> 't sink"
  closeRegular :: "'d \<Rightarrow> CanonPath \<Rightarrow> 'f \<Rightarrow> ('t, unit) M"
  createSymlink :: "'d \<Rightarrow> CanonPath \<Rightarrow> string \<Rightarrow> ('t, unit) M"

record 's source_ops =
  src_read :: "'s source"
  src_skip :: "nat \<Rightarrow> ('s, unit) M"

definition narMaxTag :: "64 word" where
  "narMaxTag = 32"

definition narMaxName :: "64 word" where
  "narMaxName = 255"

definition narMaxTarget :: "64 word" where
  "narMaxTarget = 4095"

definition badArchive :: "string \<Rightarrow> exn" where
  "badArchive s = SerialisationError (''bad archive: '' @ s)"

text \<open>\<open>min(left, SIZE_MAX)\<close> is \<open>left\<close> where \<open>size_t\<close> has 64 bits: the skip loop runs at most once.\<close>

definition parseContents :: "('d, 'f, 't) fso_sink \<Rightarrow> 's source_ops \<Rightarrow> 'f \<Rightarrow> ('s \<times> 't, unit) M" where
  "parseContents snk src f =
     bindM (onL (readLongLong (src_read src))) (\<lambda>sz.
     seqM (onR (crf_preallocate snk f sz))
       (if crf_skipContents snk f then
          bindM (liftE (alignUp sz 8)) (\<lambda>left.
            if left = 0 then ret () else onL (src_skip src (unat left)))
        else
          seqM (drainInto_len (unat sz) (src_read src) (crf_write snk f) (unat sz))
            (onL (readPadding (unat sz) (src_read src)))))"

definition getString :: "'s source_ops \<Rightarrow> 64 word \<Rightarrow> ('s \<times> 't, string) M" where
  "getString src m = onL (readString m (src_read src))"

definition expectTag :: "'s source_ops \<Rightarrow> string \<Rightarrow> ('s \<times> 't, unit) M" where
  "expectTag src expected =
     bindM (getString src narMaxTag) (\<lambda>tag.
       if tag \<noteq> expected then throw (badArchive ''expected tag %s, got %s'') else ret ())"

text \<open>The callback for a regular file, and the case of a regular file around it.\<close>

definition parse_regular_body :: "('d, 'f, 't) fso_sink \<Rightarrow> 's source_ops \<Rightarrow> 'f \<Rightarrow> ('s \<times> 't, unit) M" where
  "parse_regular_body snk src crf =
     bindM (getString src narMaxTag) (\<lambda>tag.
     bindM
       (if tag = ''executable'' then
          bindM (getString src 0) (\<lambda>s2.
            if s2 \<noteq> [] then throw (badArchive ''executable marker has non-empty value'')
            else seqM (onR (crf_isExecutable snk crf)) (getString src narMaxTag))
        else ret tag) (\<lambda>tag.
     if tag \<noteq> ''contents'' then throw (badArchive ''expected tag 'contents', got %s'')
     else seqM (parseContents snk src crf) (expectTag src '')'')))"

definition parse_regular ::
  "('d, 'f, 't) fso_sink \<Rightarrow> 's source_ops \<Rightarrow> 'd \<Rightarrow> CanonPath \<Rightarrow> ('s \<times> 't, unit) M" where
  "parse_regular snk src d path =
     bindM (onR (openRegular snk d path)) (\<lambda>crf.
     seqM (parse_regular_body snk src crf) (onR (closeRegular snk d path crf)))"

definition parse_symlink ::
  "('d, 'f, 't) fso_sink \<Rightarrow> 's source_ops \<Rightarrow> 'd \<Rightarrow> CanonPath \<Rightarrow> ('s \<times> 't, unit) M" where
  "parse_symlink snk src d path =
     seqM (expectTag src ''target'')
       (bindM (getString src narMaxTarget) (\<lambda>t.
          if t = [] \<or> CHR 0x00 \<in> set t then throw (badArchive ''NAR contains invalid symlink target'')
          else seqM (onR (createSymlink snk d path t)) (expectTag src '')'')))"

text \<open>The head of a directory entry: \<open>None\<close> when the directory ends, or the checked name.\<close>

definition parse_entry_name :: "'s source_ops \<Rightarrow> string \<Rightarrow> ('s \<times> 't, string option) M" where
  "parse_entry_name src prevName =
     bindM (getString src narMaxTag) (\<lambda>tag.
       if tag = '')'' then ret None
       else if tag \<noteq> ''entry'' then throw (badArchive ''expected tag 'entry' or ')', got %s'')
       else
         seqM (expectTag src ''('')
           (seqM (expectTag src ''name'')
             (bindM (getString src narMaxName) (\<lambda>name.
               if name = [] \<or> name = ''.'' \<or> name = ''..'' \<or> CHR ''/'' \<in> set name \<or> CHR 0x00 \<in> set name
               then throw (badArchive ''NAR contains invalid file name %1%'')
               else if name \<le> prevName then throw (badArchive ''NAR directory is not sorted'')
               else seqM (expectTag src ''node'') (ret (Some name))))))"

text \<open>\<open>parse\<close> and the loop over the entries of a directory; both use a unit of fuel.\<close>

fun parse ::
  "nat \<Rightarrow> ('d, 'f, 't) fso_sink \<Rightarrow> 's source_ops \<Rightarrow> 'd \<Rightarrow> CanonPath \<Rightarrow> nat \<Rightarrow> ('s \<times> 't, unit) M"
and parse_entries ::
  "nat \<Rightarrow> ('d, 'f, 't) fso_sink \<Rightarrow> 's source_ops \<Rightarrow> 'd \<Rightarrow> CanonPath \<Rightarrow> nat \<Rightarrow> string \<Rightarrow> ('s \<times> 't, unit) M"
where
  "parse 0 snk src d path depth = throw Diverge"
| "parse (Suc fuel) snk src d path depth =
     (if narMaxDepth \<le> depth then throw (badArchive ''NAR directory nesting exceeds maximum depth of %d'')
      else
        seqM (expectTag src ''('')
          (seqM (expectTag src ''type'')
            (bindM (getString src narMaxTag) (\<lambda>ty.
              if ty = ''regular'' then parse_regular snk src d path
              else if ty = ''directory'' then
                bindM (onR (createDirectory snk d path)) (\<lambda>(dirSink, relDirPath).
                seqM (parse_entries fuel snk src dirSink relDirPath depth [])
                  (onR (closeDirectory snk d path dirSink)))
              else if ty = ''symlink'' then parse_symlink snk src d path
              else throw (badArchive ''unknown file type %s'')))))"
| "parse_entries 0 snk src d path depth prevName = throw Diverge"
| "parse_entries (Suc fuel) snk src d path depth prevName =
     bindM (parse_entry_name src prevName) (\<lambda>entry.
       case entry of
         None \<Rightarrow> ret ()
       | Some name \<Rightarrow>
           bindM (liftE (push path name)) (\<lambda>child.
           seqM (parse fuel snk src d child (depth + 1))
             (seqM (expectTag src '')'')
               (parse_entries fuel snk src d path depth name))))"

declare parse.simps [simp del] parse_entries.simps [simp del]

definition parseDump ::
  "nat \<Rightarrow> ('d, 'f, 't) fso_sink \<Rightarrow> 's source_ops \<Rightarrow> 'd \<Rightarrow> ('s \<times> 't, unit) M" where
  "parseDump fuel snk src d =
     bindM (catchM (getString src (word_of_nat (length narVersionMagic1)))
         (\<lambda>e. case e of SerialisationError _ \<Rightarrow> ret [] | _ \<Rightarrow> throw e)) (\<lambda>version.
       if version \<noteq> narVersionMagic1 then throw (badArchive ''input doesn't look like a Nix archive'')
       else parse fuel snk src d cp_root 0)"

text \<open>\<open>MemorySink\<close> as such a sink: one object, and nothing to do after the callbacks.\<close>

definition MemorySink :: "(unit, CanonPath, memory) fso_sink" where
  "MemorySink =
     \<lparr> createDirectory = (\<lambda>_ path. seqM (MemorySink_createDirectory path) (ret ((), path))),
       closeDirectory = (\<lambda>_ _ _. ret ()),
       openRegular = (\<lambda>_. MemorySink_openRegular),
       crf_isExecutable = CreateMemoryRegularFile_isExecutable,
       crf_preallocate = CreateMemoryRegularFile_preallocate,
       crf_skipContents = (\<lambda>_. False),
       crf_write = CreateMemoryRegularFile_write,
       closeRegular = (\<lambda>_ _ _. ret ()),
       createSymlink = (\<lambda>_. MemorySink_createSymlink) \<rparr>"

subsection \<open>The format as a function\<close>

definition wires :: "string list \<Rightarrow> string" where
  "wires ss = concat (map wire ss)"

fun nar_node :: "fso \<Rightarrow> string" where
  "nar_node (Regular x c) =
     wires [''('', ''type'', ''regular''] @ (if x then wires [''executable'', ''''] else []) @
     wires [''contents'', c, '')'']"
| "nar_node (Directory es) =
     wires [''('', ''type'', ''directory''] @
     concat (map (\<lambda>(n, c). wires [''entry'', ''('', ''name'', n, ''node''] @ nar_node c @ wire '')'') es) @
     wire '')''"
| "nar_node (Symlink t) = wires [''('', ''type'', ''symlink'', ''target'', t, '')'']"

definition nar :: "fso \<Rightarrow> string" where
  "nar t = wire narVersionMagic1 @ nar_node t"

text \<open>The number of levels of a tree.\<close>

fun levels :: "fso \<Rightarrow> nat" where
  "levels (Directory es) = Suc (foldr (\<lambda>(_, c) m. max (levels c) m) es 0)"
| "levels _ = 1"

lemma levels_child: "(n, c) \<in> set es \<Longrightarrow> levels c < levels (Directory es)"
  by (induction es) (auto simp: less_Suc_eq_le le_max_iff_disj)

lemma levels_pos: "0 < levels t"
  by (cases t) simp_all

text \<open>What a memory accessor says of a path inside its tree.\<close>

lemma memory_accessor_sel [simp]:
  "acc_maybeLstat (memory_accessor root) = mem_maybeLstat root"
  "acc_readFile (memory_accessor root) = mem_readFile root"
  "acc_readDirectory (memory_accessor root) = mem_readDirectory root"
  "acc_readLink (memory_accessor root) = mem_readLink root"
  by (simp_all add: memory_accessor_def)

lemma memory_lstat:
  assumes "file_ok f" "tree_lookup f (components path) = Some x"
  shows "acc_lstat (memory_accessor (Some f)) path = Inr (file_lstat x)"
proof -
  obtain r f' where w: "open_walk None False (components path) f = (r, f')" by fastforce
  with open_walk_None [OF assms(1) w] assms(2) show ?thesis
    by (simp add: acc_lstat_def mem_maybeLstat_def mem_open_def mem_node_def)
qed

lemma tree_lookup_append:
  "tree_lookup f ns = Some x \<Longrightarrow> tree_lookup f (ns @ ms) = tree_lookup x ms"
proof (induction ns arbitrary: f)
  case (Cons n ns)
  then show ?case by (cases f) (auto split: option.splits)
qed simp

lemma file_ok_lookup: "file_ok f \<Longrightarrow> tree_lookup f ns = Some x \<Longrightarrow> file_ok x"
proof (induction ns arbitrary: f)
  case (Cons n ns)
  from Cons.prems(2) obtain es c where "f = Directory es" "map_of es n = Some c" "tree_lookup c ns = Some x"
    by (cases f) (auto split: option.splits)
  with Cons.IH [of c] Cons.prems(1) show ?case by (blast dest: file_okD)
qed simp

lemma forM_map: "forM f (map g xs) = forM (\<lambda>x. f (g x)) xs"
  by (induction xs) simp_all

lemma canonical_push:
  assumes "canonical p" "valid_component n"
  shows "\<exists>q. push p n = Inr q \<and> canonical q \<and> components q = components p @ [n]"
proof -
  obtain cs where cs: "list_all valid_component cs" "p = of_components cs" "components p = cs"
    using assms(1) by (rule canonicalE)
  then have "list_all valid_component (cs @ [n])" using assms(2) by simp
  with cs assms(2) show ?thesis
    using push_components [of cs n] canonical_of_components [of "cs @ [n]"] by simp
qed

lemma padding_u64: "padding (unat (word_of_nat n :: 64 word)) = padding n"
proof -
  have "n mod 2 ^ 64 mod 8 = n mod 8" by (simp add: mod_mod_cancel)
  then show ?thesis by (simp add: padding_def unat_of_nat)
qed

text \<open>
  The contract of an accessor that shows a tree: what it says of a path inside of the tree.  The
  contents of a file may be given to the sink in pieces.
\<close>

locale tree_accessor =
  fixes acc :: "'k source_accessor" and shown :: "fso \<Rightarrow> bool"
  assumes shown_ok: "shown f \<Longrightarrow> file_ok f"
    and lstat_node: "shown f \<Longrightarrow> canonical p \<Longrightarrow> tree_lookup f (components p) = Some x \<Longrightarrow>
      acc_lstat acc p = Inr (file_lstat x)"
    and read_dir: "shown f \<Longrightarrow> canonical p \<Longrightarrow> tree_lookup f (components p) = Some (Directory es) \<Longrightarrow>
      acc_readDirectory acc p = Inr (map (\<lambda>(n, c). (n, Some (st_type (file_lstat c)))) es)"
    and read_link: "shown f \<Longrightarrow> canonical p \<Longrightarrow> tree_lookup f (components p) = Some (Symlink g) \<Longrightarrow> acc_readLink acc p = Inr g"
    and read_file: "shown f \<Longrightarrow> canonical p \<Longrightarrow> tree_lookup f (components p) = Some (Regular b c) \<Longrightarrow> length c < 2 ^ 64 \<Longrightarrow>
      byte_sink has snk \<Longrightarrow> cb (word_of_nat (length c)) k = (Inr (), k1) \<Longrightarrow> has k1 v \<Longrightarrow>
      \<exists>t. acc_readFile acc p snk cb k = (Inr (), t) \<and> has t (v @ c)"

definition memory_shows :: "fso \<Rightarrow> fso \<Rightarrow> bool" where
  "memory_shows f x \<longleftrightarrow> x = f \<and> file_ok f"

interpretation memory_tree: tree_accessor "memory_accessor (Some f)" "memory_shows f" for f
proof (unfold_locales, goal_cases)
  case (1 x)
  then show ?case by (simp add: memory_shows_def)
next
  case (2 x p y)
  then show ?case by (simp add: memory_shows_def memory_lstat)
next
  case (3 x p es)
  then show ?case using mem_file_Some [OF refl, of f p] by (simp add: mem_readDirectory_def memory_shows_def)
next
  case (4 x p g)
  then show ?case using mem_file_Some [OF refl, of f p] by (simp add: mem_readLink_def memory_shows_def)
next
  case (5 x p b c has snk cb k k1 v)
  obtain t where "snk c k1 = (Inr (), t)" "has t (v @ c)" using byte_sink.accepts [OF 5(5,7)] by blast
  then show ?case
    using 5 mem_file_Some [OF refl, of f p] by (simp add: mem_readFile_def memory_shows_def)
qed

text \<open>Dumping: an accessor that shows a tree and a byte sink.\<close>

locale tree_dump = byte_sink has sink + tree_accessor acc shown
  for has :: "'k \<Rightarrow> string \<Rightarrow> bool" and sink :: "'k sink" and acc :: "('k \<times> 64 word option) source_accessor"
    and shown :: "fso \<Rightarrow> bool"

context byte_sink
begin

lemma writes_all: "writes (writeAll sink ss) (wires ss)"
  unfolding writeAll_def wires_def by (intro writes_forM writes_string)

lemma writes_lift: "r = Inr x \<Longrightarrow> writes (f x) d \<Longrightarrow> writes (bindM (liftE r) f) d"
  by (simp add: writes_def)

lemma sized_sink: "byte_sink (\<lambda>s v. has (fst s) v \<and> snd s = Some n) (\<lambda>data. onL (sink data))"
proof
  fix s w data assume h: "has (fst s) w \<and> snd s = Some n"
  obtain t where "sink data (fst s) = (Inr (), t)" "has t (w @ data)" using accepts h by blast
  then show "\<exists>t. onL (sink data) s = (Inr (), t) \<and> has (fst t) (w @ data) \<and> snd t = Some n"
    using h by (cases s) simp
qed

end

context tree_dump
begin

lemma writes_contents:
  assumes "shown f" "canonical path" "tree_lookup f (components path) = Some (Regular x c)" "length c < 2 ^ 64"
  shows "writes (dumpContents acc sink path) (wires [''contents'', c])"
  unfolding writes_def
proof (intro allI impI)
  let ?n = "word_of_nat (length c) :: 64 word"
  fix k0 v assume "has k0 v"
  then obtain k w where k: "writeString sink ''contents'' k0 = (Inr (), k)" "has k w" "w = v @ wire ''contents''"
    using writes_string unfolding writes_def by blast
  obtain k1 where 1: "write_u64 sink ?n k = (Inr (), k1)" "has k1 (w @ le64 ?n)"
    using writes_u64 k(2) unfolding writes_def by blast
  let ?cb = "\<lambda>n. seqM (onR (modS (\<lambda>_. Some n))) (onL (write_u64 sink n))"
  have cb: "?cb ?n (k, None) = (Inr (), (k1, Some ?n))" using 1(1) by (simp add: run)
  obtain k2 where 2: "acc_readFile acc path (\<lambda>data. onL (sink data)) ?cb (k, None) = (Inr (), (k2, Some ?n))"
      "has k2 ((w @ le64 ?n) @ c)"
    using read_file [where cb = ?cb and v = "w @ le64 ?n", OF assms sized_sink cb] 1(2) by auto
  obtain k3 where 3: "writePadding sink (unat ?n) k2 = (Inr (), k3)" "has k3 (((w @ le64 ?n) @ c) @ padding (length c))"
    using writes_padding 2(2) padding_u64 unfolding writes_def by metis
  have "v @ wires [''contents'', c] = ((w @ le64 ?n) @ c) @ padding (length c)"
    by (simp add: wires_def k(3) wire_def [of c])
  with 2 3 k show "\<exists>t. dumpContents acc sink path k0 = (Inr (), t) \<and> has t (v @ wires [''contents'', c])"
    by (simp add: dumpContents_def)
qed

end

context byte_sink
begin

lemma writes_dump_step:
  assumes "depth < 64" "acc_lstat acc path = Inr st"
    and "writes
            (case st_type st of
               tRegular \<Rightarrow>
                 seqM (writeAll sink [''type'', ''regular''])
                   (seqM (if isExecutable st then writeAll sink [''executable'', ''''] else ret ())
                     (dumpContents acc sink path))
             | tDirectory \<Rightarrow>
                 seqM (writeAll sink [''type'', ''directory''])
                   (bindM (liftE (acc_readDirectory acc path)) (\<lambda>entries.
                     forM (\<lambda>(name, _).
                         seqM (writeAll sink [''entry'', ''('', ''name'', name, ''node''])
                           (bindM (liftE (push path name)) (\<lambda>child.
                              seqM (dump acc sink child (depth + 1)) (writeString sink '')''))))
                       (filter (\<lambda>(_, t). \<not> (t = Some tFifo \<or> t = Some tSocket)) entries)))
             | tSymlink \<Rightarrow>
                 seqM (writeAll sink [''type'', ''symlink'', ''target''])
                   (bindM (liftE (acc_readLink acc path)) (writeString sink))
             | _ \<Rightarrow> throw (Error ''file %s has an unsupported type'')) d"
  shows "writes (dump acc sink path depth) (wire ''('' @ d @ wire '')'')"
proof -
  have d: "(narMaxDepth \<le> depth) = False" using assms(1) by (simp add: narMaxDepth_def)
  show ?thesis
    unfolding dump.simps [of acc sink path depth] d if_False
    by (intro writes_lift [OF assms(2)] writes_seq writes_string assms(3))
qed

end

text \<open>Dumping a tree of no more levels than allowed, and no file of 16 EiB, writes its NAR.\<close>

fun small :: "fso \<Rightarrow> bool" where
  "small (Regular x c) \<longleftrightarrow> length c < 2 ^ 64"
| "small (Symlink g) \<longleftrightarrow> True"
| "small (Directory es) \<longleftrightarrow> list_all (\<lambda>(n, c). small c) es"

context tree_dump
begin

lemma writes_dump:
  assumes "shown f" "canonical path" "tree_lookup f (components path) = Some x"
    and "depth + levels x \<le> 64" "small x"
  shows "writes (dump acc sink path depth) (nar_node x)"
  using assms(2-)
proof (induction x arbitrary: path depth)
  case (Regular b c)
  have eq: "nar_node (Regular b c) = wire ''('' @ (wires [''type'', ''regular''] @
      (if b then wires [''executable'', ''''] else []) @ wires [''contents'', c]) @ wire '')''"
    by (simp add: wires_def)
  have ex: "writes (if b then writeAll sink [''executable'', ''''] else ret ())
      (if b then wires [''executable'', ''''] else [])"
    by (cases b) (simp_all add: writes_all writes_ret)
  show ?case
    unfolding eq
    by (rule writes_dump_step [OF _ lstat_node [OF assms(1) Regular(1,2)]])
       (use Regular(3) in simp,
        simp only: file_lstat_def fso.case Stat.simps file_type.case,
        intro writes_seq writes_all ex writes_contents [OF assms(1) Regular(1,2)] Regular(4) [unfolded small.simps])
next
  case (Symlink t)
  have eq: "nar_node (Symlink t) = wire ''('' @ (wires [''type'', ''symlink'', ''target''] @ wire t) @ wire '')''"
    by (simp add: wires_def)
  have rl: "acc_readLink acc path = Inr t" by (rule read_link [OF assms(1) Symlink(1,2)])
  show ?case
    unfolding eq
    by (intro writes_dump_step [OF _ lstat_node [OF assms(1) Symlink(1,2)]])
       (use Symlink(3) in simp,
        simp only: file_lstat_def fso.case Stat.simps file_type.case,
        intro writes_seq writes_all writes_lift [OF rl] writes_string)
next
  case (Directory es)
  define g where "g = (\<lambda>(n, c). wires [''entry'', ''('', ''name'', n, ''node''] @ nar_node c @ wire '')'')"
  have eq: "nar_node (Directory es) = wire ''('' @ (wires [''type'', ''directory''] @ concat (map g es)) @ wire '')''"
    by (simp add: wires_def g_def)
  define entries where "entries = map (\<lambda>(n, c). (n, Some (st_type (file_lstat c)))) es"
  have rd: "acc_readDirectory acc path = Inr entries"
    unfolding entries_def by (rule read_dir [OF assms(1) Directory(2,3)])
  have keep: "filter (\<lambda>(_, t). \<not> (t = Some tFifo \<or> t = Some tSocket)) entries = entries"
    by (auto simp: filter_id_conv entries_def file_lstat_def split: fso.splits)
  have ok: "file_ok (Directory es)" using file_ok_lookup [OF shown_ok [OF assms(1)] Directory(3)] .
  have child: "writes (seqM (writeAll sink [''entry'', ''('', ''name'', n, ''node''])
        (bindM (liftE (push path n)) (\<lambda>child.
          seqM (dump acc sink child (depth + 1)) (writeString sink '')'')))) (g (n, c))"
    if "(n, c) \<in> set es" for n c
  proof -
    have m: "map_of es n = Some c" "valid_component n"
      using ok that map_sorted_unique [of es n c] by (auto simp: list_all_iff)
    obtain q where q: "push path n = Inr q" "canonical q" "components q = components path @ [n]"
      using canonical_push [OF Directory(2) m(2)] by blast
    have "tree_lookup f (components q) = Some c"
      using tree_lookup_append [OF Directory(3)] m q by simp
    moreover have "Suc depth + levels c \<le> 64" "small c"
      using levels_child [OF that] Directory(4,5) that by (auto simp: list_all_iff)
    ultimately have "writes (dump acc sink q (depth + 1)) (nar_node c)"
      using Directory(1) [OF that _ q(2), of c "Suc depth"] by simp
    then show ?thesis
      unfolding g_def prod.case
      by (intro writes_seq writes_all writes_lift [OF q(1)] writes_string)
  qed
  have all: "writes (forM (\<lambda>(name, _). seqM (writeAll sink [''entry'', ''('', ''name'', name, ''node''])
        (bindM (liftE (push path name)) (\<lambda>child.
          seqM (dump acc sink child (depth + 1)) (writeString sink '')''))))
      (filter (\<lambda>(_, t). \<not> (t = Some tFifo \<or> t = Some tSocket)) entries)) (concat (map g es))"
    unfolding keep unfolding entries_def forM_map
  proof (rule writes_forM)
    fix e assume e: "e \<in> set es"
    obtain n c where nc: "e = (n, c)" by fastforce
    show "writes (case case e of (n, c) \<Rightarrow> (n, Some (st_type (file_lstat c))) of
        (name, _) \<Rightarrow> seqM (writeAll sink [''entry'', ''('', ''name'', name, ''node''])
          (bindM (liftE (push path name)) (\<lambda>child.
            seqM (dump acc sink child (depth + 1)) (writeString sink '')'')))) (g e)"
      unfolding nc prod.case by (rule child) (use e nc in simp)
  qed
  have "depth < 64" using Directory(4) by simp
  then show ?case
    unfolding eq
    by (intro writes_dump_step [OF _ lstat_node [OF assms(1) Directory(2,3)]])
       (simp_all only: file_lstat_def fso.case Stat.simps file_type.case,
        intro writes_seq writes_all writes_lift [OF rd] all)
qed

lemma writes_dumpPath:
  assumes "shown x" "levels x \<le> 64" "small x"
  shows "writes (dumpPath acc cp_root sink) (nar x)"
proof -
  have "canonical cp_root" "components cp_root = []"
    using canonical_of_components [of "[]"] components_of_components [of "[]"] by (simp_all add: of_components_def cp_root_def)
  then have "writes (dump acc sink cp_root 0) (nar_node x)" using assms by (intro writes_dump) simp_all
  then show ?thesis unfolding dumpPath_def nar_def by (intro writes_seq writes_string)
qed

end

interpretation memory_to_string: tree_dump "(=)" StringSink "memory_accessor (Some f)" "memory_shows f" for f
  by intro_locales

interpretation memory_to_hash: tree_dump "buffered_has (hashed sha)" "HashSink sha" "memory_accessor (Some f)" "memory_shows f" for sha f
  unfolding HashSink_def by intro_locales

subsection \<open>The contract of a file system object sink\<close>

text \<open>
  \<open>here d p x t0 t\<close>: the state \<open>t\<close> is \<open>t0\<close> with \<open>x\<close> at the path \<open>p\<close> of the sink object \<open>d\<close>
  (\<open>None\<close>: nothing is there yet, and something may be created).  \<open>in_dir\<close>: the directory
  with these entries so far is open there, and its own sink object and path are the next two
  arguments.  \<open>in_file\<close>: the file with these contents so far is open there.
\<close>

locale tree_sink =
  fixes snk :: "('d, 'f, 't) fso_sink"
    and here :: "'d \<Rightarrow> CanonPath \<Rightarrow> fso option \<Rightarrow> 't \<Rightarrow> 't \<Rightarrow> bool"
    and in_dir :: "'d \<Rightarrow> CanonPath \<Rightarrow> (string \<times> fso) list \<Rightarrow> 't \<Rightarrow> 'd \<Rightarrow> CanonPath \<Rightarrow> 't \<Rightarrow> bool"
    and in_file :: "'d \<Rightarrow> CanonPath \<Rightarrow> bool \<Rightarrow> string \<Rightarrow> 't \<Rightarrow> 'f \<Rightarrow> 't \<Rightarrow> bool"
  assumes mkdir: "here d p None t0 t \<Longrightarrow>
      \<exists>d' p' t'. createDirectory snk d p t = (Inr (d', p'), t') \<and> in_dir d p [] t0 d' p' t'"
    and child: "in_dir d p es t0 d' p' t \<Longrightarrow> valid_component n \<Longrightarrow> \<forall>m\<in>fst ` set es. m < n \<Longrightarrow>
      \<exists>q. push p' n = Inr q \<and> here d' q None t t"
    and child_done: "in_dir d p es t0 d' p' t \<Longrightarrow> valid_component n \<Longrightarrow> \<forall>m\<in>fst ` set es. m < n \<Longrightarrow>
      push p' n = Inr q \<Longrightarrow> file_ok y \<Longrightarrow> here d' q (Some y) t t' \<Longrightarrow> in_dir d p (es @ [(n, y)]) t0 d' p' t'"
    and close_dir: "in_dir d p es t0 d' p' t \<Longrightarrow>
      \<exists>t'. closeDirectory snk d p d' t = (Inr (), t') \<and> here d p (Some (Directory es)) t0 t'"
    and open_file: "here d p None t0 t \<Longrightarrow>
      \<exists>f t'. openRegular snk d p t = (Inr f, t') \<and> in_file d p False [] t0 f t'"
    and executable_file: "in_file d p x c t0 f t \<Longrightarrow>
      \<exists>t'. crf_isExecutable snk f t = (Inr (), t') \<and> in_file d p True c t0 f t'"
    and preallocate_file: "in_file d p x c t0 f t \<Longrightarrow>
      \<exists>t'. crf_preallocate snk f len t = (Inr (), t') \<and> in_file d p x c t0 f t'"
    and wants_contents: "in_file d p x c t0 f t \<Longrightarrow> \<not> crf_skipContents snk f"
    and write_file: "in_file d p x c t0 f t \<Longrightarrow>
      \<exists>t'. crf_write snk f data t = (Inr (), t') \<and> in_file d p x (c @ data) t0 f t'"
    and close_file: "in_file d p x c t0 f t \<Longrightarrow>
      \<exists>t'. closeRegular snk d p f t = (Inr (), t') \<and> here d p (Some (Regular x c)) t0 t'"
    and symlink: "here d p None t0 t \<Longrightarrow> CHR 0x00 \<notin> set g \<Longrightarrow>
      \<exists>t'. createSymlink snk d p g t = (Inr (), t') \<and> here d p (Some (Symlink g)) t0 t'"

text \<open>The memory sink keeps it.\<close>

definition memory_here :: "unit \<Rightarrow> CanonPath \<Rightarrow> fso option \<Rightarrow> memory \<Rightarrow> memory \<Rightarrow> bool" where
  "memory_here d p x t0 t \<longleftrightarrow> canonical p \<and> memory_ok t0 \<and> mem_can_put (components p) t0 \<and>
     (case x of None \<Rightarrow> t = t0 | Some x \<Rightarrow> t = mem_put (components p) x t0)"

definition memory_in_dir ::
  "unit \<Rightarrow> CanonPath \<Rightarrow> (string \<times> fso) list \<Rightarrow> memory \<Rightarrow> unit \<Rightarrow> CanonPath \<Rightarrow> memory \<Rightarrow> bool" where
  "memory_in_dir d p es t0 d' p' t \<longleftrightarrow>
     p' = p \<and> file_ok (Directory es) \<and> memory_here d p (Some (Directory es)) t0 t"

definition memory_in_file ::
  "unit \<Rightarrow> CanonPath \<Rightarrow> bool \<Rightarrow> string \<Rightarrow> memory \<Rightarrow> CanonPath \<Rightarrow> memory \<Rightarrow> bool" where
  "memory_in_file d p x c t0 f t \<longleftrightarrow> f = p \<and> memory_here d p (Some (Regular x c)) t0 t"

lemma memory_created:
  assumes "memory_here d p None t0 t"
  shows "mem_open p (Some c) t = (Inr True, mem_put (components p) c t0)"
    "mem_node p (mem_put (components p) c t0) = Some c"
    "memory_here d p (Some c) t0 (mem_put (components p) c t0)"
proof -
  obtain cs where "list_all valid_component cs" "p = of_components cs" "components p = cs"
    using assms by (auto simp: memory_here_def elim: canonicalE)
  then show "mem_open p (Some c) t = (Inr True, mem_put (components p) c t0)"
    "mem_node p (mem_put (components p) c t0) = Some c"
    "memory_here d p (Some c) t0 (mem_put (components p) c t0)"
    using assms mem_open_put [of t0 cs c] mem_put_facts(1) [of t0 cs c]
    by (simp_all add: memory_here_def)
qed

lemma memory_written:
  assumes "memory_here d p (Some c) t0 t"
  shows "mem_node p t = Some c" "\<exists>t'. mem_write p g t = (Inr (), t') \<and> memory_here d p (Some (g c)) t0 t'"
proof -
  obtain cs where "list_all valid_component cs" "p = of_components cs" "components p = cs"
    using assms by (auto simp: memory_here_def elim: canonicalE)
  then show "mem_node p t = Some c" "\<exists>t'. mem_write p g t = (Inr (), t') \<and> memory_here d p (Some (g c)) t0 t'"
    using assms mem_put_facts(1,2) [of t0 cs] by (simp_all add: memory_here_def)
qed

lemma memory_child:
  assumes "memory_in_dir d p es t0 d' p' t" "valid_component n" "\<forall>m\<in>fst ` set es. m < n"
  shows "\<exists>q. push p' n = Inr q \<and> canonical q \<and> components q = components p @ [n] \<and>
    memory_here d' q None t t \<and>
    (\<forall>c. mem_put (components q) c t = mem_put (components p) (Directory (es @ [(n, c)])) t0)"
proof -
  obtain cs where cs: "list_all valid_component cs" "p = of_components cs" "components p = cs"
    using assms(1) by (auto simp: memory_in_dir_def memory_here_def elim: canonicalE)
  then obtain q where q: "push p n = Inr q" "canonical q" "components q = cs @ [n]"
    using canonical_push [of p n] assms by (auto simp: canonical_of_components)
  have t: "t = mem_put cs (Directory es) t0" "memory_ok t0" "mem_can_put cs t0" "file_ok (Directory es)" "p' = p"
    using assms(1) cs by (simp_all add: memory_in_dir_def memory_here_def)
  have n: "map_of es n = None" using assms(3) by (auto simp: map_of_eq_None_iff)
  have ins: "map_insert n c es = es @ [(n, c)]" for c
    using t(4) assms(3) by (intro map_insert_last) (auto simp: map_sorted_def sorted_wrt_append)
  show ?thesis
    using q t n ins cs mem_put_facts(3,4,5) [OF t(2,3) cs(1)]
    by (auto simp: memory_here_def)
qed

interpretation memory_sink: tree_sink MemorySink memory_here memory_in_dir memory_in_file
proof
  fix d d' :: unit and p p' q :: CanonPath and t0 t t' :: memory and es :: "(string \<times> fso) list" and n g data :: string
    and x :: fso and f :: CanonPath and b :: bool and m :: "64 word"
  have dir: "file_ok (Directory [])" by (simp add: map_sorted_def)
  {
    assume h: "memory_here d p None t0 t"
    show "\<exists>d' p' t'. createDirectory MemorySink d p t = (Inr (d', p'), t') \<and> memory_in_dir d p [] t0 d' p' t'"
      using memory_created [OF h] dir
      by (simp add: MemorySink_def MemorySink_createDirectory_def memory_in_dir_def)
    show "\<exists>f t'. openRegular MemorySink d p t = (Inr f, t') \<and> memory_in_file d p False [] t0 f t'"
      using memory_created [OF h]
      by (simp add: MemorySink_def MemorySink_openRegular_def memory_in_file_def)
    show "\<exists>t'. createSymlink MemorySink d p g t = (Inr (), t') \<and> memory_here d p (Some (Symlink g)) t0 t'"
      using memory_created [OF h] memory_written(2) [OF memory_created(3) [OF h, of "Symlink []"], of "\<lambda>_. Symlink g"]
      by (simp add: MemorySink_def MemorySink_createSymlink_def)
  }
  {
    assume h: "memory_in_dir d p es t0 d' p' t"
    show "\<exists>t'. closeDirectory MemorySink d p d' t = (Inr (), t') \<and> memory_here d p (Some (Directory es)) t0 t'"
      using h by (simp add: MemorySink_def memory_in_dir_def)
    assume n: "valid_component n" "\<forall>m\<in>fst ` set es. m < n"
    show "\<exists>q. push p' n = Inr q \<and> memory_here d' q None t t"
      using memory_child [OF h n] by blast
    assume q: "push p' n = Inr q" "file_ok x" "memory_here d' q (Some x) t t'"
    have "file_ok (Directory (es @ [(n, x)]))"
      using h n q(2) by (auto simp: memory_in_dir_def map_sorted_def sorted_wrt_append)
    with memory_child [OF h n] h q show "memory_in_dir d p (es @ [(n, x)]) t0 d' p' t'"
      by (auto simp: memory_in_dir_def memory_here_def)
  }
  {
    assume h: "memory_in_file d p b data t0 f t"
    show "\<exists>t'. crf_isExecutable MemorySink f t = (Inr (), t') \<and> memory_in_file d p True data t0 f t'"
      using h memory_written(2) [of d p "Regular b data" t0 t "\<lambda>x. Regular True (contents x)"]
      by (simp add: MemorySink_def CreateMemoryRegularFile_isExecutable_def memory_in_file_def)
    show "\<exists>t'. crf_preallocate MemorySink f m t = (Inr (), t') \<and> memory_in_file d p b data t0 f t'"
      using h unat_u64_lt [of m]
      by (simp add: MemorySink_def CreateMemoryRegularFile_preallocate_def)
    show "\<not> crf_skipContents MemorySink f"
      by (simp add: MemorySink_def)
    show "\<exists>t'. crf_write MemorySink f g t = (Inr (), t') \<and> memory_in_file d p b (data @ g) t0 f t'"
      using h memory_written(2) [of d p "Regular b data" t0 t "\<lambda>x. Regular (executable x) (contents x @ g)"]
      by (simp add: MemorySink_def CreateMemoryRegularFile_write_def memory_in_file_def)
    show "\<exists>t'. closeRegular MemorySink d p f t = (Inr (), t') \<and> memory_here d p (Some (Regular b data)) t0 t'"
      using h by (simp add: MemorySink_def memory_in_file_def)
  }
qed

subsection \<open>Reading from the list of bytes\<close>

text \<open>The exceptions that reading a NAR may end with.\<close>

definition nar_error :: "string \<Rightarrow> exn \<Rightarrow> bool" where
  "nar_error eof e \<longleftrightarrow> (\<exists>m. e = SerialisationError m) \<or> e = EndOfFile eof"

lemma nar_error_simps [simp]:
  "nar_error eof (SerialisationError m)" "nar_error eof (EndOfFile eof)" "nar_error eof (badArchive m)"
  by (simp_all add: nar_error_def badArchive_def)

lemma readNum_error: "readNum m (list_source eof) p = (Inl e, q) \<Longrightarrow> nar_error eof e"
  by (auto simp: readNum_def read_exact_list Let_def bindM_def split: if_splits)

lemma readPadding_error: "readPadding n (list_source eof) p = (Inl e, q) \<Longrightarrow> nar_error eof e"
  by (auto simp: readPadding_def read_exact_list bindM_def split: if_splits)

lemma readString_error:
  assumes "readString m (list_source eof) p = (Inl e, q)"
  shows "nar_error eof e"
  using assms
  by (auto simp: readString_def bindM_def seqM_def read_exact_list split: if_splits prod.splits sum.splits
      dest: readNum_error readPadding_error)

text \<open>
  \<open>outcome\<close>: a computation on the source and the sink ends with a NAR error or with a result
  for which \<open>Q\<close> holds.  \<open>succeeds\<close>: it ends with such a result.
\<close>

definition outcome :: "string \<Rightarrow> ('s \<times> 't, 'a) M \<Rightarrow> 's \<Rightarrow> 't \<Rightarrow> ('a \<Rightarrow> 's \<Rightarrow> 't \<Rightarrow> bool) \<Rightarrow> bool" where
  "outcome eof m s t Q \<longleftrightarrow>
     (case m (s, t) of (Inl e, _) \<Rightarrow> nar_error eof e | (Inr x, (s', t')) \<Rightarrow> Q x s' t')"

definition succeeds :: "('s \<times> 't, 'a) M \<Rightarrow> 's \<Rightarrow> 't \<Rightarrow> ('a \<Rightarrow> 's \<Rightarrow> 't \<Rightarrow> bool) \<Rightarrow> bool" where
  "succeeds m s t Q \<longleftrightarrow> (\<exists>x s' t'. m (s, t) = (Inr x, (s', t')) \<and> Q x s' t')"

lemma outcome_bind:
  assumes "outcome eof m s t P" "\<And>x s' t'. P x s' t' \<Longrightarrow> outcome eof (f x) s' t' Q"
  shows "outcome eof (bindM m f) s t Q"
proof -
  obtain r s' t' where m: "m (s, t) = (r, (s', t'))" by (metis prod.exhaust)
  show ?thesis
  proof (cases r)
    case (Inl e)
    with m assms(1) show ?thesis by (simp add: outcome_def)
  next
    case (Inr x)
    with m assms(1) have "P x s' t'" by (simp add: outcome_def)
    with assms(2) m Inr show ?thesis by (simp add: outcome_def)
  qed
qed

lemma outcome_seq:
  "outcome eof m s t P \<Longrightarrow> (\<And>x s' t'. P x s' t' \<Longrightarrow> outcome eof n s' t' Q) \<Longrightarrow> outcome eof (seqM m n) s t Q"
  unfolding seqM_def by (rule outcome_bind)

lemma outcome_ret: "Q x s t \<Longrightarrow> outcome eof (ret x) s t Q"
  by (simp add: outcome_def)

lemma outcome_throw: "nar_error eof e \<Longrightarrow> outcome eof (throw e) s t Q"
  by (simp add: outcome_def)

lemma outcome_onR: "m t = (Inr x, t') \<Longrightarrow> Q x s t' \<Longrightarrow> outcome eof (onR m) s t Q"
  by (simp add: outcome_def onR_def)

lemma outcome_lift: "r = Inr x \<Longrightarrow> Q x s t \<Longrightarrow> outcome eof (liftE r) s t Q"
  by (simp add: outcome_def)

lemma outcome_catch:
  assumes "outcome eof m s t P" "\<And>x s' t'. P x s' t' \<Longrightarrow> Q x s' t'"
    and "\<And>e s' t'. nar_error eof e \<Longrightarrow> outcome eof (h e) s' t' Q"
  shows "outcome eof (catchM m h) s t Q"
proof -
  obtain r s' t' where m: "m (s, t) = (r, (s', t'))" by (metis prod.exhaust)
  show ?thesis
  proof (cases r)
    case (Inl e)
    with m assms(1) have "nar_error eof e" by (simp add: outcome_def)
    from assms(3) [OF this, of s' t'] m Inl show ?thesis by (simp add: outcome_def)
  next
    case (Inr x)
    with m assms(1,2) show ?thesis by (simp add: outcome_def)
  qed
qed

lemma outcome_mono:
  "outcome eof m s t P \<Longrightarrow> (\<And>x s' t'. P x s' t' \<Longrightarrow> Q x s' t') \<Longrightarrow> outcome eof m s t Q"
  by (auto simp: outcome_def split: prod.splits sum.splits)

lemma succeeds_bind:
  "succeeds m s t P \<Longrightarrow> (\<And>x s' t'. P x s' t' \<Longrightarrow> succeeds (f x) s' t' Q) \<Longrightarrow> succeeds (bindM m f) s t Q"
  by (force simp: succeeds_def bindM_def)

lemma succeeds_seq:
  "succeeds m s t P \<Longrightarrow> (\<And>x s' t'. P x s' t' \<Longrightarrow> succeeds n s' t' Q) \<Longrightarrow> succeeds (seqM m n) s t Q"
  unfolding seqM_def by (rule succeeds_bind)

lemma succeeds_ret: "Q x s t \<Longrightarrow> succeeds (ret x) s t Q"
  by (simp add: succeeds_def)

lemma succeeds_onR: "m t = (Inr x, t') \<Longrightarrow> Q x s t' \<Longrightarrow> succeeds (onR m) s t Q"
  by (simp add: succeeds_def onR_def)

lemma succeeds_lift: "r = Inr x \<Longrightarrow> Q x s t \<Longrightarrow> succeeds (liftE r) s t Q"
  by (simp add: succeeds_def)

text \<open>The trees that a NAR can hold at a depth: what the parser checks.\<close>

fun nar_ok :: "nat \<Rightarrow> fso \<Rightarrow> bool" where
  "nar_ok d (Regular x c) \<longleftrightarrow> d < 64 \<and> length c < 2 ^ 64"
| "nar_ok d (Symlink g) \<longleftrightarrow> d < 64 \<and> g \<noteq> [] \<and> CHR 0x00 \<notin> set g \<and> length g \<le> 4095"
| "nar_ok d (Directory es) \<longleftrightarrow> d < 64 \<and> map_sorted es \<and>
     list_all (\<lambda>(n, c). valid_component n \<and> length n \<le> 255 \<and> nar_ok (Suc d) c) es"

lemma nar_ok_file_ok: "nar_ok d x \<Longrightarrow> file_ok x"
  by (induction d x rule: nar_ok.induct) (auto simp: list_all_iff)

locale nar_reader = byte_source pending eof "src_read src" + tree_sink snk here in_dir in_file
  for pending :: "'s \<Rightarrow> string \<Rightarrow> bool" and eof :: string and src :: "'s source_ops"
    and snk :: "('d, 'f, 't) fso_sink"
    and here :: "'d \<Rightarrow> CanonPath \<Rightarrow> fso option \<Rightarrow> 't \<Rightarrow> 't \<Rightarrow> bool"
    and in_dir :: "'d \<Rightarrow> CanonPath \<Rightarrow> (string \<times> fso) list \<Rightarrow> 't \<Rightarrow> 'd \<Rightarrow> CanonPath \<Rightarrow> 't \<Rightarrow> bool"
    and in_file :: "'d \<Rightarrow> CanonPath \<Rightarrow> bool \<Rightarrow> string \<Rightarrow> 't \<Rightarrow> 'f \<Rightarrow> 't \<Rightarrow> bool"
begin

lemma outcome_onL:
  assumes "pending s p" "simulates pending m q" "\<And>e p'. q p = (Inl e, p') \<Longrightarrow> nar_error eof e"
    and "\<And>x p' s'. q p = (Inr x, p') \<Longrightarrow> pending s' p' \<Longrightarrow> Q x s' t"
  shows "outcome eof (onL m) s t Q"
proof -
  obtain r p' where q: "q p = (r, p')" by (cases "q p")
  then obtain s' where "m s = (r, s')" "pending s' p'"
    using simulatesD [OF assms(2,1)] by blast
  with q assms(3,4) show ?thesis by (cases r) (auto simp: outcome_def onL_def)
qed

lemma succeeds_onL:
  assumes "pending s p" "simulates pending m q" "q p = (Inr x, p')"
    and "\<And>s'. pending s' p' \<Longrightarrow> Q x s' t"
  shows "succeeds (onL m) s t Q"
proof -
  obtain s' where "m s = (Inr x, s')" "pending s' p'"
    using simulatesD [OF assms(2,1,3)] by blast
  with assms(4) show ?thesis by (simp add: succeeds_def onL_def)
qed

lemma outcome_getString:
  assumes "pending s p"
    and "\<And>x q s'. p = wire x @ q \<Longrightarrow> length x < 2 ^ 64 \<Longrightarrow> length x \<le> unat m \<Longrightarrow> pending s' q \<Longrightarrow> Q x s' t"
  shows "outcome eof (getString src m) s t Q"
  unfolding getString_def
  by (rule outcome_onL [OF assms(1) simulates_readString])
     (use assms(2) readString_accepts readString_error in \<open>blast+\<close>)

lemma succeeds_getString:
  assumes "pending s (wire x @ q)" "length x < 2 ^ 64" "length x \<le> unat m"
    and "\<And>s'. pending s' q \<Longrightarrow> Q x s' t"
  shows "succeeds (getString src m) s t Q"
  unfolding getString_def
  by (rule succeeds_onL [OF assms(1) simulates_readString])
     (rule readString_wire [OF assms(2,3)], rule assms(4))

lemma outcome_expectTag:
  assumes "pending s p" "\<And>q s'. p = wire x @ q \<Longrightarrow> pending s' q \<Longrightarrow> Q () s' t"
  shows "outcome eof (expectTag src x) s t Q"
  unfolding expectTag_def
proof (rule outcome_bind)
  show "outcome eof (getString src narMaxTag) s t (\<lambda>tag s' t'. \<exists>q. p = wire tag @ q \<and> pending s' q \<and> t' = t)"
    by (rule outcome_getString [OF assms(1)]) blast
  show "outcome eof (if tag \<noteq> x then throw (badArchive ''expected tag %s, got %s'') else ret ()) s' t' Q"
    if "\<exists>q. p = wire tag @ q \<and> pending s' q \<and> t' = t" for tag s' t'
    using that assms(2) by (auto intro: outcome_throw outcome_ret)
qed

lemma succeeds_expectTag:
  assumes "pending s (wire x @ q)" "length x \<le> 32" "\<And>s'. pending s' q \<Longrightarrow> Q () s' t"
  shows "succeeds (expectTag src x) s t Q"
  unfolding expectTag_def
proof (rule succeeds_bind)
  show "succeeds (getString src narMaxTag) s t (\<lambda>tag s' t'. tag = x \<and> pending s' q \<and> t' = t)"
    by (rule succeeds_getString [OF assms(1)]) (use assms(2) in \<open>auto simp: narMaxTag_def\<close>)
  show "succeeds (if tag \<noteq> x then throw (badArchive ''expected tag %s, got %s'') else ret ()) s' t' Q"
    if "tag = x \<and> pending s' q \<and> t' = t" for tag s' t'
    using that assms(3) by (auto intro: succeeds_ret)
qed

end


context nar_reader
begin

lemma file_byte_sink: "byte_sink (\<lambda>t c. in_file d p x c t0 f t) (crf_write snk f)"
  by unfold_locales (rule write_file)

lemma drain_contents:
  assumes "pending s p" "in_file d pth x [] t0 f t"
  shows "\<exists>s' t'. drainInto_len n (src_read src) (crf_write snk f) n (s, t) =
      ((if n \<le> length p then Inr () else Inl (EndOfFile eof)), (s', t')) \<and>
      pending s' (drop n p) \<and> in_file d pth x (take n p) t0 f t'"
  using source_to_byte_sink.drainInto_len_spec
    [OF source_to_byte_sink.intro [OF byte_source_axioms file_byte_sink] assms order_refl]
  by simp

lemma outcome_contents:
  assumes p: "pending s p" and f: "in_file d pth x [] t0 f t"
  shows "outcome eof (parseContents snk src f) s t (\<lambda>_ s' t'.
      \<exists>c q. p = wire c @ q \<and> length c < 2 ^ 64 \<and> pending s' q \<and> in_file d pth x c t0 f t')"
  unfolding parseContents_def
proof (rule outcome_bind)
  show "outcome eof (onL (readLongLong (src_read src))) s t (\<lambda>sz s' t'. \<exists>q. p = le64 sz @ q \<and> pending s' q \<and> t' = t)"
    unfolding readLongLong_def
    by (rule outcome_onL [OF p simulates_readNum]) (use readNum_accepts readNum_error in \<open>blast+\<close>)
  fix sz s1 t1 assume "\<exists>q. p = le64 sz @ q \<and> pending s1 q \<and> t1 = t"
  then obtain q where q: "p = le64 sz @ q" "pending s1 q" "t1 = t" by blast
  obtain t2 where t2: "crf_preallocate snk f sz t1 = (Inr (), t2)" "in_file d pth x [] t0 f t2"
    using preallocate_file [OF f] q(3) by blast
  obtain s3 t3 where d: "drainInto_len (unat sz) (src_read src) (crf_write snk f) (unat sz) (s1, t2) =
      ((if unat sz \<le> length q then Inr () else Inl (EndOfFile eof)), (s3, t3))"
      "pending s3 (drop (unat sz) q)" "in_file d pth x (take (unat sz) q) t0 f t3"
    using drain_contents [OF q(2) t2(2)] by blast
  have pad: "outcome eof (onL (readPadding (unat sz) (src_read src))) s3 t3 (\<lambda>_ s' t'.
      \<exists>c q. p = wire c @ q \<and> length c < 2 ^ 64 \<and> pending s' q \<and> in_file d pth x c t0 f t')"
    if "unat sz \<le> length q"
  proof (rule outcome_onL [OF d(2) simulates_readPadding])
    fix u p' s' assume r: "readPadding (unat sz) (list_source eof) (drop (unat sz) q) = (Inr u, p')" "pending s' p'"
    have "drop (unat sz) q = padding (unat sz) @ p'" using readPadding_accepts [of "unat sz" eof] r(1) by simp
    then have "q = take (unat sz) q @ padding (unat sz) @ p'" by (metis append_take_drop_id)
    moreover have "length (take (unat sz) q) = unat sz" using that by simp
    ultimately have "p = wire (take (unat sz) q) @ p'"
      unfolding wire_def q(1) by (simp only: append_assoc of_nat_unat ucast_id)
    moreover have "length (take (unat sz) q) < 2 ^ 64" using that unat_u64_lt [of sz] by simp
    ultimately show "\<exists>c q. p = wire c @ q \<and> length c < 2 ^ 64 \<and> pending s' q \<and> in_file d pth x c t0 f t3"
      using r(2) d(3) by blast
  qed (rule readPadding_error)
  have "outcome eof (seqM (drainInto_len (unat sz) (src_read src) (crf_write snk f) (unat sz))
        (onL (readPadding (unat sz) (src_read src)))) s1 t2 (\<lambda>_ s' t'.
      \<exists>c q. p = wire c @ q \<and> length c < 2 ^ 64 \<and> pending s' q \<and> in_file d pth x c t0 f t')"
    using d(1) pad by (cases "unat sz \<le> length q") (auto simp: outcome_def)
  then show "outcome eof (seqM (onR (crf_preallocate snk f sz))
       (if crf_skipContents snk f then
          bindM (liftE (alignUp sz 8)) (\<lambda>left. if left = 0 then ret () else onL (src_skip src (unat left)))
        else seqM (drainInto_len (unat sz) (src_read src) (crf_write snk f) (unat sz))
            (onL (readPadding (unat sz) (src_read src))))) s1 t1 (\<lambda>_ s' t'.
      \<exists>c q. p = wire c @ q \<and> length c < 2 ^ 64 \<and> pending s' q \<and> in_file d pth x c t0 f t')"
    using wants_contents [OF t2(2)] by (intro outcome_seq [where P = "\<lambda>_ s' t'. s' = s1 \<and> t' = t2"])
      (auto intro: outcome_onR [where m = "crf_preallocate snk f sz", OF t2(1)])
qed

lemma succeeds_contents:
  assumes p: "pending s (wire c @ q)" and f: "in_file d pth x [] t0 f t" and len: "length c < 2 ^ 64"
  shows "succeeds (parseContents snk src f) s t (\<lambda>_ s' t'. pending s' q \<and> in_file d pth x c t0 f t')"
  unfolding parseContents_def
proof (rule succeeds_bind)
  let ?sz = "word_of_nat (length c) :: 64 word"
  have u: "unat ?sz = length c" using len by (simp add: unat_of_nat)
  have p': "pending s (le64 ?sz @ c @ padding (length c) @ q)" using p by (simp add: wire_def)
  show "succeeds (onL (readLongLong (src_read src))) s t
      (\<lambda>sz s' t'. sz = ?sz \<and> pending s' (c @ padding (length c) @ q) \<and> t' = t)"
    unfolding readLongLong_def
    by (rule succeeds_onL [OF p' simulates_readNum readNum_le64]) simp_all
  fix sz s1 t1 assume h: "sz = ?sz \<and> pending s1 (c @ padding (length c) @ q) \<and> t1 = t"
  obtain t2 where t2: "crf_preallocate snk f sz t1 = (Inr (), t2)" "in_file d pth x [] t0 f t2"
    using preallocate_file [OF f] h by blast
  obtain s3 t3 where d: "drainInto_len (length c) (src_read src) (crf_write snk f) (length c) (s1, t2) = (Inr (), (s3, t3))"
      "pending s3 (padding (length c) @ q)" "in_file d pth x c t0 f t3"
    using drain_contents [of s1 "c @ padding (length c) @ q" d pth x t0 f t2 "length c"] h t2(2) by auto
  have "succeeds (onL (readPadding (length c) (src_read src))) s3 t3
      (\<lambda>_ s' t'. pending s' q \<and> in_file d pth x c t0 f t')"
    by (rule succeeds_onL [OF d(2) simulates_readPadding readPadding_padding]) (simp add: d(3))
  with d(1) have "succeeds (seqM (drainInto_len (unat sz) (src_read src) (crf_write snk f) (unat sz))
        (onL (readPadding (unat sz) (src_read src)))) s1 t2 (\<lambda>_ s' t'. pending s' q \<and> in_file d pth x c t0 f t')"
    using h u by (simp add: succeeds_def)
  then show "succeeds (seqM (onR (crf_preallocate snk f sz))
       (if crf_skipContents snk f then
          bindM (liftE (alignUp sz 8)) (\<lambda>left. if left = 0 then ret () else onL (src_skip src (unat left)))
        else seqM (drainInto_len (unat sz) (src_read src) (crf_write snk f) (unat sz))
            (onL (readPadding (unat sz) (src_read src))))) s1 t1
      (\<lambda>_ s' t'. pending s' q \<and> in_file d pth x c t0 f t')"
    using wants_contents [OF t2(2)] by (intro succeeds_seq [where P = "\<lambda>_ s' t'. s' = s1 \<and> t' = t2"])
      (auto intro: succeeds_onR [where m = "crf_preallocate snk f sz", OF t2(1)])
qed

end

context nar_reader
begin

lemma outcome_regular:
  assumes p: "pending s p" and h: "here d path None t0 t" and depth: "depth < 64"
  shows "outcome eof (parse_regular snk src d path) s t (\<lambda>_ s' t'.
      \<exists>x c q. wires [''('', ''type'', ''regular''] @ p = nar_node (Regular x c) @ q \<and> nar_ok depth (Regular x c) \<and>
        pending s' q \<and> here d path (Some (Regular x c)) t0 t')"
  unfolding parse_regular_def
proof (rule outcome_bind)
  show "outcome eof (onR (openRegular snk d path)) s t (\<lambda>f s' t'. in_file d path False [] t0 f t' \<and> s' = s)"
    using open_file [OF h] by (auto simp: outcome_def onR_def)
  fix f s1 t1 assume 1: "in_file d path False [] t0 f t1 \<and> s1 = s"
  define X where "X = (\<lambda>x. (if x then wires [''executable'', ''''] else []))"
  have tag: "outcome eof (getString src narMaxTag) s1 t1 (\<lambda>tag s' t'. \<exists>q. p = wire tag @ q \<and> pending s' q \<and> t' = t1)"
    by (rule outcome_getString [of _ p]) (use p 1 in auto)
  have exe: "outcome eof
       (if tag = ''executable'' then
          bindM (getString src 0) (\<lambda>s2.
            if s2 \<noteq> [] then throw (badArchive ''executable marker has non-empty value'')
            else seqM (onR (crf_isExecutable snk f)) (getString src narMaxTag))
        else ret tag) s2 t2
      (\<lambda>tag s' t'. \<exists>x q. p = X x @ wire tag @ q \<and> pending s' q \<and> in_file d path x [] t0 f t')"
    if "\<exists>q. p = wire tag @ q \<and> pending s2 q \<and> t2 = t1" for tag s2 t2
  proof (cases "tag = ''executable''")
    case True
    from that obtain q where q: "p = wire tag @ q" "pending s2 q" "t2 = t1" by blast
    have "outcome eof (bindM (getString src 0) (\<lambda>s2.
            if s2 \<noteq> [] then throw (badArchive ''executable marker has non-empty value'')
            else seqM (onR (crf_isExecutable snk f)) (getString src narMaxTag))) s2 t2
      (\<lambda>tag s' t'. \<exists>q'. q = wire '''' @ wire tag @ q' \<and> pending s' q' \<and> in_file d path True [] t0 f t')"
    proof (rule outcome_bind)
      show "outcome eof (getString src 0) s2 t2 (\<lambda>z s' t'. \<exists>q'. q = wire z @ q' \<and> pending s' q' \<and> t' = t1)"
        by (rule outcome_getString [OF q(2)]) (use q(3) in auto)
      fix z s3 t3 assume "\<exists>q'. q = wire z @ q' \<and> pending s3 q' \<and> t3 = t1"
      then obtain q' where q': "q = wire z @ q'" "pending s3 q'" "t3 = t1" by blast
      obtain t4 where t4: "crf_isExecutable snk f t3 = (Inr (), t4)" "in_file d path True [] t0 f t4"
        using executable_file 1 q'(3) by blast
      have "outcome eof (getString src narMaxTag) s3 t4
          (\<lambda>tag s' t'. \<exists>q''. q' = wire tag @ q'' \<and> pending s' q'' \<and> in_file d path True [] t0 f t')"
        by (rule outcome_getString [OF q'(2)]) (use t4(2) in auto)
      then have "outcome eof (seqM (onR (crf_isExecutable snk f)) (getString src narMaxTag)) s3 t3
          (\<lambda>tag s' t'. \<exists>q''. q' = wire tag @ q'' \<and> pending s' q'' \<and> in_file d path True [] t0 f t')"
        using t4(1) by (simp add: outcome_def)
      then show "outcome eof (if z \<noteq> [] then throw (badArchive ''executable marker has non-empty value'')
            else seqM (onR (crf_isExecutable snk f)) (getString src narMaxTag)) s3 t3
          (\<lambda>tag s' t'. \<exists>q'. q = wire '''' @ wire tag @ q' \<and> pending s' q' \<and> in_file d path True [] t0 f t')"
        using q'(1) by (auto intro: outcome_throw outcome_mono)
    qed
    then show ?thesis
      using True q(1)
      by (simp only: simp_thms if_True) (rule outcome_mono, assumption, force simp: X_def wires_def)
  next
    case False
    with that 1 show ?thesis
      by (auto intro!: outcome_ret exI [of _ False] simp: X_def)
  qed
  have fin: "outcome eof (if tag \<noteq> ''contents'' then throw (badArchive ''expected tag 'contents', got %s'')
       else seqM (parseContents snk src f) (expectTag src '')'')) s2 t2
      (\<lambda>_ s' t'. \<exists>x c q. p = X x @ wires [''contents'', c, '')''] @ q \<and> length c < 2 ^ 64 \<and> pending s' q \<and>
        in_file d path x c t0 f t')"
    if "\<exists>x q. p = X x @ wire tag @ q \<and> pending s2 q \<and> in_file d path x [] t0 f t2" for tag s2 t2
  proof (cases "tag = ''contents''")
    case True
    from that obtain x q where q: "p = X x @ wire tag @ q" "pending s2 q" "in_file d path x [] t0 f t2" by blast
    have "outcome eof (seqM (parseContents snk src f) (expectTag src '')'')) s2 t2
        (\<lambda>_ s' t'. \<exists>c q'. q = wire c @ wire '')'' @ q' \<and> length c < 2 ^ 64 \<and> pending s' q' \<and> in_file d path x c t0 f t')"
      by (rule outcome_seq [OF outcome_contents [OF q(2,3)]], elim exE conjE, rule outcome_expectTag, assumption) blast
    then show ?thesis
      using True q(1) by (simp only: simp_thms not_True_eq_False if_False)
        (rule outcome_mono, assumption, force simp: wires_def)
  qed (simp add: outcome_throw)
  have body: "outcome eof (parse_regular_body snk src f) s1 t1 (\<lambda>_ s' t'.
      \<exists>x c q. p = X x @ wires [''contents'', c, '')''] @ q \<and> length c < 2 ^ 64 \<and> pending s' q \<and> in_file d path x c t0 f t')"
    unfolding parse_regular_body_def
    by (rule outcome_bind [OF tag], rule outcome_bind [OF exe], assumption, rule fin)
  show "outcome eof (seqM (parse_regular_body snk src f) (onR (closeRegular snk d path f))) s1 t1 (\<lambda>_ s' t'.
      \<exists>x c q. wires [''('', ''type'', ''regular''] @ p = nar_node (Regular x c) @ q \<and> nar_ok depth (Regular x c) \<and>
        pending s' q \<and> here d path (Some (Regular x c)) t0 t')"
  proof (rule outcome_seq [OF body], elim exE conjE)
    fix s' t' x c q
    assume q: "p = X x @ wires [''contents'', c, '')''] @ q" "length c < 2 ^ 64" "pending s' q" "in_file d path x c t0 f t'"
    obtain t'' where t'': "closeRegular snk d path f t' = (Inr (), t'')" "here d path (Some (Regular x c)) t0 t''"
      using close_file [OF q(4)] by blast
    have "wires [''('', ''type'', ''regular''] @ p = nar_node (Regular x c) @ q"
      by (simp add: q(1) X_def)
    with q depth t''(2) show "outcome eof (onR (closeRegular snk d path f)) s' t' (\<lambda>_ s' t'.
        \<exists>x c q. wires [''('', ''type'', ''regular''] @ p = nar_node (Regular x c) @ q \<and> nar_ok depth (Regular x c) \<and>
        pending s' q \<and> here d path (Some (Regular x c)) t0 t')"
      by (intro outcome_onR [where m = "closeRegular snk d path f", OF t''(1)]) auto
  qed
qed

lemma outcome_symlink:
  assumes p: "pending s p" and h: "here d path None t0 t" and depth: "depth < 64"
  shows "outcome eof (parse_symlink snk src d path) s t (\<lambda>_ s' t'.
      \<exists>g q. wires [''('', ''type'', ''symlink''] @ p = nar_node (Symlink g) @ q \<and> nar_ok depth (Symlink g) \<and>
        pending s' q \<and> here d path (Some (Symlink g)) t0 t')"
  unfolding parse_symlink_def
proof (rule outcome_seq)
  show "outcome eof (expectTag src ''target'') s t (\<lambda>_ s' t'. \<exists>q. p = wire ''target'' @ q \<and> pending s' q \<and> t' = t)"
    by (rule outcome_expectTag [OF p]) auto
  fix u s1 t1 assume "\<exists>q. p = wire ''target'' @ q \<and> pending s1 q \<and> t1 = t"
  then obtain q where q: "p = wire ''target'' @ q" "pending s1 q" "t1 = t" by blast
  show "outcome eof (bindM (getString src narMaxTarget) (\<lambda>t.
          if t = [] \<or> CHR 0x00 \<in> set t then throw (badArchive ''NAR contains invalid symlink target'')
          else seqM (onR (createSymlink snk d path t)) (expectTag src '')''))) s1 t1 (\<lambda>_ s' t'.
      \<exists>g q. wires [''('', ''type'', ''symlink''] @ p = nar_node (Symlink g) @ q \<and> nar_ok depth (Symlink g) \<and>
        pending s' q \<and> here d path (Some (Symlink g)) t0 t')"
  proof (rule outcome_bind)
    show "outcome eof (getString src narMaxTarget) s1 t1 (\<lambda>g s' t'.
        \<exists>q'. q = wire g @ q' \<and> length g \<le> 4095 \<and> pending s' q' \<and> t' = t)"
      by (rule outcome_getString [OF q(2)]) (use q(3) in \<open>auto simp: narMaxTarget_def\<close>)
    fix g s2 t2 assume "\<exists>q'. q = wire g @ q' \<and> length g \<le> 4095 \<and> pending s2 q' \<and> t2 = t"
    then obtain q' where q': "q = wire g @ q'" "length g \<le> 4095" "pending s2 q'" "t2 = t" by blast
    have "outcome eof (seqM (onR (createSymlink snk d path g)) (expectTag src '')'')) s2 t2 (\<lambda>_ s' t'.
        \<exists>q''. q' = wire '')'' @ q'' \<and> pending s' q'' \<and> here d path (Some (Symlink g)) t0 t')" if nul: "CHR 0x00 \<notin> set g"
    proof (rule outcome_seq)
      obtain t3 where t3: "createSymlink snk d path g t2 = (Inr (), t3)" "here d path (Some (Symlink g)) t0 t3"
        using symlink [OF h nul] q'(4) by blast
      show "outcome eof (onR (createSymlink snk d path g)) s2 t2 (\<lambda>_ s' t'. s' = s2 \<and> here d path (Some (Symlink g)) t0 t')"
        by (rule outcome_onR [where m = "createSymlink snk d path g", OF t3(1)]) (simp add: t3(2))
      show "outcome eof (expectTag src '')'') s' t' (\<lambda>_ s' t'. \<exists>q''. q' = wire '')'' @ q'' \<and> pending s' q'' \<and> here d path (Some (Symlink g)) t0 t')"
        if "s' = s2 \<and> here d path (Some (Symlink g)) t0 t'" for s' t'
        by (rule outcome_expectTag [of _ q']) (use that q'(3) in auto)
    qed
    note made = this
    show "outcome eof (if g = [] \<or> CHR 0x00 \<in> set g then throw (badArchive ''NAR contains invalid symlink target'')
          else seqM (onR (createSymlink snk d path g)) (expectTag src '')'')) s2 t2 (\<lambda>_ s' t'.
      \<exists>g q. wires [''('', ''type'', ''symlink''] @ p = nar_node (Symlink g) @ q \<and> nar_ok depth (Symlink g) \<and>
        pending s' q \<and> here d path (Some (Symlink g)) t0 t')"
    proof (cases "g = [] \<or> CHR 0x00 \<in> set g")
      case False
      then show ?thesis using q q' depth made by (auto elim!: outcome_mono simp: wires_def)
    qed (simp add: outcome_throw)
  qed
qed

end

definition nar_entry :: "string \<times> fso \<Rightarrow> string" where
  "nar_entry = (\<lambda>(n, c). wires [''entry'', ''('', ''name'', n, ''node''] @ nar_node c @ wire '')'')"

lemma nar_node_Directory:
  "nar_node (Directory es) = wires [''('', ''type'', ''directory''] @ concat (map nar_entry es) @ wire '')''"
  by (simp add: nar_entry_def)

lemma length_wire: "8 \<le> length (wire x)"
  by (simp add: wire_def)

lemma length_wires: "8 * length xs \<le> length (wires xs)"
proof (induction xs)
  case (Cons x xs)
  with length_wire [of x] show ?case by (simp add: wires_def)
qed simp

lemma wires_simps: "wires [] = []" "wires (x # xs) = wire x @ wires xs"
  by (simp_all add: wires_def)

lemma nar_ok_snoc:
  assumes "nar_ok d (Directory es)" "valid_component n" "length n \<le> 255" "nar_ok (Suc d) c" "\<forall>m\<in>fst ` set es. m < n"
  shows "nar_ok d (Directory (es @ [(n, c)]))"
  using assms by (auto simp: map_sorted_def sorted_wrt_append)

context nar_reader
begin

lemma outcome_entry_name:
  assumes p: "pending s p"
  shows "outcome eof (parse_entry_name src prev) s t (\<lambda>r s' t'. t' = t \<and>
      (case r of None \<Rightarrow> \<exists>q. p = wire '')'' @ q \<and> pending s' q
       | Some n \<Rightarrow> \<exists>q. p = wires [''entry'', ''('', ''name'', n, ''node''] @ q \<and> pending s' q \<and>
           valid_component n \<and> length n \<le> 255 \<and> prev < n))" (is "outcome _ _ _ _ ?Q")
  unfolding parse_entry_name_def
proof (rule outcome_bind)
  show "outcome eof (getString src narMaxTag) s t (\<lambda>tag s' t'. \<exists>q. p = wire tag @ q \<and> pending s' q \<and> t' = t)"
    by (rule outcome_getString [OF p]) auto
  fix tag s1 t1 assume "\<exists>q. p = wire tag @ q \<and> pending s1 q \<and> t1 = t"
  then obtain q where q: "p = wire tag @ q" "pending s1 q" "t1 = t" by blast
  have rest: "outcome eof (seqM (expectTag src ''('')
           (seqM (expectTag src ''name'')
             (bindM (getString src narMaxName) (\<lambda>name.
               if name = [] \<or> name = ''.'' \<or> name = ''..'' \<or> CHR ''/'' \<in> set name \<or> CHR 0x00 \<in> set name
               then throw (badArchive ''NAR contains invalid file name %1%'')
               else if name \<le> prev then throw (badArchive ''NAR directory is not sorted'')
               else seqM (expectTag src ''node'') (ret (Some name)))))) s1 t1 ?Q"
    if "tag = ''entry''"
  proof (rule outcome_seq)
    show "outcome eof (expectTag src ''('') s1 t1 (\<lambda>_ s' t'. \<exists>q'. q = wire ''('' @ q' \<and> pending s' q' \<and> t' = t)"
      by (rule outcome_expectTag [OF q(2)]) (use q(3) in auto)
    fix u2 s2 t2 assume "\<exists>q'. q = wire ''('' @ q' \<and> pending s2 q' \<and> t2 = t"
    then obtain q2 where q2: "q = wire ''('' @ q2" "pending s2 q2" "t2 = t" by blast
    show "outcome eof (seqM (expectTag src ''name'')
             (bindM (getString src narMaxName) (\<lambda>name.
               if name = [] \<or> name = ''.'' \<or> name = ''..'' \<or> CHR ''/'' \<in> set name \<or> CHR 0x00 \<in> set name
               then throw (badArchive ''NAR contains invalid file name %1%'')
               else if name \<le> prev then throw (badArchive ''NAR directory is not sorted'')
               else seqM (expectTag src ''node'') (ret (Some name))))) s2 t2 ?Q"
    proof (rule outcome_seq)
      show "outcome eof (expectTag src ''name'') s2 t2 (\<lambda>_ s' t'. \<exists>q'. q2 = wire ''name'' @ q' \<and> pending s' q' \<and> t' = t)"
        by (rule outcome_expectTag [OF q2(2)]) (use q2(3) in auto)
      fix u3 s3 t3 assume "\<exists>q'. q2 = wire ''name'' @ q' \<and> pending s3 q' \<and> t3 = t"
      then obtain q3 where q3: "q2 = wire ''name'' @ q3" "pending s3 q3" "t3 = t" by blast
      show "outcome eof (bindM (getString src narMaxName) (\<lambda>name.
               if name = [] \<or> name = ''.'' \<or> name = ''..'' \<or> CHR ''/'' \<in> set name \<or> CHR 0x00 \<in> set name
               then throw (badArchive ''NAR contains invalid file name %1%'')
               else if name \<le> prev then throw (badArchive ''NAR directory is not sorted'')
               else seqM (expectTag src ''node'') (ret (Some name)))) s3 t3 ?Q"
      proof (rule outcome_bind)
        show "outcome eof (getString src narMaxName) s3 t3 (\<lambda>n s' t'.
            \<exists>q'. q3 = wire n @ q' \<and> length n \<le> 255 \<and> pending s' q' \<and> t' = t)"
          by (rule outcome_getString [OF q3(2)]) (use q3(3) in \<open>auto simp: narMaxName_def\<close>)
        fix n s4 t4 assume "\<exists>q'. q3 = wire n @ q' \<and> length n \<le> 255 \<and> pending s4 q' \<and> t4 = t"
        then obtain q4 where q4: "q3 = wire n @ q4" "length n \<le> 255" "pending s4 q4" "t4 = t" by blast
        have "outcome eof (expectTag src ''node'') s4 t4 (\<lambda>_ s' t'. \<exists>q'. q4 = wire ''node'' @ q' \<and> pending s' q' \<and> t' = t)"
          by (rule outcome_expectTag [OF q4(3)]) (use q4(4) in auto)
        moreover have "valid_component n \<and> prev < n"
          if "\<not> (n = [] \<or> n = ''.'' \<or> n = ''..'' \<or> CHR ''/'' \<in> set n \<or> CHR 0x00 \<in> set n)" "\<not> n \<le> prev"
          using that by (auto simp: valid_component_def good_component_def)
        ultimately show "outcome eof (if n = [] \<or> n = ''.'' \<or> n = ''..'' \<or> CHR ''/'' \<in> set n \<or> CHR 0x00 \<in> set n
               then throw (badArchive ''NAR contains invalid file name %1%'')
               else if n \<le> prev then throw (badArchive ''NAR directory is not sorted'')
               else seqM (expectTag src ''node'') (ret (Some n))) s4 t4 ?Q"
          using q q2 q3 q4 that
          by (auto intro!: outcome_throw outcome_ret elim!: outcome_seq simp: wires_simps)
      qed
    qed
  qed
  show "outcome eof (if tag = '')'' then ret None
       else if tag \<noteq> ''entry'' then throw (badArchive ''expected tag 'entry' or ')', got %s'')
       else
         seqM (expectTag src ''('')
           (seqM (expectTag src ''name'')
             (bindM (getString src narMaxName) (\<lambda>name.
               if name = [] \<or> name = ''.'' \<or> name = ''..'' \<or> CHR ''/'' \<in> set name \<or> CHR 0x00 \<in> set name
               then throw (badArchive ''NAR contains invalid file name %1%'')
               else if name \<le> prev then throw (badArchive ''NAR directory is not sorted'')
               else seqM (expectTag src ''node'') (ret (Some name)))))) s1 t1 ?Q"
    using q rest by (auto intro: outcome_ret outcome_throw)
qed

end

context nar_reader
begin

text \<open>
  The parser, with more fuel than bytes: it fails with a NAR error, or what it has read is the
  NAR of the tree it has built, and nothing more.
\<close>

lemma outcome_parse_and_entries:
  "(\<forall>s p d path t0 t depth. length p < fuel \<longrightarrow> pending s p \<longrightarrow> here d path None t0 t \<longrightarrow>
      outcome eof (parse fuel snk src d path depth) s t (\<lambda>_ s' t'.
        \<exists>x q. p = nar_node x @ q \<and> nar_ok depth x \<and> pending s' q \<and> here d path (Some x) t0 t')) \<and>
   (\<forall>s p d path t0 t depth d' path' es prev. length p < fuel \<longrightarrow> pending s p \<longrightarrow> in_dir d path es t0 d' path' t \<longrightarrow>
      nar_ok depth (Directory es) \<longrightarrow> (\<forall>m\<in>fst ` set es. m \<le> prev) \<longrightarrow>
      outcome eof (parse_entries fuel snk src d' path' depth prev) s t (\<lambda>_ s' t'.
        \<exists>es' q. p = concat (map nar_entry es') @ wire '')'' @ q \<and> nar_ok depth (Directory (es @ es')) \<and>
          pending s' q \<and> in_dir d path (es @ es') t0 d' path' t'))"
proof (induction fuel)
  case 0
  show ?case by simp
next
  case (Suc fuel)
  have IH1: "outcome eof (parse fuel snk src d path depth) s t (\<lambda>_ s' t'.
        \<exists>x q. p = nar_node x @ q \<and> nar_ok depth x \<and> pending s' q \<and> here d path (Some x) t0 t')"
    if "length p < fuel" "pending s p" "here d path None t0 t" for s p d path t0 t depth
    using Suc that by blast
  have IH2: "outcome eof (parse_entries fuel snk src d' path' depth prev) s t (\<lambda>_ s' t'.
        \<exists>es' q. p = concat (map nar_entry es') @ wire '')'' @ q \<and> nar_ok depth (Directory (es @ es')) \<and>
          pending s' q \<and> in_dir d path (es @ es') t0 d' path' t')"
    if "length p < fuel" "pending s p" "in_dir d path es t0 d' path' t" "nar_ok depth (Directory es)"
      "\<forall>m\<in>fst ` set es. m \<le> prev" for s p d path t0 t depth d' path' es prev
    using Suc that by blast
  have one: "outcome eof (parse (Suc fuel) snk src d path depth) s t (\<lambda>_ s' t'.
        \<exists>x q. p = nar_node x @ q \<and> nar_ok depth x \<and> pending s' q \<and> here d path (Some x) t0 t')"
      (is "outcome _ _ _ _ ?Q")
    if len: "length p < Suc fuel" and p: "pending s p" and h: "here d path None t0 t" for s p d path t0 t depth
  proof (cases "narMaxDepth \<le> depth")
    case True
    then show ?thesis by (simp add: parse.simps outcome_throw)
  next
    case False
    then have depth: "depth < 64" by (simp add: narMaxDepth_def)
    have ty: "outcome eof (if ty = ''regular'' then parse_regular snk src d path
              else if ty = ''directory'' then
                bindM (onR (createDirectory snk d path)) (\<lambda>(dirSink, relDirPath).
                seqM (parse_entries fuel snk src dirSink relDirPath depth [])
                  (onR (closeDirectory snk d path dirSink)))
              else if ty = ''symlink'' then parse_symlink snk src d path
              else throw (badArchive ''unknown file type %s'')) s' t ?Q"
      if q: "p = wires [''('', ''type'', ty] @ q" "pending s' q" for ty s' q
    proof -
      have dir: "outcome eof (bindM (onR (createDirectory snk d path)) (\<lambda>(dirSink, relDirPath).
                seqM (parse_entries fuel snk src dirSink relDirPath depth [])
                  (onR (closeDirectory snk d path dirSink)))) s' t ?Q"
        if "ty = ''directory''"
      proof (rule outcome_bind)
        show "outcome eof (onR (createDirectory snk d path)) s' t (\<lambda>r s'' t'. s'' = s' \<and> in_dir d path [] t0 (fst r) (snd r) t')"
          using mkdir [OF h] by (auto simp: outcome_def onR_def)
        fix r s2 t2 assume r: "s2 = s' \<and> in_dir d path [] t0 (fst r) (snd r) t2"
        obtain d' path' where dp: "r = (d', path')" by (cases r)
        have "length q < fuel" using len q(1) length_wires [of "[''('', ''type'', ty]"] by simp
        then have "outcome eof (parse_entries fuel snk src d' path' depth []) s2 t2 (\<lambda>_ s' t'.
            \<exists>es q'. q = concat (map nar_entry es) @ wire '')'' @ q' \<and> nar_ok depth (Directory es) \<and>
              pending s' q' \<and> in_dir d path es t0 d' path' t')"
          using IH2 [of q s2 d path "[]" t0 d' path' t2 depth "[]"] q(2) r dp depth
          by (simp add: map_sorted_def)
        then have "outcome eof (seqM (parse_entries fuel snk src d' path' depth []) (onR (closeDirectory snk d path d'))) s2 t2 ?Q"
        proof (rule outcome_seq, elim exE conjE)
          fix s3 t3 es q' assume e: "q = concat (map nar_entry es) @ wire '')'' @ q'" "nar_ok depth (Directory es)"
            "pending s3 q'" "in_dir d path es t0 d' path' t3"
          obtain t4 where t4: "closeDirectory snk d path d' t3 = (Inr (), t4)" "here d path (Some (Directory es)) t0 t4"
            using close_dir [OF e(4)] by blast
          have "p = nar_node (Directory es) @ q'"
            using q(1) that e(1) by (simp only: nar_node_Directory append_assoc)
          with e t4(2) show "outcome eof (onR (closeDirectory snk d path d')) s3 t3 ?Q"
            by (intro outcome_onR [where m = "closeDirectory snk d path d'", OF t4(1)]) blast
        qed
        then show "outcome eof (case r of (dirSink, relDirPath) \<Rightarrow>
                seqM (parse_entries fuel snk src dirSink relDirPath depth [])
                  (onR (closeDirectory snk d path dirSink))) s2 t2 ?Q"
          by (simp add: dp)
      qed
      have reg: "outcome eof (parse_regular snk src d path) s' t ?Q" if "ty = ''regular''"
        by (rule outcome_mono [OF outcome_regular [OF q(2) h depth]])
           (use q(1) [unfolded that] in \<open>simp only:, blast\<close>)
      have sym: "outcome eof (parse_symlink snk src d path) s' t ?Q" if "ty = ''symlink''"
        by (rule outcome_mono [OF outcome_symlink [OF q(2) h depth]])
           (use q(1) [unfolded that] in \<open>simp only:, blast\<close>)
      show ?thesis
        using dir reg sym by (auto intro: outcome_throw)
    qed
    have "(narMaxDepth \<le> depth) = False" using False by simp
    then show ?thesis
      unfolding parse.simps if_False
    proof (simp only: if_False, intro outcome_seq)
      show "outcome eof (expectTag src ''('') s t (\<lambda>_ s' t'. \<exists>q. p = wire ''('' @ q \<and> pending s' q \<and> t' = t)"
        by (rule outcome_expectTag [OF p]) auto
      show "outcome eof (expectTag src ''type'') s1 t1 (\<lambda>_ s' t'. \<exists>q. p = wire ''('' @ wire ''type'' @ q \<and> pending s' q \<and> t' = t)"
        if "\<exists>q. p = wire ''('' @ q \<and> pending s1 q \<and> t1 = t" for s1 t1
      proof -
        from that obtain q where "p = wire ''('' @ q" "pending s1 q" "t1 = t" by blast
        then show ?thesis by (intro outcome_expectTag [of s1 q]) auto
      qed
      fix u v s1 t1 s2 t2
      assume "\<exists>q. p = wire ''('' @ wire ''type'' @ q \<and> pending s2 q \<and> t2 = t"
      then obtain q where q: "p = wire ''('' @ wire ''type'' @ q" "pending s2 q" "t2 = t" by blast
      show "outcome eof (bindM (getString src narMaxTag) (\<lambda>ty. if ty = ''regular'' then parse_regular snk src d path
              else if ty = ''directory'' then
                bindM (onR (createDirectory snk d path)) (\<lambda>(dirSink, relDirPath).
                seqM (parse_entries fuel snk src dirSink relDirPath depth [])
                  (onR (closeDirectory snk d path dirSink)))
              else if ty = ''symlink'' then parse_symlink snk src d path
              else throw (badArchive ''unknown file type %s''))) s2 t2 ?Q"
      proof (rule outcome_bind)
        show "outcome eof (getString src narMaxTag) s2 t2 (\<lambda>ty s' t'. \<exists>q'. q = wire ty @ q' \<and> pending s' q' \<and> t' = t)"
          by (rule outcome_getString [OF q(2)]) (use q(3) in auto)
      qed (use ty q(1) in \<open>force simp: wires_simps\<close>)
    qed
  qed
  have two: "outcome eof (parse_entries (Suc fuel) snk src d' path' depth prev) s t (\<lambda>_ s' t'.
        \<exists>es' q. p = concat (map nar_entry es') @ wire '')'' @ q \<and> nar_ok depth (Directory (es @ es')) \<and>
          pending s' q \<and> in_dir d path (es @ es') t0 d' path' t')" (is "outcome _ _ _ _ ?Q")
    if len: "length p < Suc fuel" and p: "pending s p" and dir: "in_dir d path es t0 d' path' t"
      and ok: "nar_ok depth (Directory es)" and prev: "\<forall>m\<in>fst ` set es. m \<le> prev"
    for s p d path t0 t depth d' path' es prev
    unfolding parse_entries.simps
  proof (rule outcome_bind [OF outcome_entry_name [OF p]], elim conjE)
    fix r s1 t1
    assume t1: "t1 = t" and r: "case r of None \<Rightarrow> \<exists>q. p = wire '')'' @ q \<and> pending s1 q
       | Some n \<Rightarrow> \<exists>q. p = wires [''entry'', ''('', ''name'', n, ''node''] @ q \<and> pending s1 q \<and>
           valid_component n \<and> length n \<le> 255 \<and> prev < n"
    show "outcome eof (case r of None \<Rightarrow> ret ()
       | Some name \<Rightarrow> bindM (liftE (push path' name)) (\<lambda>child.
           seqM (parse fuel snk src d' child (depth + 1))
             (seqM (expectTag src '')'') (parse_entries fuel snk src d' path' depth name)))) s1 t1 ?Q"
    proof (cases r)
      case None
      with r obtain q where "p = wire '')'' @ q" "pending s1 q" by auto
      then have "p = concat (map nar_entry []) @ wire '')'' @ q \<and> nar_ok depth (Directory (es @ [])) \<and>
          pending s1 q \<and> in_dir d path (es @ []) t0 d' path' t1"
        using ok dir t1 by simp
      then have "?Q () s1 t1" by blast
      with None show ?thesis by (simp only: option.case outcome_ret)
    next
      case (Some n)
      with r obtain q where q: "p = wires [''entry'', ''('', ''name'', n, ''node''] @ q" "pending s1 q"
          "valid_component n" "length n \<le> 255" "prev < n" by auto
      have n: "\<forall>m\<in>fst ` set es. m < n" using prev q(5) by (auto intro: le_less_trans)
      obtain c where c: "push path' n = Inr c" "here d' c None t t"
        using child [OF dir q(3) n] by blast
      have lq: "length q < fuel" using len q(1) length_wires [of "[''entry'', ''('', ''name'', n, ''node'']"] by simp
      have "outcome eof (seqM (parse fuel snk src d' c (depth + 1))
             (seqM (expectTag src '')'') (parse_entries fuel snk src d' path' depth n))) s1 t1 ?Q"
      proof (rule outcome_seq [OF IH1 [OF lq q(2)]])
        show "here d' c None t t1" using c(2) t1 by simp
        fix u s2 t2 assume "\<exists>x q'. q = nar_node x @ q' \<and> nar_ok (depth + 1) x \<and> pending s2 q' \<and> here d' c (Some x) t t2"
        then obtain x q' where x: "q = nar_node x @ q'" "nar_ok (Suc depth) x" "pending s2 q'" "here d' c (Some x) t t2"
          by auto
        have dir2: "in_dir d path (es @ [(n, x)]) t0 d' path' t2"
          using child_done [OF dir q(3) n c(1) nar_ok_file_ok [OF x(2)] x(4)] .
        have ok2: "nar_ok depth (Directory (es @ [(n, x)]))"
          by (rule nar_ok_snoc [OF ok q(3,4) x(2) n])
        show "outcome eof (seqM (expectTag src '')'') (parse_entries fuel snk src d' path' depth n)) s2 t2 ?Q"
        proof (rule outcome_seq)
          show "outcome eof (expectTag src '')'') s2 t2 (\<lambda>_ s' t'. \<exists>q2. q' = wire '')'' @ q2 \<and> pending s' q2 \<and> t' = t2)"
            by (rule outcome_expectTag [OF x(3)]) auto
          fix v s3 t3 assume "\<exists>q2. q' = wire '')'' @ q2 \<and> pending s3 q2 \<and> t3 = t2"
          then obtain q2 where q2: "q' = wire '')'' @ q2" "pending s3 q2" "t3 = t2" by blast
          have p_eq: "p = nar_entry (n, x) @ q2" using q(1) x(1) q2(1) by (simp add: nar_entry_def)
          have "length q2 < fuel" using lq x(1) q2(1) by simp
          then have "outcome eof (parse_entries fuel snk src d' path' depth n) s3 t3 (\<lambda>_ s' t'.
              \<exists>es' q. q2 = concat (map nar_entry es') @ wire '')'' @ q \<and>
                nar_ok depth (Directory ((es @ [(n, x)]) @ es')) \<and>
                pending s' q \<and> in_dir d path ((es @ [(n, x)]) @ es') t0 d' path' t')"
            using n q2(3) by (intro IH2 [OF _ q2(2) _ ok2]) (auto simp: dir2)
          then show "outcome eof (parse_entries fuel snk src d' path' depth n) s3 t3 ?Q"
          proof (rule outcome_mono, elim exE conjE)
            fix s' t' es' q3
            assume "q2 = concat (map nar_entry es') @ wire '')'' @ q3" "nar_ok depth (Directory ((es @ [(n, x)]) @ es'))"
              "pending s' q3" "in_dir d path ((es @ [(n, x)]) @ es') t0 d' path' t'"
            then show "\<exists>es' q. p = concat (map nar_entry es') @ wire '')'' @ q \<and> nar_ok depth (Directory (es @ es')) \<and>
                pending s' q \<and> in_dir d path (es @ es') t0 d' path' t'"
              by (intro exI [of _ "(n, x) # es'"] exI [of _ q3]) (simp add: p_eq)
          qed
        qed
      qed
      with Some c(1) show ?thesis by (simp add: outcome_def)
    qed
  qed
  show ?case by (intro conjI allI impI; (rule one | rule two); assumption)
qed

end

text \<open>The other direction: every such tree is read back.\<close>

context nar_reader
begin

lemma succeeds_regular:
  assumes p: "pending s ((if x then wires [''executable'', ''''] else []) @ wires [''contents'', c, '')''] @ q)"
    and h: "here d path None t0 t" and len: "length c < 2 ^ 64"
  shows "succeeds (parse_regular snk src d path) s t (\<lambda>_ s' t'.
      pending s' q \<and> here d path (Some (Regular x c)) t0 t')"
proof -
  obtain f t1 where f: "openRegular snk d path t = (Inr f, t1)" "in_file d path False [] t0 f t1"
    using open_file [OF h] by blast
  define rest where "rest = wires [c, '')''] @ q"
  have exe: "succeeds (bindM (getString src narMaxTag) (\<lambda>tag.
       if tag = ''executable'' then
          bindM (getString src 0) (\<lambda>s2.
            if s2 \<noteq> [] then throw (badArchive ''executable marker has non-empty value'')
            else seqM (onR (crf_isExecutable snk f)) (getString src narMaxTag))
        else ret tag)) s t1
      (\<lambda>tag s' t'. tag = ''contents'' \<and> pending s' rest \<and> in_file d path x [] t0 f t')"
  proof (cases x)
    case True
    obtain t2 where t2: "crf_isExecutable snk f t1 = (Inr (), t2)" "in_file d path True [] t0 f t2"
      using executable_file [OF f(2)] by blast
    have p1: "pending s (wire ''executable'' @ wire '''' @ wire ''contents'' @ rest)"
      using p True by (simp add: wires_simps rest_def)
    show ?thesis
    proof (rule succeeds_bind)
      show "succeeds (getString src narMaxTag) s t1 (\<lambda>tag s' t'. tag = ''executable'' \<and>
          pending s' (wire '''' @ wire ''contents'' @ rest) \<and> t' = t1)"
        by (rule succeeds_getString [OF p1]) (simp_all add: narMaxTag_def)
      fix tag s1 t' assume 1: "tag = ''executable'' \<and> pending s1 (wire '''' @ wire ''contents'' @ rest) \<and> t' = t1"
      have "succeeds (bindM (getString src 0) (\<lambda>s2.
            if s2 \<noteq> [] then throw (badArchive ''executable marker has non-empty value'')
            else seqM (onR (crf_isExecutable snk f)) (getString src narMaxTag))) s1 t1
          (\<lambda>tag s' t'. tag = ''contents'' \<and> pending s' rest \<and> in_file d path x [] t0 f t')"
      proof (rule succeeds_bind)
        show "succeeds (getString src 0) s1 t1 (\<lambda>z s' t'. z = [] \<and> pending s' (wire ''contents'' @ rest) \<and> t' = t1)"
          by (rule succeeds_getString [of s1 "''''"]) (use 1 in simp_all)
        fix z s2 t' assume 2: "z = [] \<and> pending s2 (wire ''contents'' @ rest) \<and> t' = t1"
        have "succeeds (getString src narMaxTag) s2 t2
            (\<lambda>tag s' t'. tag = ''contents'' \<and> pending s' rest \<and> in_file d path x [] t0 f t')"
          by (rule succeeds_getString [of s2 "''contents''"]) (use 2 t2(2) True in \<open>simp_all add: narMaxTag_def\<close>)
        with t2(1) 2 show "succeeds (if z \<noteq> [] then throw (badArchive ''executable marker has non-empty value'')
            else seqM (onR (crf_isExecutable snk f)) (getString src narMaxTag)) s2 t'
            (\<lambda>tag s' t'. tag = ''contents'' \<and> pending s' rest \<and> in_file d path x [] t0 f t')"
          by (simp add: succeeds_def)
      qed
      then show "succeeds (if tag = ''executable'' then
          bindM (getString src 0) (\<lambda>s2.
            if s2 \<noteq> [] then throw (badArchive ''executable marker has non-empty value'')
            else seqM (onR (crf_isExecutable snk f)) (getString src narMaxTag))
        else ret tag) s1 t' (\<lambda>tag s' t'. tag = ''contents'' \<and> pending s' rest \<and> in_file d path x [] t0 f t')"
        using 1 by simp
    qed
  next
    case False
    have p1: "pending s (wire ''contents'' @ rest)"
      using p False by (simp add: wires_simps rest_def)
    show ?thesis
    proof (rule succeeds_bind)
      show "succeeds (getString src narMaxTag) s t1 (\<lambda>tag s' t'. tag = ''contents'' \<and> pending s' rest \<and> t' = t1)"
        by (rule succeeds_getString [OF p1]) (simp_all add: narMaxTag_def)
    qed (use False f(2) in \<open>auto intro: succeeds_ret\<close>)
  qed
  have body: "succeeds (parse_regular_body snk src f) s t1 (\<lambda>_ s' t'. pending s' q \<and> in_file d path x c t0 f t')"
    unfolding parse_regular_body_def bindM_assoc [symmetric]
  proof (rule succeeds_bind [OF exe])
    fix tag s2 t2 assume 1: "tag = ''contents'' \<and> pending s2 rest \<and> in_file d path x [] t0 f t2"
    have r: "pending s2 (wire c @ wire '')'' @ q)" using 1 by (simp add: rest_def wires_simps)
    have "succeeds (seqM (parseContents snk src f) (expectTag src '')'')) s2 t2
        (\<lambda>_ s' t'. pending s' q \<and> in_file d path x c t0 f t')"
      by (rule succeeds_seq [OF succeeds_contents [OF r _ len]], use 1 in blast, elim conjE,
          rule succeeds_expectTag, assumption) simp_all
    with 1 show "succeeds (if tag \<noteq> ''contents'' then throw (badArchive ''expected tag 'contents', got %s'')
     else seqM (parseContents snk src f) (expectTag src '')'')) s2 t2
        (\<lambda>_ s' t'. pending s' q \<and> in_file d path x c t0 f t')" by simp
  qed
  have "succeeds (seqM (parse_regular_body snk src f) (onR (closeRegular snk d path f))) s t1
      (\<lambda>_ s' t'. pending s' q \<and> here d path (Some (Regular x c)) t0 t')"
  proof (rule succeeds_seq [OF body], elim conjE)
    fix s' t' assume 1: "pending s' q" "in_file d path x c t0 f t'"
    obtain t'' where t'': "closeRegular snk d path f t' = (Inr (), t'')" "here d path (Some (Regular x c)) t0 t''"
      using close_file [OF 1(2)] by blast
    with 1(1) show "succeeds (onR (closeRegular snk d path f)) s' t'
        (\<lambda>_ s' t'. pending s' q \<and> here d path (Some (Regular x c)) t0 t')"
      by (simp add: succeeds_def)
  qed
  with f(1) show ?thesis by (simp add: parse_regular_def succeeds_def)
qed

lemma succeeds_symlink:
  assumes p: "pending s (wires [''target'', g, '')''] @ q)" and h: "here d path None t0 t"
    and g: "g \<noteq> []" "CHR 0x00 \<notin> set g" "length g \<le> 4095"
  shows "succeeds (parse_symlink snk src d path) s t (\<lambda>_ s' t'.
      pending s' q \<and> here d path (Some (Symlink g)) t0 t')"
  unfolding parse_symlink_def
proof (rule succeeds_seq)
  have p1: "pending s (wire ''target'' @ wire g @ wire '')'' @ q)" using p by (simp add: wires_simps)
  show "succeeds (expectTag src ''target'') s t (\<lambda>_ s' t'. pending s' (wire g @ wire '')'' @ q) \<and> t' = t)"
    by (rule succeeds_expectTag [OF p1]) simp_all
  fix u s1 t1 assume 1: "pending s1 (wire g @ wire '')'' @ q) \<and> t1 = t"
  show "succeeds (bindM (getString src narMaxTarget) (\<lambda>t.
          if t = [] \<or> CHR 0x00 \<in> set t then throw (badArchive ''NAR contains invalid symlink target'')
          else seqM (onR (createSymlink snk d path t)) (expectTag src '')''))) s1 t1 (\<lambda>_ s' t'.
      pending s' q \<and> here d path (Some (Symlink g)) t0 t')"
  proof (rule succeeds_bind)
    show "succeeds (getString src narMaxTarget) s1 t1 (\<lambda>g' s' t'. g' = g \<and> pending s' (wire '')'' @ q) \<and> t' = t)"
      by (rule succeeds_getString [of s1 g]) (use 1 g(3) in \<open>simp_all add: narMaxTarget_def\<close>)
    fix g' s2 t2 assume 2: "g' = g \<and> pending s2 (wire '')'' @ q) \<and> t2 = t"
    obtain t3 where t3: "createSymlink snk d path g t2 = (Inr (), t3)" "here d path (Some (Symlink g)) t0 t3"
      using symlink [OF h g(2)] 2 by blast
    have "succeeds (expectTag src '')'') s2 t3 (\<lambda>_ s' t'. pending s' q \<and> here d path (Some (Symlink g)) t0 t')"
      by (rule succeeds_expectTag [of s2]) (use 2 t3(2) in auto)
    with 2 g t3(1) show "succeeds (if g' = [] \<or> CHR 0x00 \<in> set g' then throw (badArchive ''NAR contains invalid symlink target'')
          else seqM (onR (createSymlink snk d path g')) (expectTag src '')'')) s2 t2 (\<lambda>_ s' t'.
      pending s' q \<and> here d path (Some (Symlink g)) t0 t')"
      by (simp add: succeeds_def)
  qed
qed

lemma succeeds_entry_end:
  "pending s (wire '')'' @ q) \<Longrightarrow>
   succeeds (parse_entry_name src prev) s t (\<lambda>r s' t'. r = None \<and> pending s' q \<and> t' = t)"
  unfolding parse_entry_name_def
  by (rule succeeds_bind [where P = "\<lambda>tag s' t'. tag = '')'' \<and> pending s' q \<and> t' = t"],
      rule succeeds_getString [of s "'')''"]) (auto simp: narMaxTag_def intro: succeeds_ret)

lemma succeeds_entry_name:
  assumes p: "pending s (wires [''entry'', ''('', ''name'', n, ''node''] @ q)"
    and n: "valid_component n" "length n \<le> 255" "prev < n"
  shows "succeeds (parse_entry_name src prev) s t (\<lambda>r s' t'. r = Some n \<and> pending s' q \<and> t' = t)"
    (is "succeeds _ _ _ ?Q")
  unfolding parse_entry_name_def
proof (rule succeeds_bind)
  have p1: "pending s (wire ''entry'' @ wire ''('' @ wire ''name'' @ wire n @ wire ''node'' @ q)"
    using p by (simp add: wires_simps)
  show "succeeds (getString src narMaxTag) s t (\<lambda>tag s' t'. tag = ''entry'' \<and>
      pending s' (wire ''('' @ wire ''name'' @ wire n @ wire ''node'' @ q) \<and> t' = t)"
    by (rule succeeds_getString [OF p1]) (simp_all add: narMaxTag_def)
  fix tag s1 t1 assume 1: "tag = ''entry'' \<and> pending s1 (wire ''('' @ wire ''name'' @ wire n @ wire ''node'' @ q) \<and> t1 = t"
  have node: "succeeds (seqM (expectTag src ''node'') (ret (Some n))) s4 t4 ?Q"
    if "pending s4 (wire ''node'' @ q) \<and> t4 = t" for s4 t4
    by (rule succeeds_seq [where P = "\<lambda>_ s' t'. pending s' q \<and> t' = t"], rule succeeds_expectTag [of s4 "''node''"])
       (use that in \<open>auto intro: succeeds_ret\<close>)
  have name: "succeeds (bindM (getString src narMaxName) (\<lambda>name.
               if name = [] \<or> name = ''.'' \<or> name = ''..'' \<or> CHR ''/'' \<in> set name \<or> CHR 0x00 \<in> set name
               then throw (badArchive ''NAR contains invalid file name %1%'')
               else if name \<le> prev then throw (badArchive ''NAR directory is not sorted'')
               else seqM (expectTag src ''node'') (ret (Some name)))) s3 t3 ?Q"
    if "pending s3 (wire n @ wire ''node'' @ q) \<and> t3 = t" for s3 t3
  proof (rule succeeds_bind)
    show "succeeds (getString src narMaxName) s3 t3 (\<lambda>n' s' t'. n' = n \<and> pending s' (wire ''node'' @ q) \<and> t' = t)"
      by (rule succeeds_getString [of s3 n]) (use that n(2) in \<open>simp_all add: narMaxName_def\<close>)
  qed (use node n(1,3) in \<open>auto simp: valid_component_def good_component_def\<close>)
  have "succeeds (seqM (expectTag src ''('')
           (seqM (expectTag src ''name'')
             (bindM (getString src narMaxName) (\<lambda>name.
               if name = [] \<or> name = ''.'' \<or> name = ''..'' \<or> CHR ''/'' \<in> set name \<or> CHR 0x00 \<in> set name
               then throw (badArchive ''NAR contains invalid file name %1%'')
               else if name \<le> prev then throw (badArchive ''NAR directory is not sorted'')
               else seqM (expectTag src ''node'') (ret (Some name)))))) s1 t1 ?Q"
  proof (rule succeeds_seq)
    show "succeeds (expectTag src ''('') s1 t1 (\<lambda>_ s' t'. pending s' (wire ''name'' @ wire n @ wire ''node'' @ q) \<and> t' = t)"
      by (rule succeeds_expectTag [of s1 "''(''"]) (use 1 in auto)
    fix u s2 t2 assume 2: "pending s2 (wire ''name'' @ wire n @ wire ''node'' @ q) \<and> t2 = t"
    have "succeeds (expectTag src ''name'') s2 t2 (\<lambda>_ s' t'. pending s' (wire n @ wire ''node'' @ q) \<and> t' = t)"
      by (rule succeeds_expectTag [of s2 "''name''"]) (use 2 in auto)
    then show "succeeds (seqM (expectTag src ''name'')
             (bindM (getString src narMaxName) (\<lambda>name.
               if name = [] \<or> name = ''.'' \<or> name = ''..'' \<or> CHR ''/'' \<in> set name \<or> CHR 0x00 \<in> set name
               then throw (badArchive ''NAR contains invalid file name %1%'')
               else if name \<le> prev then throw (badArchive ''NAR directory is not sorted'')
               else seqM (expectTag src ''node'') (ret (Some name))))) s2 t2 ?Q"
      by (rule succeeds_seq) (rule name)
  qed
  with 1 show "succeeds (if tag = '')'' then ret None
       else if tag \<noteq> ''entry'' then throw (badArchive ''expected tag 'entry' or ')', got %s'')
       else
         seqM (expectTag src ''('')
           (seqM (expectTag src ''name'')
             (bindM (getString src narMaxName) (\<lambda>name.
               if name = [] \<or> name = ''.'' \<or> name = ''..'' \<or> CHR ''/'' \<in> set name \<or> CHR 0x00 \<in> set name
               then throw (badArchive ''NAR contains invalid file name %1%'')
               else if name \<le> prev then throw (badArchive ''NAR directory is not sorted'')
               else seqM (expectTag src ''node'') (ret (Some name)))))) s1 t1 ?Q" by simp
qed

end

lemma nar_node_pos: "length (nar_node x) > 16"
  by (cases x) (auto simp: nar_node_Directory wires_simps wire_def simp del: nar_node.simps(2))

context nar_reader
begin

lemma succeeds_parse_and_entries:
  "(\<forall>s q d path t0 t depth x. length (nar_node x) \<le> fuel \<longrightarrow> nar_ok depth x \<longrightarrow> pending s (nar_node x @ q) \<longrightarrow>
      here d path None t0 t \<longrightarrow>
      succeeds (parse fuel snk src d path depth) s t (\<lambda>_ s' t'. pending s' q \<and> here d path (Some x) t0 t')) \<and>
   (\<forall>s q d path t0 t depth d' path' es es' prev.
      length (concat (map nar_entry es')) < fuel \<longrightarrow> nar_ok depth (Directory (es @ es')) \<longrightarrow>
      (\<forall>m\<in>fst ` set es'. prev < m) \<longrightarrow>
      pending s (concat (map nar_entry es') @ wire '')'' @ q) \<longrightarrow> in_dir d path es t0 d' path' t \<longrightarrow>
      succeeds (parse_entries fuel snk src d' path' depth prev) s t
        (\<lambda>_ s' t'. pending s' q \<and> in_dir d path (es @ es') t0 d' path' t'))"
proof (induction fuel)
  case 0
  have "nar_node x \<noteq> []" for x using nar_node_pos [of x] by (cases "nar_node x") simp_all
  then show ?case by simp
next
  case (Suc fuel)
  have IH1: "succeeds (parse fuel snk src d path depth) s t (\<lambda>_ s' t'. pending s' q \<and> here d path (Some x) t0 t')"
    if "length (nar_node x) \<le> fuel" "nar_ok depth x" "pending s (nar_node x @ q)" "here d path None t0 t"
    for s q d path t0 t depth x
    using Suc that by blast
  have IH2: "succeeds (parse_entries fuel snk src d' path' depth prev) s t
        (\<lambda>_ s' t'. pending s' q \<and> in_dir d path (es @ es') t0 d' path' t')"
    if "length (concat (map nar_entry es')) < fuel" "nar_ok depth (Directory (es @ es'))"
      "\<forall>m\<in>fst ` set es'. prev < m" "pending s (concat (map nar_entry es') @ wire '')'' @ q)" "in_dir d path es t0 d' path' t"
    for s q d path t0 t depth d' path' es es' prev
    using Suc that by blast
  have one: "succeeds (parse (Suc fuel) snk src d path depth) s t (\<lambda>_ s' t'. pending s' q \<and> here d path (Some x) t0 t')"
      (is "succeeds _ _ _ ?Q")
    if len: "length (nar_node x) \<le> Suc fuel" and ok: "nar_ok depth x" and p: "pending s (nar_node x @ q)"
      and h: "here d path None t0 t" for s q d path t0 t depth x
  proof -
    have depth: "(narMaxDepth \<le> depth) = False" using ok by (cases x) (simp_all add: narMaxDepth_def)
    define ty where "ty = (case x of Regular _ _ \<Rightarrow> ''regular'' | Directory _ \<Rightarrow> ''directory'' | Symlink _ \<Rightarrow> ''symlink'')"
    define body where "body = (case x of Regular b c \<Rightarrow> (if b then wires [''executable'', ''''] else []) @ wires [''contents'', c, '')'']
        | Directory es \<Rightarrow> concat (map nar_entry es) @ wire '')'' | Symlink g \<Rightarrow> wires [''target'', g, '')''])"
    have split: "nar_node x = wire ''('' @ wire ''type'' @ wire ty @ body"
      by (cases x) (simp_all add: ty_def body_def wires_simps nar_node_Directory del: nar_node.simps(2))
    have lty: "length ty \<le> 32" by (simp add: ty_def split: fso.splits)
    have blen: "length body < fuel" using len split by (simp add: wire_def)
    have rest: "succeeds (if ty = ''regular'' then parse_regular snk src d path
              else if ty = ''directory'' then
                bindM (onR (createDirectory snk d path)) (\<lambda>(dirSink, relDirPath).
                seqM (parse_entries fuel snk src dirSink relDirPath depth [])
                  (onR (closeDirectory snk d path dirSink)))
              else if ty = ''symlink'' then parse_symlink snk src d path
              else throw (badArchive ''unknown file type %s'')) s' t ?Q"
      if b: "pending s' (body @ q)" for s'
    proof (cases x)
      case (Regular e c)
      then show ?thesis
        using succeeds_regular [OF _ h, of s' e c q] b ok by (simp add: ty_def body_def)
    next
      case (Symlink g)
      then show ?thesis
        using succeeds_symlink [OF _ h, of s' g q] b ok by (simp add: ty_def body_def)
    next
      case (Directory es)
      obtain d' path' t1 where t1: "createDirectory snk d path t = (Inr (d', path'), t1)" "in_dir d path [] t0 d' path' t1"
        using mkdir [OF h] by blast
      have "[] < m" if m: "m \<in> fst ` set es" for m
      proof -
        from m obtain c where "(m, c) \<in> set es" by auto
        then have "m \<noteq> []" using ok Directory by (auto simp: list_all_iff dest: valid_componentD)
        then show ?thesis by (cases m) simp_all
      qed
      then have nb: "\<forall>m\<in>fst ` set es. [] < m" by blast
      have l: "length (concat (map nar_entry es)) < fuel" using blen Directory by (simp add: body_def)
      have ok': "nar_ok depth (Directory ([] @ es))" using ok Directory by simp
      have b': "pending s' (concat (map nar_entry es) @ wire '')'' @ q)" using b Directory by (simp add: body_def)
      have "succeeds (parse_entries fuel snk src d' path' depth []) s' t1
          (\<lambda>_ s' t'. pending s' q \<and> in_dir d path ([] @ es) t0 d' path' t')"
        by (rule IH2 [OF l ok' nb b' t1(2)])
      then have "succeeds (seqM (parse_entries fuel snk src d' path' depth []) (onR (closeDirectory snk d path d'))) s' t1 ?Q"
      proof (rule succeeds_seq, elim conjE)
        fix s2 t2 assume 2: "pending s2 q" "in_dir d path ([] @ es) t0 d' path' t2"
        then obtain t3 where "closeDirectory snk d path d' t2 = (Inr (), t3)" "here d path (Some (Directory es)) t0 t3"
          using close_dir [of d path es t0 d' path' t2] by auto
        with 2 Directory show "succeeds (onR (closeDirectory snk d path d')) s2 t2 ?Q"
          by (simp add: succeeds_def)
      qed
      with t1(1) Directory show ?thesis by (simp add: ty_def succeeds_def)
    qed
    show ?thesis
      unfolding parse.simps depth if_False
    proof (rule succeeds_seq)
      show "succeeds (expectTag src ''('') s t (\<lambda>_ s' t'. pending s' (wire ''type'' @ wire ty @ body @ q) \<and> t' = t)"
        by (rule succeeds_expectTag [of s "''(''"]) (use p split in auto)
      fix u s1 t1 assume 1: "pending s1 (wire ''type'' @ wire ty @ body @ q) \<and> t1 = t"
      have "succeeds (expectTag src ''type'') s1 t1 (\<lambda>_ s' t'. pending s' (wire ty @ body @ q) \<and> t' = t)"
        by (rule succeeds_expectTag [of s1 "''type''"]) (use 1 in auto)
      then show "succeeds (seqM (expectTag src ''type'') (bindM (getString src narMaxTag) (\<lambda>ty.
              if ty = ''regular'' then parse_regular snk src d path
              else if ty = ''directory'' then
                bindM (onR (createDirectory snk d path)) (\<lambda>(dirSink, relDirPath).
                seqM (parse_entries fuel snk src dirSink relDirPath depth [])
                  (onR (closeDirectory snk d path dirSink)))
              else if ty = ''symlink'' then parse_symlink snk src d path
              else throw (badArchive ''unknown file type %s'')))) s1 t1 ?Q"
      proof (rule succeeds_seq, elim conjE)
        fix s2 t2 assume 2: "pending s2 (wire ty @ body @ q)" "t2 = t"
        have "succeeds (getString src narMaxTag) s2 t2 (\<lambda>ty' s' t'. ty' = ty \<and> pending s' (body @ q) \<and> t' = t)"
          by (rule succeeds_getString [OF 2(1)]) (use lty 2(2) in \<open>simp_all add: narMaxTag_def\<close>)
        then show "succeeds (bindM (getString src narMaxTag) (\<lambda>ty.
              if ty = ''regular'' then parse_regular snk src d path
              else if ty = ''directory'' then
                bindM (onR (createDirectory snk d path)) (\<lambda>(dirSink, relDirPath).
                seqM (parse_entries fuel snk src dirSink relDirPath depth [])
                  (onR (closeDirectory snk d path dirSink)))
              else if ty = ''symlink'' then parse_symlink snk src d path
              else throw (badArchive ''unknown file type %s''))) s2 t2 ?Q"
          by (rule succeeds_bind) (use rest in blast)
      qed
    qed
  qed
  have two: "succeeds (parse_entries (Suc fuel) snk src d' path' depth prev) s t
        (\<lambda>_ s' t'. pending s' q \<and> in_dir d path (es @ es') t0 d' path' t')" (is "succeeds _ _ _ ?Q")
    if len: "length (concat (map nar_entry es')) < Suc fuel" and ok: "nar_ok depth (Directory (es @ es'))"
      and prev: "\<forall>m\<in>fst ` set es'. prev < m" and p: "pending s (concat (map nar_entry es') @ wire '')'' @ q)"
      and dir: "in_dir d path es t0 d' path' t"
    for s q d path t0 t depth d' path' es es' prev
  proof (cases es')
    case Nil
    have "succeeds (parse_entry_name src prev) s t (\<lambda>r s' t'. r = None \<and> pending s' q \<and> t' = t)"
      by (rule succeeds_entry_end) (use p Nil in simp)
    then show ?thesis
      unfolding parse_entries.simps
      by (rule succeeds_bind) (use dir Nil in \<open>auto intro: succeeds_ret\<close>)
  next
    case (Cons e es2)
    obtain n x where e: "e = (n, x)" by (cases e)
    have n: "valid_component n" "length n \<le> 255" "nar_ok (Suc depth) x" "prev < n"
      using ok prev Cons e by simp_all
    have after: "\<forall>m\<in>fst ` set es2. n < m" and before: "\<forall>m\<in>fst ` set es. m < n"
      using ok Cons e by (auto simp: map_sorted_def sorted_wrt_append)
    have p1: "pending s (wires [''entry'', ''('', ''name'', n, ''node''] @ nar_node x @ wire '')'' @
        concat (map nar_entry es2) @ wire '')'' @ q)"
      using p Cons e by (simp add: nar_entry_def)
    obtain c where c: "push path' n = Inr c" "here d' c None t t"
      using child [OF dir n(1) before] by blast
    have lens: "length (nar_node x) \<le> fuel" "length (concat (map nar_entry es2)) < fuel"
      using len Cons e by (simp_all add: nar_entry_def wire_def wires_simps)
    have "succeeds (seqM (parse fuel snk src d' c (depth + 1))
             (seqM (expectTag src '')'') (parse_entries fuel snk src d' path' depth n))) s1 t ?Q"
      if "pending s1 (nar_node x @ wire '')'' @ concat (map nar_entry es2) @ wire '')'' @ q)" for s1
    proof (rule succeeds_seq)
      show "succeeds (parse fuel snk src d' c (depth + 1)) s1 t
          (\<lambda>_ s' t'. pending s' (wire '')'' @ concat (map nar_entry es2) @ wire '')'' @ q) \<and> here d' c (Some x) t t')"
        using IH1 [OF lens(1) n(3) that c(2)] by simp
      fix u s2 t2 assume 2: "pending s2 (wire '')'' @ concat (map nar_entry es2) @ wire '')'' @ q) \<and> here d' c (Some x) t t2"
      have dir2: "in_dir d path (es @ [(n, x)]) t0 d' path' t2"
        using child_done [OF dir n(1) before c(1) nar_ok_file_ok [OF n(3)]] 2 by blast
      show "succeeds (seqM (expectTag src '')'') (parse_entries fuel snk src d' path' depth n)) s2 t2 ?Q"
      proof (rule succeeds_seq)
        show "succeeds (expectTag src '')'') s2 t2 (\<lambda>_ s' t'. pending s' (concat (map nar_entry es2) @ wire '')'' @ q) \<and> t' = t2)"
          by (rule succeeds_expectTag [of s2 "'')''"]) (use 2 in auto)
        fix v s3 t3 assume 3: "pending s3 (concat (map nar_entry es2) @ wire '')'' @ q) \<and> t3 = t2"
        have "succeeds (parse_entries fuel snk src d' path' depth n) s3 t3
            (\<lambda>_ s' t'. pending s' q \<and> in_dir d path ((es @ [(n, x)]) @ es2) t0 d' path' t')"
          by (rule IH2 [OF lens(2) _ after]) (use ok Cons e 3 dir2 in simp_all)
        then show "succeeds (parse_entries fuel snk src d' path' depth n) s3 t3 ?Q"
          by (simp add: Cons e)
      qed
    qed
    then show ?thesis
      unfolding parse_entries.simps
      by (intro succeeds_bind [OF succeeds_entry_name [OF p1 n(1,2,4)]])
         (use c(1) in \<open>auto simp: succeeds_def\<close>)
  qed
  show ?case by (intro conjI allI impI; (rule one | rule two); assumption)
qed

end

lemma foldr_max_le:
  "(\<And>n c. (n, c) \<in> set es \<Longrightarrow> f c \<le> (k :: nat)) \<Longrightarrow> foldr (\<lambda>(_, c) m. max (f c) m) es 0 \<le> k"
proof (induction es)
  case (Cons e es)
  obtain n c where e: "e = (n, c)" by (cases e)
  then have "f c \<le> k" using Cons.prems [of n c] by simp
  moreover have "foldr (\<lambda>(_, c) m. max (f c) m) es 0 \<le> k"
    by (rule Cons.IH) (metis Cons.prems list.set_intros(2))
  ultimately show ?case by (simp add: e)
qed simp

lemma nar_ok_levels: "nar_ok d x \<Longrightarrow> d + levels x \<le> 64"
proof (induction x arbitrary: d)
  case (Directory es)
  have "levels c \<le> 63 - d" if "(n, c) \<in> set es" for n c
  proof -
    have "nar_ok (Suc d) c" using Directory.prems that by (auto simp: list_all_iff)
    then show ?thesis using Directory.IH [OF that, of c "Suc d"] by simp
  qed
  then have "foldr (\<lambda>(_, c) m. max (levels c) m) es 0 \<le> 63 - d" by (rule foldr_max_le)
  moreover have "d < 64" using Directory.prems by simp
  ultimately show ?case by simp
qed auto

lemma nar_ok_small: "nar_ok d x \<Longrightarrow> small x"
  by (induction d x rule: nar_ok.induct) (auto simp: list_all_iff)

lemma narVersionMagic1_facts:
  "length narVersionMagic1 = 13" "unat (word_of_nat (length narVersionMagic1) :: 64 word) = 13"
  by (simp_all add: narVersionMagic1_def)

context nar_reader
begin

lemmas outcome_parse = outcome_parse_and_entries [THEN conjunct1, rule_format]
lemmas succeeds_parse = succeeds_parse_and_entries [THEN conjunct1, rule_format]

lemma outcome_parseDump:
  assumes p: "pending s p" and h: "here d cp_root None t0 t" and fuel: "length p < fuel"
  shows "outcome eof (parseDump fuel snk src d) s t (\<lambda>_ s' t'.
      \<exists>x q. p = nar x @ q \<and> nar_ok 0 x \<and> pending s' q \<and> here d cp_root (Some x) t0 t')"
    (is "outcome _ _ _ _ ?Q")
  unfolding parseDump_def
proof (rule outcome_bind)
  have "outcome eof (getString src (word_of_nat (length narVersionMagic1))) s t (\<lambda>v s' t'. \<exists>q. p = wire v @ q \<and> pending s' q \<and> t' = t)"
    by (rule outcome_getString [OF p]) auto
  then show "outcome eof (catchM (getString src (word_of_nat (length narVersionMagic1)))
         (\<lambda>e. case e of SerialisationError _ \<Rightarrow> ret [] | _ \<Rightarrow> throw e)) s t
      (\<lambda>v s' t'. v = [] \<or> (\<exists>q. p = wire v @ q \<and> pending s' q \<and> t' = t))"
    by (rule outcome_catch) (auto simp: nar_error_def intro!: outcome_ret outcome_throw)
  fix v s1 t1 assume 1: "v = [] \<or> (\<exists>q. p = wire v @ q \<and> pending s1 q \<and> t1 = t)"
  show "outcome eof (if v \<noteq> narVersionMagic1 then throw (badArchive ''input doesn't look like a Nix archive'')
       else parse fuel snk src d cp_root 0) s1 t1 ?Q"
  proof (cases "v = narVersionMagic1")
    case True
    then have "v \<noteq> []" by (simp add: narVersionMagic1_def)
    with 1 obtain q where q: "p = wire v @ q" "pending s1 q" "t1 = t" by blast
    then have "outcome eof (parse fuel snk src d cp_root 0) s1 t1 (\<lambda>_ s' t'.
        \<exists>x q'. q = nar_node x @ q' \<and> nar_ok 0 x \<and> pending s' q' \<and> here d cp_root (Some x) t0 t')"
      using h fuel by (intro outcome_parse) simp_all
    then show ?thesis
      using True q(1) by (simp only: simp_thms not_True_eq_False if_False)
        (rule outcome_mono, assumption, force simp: nar_def)
  qed (simp add: outcome_throw)
qed

lemma succeeds_parseDump:
  assumes p: "pending s (nar x @ q)" and h: "here d cp_root None t0 t" and ok: "nar_ok 0 x"
    and fuel: "length (nar_node x) \<le> fuel"
  shows "succeeds (parseDump fuel snk src d) s t (\<lambda>_ s' t'. pending s' q \<and> here d cp_root (Some x) t0 t')"
  unfolding parseDump_def
proof (rule succeeds_bind)
  have "succeeds (getString src (word_of_nat (length narVersionMagic1))) s t
      (\<lambda>v s' t'. v = narVersionMagic1 \<and> pending s' (nar_node x @ q) \<and> t' = t)"
    by (rule succeeds_getString [of s narVersionMagic1])
       (use p narVersionMagic1_facts in \<open>simp_all add: nar_def\<close>)
  then show "succeeds (catchM (getString src (word_of_nat (length narVersionMagic1)))
         (\<lambda>e. case e of SerialisationError _ \<Rightarrow> ret [] | _ \<Rightarrow> throw e)) s t
      (\<lambda>v s' t'. v = narVersionMagic1 \<and> pending s' (nar_node x @ q) \<and> t' = t)"
    by (auto simp: succeeds_def)
  show "succeeds (if v \<noteq> narVersionMagic1 then throw (badArchive ''input doesn't look like a Nix archive'')
       else parse fuel snk src d cp_root 0) s1 t1 (\<lambda>_ s' t'. pending s' q \<and> here d cp_root (Some x) t0 t')"
    if "v = narVersionMagic1 \<and> pending s1 (nar_node x @ q) \<and> t1 = t" for v s1 t1
    using that succeeds_parse [OF fuel ok _ h, of s1 q] by simp
qed

end

subsection \<open>On the sources and sinks of the code\<close>

definition string_ops :: "string_source source_ops" where
  "string_ops = \<lparr> src_read = StringSource_read, src_skip = StringSource_skip \<rparr>"

interpretation string_to_memory: nar_reader string_pending "''end of string reached''" string_ops MemorySink
  memory_here memory_in_dir memory_in_file
  by (rule nar_reader.intro)
     (simp_all add: string_ops_def string_source.byte_source_axioms memory_sink.tree_sink_axioms)

lemma memory_here_root: "memory_here d cp_root None None None"
  using canonical_of_components [of "[]"] components_of_components [of "[]"]
  by (simp add: memory_here_def memory_ok_def mem_can_put_def of_components_def cp_root_def)

lemma memory_here_root_Some: "memory_here d cp_root (Some x) None t \<longleftrightarrow> t = Some x"
  using canonical_of_components [of "[]"] components_of_components [of "[]"]
  by (auto simp: memory_here_def memory_ok_def mem_can_put_def mem_put_def of_components_def cp_root_def)

lemma hashPath_nar:
  assumes "sha256_ok sha" and "nar_ok 0 x"
  shows "hashPath sha (memory_accessor (Some x)) cp_root = Inr (hashString sha (nar x), word_of_nat (length (nar x)))"
proof -
  have w: "hash_sink.buffered.writes sha (dumpPath (memory_accessor (Some x)) cp_root (HashSink sha)) (nar x)"
    using nar_ok_file_ok [OF assms(2)] nar_ok_levels [OF assms(2)] nar_ok_small [OF assms(2)]
    by (intro memory_to_hash.writes_dumpPath) (simp_all add: memory_shows_def)
  from hash_sink.buffered.writesD [OF w HashSink_new_has [OF assms(1)]] obtain t where
    "dumpPath (memory_accessor (Some x)) cp_root (HashSink sha) (HashSink_new sha) = (Inr (), t)"
    "buffered_has (hashed sha) t (nar x)"
    by auto
  with HashSink_finish_hash [of sha t "nar x"] show ?thesis
    by (simp add: hashPath_def run)
qed

subsection \<open>Properties\<close>

text \<open>
  C1.  Dump, then parse: for every tree that a NAR can hold, dumping it from memory writes its
  NAR, and parsing that NAR, with anything behind it, builds the same tree again and stops
  right behind the NAR.
\<close>

theorem nar_roundtrip:
  assumes "nar_ok 0 x" and "length (nar x) \<le> fuel"
  shows "dumpPath (memory_accessor (Some x)) cp_root StringSink [] = (Inr (), nar x) \<and>
    (\<exists>s'. parseDump fuel MemorySink string_ops () (\<lparr> str_src = nar x @ q, str_pos = 0 \<rparr>, None) =
       (Inr (), (s', Some x)) \<and> string_pending s' q)"
proof
  have "string_sink.writes (dumpPath (memory_accessor (Some x)) cp_root StringSink) (nar x)"
    using nar_ok_file_ok [OF assms(1)] nar_ok_levels [OF assms(1)] nar_ok_small [OF assms(1)]
    by (intro memory_to_string.writes_dumpPath) (simp_all add: memory_shows_def)
  then show "dumpPath (memory_accessor (Some x)) cp_root StringSink [] = (Inr (), nar x)"
    unfolding string_sink.writes_def by fastforce
  have "string_pending \<lparr> str_src = nar x @ q, str_pos = 0 \<rparr> (nar x @ q)"
    by (simp add: string_pending_def)
  from string_to_memory.succeeds_parseDump [OF this memory_here_root assms(1), of fuel "()"] assms(2)
  show "\<exists>s'. parseDump fuel MemorySink string_ops () (\<lparr> str_src = nar x @ q, str_pos = 0 \<rparr>, None) =
       (Inr (), (s', Some x)) \<and> string_pending s' q"
    by (auto simp: succeeds_def memory_here_root_Some nar_def)
qed

theorem nar_roundtrip_witness:
  "\<exists>s'. parseDump 1000 MemorySink string_ops ()
     (\<lparr> str_src = nar (Directory [(''a'', Regular True ''hi''), (''b'', Symlink ''a'')]) @ ''rest'', str_pos = 0 \<rparr>, None) =
     (Inr (), (s', Some (Directory [(''a'', Regular True ''hi''), (''b'', Symlink ''a'')]))) \<and> string_pending s' ''rest''"
  by (rule nar_roundtrip [THEN conjunct2])
     (simp_all add: map_sorted_def valid_component_def good_component_def nar_def wires_def wire_def
       padding_def narVersionMagic1_def)



text \<open>
  C3.  \<open>hashPath\<close> of a tree is the digest of its NAR, although the NAR is never built: the dump
  goes through the buffered hash sink piece by piece.
\<close>

theorem hashPath_of_nar:
  assumes "sha256_ok sha" and "nar_ok 0 x"
  shows "hashPath sha (memory_accessor (Some x)) cp_root = Inr (hashString sha (nar x), word_of_nat (length (nar x)))"
  using assms by (rule hashPath_nar)

theorem hashPath_of_nar_witness:
  "hashPath toy_sha (memory_accessor (Some (Symlink ''t''))) cp_root =
     Inr (hashString toy_sha (nar (Symlink ''t'')), word_of_nat (length (nar (Symlink ''t''))))"
  by (rule hashPath_of_nar [OF toy_sha_ok]) simp

end
