(* ===== verification/StorePath.thy ===== *)
theory StorePath
  imports CanonPath Hash
begin

text \<open>
  Store paths (\<open>libstore/path.cc\<close>, \<open>store-dir-config.cc\<close>, the path functions of
  \<open>store-api.cc\<close>), content addresses (\<open>content-address.cc\<close>) and the info registered for a path
  (\<open>path-info.cc\<close>).  The store directory that \<open>StoreDirConfig\<close> holds is an argument.
\<close>

subsection \<open>Names\<close>

definition HashLen :: nat where
  "HashLen = 32"

definition MaxPathLen :: nat where
  "MaxPathLen = 211"

definition in_range :: "char \<Rightarrow> char \<Rightarrow> char \<Rightarrow> bool" where
  "in_range lo hi c \<longleftrightarrow> of_char lo \<le> (of_char c :: nat) \<and> of_char c \<le> (of_char hi :: nat)"

definition legal_name_char :: "char \<Rightarrow> bool" where
  "legal_name_char c \<longleftrightarrow>
     in_range (CHR ''0'') (CHR ''9'') c \<or> in_range (CHR ''a'') (CHR ''z'') c \<or>
     in_range (CHR ''A'') (CHR ''Z'') c \<or> c = CHR ''+'' \<or> c = CHR ''-'' \<or> c = CHR ''.'' \<or>
     c = CHR ''_'' \<or> c = CHR ''?'' \<or> c = CHR ''=''"

definition checkName :: "string \<Rightarrow> exn + unit" where
  "checkName name =
     (if name = [] then Inl (BadStorePathName ''name must not be empty'')
      else if MaxPathLen < length name
      then Inl (BadStorePathName ''name %s must be no longer than %d characters'')
      else if name ! 0 = CHR ''.'' \<and> length name = 1
      then Inl (BadStorePathName ''name %s is not valid'')
      else if name ! 0 = CHR ''.'' \<and> name ! 1 = CHR ''-''
      then Inl (BadStorePathName ''name %s is not valid: first dash-separated component must not be %s'')
      else if name ! 0 = CHR ''.'' \<and> name ! 1 = CHR ''.'' \<and> length name = 2
      then Inl (BadStorePathName ''name %s is not valid'')
      else if name ! 0 = CHR ''.'' \<and> name ! 1 = CHR ''.'' \<and> name ! 2 = CHR ''-''
      then Inl (BadStorePathName ''name %s is not valid: first dash-separated component must not be %s'')
      else if list_ex (\<lambda>c. \<not> legal_name_char c) name
      then Inl (BadStorePathName ''name %s contains illegal character %s'')
      else Inr ())"

definition checkPathName :: "string \<Rightarrow> string \<Rightarrow> exn + unit" where
  "checkPathName path name =
     catchE (checkName name) (\<lambda>e.
       case e of
         BadStorePathName _ \<Rightarrow> Inl (BadStorePath ''path %s is not a valid store path: %s'')
       | _ \<Rightarrow> Inl e)"

subsection \<open>The class StorePath\<close>

datatype StorePath = StorePath (sp_baseName: string)

definition sp_name :: "StorePath \<Rightarrow> string" where
  "sp_name p = drop (HashLen + 1) (sp_baseName p)"

definition sp_hashPart :: "StorePath \<Rightarrow> string" where
  "sp_hashPart p = take HashLen (sp_baseName p)"

definition sp_to_string :: "StorePath \<Rightarrow> string" where
  "sp_to_string p = sp_baseName p"

definition illegal_hash_char :: "char \<Rightarrow> bool" where
  "illegal_hash_char c \<longleftrightarrow>
     c = CHR ''e'' \<or> c = CHR ''o'' \<or> c = CHR ''u'' \<or> c = CHR ''t'' \<or>
     \<not> (in_range (CHR ''0'') (CHR ''9'') c \<or> in_range (CHR ''a'') (CHR ''z'') c)"

definition storePath_of_baseName :: "string \<Rightarrow> exn + StorePath" where
  "storePath_of_baseName base =
     (let p = StorePath base in
      if length base < HashLen + 1 then Inl (BadStorePath ''%s is too short to be a valid store path'')
      else if list_ex illegal_hash_char (sp_hashPart p)
      then Inl (BadStorePath ''store path %s contains illegal base-32 character %s'')
      else bindE (checkPathName base (sp_name p)) (\<lambda>_. Inr p))"

definition storePath_of_hash :: "Hash \<Rightarrow> string \<Rightarrow> exn + StorePath" where
  "storePath_of_hash h name =
     bindE (hash_to_string h Nix32 False) (\<lambda>digits.
       let p = StorePath ((digits @ ''-'') @ name) in
       bindE (checkPathName (sp_baseName p) (sp_name p)) (\<lambda>_. Inr p))"

definition sp_dummy :: "exn + StorePath" where
  "sp_dummy = storePath_of_baseName ''ffffffffffffffffffffffffffffffff-x''"

subsection \<open>Paths in the store directory\<close>

text \<open>\<open>canonPath\<close> of \<open>file-system.cc\<close>, on strings.\<close>

definition canonPath :: "(string \<Rightarrow> string option) \<Rightarrow> string \<Rightarrow> exn + string" where
  "canonPath lnk path =
     (if path = [] then Inl (Error ''cannot canonicalise an empty path'')
      else if hd path \<noteq> CHR ''/'' then Inl (Error ''not an absolute path: %s'')
      else canonPathInner lnk path)"

definition baseNameOf :: "string \<Rightarrow> string" where
  "baseNameOf path =
     (if path = [] then []
      else
        let core = rev (dropWhile isPathSep (rev path));
            core = (if core = [] then take 1 path else core) in
        case rfind_char (CHR ''/'') core of
          None \<Rightarrow> core
        | Some pos \<Rightarrow> drop (pos + 1) core)"

text \<open>The elements that iterating over a \<open>std::filesystem::path\<close> visits.\<close>

definition path_elems :: "string \<Rightarrow> string list" where
  "path_elems s =
     (let toks = tokenizeString s ''/'' in
      (if s \<noteq> [] \<and> hd s = CHR ''/'' then [''/''] else []) @ toks @
      (if toks \<noteq> [] \<and> last s = CHR ''/'' then [[]] else []))"

text \<open>The longest common prefix of two lists removed (\<open>std::mismatch\<close>).\<close>

fun mismatch :: "'a list \<Rightarrow> 'a list \<Rightarrow> 'a list \<times> 'a list" where
  "mismatch (x # xs) (y # ys) = (if x = y then mismatch xs ys else (x # xs, y # ys))"
| "mismatch xs ys = (xs, ys)"

text \<open>\<open>lexically_relative\<close>, as the elements of the resulting path.\<close>

definition lexically_relative :: "string \<Rightarrow> string \<Rightarrow> string list" where
  "lexically_relative p base =
     (let abs = (\<lambda>s. s \<noteq> [] \<and> hd s = CHR ''/'') in
      if abs p \<noteq> abs base then []
      else
        let (a, b) = mismatch (path_elems p) (path_elems base);
            ups = int (length (filter (\<lambda>c. c \<noteq> [] \<and> c \<noteq> ''.'' \<and> c \<noteq> ''..'') b))
                  - int (length (filter (\<lambda>c. c = ''..'') b)) in
        if a = [] \<and> b = [] then [''.'']
        else if ups < 0 then []
        else if ups = 0 \<and> (a = [] \<or> hd a = []) then [''.'']
        else replicate (nat ups) ''..'' @ a)"

definition isInDir :: "string \<Rightarrow> string \<Rightarrow> bool" where
  "isInDir path dir =
     (let rel = lexically_relative path dir in
      if rel = [] then False else hd rel \<noteq> ''.'' \<and> hd rel \<noteq> ''..'')"

definition isInStore :: "string \<Rightarrow> string \<Rightarrow> bool" where
  "isInStore storeDir path = isInDir path storeDir"

text \<open>\<open>filename\<close> of a canonical path: what follows the last slash.\<close>

definition filename :: "string \<Rightarrow> string" where
  "filename p = (case rfind_char (CHR ''/'') p of None \<Rightarrow> p | Some n \<Rightarrow> drop (n + 1) p)"

definition parseStorePath :: "string \<Rightarrow> string \<Rightarrow> exn + StorePath" where
  "parseStorePath storeDir path =
     (if path = [] then Inl (BadStorePath ''empty path is not a valid store path'')
      else bindE (canonPath (\<lambda>_. None) path) (\<lambda>p.
        if parent_path p \<noteq> storeDir then Inl (BadStorePath ''path %s is not in the Nix store'')
        else storePath_of_baseName (filename p)))"

definition maybeParseStorePath :: "string \<Rightarrow> string \<Rightarrow> exn + StorePath option" where
  "maybeParseStorePath storeDir path =
     catchE (bindE (parseStorePath storeDir path) (\<lambda>p. Inr (Some p)))
       (\<lambda>e. if is_Error e then Inr None else Inl e)"

definition printStorePath :: "string \<Rightarrow> StorePath \<Rightarrow> string" where
  "printStorePath storeDir p = (storeDir @ ''/'') @ sp_to_string p"

definition toStorePath :: "string \<Rightarrow> string \<Rightarrow> exn + (StorePath \<times> CanonPath)" where
  "toStorePath storeDir path =
     (if \<not> isInStore storeDir path then Inl (Error ''path %1% is not in the Nix store'')
      else
        case find_char (CHR ''/'') (drop (length storeDir + 1) path) of
          None \<Rightarrow> bindE (parseStorePath storeDir path) (\<lambda>p. Inr (p, cp_root))
        | Some n \<Rightarrow>
            let slash = length storeDir + 1 + n in
            bindE (parseStorePath storeDir (take slash path)) (\<lambda>p.
            bindE (canon_path (drop slash path)) (\<lambda>c. Inr (p, c))))"

definition makeStorePath :: "'c sha256_api \<Rightarrow> string \<Rightarrow> string \<Rightarrow> string \<Rightarrow> string \<Rightarrow> exn + StorePath" where
  "makeStorePath sha storeDir type digits name =
     (let s = type @ '':'' @ digits @ '':'' @ storeDir @ '':'' @ name in
      bindE (compressHash (hashString sha s) 20) (\<lambda>h. storePath_of_hash h name))"

definition makeStorePath_hash :: "'c sha256_api \<Rightarrow> string \<Rightarrow> string \<Rightarrow> Hash \<Rightarrow> string \<Rightarrow> exn + StorePath" where
  "makeStorePath_hash sha storeDir type h name =
     bindE (hash_to_string h Base16 True) (\<lambda>digits. makeStorePath sha storeDir type digits name)"

definition makeContentAddressedPath :: "'c sha256_api \<Rightarrow> string \<Rightarrow> string \<Rightarrow> Hash \<Rightarrow> exn + StorePath" where
  "makeContentAddressedPath sha storeDir name narHash = makeStorePath_hash sha storeDir ''source'' narHash name"

subsection \<open>Content addresses and path infos\<close>

datatype ContentAddress = ContentAddress (ca_hash: Hash)

definition caPrefix :: string where
  "caPrefix = ''fixed:r:''"

definition ca_render :: "ContentAddress \<Rightarrow> exn + string" where
  "ca_render ca = bindE (hash_to_string (ca_hash ca) Nix32 True) (\<lambda>s. Inr (caPrefix @ s))"

definition ca_parse :: "string \<Rightarrow> exn + ContentAddress" where
  "ca_parse rawCa =
     (case splitPrefix rawCa caPrefix of
        (False, _) \<Rightarrow> Inl (UsageError ''content address %s is not a recursive NAR address (%s)'')
      | (True, rest) \<Rightarrow> bindE (parseAnyPrefixed rest) (\<lambda>h. Inr (ContentAddress h)))"

definition ca_parseOpt :: "string \<Rightarrow> exn + ContentAddress option" where
  "ca_parseOpt raw = (if raw = [] then Inr None else bindE (ca_parse raw) (\<lambda>c. Inr (Some c)))"

definition renderContentAddress :: "ContentAddress option \<Rightarrow> exn + string" where
  "renderContentAddress ca = (case ca of None \<Rightarrow> Inr [] | Some c \<Rightarrow> ca_render c)"

record ValidPathInfo =
  vpi_path :: StorePath
  vpi_narHash :: Hash
  vpi_references :: "StorePath list"
  vpi_registrationTime :: int
  vpi_narSize :: "64 word"
  vpi_ca :: "ContentAddress option"

definition isContentAddressed :: "'c sha256_api \<Rightarrow> string \<Rightarrow> ValidPathInfo \<Rightarrow> exn + bool" where
  "isContentAddressed sha storeDir info =
     (case vpi_ca info of
        None \<Rightarrow> Inr False
      | Some ca \<Rightarrow>
          bindE (makeContentAddressedPath sha storeDir (sp_name (vpi_path info)) (ca_hash ca))
            (\<lambda>p. Inr (p = vpi_path info)))"

definition makeFromCA :: "'c sha256_api \<Rightarrow> string \<Rightarrow> string \<Rightarrow> Hash \<Rightarrow> exn + ValidPathInfo" where
  "makeFromCA sha storeDir name narHash =
     bindE (makeContentAddressedPath sha storeDir name narHash) (\<lambda>p.
       Inr \<lparr> vpi_path = p, vpi_narHash = narHash, vpi_references = [], vpi_registrationTime = 0,
             vpi_narSize = 0, vpi_ca = Some (ContentAddress narHash) \<rparr>)"

subsection \<open>Which names are accepted\<close>

text \<open>
  A name is valid if it is not empty, not too long, made of legal characters, and what
  precedes its first dash is neither \<open>.\<close> nor \<open>..\<close>.
\<close>

definition valid_name :: "string \<Rightarrow> bool" where
  "valid_name n \<longleftrightarrow> n \<noteq> [] \<and> length n \<le> 211 \<and> list_all legal_name_char n \<and>
     takeWhile (\<lambda>c. c \<noteq> CHR ''-'') n \<notin> {''.'', ''..''}"

lemma takeWhile_dots:
  "n \<noteq> [] \<Longrightarrow> takeWhile (\<lambda>c. c \<noteq> CHR ''-'') n = ''.'' \<longleftrightarrow> n ! 0 = CHR ''.'' \<and> (length n = 1 \<or> n ! 1 = CHR ''-'')"
  "n \<noteq> [] \<Longrightarrow> takeWhile (\<lambda>c. c \<noteq> CHR ''-'') n = ''..'' \<longleftrightarrow> n ! 0 = CHR ''.'' \<and> 1 < length n \<and> n ! 1 = CHR ''.'' \<and> (length n = 2 \<or> n ! 2 = CHR ''-'')"
  by (cases n; cases "tl n"; cases "tl (tl n)"; auto)+

lemma checkName_result: "checkName n = Inr () \<or> (\<exists>m. checkName n = Inl (BadStorePathName m))"
  by (simp add: checkName_def)

lemma checkName_iff: "checkName n = Inr () \<longleftrightarrow> valid_name n"
proof (cases "n = []")
  case False
  then have "length n = 1 \<or> 1 < length n" by (cases n; cases "tl n"; simp)
  then show ?thesis
    using takeWhile_dots [OF False] False
    by (auto simp: checkName_def valid_name_def MaxPathLen_def list_ex_iff list_all_iff split: if_splits)
qed (simp add: checkName_def valid_name_def)

lemma checkPathName_eq:
  "checkPathName path n =
     (if valid_name n then Inr () else Inl (BadStorePath ''path %s is not a valid store path: %s''))"
  using checkName_result [of n] checkName_iff [of n] by (auto simp: checkPathName_def)

text \<open>The hash part has 32 digits; what separates it from the name is not looked at.\<close>

definition valid_baseName :: "string \<Rightarrow> bool" where
  "valid_baseName b \<longleftrightarrow> 33 \<le> length b \<and> list_all (\<lambda>c. \<not> illegal_hash_char c) (take 32 b) \<and> valid_name (drop 33 b)"

lemma storePath_of_baseName_iff:
  "storePath_of_baseName b = Inr p \<longleftrightarrow> valid_baseName b \<and> p = StorePath b"
  by (auto simp: storePath_of_baseName_def valid_baseName_def checkPathName_eq HashLen_def sp_name_def
      sp_hashPart_def list_ex_iff list_all_iff Let_def)

lemma storePath_of_baseName_result:
  "(\<exists>p. storePath_of_baseName b = Inr p) \<or> (\<exists>m. storePath_of_baseName b = Inl (BadStorePath m))"
  by (auto simp: storePath_of_baseName_def checkPathName_eq Let_def)

lemma nix32_legal_hash: "c \<in> set nix32_characters \<Longrightarrow> \<not> illegal_hash_char c"
  by (auto simp: nix32_characters_def illegal_hash_char_def in_range_def)

lemma storePath_of_hash_eq:
  assumes "hashSize h = 20" "length (hash h) = 32"
  shows "\<exists>d. length d = 32 \<and> list_all (\<lambda>c. \<not> illegal_hash_char c) d \<and>
    storePath_of_hash h n =
      (if valid_name n then Inr (StorePath (d @ ''-'' @ n))
       else Inl (BadStorePath ''path %s is not a valid store path: %s''))"
proof -
  define d where "d = nix32_encode (take 20 (hash h))"
  have ne: "take 20 (hash h) \<noteq> []" using assms by auto
  have l: "length d = 32"
    using length_nix32_encode [OF ne] assms by (simp add: d_def nix32_encodedLength_def)
  moreover have "list_all (\<lambda>c. \<not> illegal_hash_char c) d"
    using set_nix32_encode [of "take 20 (hash h)"] assms nix32_legal_hash
    by (auto simp: d_def list_all_iff)
  moreover have "hash_to_string h Nix32 False = Inr d"
    using assms by (simp add: hash_to_string_def d_def)
  ultimately show ?thesis
    by (intro exI [of _ d]) (simp add: storePath_of_hash_def checkPathName_eq sp_name_def HashLen_def)
qed

subsection \<open>Printing and parsing\<close>

text \<open>The store directory is canonical and not the root.\<close>

definition store_dir :: "string list \<Rightarrow> string" where
  "store_dir ds = render ds"

definition store_dir_ok :: "string \<Rightarrow> bool" where
  "store_dir_ok s \<longleftrightarrow> (\<exists>ds. ds \<noteq> [] \<and> list_all valid_component ds \<and> s = render ds)"

text \<open>A path that a base name can be read back from: the separator is no slash.\<close>

definition sp_ok :: "StorePath \<Rightarrow> bool" where
  "sp_ok p \<longleftrightarrow> valid_baseName (sp_baseName p) \<and> CHR ''/'' \<notin> set (sp_baseName p)"

lemma canonPath_resolve:
  "s \<noteq> [] \<Longrightarrow> hd s = CHR ''/'' \<Longrightarrow>
   canonPath (\<lambda>_. None) s = Inr (path_of (of_components (resolve [] s)))"
  using absPathPure_resolve [of s] by (simp add: canonPath_def absPathPure_def)

lemma valid_baseName_length: "valid_baseName b \<Longrightarrow> 33 \<le> length b"
  by (simp add: valid_baseName_def)

lemma sp_ok_component: "sp_ok p \<Longrightarrow> good_component (sp_baseName p)"
  by (auto simp: sp_ok_def good_component_def dest: valid_baseName_length)

lemma render_snoc_last:
  assumes "CHR ''/'' \<notin> set c"
  shows "ds \<noteq> [] \<Longrightarrow> list_all valid_component ds \<Longrightarrow> parent_path (render (ds @ [c])) = render ds"
    "filename (render (ds @ [c])) = c"
proof -
  have r: "rfind_char (CHR ''/'') (render ds @ CHR ''/'' # c) = Some (length (render ds))"
    using rfind_char_last [OF assms] .
  then show "filename (render (ds @ [c])) = c"
    by (simp add: filename_def)
  assume "ds \<noteq> []" "list_all valid_component ds"
  then have "render ds \<noteq> []" by simp
  with r show "parent_path (render (ds @ [c])) = render ds"
    by (auto simp: parent_path_def split: nat.splits)
qed

lemma good_components_of_valid: "list_all valid_component ds \<Longrightarrow> list_all good_component ds"
  by (simp add: list_all_iff valid_component_def)

lemma parse_print:
  assumes "store_dir_ok storeDir" "sp_ok p"
  shows "parseStorePath storeDir (printStorePath storeDir p) = Inr p"
proof -
  from assms(1) obtain ds where ds: "ds \<noteq> []" "list_all valid_component ds" "storeDir = render ds"
    by (auto simp: store_dir_ok_def)
  have p: "printStorePath storeDir p = render (ds @ [sp_baseName p])"
    by (simp add: printStorePath_def sp_to_string_def ds(3))
  have "list_all good_component (ds @ [sp_baseName p])"
    using good_components_of_valid [OF ds(2)] sp_ok_component [OF assms(2)] by simp
  from resolve_render [OF this, of "[]"]
  have "canonPath (\<lambda>_. None) (render (ds @ [sp_baseName p])) = Inr (render (ds @ [sp_baseName p]))"
    using ds(1) by (cases ds) (simp_all add: canonPath_resolve of_components_def)
  moreover have "CHR ''/'' \<notin> set (sp_baseName p)" using assms(2) by (simp add: sp_ok_def)
  ultimately show ?thesis
    using render_snoc_last [of "sp_baseName p" ds] ds assms(2) p [unfolded ds(3)]
    by (simp add: parseStorePath_def sp_ok_def storePath_of_baseName_iff del: render_append)
qed

lemma print_inject: "printStorePath storeDir p = printStorePath storeDir q \<longleftrightarrow> p = q"
  by (auto simp: printStorePath_def sp_to_string_def StorePath.expand)

lemma parse_result:
  assumes "store_dir_ok storeDir" "parseStorePath storeDir s = Inr p"
  shows "sp_ok p" "\<exists>ds. storeDir = render ds \<and> resolve [] s = ds @ [sp_baseName p]"
proof -
  from assms(1) obtain ds where ds: "ds \<noteq> []" "list_all valid_component ds" "storeDir = render ds"
    by (auto simp: store_dir_ok_def)
  from assms(2) have s: "s \<noteq> []" "hd s = CHR ''/''"
    by (auto simp: parseStorePath_def canonPath_def split: if_splits)
  define q where "q = path_of (of_components (resolve [] s))"
  have q: "parent_path q = render ds" "valid_baseName (filename q)" "p = StorePath (filename q)"
    using assms(2) s ds(3)
    by (auto simp: parseStorePath_def canonPath_resolve q_def storePath_of_baseName_iff split: if_splits)
  have good: "list_all good_component (resolve [] s)" by (rule resolve_good) simp
  obtain xs c where xs: "resolve [] s = xs @ [c]"
  proof (cases "resolve [] s" rule: rev_cases)
    case Nil
    then have "filename q = []" by (simp add: q_def of_components_def filename_def rfind_char_def)
    then show ?thesis using valid_baseName_length [OF q(2)] by simp
  qed auto
  have c: "CHR ''/'' \<notin> set c" "list_all good_component xs" using good xs by (simp_all add: good_component_def)
  have q': "q = render (xs @ [c])" by (simp add: q_def xs of_components_def)
  have f: "filename q = c" using render_snoc_last(2) [OF c(1)] by (simp add: q')
  have "xs \<noteq> []"
  proof
    assume "xs = []"
    then have "parent_path q = ''/''"
      using rfind_char_last [OF c(1), of "[]"] by (simp add: q' parent_path_def)
    with q(1) have "render ds = [CHR ''/'']" by simp
    moreover have "render ds \<noteq> [CHR ''/'']"
      using ds(1,2) by (cases ds) (auto simp: list_all_iff dest: valid_componentD)
    ultimately show False by simp
  qed
  have "render xs = render ds"
  proof -
    have "rfind_char (CHR ''/'') (render xs @ CHR ''/'' # c) = Some (length (render xs))"
      by (rule rfind_char_last [OF c(1)])
    moreover have "render xs \<noteq> []" using \<open>xs \<noteq> []\<close> by simp
    ultimately have "parent_path q = render xs"
      by (auto simp: q' parent_path_def split: nat.splits)
    with q(1) show ?thesis by simp
  qed
  with xs f q(3) ds(3) show "\<exists>ds. storeDir = render ds \<and> resolve [] s = ds @ [sp_baseName p]"
    by (intro exI [of _ xs]) simp
  show "sp_ok p" using q(2,3) f c(1) by (simp add: sp_ok_def)
qed

subsection \<open>Paths inside the store\<close>

lemma tokenize_render: "list_all good_component cs \<Longrightarrow> tokenizeString (render cs) ''/'' = cs"
proof (induction cs)
  case Nil
  show ?case by (subst tokenizeString.simps) simp
next
  case (Cons c cs)
  then obtain a c' where c: "c = a # c'" "a \<noteq> CHR ''/''" "CHR ''/'' \<notin> set c'"
    by (cases c) (auto simp: good_component_def)
  have "takeWhile (\<lambda>x. x \<notin> set ''/'') (c' @ render cs) = c' \<and> dropWhile (\<lambda>x. x \<notin> set ''/'') (c' @ render cs) = render cs"
    using c(3) by (cases cs) (auto simp: takeWhile_tail takeWhile_eq_all_conv dropWhile_append)
  then show ?case
    using Cons c by (subst tokenizeString.simps) simp
qed

lemma path_elems_render:
  assumes "list_all good_component cs" "cs \<noteq> []"
  shows "path_elems (render cs) = ''/'' # cs"
proof -
  obtain xs c where cs: "cs = xs @ [c]" using assms(2) by (cases cs rule: rev_cases) auto
  then have c: "c \<noteq> []" "CHR ''/'' \<notin> set c" using assms(1) by (simp_all add: good_component_def)
  have "last (render cs) = last c" using cs c(1) by simp
  then have "last (render cs) \<noteq> CHR ''/''"
    using last_in_set [OF c(1)] c(2) by metis
  moreover have "render cs \<noteq> [] \<and> hd (render cs) = CHR ''/''" using assms(2) by (cases cs) auto
  ultimately show ?thesis
    using tokenize_render [OF assms(1)] assms(2) by (simp add: path_elems_def)
qed

lemma mismatch_spec:
  "mismatch xs ys = (a, b) \<Longrightarrow> \<exists>p. xs = p @ a \<and> ys = p @ b \<and> (a = [] \<or> b = [] \<or> hd a \<noteq> hd b)"
proof (induction xs ys rule: mismatch.induct)
  case (1 x xs y ys)
  show ?case
  proof (cases "x = y")
    case True
    with 1 obtain p where "xs = p @ a" "ys = p @ b" "a = [] \<or> b = [] \<or> hd a \<noteq> hd b" by auto
    with True show ?thesis by (intro exI [of _ "x # p"]) simp
  qed (use 1 in auto)
qed auto

lemma isInStore_components:
  assumes "ds \<noteq> []" "list_all valid_component ds" "list_all valid_component cs" "cs \<noteq> []"
  shows "isInStore (render ds) (render cs) \<longleftrightarrow> (\<exists>x xs. cs = ds @ x # xs)"
proof -
  obtain a b where m: "mismatch cs ds = (a, b)" by fastforce
  from mismatch_spec [OF this] obtain p where p: "cs = p @ a" "ds = p @ b" "a = [] \<or> b = [] \<or> hd a \<noteq> hd b"
    by blast
  have abs: "render cs \<noteq> [] \<and> hd (render cs) = CHR ''/''" "render ds \<noteq> [] \<and> hd (render ds) = CHR ''/''"
    using assms(1,4) by (cases cs; cases ds; simp)+
  have b: "filter (\<lambda>c. c \<noteq> [] \<and> c \<noteq> ''.'' \<and> c \<noteq> ''..'') b = b" "filter (\<lambda>c. c = ''..'') b = []"
    using assms(2) p(2) by (auto simp: filter_id_conv filter_empty_conv list_all_iff dest: valid_componentD)
  have r: "lexically_relative (render cs) (render ds) =
      (if a = [] \<and> b = [] then [''.''] else if b = [] \<and> (a = [] \<or> hd a = []) then [''.'']
       else replicate (length b) ''..'' @ a)"
    using abs m b path_elems_render [OF good_components_of_valid [OF assms(2)] assms(1)]
      path_elems_render [OF good_components_of_valid [OF assms(3)] assms(4)]
    by (auto simp: lexically_relative_def Let_def)
  show ?thesis
  proof (cases "b = []")
    case b: True
    show ?thesis
    proof (cases a)
      case (Cons x xs)
      then have "valid_component x" using assms(3) p(1) by simp
      with b Cons p r show ?thesis
        by (auto simp: isInStore_def isInDir_def dest: valid_componentD)
    qed (use b p r in \<open>simp add: isInStore_def isInDir_def\<close>)
  next
    case False
    then obtain y ys where "b = y # ys" by (cases b) auto
    then have "\<not> isInStore (render ds) (render cs)"
      using r by (simp add: isInStore_def isInDir_def)
    moreover have "cs \<noteq> ds @ x # xs" for x xs
      using p \<open>b = y # ys\<close> by auto
    ultimately show ?thesis by blast
  qed
qed

lemma valid_component_legal: "sp_ok p \<Longrightarrow> CHR 0x00 \<notin> set (sp_baseName p) \<Longrightarrow> valid_component (sp_baseName p)"
  using sp_ok_component by (simp add: valid_component_def)

lemma toStorePath_below:
  assumes "store_dir_ok storeDir" "sp_ok p" "CHR 0x00 \<notin> set (sp_baseName p)" "list_all valid_component xs"
  shows "isInStore storeDir (printStorePath storeDir p @ render xs)"
    "toStorePath storeDir (printStorePath storeDir p @ render xs) = Inr (p, of_components xs)"
proof -
  from assms(1) obtain ds where ds: "ds \<noteq> []" "list_all valid_component ds" "storeDir = render ds"
    by (auto simp: store_dir_ok_def)
  have p: "printStorePath storeDir p @ render xs = render (ds @ sp_baseName p # xs)"
    by (simp add: printStorePath_def sp_to_string_def ds(3))
  show i: "isInStore storeDir (printStorePath storeDir p @ render xs)"
    using isInStore_components [OF ds(1,2), of "ds @ sp_baseName p # xs"] ds assms(4)
      valid_component_legal [OF assms(2,3)] p by (auto simp del: render_append)
  have d: "drop (length storeDir + 1) (printStorePath storeDir p @ render xs) = sp_baseName p @ render xs"
    by (simp add: printStorePath_def sp_to_string_def)
  have nos: "CHR ''/'' \<notin> set (sp_baseName p)" using assms(2) by (simp add: sp_ok_def)
  show "toStorePath storeDir (printStorePath storeDir p @ render xs) = Inr (p, of_components xs)"
  proof (cases xs)
    case Nil
    have "find_char (CHR ''/'') (sp_baseName p) = None"
      using nos by (auto simp: find_char_def)
    with Nil i d parse_print [OF assms(1,2)] show ?thesis
      by (simp add: toStorePath_def of_components_def cp_root_def)
  next
    case (Cons x ys)
    have f: "find_char (CHR ''/'') (sp_baseName p @ render xs) = Some (length (sp_baseName p))"
      using find_char_here [OF nos, of "x @ render ys"] Cons by simp
    have t: "take (length storeDir + 1 + length (sp_baseName p)) (printStorePath storeDir p @ render xs) = printStorePath storeDir p"
      "drop (length storeDir + 1 + length (sp_baseName p)) (printStorePath storeDir p @ render xs) = render xs"
      by (simp_all add: printStorePath_def sp_to_string_def)
    have "CHR 0x00 \<notin> set (render xs)"
      using assms(4) by (auto simp: render_def list_all_iff dest: valid_componentD)
    then have "canon_path (render xs) = Inr (of_components xs)"
      using resolve_render [OF good_components_of_valid [OF assms(4)], of "[]"] by (simp add: canon_path_eq)
    with i d f t parse_print [OF assms(1,2)] show ?thesis
      by (simp add: toStorePath_def Let_def del: drop_append take_append)
  qed
qed

subsection \<open>Content-addressed paths\<close>

lemma hash_base16_ok: "sha256_hash h \<Longrightarrow> \<exists>s. hash_to_string h Base16 True = Inr s"
  by (simp add: hash_to_string_def sha256_hash_def)

lemma legal_chars:
  "illegal_hash_char (CHR ''/'')" "illegal_hash_char (CHR 0x00)"
  "\<not> legal_name_char (CHR ''/'')" "\<not> legal_name_char (CHR 0x00)"
  by (simp_all add: illegal_hash_char_def legal_name_char_def in_range_def)

lemma dashed_sp_ok:
  assumes "length d = 32" "list_all (\<lambda>c. \<not> illegal_hash_char c) d" "valid_name n"
  shows "sp_ok (StorePath (d @ ''-'' @ n))" "CHR 0x00 \<notin> set (d @ ''-'' @ n)" "sp_name (StorePath (d @ ''-'' @ n)) = n"
  using assms legal_chars
  by (auto simp: sp_ok_def valid_baseName_def valid_name_def list_all_iff sp_name_def HashLen_def)

text \<open>
  The digits of the path depend on the name as well, so they are some digits for each name.
\<close>

lemma makeContentAddressedPath_eq:
  assumes "sha256_ok sha" "sha256_hash h"
  shows "\<exists>d. length d = 32 \<and> list_all (\<lambda>c. \<not> illegal_hash_char c) d \<and>
    makeContentAddressedPath sha storeDir n h =
      (if valid_name n then Inr (StorePath (d @ ''-'' @ n))
       else Inl (BadStorePath ''path %s is not a valid store path: %s''))"
proof -
  obtain s where s: "hash_to_string h Base16 True = Inr s" using hash_base16_ok [OF assms(2)] by blast
  define t where "t = ''source'' @ '':'' @ s @ '':'' @ storeDir @ '':'' @ n"
  obtain r where r: "compressHash (hashString sha t) 20 = Inr r" using compressHash_total by fastforce
  have "hashSize r = 20" "length (hash r) = 32"
    using compressHash_bytes(1,2) [OF _ _ r, of 0] by simp_all
  from storePath_of_hash_eq [OF this, of n] s r show ?thesis
    by (simp add: makeContentAddressedPath_def makeStorePath_hash_def makeStorePath_def t_def Let_def)
qed

lemma ca_parse_render:
  assumes "sha256_hash h"
  shows "bindE (ca_render (ContentAddress h)) ca_parseOpt = Inr (Some (ContentAddress h))"
proof -
  obtain s where s: "hash_to_string h Nix32 True = Inr s"
    using assms by (simp add: hash_to_string_def sha256_hash_def)
  then have "parseAnyPrefixed s = Inr h" using parse_to_string [OF assms, of Nix32] by simp
  with s show ?thesis
    by (simp add: ca_render_def ca_parseOpt_def ca_parse_def) (simp add: caPrefix_def)
qed

lemma makeFromCA_facts:
  assumes "sha256_ok sha" "sha256_hash h" "makeFromCA sha storeDir n h = Inr info"
  shows "isContentAddressed sha storeDir info = Inr True" "sp_ok (vpi_path info)" "sp_name (vpi_path info) = n"
    "CHR 0x00 \<notin> set (sp_baseName (vpi_path info))" "vpi_narHash info = h" "vpi_references info = []"
    "vpi_ca info = Some (ContentAddress h)" "makeContentAddressedPath sha storeDir n h = Inr (vpi_path info)"
proof -
  obtain d where d: "length d = 32" "list_all (\<lambda>c. \<not> illegal_hash_char c) d"
    "makeContentAddressedPath sha storeDir n h =
      (if valid_name n then Inr (StorePath (d @ ''-'' @ n))
       else Inl (BadStorePath ''path %s is not a valid store path: %s''))"
    using makeContentAddressedPath_eq [OF assms(1,2)] by blast
  with assms(3) have v: "valid_name n" "vpi_path info = StorePath (d @ ''-'' @ n)"
    and i: "vpi_ca info = Some (ContentAddress h)" "vpi_narHash info = h" "vpi_references info = []"
    by (auto simp: makeFromCA_def split: if_splits)
  note ok = dashed_sp_ok [OF d(1,2) v(1)]
  show "sp_ok (vpi_path info)" "sp_name (vpi_path info) = n" "CHR 0x00 \<notin> set (sp_baseName (vpi_path info))"
    using ok v(2) by simp_all
  show "isContentAddressed sha storeDir info = Inr True"
    "makeContentAddressedPath sha storeDir n h = Inr (vpi_path info)"
    using ok(3) v i d(3) by (simp_all add: isContentAddressed_def)
  show "vpi_narHash info = h" "vpi_references info = []" "vpi_ca info = Some (ContentAddress h)"
    by (fact i)+
qed

subsection \<open>Properties\<close>

text \<open>
  C17.  A path inside a store object is printed and read back: parsing the printed store path gives
  it back, and splitting a path below it gives the store path and the rest.
\<close>

theorem storePath_roundtrip:
  assumes "store_dir_ok storeDir" and "sp_ok p" and "CHR 0x00 \<notin> set (sp_baseName p)"
    and "list_all valid_component xs"
  shows "parseStorePath storeDir (printStorePath storeDir p) = Inr p \<and>
    isInStore storeDir (printStorePath storeDir p @ render xs) \<and>
    toStorePath storeDir (printStorePath storeDir p @ render xs) = Inr (p, of_components xs)"
  using parse_print [OF assms(1,2)] toStorePath_below [OF assms] by blast

lemma nix_store_ok: "store_dir_ok ''/nix/store''"
  unfolding store_dir_ok_def
  by (rule exI [of _ "[''nix'', ''store'']"]) (simp add: valid_component_def good_component_def)

lemma dummy_ok: "sp_ok (StorePath ''ffffffffffffffffffffffffffffffff-x'')"
  using dashed_sp_ok(1) [of "replicate 32 (CHR ''f'')" "''x''"]
  by (simp add: illegal_hash_char_def in_range_def valid_name_def legal_name_char_def eval_nat_numeral)

theorem storePath_roundtrip_witness:
  "toStorePath ''/nix/store'' (printStorePath ''/nix/store'' (StorePath ''ffffffffffffffffffffffffffffffff-x'') @ ''/bin/sh'') =
    Inr (StorePath ''ffffffffffffffffffffffffffffffff-x'', CanonPath ''/bin/sh'')"
  using storePath_roundtrip [OF nix_store_ok dummy_ok, of "[''bin'', ''sh'']"]
  by (simp add: valid_component_def good_component_def of_components_def)


text \<open>
  The separator between hash and name is not looked at: with anything in its place, even a
  slash, the base name is accepted, and a path with a slash there does not parse back.
\<close>

theorem separator_unchecked:
  "storePath_of_baseName (''ffffffffffffffffffffffffffffffff/x'') = Inr (StorePath ''ffffffffffffffffffffffffffffffff/x'') \<and>
   parseStorePath ''/nix/store'' (printStorePath ''/nix/store'' (StorePath ''ffffffffffffffffffffffffffffffff/x'')) =
     Inl (BadStorePath ''path %s is not in the Nix store'')"
proof -
  let ?b = "''ffffffffffffffffffffffffffffffff/x''"
  let ?d = "''ffffffffffffffffffffffffffffffff''"
  have c: "valid_baseName ?b"
    by (simp add: valid_baseName_def valid_name_def illegal_hash_char_def in_range_def legal_name_char_def eval_nat_numeral)
  have "parseStorePath ''/nix/store'' (printStorePath ''/nix/store'' (StorePath ?b)) =
      Inl (BadStorePath ''path %s is not in the Nix store'')"
  proof -
    have p: "printStorePath ''/nix/store'' (StorePath ?b) = render [''nix'', ''store'', ?d, ''x'']"
      by (simp add: printStorePath_def sp_to_string_def)
    have "resolve [] (render [''nix'', ''store'', ?d, ''x'']) = [''nix'', ''store'', ?d, ''x'']"
      using resolve_render [of "[''nix'', ''store'', ?d, ''x'']" "[]"] by (simp add: good_component_def)
    then have "canonPath (\<lambda>_. None) (render [''nix'', ''store'', ?d, ''x'']) = Inr (render [''nix'', ''store'', ?d, ''x''])"
      by (subst canonPath_resolve) (simp_all add: of_components_def)
    moreover have "parent_path (render [''nix'', ''store'', ?d, ''x'']) = render [''nix'', ''store'', ?d]"
      using render_snoc_last(1) [of "''x''" "[''nix'', ''store'', ?d]"]
      by (simp add: valid_component_def good_component_def)
    ultimately show ?thesis by (simp add: parseStorePath_def p)
  qed
  then show ?thesis using c by (simp add: storePath_of_baseName_iff)
qed

text \<open>
  C16.  The path of an import follows from the digest of its archive and its name: every valid name
  gets a path, whose info passes the check of its content address, whose name part is the name,
  and whose content address reads back from the rendered form; an invalid name is rejected.
\<close>

theorem content_address_checks:
  assumes "sha256_ok sha" and "sha256_hash h"
  shows "if valid_name n
    then \<exists>info. makeFromCA sha storeDir n h = Inr info \<and> isContentAddressed sha storeDir info = Inr True \<and>
      sp_name (vpi_path info) = n \<and> sp_ok (vpi_path info) \<and>
      bindE (renderContentAddress (vpi_ca info)) ca_parseOpt = Inr (vpi_ca info)
    else makeFromCA sha storeDir n h = Inl (BadStorePath ''path %s is not a valid store path: %s'')"
proof (cases "valid_name n")
  case False
  then show ?thesis
    using makeContentAddressedPath_eq [OF assms, of storeDir n] by (auto simp: makeFromCA_def)
next
  case True
  then obtain info where i: "makeFromCA sha storeDir n h = Inr info"
    using makeContentAddressedPath_eq [OF assms, of storeDir n] by (auto simp: makeFromCA_def)
  with True makeFromCA_facts [OF assms i] ca_parse_render [OF assms(2)] show ?thesis
    by (simp add: renderContentAddress_def)
qed

theorem content_address_checks_witness:
  "\<exists>info. makeFromCA toy_sha ''/nix/store'' ''arch'' (hashString toy_sha ''nar'') = Inr info \<and>
    isContentAddressed toy_sha ''/nix/store'' info = Inr True"
  using content_address_checks [OF toy_sha_ok hashString_sha256 [OF toy_sha_ok], of "''arch''" "''/nix/store''" "''nar''"]
  by (auto simp: valid_name_def legal_name_char_def in_range_def)

end
