(* ===== verification/StoreDb.thy ===== *)
theory StoreDb
  imports StorePath
begin

text \<open>
  The database of the store: the tables of \<open>libstore/schema.sql\<close>, the prepared statements of
  \<open>LocalStore\<close> as functions on them, transactions and retries (\<open>libstore/sqlite.cc\<close>), and the
  operations of \<open>libstore/local-store.cc\<close> on top.

  The SQL texts are in the sources, and each statement is translated to what SQL says it does
  to the tables.  SQLite may answer \<open>SQLITE_BUSY\<close> whenever it takes a lock: \<open>db_busy\<close> is the
  script of these answers, one for each step, and with the script used up no step is busy.
  \<open>db_signals\<close> are the answers of the interrupt flag.
\<close>

subsection \<open>Tables\<close>

record valid_row =
  r_id :: nat
  r_path :: string
  r_hash :: string
  r_time :: int
  r_size :: "int option"
  r_ca :: "string option"

record store_db =
  db_paths :: "valid_row list"
  db_refs :: "(nat \<times> nat) list"
  db_seq :: nat
  db_busy :: "bool list"
  db_signals :: "bool list"

definition db_checkInterrupt :: "(store_db, unit) M" where
  "db_checkInterrupt s =
     (case db_signals s of
        [] \<Rightarrow> (Inr (), s)
      | b # r \<Rightarrow> ((if b then Inl (Interrupted ''interrupted by the user'') else Inr ()), s\<lparr>db_signals := r\<rparr>))"

text \<open>One \<open>sqlite3_step\<close>: busy, or what the statement does.\<close>

definition sql_step :: "(store_db, 'a) M \<Rightarrow> (store_db, 'a) M" where
  "sql_step m s =
     (case db_busy s of
        [] \<Rightarrow> m s
      | b # r \<Rightarrow> if b then (Inl (SQLiteBusy ''SQLite database %s is busy''), s\<lparr>db_busy := r\<rparr>)
                else m (s\<lparr>db_busy := r\<rparr>))"

subsection \<open>Transactions and retries\<close>

definition rollback :: "store_db \<Rightarrow> store_db \<Rightarrow> store_db" where
  "rollback s0 s = s\<lparr>db_paths := db_paths s0, db_refs := db_refs s0, db_seq := db_seq s0\<rparr>"

text \<open>
  A block with a \<open>SQLiteTxn\<close> that ends with \<open>commit\<close>: the destructor rolls back when the
  transaction is still active, which is when the block or the commit has thrown.
\<close>

definition sqlite_txn :: "(store_db, 'a) M \<Rightarrow> (store_db, 'a) M" where
  "sqlite_txn body s =
     (case sql_step (ret ()) s of
        (Inl e, s) \<Rightarrow> (Inl e, s)
      | (Inr _, s0) \<Rightarrow>
          (case body s0 of
             (Inl e, s) \<Rightarrow> (Inl e, rollback s0 s)
           | (Inr x, s) \<Rightarrow>
               (case sql_step (ret ()) s of
                  (Inl e, s) \<Rightarrow> (Inl e, rollback s0 s)
                | (Inr _, s) \<Rightarrow> (Inr x, s))))"

definition handleSQLiteBusy :: "(store_db, unit) M" where
  "handleSQLiteBusy = db_checkInterrupt"

fun retry_loop :: "nat \<Rightarrow> (store_db, 'a) M \<Rightarrow> (store_db, 'a) M" where
  "retry_loop 0 m = throw Diverge"
| "retry_loop (Suc fuel) m =
     catchM m (\<lambda>e.
       case e of
         SQLiteBusy _ \<Rightarrow> seqM handleSQLiteBusy (retry_loop fuel m)
       | _ \<Rightarrow> throw e)"

text \<open>A busy answer uses up a line of the script, so more tries than lines are not needed.\<close>

definition retrySQLite :: "(store_db, 'a) M \<Rightarrow> (store_db, 'a) M" where
  "retrySQLite m s = retry_loop (Suc (length (db_busy s))) m s"

subsection \<open>Statements\<close>

text \<open>\<open>insert into ValidPaths\<close>: \<open>path\<close> is unique, \<open>id\<close> is numbered on.\<close>

definition RegisterValidPath :: "string \<Rightarrow> string \<Rightarrow> int \<Rightarrow> int option \<Rightarrow> string option \<Rightarrow> (store_db, unit) M" where
  "RegisterValidPath path h time sz ca = sql_step (\<lambda>s.
     if list_ex (\<lambda>r. r_path r = path) (db_paths s)
     then (Inl (SQLiteError ''executing SQLite statement %s''), s)
     else (Inr (), s\<lparr>db_paths := db_paths s @ [\<lparr> r_id = Suc (db_seq s), r_path = path, r_hash = h,
             r_time = time, r_size = sz, r_ca = ca \<rparr>], db_seq := Suc (db_seq s)\<rparr>))"

text \<open>\<open>update ValidPaths set narSize, hash, ca where path\<close>.\<close>

definition UpdatePathInfo :: "int option \<Rightarrow> string \<Rightarrow> string option \<Rightarrow> string \<Rightarrow> (store_db, unit) M" where
  "UpdatePathInfo sz h ca path = sql_step (modS (\<lambda>s.
     s\<lparr>db_paths := map (\<lambda>r. if r_path r = path then r\<lparr>r_size := sz, r_hash := h, r_ca := ca\<rparr> else r)
         (db_paths s)\<rparr>))"

text \<open>\<open>insert or replace into Refs\<close>, with both foreign keys checked.\<close>

definition AddReference :: "nat \<Rightarrow> nat \<Rightarrow> (store_db, unit) M" where
  "AddReference referrer reference = sql_step (\<lambda>s.
     if referrer \<in> r_id ` set (db_paths s) \<and> reference \<in> r_id ` set (db_paths s)
     then (Inr (), s\<lparr>db_refs := filter (\<lambda>x. x \<noteq> (referrer, reference)) (db_refs s) @ [(referrer, reference)]\<rparr>)
     else (Inl (SQLiteError ''executing SQLite statement %s''), s))"

text \<open>\<open>select id, hash, registrationTime, narSize, ca from ValidPaths where path\<close>.\<close>

definition QueryPathInfo :: "string \<Rightarrow> (store_db, valid_row option) M" where
  "QueryPathInfo path = sql_step (getS (\<lambda>s. find (\<lambda>r. r_path r = path) (db_paths s)))"

text \<open>\<open>select path from Refs join ValidPaths on reference = id where referrer\<close>.\<close>

definition QueryReferences :: "nat \<Rightarrow> (store_db, string list) M" where
  "QueryReferences referrer = sql_step (getS (\<lambda>s.
     [r_path v. (a, b) \<leftarrow> db_refs s, a = referrer, v \<leftarrow> db_paths s, b = r_id v]))"

text \<open>
  \<open>select path from Refs join ValidPaths on referrer = id where reference = (select id from
  ValidPaths where path = ?)\<close>; the inner select is \<open>null\<close>, and equal to nothing, for an unknown
  path.
\<close>

definition QueryReferrers :: "string \<Rightarrow> (store_db, string list) M" where
  "QueryReferrers path = sql_step (getS (\<lambda>s.
     case find (\<lambda>r. r_path r = path) (db_paths s) of
       None \<Rightarrow> []
     | Some t \<Rightarrow> [r_path v. (a, b) \<leftarrow> db_refs s, b = r_id t, v \<leftarrow> db_paths s, a = r_id v]))"

text \<open>
  \<open>delete from ValidPaths where path\<close>: the trigger removes self-references, then a row that is
  still referenced restricts the deletion, and the references of the row go with it.
\<close>

definition InvalidatePath :: "string \<Rightarrow> (store_db, unit) M" where
  "InvalidatePath path = sql_step (\<lambda>s.
     case find (\<lambda>r. r_path r = path) (db_paths s) of
       None \<Rightarrow> (Inr (), s)
     | Some t \<Rightarrow>
         let refs = filter (\<lambda>x. x \<noteq> (r_id t, r_id t)) (db_refs s) in
         if list_ex (\<lambda>(a, b). b = r_id t) refs
         then (Inl (SQLiteError ''executing SQLite statement %s''), s)
         else (Inr (), s\<lparr>db_paths := filter (\<lambda>r. r_path r \<noteq> path) (db_paths s),
                         db_refs := filter (\<lambda>(a, b). a \<noteq> r_id t) refs\<rparr>))"

text \<open>\<open>select path from ValidPaths where path >= ? order by path\<close>, bytes compared unsigned.\<close>

definition QueryPathsByHashPrefix :: "string \<Rightarrow> (store_db, string list) M" where
  "QueryPathsByHashPrefix pre = sql_step (getS (\<lambda>s.
     sort (filter (\<lambda>p. pre \<le> p) (map r_path (db_paths s)))))"

definition QueryValidPaths :: "(store_db, string list) M" where
  "QueryValidPaths = sql_step (getS (\<lambda>s. map r_path (db_paths s)))"

subsection \<open>Sets of store paths\<close>

text \<open>\<open>std::set<StorePath>\<close>: sorted, without duplicates, ordered by base name.\<close>

instantiation StorePath :: linorder
begin

definition less_eq_StorePath :: "StorePath \<Rightarrow> StorePath \<Rightarrow> bool" where
  "less_eq_StorePath p q \<longleftrightarrow> sp_baseName p \<le> sp_baseName q"

definition less_StorePath :: "StorePath \<Rightarrow> StorePath \<Rightarrow> bool" where
  "less_StorePath p q \<longleftrightarrow> sp_baseName p < sp_baseName q"

instance
  by standard (auto simp: less_eq_StorePath_def less_StorePath_def StorePath.expand)

end

definition path_insert :: "StorePath \<Rightarrow> StorePath list \<Rightarrow> StorePath list" where
  "path_insert p ps = (if p \<in> set ps then ps else insort p ps)"

text \<open>The loop that parses every path of a result into a set.\<close>

fun insert_all :: "string \<Rightarrow> string list \<Rightarrow> StorePath list \<Rightarrow> exn + StorePath list" where
  "insert_all storeDir [] acc = Inr acc"
| "insert_all storeDir (s # ss) acc =
     bindE (parseStorePath storeDir s) (\<lambda>p. insert_all storeDir ss (path_insert p acc))"

subsection \<open>The operations of the store\<close>

definition int64_of :: "64 word \<Rightarrow> int option" where
  "int64_of n = (if n \<noteq> 0 then Some (sint n) else None)"

definition addValidPath :: "'c sha256_api \<Rightarrow> string \<Rightarrow> int \<Rightarrow> ValidPathInfo \<Rightarrow> (store_db, nat) M" where
  "addValidPath sha storeDir now info =
     bindM (if vpi_ca info = None then ret True else liftE (isContentAddressed sha storeDir info)) (\<lambda>ok.
     if \<not> ok
     then throw (Error ''cannot add path %s to the Nix store because it claims to be content-addressed but isn't'')
     else
       bindM (liftE (hash_to_string (vpi_narHash info) Base16 True)) (\<lambda>h.
       bindM (liftE (renderContentAddress (vpi_ca info))) (\<lambda>ca.
       seqM (RegisterValidPath (printStorePath storeDir (vpi_path info)) h
               (if vpi_registrationTime info = 0 then now else vpi_registrationTime info)
               (int64_of (vpi_narSize info))
               (if vpi_ca info = None then None else Some ca))
         (getS db_seq))))"

definition queryPathInfoInternal :: "string \<Rightarrow> StorePath \<Rightarrow> (store_db, ValidPathInfo option) M" where
  "queryPathInfoInternal storeDir path =
     bindM (QueryPathInfo (printStorePath storeDir path)) (\<lambda>row.
     case row of
       None \<Rightarrow> ret None
     | Some r \<Rightarrow>
         bindM (liftE (catchE (parseAnyPrefixed (r_hash r)) (\<lambda>e.
                  case e of BadHash _ \<Rightarrow> Inl (Error ''invalid-path entry for %s: %s'') | _ \<Rightarrow> Inl e))) (\<lambda>narHash.
         bindM (case r_ca r of None \<Rightarrow> ret None | Some s \<Rightarrow> liftE (ca_parseOpt s)) (\<lambda>ca.
         bindM (QueryReferences (r_id r)) (\<lambda>ps.
         bindM (liftE (insert_all storeDir ps [])) (\<lambda>refs.
         ret (Some \<lparr> vpi_path = path, vpi_narHash = narHash, vpi_references = refs,
                     vpi_registrationTime = r_time r,
                     vpi_narSize = word_of_int (case r_size r of None \<Rightarrow> 0 | Some n \<Rightarrow> n),
                     vpi_ca = ca \<rparr>))))))"

definition queryPathInfoUnchecked :: "string \<Rightarrow> StorePath \<Rightarrow> (store_db, ValidPathInfo option) M" where
  "queryPathInfoUnchecked storeDir path = retrySQLite (queryPathInfoInternal storeDir path)"

definition MissingName :: string where
  "MissingName = ''x''"

definition goodStorePath :: "StorePath \<Rightarrow> StorePath \<Rightarrow> bool" where
  "goodStorePath expected actual \<longleftrightarrow>
     sp_hashPart expected = sp_hashPart actual \<and>
     (sp_name expected = MissingName \<or> sp_name expected = sp_name actual)"

definition queryPathInfo :: "string \<Rightarrow> StorePath \<Rightarrow> (store_db, ValidPathInfo) M" where
  "queryPathInfo storeDir path =
     bindM (queryPathInfoUnchecked storeDir path) (\<lambda>info.
     case info of
       None \<Rightarrow> throw (InvalidPath ''path %s is not valid'')
     | Some i \<Rightarrow> if goodStorePath path (vpi_path i) then ret i
                 else throw (InvalidPath ''path %s is not valid''))"

definition updatePathInfo :: "string \<Rightarrow> ValidPathInfo \<Rightarrow> (store_db, unit) M" where
  "updatePathInfo storeDir info =
     bindM (liftE (hash_to_string (vpi_narHash info) Base16 True)) (\<lambda>h.
     bindM (liftE (renderContentAddress (vpi_ca info))) (\<lambda>ca.
     UpdatePathInfo (int64_of (vpi_narSize info)) h (if vpi_ca info = None then None else Some ca)
       (printStorePath storeDir (vpi_path info))))"

definition queryValidPathId :: "string \<Rightarrow> StorePath \<Rightarrow> (store_db, nat) M" where
  "queryValidPathId storeDir path =
     bindM (QueryPathInfo (printStorePath storeDir path)) (\<lambda>row.
     case row of None \<Rightarrow> throw (InvalidPath ''path %s is not valid'') | Some r \<Rightarrow> ret (r_id r))"

definition isValidPath0 :: "string \<Rightarrow> StorePath \<Rightarrow> (store_db, bool) M" where
  "isValidPath0 storeDir path =
     bindM (QueryPathInfo (printStorePath storeDir path)) (\<lambda>row. ret (row \<noteq> None))"

definition isValidPath :: "string \<Rightarrow> StorePath \<Rightarrow> (store_db, bool) M" where
  "isValidPath storeDir path = retrySQLite (isValidPath0 storeDir path)"

definition queryPathsByHashPrefix :: "string \<Rightarrow> string \<Rightarrow> (store_db, StorePath list) M" where
  "queryPathsByHashPrefix storeDir hashPrefix =
     (if hashPrefix = [] \<or> HashLen < length hashPrefix then throw (Error ''invalid hash prefix %s'')
      else
        let pre = (storeDir @ ''/'') @ hashPrefix in
        retrySQLite (
          bindM (QueryPathsByHashPrefix pre) (\<lambda>ps.
          liftE (insert_all storeDir (takeWhile (\<lambda>p. hasPrefix p pre) ps) []))))"

definition queryAllValidPaths :: "string \<Rightarrow> (store_db, StorePath list) M" where
  "queryAllValidPaths storeDir =
     retrySQLite (bindM QueryValidPaths (\<lambda>ps. liftE (insert_all storeDir ps [])))"

definition queryReferrers0 :: "string \<Rightarrow> StorePath \<Rightarrow> StorePath list \<Rightarrow> (store_db, StorePath list) M" where
  "queryReferrers0 storeDir path referrers =
     bindM (QueryReferrers (printStorePath storeDir path)) (\<lambda>ps. liftE (insert_all storeDir ps referrers))"

definition queryReferrers :: "string \<Rightarrow> StorePath \<Rightarrow> StorePath list \<Rightarrow> (store_db, StorePath list) M" where
  "queryReferrers storeDir path referrers = retrySQLite (queryReferrers0 storeDir path referrers)"

definition registerValidPath_body :: "'c sha256_api \<Rightarrow> string \<Rightarrow> int \<Rightarrow> ValidPathInfo \<Rightarrow> (store_db, unit) M" where
  "registerValidPath_body sha storeDir now info =
     seqM (bindM (isValidPath0 storeDir (vpi_path info)) (\<lambda>valid.
             if valid then updatePathInfo storeDir info
             else bindM (addValidPath sha storeDir now info) (\<lambda>_. ret ())))
       (if vpi_references info = [] then ret ()
        else bindM (queryValidPathId storeDir (vpi_path info)) (\<lambda>referrer.
          forM (\<lambda>j. bindM (queryValidPathId storeDir j) (AddReference referrer)) (vpi_references info)))"

definition registerValidPath :: "'c sha256_api \<Rightarrow> string \<Rightarrow> int \<Rightarrow> ValidPathInfo \<Rightarrow> (store_db, unit) M" where
  "registerValidPath sha storeDir now info = retrySQLite (sqlite_txn (registerValidPath_body sha storeDir now info))"

definition invalidatePath :: "string \<Rightarrow> StorePath \<Rightarrow> (store_db, unit) M" where
  "invalidatePath storeDir path = InvalidatePath (printStorePath storeDir path)"

definition invalidatePathChecked_body :: "string \<Rightarrow> StorePath \<Rightarrow> (store_db, unit) M" where
  "invalidatePathChecked_body storeDir path =
     bindM (isValidPath0 storeDir path) (\<lambda>valid.
       if valid then
         bindM (queryReferrers0 storeDir path []) (\<lambda>referrers.
           if filter (\<lambda>p. p \<noteq> path) referrers \<noteq> []
           then throw (PathInUse ''cannot delete path %s because it is in use by %s'')
           else invalidatePath storeDir path)
       else ret ())"

definition invalidatePathChecked :: "string \<Rightarrow> StorePath \<Rightarrow> (store_db, unit) M" where
  "invalidatePathChecked storeDir path = retrySQLite (sqlite_txn (invalidatePathChecked_body storeDir path))"

subsection \<open>Busy answers do not show\<close>

text \<open>
  \<open>calm s\<close>: the same tables with nobody else at the database.  \<open>steps m\<close>: on any state \<open>m\<close>
  either does what it does on the calm one, or stops with a busy answer of the script.
\<close>

definition calm :: "store_db \<Rightarrow> store_db" where
  "calm s = s\<lparr>db_busy := [], db_signals := []\<rparr>"

definition db_tables :: "store_db \<Rightarrow> valid_row list \<times> (nat \<times> nat) list \<times> nat" where
  "db_tables s = (db_paths s, db_refs s, db_seq s)"

fun own_exn :: "exn \<Rightarrow> bool" where
  "own_exn (SQLiteBusy _) = False"
| "own_exn Diverge = False"
| "own_exn _ = True"

definition own_result :: "exn + 'a \<Rightarrow> bool" where
  "own_result r \<longleftrightarrow> (case r of Inl e \<Rightarrow> own_exn e | Inr _ \<Rightarrow> True)"

lemma own_result_simps [simp]: "own_result (Inr x)" "own_result (Inl e) \<longleftrightarrow> own_exn e"
  by (simp_all add: own_result_def)

definition busy_answer :: "(exn + 'a) \<times> store_db \<Rightarrow> store_db \<Rightarrow> bool" where
  "busy_answer x s \<longleftrightarrow> (\<exists>m. fst x = Inl (SQLiteBusy m)) \<and> length (db_busy (snd x)) < length (db_busy s) \<and>
     db_signals (snd x) = db_signals s"

definition calm_answer :: "(store_db, 'a) M \<Rightarrow> (exn + 'a) \<times> store_db \<Rightarrow> store_db \<Rightarrow> bool" where
  "calm_answer m x s \<longleftrightarrow> fst x = fst (m (calm s)) \<and> calm (snd x) = snd (m (calm s)) \<and> own_result (fst x) \<and>
     db_signals (snd x) = db_signals s \<and> length (db_busy (snd x)) \<le> length (db_busy s)"

definition steps :: "(store_db, 'a) M \<Rightarrow> bool" where
  "steps m \<longleftrightarrow> (\<forall>s. busy_answer (m s) s \<or> calm_answer m (m s) s)"

named_theorems steps "computations that only stop for a busy database"

lemma calm_idem [simp]: "calm (calm s) = calm s"
  by (simp add: calm_def)

lemma calm_sel [simp]: "db_paths (calm s) = db_paths s" "db_refs (calm s) = db_refs s" "db_seq (calm s) = db_seq s"
  "db_busy (calm s) = []" "db_signals (calm s) = []"
  by (simp_all add: calm_def)

lemma calm_eq_iff: "calm s = calm t \<longleftrightarrow> db_tables s = db_tables t"
  by (cases s; cases t) (auto simp: calm_def db_tables_def)

lemma steps_ret [steps]: "steps (ret x)"
  by (simp add: steps_def calm_answer_def)

lemma steps_throw [steps]: "own_exn e \<Longrightarrow> steps (throw e)"
  by (simp add: steps_def calm_answer_def)

lemma steps_liftE [steps]: "own_result r \<Longrightarrow> steps (liftE r)"
  by (simp add: steps_def calm_answer_def)

lemma steps_sql:
  assumes "\<And>s. fst (m (calm s)) = fst (m s)" "\<And>s. snd (m (calm s)) = calm (snd (m s))"
    "\<And>s. own_result (fst (m s))" "\<And>s. db_signals (snd (m s)) = db_signals s" "\<And>s. db_busy (snd (m s)) = db_busy s"
  shows "steps (sql_step m)"
proof -
  have "busy_answer (sql_step m s) s \<or> calm_answer (sql_step m) (sql_step m s) s" for s
  proof (cases "db_busy s")
    case Nil
    then show ?thesis
      using assms [of s] by (simp add: calm_answer_def sql_step_def)
  next
    case (Cons b r)
    have c: "calm (s\<lparr>db_busy := r\<rparr>) = calm s" by (simp add: calm_def)
    show ?thesis
      using Cons assms [of "s\<lparr>db_busy := r\<rparr>"]
      by (simp add: c busy_answer_def calm_answer_def sql_step_def)
  qed
  then show ?thesis by (simp add: steps_def)
qed

lemma steps_getS [steps]: "(\<And>s. f (calm s) = f s) \<Longrightarrow> steps (sql_step (getS f))"
  by (rule steps_sql) simp_all

lemma steps_bindM [steps]:
  assumes "steps m" "\<And>x. steps (f x)"
  shows "steps (bindM m f)"
proof -
  have "busy_answer (bindM m f s) s \<or> calm_answer (bindM m f) (bindM m f s) s" for s
  proof (cases "busy_answer (m s) s")
    case True
    then show ?thesis by (auto simp: busy_answer_def run split: prod.splits)
  next
    case False
    obtain r t where m: "m s = (r, t)" by fastforce
    moreover have "busy_answer (r, t) s \<or> calm_answer m (r, t) s"
      using assms(1) m unfolding steps_def by metis
    ultimately have c: "r = fst (m (calm s))" "calm t = snd (m (calm s))" "own_result r"
      "db_signals t = db_signals s" "length (db_busy t) \<le> length (db_busy s)"
      using False m by (auto simp: calm_answer_def)
    then have mc: "m (calm s) = (r, calm t)" by (metis prod.collapse)
    show ?thesis
    proof (cases r)
      case (Inl e)
      then have "bindM m f s = (Inl e, t)" "bindM m f (calm s) = (Inl e, calm t)"
        using m mc by simp_all
      with c(3-5) Inl show ?thesis by (simp add: calm_answer_def)
    next
      case (Inr x)
      have d: "busy_answer (f x t) t \<or> calm_answer (f x) (f x t) t"
        using assms(2) [of x] by (simp add: steps_def)
      have "bindM m f s = f x t" "bindM m f (calm s) = f x (calm t)"
        using m mc Inr by simp_all
      with d c(4,5) show ?thesis
        unfolding busy_answer_def calm_answer_def by (elim disjE) (simp, metis order.trans)
    qed
  qed
  then show ?thesis by (simp add: steps_def)
qed

lemma steps_seqM [steps]: "steps m \<Longrightarrow> steps n \<Longrightarrow> steps (seqM m n)"
  unfolding seqM_def by (intro steps)

lemma steps_if [steps]: "(b \<Longrightarrow> steps m) \<Longrightarrow> (\<not> b \<Longrightarrow> steps n) \<Longrightarrow> steps (if b then m else n)"
  by simp

lemma steps_option [steps]:
  "steps m \<Longrightarrow> (\<And>x. steps (f x)) \<Longrightarrow> steps (case v of None \<Rightarrow> m | Some x \<Rightarrow> f x)"
  by (cases v) auto

lemma steps_forM [steps]: "(\<And>x. steps (f x)) \<Longrightarrow> steps (forM f xs)"
  by (induction xs) (auto intro: steps)

text \<open>\<open>atomic m\<close>: a busy answer leaves the tables as they were.\<close>

definition atomic :: "(store_db, 'a) M \<Rightarrow> bool" where
  "atomic m \<longleftrightarrow> steps m \<and> (\<forall>s. busy_answer (m s) s \<longrightarrow> calm (snd (m s)) = calm s)"

definition reads :: "(store_db, 'a) M \<Rightarrow> bool" where
  "reads m \<longleftrightarrow> (\<forall>s. calm (snd (m s)) = calm s)"

lemma atomic_reads: "steps m \<Longrightarrow> reads m \<Longrightarrow> atomic m"
  by (simp add: atomic_def reads_def)

lemma sql_step_calm [simp]: "sql_step m (calm s) = m (calm s)"
  by (simp add: sql_step_def)

lemma rollback_calm: "calm (rollback s0 s) = calm s0"
  by (cases s; cases s0) (simp add: rollback_def calm_def)

lemma atomic_txn:
  assumes "steps body"
  shows "atomic (sqlite_txn body)"
    and "sqlite_txn body (calm s) =
      (case body (calm s) of (Inl e, t) \<Rightarrow> (Inl e, rollback (calm s) t) | (Inr x, t) \<Rightarrow> (Inr x, t))"
proof -
  have st: "steps (sql_step (ret ()))" by (rule steps_sql) simp_all
  have roll: "calm (rollback s0 s) = calm s0" "db_busy (rollback s0 s) = db_busy s" "db_signals (rollback s0 s) = db_signals s"
    for s0 s by (simp_all add: rollback_calm, simp_all add: rollback_def)
  have calm_run: "sqlite_txn body (calm s) =
      (case body (calm s) of (Inl e, t) \<Rightarrow> (Inl e, rollback (calm s) t) | (Inr x, t) \<Rightarrow> (Inr x, t))" for s
  proof -
    obtain r t where b: "body (calm s) = (r, t)" by fastforce
    have "busy_answer (body (calm s)) (calm s) \<or> calm_answer body (body (calm s)) (calm s)"
      using assms by (simp add: steps_def)
    then have "db_busy t = []" using b by (auto simp: busy_answer_def calm_answer_def)
    with b show ?thesis
      by (auto simp: sqlite_txn_def split: sum.splits) (simp add: sql_step_def)
  qed
  then show "sqlite_txn body (calm s) =
      (case body (calm s) of (Inl e, t) \<Rightarrow> (Inl e, rollback (calm s) t) | (Inr x, t) \<Rightarrow> (Inr x, t))" .
  have "(busy_answer (sqlite_txn body s) s \<and> calm (snd (sqlite_txn body s)) = calm s) \<or>
      calm_answer (sqlite_txn body) (sqlite_txn body s) s" for s
  proof -
    obtain b0 s0 where b0: "sql_step (ret ()) s = (b0, s0)" by fastforce
    from st have "busy_answer (b0, s0) s \<or> calm_answer (sql_step (ret ())) (b0, s0) s"
      using b0 unfolding steps_def by metis
    then have s0: "calm s0 = calm s" "db_signals s0 = db_signals s" "length (db_busy s0) \<le> length (db_busy s)"
      "b0 = Inr () \<or> (\<exists>m. b0 = Inl (SQLiteBusy m)) \<and> length (db_busy s0) < length (db_busy s)"
      using b0 by (auto simp: busy_answer_def calm_answer_def sql_step_def calm_def split: list.splits if_splits)
    show ?thesis
    proof (cases b0)
      case (Inl e)
      with b0 s0 show ?thesis by (auto simp: sqlite_txn_def busy_answer_def)
    next
      case (Inr u)
      obtain r t where r: "body s0 = (r, t)" by fastforce
      have "busy_answer (body s0) s0 \<or> calm_answer body (body s0) s0" using assms by (simp add: steps_def)
      then show ?thesis
      proof
        assume "busy_answer (body s0) s0"
        with r b0 Inr s0 roll show ?thesis by (auto simp: sqlite_txn_def busy_answer_def)
      next
        assume c: "calm_answer body (body s0) s0"
        then have t: "r = fst (body (calm s))" "calm t = snd (body (calm s))" "own_result r"
          "db_signals t = db_signals s" "length (db_busy t) \<le> length (db_busy s)"
          using r s0 by (auto simp: calm_answer_def)
        show ?thesis
        proof (cases r)
          case e: (Inl e)
          have "sqlite_txn body s = (Inl e, rollback s0 t)"
            using b0 Inr r e by (simp add: sqlite_txn_def)
          moreover have "body (calm s) = (Inl e, calm t)" using t e by (metis prod.collapse)
          then have "sqlite_txn body (calm s) = (Inl e, rollback (calm s) (calm t))"
            by (simp add: calm_run)
          moreover have "rollback (calm s) (calm t) = calm s0"
            using s0(1) by (cases s; cases t; cases s0) (auto simp: rollback_def calm_def)
          ultimately show ?thesis
            using t e roll s0 by (simp add: calm_answer_def)
        next
          case x: (Inr x)
          obtain b1 s1 where b1: "sql_step (ret ()) t = (b1, s1)" by fastforce
          from st have "busy_answer (b1, s1) t \<or> calm_answer (sql_step (ret ())) (b1, s1) t"
            using b1 unfolding steps_def by metis
          then have s1: "calm s1 = calm t" "db_signals s1 = db_signals t" "length (db_busy s1) \<le> length (db_busy t)"
            "b1 = Inr () \<or> (\<exists>m. b1 = Inl (SQLiteBusy m)) \<and> length (db_busy s1) < length (db_busy t)"
            using b1 by (auto simp: busy_answer_def calm_answer_def sql_step_def calm_def split: list.splits if_splits)
          have "body (calm s) = (Inr x, calm t)" using t x by (metis prod.collapse)
          then have "sqlite_txn body (calm s) = (Inr x, calm t)" by (simp add: calm_run)
          then show ?thesis
            using b0 Inr r x b1 s0 s1 t roll
            by (auto simp: sqlite_txn_def busy_answer_def calm_answer_def)
        qed
      qed
    qed
  qed
  note out = this
  have "calm (snd (sqlite_txn body s)) = calm s" if "busy_answer (sqlite_txn body s) s" for s
    using out [of s] that by (auto simp: busy_answer_def calm_answer_def)
  with out show "atomic (sqlite_txn body)"
    unfolding atomic_def steps_def by blast
qed

lemma own_exn_rethrow: "own_exn e \<Longrightarrow> (case e of SQLiteBusy m \<Rightarrow> f m | _ \<Rightarrow> throw e) = throw e"
  by (cases e) simp_all

text \<open>So the retries end, and their outcome is that of the calm database, or an interrupt.\<close>

lemma retry_calm:
  assumes "atomic m"
  shows "\<exists>t. (retrySQLite m s = (fst (m (calm s)), t) \<and> calm t = snd (m (calm s))) \<or>
    (\<exists>x. retrySQLite m s = (Inl (Interrupted x), t) \<and> calm t = calm s \<and> db_signals s \<noteq> [])"
proof -
  have "\<exists>t. (retry_loop fuel m s = (fst (m (calm s)), t) \<and> calm t = snd (m (calm s))) \<or>
      (\<exists>x. retry_loop fuel m s = (Inl (Interrupted x), t) \<and> calm t = calm s \<and> db_signals s \<noteq> [])"
    if "length (db_busy s) < fuel" for fuel
    using that
  proof (induction fuel arbitrary: s)
    case (Suc fuel)
    obtain r t where m: "m s = (r, t)" by fastforce
    have "busy_answer (m s) s \<and> calm t = calm s \<or> calm_answer m (m s) s"
      using assms m unfolding atomic_def steps_def by (metis snd_conv)
    then show ?case
    proof
      assume b: "busy_answer (m s) s \<and> calm t = calm s"
      then obtain msg where r: "r = Inl (SQLiteBusy msg)" using m by (auto simp: busy_answer_def)
      obtain i u where i: "db_checkInterrupt t = (i, u)" by fastforce
      have u: "calm u = calm s" "length (db_busy u) < length (db_busy s)" "i = Inr () \<or> (\<exists>x. i = Inl (Interrupted x)) \<and> db_signals s \<noteq> []"
        "db_signals u \<noteq> [] \<longrightarrow> db_signals s \<noteq> []"
        using b m i by (auto simp: busy_answer_def db_checkInterrupt_def calm_def split: list.splits if_splits)
      show ?thesis
      proof (cases i)
        case (Inl e)
        with u m r i show ?thesis by (auto simp: run handleSQLiteBusy_def)
      next
        case (Inr x)
        have "retry_loop (Suc fuel) m s = retry_loop fuel m u"
          using m r i Inr by (simp add: run handleSQLiteBusy_def)
        with Suc.IH [of u] Suc.prems u show ?thesis by auto
      qed
    next
      assume c: "calm_answer m (m s) s"
      then have "own_result r" using m unfolding calm_answer_def by (metis fst_conv)
      then have "retry_loop (Suc fuel) m s = (r, t)"
        using m own_exn_rethrow [of _ "\<lambda>_. seqM handleSQLiteBusy (retry_loop fuel m)"]
        by (cases r) (simp_all add: run)
      with c m show ?thesis by (auto simp: calm_answer_def)
    qed
  qed simp
  from this [of "Suc (length (db_busy s))"] show ?thesis by (simp add: retrySQLite_def)
qed

subsection \<open>Every operation stops only for a busy database\<close>

lemma own_bindE [steps]: "own_result r \<Longrightarrow> (\<And>x. own_result (f x)) \<Longrightarrow> own_result (bindE r f)"
  by (cases r) auto

lemma own_Inr [steps]: "own_result (Inr x)"
  by simp

lemma own_hash_to_string [steps]: "own_result (hash_to_string h fmt b)"
  by (auto simp: hash_to_string_def Let_def split: HashFormat.split)

lemma own_parseAnyPrefixed [steps]: "own_result (parseAnyPrefixed s)"
  using parseAnyPrefixed_result [of s] by auto

lemma own_ca_parseOpt [steps]: "own_result (ca_parseOpt s)"
  by (auto simp: ca_parseOpt_def ca_parse_def intro!: steps split: prod.splits bool.splits)

lemma own_ca_render [steps]: "own_result (renderContentAddress ca)"
  by (auto simp: renderContentAddress_def ca_render_def intro!: steps split: option.split)

lemma own_parseStorePath [steps]: "own_result (parseStorePath storeDir s)"
proof (cases "s = [] \<or> hd s \<noteq> CHR ''/''")
  case True
  then show ?thesis by (auto simp: parseStorePath_def canonPath_def)
next
  case False
  have "own_result (storePath_of_baseName b)" for b
    using storePath_of_baseName_result [of b] by auto
  with False show ?thesis by (auto simp: parseStorePath_def canonPath_resolve)
qed

lemma own_insert_all [steps]: "own_result (insert_all storeDir ss acc)"
  by (induction ss arbitrary: acc) (auto intro: steps)

lemma own_isContentAddressed [steps]: "own_result (isContentAddressed sha storeDir info)"
proof -
  have n: "own_result (checkPathName a b)" for a b by (simp add: checkPathName_eq)
  have c: "own_result (compressHash h 20)" for h by (simp add: compressHash_def)
  show ?thesis
    unfolding isContentAddressed_def makeContentAddressedPath_def makeStorePath_hash_def makeStorePath_def
      storePath_of_hash_def Let_def
    by (cases "vpi_ca info") (auto intro!: steps n c)
qed

lemma own_hash_column [steps]:
  "own_result (catchE (parseAnyPrefixed s) (\<lambda>e. case e of BadHash x \<Rightarrow> Inl (Error m) | _ \<Rightarrow> Inl e))"
  using parseAnyPrefixed_result [of s] by auto

lemma steps_QueryPathInfo [steps]: "steps (QueryPathInfo p)"
  unfolding QueryPathInfo_def by (rule steps_getS) simp

lemma steps_queries [steps]:
  "steps (QueryReferences i)" "steps (QueryReferrers p)" "steps (QueryPathsByHashPrefix p)" "steps QueryValidPaths"
  unfolding QueryReferences_def QueryReferrers_def QueryPathsByHashPrefix_def QueryValidPaths_def
  by (rule steps_getS, unfold calm_sel, rule refl)+

lemma calm_update:
  "calm (s\<lparr>db_paths := x\<rparr>) = (calm s)\<lparr>db_paths := x\<rparr>" "calm (s\<lparr>db_refs := y\<rparr>) = (calm s)\<lparr>db_refs := y\<rparr>"
  "calm (s\<lparr>db_seq := z\<rparr>) = (calm s)\<lparr>db_seq := z\<rparr>"
  by (simp_all add: calm_def)

lemma steps_updates [steps]:
  "steps (RegisterValidPath p h time sz ca)" "steps (UpdatePathInfo sz h ca p)" "steps (AddReference i j)"
  "steps (InvalidatePath p)"
  unfolding RegisterValidPath_def UpdatePathInfo_def AddReference_def InvalidatePath_def
  by (rule steps_sql; simp add: calm_update Let_def split: option.split)+

lemma steps_getS_plain [steps]: "(\<And>s. f (calm s) = f s) \<Longrightarrow> steps (getS f)"
  by (simp add: steps_def calm_answer_def)

lemma steps_queryPathInfoInternal [steps]: "steps (queryPathInfoInternal storeDir p)"
  unfolding queryPathInfoInternal_def by (intro steps)

lemma steps_isValidPath0 [steps]: "steps (isValidPath0 storeDir p)"
  unfolding isValidPath0_def by (intro steps)

lemma steps_queryReferrers0 [steps]: "steps (queryReferrers0 storeDir p rs)"
  unfolding queryReferrers0_def by (intro steps)

lemma steps_registerValidPath_body: "steps (registerValidPath_body sha storeDir now info)"
  unfolding registerValidPath_body_def updatePathInfo_def addValidPath_def queryValidPathId_def
  by (intro steps) simp_all

lemma steps_invalidatePathChecked_body: "steps (invalidatePathChecked_body storeDir p)"
  unfolding invalidatePathChecked_body_def invalidatePath_def
  by (intro steps) simp_all

lemma reads_bindM: "reads m \<Longrightarrow> (\<And>x. reads (f x)) \<Longrightarrow> reads (bindM m f)"
  unfolding reads_def
  by (metis (no_types, lifting) bindM_Inl bindM_Inr prod.collapse snd_conv sum.exhaust)

lemma reads_basic: "reads (ret x)" "reads (throw e)" "reads (liftE r)" "reads (sql_step (getS f))"
  by (simp_all add: reads_def sql_step_def calm_def split: list.split)

lemma reads_option: "reads m \<Longrightarrow> (\<And>x. reads (f x)) \<Longrightarrow> reads (case v of None \<Rightarrow> m | Some x \<Rightarrow> f x)"
  by (cases v) auto

lemmas reads_intros = reads_bindM reads_basic reads_option

lemma reads_queries:
  "reads (queryPathInfoInternal storeDir p)" "reads (isValidPath0 storeDir p)" "reads (queryReferrers0 storeDir p rs)"
  unfolding queryPathInfoInternal_def isValidPath0_def queryReferrers0_def QueryPathInfo_def QueryReferences_def
    QueryReferrers_def
  by (intro reads_intros)+

subsection \<open>Invariant and abstraction\<close>

text \<open>
  The tables are sound: ids and paths are unique, every path is a printed store path, the hash
  and content address columns read back, and references are between rows.
\<close>

definition row_ok :: "string \<Rightarrow> nat \<Rightarrow> valid_row \<Rightarrow> bool" where
  "row_ok storeDir n r \<longleftrightarrow> r_id r \<le> n \<and> (\<exists>p. sp_ok p \<and> r_path r = printStorePath storeDir p) \<and>
     (\<exists>h. parseAnyPrefixed (r_hash r) = Inr h) \<and> (\<forall>c. r_ca r = Some c \<longrightarrow> (\<exists>x. ca_parseOpt c = Inr x))"

definition db_ok :: "string \<Rightarrow> store_db \<Rightarrow> bool" where
  "db_ok storeDir s \<longleftrightarrow> store_dir_ok storeDir \<and> distinct (map r_id (db_paths s)) \<and> distinct (map r_path (db_paths s)) \<and>
     (\<forall>r \<in> set (db_paths s). row_ok storeDir (db_seq s) r) \<and>
     (\<forall>(a, b) \<in> set (db_refs s). a \<in> r_id ` set (db_paths s) \<and> b \<in> r_id ` set (db_paths s))"

definition row_of :: "store_db \<Rightarrow> string \<Rightarrow> valid_row option" where
  "row_of s path = find (\<lambda>r. r_path r = path) (db_paths s)"

text \<open>Which path refers to which.\<close>

definition ref_rel :: "string \<Rightarrow> store_db \<Rightarrow> (StorePath \<times> StorePath) set" where
  "ref_rel storeDir s = {(p, q). \<exists>x \<in> set (db_paths s). \<exists>y \<in> set (db_paths s).
     (r_id x, r_id y) \<in> set (db_refs s) \<and> r_path x = printStorePath storeDir p \<and> r_path y = printStorePath storeDir q}"

definition info_of :: "StorePath \<Rightarrow> StorePath set \<Rightarrow> valid_row \<Rightarrow> ValidPathInfo" where
  "info_of p refs r = \<lparr> vpi_path = p, vpi_narHash = projr (parseAnyPrefixed (r_hash r)),
     vpi_references = sorted_list_of_set refs, vpi_registrationTime = r_time r,
     vpi_narSize = word_of_int (case r_size r of None \<Rightarrow> 0 | Some n \<Rightarrow> n),
     vpi_ca = (case r_ca r of None \<Rightarrow> None | Some c \<Rightarrow> projr (ca_parseOpt c)) \<rparr>"

text \<open>What the store promises to be: a map from paths to infos.\<close>

definition store_map :: "string \<Rightarrow> store_db \<Rightarrow> StorePath \<Rightarrow> ValidPathInfo option" where
  "store_map storeDir s p =
     map_option (info_of p {q. (p, q) \<in> ref_rel storeDir s}) (row_of s (printStorePath storeDir p))"

lemma db_ok_calm [simp]: "db_ok storeDir (calm s) = db_ok storeDir s"
  by (simp add: db_ok_def)

lemma store_map_calm [simp]: "store_map storeDir (calm s) = store_map storeDir s"
  by (simp add: store_map_def row_of_def ref_rel_def fun_eq_iff)

lemma calm_eq_facts:
  assumes "calm s = calm t"
  shows "db_ok storeDir s = db_ok storeDir t" "store_map storeDir s = store_map storeDir t"
  using assms by (metis db_ok_calm, metis store_map_calm)

lemma row_of_Some: "row_of s path = Some r \<Longrightarrow> r \<in> set (db_paths s) \<and> r_path r = path"
  by (auto simp: row_of_def find_Some_iff)

lemma row_of_None: "row_of s path = None \<longleftrightarrow> path \<notin> r_path ` set (db_paths s)"
  by (auto simp: row_of_def find_None_iff)

lemma row_of_unique: "db_ok storeDir s \<Longrightarrow> r \<in> set (db_paths s) \<Longrightarrow> row_of s (r_path r) = Some r"
proof -
  assume "db_ok storeDir s" and r: "r \<in> set (db_paths s)"
  then have d: "distinct (map r_path (db_paths s))" by (simp add: db_ok_def)
  obtain r' where r': "row_of s (r_path r) = Some r'"
    using row_of_None [of s "r_path r"] r by (cases "row_of s (r_path r)") auto
  with row_of_Some [OF r'] r d have "r' = r" by (auto simp: distinct_map inj_on_def)
  with r' show ?thesis by simp
qed

lemma db_ok_id_inj: "db_ok storeDir s \<Longrightarrow> x \<in> set (db_paths s) \<Longrightarrow> y \<in> set (db_paths s) \<Longrightarrow> r_id x = r_id y \<Longrightarrow> x = y"
  by (auto simp: db_ok_def distinct_map inj_on_def)

lemma db_ok_path_inj: "db_ok storeDir s \<Longrightarrow> x \<in> set (db_paths s) \<Longrightarrow> y \<in> set (db_paths s) \<Longrightarrow> r_path x = r_path y \<Longrightarrow> x = y"
  by (auto simp: db_ok_def distinct_map inj_on_def)

lemma ref_rel_from:
  assumes ok: "db_ok storeDir s" and r: "r \<in> set (db_paths s)" "r_path r = printStorePath storeDir p"
  shows "(p, q) \<in> ref_rel storeDir s \<longleftrightarrow>
    (\<exists>v \<in> set (db_paths s). (r_id r, r_id v) \<in> set (db_refs s) \<and> r_path v = printStorePath storeDir q)"
proof -
  have "x = r" if "x \<in> set (db_paths s)" "r_path x = printStorePath storeDir p" for x
    using db_ok_path_inj [OF ok that(1) r(1)] that(2) r(2) by simp
  then show ?thesis unfolding ref_rel_def using r by blast
qed

lemma ref_rel_to:
  assumes ok: "db_ok storeDir s" and r: "r \<in> set (db_paths s)" "r_path r = printStorePath storeDir p"
  shows "(q, p) \<in> ref_rel storeDir s \<longleftrightarrow>
    (\<exists>v \<in> set (db_paths s). (r_id v, r_id r) \<in> set (db_refs s) \<and> r_path v = printStorePath storeDir q)"
proof -
  have "x = r" if "x \<in> set (db_paths s)" "r_path x = printStorePath storeDir p" for x
    using db_ok_path_inj [OF ok that(1) r(1)] that(2) r(2) by simp
  then show ?thesis unfolding ref_rel_def using r by blast
qed

lemma finite_ref_rel: "finite {q. (p, q) \<in> ref_rel storeDir s}"
proof -
  have "(printStorePath storeDir) ` {q. (p, q) \<in> ref_rel storeDir s} \<subseteq> r_path ` set (db_paths s)"
    by (auto simp: ref_rel_def) (metis image_eqI)
  then have "finite ((printStorePath storeDir) ` {q. (p, q) \<in> ref_rel storeDir s})"
    by (rule finite_subset) simp
  then show ?thesis
    by (rule finite_imageD) (simp add: inj_on_def print_inject)
qed

lemma path_insert_set: "finite A \<Longrightarrow> path_insert p (sorted_list_of_set A) = sorted_list_of_set (insert p A)"
  by (cases "p \<in> A") (simp_all add: path_insert_def insert_absorb sorted_list_of_set_insert del: sorted_list_of_set_insert_remove)

lemma insert_all_paths:
  assumes "store_dir_ok storeDir" "\<forall>x \<in> set ss. \<exists>p. sp_ok p \<and> x = printStorePath storeDir p" "finite A"
  shows "insert_all storeDir ss (sorted_list_of_set A) =
    Inr (sorted_list_of_set (A \<union> {p. printStorePath storeDir p \<in> set ss}))"
  using assms(2,3)
proof (induction ss arbitrary: A)
  case (Cons x ss)
  then obtain p where p: "sp_ok p" "x = printStorePath storeDir p" by auto
  have "{q. printStorePath storeDir q \<in> set (x # ss)} = insert p {q. printStorePath storeDir q \<in> set ss}"
    using p(2) by (auto simp: print_inject)
  then have "A \<union> {q. printStorePath storeDir q \<in> set (x # ss)} =
      insert p A \<union> {q. printStorePath storeDir q \<in> set ss}" by simp
  moreover have "insert_all storeDir ss (sorted_list_of_set (insert p A)) =
      Inr (sorted_list_of_set (insert p A \<union> {q. printStorePath storeDir q \<in> set ss}))"
    using Cons.prems by (intro Cons.IH) simp_all
  moreover have "insert_all storeDir (x # ss) (sorted_list_of_set A) =
      insert_all storeDir ss (sorted_list_of_set (insert p A))"
    using parse_print [OF assms(1) p(1)] p(2) path_insert_set [OF Cons.prems(2), of p] by simp
  ultimately show ?case by simp
qed simp

lemma insert_all_Nil:
  "store_dir_ok storeDir \<Longrightarrow> \<forall>x \<in> set ss. \<exists>p. sp_ok p \<and> x = printStorePath storeDir p \<Longrightarrow>
   insert_all storeDir ss [] = Inr (sorted_list_of_set {p. printStorePath storeDir p \<in> set ss})"
  using insert_all_paths [of storeDir ss "{}"] by simp

lemma db_ok_printed: "db_ok storeDir s \<Longrightarrow> r \<in> set (db_paths s) \<Longrightarrow> \<exists>p. sp_ok p \<and> r_path r = printStorePath storeDir p"
  by (simp add: db_ok_def row_ok_def)

lemma query_calm:
  "QueryReferences i (calm s) = (Inr [r_path v. (a, b) \<leftarrow> db_refs s, a = i, v \<leftarrow> db_paths s, b = r_id v], calm s)"
  "QueryReferrers path (calm s) = (Inr (case row_of s path of None \<Rightarrow> []
     | Some t \<Rightarrow> [r_path v. (a, b) \<leftarrow> db_refs s, b = r_id t, v \<leftarrow> db_paths s, a = r_id v]), calm s)"
  unfolding QueryReferences_def QueryReferrers_def row_of_def sql_step_calm run_getS calm_sel
  by (rule refl)+

text \<open>The queries read the abstract map.\<close>

lemma queryPathInfoInternal_map:
  assumes ok: "db_ok storeDir s"
  shows "queryPathInfoInternal storeDir p (calm s) = (Inr (store_map storeDir s p), calm s)"
proof (cases "row_of s (printStorePath storeDir p)")
  case None
  then show ?thesis
    by (simp add: queryPathInfoInternal_def QueryPathInfo_def run store_map_def row_of_def)
next
  case (Some r)
  have r: "r \<in> set (db_paths s)" "r_path r = printStorePath storeDir p"
    using row_of_Some [OF Some] by simp_all
  with ok obtain h where h: "parseAnyPrefixed (r_hash r) = Inr h" by (auto simp: db_ok_def row_ok_def)
  have ca: "(case r_ca r of None \<Rightarrow> ret None | Some s \<Rightarrow> liftE (ca_parseOpt s)) t =
      (Inr (case r_ca r of None \<Rightarrow> None | Some c \<Rightarrow> projr (ca_parseOpt c)), t)" for t :: store_db
    using ok r(1) by (fastforce simp: db_ok_def row_ok_def split: option.split)
  define ps where "ps = [r_path v. (a, b) \<leftarrow> db_refs s, a = r_id r, v \<leftarrow> db_paths s, b = r_id v]"
  have ps: "x \<in> set ps \<longleftrightarrow> (\<exists>v \<in> set (db_paths s). (r_id r, r_id v) \<in> set (db_refs s) \<and> x = r_path v)" for x
    by (auto simp: ps_def)
  have "{q. printStorePath storeDir q \<in> set ps} = {q. (p, q) \<in> ref_rel storeDir s}"
    by (rule Collect_cong) (auto simp: ps ref_rel_from [OF ok r] eq_commute)
  moreover have "insert_all storeDir ps [] = Inr (sorted_list_of_set {q. printStorePath storeDir q \<in> set ps})"
    using ok db_ok_printed [OF ok] by (intro insert_all_Nil) (auto simp: ps db_ok_def)
  ultimately show ?thesis
    using Some h ca
    by (simp add: queryPathInfoInternal_def QueryPathInfo_def query_calm(1) run store_map_def row_of_def
        info_of_def ps_def [symmetric])
qed

lemma isValidPath0_map:
  "isValidPath0 storeDir p (calm s) = (Inr (store_map storeDir s p \<noteq> None), calm s)"
  by (simp add: isValidPath0_def QueryPathInfo_def run store_map_def row_of_def)

lemma queryReferrers0_map:
  assumes ok: "db_ok storeDir s"
  shows "queryReferrers0 storeDir p [] (calm s) =
    (Inr (sorted_list_of_set {q. (q, p) \<in> ref_rel storeDir s}), calm s)"
proof -
  define ps where "ps = (case row_of s (printStorePath storeDir p) of
       None \<Rightarrow> [] | Some t \<Rightarrow> [r_path v. (a, b) \<leftarrow> db_refs s, b = r_id t, v \<leftarrow> db_paths s, a = r_id v])"
  have "{q. printStorePath storeDir q \<in> set ps} = {q. (q, p) \<in> ref_rel storeDir s}"
  proof (cases "row_of s (printStorePath storeDir p)")
    case None
    then have "r_path y \<noteq> printStorePath storeDir p" if "y \<in> set (db_paths s)" for y
      using that by (metis image_eqI row_of_None)
    with None show ?thesis by (auto simp: ps_def ref_rel_def)
  next
    case (Some t)
    have t: "t \<in> set (db_paths s)" "r_path t = printStorePath storeDir p" using row_of_Some [OF Some] by simp_all
    have "x \<in> set ps \<longleftrightarrow> (\<exists>v \<in> set (db_paths s). (r_id v, r_id t) \<in> set (db_refs s) \<and> x = r_path v)" for x
      using Some by (auto simp: ps_def)
    then show ?thesis
      by (intro Collect_cong) (auto simp: ref_rel_to [OF ok t] eq_commute)
  qed
  moreover have "\<forall>x \<in> set ps. \<exists>p. sp_ok p \<and> x = printStorePath storeDir p"
    using db_ok_printed [OF ok] by (auto simp: ps_def split: option.splits)
  then have "insert_all storeDir ps [] = Inr (sorted_list_of_set {q. printStorePath storeDir q \<in> set ps})"
    using ok by (intro insert_all_Nil) (simp_all add: db_ok_def)
  moreover have "QueryReferrers (printStorePath storeDir p) (calm s) = (Inr ps, calm s)"
    by (simp add: query_calm(2) ps_def)
  ultimately show ?thesis
    by (simp add: queryReferrers0_def run)
qed

subsection \<open>Updates of the tables on the abstract map\<close>

lemma sql_step_quiet: "db_busy s = [] \<Longrightarrow> sql_step m s = m s"
  by (simp add: sql_step_def)

lemma store_map_cong:
  "row_of t (printStorePath storeDir p) = row_of s (printStorePath storeDir p) \<Longrightarrow>
   {q. (p, q) \<in> ref_rel storeDir t} = {q. (p, q) \<in> ref_rel storeDir s} \<Longrightarrow>
   store_map storeDir t p = store_map storeDir s p"
  by (simp add: store_map_def)

lemma store_map_row: "store_map storeDir s p = None \<longleftrightarrow> row_of s (printStorePath storeDir p) = None"
  by (simp add: store_map_def)

lemma db_ok_refs_ids: "db_ok storeDir s \<Longrightarrow> (a, b) \<in> set (db_refs s) \<Longrightarrow>
  a \<in> r_id ` set (db_paths s) \<and> b \<in> r_id ` set (db_paths s)"
  by (auto simp: db_ok_def)

definition add_ref :: "nat \<Rightarrow> nat \<Rightarrow> store_db \<Rightarrow> store_db" where
  "add_ref i j s = s\<lparr>db_refs := filter (\<lambda>x. x \<noteq> (i, j)) (db_refs s) @ [(i, j)]\<rparr>"

lemma add_ref_facts:
  assumes ok: "db_ok storeDir s" and xy: "x \<in> set (db_paths s)" "y \<in> set (db_paths s)"
    and p: "r_path x = printStorePath storeDir p" "r_path y = printStorePath storeDir q"
  shows "db_ok storeDir (add_ref (r_id x) (r_id y) s)" "row_of (add_ref (r_id x) (r_id y) s) = row_of s"
    "ref_rel storeDir (add_ref (r_id x) (r_id y) s) = insert (p, q) (ref_rel storeDir s)"
proof -
  show "db_ok storeDir (add_ref (r_id x) (r_id y) s)"
    using ok xy by (auto simp: db_ok_def add_ref_def)
  show "row_of (add_ref (r_id x) (r_id y) s) = row_of s"
    by (simp add: row_of_def add_ref_def fun_eq_iff)
  have ab: "a = p \<and> b = q" if "u \<in> set (db_paths s)" "v \<in> set (db_paths s)" "r_id u = r_id x" "r_id v = r_id y"
      "r_path u = printStorePath storeDir a" "r_path v = printStorePath storeDir b" for u v a b
  proof -
    have "u = x" "v = y" using that(1-4) xy db_ok_id_inj [OF ok] by blast+
    with that(5,6) p show ?thesis by (simp add: print_inject)
  qed
  have refs: "set (db_refs (add_ref (r_id x) (r_id y) s)) = insert (r_id x, r_id y) (set (db_refs s))"
    by (auto simp: add_ref_def)
  have paths: "db_paths (add_ref (r_id x) (r_id y) s) = db_paths s" by (simp add: add_ref_def)
  show "ref_rel storeDir (add_ref (r_id x) (r_id y) s) = insert (p, q) (ref_rel storeDir s)"
    (is "?t = ?r")
  proof (intro set_eqI)
    fix z :: "StorePath \<times> StorePath"
    obtain a b where z: "z = (a, b)" by fastforce
    have "z \<in> ?t \<longleftrightarrow> (\<exists>u \<in> set (db_paths s). \<exists>v \<in> set (db_paths s). (r_id u = r_id x \<and> r_id v = r_id y \<or>
        (r_id u, r_id v) \<in> set (db_refs s)) \<and> r_path u = printStorePath storeDir a \<and> r_path v = printStorePath storeDir b)"
      by (simp add: z ref_rel_def refs paths)
    also have "\<dots> \<longleftrightarrow> a = p \<and> b = q \<or> (a, b) \<in> ref_rel storeDir s"
      using ab xy p unfolding ref_rel_def mem_Collect_eq prod.case by blast
    finally show "z \<in> ?t \<longleftrightarrow> z \<in> ?r" by (simp add: z)
  qed
qed

lemma AddReference_quiet:
  "db_busy s = [] \<Longrightarrow> i \<in> r_id ` set (db_paths s) \<Longrightarrow> j \<in> r_id ` set (db_paths s) \<Longrightarrow>
   AddReference i j s = (Inr (), add_ref i j s)"
  by (simp add: AddReference_def sql_step_quiet add_ref_def)

lemma queryValidPathId_quiet:
  "db_busy s = [] \<Longrightarrow> queryValidPathId storeDir p s =
    ((case row_of s (printStorePath storeDir p) of None \<Rightarrow> Inl (InvalidPath ''path %s is not valid'')
      | Some r \<Rightarrow> Inr (r_id r)), s)"
  by (simp add: queryValidPathId_def QueryPathInfo_def run sql_step_quiet row_of_def split: option.split)

lemma refs_loop:
  assumes "db_ok storeDir s" "db_busy s = []" "row_of s (printStorePath storeDir p) = Some x"
  shows "if \<forall>j \<in> set js. row_of s (printStorePath storeDir j) \<noteq> None
    then \<exists>t. forM (\<lambda>j. bindM (queryValidPathId storeDir j) (AddReference (r_id x))) js s = (Inr (), t) \<and>
      db_busy t = [] \<and> db_ok storeDir t \<and> row_of t = row_of s \<and> ref_rel storeDir t = ref_rel storeDir s \<union> {p} \<times> set js
    else \<exists>t. forM (\<lambda>j. bindM (queryValidPathId storeDir j) (AddReference (r_id x))) js s =
      (Inl (InvalidPath ''path %s is not valid''), t)"
  using assms
proof (induction js arbitrary: s)
  case (Cons j js)
  let ?step = "bindM (queryValidPathId storeDir j) (AddReference (r_id x))"
  show ?case
  proof (cases "row_of s (printStorePath storeDir j)")
    case None
    then have "?step s = (Inl (InvalidPath ''path %s is not valid''), s)"
      using Cons.prems(2) by (simp add: run queryValidPathId_quiet)
    with None show ?thesis by simp
  next
    case (Some y)
    have x: "x \<in> set (db_paths s)" "r_path x = printStorePath storeDir p"
      using row_of_Some [OF Cons.prems(3)] by simp_all
    have y: "y \<in> set (db_paths s)" "r_path y = printStorePath storeDir j" using row_of_Some [OF Some] by simp_all
    let ?t = "add_ref (r_id x) (r_id y) s"
    note t = add_ref_facts [OF Cons.prems(1) x(1) y(1) x(2) y(2)]
    have b: "db_busy ?t = []" using Cons.prems(2) by (simp add: add_ref_def)
    have step: "?step s = (Inr (), ?t)"
      using Cons.prems(2) Some x y by (simp add: run queryValidPathId_quiet AddReference_quiet)
    have "row_of ?t (printStorePath storeDir p) = Some x" using Cons.prems(3) t(2) by simp
    from Cons.IH [OF t(1) b this] show ?thesis
      using step Some by (auto simp: t(2,3) split: if_splits)
  qed
qed simp

text \<open>Adding and updating a row.\<close>

lemma find_map: "find P (map f xs) = map_option f (find (P \<circ> f) xs)"
  by (induction xs) auto

lemma map_rows:
  assumes ok: "db_ok storeDir s"
    and f: "\<And>r. r_id (f r) = r_id r" "\<And>r. r_path (f r) = r_path r"
    and row: "\<And>r. r \<in> set (db_paths s) \<Longrightarrow> row_ok storeDir (db_seq s) (f r)"
  shows "db_ok storeDir (s\<lparr>db_paths := map f (db_paths s)\<rparr>)"
    "row_of (s\<lparr>db_paths := map f (db_paths s)\<rparr>) path = map_option f (row_of s path)"
    "ref_rel storeDir (s\<lparr>db_paths := map f (db_paths s)\<rparr>) = ref_rel storeDir s"
proof -
  have m: "map (\<lambda>x. r_id (f x)) xs = map r_id xs" "map (\<lambda>x. r_path (f x)) xs = map r_path xs" for xs
    by (simp_all add: f)
  show "db_ok storeDir (s\<lparr>db_paths := map f (db_paths s)\<rparr>)"
    using ok row by (auto simp: db_ok_def comp_def m f image_image)
  show "row_of (s\<lparr>db_paths := map f (db_paths s)\<rparr>) path = map_option f (row_of s path)"
    by (simp add: row_of_def find_map comp_def f)
  show "ref_rel storeDir (s\<lparr>db_paths := map f (db_paths s)\<rparr>) = ref_rel storeDir s"
    by (simp add: ref_rel_def f)
qed

lemma find_append: "find P (xs @ ys) = (case find P xs of Some x \<Rightarrow> Some x | None \<Rightarrow> find P ys)"
  by (induction xs) auto

lemma new_row:
  assumes ok: "db_ok storeDir s" and new: "row_of s (r_path r) = None"
    and r: "r_id r = Suc (db_seq s)" "row_ok storeDir (Suc (db_seq s)) r"
  defines "t \<equiv> s\<lparr>db_paths := db_paths s @ [r], db_seq := Suc (db_seq s)\<rparr>"
  shows "db_ok storeDir t" "row_of t = (row_of s)(r_path r \<mapsto> r)" "ref_rel storeDir t = ref_rel storeDir s"
proof -
  have le: "\<forall>x \<in> set (db_paths s). r_id x \<le> db_seq s" using ok by (simp add: db_ok_def row_ok_def)
  have old: "row_ok storeDir (Suc (db_seq s)) x" if "x \<in> set (db_paths s)" for x
    using ok that by (auto simp: db_ok_def row_ok_def)
  have p: "r_path r \<notin> r_path ` set (db_paths s)" using new by (simp add: row_of_None)
  have i: "r_id r \<notin> r_id ` set (db_paths s)" using le r(1) by fastforce
  show "db_ok storeDir t"
    using ok p i r(2) old unfolding db_ok_def t_def by auto
  show "row_of t = (row_of s)(r_path r \<mapsto> r)"
    using new by (auto simp: t_def row_of_def find_append fun_eq_iff split: option.split)
  have "(r_id r, b) \<notin> set (db_refs s)" "(b, r_id r) \<notin> set (db_refs s)" for b
    using db_ok_refs_ids [OF ok] i by blast+
  then show "ref_rel storeDir t = ref_rel storeDir s"
    by (simp add: ref_rel_def t_def)
qed

text \<open>The columns of a row read back.\<close>

definition info_hashes_ok :: "ValidPathInfo \<Rightarrow> bool" where
  "info_hashes_ok info \<longleftrightarrow> sha256_hash (vpi_narHash info) \<and>
     (case vpi_ca info of None \<Rightarrow> True | Some c \<Rightarrow> sha256_hash (ca_hash c))"

lemma columns_read_back:
  assumes "info_hashes_ok info"
  obtains h c where "hash_to_string (vpi_narHash info) Base16 True = Inr h" "parseAnyPrefixed h = Inr (vpi_narHash info)"
    "renderContentAddress (vpi_ca info) = Inr c" "vpi_ca info \<noteq> None \<Longrightarrow> ca_parseOpt c = Inr (vpi_ca info)"
proof -
  have n: "sha256_hash (vpi_narHash info)" using assms by (simp add: info_hashes_ok_def)
  obtain h where h: "hash_to_string (vpi_narHash info) Base16 True = Inr h" using hash_base16_ok [OF n] by blast
  have ph: "parseAnyPrefixed h = Inr (vpi_narHash info)" using parse_to_string [OF n, of Base16] h by simp
  have "\<exists>c. renderContentAddress (vpi_ca info) = Inr c \<and> (vpi_ca info \<noteq> None \<longrightarrow> ca_parseOpt c = Inr (vpi_ca info))"
  proof (cases "vpi_ca info")
    case (Some a)
    then have "bindE (ca_render a) ca_parseOpt = Inr (Some a)"
      using ca_parse_render [of "ca_hash a"] assms by (simp add: info_hashes_ok_def)
    with Some show ?thesis by (auto simp: renderContentAddress_def bindE_eq_Inr)
  qed (simp add: renderContentAddress_def)
  then obtain c where "renderContentAddress (vpi_ca info) = Inr c" "vpi_ca info \<noteq> None \<longrightarrow> ca_parseOpt c = Inr (vpi_ca info)"
    by blast
  from that [OF h ph this(1)] this(2) show ?thesis by simp
qed

lemma int64_word: "word_of_int (case int64_of n of None \<Rightarrow> 0 | Some i \<Rightarrow> i) = n"
  by (simp add: int64_of_def)

subsection \<open>Registration and invalidation on the abstract map\<close>

text \<open>What a registration makes of the info that was there before.\<close>

definition merged_info :: "int \<Rightarrow> ValidPathInfo option \<Rightarrow> ValidPathInfo \<Rightarrow> ValidPathInfo" where
  "merged_info now old info = info\<lparr>
     vpi_references := sorted_list_of_set (set (vpi_references info) \<union>
       (case old of None \<Rightarrow> {} | Some x \<Rightarrow> set (vpi_references x))),
     vpi_registrationTime := (case old of
        None \<Rightarrow> if vpi_registrationTime info = 0 then now else vpi_registrationTime info
      | Some x \<Rightarrow> vpi_registrationTime x)\<rparr>"

text \<open>When a registration goes through.\<close>

definition ca_accepted :: "'c sha256_api \<Rightarrow> string \<Rightarrow> (StorePath \<Rightarrow> ValidPathInfo option) \<Rightarrow> ValidPathInfo \<Rightarrow> bool" where
  "ca_accepted sha storeDir m info \<longleftrightarrow>
     m (vpi_path info) \<noteq> None \<or> vpi_ca info = None \<or> isContentAddressed sha storeDir info = Inr True"

definition register_ok :: "'c sha256_api \<Rightarrow> string \<Rightarrow> (StorePath \<Rightarrow> ValidPathInfo option) \<Rightarrow> ValidPathInfo \<Rightarrow> bool" where
  "register_ok sha storeDir m info \<longleftrightarrow> ca_accepted sha storeDir m info \<and>
     (\<forall>j \<in> set (vpi_references info). j = vpi_path info \<or> m j \<noteq> None)"

definition row_for :: "string \<Rightarrow> ValidPathInfo \<Rightarrow> valid_row \<Rightarrow> bool" where
  "row_for storeDir info r \<longleftrightarrow> r_path r = printStorePath storeDir (vpi_path info) \<and>
     parseAnyPrefixed (r_hash r) = Inr (vpi_narHash info) \<and> r_size r = int64_of (vpi_narSize info) \<and>
     (case r_ca r of None \<Rightarrow> vpi_ca info = None | Some c \<Rightarrow> ca_parseOpt c = Inr (vpi_ca info))"

lemma row_for_info:
  "row_for storeDir info r \<Longrightarrow> info_of (vpi_path info) refs r =
    info\<lparr>vpi_references := sorted_list_of_set refs, vpi_registrationTime := r_time r\<rparr>"
  using int64_word [of "vpi_narSize info"]
  by (cases info) (auto simp: row_for_def info_of_def split: option.splits)

lemma row_for_ok: "row_for storeDir info r \<Longrightarrow> sp_ok (vpi_path info) \<Longrightarrow> r_id r \<le> n \<Longrightarrow> row_ok storeDir n r"
  by (auto simp: row_for_def row_ok_def)

text \<open>The row that the first statement of the transaction leaves.\<close>

lemma upsert_row:
  fixes sha :: "'c sha256_api" and now :: int
  assumes ok: "db_ok storeDir s" and q: "db_busy s = []" and p: "sp_ok (vpi_path info)" and h: "info_hashes_ok info"
  defines "P \<equiv> printStorePath storeDir (vpi_path info)"
  defines "m \<equiv> bindM (isValidPath0 storeDir (vpi_path info)) (\<lambda>valid.
      if valid then updatePathInfo storeDir info else bindM (addValidPath sha storeDir now info) (\<lambda>_. ret ()))"
  shows "if ca_accepted sha storeDir (store_map storeDir s) info
    then \<exists>t r. m s = (Inr (), t) \<and> db_busy t = [] \<and> db_ok storeDir t \<and> row_of t = (row_of s)(P \<mapsto> r) \<and>
      ref_rel storeDir t = ref_rel storeDir s \<and> row_for storeDir info r \<and>
      r_time r = (case row_of s P of None \<Rightarrow> if vpi_registrationTime info = 0 then now else vpi_registrationTime info
        | Some x \<Rightarrow> r_time x)
    else \<exists>e. m s = (Inl e, s)"
proof -
  obtain hs c where hs: "hash_to_string (vpi_narHash info) Base16 True = Inr hs" "parseAnyPrefixed hs = Inr (vpi_narHash info)"
    and c: "renderContentAddress (vpi_ca info) = Inr c" "vpi_ca info \<noteq> None \<Longrightarrow> ca_parseOpt c = Inr (vpi_ca info)"
    using columns_read_back [OF h] by blast
  have v: "isValidPath0 storeDir (vpi_path info) s = (Inr (row_of s P \<noteq> None), s)"
    using q by (simp add: isValidPath0_def QueryPathInfo_def run sql_step_quiet row_of_def P_def)
  show ?thesis
  proof (cases "row_of s P")
    case (Some x)
    define f where "f r = (if r_path r = P then r\<lparr>r_size := int64_of (vpi_narSize info), r_hash := hs,
        r_ca := (if vpi_ca info = None then None else Some c)\<rparr> else r)" for r :: valid_row
    have x: "x \<in> set (db_paths s)" "r_path x = P" using row_of_Some [OF Some] by simp_all
    let ?t = "s\<lparr>db_paths := map f (db_paths s)\<rparr>"
    have run: "m s = (Inr (), ?t)"
      using Some v q hs(1) c(1) by (simp add: m_def updatePathInfo_def UpdatePathInfo_def run sql_step_quiet P_def f_def [abs_def])
    have f: "r_id (f r) = r_id r" "r_path (f r) = r_path r" for r by (simp_all add: f_def)
    have fx: "row_for storeDir info (f r)" if "r_path r = P" for r
      using that hs c by (simp add: row_for_def f_def P_def)
    have rows: "row_ok storeDir (db_seq s) (f r)" if "r \<in> set (db_paths s)" for r
    proof -
      have "row_ok storeDir (db_seq s) r" using ok that by (simp add: db_ok_def)
      then show ?thesis using row_for_ok [OF fx p] f by (cases "r_path r = P") (auto simp: row_ok_def f_def)
    qed
    note t = map_rows [OF ok f rows]
    have "row_of ?t = (row_of s)(P \<mapsto> f x)"
    proof
      fix path
      show "row_of ?t path = ((row_of s)(P \<mapsto> f x)) path"
      proof (cases "path = P")
        case False
        have "map_option f (row_of s path) = row_of s path"
          using False row_of_Some [of s path] by (cases "row_of s path") (auto simp: f_def)
        with False show ?thesis by (simp add: t(2))
      qed (simp add: t(2) Some)
    qed
    moreover have "ca_accepted sha storeDir (store_map storeDir s) info"
      using Some by (simp add: ca_accepted_def store_map_def P_def)
    moreover have "r_time (f x) = r_time x" "db_busy ?t = []" using q by (simp_all add: f_def)
    ultimately show ?thesis
      using run t(1,3) fx [OF x(2)] Some by auto
  next
    case None
    have acc: "ca_accepted sha storeDir (store_map storeDir s) info \<longleftrightarrow>
        vpi_ca info = None \<or> isContentAddressed sha storeDir info = Inr True"
      using None by (simp add: ca_accepted_def store_map_def P_def)
    show ?thesis
    proof (cases "ca_accepted sha storeDir (store_map storeDir s) info")
      case False
      then have "\<exists>e. addValidPath sha storeDir now info s = (Inl e, s)"
        using acc by (cases "isContentAddressed sha storeDir info") (auto simp: addValidPath_def run)
      with False v None show ?thesis by (auto simp: m_def run)
    next
      case True
      define r where "r = \<lparr> r_id = Suc (db_seq s), r_path = P, r_hash = hs,
         r_time = (if vpi_registrationTime info = 0 then now else vpi_registrationTime info),
         r_size = int64_of (vpi_narSize info), r_ca = (if vpi_ca info = None then None else Some c) \<rparr>"
      let ?t = "s\<lparr>db_paths := db_paths s @ [r], db_seq := Suc (db_seq s)\<rparr>"
      have gate: "(if vpi_ca info = None then ret True else liftE (isContentAddressed sha storeDir info)) s = (Inr True, s)"
        using True acc by auto
      have fresh: "\<not> list_ex (\<lambda>r. r_path r = P) (db_paths s)"
        using None by (auto simp: row_of_None list_ex_iff)
      then have "RegisterValidPath P hs (r_time r) (r_size r) (r_ca r) s = (Inr (), ?t)"
        using q by (simp add: RegisterValidPath_def sql_step_quiet r_def)
      then have "addValidPath sha storeDir now info s = (Inr (Suc (db_seq s)), ?t)"
        using gate hs(1) c(1) by (simp add: addValidPath_def run r_def P_def)
      then have run: "m s = (Inr (), ?t)"
        using v None by (simp add: m_def run)
      have rf: "row_for storeDir info r"
        using hs c by (simp add: row_for_def r_def P_def)
      have rp: "r_path r = P" "r_id r = Suc (db_seq s)" by (simp_all add: r_def)
      have "row_ok storeDir (Suc (db_seq s)) r" using row_for_ok [OF rf p] rp by simp
      from new_row [OF ok _ rp(2) this] None rp
      have t: "db_ok storeDir ?t" "row_of ?t = (row_of s)(P \<mapsto> r)" "ref_rel storeDir ?t = ref_rel storeDir s" by simp_all
      show ?thesis
        using True run t rf None q by (auto simp: r_def)
    qed
  qed
qed

text \<open>The whole transaction.\<close>

lemma register_body:
  assumes ok: "db_ok storeDir s" and q: "db_busy s = []" and p: "sp_ok (vpi_path info)" and h: "info_hashes_ok info"
  shows "if register_ok sha storeDir (store_map storeDir s) info
    then \<exists>t. registerValidPath_body sha storeDir now info s = (Inr (), t) \<and> db_busy t = [] \<and> db_ok storeDir t \<and>
      store_map storeDir t = (store_map storeDir s)(vpi_path info \<mapsto> merged_info now (store_map storeDir s (vpi_path info)) info)
    else \<exists>e t. registerValidPath_body sha storeDir now info s = (Inl e, t)"
proof -
  let ?p = "vpi_path info"
  let ?P = "printStorePath storeDir ?p"
  note up = upsert_row [OF ok q p h, of sha now]
  show ?thesis
  proof (cases "ca_accepted sha storeDir (store_map storeDir s) info")
    case False
    with up show ?thesis by (auto simp: registerValidPath_body_def register_ok_def run)
  next
    case True
    from up True obtain t r where t: "db_busy t = []" "db_ok storeDir t" "row_of t = (row_of s)(?P \<mapsto> r)"
        "ref_rel storeDir t = ref_rel storeDir s" "row_for storeDir info r"
        "r_time r = (case row_of s ?P of None \<Rightarrow> if vpi_registrationTime info = 0 then now else vpi_registrationTime info
          | Some x \<Rightarrow> r_time x)"
      and run1: "bindM (isValidPath0 storeDir ?p) (\<lambda>valid.
        if valid then updatePathInfo storeDir info else bindM (addValidPath sha storeDir now info) (\<lambda>_. ret ())) s = (Inr (), t)"
      by auto
    have rt: "row_of t ?P = Some r" by (simp add: t(3))
    have known: "row_of t (printStorePath storeDir j) \<noteq> None \<longleftrightarrow> j = ?p \<or> store_map storeDir s j \<noteq> None" for j
      by (simp add: t(3) store_map_row print_inject)
    let ?loop = "forM (\<lambda>j. bindM (queryValidPathId storeDir j) (AddReference (r_id r))) (vpi_references info)"
    have body: "registerValidPath_body sha storeDir now info s = (if vpi_references info = [] then (Inr (), t) else ?loop t)"
      using run1 rt t(1) by (simp add: registerValidPath_body_def run queryValidPathId_quiet)
    then have body: "registerValidPath_body sha storeDir now info s = ?loop t" by simp
    note loop = refs_loop [OF t(2,1) rt, of "vpi_references info"]
    show ?thesis
    proof (cases "register_ok sha storeDir (store_map storeDir s) info")
      case False
      with True known have "\<not> (\<forall>j \<in> set (vpi_references info). row_of t (printStorePath storeDir j) \<noteq> None)"
        by (simp add: register_ok_def)
      with loop obtain u where "?loop t = (Inl (InvalidPath ''path %s is not valid''), u)"
        unfolding if_not_P [OF \<open>\<not> (\<forall>j \<in> set (vpi_references info). row_of t (printStorePath storeDir j) \<noteq> None)\<close>] by blast
      with body False show ?thesis by simp
    next
      case True
      then have "\<forall>j \<in> set (vpi_references info). row_of t (printStorePath storeDir j) \<noteq> None"
        using known by (auto simp: register_ok_def)
      with loop obtain u where u: "?loop t = (Inr (), u)" "db_busy u = []" "db_ok storeDir u" "row_of u = row_of t"
        "ref_rel storeDir u = ref_rel storeDir t \<union> {?p} \<times> set (vpi_references info)" by auto
      have "store_map storeDir u q = ((store_map storeDir s)(?p \<mapsto> merged_info now (store_map storeDir s ?p) info)) q" for q
      proof (cases "q = ?p")
        case False
        then show ?thesis
          using u t by (simp add: store_map_def print_inject)
      next
        case True
        have "{x. (?p, x) \<in> ref_rel storeDir u} =
            set (vpi_references info) \<union> (case store_map storeDir s ?p of None \<Rightarrow> {} | Some x \<Rightarrow> set (vpi_references x))"
        proof (cases "row_of s ?P")
          case None
          then have "r_path y \<noteq> ?P" if "y \<in> set (db_paths s)" for y
            using row_of_unique [OF ok that] by auto
          then have "(?p, x) \<notin> ref_rel storeDir s" for x
            by (auto simp: ref_rel_def)
          with None show ?thesis by (auto simp: u t store_map_def)
        next
          case (Some x)
          then show ?thesis
            using finite_ref_rel [of ?p storeDir s] by (auto simp: u t store_map_def info_of_def)
        qed
        then show ?thesis
          using True u(4) rt row_for_info [OF t(5)]
          by (simp add: store_map_def merged_info_def t(6) info_of_def split: option.split)
      qed
      with True body u show ?thesis by (auto simp: fun_eq_iff)
    qed
  qed
qed

lemma delete_row:
  assumes ok: "db_ok storeDir s" and r: "row_of s (printStorePath storeDir p) = Some r"
    and free: "\<forall>q. q \<noteq> p \<longrightarrow> (q, p) \<notin> ref_rel storeDir s"
  defines "refs \<equiv> filter (\<lambda>x. x \<noteq> (r_id r, r_id r)) (db_refs s)"
  defines "t \<equiv> s\<lparr>db_paths := filter (\<lambda>x. r_path x \<noteq> printStorePath storeDir p) (db_paths s),
    db_refs := filter (\<lambda>(a, b). a \<noteq> r_id r) refs\<rparr>"
  shows "\<not> list_ex (\<lambda>(a, b). b = r_id r) refs" "db_ok storeDir t" "store_map storeDir t = (store_map storeDir s)(p := None)"
proof -
  have rr: "r \<in> set (db_paths s)" "r_path r = printStorePath storeDir p" using row_of_Some [OF r] by simp_all
  have only: "a = r_id r" if ab: "(a, r_id r) \<in> set (db_refs s)" for a
  proof -
    obtain x where x: "x \<in> set (db_paths s)" "r_id x = a" using db_ok_refs_ids [OF ok ab] by auto
    obtain q where q: "r_path x = printStorePath storeDir q" using db_ok_printed [OF ok x(1)] by blast
    have "(q, p) \<in> ref_rel storeDir s" using ref_rel_to [OF ok rr] x q ab by blast
    with free have "q = p" by blast
    then show ?thesis using db_ok_path_inj [OF ok x(1) rr(1)] q rr x(2) by simp
  qed
  show "\<not> list_ex (\<lambda>(a, b). b = r_id r) refs"
    using only by (auto simp: list_ex_iff refs_def)
  have refs: "(a, b) \<in> set (db_refs t) \<longleftrightarrow> (a, b) \<in> set (db_refs s) \<and> a \<noteq> r_id r" for a b
    by (auto simp: t_def refs_def)
  have b: "(a, b) \<in> set (db_refs t) \<Longrightarrow> b \<noteq> r_id r" for a b
    using refs only by blast
  have paths: "x \<in> set (db_paths t) \<longleftrightarrow> x \<in> set (db_paths s) \<and> x \<noteq> r" for x
    using db_ok_path_inj [OF ok _ rr(1), of x] rr by (auto simp: t_def)
  have ids: "r_id x = r_id r \<longleftrightarrow> x = r" if "x \<in> set (db_paths s)" for x
    using db_ok_id_inj [OF ok that rr(1)] by blast
  show "db_ok storeDir t"
  proof -
    have "distinct (map r_id (db_paths t))" "distinct (map r_path (db_paths t))" "db_seq t = db_seq s"
      using ok by (simp_all add: db_ok_def t_def distinct_map_filter)
    moreover have "a \<in> r_id ` set (db_paths t) \<and> c \<in> r_id ` set (db_paths t)" if ac: "(a, c) \<in> set (db_refs t)" for a c
    proof -
      have "a \<noteq> r_id r" "c \<noteq> r_id r" "(a, c) \<in> set (db_refs s)" using ac refs b by blast+
      with db_ok_refs_ids [OF ok this(3)] show ?thesis using paths by (auto simp: image_iff)
    qed
    ultimately show ?thesis using ok paths by (auto simp: db_ok_def)
  qed
  have rel: "(a, c) \<in> ref_rel storeDir t \<longleftrightarrow> (a, c) \<in> ref_rel storeDir s \<and> a \<noteq> p" for a c
  proof
    assume "(a, c) \<in> ref_rel storeDir t"
    then obtain x y where xy: "x \<in> set (db_paths t)" "y \<in> set (db_paths t)" "(r_id x, r_id y) \<in> set (db_refs t)"
      "r_path x = printStorePath storeDir a" "r_path y = printStorePath storeDir c" by (auto simp: ref_rel_def)
    have "a \<noteq> p" using xy(1,4) by (auto simp: t_def)
    with xy paths refs show "(a, c) \<in> ref_rel storeDir s \<and> a \<noteq> p" unfolding ref_rel_def by blast
  next
    assume h: "(a, c) \<in> ref_rel storeDir s \<and> a \<noteq> p"
    then obtain x y where xy: "x \<in> set (db_paths s)" "y \<in> set (db_paths s)" "(r_id x, r_id y) \<in> set (db_refs s)"
      "r_path x = printStorePath storeDir a" "r_path y = printStorePath storeDir c" by (auto simp: ref_rel_def)
    have x: "x \<noteq> r" using xy(4) rr(2) h by (auto simp: print_inject)
    have y: "y \<noteq> r" using only [of "r_id x"] xy(3) ids [OF xy(1)] x by auto
    have "(r_id x, r_id y) \<in> set (db_refs t)" using refs xy(3) ids [OF xy(1)] x by blast
    with xy paths x y show "(a, c) \<in> ref_rel storeDir t" unfolding ref_rel_def by blast
  qed
  show "store_map storeDir t = (store_map storeDir s)(p := None)"
  proof
    fix q
    show "store_map storeDir t q = ((store_map storeDir s)(p := None)) q"
    proof (cases "q = p")
      case True
      then show ?thesis by (simp add: store_map_row row_of_None) (auto simp: t_def)
    next
      case False
      have skip: "find (\<lambda>x. r_path x = c) (filter (\<lambda>x. r_path x \<noteq> d) xs) = find (\<lambda>x. r_path x = c) xs" if "c \<noteq> d" for c d xs
        using that by (induction xs) auto
      have "row_of t (printStorePath storeDir q) = row_of s (printStorePath storeDir q)"
        using False skip [of "printStorePath storeDir q" "printStorePath storeDir p" "db_paths s"]
        by (simp add: row_of_def t_def print_inject)
      with False rel show ?thesis by (simp add: store_map_def)
    qed
  qed
qed

lemma invalidate_body:
  assumes ok: "db_ok storeDir s"
  shows "if store_map storeDir s p = None then invalidatePathChecked_body storeDir p (calm s) = (Inr (), calm s)
    else if \<exists>q. q \<noteq> p \<and> (q, p) \<in> ref_rel storeDir s
    then invalidatePathChecked_body storeDir p (calm s) = (Inl (PathInUse ''cannot delete path %s because it is in use by %s''), calm s)
    else \<exists>t. invalidatePathChecked_body storeDir p (calm s) = (Inr (), t) \<and> db_ok storeDir t \<and>
      store_map storeDir t = (store_map storeDir s)(p := None)"
proof -
  have fin: "finite {q. (q, p) \<in> ref_rel storeDir s}"
  proof -
    have "{q. (q, p) \<in> ref_rel storeDir s} \<subseteq> {q. printStorePath storeDir q \<in> r_path ` set (db_paths s)}"
      unfolding ref_rel_def by (auto simp: image_iff) metis
    moreover have "finite {q. printStorePath storeDir q \<in> r_path ` set (db_paths s)}"
      using finite_vimageI [of "r_path ` set (db_paths s)" "printStorePath storeDir"]
      by (simp add: vimage_def inj_on_def print_inject)
    ultimately show ?thesis by (rule finite_subset)
  qed
  have busy: "filter (\<lambda>q. q \<noteq> p) (sorted_list_of_set {q. (q, p) \<in> ref_rel storeDir s}) = [] \<longleftrightarrow>
      \<not> (\<exists>q. q \<noteq> p \<and> (q, p) \<in> ref_rel storeDir s)"
    using fin by (auto simp: filter_empty_conv)
  note steps = run isValidPath0_map queryReferrers0_map [OF ok] invalidatePathChecked_body_def busy
  show ?thesis
  proof (cases "store_map storeDir s p = None \<or> (\<exists>q. q \<noteq> p \<and> (q, p) \<in> ref_rel storeDir s)")
    case True
    then show ?thesis by (auto simp: steps)
  next
    case False
    then obtain r where r: "row_of s (printStorePath storeDir p) = Some r" by (auto simp: store_map_def)
    have free: "\<forall>q. q \<noteq> p \<longrightarrow> (q, p) \<notin> ref_rel storeDir (calm s)" using False by (auto simp: ref_rel_def)
    have rc: "row_of (calm s) (printStorePath storeDir p) = Some r" using r by (simp add: row_of_def)
    have "db_ok storeDir (calm s)" using ok by simp
    note d = delete_row [OF this rc free]
    have "find (\<lambda>x. r_path x = printStorePath storeDir p) (db_paths s) = Some r" using r by (simp add: row_of_def)
    with d(1) False show ?thesis
      by (auto simp: steps invalidatePath_def InvalidatePath_def Let_def intro: d(2,3) [simplified])
  qed
qed

text \<open>Between a prefix and a string that starts with it there are only such strings.\<close>

lemma prefix_convex:
  fixes pre :: string
  assumes "pre \<le> a" "a \<le> pre @ b"
  shows "\<exists>c. a = pre @ c"
  using assms
proof (induction pre arbitrary: a)
  case (Cons x pre)
  then show ?case by (cases a) auto
qed simp

lemma sorted_takeWhile_prefix:
  "sorted xs \<Longrightarrow> \<forall>x \<in> set xs. pre \<le> x \<Longrightarrow> takeWhile (\<lambda>p. hasPrefix p pre) xs = filter (\<lambda>p. hasPrefix p pre) xs"
proof (induction xs)
  case (Cons x xs)
  show ?case
  proof (cases "hasPrefix x pre")
    case False
    have "\<not> hasPrefix y pre" if y: "y \<in> set xs" for y
    proof
      assume "hasPrefix y pre"
      then obtain b where "y = pre @ b" by (auto simp: hasPrefix_iff prefix_def)
      then have "x \<le> pre @ b" using Cons.prems(1) y by auto
      with Cons.prems(2) prefix_convex [of pre x b] False show False by (auto simp: hasPrefix_iff)
    qed
    with False show ?thesis by simp
  qed (use Cons in simp)
qed simp

lemma prefix_le: "pre \<le> pre @ (b :: string)"
  by (induction pre) auto

lemma prefix_rows:
  "set (takeWhile (\<lambda>p. hasPrefix p pre) (sort (filter (\<lambda>p. pre \<le> p) ps))) = {p \<in> set ps. hasPrefix p pre}"
  using prefix_le by (subst sorted_takeWhile_prefix) (auto simp: hasPrefix_iff prefix_def)

lemma valid_paths: "db_ok storeDir s \<Longrightarrow> printStorePath storeDir p \<in> set (map r_path (db_paths s)) \<longleftrightarrow> store_map storeDir s p \<noteq> None"
  by (simp add: store_map_row row_of_None)

lemma retry_no_signal:
  assumes "atomic m" "db_signals s = []"
  obtains t where "retrySQLite m s = (fst (m (calm s)), t)" "calm t = snd (m (calm s))"
  using retry_calm [OF assms(1), of s] assms(2) by auto

lemma retry_reads:
  assumes "steps m" "reads m" "db_signals s = []"
  obtains t where "retrySQLite m s = (fst (m (calm s)), t)" "db_tables t = db_tables s"
proof -
  obtain t where t: "retrySQLite m s = (fst (m (calm s)), t)" "calm t = snd (m (calm s))"
    by (rule retry_no_signal [OF atomic_reads [OF assms(1,2)] assms(3)])
  have "calm (snd (m (calm s))) = calm (calm s)" using assms(2) by (simp only: reads_def)
  with t(2) have "calm t = calm s" by (metis calm_idem)
  with t(1) that show ?thesis by (simp add: calm_eq_iff)
qed

lemma fst_retry_reads:
  "steps m \<Longrightarrow> reads m \<Longrightarrow> db_signals s = [] \<Longrightarrow> fst (retrySQLite m s) = fst (m (calm s))"
  by (metis retry_reads fst_conv)

lemma txn_outcome:
  assumes "steps body" "db_signals s = []"
  obtains t where "retrySQLite (sqlite_txn body) s = (fst (body (calm s)), t)"
    "case body (calm s) of (Inl e, u) \<Rightarrow> db_tables t = db_tables s | (Inr x, u) \<Rightarrow> calm t = u"
proof -
  obtain t where t: "retrySQLite (sqlite_txn body) s = (fst (sqlite_txn body (calm s)), t)"
    "calm t = snd (sqlite_txn body (calm s))"
    by (rule retry_no_signal [OF atomic_txn(1) [OF assms(1)] assms(2)])
  obtain r u where b: "body (calm s) = (r, u)" by fastforce
  show ?thesis
  proof (cases r)
    case (Inl e)
    have "db_tables (calm t) = db_tables (calm s)"
      using t(2) b Inl by (simp add: atomic_txn(2) [OF assms(1)] rollback_def db_tables_def)
    then have "db_tables t = db_tables s" by (simp add: db_tables_def)
    with that t(1) b Inl show ?thesis by (simp add: atomic_txn(2) [OF assms(1)])
  next
    case (Inr x)
    with that t b show ?thesis by (simp add: atomic_txn(2) [OF assms(1)])
  qed
qed

lemma fst_snd_run: "fst x = r \<Longrightarrow> \<exists>t. x = (r, t)"
  by (cases x) simp

lemma register_run:
  assumes "db_ok storeDir s" "sp_ok (vpi_path info)" "info_hashes_ok info" "db_signals s = []"
  shows "if register_ok sha storeDir (store_map storeDir s) info
    then \<exists>t. registerValidPath sha storeDir now info s = (Inr (), t) \<and> db_ok storeDir t \<and>
      store_map storeDir t = (store_map storeDir s)(vpi_path info \<mapsto> merged_info now (store_map storeDir s (vpi_path info)) info)
    else \<exists>e t. registerValidPath sha storeDir now info s = (Inl e, t) \<and> db_tables t = db_tables s"
proof -
  have c: "db_ok storeDir (calm s)" "db_busy (calm s) = []" using assms(1) by simp_all
  obtain t where t: "registerValidPath sha storeDir now info s = (fst (registerValidPath_body sha storeDir now info (calm s)), t)"
    "case registerValidPath_body sha storeDir now info (calm s) of
       (Inl e, u) \<Rightarrow> db_tables t = db_tables s | (Inr x, u) \<Rightarrow> calm t = u"
    unfolding registerValidPath_def by (rule txn_outcome [OF steps_registerValidPath_body assms(4)])
  from register_body [OF c assms(2,3), of sha now] show ?thesis
  proof (cases "register_ok sha storeDir (store_map storeDir s) info")
    case True
    with register_body [OF c assms(2,3), of sha now] t show ?thesis by auto
  next
    case False
    with register_body [OF c assms(2,3), of sha now] t show ?thesis by auto
  qed
qed

lemma ok_tables: "db_tables s = db_tables t \<Longrightarrow> db_ok storeDir s = db_ok storeDir t \<and> store_map storeDir s = store_map storeDir t"
  using calm_eq_iff [of s t] calm_eq_facts [of s t] by blast

lemma invalidate_run:
  assumes "db_ok storeDir s" "db_signals s = []"
  shows "if \<exists>q i. q \<noteq> p \<and> store_map storeDir s q = Some i \<and> p \<in> set (vpi_references i) \<and> store_map storeDir s p \<noteq> None
    then \<exists>t. invalidatePathChecked storeDir p s = (Inl (PathInUse ''cannot delete path %s because it is in use by %s''), t) \<and>
      db_tables t = db_tables s
    else \<exists>t. invalidatePathChecked storeDir p s = (Inr (), t) \<and> db_ok storeDir t \<and>
      store_map storeDir t = (store_map storeDir s)(p := None)"
proof -
  obtain t where t: "invalidatePathChecked storeDir p s = (fst (invalidatePathChecked_body storeDir p (calm s)), t)"
    "case invalidatePathChecked_body storeDir p (calm s) of (Inl e, u) \<Rightarrow> db_tables t = db_tables s | (Inr x, u) \<Rightarrow> calm t = u"
    unfolding invalidatePathChecked_def by (rule txn_outcome [OF steps_invalidatePathChecked_body assms(2)])
  have use: "(q, p) \<in> ref_rel storeDir s \<longleftrightarrow> (\<exists>i. store_map storeDir s q = Some i \<and> p \<in> set (vpi_references i))" for q
  proof (cases "row_of s (printStorePath storeDir q)")
    case None
    then have "r_path x \<noteq> printStorePath storeDir q" if "x \<in> set (db_paths s)" for x
      using row_of_unique [OF assms(1) that] by auto
    with None show ?thesis by (auto simp: ref_rel_def store_map_def)
  qed (use finite_ref_rel [of q storeDir s] in \<open>auto simp: store_map_def info_of_def\<close>)
  from invalidate_body [OF assms(1), of p] t show ?thesis
    by (auto simp: use split: if_splits) (metis assms(1) calm_eq_facts calm_idem db_ok_calm fun_upd_triv store_map_calm)+
qed

subsection \<open>Properties\<close>

text \<open>
  C19.  Registering a path is a transaction on the map of valid paths, however often the database
  is busy in between: it goes through exactly if the content address of a new path is right and
  every reference is valid or the path itself, and then the path maps to the given info with
  the references united and the registration time of an earlier registration kept, and nothing
  else changes; otherwise an error is raised and the tables are as before.
\<close>

theorem registerValidPath_refines:
  assumes "db_ok storeDir s" "sp_ok (vpi_path info)" "info_hashes_ok info" "db_signals s = []"
  shows "if register_ok sha storeDir (store_map storeDir s) info
    then \<exists>t. registerValidPath sha storeDir now info s = (Inr (), t) \<and> db_ok storeDir t \<and>
      store_map storeDir t = (store_map storeDir s)(vpi_path info \<mapsto> merged_info now (store_map storeDir s (vpi_path info)) info)
    else \<exists>e t. registerValidPath sha storeDir now info s = (Inl e, t) \<and> db_tables t = db_tables s"
  using assms by (rule register_run)

definition example_db :: store_db where
  "example_db = \<lparr> db_paths = [], db_refs = [], db_seq = 0, db_busy = [True, False, True], db_signals = [] \<rparr>"

definition example_info :: ValidPathInfo where
  "example_info = \<lparr> vpi_path = StorePath ''ffffffffffffffffffffffffffffffff-x'', vpi_narHash = hashString toy_sha ''nar'',
     vpi_references = [StorePath ''ffffffffffffffffffffffffffffffff-x''], vpi_registrationTime = 0, vpi_narSize = 112,
     vpi_ca = None \<rparr>"

lemma example_facts:
  "db_ok ''/nix/store'' example_db" "sp_ok (vpi_path example_info)" "info_hashes_ok example_info" "db_signals example_db = []"
  "store_map ''/nix/store'' example_db = Map.empty" "register_ok sha ''/nix/store'' Map.empty example_info"
  using nix_store_ok dummy_ok hashString_sha256 [OF toy_sha_ok, of "''nar''"]
  by (simp_all add: db_ok_def example_db_def example_info_def info_hashes_ok_def store_map_def row_of_def fun_eq_iff
      register_ok_def ca_accepted_def)

lemma example_registered:
  "\<exists>t. registerValidPath toy_sha ''/nix/store'' 17 example_info example_db = (Inr (), t) \<and> db_ok ''/nix/store'' t \<and>
    store_map ''/nix/store'' t = [vpi_path example_info \<mapsto> example_info\<lparr>vpi_registrationTime := 17\<rparr>]"
proof -
  have "merged_info 17 None example_info = example_info\<lparr>vpi_registrationTime := 17\<rparr>"
    by (simp add: merged_info_def example_info_def)
  then show ?thesis
    using register_run [OF example_facts(1-4), of toy_sha 17] by (simp add: example_facts(5,6))
qed

theorem registerValidPath_refines_witness:
  "\<exists>t. registerValidPath toy_sha ''/nix/store'' 17 example_info example_db = (Inr (), t) \<and>
    store_map ''/nix/store'' t = [vpi_path example_info \<mapsto> example_info\<lparr>vpi_registrationTime := 17\<rparr>]"
proof -
  have "merged_info 17 None example_info = example_info\<lparr>vpi_registrationTime := 17\<rparr>"
    by (simp add: merged_info_def example_info_def)
  then show ?thesis
    using registerValidPath_refines [OF example_facts(1-4), of toy_sha 17] by (auto simp: example_facts(5,6))
qed

text \<open>
  C20.  Invalidating a path removes it from the map and keeps everything else, unless another path
  refers to it: then it is in use and the tables are as before.  A path that is not valid is left
  alone, and references of the path to itself do not keep it.
\<close>

theorem invalidatePathChecked_refines:
  assumes "db_ok storeDir s" "db_signals s = []"
  shows "if \<exists>q i. q \<noteq> p \<and> store_map storeDir s q = Some i \<and> p \<in> set (vpi_references i) \<and> store_map storeDir s p \<noteq> None
    then \<exists>t. invalidatePathChecked storeDir p s = (Inl (PathInUse ''cannot delete path %s because it is in use by %s''), t) \<and>
      db_tables t = db_tables s
    else \<exists>t. invalidatePathChecked storeDir p s = (Inr (), t) \<and> db_ok storeDir t \<and>
      store_map storeDir t = (store_map storeDir s)(p := None)"
  using assms by (rule invalidate_run)

theorem invalidatePathChecked_refines_witness:
  "\<exists>s t. store_map ''/nix/store'' s (vpi_path example_info) \<noteq> None \<and>
    invalidatePathChecked ''/nix/store'' (vpi_path example_info) s = (Inr (), t) \<and> store_map ''/nix/store'' t = Map.empty"
proof -
  obtain s where s: "db_ok ''/nix/store'' s" "store_map ''/nix/store'' s =
      [vpi_path example_info \<mapsto> example_info\<lparr>vpi_registrationTime := 17\<rparr>]"
    using example_registered by blast
  then have "db_ok ''/nix/store'' (calm s)" "db_signals (calm s) = []" by simp_all
  note inv = invalidatePathChecked_refines [OF this, of "vpi_path example_info"]
  have free: "\<not> (\<exists>q i. q \<noteq> vpi_path example_info \<and> store_map ''/nix/store'' (calm s) q = Some i \<and>
      vpi_path example_info \<in> set (vpi_references i) \<and> store_map ''/nix/store'' (calm s) (vpi_path example_info) \<noteq> None)"
    by (auto simp: s(2) split: if_splits)
  have "store_map ''/nix/store'' (calm s) (vpi_path example_info) \<noteq> None"
    "(store_map ''/nix/store'' (calm s))(vpi_path example_info := None) = Map.empty"
    by (simp_all add: s(2))
  then show ?thesis
    using inv [unfolded if_not_P [OF free]] by metis
qed

text \<open>
  C21.  The queries read the map, however often the database is busy: the info of a path is what the
  map holds for it, or the path is not valid; the valid paths are those of the map; and the paths
  of a hash prefix are exactly the valid paths that start with it, found by walking the
  sorted table until the first one that does not.
\<close>

theorem queries_read_map:
  assumes "db_ok storeDir s" "db_signals s = []"
  shows "fst (queryPathInfo storeDir p s) =
      (case store_map storeDir s p of None \<Rightarrow> Inl (InvalidPath ''path %s is not valid'') | Some i \<Rightarrow> Inr i) \<and>
    fst (queryAllValidPaths storeDir s) = Inr (sorted_list_of_set (dom (store_map storeDir s))) \<and>
    (pre \<noteq> [] \<and> length pre \<le> HashLen \<longrightarrow>
     fst (queryPathsByHashPrefix storeDir pre s) =
       Inr (sorted_list_of_set {p \<in> dom (store_map storeDir s). prefix pre (sp_baseName p)}))"
proof (intro conjI impI)
  obtain t where "queryPathInfoUnchecked storeDir p s = (Inr (store_map storeDir s p), t)"
    unfolding queryPathInfoUnchecked_def
    using retry_reads [OF steps_queryPathInfoInternal reads_queries(1) assms(2), of storeDir p]
    by (auto simp: queryPathInfoInternal_map [OF assms(1)])
  then show "fst (queryPathInfo storeDir p s) =
      (case store_map storeDir s p of None \<Rightarrow> Inl (InvalidPath ''path %s is not valid'') | Some i \<Rightarrow> Inr i)"
    by (auto simp: queryPathInfo_def run goodStorePath_def store_map_def info_of_def split: option.split)
  let ?all = "bindM QueryValidPaths (\<lambda>ps. liftE (insert_all storeDir ps []))"
  have sd: "store_dir_ok storeDir" using assms(1) by (simp add: db_ok_def)
  have printed: "\<forall>x \<in> set (map r_path (db_paths s)). \<exists>p. sp_ok p \<and> x = printStorePath storeDir p"
    using db_ok_printed [OF assms(1)] by auto
  have "?all (calm s) = (Inr (sorted_list_of_set (dom (store_map storeDir s))), calm s)"
    using insert_all_Nil [OF sd printed] valid_paths [OF assms(1)]
    by (simp add: QueryValidPaths_def run dom_def)
  moreover have "steps ?all" "reads ?all"
    by (intro steps, unfold QueryValidPaths_def, intro reads_intros)
  ultimately show "fst (queryAllValidPaths storeDir s) = Inr (sorted_list_of_set (dom (store_map storeDir s)))"
    unfolding queryAllValidPaths_def by (simp add: fst_retry_reads assms(2))
  assume pre: "pre \<noteq> [] \<and> length pre \<le> HashLen"
  let ?pre = "(storeDir @ ''/'') @ pre"
  let ?q = "bindM (QueryPathsByHashPrefix ?pre) (\<lambda>ps. liftE (insert_all storeDir (takeWhile (\<lambda>p. hasPrefix p ?pre) ps) []))"
  let ?ps = "takeWhile (\<lambda>p. hasPrefix p ?pre) (sort (filter (\<lambda>p. ?pre \<le> p) (map r_path (db_paths s))))"
  have ps: "set ?ps = {p \<in> set (map r_path (db_paths s)). hasPrefix p ?pre}" by (rule prefix_rows)
  have "\<forall>x \<in> set ?ps. \<exists>p. sp_ok p \<and> x = printStorePath storeDir p" unfolding ps using printed by blast
  from insert_all_Nil [OF sd this]
  have "insert_all storeDir ?ps [] = Inr (sorted_list_of_set {p \<in> dom (store_map storeDir s). prefix pre (sp_baseName p)})"
    unfolding ps using valid_paths [OF assms(1)]
    by (simp add: dom_def hasPrefix_iff printStorePath_def sp_to_string_def conj_commute)
  then have "?q (calm s) = (Inr (sorted_list_of_set {p \<in> dom (store_map storeDir s). prefix pre (sp_baseName p)}), calm s)"
    by (simp add: QueryPathsByHashPrefix_def run)
  moreover have "steps ?q" "reads ?q"
    by (intro steps, unfold QueryPathsByHashPrefix_def, intro reads_intros)
  ultimately have "fst (retrySQLite ?q s) = Inr (sorted_list_of_set {p \<in> dom (store_map storeDir s). prefix pre (sp_baseName p)})"
    by (simp only: fst_retry_reads assms(2) fst_conv)
  then show "fst (queryPathsByHashPrefix storeDir pre s) =
      Inr (sorted_list_of_set {p \<in> dom (store_map storeDir s). prefix pre (sp_baseName p)})"
    using pre by (simp add: queryPathsByHashPrefix_def Let_def)
qed

theorem queries_read_map_witness:
  "fst (queryPathsByHashPrefix ''/nix/store'' ''ff'' example_db) = Inr [] \<and>
   (\<exists>s. fst (queryPathsByHashPrefix ''/nix/store'' ''ff'' s) = Inr [vpi_path example_info])"
proof -
  obtain s where s: "db_ok ''/nix/store'' s" "store_map ''/nix/store'' s =
      [vpi_path example_info \<mapsto> example_info\<lparr>vpi_registrationTime := 17\<rparr>]"
    using example_registered by blast
  then have c: "db_ok ''/nix/store'' (calm s)" "db_signals (calm s) = []" by simp_all
  have "{p. p = vpi_path example_info \<and> prefix ''ff'' (sp_baseName p)} = {vpi_path example_info}"
    by (auto simp: example_info_def)
  then show ?thesis
    using queries_read_map [OF example_facts(1,4), of "vpi_path example_info" "''ff''"]
      queries_read_map [OF c, of "vpi_path example_info" "''ff''"] s(2)
    by (auto simp: example_facts(5) HashLen_def)
qed

text \<open>
  C22.  Whatever the database and the interrupt flag answer, and whatever the tables hold, a
  registration or invalidation that throws has changed no table.
\<close>

theorem transactions_atomic:
  "(fst (registerValidPath sha storeDir now info s) \<noteq> Inr () \<longrightarrow>
      db_tables (snd (registerValidPath sha storeDir now info s)) = db_tables s) \<and>
   (fst (invalidatePathChecked storeDir p s) \<noteq> Inr () \<longrightarrow>
      db_tables (snd (invalidatePathChecked storeDir p s)) = db_tables s)"
proof -
  have "fst (retrySQLite (sqlite_txn body) s) = Inr () \<or> db_tables (snd (retrySQLite (sqlite_txn body) s)) = db_tables s"
    if "steps body" for body :: "(store_db, unit) M"
  proof -
    obtain r u where b: "body (calm s) = (r, u)" by fastforce
    have "db_tables (rollback (calm s) u) = db_tables s" by (simp add: rollback_def db_tables_def)
    with b retry_calm [OF atomic_txn(1) [OF that], of s] show ?thesis
      unfolding atomic_txn(2) [OF that] by (cases r) (auto simp: db_tables_def dest: arg_cong [of _ _ db_tables])
  qed
  from this [OF steps_registerValidPath_body [of sha storeDir now info]]
    this [OF steps_invalidatePathChecked_body [of storeDir p]]
  show ?thesis
    by (auto simp: registerValidPath_def invalidatePathChecked_def)
qed

theorem transactions_atomic_witness:
  "\<exists>s info. fst (registerValidPath toy_sha ''/nix/store'' 17 info s) \<noteq> Inr () \<and>
    db_tables (snd (registerValidPath toy_sha ''/nix/store'' 17 info s)) = db_tables s"
proof -
  let ?i = "example_info\<lparr>vpi_references := [StorePath ''y'']\<rparr>"
  have i: "sp_ok (vpi_path ?i)" "info_hashes_ok ?i" using example_facts(2,3) by (simp_all add: info_hashes_ok_def)
  have bad: "\<not> register_ok toy_sha ''/nix/store'' Map.empty ?i" by (simp add: register_ok_def example_info_def)
  obtain e t where "registerValidPath toy_sha ''/nix/store'' 17 ?i example_db = (Inl e, t)"
    using register_run [OF example_facts(1) i example_facts(4), of toy_sha 17] bad by (auto simp: example_facts(5))
  then have "fst (registerValidPath toy_sha ''/nix/store'' 17 ?i example_db) \<noteq> Inr ()" by simp
  with transactions_atomic [of toy_sha "''/nix/store''" 17 ?i example_db] show ?thesis by blast
qed

end
