(* ===== verification/FileSystem.thy ===== *)
theory FileSystem
  imports Archive
begin

text \<open>
  The file system below the store and the operations of \<open>libutil/file-system.cc\<close> and
  \<open>libstore/posix-fs-canonicalise.cc\<close> on it.

  A path is the list of its components from the root; directory entries map paths to inode
  numbers, in the order in which a directory lists them, so that a file with several links is
  one inode with several entries.  Only directories are walked: a symlink among the parents of
  a path is an error here.  Every system call may fail with any error and without an effect:
  \<open>fs_faults\<close> is the script of these failures, one line for each call, and used up means no
  failures.  \<open>fs_signals\<close> are the answers of the interrupt flag.  The process runs as the
  owner of everything, so permissions are stored and never refuse.
\<close>

subsection \<open>Inodes and entries\<close>

record inode =
  in_type :: file_type
  in_data :: string
  in_mode :: "32 word"
  in_mtime :: int
  in_uid :: nat
  in_xattrs :: "string list"

type_synonym fpath = "string list"

record fsys =
  fs_dents :: "(fpath \<times> nat) list"
  fs_inodes :: "nat \<Rightarrow> inode"
  fs_next :: nat
  fs_now :: int
  fs_faults :: "errno option list"
  fs_signals :: "bool list"

record PosixStat =
  ps_type :: file_type
  ps_mode :: "32 word"
  ps_size :: nat
  ps_nlink :: nat
  ps_ino :: nat
  ps_mtime :: int
  ps_uid :: nat

definition dent :: "fsys \<Rightarrow> fpath \<Rightarrow> nat option" where
  "dent s p = map_of (fs_dents s) p"

definition is_dir :: "fsys \<Rightarrow> fpath \<Rightarrow> bool" where
  "is_dir s p = (case dent s p of None \<Rightarrow> False | Some i \<Rightarrow> in_type (fs_inodes s i) = tDirectory)"

definition children :: "fsys \<Rightarrow> fpath \<Rightarrow> (string \<times> nat) list" where
  "children s p = [(last q, i). (q, i) \<leftarrow> fs_dents s, q \<noteq> [] \<and> butlast q = p]"

text \<open>A path that is not there: below something that is no directory, or just missing.\<close>

definition miss :: "fsys \<Rightarrow> fpath \<Rightarrow> errno" where
  "miss s p =
     (if list_ex (\<lambda>k. case dent s (take k p) of None \<Rightarrow> False | Some i \<Rightarrow> in_type (fs_inodes s i) \<noteq> tDirectory)
           [0..<length p]
      then ENOTDIR else ENOENT)"

definition nlink :: "fsys \<Rightarrow> nat \<Rightarrow> nat" where
  "nlink s i = length (filter (\<lambda>(_, j). j = i) (fs_dents s))"

definition stat_of :: "fsys \<Rightarrow> nat \<Rightarrow> PosixStat" where
  "stat_of s i = (let n = fs_inodes s i in
     \<lparr> ps_type = in_type n, ps_mode = in_mode n, ps_size = length (in_data n), ps_nlink = nlink s i, ps_ino = i,
       ps_mtime = in_mtime n, ps_uid = in_uid n \<rparr>)"

definition set_inode :: "nat \<Rightarrow> (inode \<Rightarrow> inode) \<Rightarrow> fsys \<Rightarrow> fsys" where
  "set_inode i f s = s\<lparr>fs_inodes := (fs_inodes s)(i := f (fs_inodes s i))\<rparr>"

text \<open>An entry added to or removed from a directory changes the directory's time.\<close>

definition touch :: "fpath \<Rightarrow> fsys \<Rightarrow> fsys" where
  "touch p s = (case dent s p of None \<Rightarrow> s | Some i \<Rightarrow> set_inode i (in_mtime_update (\<lambda>_. fs_now s)) s)"

definition add_dent :: "fpath \<Rightarrow> nat \<Rightarrow> fsys \<Rightarrow> fsys" where
  "add_dent q i s = touch (butlast q) (s\<lparr>fs_dents := fs_dents s @ [(q, i)]\<rparr>)"

definition del_dent :: "fpath \<Rightarrow> fsys \<Rightarrow> fsys" where
  "del_dent q s = touch (butlast q) (s\<lparr>fs_dents := filter (\<lambda>(x, _). x \<noteq> q) (fs_dents s)\<rparr>)"

definition new_inode :: "fpath \<Rightarrow> inode \<Rightarrow> fsys \<Rightarrow> fsys" where
  "new_inode q n s = add_dent q (fs_next s) (s\<lparr>fs_inodes := (fs_inodes s)(fs_next s := n), fs_next := Suc (fs_next s)\<rparr>)"

subsection \<open>System calls\<close>

type_synonym 'a sys = "fsys \<Rightarrow> (errno + 'a) \<times> fsys"

definition sys_call :: "'a sys \<Rightarrow> 'a sys" where
  "sys_call m s =
     (case fs_faults s of
        [] \<Rightarrow> m s
      | f # r \<Rightarrow> (case f of None \<Rightarrow> m (s\<lparr>fs_faults := r\<rparr>) | Some e \<Rightarrow> (Inl e, s\<lparr>fs_faults := r\<rparr>)))"

definition sys_lstat :: "fpath \<Rightarrow> PosixStat sys" where
  "sys_lstat p = sys_call (\<lambda>s. ((case dent s p of None \<Rightarrow> Inl (miss s p) | Some i \<Rightarrow> Inr (stat_of s i)), s))"

definition sys_link :: "fpath \<Rightarrow> fpath \<Rightarrow> unit sys" where
  "sys_link old new = sys_call (\<lambda>s.
     case dent s old of
       None \<Rightarrow> (Inl (miss s old), s)
     | Some i \<Rightarrow>
         if in_type (fs_inodes s i) = tDirectory then (Inl EPERM, s)
         else if dent s new \<noteq> None then (Inl EEXIST, s)
         else if \<not> is_dir s (butlast new) then (Inl (miss s new), s)
         else (Inr (), add_dent new i s))"

definition sys_unlink :: "fpath \<Rightarrow> unit sys" where
  "sys_unlink p = sys_call (\<lambda>s.
     case dent s p of
       None \<Rightarrow> (Inl (miss s p), s)
     | Some i \<Rightarrow> if in_type (fs_inodes s i) = tDirectory then (Inl EISDIR, s) else (Inr (), del_dent p s))"

definition sys_rmdir :: "fpath \<Rightarrow> unit sys" where
  "sys_rmdir p = sys_call (\<lambda>s.
     case dent s p of
       None \<Rightarrow> (Inl (miss s p), s)
     | Some i \<Rightarrow>
         if in_type (fs_inodes s i) \<noteq> tDirectory then (Inl ENOTDIR, s)
         else if children s p \<noteq> [] then (Inl ENOTEMPTY, s)
         else (Inr (), del_dent p s))"

text \<open>\<open>rename\<close> of one link of a file onto another link of it does nothing.\<close>

definition move_dents :: "fpath \<Rightarrow> fpath \<Rightarrow> (fpath \<times> nat) list \<Rightarrow> (fpath \<times> nat) list" where
  "move_dents old new ds =
     map (\<lambda>(q, i). (if prefix old q then new @ drop (length old) q else q, i)) (filter (\<lambda>(q, _). q \<noteq> new) ds)"

definition do_rename :: "fpath \<Rightarrow> fpath \<Rightarrow> fsys \<Rightarrow> fsys" where
  "do_rename old new s = touch (butlast old) (touch (butlast new) (s\<lparr>fs_dents := move_dents old new (fs_dents s)\<rparr>))"

definition sys_rename :: "fpath \<Rightarrow> fpath \<Rightarrow> unit sys" where
  "sys_rename old new = sys_call (\<lambda>s.
     case dent s old of
       None \<Rightarrow> (Inl (miss s old), s)
     | Some i \<Rightarrow>
         let d = (in_type (fs_inodes s i) = tDirectory) in
         if \<not> is_dir s (butlast new) then (Inl (miss s new), s)
         else if d \<and> strict_prefix old new then (Inl EINVAL, s)
         else (case dent s new of
             None \<Rightarrow> (Inr (), do_rename old new s)
           | Some j \<Rightarrow>
               if i = j then (Inr (), s)
               else if d \<and> \<not> is_dir s new then (Inl ENOTDIR, s)
               else if \<not> d \<and> is_dir s new then (Inl EISDIR, s)
               else if children s new \<noteq> [] then (Inl ENOTEMPTY, s)
               else (Inr (), do_rename old new s)))"

definition sys_inode :: "fpath \<Rightarrow> (inode \<Rightarrow> inode) \<Rightarrow> unit sys" where
  "sys_inode p f = sys_call (\<lambda>s.
     case dent s p of None \<Rightarrow> (Inl (miss s p), s) | Some i \<Rightarrow> (Inr (), set_inode i f s))"

text \<open>\<open>chmod\<close>, which no caller applies to a symlink; \<open>utimensat\<close> and \<open>lchown\<close>, which do not follow one.\<close>

definition sys_chmod :: "fpath \<Rightarrow> 32 word \<Rightarrow> unit sys" where
  "sys_chmod p m = sys_inode p (in_mode_update (\<lambda>_. m))"

definition sys_utimes :: "fpath \<Rightarrow> int \<Rightarrow> unit sys" where
  "sys_utimes p t = sys_inode p (in_mtime_update (\<lambda>_. t))"

definition sys_lchown :: "fpath \<Rightarrow> nat \<Rightarrow> unit sys" where
  "sys_lchown p u = sys_inode p (in_uid_update (\<lambda>_. u))"

definition sys_removexattr :: "fpath \<Rightarrow> string \<Rightarrow> unit sys" where
  "sys_removexattr p x = sys_inode p (in_xattrs_update (filter (\<lambda>y. y \<noteq> x)))"

definition sys_listxattr :: "fpath \<Rightarrow> string list sys" where
  "sys_listxattr p = sys_call (\<lambda>s.
     ((case dent s p of None \<Rightarrow> Inl (miss s p) | Some i \<Rightarrow> Inr (in_xattrs (fs_inodes s i))), s))"

definition sys_create :: "fpath \<Rightarrow> inode \<Rightarrow> unit sys" where
  "sys_create p n = sys_call (\<lambda>s.
     if dent s p \<noteq> None then (Inl EEXIST, s)
     else if \<not> is_dir s (butlast p) then (Inl (miss s p), s)
     else (Inr (), new_inode p (n\<lparr>in_mtime := fs_now s\<rparr>) s))"

definition blank_inode :: inode where
  "blank_inode = \<lparr> in_type = tRegular, in_data = [], in_mode = 0, in_mtime = 0, in_uid = 0, in_xattrs = [] \<rparr>"

definition sys_mkdir :: "fpath \<Rightarrow> 32 word \<Rightarrow> unit sys" where
  "sys_mkdir p m = sys_create p (blank_inode\<lparr>in_type := tDirectory, in_mode := m\<rparr>)"

definition sys_symlink :: "string \<Rightarrow> fpath \<Rightarrow> unit sys" where
  "sys_symlink tgt p = sys_create p (blank_inode\<lparr>in_type := tSymlink, in_data := tgt, in_mode := 0x1ff\<rparr>)"

definition sys_readlink :: "fpath \<Rightarrow> string sys" where
  "sys_readlink p = sys_call (\<lambda>s.
     ((case dent s p of
         None \<Rightarrow> Inl (miss s p)
       | Some i \<Rightarrow> if in_type (fs_inodes s i) = tSymlink then Inr (in_data (fs_inodes s i)) else Inl EINVAL), s))"

text \<open>Opening a directory and reading it to the end: names, inode numbers and types.\<close>

definition sys_readdir :: "fpath \<Rightarrow> (string \<times> nat \<times> file_type) list sys" where
  "sys_readdir p = sys_call (\<lambda>s.
     case dent s p of
       None \<Rightarrow> (Inl (miss s p), s)
     | Some _ \<Rightarrow>
         if \<not> is_dir s p then (Inl ENOTDIR, s)
         else (Inr (map (\<lambda>(n, i). (n, i, in_type (fs_inodes s i))) (children s p)), s))"

text \<open>A call whose failure is thrown.\<close>

definition sysE :: "string \<Rightarrow> 'a sys \<Rightarrow> (fsys, 'a) M" where
  "sysE msg m s = (case m s of (Inl e, t) \<Rightarrow> (Inl (SysError e msg), t) | (Inr x, t) \<Rightarrow> (Inr x, t))"

definition sysR :: "'a sys \<Rightarrow> (fsys, errno + 'a) M" where
  "sysR m s = (case m s of (r, t) \<Rightarrow> (Inr r, t))"

definition fs_checkInterrupt :: "(fsys, unit) M" where
  "fs_checkInterrupt s =
     (case fs_signals s of
        [] \<Rightarrow> (Inr (), s)
      | b # r \<Rightarrow> ((if b then Inl (Interrupted ''interrupted by the user'') else Inr ()), s\<lparr>fs_signals := r\<rparr>))"

subsection \<open>Wrappers\<close>

definition lstat :: "fpath \<Rightarrow> (fsys, PosixStat) M" where
  "lstat p = sysE ''getting status of %s'' (sys_lstat p)"

definition maybeLstat :: "fpath \<Rightarrow> (fsys, PosixStat option) M" where
  "maybeLstat p = bindM (sysR (sys_lstat p)) (\<lambda>r.
     case r of
       Inr st \<Rightarrow> ret (Some st)
     | Inl e \<Rightarrow> if e = ENOENT \<or> e = ENOTDIR then ret None else throw (SysError e ''getting status of %s''))"

definition pathExists :: "fpath \<Rightarrow> (fsys, bool) M" where
  "pathExists p = bindM (maybeLstat p) (\<lambda>st. ret (st \<noteq> None))"

definition readLink :: "fpath \<Rightarrow> (fsys, string) M" where
  "readLink p = seqM fs_checkInterrupt (sysE ''reading symbolic link %s'' (sys_readlink p))"

definition fs_chmod :: "fpath \<Rightarrow> 32 word \<Rightarrow> (fsys, unit) M" where
  "fs_chmod p m = sysE ''setting permissions on %s'' (sys_chmod p m)"

definition unlinkIfExists :: "fpath \<Rightarrow> (fsys, unit) M" where
  "unlinkIfExists p = bindM (sysR (sys_unlink p)) (\<lambda>r.
     case r of Inr _ \<Rightarrow> ret () | Inl e \<Rightarrow> if e \<noteq> ENOENT then throw (SysError e ''removing %s'') else ret ())"

definition fs_unlink :: "fpath \<Rightarrow> (fsys, unit) M" where
  "fs_unlink p = sysE ''removing %s'' (sys_unlink p)"

definition tryUnlink :: "fpath \<Rightarrow> (fsys, unit) M" where
  "tryUnlink p = bindM (sysR (sys_unlink p)) (\<lambda>_. ret ())"

definition chmodIfNeeded :: "fpath \<Rightarrow> 32 word \<Rightarrow> 32 word \<Rightarrow> (fsys, bool) M" where
  "chmodIfNeeded p mode bits = bindM (lstat p) (\<lambda>st.
     if (ps_mode st XOR mode) AND bits = 0 then ret False else seqM (fs_chmod p mode) (ret True))"

definition setWriteTime :: "fpath \<Rightarrow> int \<Rightarrow> (fsys, unit) M" where
  "setWriteTime p t = sysE ''changing modification time of %s (using `utimensat`)'' (sys_utimes p t)"

definition createSymlink :: "string \<Rightarrow> fpath \<Rightarrow> (fsys, unit) M" where
  "createSymlink tgt p = sysE ''creating symlink %s -> %s'' (sys_symlink tgt p)"

text \<open>
  \<open>std::filesystem::create_directories\<close>: each missing directory from the top, with the default
  mode; something else in the way is an error.
\<close>

definition create_directory :: "fpath \<Rightarrow> unit sys" where
  "create_directory p s =
     (case sys_mkdir p 0x1ed s of
        (Inl e, s) \<Rightarrow> if e = EEXIST \<and> is_dir s p then (Inr (), s) else (Inl e, s)
      | r \<Rightarrow> r)"

definition createDirs :: "fpath \<Rightarrow> (fsys, unit) M" where
  "createDirs p = forM (\<lambda>k. sysE ''creating directory %1%'' (create_directory (take k p))) [1..<Suc (length p)]"

fun digits10 :: "nat \<Rightarrow> string" where
  "digits10 n = (if n < 10 then [char_of (48 + n)] else digits10 (n div 10) @ [char_of (48 + n mod 10)])"

declare digits10.simps [simp del]

text \<open>
  \<open>makeTempPath\<close> counts up from wherever the counter is, and \<open>createTempDir\<close> takes the next
  name as long as the name is taken: \<open>names\<close> are the names the counter gives, one for each try.
\<close>

definition makeTempPath :: "fpath \<Rightarrow> string \<Rightarrow> nat \<Rightarrow> nat \<Rightarrow> fpath" where
  "makeTempPath root sfx pid counter = root @ [sfx @ ''-'' @ digits10 pid @ ''-'' @ digits10 (counter mod 2 ^ 32)]"

fun createTempDir :: "nat \<Rightarrow> fpath \<Rightarrow> string \<Rightarrow> 32 word \<Rightarrow> nat \<Rightarrow> nat \<Rightarrow> (fsys, fpath \<times> nat) M" where
  "createTempDir 0 root pre mode pid counter = throw Diverge"
| "createTempDir (Suc fuel) root pre mode pid counter =
     seqM fs_checkInterrupt
       (let tmpDir = makeTempPath root pre pid counter in
        bindM (sysR (sys_mkdir tmpDir mode)) (\<lambda>r.
          case r of
            Inr _ \<Rightarrow> ret (tmpDir, Suc counter)
          | Inl e \<Rightarrow> if e \<noteq> EEXIST then throw (SysError e ''creating directory %1%'')
                     else createTempDir fuel root pre mode pid (Suc counter)))"

subsection \<open>Deleting a tree\<close>

text \<open>
  The walk holds the count of freed bytes and the first exception of an unlink.  A directory is
  listed at once, where the code reads it entry by entry while it deletes them.
\<close>

type_synonym del_state = "fsys \<times> 64 word \<times> exn option"

definition PERM_MASK :: "32 word" where
  "PERM_MASK = 0x1c0"

definition delete_account :: "PosixStat \<Rightarrow> 64 word \<Rightarrow> 64 word" where
  "delete_account st freed =
     (if ps_type st \<noteq> tDirectory \<and> (ps_nlink st = 1 \<or> ps_nlink st = 2) then freed + word_of_nat (ps_size st) else freed)"

definition delete_unlink :: "bool \<Rightarrow> fpath \<Rightarrow> (del_state, unit) M" where
  "delete_unlink d p = bindM (onL (sysR (if d then sys_rmdir p else sys_unlink p))) (\<lambda>r.
     case r of
       Inr _ \<Rightarrow> ret ()
     | Inl e \<Rightarrow>
         if e = ENOENT then ret ()
         else onR (modS (\<lambda>(freed, ex). (freed, if ex = None then Some (SysError e ''cannot unlink %1%'') else ex))))"

fun deletePath_walk :: "nat \<Rightarrow> fpath \<Rightarrow> (del_state, unit) M" where
  "deletePath_walk 0 p = throw Diverge"
| "deletePath_walk (Suc fuel) p =
     seqM (onL fs_checkInterrupt)
       (bindM (onL (maybeLstat p)) (\<lambda>st.
          case st of
            None \<Rightarrow> ret ()
          | Some st \<Rightarrow>
              seqM (onR (modS (\<lambda>(freed, ex). (delete_account st freed, ex))))
                (seqM (if ps_type st = tDirectory then
                         seqM (if ps_mode st AND PERM_MASK \<noteq> PERM_MASK
                               then onL (sysE ''fchmodat2 %s'' (sys_chmod p (ps_mode st OR PERM_MASK))) else ret ())
                           (bindM (onL (sysE ''opening directory %1%'' (sys_readdir p))) (\<lambda>es.
                             forM (\<lambda>(name, _). seqM (onL fs_checkInterrupt) (deletePath_walk fuel (p @ [name]))) es))
                       else ret ())
                  (delete_unlink (ps_type st = tDirectory) p))))"

text \<open>More levels than the longest path has components there are not.\<close>

definition tree_fuel :: "fsys \<Rightarrow> nat" where
  "tree_fuel s = Suc (Suc (foldr (\<lambda>(p, _). max (length p)) (fs_dents s) 0))"

definition deletePath :: "fpath \<Rightarrow> (fsys, 64 word) M" where
  "deletePath p s =
     (if p = [] then (Inl (Abort ''parentDirPath != path''), s)
      else case sysR (sys_readdir (butlast p)) s of
        (Inl x, s) \<Rightarrow> (Inl x, s)
      | (Inr (Inl e), s) \<Rightarrow> if e = ENOENT then (Inr 0, s) else (Inl (SysError e ''opening directory %s''), s)
      | (Inr (Inr _), s) \<Rightarrow>
          (case deletePath_walk (tree_fuel s) p (s, 0, None) of
             (Inl x, (s, _, _)) \<Rightarrow> (Inl x, s)
           | (Inr _, (s, freed, Some ex)) \<Rightarrow> (Inl ex, s)
           | (Inr _, (s, freed, None)) \<Rightarrow> (Inr freed, s)))"

subsection \<open>Canonical metadata\<close>

definition mtimeStore :: int where
  "mtimeStore = 1"

definition canon_mode :: "PosixStat \<Rightarrow> 32 word" where
  "canon_mode st = (if ps_type st = tDirectory then 0x1ed else if ps_mode st AND 0x40 \<noteq> 0 then 0x16d else 0x124)"

definition canonicaliseTimestampAndPermissions_st :: "fpath \<Rightarrow> PosixStat \<Rightarrow> (fsys, unit) M" where
  "canonicaliseTimestampAndPermissions_st p st =
     seqM (if ps_type st \<noteq> tSymlink \<and> ps_mode st \<noteq> canon_mode st then fs_chmod p (canon_mode st) else ret ())
       (if ps_mtime st \<noteq> mtimeStore then setWriteTime p mtimeStore else ret ())"

definition canonicaliseTimestampAndPermissions :: "fpath \<Rightarrow> (fsys, unit) M" where
  "canonicaliseTimestampAndPermissions p = bindM (lstat p) (canonicaliseTimestampAndPermissions_st p)"

text \<open>\<open>uid\<close> is the effective user, \<open>uidRange\<close> and \<open>ignored\<close> are the options.\<close>

definition remove_xattrs :: "string list \<Rightarrow> fpath \<Rightarrow> (fsys, unit) M" where
  "remove_xattrs ignored p =
     bindM (sysE ''querying extended attributes of %s'' (sys_listxattr p)) (\<lambda>xs.
       forM (\<lambda>x. if x \<in> set ignored then ret ()
                 else sysE ''removing extended attribute %s from %s'' (sys_removexattr p x)) xs)"

fun canonicalisePathMetaData_walk ::
  "nat \<Rightarrow> nat \<Rightarrow> (nat \<times> nat) option \<Rightarrow> string list \<Rightarrow> fpath \<Rightarrow> (fsys \<times> nat list, unit) M" where
  "canonicalisePathMetaData_walk 0 uid uidRange ignored p = throw Diverge"
| "canonicalisePathMetaData_walk (Suc fuel) uid uidRange ignored p =
     seqM (onL fs_checkInterrupt)
       (bindM (onL (lstat p)) (\<lambda>st.
          if \<not> (ps_type st = tRegular \<or> ps_type st = tDirectory \<or> ps_type st = tSymlink)
          then throw (Error ''file %1% has an unsupported type'')
          else seqM (onL (remove_xattrs ignored p))
            (bindM (getS snd) (\<lambda>inodesSeen.
               if (case uidRange of None \<Rightarrow> False | Some (lo, hi) \<Rightarrow> ps_uid st < lo \<or> hi < ps_uid st)
               then if ps_type st = tDirectory \<or> ps_ino st \<notin> set inodesSeen
                    then throw (Error ''invalid ownership on file %1%'')
                    else if ps_type st = tSymlink \<or>
                         (ps_uid st = uid \<and> (ps_mode st = 0x124 \<or> ps_mode st = 0x16d) \<and> ps_mtime st = mtimeStore)
                    then ret () else throw (Abort ''canonical'')
               else
                 seqM (onR (modS (List.insert (ps_ino st))))
                   (seqM (onL (canonicaliseTimestampAndPermissions_st p st))
                     (seqM (if ps_uid st \<noteq> uid then onL (sysE ''changing owner of %1% to %2%'' (sys_lchown p uid)) else ret ())
                       (if ps_type st = tDirectory then
                          bindM (onL (sysE ''cannot read directory %s'' (sys_readdir p))) (\<lambda>es.
                            forM (\<lambda>(name, _). seqM (onL fs_checkInterrupt)
                                (canonicalisePathMetaData_walk fuel uid uidRange ignored (p @ [name]))) es)
                        else ret ())))))))"

definition canonicalisePathMetaData :: "nat \<Rightarrow> (nat \<times> nat) option \<Rightarrow> string list \<Rightarrow> fpath \<Rightarrow> (fsys, unit) M" where
  "canonicalisePathMetaData uid uidRange ignored p s =
     (case canonicalisePathMetaData_walk (tree_fuel s) uid uidRange ignored p (s, []) of (r, (s, _)) \<Rightarrow> (r, s))"

subsection \<open>Moving a tree\<close>

text \<open>The functions of \<open>std::filesystem\<close> throw \<open>filesystem_error\<close>.\<close>

definition sysF :: "'a sys \<Rightarrow> (fsys, 'a) M" where
  "sysF m s = (case m s of (Inl e, t) \<Rightarrow> (Inl (FilesystemError e), t) | (Inr x, t) \<Rightarrow> (Inr x, t))"

text \<open>\<open>Finally\<close>: a throw of the final action aborts when another exception is on its way.\<close>

definition finallyM :: "('s, 'a) M \<Rightarrow> ('s, unit) M \<Rightarrow> ('s, 'a) M" where
  "finallyM m fin s =
     (case m s of
        (Inl e, t) \<Rightarrow> (case fin t of (Inl _, u) \<Rightarrow> (Inl (Abort ''Finally''), u) | (Inr _, u) \<Rightarrow> (Inl e, u))
      | (Inr x, t) \<Rightarrow> (case fin t of (Inl e, u) \<Rightarrow> (Inl e, u) | (Inr _, u) \<Rightarrow> (Inr x, u)))"

text \<open>\<open>std::filesystem::remove\<close>: nothing there is no error.\<close>

definition fs_remove :: "fpath \<Rightarrow> (fsys, unit) M" where
  "fs_remove p s =
     (case (if is_dir s p then sys_rmdir p else sys_unlink p) s of
        (Inl e, t) \<Rightarrow> if e = ENOENT then (Inr (), t) else (Inl (FilesystemError e), t)
      | (Inr _, t) \<Rightarrow> (Inr (), t))"

text \<open>\<open>perm_options::add\<close> of the owner's write bit.\<close>

definition add_owner_write :: "fpath \<Rightarrow> (fsys, unit) M" where
  "add_owner_write p = bindM (sysF (sys_lstat p)) (\<lambda>st. sysF (sys_chmod p (ps_mode st OR 0x80)))"

definition read_inode :: "fpath \<Rightarrow> inode sys" where
  "read_inode p = sys_call (\<lambda>s. ((case dent s p of None \<Rightarrow> Inl (miss s p) | Some i \<Rightarrow> Inr (fs_inodes s i)), s))"

text \<open>Copying a file or a link over what is there, and its mode with it.\<close>

definition copy_node :: "fpath \<Rightarrow> fpath \<Rightarrow> (fsys, unit) M" where
  "copy_node src dst =
     bindM (sysF (read_inode src)) (\<lambda>n.
       seqM (fs_remove dst)
         (sysF (sys_create dst (blank_inode\<lparr>in_type := in_type n, in_data := in_data n, in_mode := in_mode n\<rparr>))))"

fun copyFile :: "nat \<Rightarrow> fpath \<Rightarrow> fpath \<Rightarrow> bool \<Rightarrow> (fsys, unit) M" where
  "copyFile 0 src dst andDelete = throw Diverge"
| "copyFile (Suc fuel) src dst andDelete =
     bindM (sysF (sys_lstat src)) (\<lambda>st.
       seqM (if andDelete \<and> ps_type st = tDirectory then add_owner_write src else ret ())
         (seqM
            (if ps_type st = tSymlink \<or> ps_type st = tRegular then copy_node src dst
             else if ps_type st = tDirectory then
               seqM (sysF (create_directory dst))
                 (bindM (sysE ''cannot read directory %s'' (sys_readdir src)) (\<lambda>es.
                    forM (\<lambda>(name, _). copyFile fuel (src @ [name]) (dst @ [name]) andDelete) es))
             else throw (Error ''file %s has an unsupported type''))
            (seqM (bindM (lstat src) (\<lambda>st'. setWriteTime dst (ps_mtime st')))
               (if andDelete
                then seqM (if ps_type st \<noteq> tSymlink then add_owner_write src else ret ()) (fs_remove src)
                else ret ()))))"

definition moveFile :: "nat \<Rightarrow> nat \<Rightarrow> fpath \<Rightarrow> fpath \<Rightarrow> (fsys, unit) M" where
  "moveFile pid counter old new =
     bindM (sysR (sys_rename old new)) (\<lambda>r.
       case r of
         Inr _ \<Rightarrow> ret ()
       | Inl e \<Rightarrow>
           bindM (bindM (getS (\<lambda>s. Suc (length (fs_dents s) + length (fs_faults s)))) (\<lambda>fuel.
                    createTempDir fuel (butlast new) ''rename-tmp'' 0x1ed pid counter)) (\<lambda>(temp, _).
             finallyM
               (let tempCopyTarget = temp @ [''copy-target''] in
                if e = EXDEV then
                  seqM (fs_remove new)
                    (seqM (bindM (getS tree_fuel) (\<lambda>fuel. copyFile fuel old tempCopyTarget True))
                      (sysF (sys_rename tempCopyTarget new)))
                else ret ())
               (fs_remove temp)))"

subsection \<open>Well-formed file systems\<close>

definition fs_ok :: "fsys \<Rightarrow> bool" where
  "fs_ok s \<longleftrightarrow> distinct (map fst (fs_dents s)) \<and> is_dir s [] \<and>
     (\<forall>(p, i) \<in> set (fs_dents s). p \<noteq> [] \<longrightarrow> is_dir s (butlast p)) \<and>
     (\<forall>(p, i) \<in> set (fs_dents s). i < fs_next s)"

definition fs_quiet :: "fsys \<Rightarrow> bool" where
  "fs_quiet s \<longleftrightarrow> fs_faults s = [] \<and> fs_signals s = []"

text \<open>The same types, contents and owners of every inode.\<close>

definition same_nodes :: "fsys \<Rightarrow> fsys \<Rightarrow> bool" where
  "same_nodes s t \<longleftrightarrow> (\<forall>i. in_type (fs_inodes t i) = in_type (fs_inodes s i) \<and> in_data (fs_inodes t i) = in_data (fs_inodes s i))"

named_theorems fs "what the operations do to the parts of a file system"

lemma same_nodes_refl [simp]: "same_nodes s s"
  by (simp add: same_nodes_def)

lemma same_nodes_trans: "same_nodes s t \<Longrightarrow> same_nodes t u \<Longrightarrow> same_nodes s u"
  by (simp add: same_nodes_def)

lemma set_inode_sel [fs]:
  "fs_dents (set_inode i f s) = fs_dents s" "fs_faults (set_inode i f s) = fs_faults s"
  "fs_signals (set_inode i f s) = fs_signals s" "fs_next (set_inode i f s) = fs_next s" "fs_now (set_inode i f s) = fs_now s"
  "fs_inodes (set_inode i f s) j = (if j = i then f (fs_inodes s i) else fs_inodes s j)"
  by (simp_all add: set_inode_def)

lemma touch_sel [fs]:
  "fs_dents (touch p s) = fs_dents s" "fs_faults (touch p s) = fs_faults s"
  "fs_signals (touch p s) = fs_signals s" "fs_next (touch p s) = fs_next s" "fs_now (touch p s) = fs_now s"
  "in_type (fs_inodes (touch p s) i) = in_type (fs_inodes s i)" "in_data (fs_inodes (touch p s) i) = in_data (fs_inodes s i)"
  "in_mode (fs_inodes (touch p s) i) = in_mode (fs_inodes s i)" "in_uid (fs_inodes (touch p s) i) = in_uid (fs_inodes s i)"
  by (auto simp: touch_def fs split: option.split)

lemma del_dent_sel [fs]:
  "fs_dents (del_dent p s) = filter (\<lambda>(x, _). x \<noteq> p) (fs_dents s)" "fs_faults (del_dent p s) = fs_faults s"
  "fs_signals (del_dent p s) = fs_signals s" "fs_next (del_dent p s) = fs_next s"
  "in_type (fs_inodes (del_dent p s) i) = in_type (fs_inodes s i)" "in_data (fs_inodes (del_dent p s) i) = in_data (fs_inodes s i)"
  "in_mode (fs_inodes (del_dent p s) i) = in_mode (fs_inodes s i)" "in_uid (fs_inodes (del_dent p s) i) = in_uid (fs_inodes s i)"
  by (simp_all add: del_dent_def fs)

lemma add_dent_sel [fs]:
  "fs_dents (add_dent p j s) = fs_dents s @ [(p, j)]" "fs_faults (add_dent p j s) = fs_faults s"
  "fs_signals (add_dent p j s) = fs_signals s" "fs_next (add_dent p j s) = fs_next s"
  "in_type (fs_inodes (add_dent p j s) i) = in_type (fs_inodes s i)" "in_data (fs_inodes (add_dent p j s) i) = in_data (fs_inodes s i)"
  "in_mode (fs_inodes (add_dent p j s) i) = in_mode (fs_inodes s i)" "in_uid (fs_inodes (add_dent p j s) i) = in_uid (fs_inodes s i)"
  by (simp_all add: add_dent_def fs)

lemma sys_call_quiet: "fs_faults s = [] \<Longrightarrow> sys_call m s = m s"
  by (simp add: sys_call_def)

lemma fs_checkInterrupt_quiet: "fs_signals s = [] \<Longrightarrow> fs_checkInterrupt s = (Inr (), s)"
  by (simp add: fs_checkInterrupt_def)

lemma dent_in: "dent s p = Some i \<Longrightarrow> (p, i) \<in> set (fs_dents s)"
  by (simp add: dent_def map_of_SomeD)

lemma dent_iff: "fs_ok s \<Longrightarrow> dent s p = Some i \<longleftrightarrow> (p, i) \<in> set (fs_dents s)"
  by (simp add: dent_def fs_ok_def)

lemma is_dir_dent: "is_dir s p \<longleftrightarrow> (\<exists>i. dent s p = Some i \<and> in_type (fs_inodes s i) = tDirectory)"
  by (simp add: is_dir_def split: option.split)

lemma dent_none: "dent s p = None \<longleftrightarrow> p \<notin> fst ` set (fs_dents s)"
  by (simp add: dent_def map_of_eq_None_iff)

lemma is_dir_cong: "fs_dents t = fs_dents s \<Longrightarrow> same_nodes s t \<Longrightarrow> is_dir t p = is_dir s p"
  by (simp add: is_dir_dent dent_def same_nodes_def)

lemma fs_ok_cong: "fs_ok s \<Longrightarrow> fs_dents t = fs_dents s \<Longrightarrow> same_nodes s t \<Longrightarrow> fs_next t = fs_next s \<Longrightarrow> fs_ok t"
  using is_dir_cong [of t s] by (simp add: fs_ok_def)

text \<open>Every proper ancestor of a path that is there is a directory.\<close>

lemma ancestor_dir: "fs_ok s \<Longrightarrow> (p @ n # q, i) \<in> set (fs_dents s) \<Longrightarrow> is_dir s p"
proof (induction q arbitrary: n i rule: rev_induct)
  case Nil
  then show ?case by (auto simp: fs_ok_def dest!: bspec [where x = "(p @ [n], i)"])
next
  case (snoc x q)
  then have "is_dir s (p @ n # q)"
    by (auto simp: fs_ok_def butlast_append dest!: bspec [where x = "(p @ n # q @ [x], i)"])
  then obtain j where "(p @ n # q, j) \<in> set (fs_dents s)" by (auto simp: is_dir_dent dest: dent_in)
  with snoc show ?case by blast
qed

text \<open>What is left without a subtree.\<close>

definition prune :: "fpath list \<Rightarrow> (fpath \<times> nat) list \<Rightarrow> (fpath \<times> nat) list" where
  "prune ps ds = filter (\<lambda>(q, _). \<not> (\<exists>p \<in> set ps. prefix p q)) ds"

lemma prune_Nil [simp]: "prune [] ds = ds"
  by (simp add: prune_def)

lemma prune_prune: "prune ps (prune qs ds) = prune (qs @ ps) ds"
  by (auto simp: prune_def intro!: filter_cong)

lemma prune_absent: "fs_ok s \<Longrightarrow> dent s p = None \<Longrightarrow> prune [p] (fs_dents s) = fs_dents s"
proof -
  assume ok: "fs_ok s" and p: "dent s p = None"
  have "\<not> prefix p q" if "(q, i) \<in> set (fs_dents s)" for q i
  proof
    assume "prefix p q"
    then obtain r where r: "q = p @ r" by (auto simp: prefix_def)
    show False
    proof (cases r)
      case Nil
      with r that p show ?thesis by (force simp: dent_none)
    next
      case (Cons n r')
      with r that ancestor_dir [OF ok, of p n r' i] p show ?thesis by (auto simp: is_dir_dent)
    qed
  qed
  then show ?thesis by (auto simp: prune_def intro!: filter_True)
qed

lemma prune_ok:
  assumes ok: "fs_ok s" and p: "p \<noteq> []" and t: "fs_dents t = prune [p] (fs_dents s)" "same_nodes s t" "fs_next t = fs_next s"
  shows "fs_ok t"
proof -
  have d: "distinct (map fst (fs_dents t))"
    using ok by (simp add: t(1) prune_def fs_ok_def distinct_map_filter)
  have sub: "dent t q = Some i \<longleftrightarrow> dent s q = Some i \<and> \<not> prefix p q" for q i
  proof -
    have "dent t q = Some i \<longleftrightarrow> (q, i) \<in> set (fs_dents t)" using d by (simp add: dent_def)
    then show ?thesis using dent_iff [OF ok] by (auto simp: t(1) prune_def)
  qed
  have dir: "is_dir t q" if "is_dir s q" "\<not> prefix p q" for q
    using that t(2) by (auto simp: is_dir_dent sub same_nodes_def)
  have "is_dir t (butlast q)" if "(q, i) \<in> set (fs_dents t)" "q \<noteq> []" for q i
  proof (rule dir)
    have q: "(q, i) \<in> set (fs_dents s)" "\<not> prefix p q" using that by (auto simp: t(1) prune_def)
    show "is_dir s (butlast q)" using ok q that(2) by (auto simp: fs_ok_def)
    show "\<not> prefix p (butlast q)"
      using q(2) prefix_order.trans [of p "butlast q" q] prefixeq_butlast by blast
  qed
  moreover have "is_dir t []" using ok p by (intro dir) (auto simp: fs_ok_def)
  moreover have "\<forall>(q, i) \<in> set (fs_dents t). i < fs_next t" using ok t by (auto simp: fs_ok_def prune_def)
  ultimately show ?thesis using d by (auto simp: fs_ok_def)
qed

subsection \<open>Deleting a tree\<close>

lemma maybeLstat_quiet:
  "fs_faults s = [] \<Longrightarrow> maybeLstat p s = (Inr (map_option (stat_of s) (dent s p)), s)"
  by (cases "dent s p") (simp_all add: maybeLstat_def run sysR_def sys_lstat_def sys_call_quiet miss_def)

text \<open>What a quiet deletion leaves: everything but the subtrees, all nodes as they were.\<close>

definition pruned :: "fpath list \<Rightarrow> fsys \<Rightarrow> fsys \<Rightarrow> bool" where
  "pruned ps s t \<longleftrightarrow> fs_dents t = prune ps (fs_dents s) \<and> same_nodes s t \<and> fs_next t = fs_next s \<and> fs_quiet t"

lemma pruned_trans: "pruned ps s t \<Longrightarrow> pruned qs t u \<Longrightarrow> pruned (ps @ qs) s u"
  by (auto simp: pruned_def prune_prune intro: same_nodes_trans)

lemma pruned_ok: "fs_ok s \<Longrightarrow> p \<noteq> [] \<Longrightarrow> pruned [p] s t \<Longrightarrow> fs_ok t"
  by (auto simp: pruned_def intro: prune_ok)

lemma prefix_snoc_iff: "prefix p q \<and> q \<noteq> p \<longleftrightarrow> (\<exists>n r. q = p @ n # r)"
  by (auto simp: prefix_def) (metis list.exhaust)

lemma children_names:
  "n \<in> fst ` set (children s p) \<longleftrightarrow> (\<exists>i. (p @ [n], i) \<in> set (fs_dents s))"
  unfolding children_def by (force simp: image_iff)

text \<open>Without the children's subtrees only the directory itself is left of its subtree.\<close>

lemma prune_children:
  assumes ok: "fs_ok s"
  shows "prune (map (\<lambda>(n, _). p @ [n]) (children s p)) (fs_dents s) =
    filter (\<lambda>(q, _). prefix p q \<longrightarrow> q = p) (fs_dents s)"
  unfolding prune_def
proof (rule filter_cong [OF refl])
  fix x assume x: "x \<in> set (fs_dents s)"
  obtain q i where q: "x = (q, i)" by fastforce
  have "(\<exists>c \<in> set (map (\<lambda>(n, _). p @ [n]) (children s p)). prefix c q) \<longleftrightarrow> prefix p q \<and> q \<noteq> p"
  proof
    assume "\<exists>c \<in> set (map (\<lambda>(n, _). p @ [n]) (children s p)). prefix c q"
    then show "prefix p q \<and> q \<noteq> p" by (auto simp: prefix_def)
  next
    assume "prefix p q \<and> q \<noteq> p"
    then obtain n r where r: "q = p @ n # r" by (auto simp: prefix_snoc_iff)
    have "\<exists>j. (p @ [n], j) \<in> set (fs_dents s)"
    proof (cases r)
      case Nil
      with x q r show ?thesis by auto
    next
      case (Cons m r')
      then have "is_dir s (p @ [n])" using ancestor_dir [OF ok, of "p @ [n]" m r' i] x q r by simp
      then show ?thesis by (auto simp: is_dir_dent dest: dent_in)
    qed
    then have "n \<in> fst ` set (children s p)" by (simp add: children_names)
    with r show "\<exists>c \<in> set (map (\<lambda>(n, _). p @ [n]) (children s p)). prefix c q" by force
  qed
  then show "(case x of (q, _) \<Rightarrow> \<not> (\<exists>p \<in> set (map (\<lambda>(n, _). p @ [n]) (children s p)). prefix p q)) =
      (case x of (q, _) \<Rightarrow> prefix p q \<longrightarrow> q = p)" by (auto simp: q)
qed

definition deep :: "nat \<Rightarrow> fpath \<Rightarrow> fsys \<Rightarrow> bool" where
  "deep k p s \<longleftrightarrow> (\<forall>(q, i) \<in> set (fs_dents s). prefix p q \<longrightarrow> length q < length p + k)"

lemma deep_prune: "deep k p s \<Longrightarrow> fs_dents t = prune ps (fs_dents s) \<Longrightarrow> deep k p t"
  by (auto simp: deep_def prune_def)

lemma deep_child: "deep (Suc k) p s \<Longrightarrow> deep k (p @ [n]) s"
proof -
  assume d: "deep (Suc k) p s"
  have "prefix p q" if "prefix (p @ [n]) q" for q
    using that by (auto simp: prefix_def)
  with d show ?thesis by (fastforce simp: deep_def)
qed

lemma delete_loop:
  assumes step: "\<And>n s f ex. fs_ok s \<Longrightarrow> fs_quiet s \<Longrightarrow> deep k (p @ [n]) s \<Longrightarrow>
      \<exists>t f'. deletePath_walk fuel (p @ [n]) (s, f, ex) = (Inr (), (t, f', ex)) \<and> pruned [p @ [n]] s t"
    and "fs_ok s" "fs_quiet s" "deep (Suc k) p s"
  shows "\<exists>t f'. forM (\<lambda>(name, _). seqM (onL fs_checkInterrupt) (deletePath_walk fuel (p @ [name]))) es (s, f, ex) =
    (Inr (), (t, f', ex)) \<and> pruned (map (\<lambda>(n, _). p @ [n]) es) s t \<and> fs_ok t"
  using assms(2-4)
proof (induction es arbitrary: s f)
  case Nil
  then show ?case by (auto simp: pruned_def)
next
  case (Cons x es)
  obtain n y where x: "x = (n, y)" by fastforce
  obtain t f' where t: "deletePath_walk fuel (p @ [n]) (s, f, ex) = (Inr (), (t, f', ex))" "pruned [p @ [n]] s t"
    using step [OF Cons.prems(1,2) deep_child [OF Cons.prems(3)]] by blast
  have ok: "fs_ok t" using pruned_ok [OF Cons.prems(1) _ t(2)] by simp
  have q: "fs_quiet t" "deep (Suc k) p t" using t(2) deep_prune [OF Cons.prems(3)] by (auto simp: pruned_def)
  obtain u f'' where u: "forM (\<lambda>(name, _). seqM (onL fs_checkInterrupt) (deletePath_walk fuel (p @ [name]))) es (t, f', ex) =
    (Inr (), (u, f'', ex))" "pruned (map (\<lambda>(n, _). p @ [n]) es) t u" "fs_ok u"
    using Cons.IH [OF ok q] by blast
  have "onL fs_checkInterrupt (s, f, ex) = (Inr (), (s, f, ex))"
    using Cons.prems(2) by (simp add: fs_quiet_def fs_checkInterrupt_quiet)
  then have "forM (\<lambda>(name, _). seqM (onL fs_checkInterrupt) (deletePath_walk fuel (p @ [name]))) (x # es) (s, f, ex) =
      (Inr (), (u, f'', ex))"
    using t(1) u(1) by (simp add: x run)
  with pruned_trans [OF t(2) u(2)] u(3) show ?case by (auto simp: x)
qed

lemma delete_leaf:
  assumes ok: "fs_ok s" and q: "fs_quiet s" and i: "dent s p = Some i" and p: "p \<noteq> []"
    and none: "\<forall>q j. (q, j) \<in> set (fs_dents s) \<longrightarrow> prefix p q \<longrightarrow> q = p"
  shows "\<exists>t. delete_unlink (in_type (fs_inodes s i) = tDirectory) p (s, f, ex) = (Inr (), (t, f, ex)) \<and> pruned [p] s t"
proof -
  have "children s p = []"
  proof (rule ccontr)
    assume "children s p \<noteq> []"
    then obtain n where "n \<in> fst ` set (children s p)" by (cases "children s p") auto
    then obtain j where "(p @ [n], j) \<in> set (fs_dents s)" by (auto simp: children_names)
    with none show False by (metis append_self_conv list.distinct(1) prefixI)
  qed
  then have "delete_unlink (in_type (fs_inodes s i) = tDirectory) p (s, f, ex) = (Inr (), (del_dent p s, f, ex))"
    using q i by (simp add: delete_unlink_def run sysR_def sys_rmdir_def sys_unlink_def sys_call_quiet fs_quiet_def)
  moreover have "fs_dents (del_dent p s) = prune [p] (fs_dents s)"
    using none by (auto simp: fs prune_def intro!: filter_cong)
  then have "pruned [p] s (del_dent p s)"
    using q by (simp add: pruned_def same_nodes_def fs_quiet_def fs)
  ultimately show ?thesis by blast
qed

lemma delete_walk:
  "fs_ok s \<Longrightarrow> fs_quiet s \<Longrightarrow> deep k p s \<Longrightarrow> p \<noteq> [] \<Longrightarrow>
   \<exists>t f'. deletePath_walk (Suc k) p (s, f, ex) = (Inr (), (t, f', ex)) \<and> pruned [p] s t"
proof (induction k arbitrary: p s f ex)
  case 0
  then have "dent s p = None" by (cases "dent s p") (auto simp: deep_def dest!: dent_in)
  with 0 prune_absent [of s p] show ?case
    by (auto simp: run fs_quiet_def fs_checkInterrupt_quiet maybeLstat_quiet pruned_def)
next
  case (Suc k)
  note quiet = Suc.prems(2) [unfolded fs_quiet_def]
  show ?case
  proof (cases "dent s p")
    case None
    with Suc.prems prune_absent [of s p] show ?thesis
      by (auto simp: run fs_quiet_def fs_checkInterrupt_quiet maybeLstat_quiet pruned_def)
  next
    case (Some i)
    let ?f = "delete_account (stat_of s i) f"
    let ?d = "in_type (fs_inodes s i) = tDirectory"
    have type: "ps_type (stat_of s i) = in_type (fs_inodes s i)" by (simp add: stat_of_def Let_def)
    show ?thesis
    proof (cases ?d)
      case False
      have "q = p" if h: "(q, j) \<in> set (fs_dents s)" "prefix p q" for q j
      proof (rule ccontr)
        assume "q \<noteq> p"
        with h(2) have "\<exists>n r. q = p @ n # r" by (simp add: prefix_snoc_iff [symmetric])
        then obtain n r where "q = p @ n # r" by blast
        with ancestor_dir [OF Suc.prems(1), of p n r j] h(1) Some False show False by (simp add: is_dir_dent)
      qed
      then obtain t where "delete_unlink ?d p (s, ?f, ex) = (Inr (), (t, ?f, ex))" "pruned [p] s t"
        using delete_leaf [OF Suc.prems(1,2) Some Suc.prems(4)] by blast
      with False Some quiet show ?thesis
        by (auto simp: run fs_checkInterrupt_quiet maybeLstat_quiet type)
    next
      case True
      let ?m = "ps_mode (stat_of s i)"
      define s1 where "s1 = (if ?m AND PERM_MASK \<noteq> PERM_MASK then set_inode i (in_mode_update (\<lambda>_. ?m OR PERM_MASK)) s else s)"
      have s1: "fs_dents s1 = fs_dents s" "same_nodes s s1" "fs_next s1 = fs_next s" "fs_quiet s1"
        using quiet by (simp_all add: s1_def fs same_nodes_def fs_quiet_def)
      have ok1: "fs_ok s1" by (rule fs_ok_cong [OF Suc.prems(1) s1(1-3)])
      have deep1: "deep (Suc k) p s1" using Suc.prems(3) s1 by (simp add: deep_def)
      have dir1: "is_dir s1 p" "dent s1 p = Some i" using Some True s1(1,2) by (simp_all add: is_dir_dent dent_def same_nodes_def)
      have chmod: "(if ?m AND PERM_MASK \<noteq> PERM_MASK then onL (sysE ''fchmodat2 %s'' (sys_chmod p (?m OR PERM_MASK))) else ret ())
          (s, ?f, ex) = (Inr (), (s1, ?f, ex))"
        using quiet Some by (simp add: s1_def run sysE_def sys_chmod_def sys_inode_def sys_call_quiet)
      let ?es = "map (\<lambda>(n, i). (n, i, in_type (fs_inodes s1 i))) (children s1 p)"
      have list: "onL (sysE ''opening directory %1%'' (sys_readdir p)) (s1, ?f, ex) = (Inr ?es, (s1, ?f, ex))"
        using s1(4) dir1 by (simp add: run sysE_def sys_readdir_def sys_call_quiet fs_quiet_def)
      have step: "\<exists>t f'. deletePath_walk (Suc k) (p @ [n]) (s, f, ex) = (Inr (), (t, f', ex)) \<and> pruned [p @ [n]] s t"
        if "fs_ok s" "fs_quiet s" "deep k (p @ [n]) s" for n s f ex
        using Suc.IH [OF that] by simp
      let ?loop = "forM (\<lambda>(name, _). seqM (onL fs_checkInterrupt) (deletePath_walk (Suc k) (p @ [name]))) ?es"
      obtain t f' where loop: "?loop (s1, ?f, ex) = (Inr (), (t, f', ex))"
        and t0: "pruned (map (\<lambda>(n, _). p @ [n]) ?es) s1 t" "fs_ok t"
        using delete_loop [OF step ok1 s1(4) deep1, of ?es ?f ex] by blast
      have names: "map (\<lambda>(n, _). p @ [n]) ?es = map (\<lambda>(n, _). p @ [n]) (children s1 p)" by auto
      have "pruned (map (\<lambda>(n, _). p @ [n]) (children s1 p)) s1 t" using t0(1) unfolding names .
      then have t: "fs_dents t = filter (\<lambda>(q, _). prefix p q \<longrightarrow> q = p) (fs_dents s)" "same_nodes s1 t"
          "fs_next t = fs_next s" "fs_quiet t"
        using prune_children [OF ok1, of p] s1(1,3) by (simp_all add: pruned_def)
      have "(p, i) \<in> set (fs_dents t)" using dent_in [OF Some] t(1) by simp
      then have ti: "dent t p = Some i" using dent_iff [OF t0(2)] by simp
      have td: "in_type (fs_inodes t i) = tDirectory" using t(2) s1(2) True by (simp add: same_nodes_def)
      obtain u where u: "delete_unlink True p (t, f', ex) = (Inr (), (u, f', ex))" "pruned [p] t u"
        using delete_leaf [OF t0(2) t(4) ti Suc.prems(4), of f' ex] t(1) by (auto simp: td)
      have "prune [p] (fs_dents t) = prune [p] (fs_dents s)"
        unfolding t(1) by (auto simp: prune_def intro!: filter_cong)
      with u(2) t(3) have "pruned [p] s u"
        using same_nodes_trans [OF s1(2) same_nodes_trans [OF t(2)]] by (auto simp: pruned_def)
      moreover have "deletePath_walk (Suc (Suc k)) p (s, f, ex) = (Inr (), (u, f', ex))"
      proof -
        have c: "onL fs_checkInterrupt (s, f, ex) = (Inr (), (s, f, ex))"
          "onL (maybeLstat p) (s, f, ex) = (Inr (Some (stat_of s i)), (s, f, ex))"
          "onR (modS (\<lambda>(freed, ex). (delete_account (stat_of s i) freed, ex))) (s, f, ex) = (Inr (), (s, ?f, ex))"
          using quiet Some by (simp_all add: run fs_checkInterrupt_quiet maybeLstat_quiet)
        have dir: "ps_type (stat_of s i) = tDirectory" using True type by simp
        have body: "seqM (if ?m AND PERM_MASK \<noteq> PERM_MASK then onL (sysE ''fchmodat2 %s'' (sys_chmod p (?m OR PERM_MASK))) else ret ())
            (bindM (onL (sysE ''opening directory %1%'' (sys_readdir p))) (\<lambda>es.
               forM (\<lambda>(name, _). seqM (onL fs_checkInterrupt) (deletePath_walk (Suc k) (p @ [name]))) es)) (s, ?f, ex) =
            (Inr (), (t, f', ex))"
          by (subst seqM_Inr, rule chmod, subst bindM_Inr, rule list, rule loop)
        show ?thesis
          unfolding deletePath_walk.simps(2) [of "Suc k"]
          apply (subst seqM_Inr, rule c(1), subst bindM_Inr, rule c(2), simp only: option.case)
          apply (subst seqM_Inr, rule c(3), simp only: dir simp_thms if_True)
          apply (subst seqM_Inr, rule body, rule u(1))
          done
      qed
      ultimately show ?thesis by blast
    qed
  qed
qed

lemma deep_tree_fuel: "deep (Suc (foldr (\<lambda>(p, _). max (length p)) (fs_dents s) 0)) p s"
proof -
  have "length q \<le> foldr (\<lambda>(p, _). max (length p)) ds 0" if "(q, i) \<in> set ds" for q i and ds :: "(fpath \<times> nat) list"
    using that by (induction ds) (auto simp: le_max_iff_disj)
  then show ?thesis by (fastforce simp: deep_def)
qed

lemma deletePath_quiet:
  assumes "fs_ok s" "fs_quiet s" "p \<noteq> []" "is_dir s (butlast p)"
  shows "\<exists>t freed. deletePath p s = (Inr freed, t) \<and> pruned [p] s t"
proof -
  have "sysR (sys_readdir (butlast p)) s = (Inr (Inr (map (\<lambda>(n, i). (n, i, in_type (fs_inodes s i))) (children s (butlast p)))), s)"
    using assms(2,4) by (auto simp: sysR_def sys_readdir_def sys_call_quiet fs_quiet_def is_dir_dent)
  moreover obtain t f where "deletePath_walk (tree_fuel s) p (s, 0, None) = (Inr (), (t, f, None))" "pruned [p] s t"
    unfolding tree_fuel_def using delete_walk [OF assms(1,2) deep_tree_fuel assms(3)] by blast
  ultimately show ?thesis using assms(3) by (simp add: deletePath_def)
qed

text \<open>Whatever fails, a deletion touches nothing outside of the tree.\<close>

definition outside :: "fpath \<Rightarrow> fsys \<Rightarrow> fsys \<Rightarrow> bool" where
  "outside p s t \<longleftrightarrow> prune [p] (fs_dents t) = prune [p] (fs_dents s) \<and> same_nodes s t \<and> fs_next t = fs_next s"

lemma outside_refl [simp]: "outside p s s"
  by (simp add: outside_def)

lemma outside_faults [simp]:
  "outside p s (t\<lparr>fs_faults := x\<rparr>) = outside p s t" "outside p s (t\<lparr>fs_signals := y\<rparr>) = outside p s t"
  by (simp_all add: outside_def same_nodes_def)

lemma sys_call_outside: "(\<And>t. outside p s t \<Longrightarrow> outside p s (snd (m t))) \<Longrightarrow> outside p s t \<Longrightarrow> outside p s (snd (sys_call m t))"
  by (simp add: sys_call_def split: list.split option.split)

lemma keeps_onL: "keeps P m \<Longrightarrow> keeps (\<lambda>(s, _). P s) (onL m)"
  by (force simp: keeps_def onL_def split: prod.split)

lemma keeps_onR: "keeps (\<lambda>(s, _). P s) (onR m)"
  by (auto simp: keeps_def onR_def split: prod.split)

lemma keeps_sysE: "(\<And>s. P s \<Longrightarrow> P (snd (m s))) \<Longrightarrow> keeps P (sysE msg m)"
  by (auto simp: keeps_def sysE_def split: prod.split sum.split) (metis snd_conv)+

lemma keeps_sysR: "(\<And>s. P s \<Longrightarrow> P (snd (m s))) \<Longrightarrow> keeps P (sysR m)"
  by (auto simp: keeps_def sysR_def split: prod.split) (metis snd_conv)

lemma outside_set_inode:
  "(\<And>n. in_type (f n) = in_type n \<and> in_data (f n) = in_data n) \<Longrightarrow> outside p s t \<Longrightarrow> outside p s (set_inode i f t)"
  by (simp add: outside_def same_nodes_def fs)

lemma outside_del: "prefix p q \<Longrightarrow> outside p s t \<Longrightarrow> outside p s (del_dent q t)"
proof -
  assume "prefix p q" "outside p s t"
  moreover from this have "prune [p] (filter (\<lambda>(x, _). x \<noteq> q) ds) = prune [p] ds" for ds
    by (auto simp: prune_def intro!: filter_cong)
  ultimately show ?thesis by (simp add: outside_def same_nodes_def fs)
qed

lemma outside_calls:
  "keeps (outside p s) fs_checkInterrupt" "keeps (outside p s) (maybeLstat q)"
  "keeps (outside p s) (sysE msg (sys_readdir q))" "keeps (outside p s) (sysE msg (sys_chmod q m))"
  "prefix p q \<Longrightarrow> keeps (outside p s) (sysR (if d then sys_rmdir q else sys_unlink q))"
proof -
  show "keeps (outside p s) fs_checkInterrupt"
    by (simp add: keeps_def fs_checkInterrupt_def split: list.split)
  show "keeps (outside p s) (maybeLstat q)"
    unfolding maybeLstat_def sys_lstat_def
    by (intro keep keeps_sysR sys_call_outside) (auto split: sum.split intro: keep)
  show "keeps (outside p s) (sysE msg (sys_readdir q))"
    unfolding sys_readdir_def by (intro keeps_sysE sys_call_outside) (simp_all split: option.split)
  show "keeps (outside p s) (sysE msg (sys_chmod q m))"
    unfolding sys_chmod_def sys_inode_def
    by (intro keeps_sysE sys_call_outside) (simp_all add: outside_set_inode split: option.split)
  assume "prefix p q"
  then show "keeps (outside p s) (sysR (if d then sys_rmdir q else sys_unlink q))"
    unfolding sys_rmdir_def sys_unlink_def
    by (intro keeps_sysR) (auto intro!: sys_call_outside simp: outside_del split: option.split)
qed

lemma outside_walk: "prefix p q \<Longrightarrow> keeps (\<lambda>(t, _). outside p s t) (deletePath_walk fuel q)"
proof (induction fuel arbitrary: q)
  case (Suc fuel)
  have sub: "keeps (\<lambda>(t, _). outside p s t) (deletePath_walk fuel (q @ [n]))" for n
    using Suc.prems by (intro Suc.IH) (auto simp: prefix_def)
  have u: "keeps (\<lambda>(t, _). outside p s t) (delete_unlink d q)" for d
    unfolding delete_unlink_def
    by (intro keep keeps_onL outside_calls(5) Suc.prems) (auto split: sum.split intro: keep keeps_onR)
  show ?case
    unfolding deletePath_walk.simps(2)
    by (intro keep keeps_onL keeps_onR outside_calls sub u)
      (auto split: option.split intro!: keep keeps_onL keeps_onR outside_calls sub u)
qed (simp add: keep)

lemma outside_deletePath: "outside p s (snd (deletePath p s))"
proof -
  have r: "outside p s (snd (sysR (sys_readdir (butlast p)) s))"
    unfolding sys_readdir_def
    by (rule keepsD [OF keeps_sysR]) (auto intro!: sys_call_outside split: option.split)
  have w: "outside p s (fst (snd (deletePath_walk n p (t, f, ex))))" if "outside p s t" for n t f ex
    using keepsD [OF outside_walk [of p p s n], of "(t, f, ex)"] that by (simp add: split_beta)
  obtain x0 t0 where t0: "sysR (sys_readdir (butlast p)) s = (x0, t0)" by fastforce
  obtain x1 t1 f1 ex1 where t1: "deletePath_walk (tree_fuel t0) p (t0, 0, None) = (x1, (t1, f1, ex1))" by (metis prod.collapse)
  have "outside p s t0" using r t0 by simp
  moreover from w [OF this, of "tree_fuel t0" 0 None] have "outside p s t1" by (simp add: t1)
  ultimately show ?thesis
    by (simp add: deletePath_def t0 t1 split: sum.split option.split)
qed

subsection \<open>Canonical metadata\<close>

text \<open>The canonical form of an inode; contents, type and the executable bit are as before.\<close>

definition canon_node :: "nat \<Rightarrow> string list \<Rightarrow> inode \<Rightarrow> inode" where
  "canon_node uid ignored n = n\<lparr>
     in_mode := (if in_type n = tSymlink then in_mode n else if in_type n = tDirectory then 0x1ed
       else if in_mode n AND 0x40 \<noteq> 0 then 0x16d else 0x124),
     in_mtime := mtimeStore, in_uid := uid, in_xattrs := filter (\<lambda>x. x \<in> set ignored) (in_xattrs n)\<rparr>"

lemma canon_node_sel [simp]:
  "in_type (canon_node uid ignored n) = in_type n" "in_data (canon_node uid ignored n) = in_data n"
  by (simp_all add: canon_node_def)

lemma canon_node_idem [simp]: "canon_node uid ignored (canon_node uid ignored n) = canon_node uid ignored n"
  by (simp add: canon_node_def)

lemma canon_node_executable:
  "in_type n = tRegular \<Longrightarrow> in_mode (canon_node uid ignored n) AND 0x40 \<noteq> 0 \<longleftrightarrow> in_mode n AND 0x40 \<noteq> 0"
  by (simp add: canon_node_def)

definition canonised :: "nat \<Rightarrow> string list \<Rightarrow> nat set \<Rightarrow> fsys \<Rightarrow> fsys \<Rightarrow> bool" where
  "canonised uid ignored A s t \<longleftrightarrow>
     t = s\<lparr>fs_inodes := (\<lambda>i. if i \<in> A then canon_node uid ignored (fs_inodes s i) else fs_inodes s i)\<rparr>"

lemma canonised_empty: "canonised uid ignored {} s s"
  by (simp add: canonised_def)

lemma canonised_trans: "canonised uid ignored A s t \<Longrightarrow> canonised uid ignored B t u \<Longrightarrow> canonised uid ignored (A \<union> B) s u"
  by (auto simp: canonised_def fun_eq_iff)

lemma canonised_sel:
  "canonised uid ignored A s t \<Longrightarrow> fs_dents t = fs_dents s \<and> same_nodes s t \<and> fs_next t = fs_next s \<and>
     fs_faults t = fs_faults s \<and> fs_signals t = fs_signals s"
  by (simp add: canonised_def same_nodes_def)

lemma set_inode_cong: "f (fs_inodes s i) = g (fs_inodes s i) \<Longrightarrow> set_inode i f s = set_inode i g s"
  by (simp add: set_inode_def)

lemma set_inode_id: "f (fs_inodes s i) = fs_inodes s i \<Longrightarrow> set_inode i f s = s"
  by (simp add: set_inode_def fun_upd_idem)

lemma set_inode_twice: "set_inode i f (set_inode i g s) = set_inode i (\<lambda>n. f (g n)) s"
  by (simp add: set_inode_def)

lemma remove_xattrs_loop:
  "fs_faults s = [] \<Longrightarrow> dent s p = Some i \<Longrightarrow>
   forM (\<lambda>x. if x \<in> set ignored then ret ()
      else sysE ''removing extended attribute %s from %s'' (sys_removexattr p x)) xs s =
   (Inr (), set_inode i (in_xattrs_update (filter (\<lambda>y. y \<in> set ignored \<or> y \<notin> set xs))) s)"
proof (induction xs arbitrary: s)
  case Nil
  have "in_xattrs_update (\<lambda>a. a) n = n" for n by (cases n) simp
  then show ?case by (simp add: set_inode_id)
next
  case (Cons x xs)
  show ?case
  proof (cases "x \<in> set ignored")
    case True
    have "(\<lambda>y. y \<in> set ignored \<or> y \<notin> set (x # xs)) = (\<lambda>y. y \<in> set ignored \<or> y \<notin> set xs)" using True by auto
    with Cons True show ?thesis by (simp add: run)
  next
    case False
    let ?t = "set_inode i (in_xattrs_update (filter (\<lambda>y. y \<noteq> x))) s"
    have t: "fs_faults ?t = []" "dent ?t p = Some i" using Cons.prems by (simp_all add: fs dent_def)
    have "sysE ''removing extended attribute %s from %s'' (sys_removexattr p x) s = (Inr (), ?t)"
      using Cons.prems by (simp add: sysE_def sys_removexattr_def sys_inode_def sys_call_quiet)
    moreover have "set_inode i (in_xattrs_update (filter (\<lambda>y. y \<in> set ignored \<or> y \<notin> set xs))) ?t =
        set_inode i (in_xattrs_update (filter (\<lambda>y. y \<in> set ignored \<or> y \<notin> set (x # xs)))) s"
      unfolding set_inode_twice using False by (intro set_inode_cong inode.equality) (auto intro!: filter_cong)
    ultimately show ?thesis using Cons.IH [OF t] False by (simp add: run)
  qed
qed

lemma remove_xattrs_quiet:
  assumes "fs_faults s = []" "dent s p = Some i"
  shows "remove_xattrs ignored p s = (Inr (), set_inode i (in_xattrs_update (filter (\<lambda>y. y \<in> set ignored))) s)"
proof -
  have "sysE ''querying extended attributes of %s'' (sys_listxattr p) s = (Inr (in_xattrs (fs_inodes s i)), s)"
    using assms by (simp add: sysE_def sys_listxattr_def sys_call_quiet)
  then have "remove_xattrs ignored p s =
      (Inr (), set_inode i (in_xattrs_update (filter (\<lambda>y. y \<in> set ignored \<or> y \<notin> set (in_xattrs (fs_inodes s i))))) s)"
    using remove_xattrs_loop [OF assms] by (simp add: remove_xattrs_def)
  also have "\<dots> = (Inr (), set_inode i (in_xattrs_update (filter (\<lambda>y. y \<in> set ignored))) s)"
  proof -
    have "filter (\<lambda>y. y \<in> set ignored \<or> y \<notin> set xs) xs = filter (\<lambda>y. y \<in> set ignored) xs" for xs
      by (rule filter_cong) auto
    then show ?thesis by (intro arg_cong [of _ _ "Pair (Inr ())"] set_inode_cong inode.equality) simp_all
  qed
  finally show ?thesis .
qed

lemma canonicalise_st_quiet:
  assumes "fs_faults s = []" "dent s p = Some i" "ps_type st = in_type (fs_inodes s i)"
    "ps_mode st = in_mode (fs_inodes s i)" "ps_mtime st = in_mtime (fs_inodes s i)"
  shows "canonicaliseTimestampAndPermissions_st p st s =
    (Inr (), set_inode i (\<lambda>n. n\<lparr>in_mode := in_mode (canon_node 0 [] n), in_mtime := mtimeStore\<rparr>) s)"
proof -
  let ?m = "in_mode (canon_node 0 [] (fs_inodes s i))"
  have m: "canon_mode st = ?m" if "ps_type st \<noteq> tSymlink"
    using that assms(3,4) by (simp add: canon_mode_def canon_node_def)
  let ?t = "set_inode i (in_mode_update (\<lambda>_. ?m)) s"
  have same: "?t = s" if "in_mode (fs_inodes s i) = ?m" using that by (simp add: set_inode_def fun_upd_idem)
  have sym: "in_mode (fs_inodes s i) = ?m" if "ps_type st = tSymlink"
    using that assms(3) by (simp add: canon_node_def)
  have 1: "(if ps_type st \<noteq> tSymlink \<and> ps_mode st \<noteq> canon_mode st then fs_chmod p (canon_mode st) else ret ()) s = (Inr (), ?t)"
    using assms m same sym
    by (cases "ps_type st = tSymlink") (auto simp: fs_chmod_def sysE_def sys_chmod_def sys_inode_def sys_call_quiet)
  have same2: "set_inode i (in_mtime_update (\<lambda>_. mtimeStore)) ?t = ?t" if "in_mtime (fs_inodes s i) = mtimeStore"
    using that by (intro set_inode_id inode.equality) (simp_all add: fs)
  have 2: "(if ps_mtime st \<noteq> mtimeStore then setWriteTime p mtimeStore else ret ()) ?t =
      (Inr (), set_inode i (in_mtime_update (\<lambda>_. mtimeStore)) ?t)"
    using assms same2 by (simp add: setWriteTime_def sysE_def sys_utimes_def sys_inode_def sys_call_quiet fs dent_def)
  show ?thesis
    unfolding canonicaliseTimestampAndPermissions_st_def
    by (subst seqM_Inr, rule 1, rule trans [OF 2], simp add: set_inode_def)
qed

text \<open>The inodes of a subtree.\<close>

definition inos :: "fpath \<Rightarrow> fsys \<Rightarrow> nat set" where
  "inos p s = {i. \<exists>q. (q, i) \<in> set (fs_dents s) \<and> prefix p q}"

definition supported :: "fpath \<Rightarrow> fsys \<Rightarrow> bool" where
  "supported p s \<longleftrightarrow> (\<forall>i \<in> inos p s. in_type (fs_inodes s i) \<in> {tRegular, tDirectory, tSymlink})"

lemma inos_children:
  assumes ok: "fs_ok s" and i: "dent s p = Some i"
  shows "inos p s = insert i (\<Union>(n, _) \<in> set (children s p). inos (p @ [n]) s)"
proof (intro equalityI subsetI)
  fix j assume "j \<in> inos p s"
  then obtain q where q: "(q, j) \<in> set (fs_dents s)" "prefix p q" by (auto simp: inos_def)
  show "j \<in> insert i (\<Union>(n, _) \<in> set (children s p). inos (p @ [n]) s)"
  proof (cases "q = p")
    case True
    with q(1) i dent_iff [OF ok] show ?thesis by (metis insertI1 option.inject)
  next
    case False
    then have "\<exists>n r. q = p @ n # r" using q(2) by (simp add: prefix_snoc_iff [symmetric])
    then obtain n r where r: "q = p @ n # r" by blast
    have "\<exists>k. (p @ [n], k) \<in> set (fs_dents s)"
    proof (cases r)
      case Nil
      with q(1) r show ?thesis by auto
    next
      case (Cons m r')
      then have "is_dir s (p @ [n])" using ancestor_dir [OF ok, of "p @ [n]" m r' j] q(1) r by simp
      then show ?thesis by (auto simp: is_dir_dent dest: dent_in)
    qed
    then have "n \<in> fst ` set (children s p)" by (simp add: children_names)
    moreover have "j \<in> inos (p @ [n]) s" using q(1) r by (auto simp: inos_def)
    ultimately show ?thesis by force
  qed
next
  fix j assume "j \<in> insert i (\<Union>(n, _) \<in> set (children s p). inos (p @ [n]) s)"
  then show "j \<in> inos p s"
    using dent_in [OF i] by (auto simp: inos_def prefix_def)
qed

lemma inos_leaf: "fs_ok s \<Longrightarrow> dent s p = Some i \<Longrightarrow> \<not> is_dir s p \<Longrightarrow> inos p s = {i}"
proof -
  assume ok: "fs_ok s" and i: "dent s p = Some i" and d: "\<not> is_dir s p"
  have "children s p = []"
  proof (rule ccontr)
    assume "children s p \<noteq> []"
    then obtain n where "n \<in> fst ` set (children s p)" by (cases "children s p") auto
    then obtain j where "(p @ [n], j) \<in> set (fs_dents s)" by (auto simp: children_names)
    with ancestor_dir [OF ok, of p n "[]" j] d show False by simp
  qed
  with inos_children [OF ok i] show ?thesis by simp
qed

lemma canonised_facts:
  assumes "canonised uid ignored A s t"
  shows "fs_ok s \<Longrightarrow> fs_ok t" "fs_quiet s \<Longrightarrow> fs_quiet t" "deep k p s \<Longrightarrow> deep k p t" "inos p t = inos p s"
    "supported p s \<Longrightarrow> supported p t" "dent t p = dent s p" "children t p = children s p"
proof -
  note sel = canonised_sel [OF assms]
  show "fs_ok s \<Longrightarrow> fs_ok t" using sel by (auto intro: fs_ok_cong)
  show i: "inos p t = inos p s" for p using sel by (simp add: inos_def)
  show "supported p s \<Longrightarrow> supported p t" using sel by (simp add: supported_def i same_nodes_def)
  show "fs_quiet s \<Longrightarrow> fs_quiet t" "deep k p s \<Longrightarrow> deep k p t" "dent t p = dent s p" "children t p = children s p"
    using sel by (simp_all add: fs_quiet_def deep_def dent_def children_def)
qed

lemma canonicalise_node:
  assumes q: "fs_quiet s" and i: "dent s p = Some i"
  shows "\<exists>t. canonised uid ignored {i} s t \<and>
    (\<forall>m :: (fsys \<times> nat list, unit) M. seqM (onL (remove_xattrs ignored p)) (bindM (getS snd) (\<lambda>_.
      seqM (onR (modS (List.insert (ps_ino (stat_of s i)))))
        (seqM (onL (canonicaliseTimestampAndPermissions_st p (stat_of s i)))
          (seqM (if ps_uid (stat_of s i) \<noteq> uid then onL (sysE ''changing owner of %1% to %2%'' (sys_lchown p uid)) else ret ())
            m)))) (s, seen) = m (t, List.insert i seen))"
proof -
  have f: "fs_faults s = []" using q by (simp add: fs_quiet_def)
  let ?x = "\<lambda>n. in_xattrs_update (filter (\<lambda>y. y \<in> set ignored)) n"
  let ?c = "\<lambda>n. n\<lparr>in_mode := in_mode (canon_node 0 [] n), in_mtime := mtimeStore\<rparr>"
  let ?u = "\<lambda>n. n\<lparr>in_uid := uid\<rparr>"
  define s1 where "s1 = set_inode i ?x s"
  define s2 where "s2 = set_inode i ?c s1"
  have s1: "fs_faults s1 = []" "dent s1 p = Some i" using f i by (simp_all add: s1_def fs dent_def)
  have s2: "fs_faults s2 = []" "dent s2 p = Some i" using s1 by (simp_all add: s2_def fs dent_def)
  have r1: "onL (remove_xattrs ignored p) (s, seen) = (Inr (), (s1, seen))"
    using remove_xattrs_quiet [OF f i] by (simp add: s1_def)
  have st: "ps_type (stat_of s i) = in_type (fs_inodes s1 i)" "ps_mode (stat_of s i) = in_mode (fs_inodes s1 i)"
    "ps_mtime (stat_of s i) = in_mtime (fs_inodes s1 i)" "ps_ino (stat_of s i) = i" "ps_uid (stat_of s i) = in_uid (fs_inodes s2 i)"
    by (simp_all add: stat_of_def Let_def s1_def s2_def fs)
  have r2: "onL (canonicaliseTimestampAndPermissions_st p (stat_of s i)) (s1, x) = (Inr (), (s2, x))" for x
    using canonicalise_st_quiet [OF s1 st(1-3)] by (simp add: s2_def)
  have r3: "(if ps_uid (stat_of s i) \<noteq> uid then onL (sysE ''changing owner of %1% to %2%'' (sys_lchown p uid)) else ret ()) (s2, x) =
      (Inr (), (set_inode i ?u s2, x))" for x
    using s2 set_inode_id [of ?u s2 i] st(5)
    by (auto simp: run sysE_def sys_lchown_def sys_inode_def sys_call_quiet)
  have "set_inode i ?u s2 = set_inode i (canon_node uid ignored) s"
    unfolding s2_def s1_def set_inode_twice by (rule set_inode_cong) (simp add: canon_node_def)
  then have "canonised uid ignored {i} s (set_inode i ?u s2)"
    by (simp add: canonised_def set_inode_def fun_eq_iff)
  moreover have "seqM (onL (remove_xattrs ignored p)) (bindM (getS snd) (\<lambda>_.
      seqM (onR (modS (List.insert (ps_ino (stat_of s i)))))
        (seqM (onL (canonicaliseTimestampAndPermissions_st p (stat_of s i)))
          (seqM (if ps_uid (stat_of s i) \<noteq> uid then onL (sysE ''changing owner of %1% to %2%'' (sys_lchown p uid)) else ret ())
            m)))) (s, seen) = m (set_inode i ?u s2, List.insert i seen)" for m :: "(fsys \<times> nat list, unit) M"
    by (subst seqM_Inr, rule r1, subst bindM_Inr, rule run_getS, subst seqM_Inr, simp add: run,
        subst seqM_Inr, rule r2, subst seqM_Inr, rule r3) (simp add: st(4))
  ultimately show ?thesis by blast
qed

lemma canonicalise_loop:
  assumes step: "\<And>n s seen. fs_ok s \<Longrightarrow> fs_quiet s \<Longrightarrow> deep k (p @ [n]) s \<Longrightarrow> supported (p @ [n]) s \<Longrightarrow> dent s (p @ [n]) \<noteq> None \<Longrightarrow>
      \<exists>t seen'. canonicalisePathMetaData_walk fuel uid None ignored (p @ [n]) (s, seen) = (Inr (), (t, seen')) \<and>
        canonised uid ignored (inos (p @ [n]) s) s t"
    and "fs_ok s" "fs_quiet s" "deep (Suc k) p s" "\<forall>(n, _) \<in> set es. supported (p @ [n]) s \<and> dent s (p @ [n]) \<noteq> None"
  shows "\<exists>t seen'. forM (\<lambda>(name, _). seqM (onL fs_checkInterrupt)
        (canonicalisePathMetaData_walk fuel uid None ignored (p @ [name]))) es (s, seen) = (Inr (), (t, seen')) \<and>
      canonised uid ignored (\<Union>(n, _) \<in> set es. inos (p @ [n]) s) s t"
  using assms(2-5)
proof (induction es arbitrary: s seen)
  case Nil
  then show ?case by (auto intro: canonised_empty)
next
  case (Cons x es)
  obtain n y where x: "x = (n, y)" by fastforce
  have n: "supported (p @ [n]) s" "dent s (p @ [n]) \<noteq> None" using Cons.prems(4) x by auto
  obtain t seen' where t: "canonicalisePathMetaData_walk fuel uid None ignored (p @ [n]) (s, seen) = (Inr (), (t, seen'))"
    "canonised uid ignored (inos (p @ [n]) s) s t"
    using step [OF Cons.prems(1,2) deep_child [OF Cons.prems(3)] n] by blast
  note t' = canonised_facts [OF t(2)]
  have "\<forall>(n, _) \<in> set es. supported (p @ [n]) t \<and> dent t (p @ [n]) \<noteq> None" using Cons.prems(4) t'(5,6) by auto
  from Cons.IH [OF t'(1) [OF Cons.prems(1)] t'(2) [OF Cons.prems(2)] t'(3) [OF Cons.prems(3)] this]
  obtain u seen'' where u: "forM (\<lambda>(name, _). seqM (onL fs_checkInterrupt)
      (canonicalisePathMetaData_walk fuel uid None ignored (p @ [name]))) es (t, seen') = (Inr (), (u, seen''))"
    "canonised uid ignored (\<Union>(n, _) \<in> set es. inos (p @ [n]) t) t u" by blast
  have "onL fs_checkInterrupt (s, seen) = (Inr (), (s, seen))"
    using Cons.prems(2) by (simp add: fs_quiet_def fs_checkInterrupt_quiet)
  then have "forM (\<lambda>(name, _). seqM (onL fs_checkInterrupt)
      (canonicalisePathMetaData_walk fuel uid None ignored (p @ [name]))) (x # es) (s, seen) = (Inr (), (u, seen''))"
    using t(1) u(1) by (simp add: x run)
  with canonised_trans [OF t(2) u(2)] show ?case by (auto simp: x t'(4))
qed

lemma canonicalise_walk:
  "fs_ok s \<Longrightarrow> fs_quiet s \<Longrightarrow> deep k p s \<Longrightarrow> supported p s \<Longrightarrow> dent s p \<noteq> None \<Longrightarrow>
   \<exists>t seen'. canonicalisePathMetaData_walk k uid None ignored p (s, seen) = (Inr (), (t, seen')) \<and>
     canonised uid ignored (inos p s) s t"
proof (induction k arbitrary: p s seen)
  case 0
  then show ?case by (auto simp: deep_def dest!: dent_in)
next
  case (Suc k)
  obtain i where i: "dent s p = Some i" using Suc.prems(5) by blast
  have quiet: "fs_faults s = []" "fs_signals s = []" using Suc.prems(2) by (simp_all add: fs_quiet_def)
  have chk: "onL fs_checkInterrupt (s, seen) = (Inr (), (s, seen))" using quiet by (simp add: fs_checkInterrupt_quiet)
  have ls: "onL (lstat p) (s, seen) = (Inr (stat_of s i), (s, seen))"
    using quiet i by (simp add: lstat_def sysE_def sys_lstat_def sys_call_quiet)
  have "i \<in> inos p s" using dent_in [OF i] by (auto simp: inos_def)
  then have sup: "\<not> \<not> (ps_type (stat_of s i) = tRegular \<or> ps_type (stat_of s i) = tDirectory \<or> ps_type (stat_of s i) = tSymlink)"
    using Suc.prems(4) by (auto simp: supported_def stat_of_def Let_def)
  let ?m = "if ps_type (stat_of s i) = tDirectory then
      bindM (onL (sysE ''cannot read directory %s'' (sys_readdir p))) (\<lambda>es.
        forM (\<lambda>(name, _). seqM (onL fs_checkInterrupt) (canonicalisePathMetaData_walk k uid None ignored (p @ [name]))) es)
      else ret ()"
  obtain t where t: "canonised uid ignored {i} s t"
    and node: "seqM (onL (remove_xattrs ignored p)) (bindM (getS snd) (\<lambda>_.
      seqM (onR (modS (List.insert (ps_ino (stat_of s i)))))
        (seqM (onL (canonicaliseTimestampAndPermissions_st p (stat_of s i)))
          (seqM (if ps_uid (stat_of s i) \<noteq> uid then onL (sysE ''changing owner of %1% to %2%'' (sys_lchown p uid)) else ret ())
            ?m)))) (s, seen) = ?m (t, List.insert i seen)"
    using canonicalise_node [OF Suc.prems(2) i, of uid ignored seen] by blast
  have walk: "canonicalisePathMetaData_walk (Suc k) uid None ignored p (s, seen) = ?m (t, List.insert i seen)"
    unfolding canonicalisePathMetaData_walk.simps(2)
    apply (subst seqM_Inr, rule chk, subst bindM_Inr, rule ls, subst if_not_P, rule sup)
    apply (simp only: option.case if_False, rule node)
    done
  note t' = canonised_facts [OF t]
  have type: "ps_type (stat_of s i) = in_type (fs_inodes s i)" by (simp add: stat_of_def Let_def)
  show ?case
  proof (cases "in_type (fs_inodes s i) = tDirectory")
    case False
    then have "inos p s = {i}" using inos_leaf [OF Suc.prems(1) i] i by (simp add: is_dir_dent)
    with False walk t type show ?thesis by auto
  next
    case True
    let ?es = "map (\<lambda>(n, i). (n, i, in_type (fs_inodes t i))) (children s p)"
    have "is_dir t p" using True i t'(6) canonised_sel [OF t] by (simp add: is_dir_dent same_nodes_def)
    then have list: "onL (sysE ''cannot read directory %s'' (sys_readdir p)) (t, x) = (Inr ?es, (t, x))" for x
      using i t'(2) [OF Suc.prems(2)] t'(6,7)
      by (simp add: run sysE_def sys_readdir_def sys_call_quiet fs_quiet_def)
    have es: "\<forall>(n, _) \<in> set ?es. supported (p @ [n]) t \<and> dent t (p @ [n]) \<noteq> None"
    proof -
      have "supported (p @ [n]) t \<and> dent t (p @ [n]) \<noteq> None" if n: "(n, j) \<in> set (children s p)" for n j
      proof -
        have "n \<in> fst ` set (children s p)" using n by force
        then obtain l where "(p @ [n], l) \<in> set (fs_dents s)" by (auto simp: children_names)
        then have "dent s (p @ [n]) \<noteq> None" by (simp add: dent_iff [OF Suc.prems(1), symmetric])
        moreover have "inos (p @ [n]) s \<subseteq> inos p s" by (auto simp: inos_def prefix_def)
        then have "supported (p @ [n]) s" using Suc.prems(4) by (auto simp: supported_def)
        ultimately show ?thesis using t'(5,6) by simp
      qed
      then show ?thesis by auto
    qed
    have step: "\<exists>t seen'. canonicalisePathMetaData_walk k uid None ignored (p @ [n]) (s, seen) = (Inr (), (t, seen')) \<and>
        canonised uid ignored (inos (p @ [n]) s) s t"
      if "fs_ok s" "fs_quiet s" "deep k (p @ [n]) s" "supported (p @ [n]) s" "dent s (p @ [n]) \<noteq> None" for n s seen
      using Suc.IH [OF that] .
    obtain u seen' where u: "forM (\<lambda>(name, _). seqM (onL fs_checkInterrupt)
        (canonicalisePathMetaData_walk k uid None ignored (p @ [name]))) ?es (t, List.insert i seen) = (Inr (), (u, seen'))"
      "canonised uid ignored (\<Union>(n, _) \<in> set ?es. inos (p @ [n]) t) t u"
      using canonicalise_loop [OF step t'(1) [OF Suc.prems(1)] t'(2) [OF Suc.prems(2)] t'(3) [OF Suc.prems(3)] es] by blast
    have "?m (t, List.insert i seen) = (Inr (), (u, seen'))"
      using True type by (simp only: if_True simp_thms) (subst bindM_Inr, rule list, rule u(1))
    moreover have "{i} \<union> (\<Union>(n, _) \<in> set ?es. inos (p @ [n]) t) = inos p s"
      unfolding inos_children [OF Suc.prems(1) i] by (auto simp: t'(4))
    then have "canonised uid ignored (inos p s) s u" using canonised_trans [OF t u(2)] by simp
    ultimately show ?thesis using walk by metis
  qed
qed

subsection \<open>Temporary directories\<close>

fun value10 :: "nat \<Rightarrow> string \<Rightarrow> nat" where
  "value10 a [] = a"
| "value10 a (c # cs) = value10 (10 * a + (of_char c - 48)) cs"

lemma value10_append: "value10 a (xs @ ys) = value10 (value10 a xs) ys"
  by (induction xs arbitrary: a) auto

lemma value10_digits10: "value10 0 (digits10 n) = n"
proof (induction n rule: digits10.induct)
  case (1 n)
  have "n mod 10 < 10" by simp
  then have "(48 + n mod 10) mod 256 = 48 + n mod 10" by simp
  then have d: "of_char (char_of (48 + n mod 10) :: char) = 48 + n mod 10" by simp
  with 1 show ?case
    by (cases "n < 10") (simp_all add: digits10.simps [of n] value10_append)
qed

lemma digits10_inject: "digits10 m = digits10 n \<longleftrightarrow> m = n"
  by (metis value10_digits10)

lemma makeTempPath_inject:
  "makeTempPath root p pid m = makeTempPath root p pid n \<longleftrightarrow> m mod 2 ^ 32 = n mod 2 ^ 32"
  by (simp add: makeTempPath_def digits10_inject)

lemma add_mod_inject: "((c :: nat) + i) mod m = (c + j) mod m \<Longrightarrow> i < m \<Longrightarrow> j < m \<Longrightarrow> i = j"
proof (induction i j rule: linorder_wlog)
  case (le i j)
  then have "m dvd (c + j) - (c + i)" using mod_eq_dvd_iff_nat [of "c + i" "c + j" m] by simp
  then have "m dvd j - i" by simp
  with le show ?case by (meson diff_is_0_eq dvd_imp_le le_antisym less_imp_diff_less not_le zero_less_diff)
qed simp

text \<open>Of so many names one is free.\<close>

lemma free_name:
  assumes "length ds < 2 ^ 32"
  shows "\<exists>j \<le> length ds. makeTempPath root p pid (c + j) \<notin> fst ` set ds"
proof (rule ccontr)
  let ?f = "\<lambda>j. makeTempPath root p pid (c + j)"
  assume "\<not> ?thesis"
  then have "?f ` {..length ds} \<subseteq> fst ` set ds" by auto
  then have "card (?f ` {..length ds}) \<le> card (fst ` set ds)" by (intro card_mono) simp_all
  also have "\<dots> \<le> length ds" using card_image_le [of "set ds" fst] card_length [of ds] by simp
  finally have le: "card (?f ` {..length ds}) \<le> length ds" .
  have "inj_on ?f {..length ds}"
  proof (rule inj_onI)
    fix i j assume ij: "i \<in> {..length ds}" "j \<in> {..length ds}" "?f i = ?f j"
    then have m: "(c + i) mod 2 ^ 32 = (c + j) mod 2 ^ 32" by (simp add: makeTempPath_inject)
    have "i < 2 ^ 32" "j < 2 ^ 32" using ij assms by auto
    with m show "i = j" using add_mod_inject [of c i "2 ^ 32" j] by simp
  qed
  then have "card (?f ` {..length ds}) = Suc (length ds)" by (simp add: card_image)
  with le show False by simp
qed

lemma createTempDir_quiet:
  assumes "fs_ok s" "fs_quiet s" "is_dir s root" "makeTempPath root p pid (c + j) \<notin> fst ` set (fs_dents s)" "j < fuel"
  shows "\<exists>k \<le> j. createTempDir fuel root p mode pid c s = (Inr (makeTempPath root p pid (c + k), Suc (c + k)),
      new_inode (makeTempPath root p pid (c + k)) (blank_inode\<lparr>in_type := tDirectory, in_mode := mode, in_mtime := fs_now s\<rparr>) s) \<and>
    dent s (makeTempPath root p pid (c + k)) = None"
  using assms(4,5)
proof (induction fuel arbitrary: c j)
  case (Suc fuel)
  let ?t = "makeTempPath root p pid c"
  have parent: "butlast ?t = root" by (simp add: makeTempPath_def)
  have chk: "fs_checkInterrupt s = (Inr (), s)" using assms(2) by (simp add: fs_quiet_def fs_checkInterrupt_quiet)
  show ?case
  proof (cases "dent s ?t")
    case None
    then have "sysR (sys_mkdir ?t mode) s = (Inr (Inr ()),
        new_inode ?t (blank_inode\<lparr>in_type := tDirectory, in_mode := mode, in_mtime := fs_now s\<rparr>) s)"
      using assms(2,3) parent by (simp add: sysR_def sys_mkdir_def sys_create_def sys_call_quiet fs_quiet_def)
    with None chk show ?thesis by (intro exI [of _ 0]) (simp add: run Let_def)
  next
    case (Some i)
    then have "sysR (sys_mkdir ?t mode) s = (Inr (Inl EEXIST), s)"
      using assms(2) by (simp add: sysR_def sys_mkdir_def sys_create_def sys_call_quiet fs_quiet_def)
    then have step: "createTempDir (Suc fuel) root p mode pid c s = createTempDir fuel root p mode pid (Suc c) s"
      using chk by (simp add: run Let_def)
    have j: "j \<noteq> 0"
    proof
      assume "j = 0"
      with Suc.prems(1) Some show False by (simp add: dent_none [symmetric])
    qed
    then have "makeTempPath root p pid (Suc c + (j - 1)) \<notin> fst ` set (fs_dents s)" "j - 1 < fuel"
      using Suc.prems by simp_all
    from Suc.IH [OF this] obtain k where k: "k \<le> j - 1"
      "createTempDir fuel root p mode pid (Suc c) s = (Inr (makeTempPath root p pid (Suc c + k), Suc (Suc c + k)),
        new_inode (makeTempPath root p pid (Suc c + k))
          (blank_inode\<lparr>in_type := tDirectory, in_mode := mode, in_mtime := fs_now s\<rparr>) s)"
      "dent s (makeTempPath root p pid (Suc c + k)) = None" by blast
    with step j show ?thesis by (intro exI [of _ "Suc k"]) simp
  qed
qed simp

subsection \<open>Properties\<close>


definition example_dir :: inode where
  "example_dir = blank_inode\<lparr>in_type := tDirectory, in_mode := 0x16d\<rparr>"

definition example_fs :: fsys where
  "example_fs = \<lparr> fs_dents = [([], 0), ([''s''], 1), ([''s'', ''a''], 2), ([''s'', ''a'', ''f''], 3), ([''s'', ''b''], 3)],
     fs_inodes = (\<lambda>i. if i < 3 then example_dir else blank_inode\<lparr>in_data := ''abc'', in_mode := 0x1a4\<rparr>),
     fs_next = 4, fs_now = 7, fs_faults = [], fs_signals = [] \<rparr>"

lemma example_fs_ok: "fs_ok example_fs" "fs_quiet example_fs" "is_dir example_fs [''s'']"
  by (simp_all add: fs_ok_def fs_quiet_def is_dir_def dent_def example_fs_def example_dir_def blank_inode_def)




text \<open>
  A temporary directory is always found: as long as fewer than two to the thirty-second entries exist the
  loop over the counter ends within one more try than there are entries, with a new empty
  directory of the given mode under a name that was free.
\<close>

theorem createTempDir_fresh:
  assumes "fs_ok s" "fs_quiet s" "is_dir s root" "length (fs_dents s) < 2 ^ 32"
  shows "\<exists>k \<le> length (fs_dents s). let p = makeTempPath root pre pid (c + k) in
    createTempDir (Suc (length (fs_dents s))) root pre mode pid c s = (Inr (p, Suc (c + k)),
      new_inode p (blank_inode\<lparr>in_type := tDirectory, in_mode := mode, in_mtime := fs_now s\<rparr>) s) \<and> dent s p = None"
proof -
  obtain j where j: "j \<le> length (fs_dents s)" "makeTempPath root pre pid (c + j) \<notin> fst ` set (fs_dents s)"
    using free_name [OF assms(4)] by blast
  from createTempDir_quiet [OF assms(1-3) j(2), of "Suc (length (fs_dents s))" mode] j(1) show ?thesis
    by (auto simp: Let_def intro: le_trans)
qed

theorem createTempDir_fresh_witness:
  "\<exists>p c t. createTempDir 6 [''s''] ''tmp'' 0x1c0 42 7 example_fs = (Inr (p, c), t) \<and> butlast p = [''s'']"
proof -
  have n: "length (fs_dents example_fs) = 5" by (simp add: example_fs_def)
  then have l: "length (fs_dents example_fs) < 2 ^ 32" by simp
  have "Suc 5 = 6" "butlast (makeTempPath [''s''] p pid m) = [''s'']" for p pid m by (simp_all add: makeTempPath_def)
  with createTempDir_fresh [OF example_fs_ok l, of "''tmp''" 42 7 "0x1c0"] show ?thesis
    unfolding n Let_def by metis
qed



end
