(* ===== verification/ThreadPool.thy ===== *)
theory ThreadPool
  imports Prelude "HOL-Library.Multiset"
begin

text \<open>
  The pool of worker threads (\<open>libutil/thread-pool.cc\<close>) as a step relation.  A state has the
  fields of \<open>ThreadPool::State\<close>, the flag \<open>quit\<close> and the point where each thread stands; thread
  0 is the one that owns the pool, first enqueueing its work and then in \<open>process\<close>.  A step is what
  a thread does while it holds the lock, or between two locks; every interleaving of the steps
  is a run.  A condition variable wakes the threads that sleep on it, any one or all, and may wake
  one for no reason.

  A work item is the list of the items that it enqueues, and how it ends; a worker's item may
  be interrupted at any point once the pool quits (\<open>interruptCheck\<close>).  After \<open>process\<close> has returned normally the
  workers are left to the destructor.
\<close>

subsection \<open>States\<close>

datatype work = Work (spawns: "work list") (work_result: "exn option")

datatype pc =
    Caller "work list"
  | Top "(work \<times> exn option) option"
  | Running work "work list"
  | Asleep
  | Woken
  | Exited
  | Joining "exn option"
  | Done "exn option"

text \<open>\<open>p_accepted\<close> and \<open>p_finished\<close> record the items that were ever enqueued and that have ended.\<close>

record pool =
  p_pending :: "work list"
  p_active :: nat
  p_exception :: "exn option"
  p_draining :: bool
  p_quit :: bool
  p_maxThreads :: nat
  p_threads :: "pc list"
  p_accepted :: "work list"
  p_finished :: "work list"

definition shutDown :: exn where
  "shutDown = ThreadPoolShutDown ''cannot enqueue a work item while the thread pool is shutting down''"

definition at :: "nat \<Rightarrow> pc \<Rightarrow> pool \<Rightarrow> pool" where
  "at t c s = s\<lparr>p_threads := (p_threads s)[t := c]\<rparr>"

definition notify_all :: "pool \<Rightarrow> pool" where
  "notify_all s = s\<lparr>p_threads := map (\<lambda>c. if c = Asleep then Woken else c) (p_threads s)\<rparr>"

definition workers :: "pool \<Rightarrow> nat" where
  "workers s = length (p_threads s) - 1"

subsection \<open>Operations\<close>

text \<open>\<open>ThreadPool(maxThreads)\<close> on a machine with \<open>hw\<close> hardware threads, owned by a caller with some work.\<close>

definition ThreadPool_new :: "nat \<Rightarrow> nat \<Rightarrow> work list \<Rightarrow> pool" where
  "ThreadPool_new maxThreads hw ws = \<lparr> p_pending = [], p_active = 0, p_exception = None, p_draining = False, p_quit = False,
     p_maxThreads = (if maxThreads = 0 then if hw = 0 then 1 else hw else maxThreads), p_threads = [Caller ws],
     p_accepted = [], p_finished = [] \<rparr>"

definition shutdown :: "pool \<Rightarrow> pool" where
  "shutdown s = notify_all (s\<lparr>p_quit := True\<rparr>)"

text \<open>\<open>enqueue\<close> when the pool does not quit, but for \<open>work.notify_one()\<close>.\<close>

definition enqueue :: "work \<Rightarrow> pool \<Rightarrow> pool" where
  "enqueue w s =
     (let s = s\<lparr>p_pending := p_pending s @ [w], p_accepted := p_accepted s @ [w]\<rparr> in
      if workers s + 1 < length (p_pending s) \<and> workers s + 1 < p_maxThreads s
      then s\<lparr>p_threads := p_threads s @ [Top None]\<rparr> else s)"

text \<open>The first part of the loop of \<open>doWork\<close>: the end of an item.\<close>

definition account :: "(work \<times> exn option) option \<Rightarrow> pool \<Rightarrow> pool" where
  "account d s =
     (case d of
        None \<Rightarrow> s
      | Some (w, e) \<Rightarrow>
          let s = s\<lparr>p_active := p_active s - 1, p_finished := p_finished s @ [w]\<rparr> in
          case e of
            None \<Rightarrow> s
          | Some x \<Rightarrow> if p_exception s = None then notify_all (s\<lparr>p_exception := Some x, p_quit := True\<rparr>) else s)"

text \<open>The second part: leave, take the next item, end the work, or sleep.\<close>

definition decide :: "nat \<Rightarrow> pool \<Rightarrow> pool" where
  "decide t s =
     (if p_quit s then at t Exited s
      else case p_pending s of
        w # ws \<Rightarrow> at t (Running w (spawns w)) (s\<lparr>p_pending := ws, p_active := p_active s + 1\<rparr>)
      | [] \<Rightarrow>
          if p_active s = 0 \<and> p_draining s then at t Exited (notify_all (s\<lparr>p_quit := True\<rparr>))
          else at t Asleep s)"

text \<open>\<open>process\<close> after its \<open>doWork\<close> has returned.\<close>

definition process_end :: "pool \<Rightarrow> pool" where
  "process_end s =
     (case p_exception s of
        Some e \<Rightarrow> shutdown (at 0 (Joining (Some e)) s)
      | None \<Rightarrow> at 0 (Done None) s)"

inductive notify_one :: "pool \<Rightarrow> pool \<Rightarrow> bool" where
  nobody: "Asleep \<notin> set (p_threads s) \<Longrightarrow> notify_one s s"
| one: "t < length (p_threads s) \<Longrightarrow> p_threads s ! t = Asleep \<Longrightarrow> notify_one s (at t Woken s)"

inductive pool_step :: "pool \<Rightarrow> pool \<Rightarrow> bool" where
  caller_enqueue: "p_threads s ! 0 = Caller (w # ws) \<Longrightarrow> \<not> p_quit s \<Longrightarrow>
    notify_one (enqueue w (at 0 (Caller ws) s)) s' \<Longrightarrow> pool_step s s'"
| caller_refused: "p_threads s ! 0 = Caller (w # ws) \<Longrightarrow> p_quit s \<Longrightarrow>
    pool_step s (shutdown (at 0 (Joining (Some shutDown)) s))"
| caller_process: "p_threads s ! 0 = Caller [] \<Longrightarrow> pool_step s (at 0 (Top None) (s\<lparr>p_draining := True\<rparr>))"
| top: "t < length (p_threads s) \<Longrightarrow> p_threads s ! t = Top d \<Longrightarrow> pool_step s (decide t (account d s))"
| woken: "t < length (p_threads s) \<Longrightarrow> p_threads s ! t = Woken \<Longrightarrow> pool_step s (decide t s)"
| item_enqueue: "t < length (p_threads s) \<Longrightarrow> p_threads s ! t = Running w (c # cs) \<Longrightarrow> \<not> p_quit s \<Longrightarrow>
    notify_one (enqueue c (at t (Running w cs) s)) s' \<Longrightarrow> pool_step s s'"
| item_refused: "t < length (p_threads s) \<Longrightarrow> p_threads s ! t = Running w (c # cs) \<Longrightarrow> p_quit s \<Longrightarrow>
    pool_step s (at t (Top (Some (w, Some shutDown))) s)"
| item_interrupted: "t < length (p_threads s) \<Longrightarrow> p_threads s ! t = Running w cs \<Longrightarrow> p_quit s \<Longrightarrow> t \<noteq> 0 \<Longrightarrow>
    pool_step s (at t (Top (Some (w, Some (Interrupted ''interrupted by the user'')))) s)"
| item_end: "t < length (p_threads s) \<Longrightarrow> p_threads s ! t = Running w [] \<Longrightarrow>
    pool_step s (at t (Top (Some (w, work_result w))) s)"
| returned: "p_threads s ! 0 = Exited \<Longrightarrow> pool_step s (process_end s)"
| joined: "p_threads s ! 0 = Joining r \<Longrightarrow> (\<forall>t \<in> {1..<length (p_threads s)}. p_threads s ! t = Exited) \<Longrightarrow>
    pool_step s (at 0 (Done r) s)"

inductive spurious :: "pool \<Rightarrow> pool \<Rightarrow> bool" where
  wake: "t < length (p_threads s) \<Longrightarrow> p_threads s ! t = Asleep \<Longrightarrow> spurious s (at t Woken s)"

inductive pool_reaches :: "pool \<Rightarrow> pool \<Rightarrow> bool" for s0 where
  start: "pool_reaches s0 s0"
| step: "pool_reaches s0 s \<Longrightarrow> pool_step s s' \<Longrightarrow> pool_reaches s0 s'"
| wake_up: "pool_reaches s0 s \<Longrightarrow> spurious s s' \<Longrightarrow> pool_reaches s0 s'"

inductive_cases pool_stepE: "pool_step s s'"
inductive_cases notify_oneE: "notify_one s s'"
inductive_simps notify_one_iff: "notify_one s s'"

subsection \<open>The invariant\<close>

text \<open>The item that a thread holds.\<close>

fun item_of :: "pc \<Rightarrow> work multiset" where
  "item_of (Running w _) = {#w#}"
| "item_of (Top (Some (w, _))) = {#w#}"
| "item_of _ = {#}"

definition held :: "pool \<Rightarrow> work multiset" where
  "held s = sum_list (map item_of (p_threads s))"

fun awake :: "pc \<Rightarrow> bool" where
  "awake Asleep = False"
| "awake Exited = False"
| "awake _ = True"

fun in_loop :: "pc \<Rightarrow> bool" where
  "in_loop (Caller _) = False"
| "in_loop (Joining _) = False"
| "in_loop (Done _) = False"
| "in_loop _ = True"

text \<open>What a thread reports of its item: before the pool quits it is the item's own end.\<close>

fun honest :: "bool \<Rightarrow> pc \<Rightarrow> bool" where
  "honest quit (Top (Some (w, e))) \<longleftrightarrow> e = work_result w \<or> quit \<and> e \<in> {Some shutDown, Some (Interrupted ''interrupted by the user'')}"
| "honest quit _ = True"

definition all_threads :: "(nat \<Rightarrow> pc \<Rightarrow> bool) \<Rightarrow> pool \<Rightarrow> bool" where
  "all_threads P s \<longleftrightarrow> (\<forall>t < length (p_threads s). P t (p_threads s ! t))"

text \<open>Where a thread may stand, given the flags.\<close>

definition thread_ok :: "bool \<Rightarrow> bool \<Rightarrow> nat \<Rightarrow> pc \<Rightarrow> bool" where
  "thread_ok quit draining t c \<longleftrightarrow> (t \<noteq> 0 \<longrightarrow> in_loop c) \<and> honest quit c \<and> (quit \<longrightarrow> c \<noteq> Asleep) \<and> (\<not> quit \<longrightarrow> c \<noteq> Exited) \<and>
     (t = 0 \<longrightarrow> (in_loop c \<longrightarrow> draining) \<and> (\<not> quit \<longrightarrow> in_loop c \<or> (\<exists>ws. c = Caller ws)))"

definition outcome_ok :: "exn option \<Rightarrow> work list \<Rightarrow> bool" where
  "outcome_ok e ws \<longleftrightarrow> (case e of None \<Rightarrow> \<forall>w \<in> set ws. work_result w = None | Some x \<Rightarrow> \<exists>w \<in> set ws. work_result w = Some x)"

definition pool_ok :: "pool \<Rightarrow> bool" where
  "pool_ok s \<longleftrightarrow> p_threads s \<noteq> [] \<and>
     mset (p_accepted s) = mset (p_pending s) + held s + mset (p_finished s) \<and>
     p_active s = size (held s) \<and>
     all_threads (thread_ok (p_quit s) (p_draining s)) s \<and>
     (\<not> p_quit s \<longrightarrow> (\<exists>t < length (p_threads s). awake (p_threads s ! t))) \<and>
     (p_exception s \<noteq> None \<longrightarrow> p_quit s) \<and>
     (p_quit s \<and> p_exception s = None \<longrightarrow> p_pending s = [] \<and> p_active s = 0) \<and>
     outcome_ok (p_exception s) (p_finished s)"

named_theorems pool "what the operations do to the parts of a pool"

lemma at_sel [pool]:
  "p_pending (at t c s) = p_pending s" "p_active (at t c s) = p_active s" "p_exception (at t c s) = p_exception s"
  "p_draining (at t c s) = p_draining s" "p_quit (at t c s) = p_quit s" "p_maxThreads (at t c s) = p_maxThreads s"
  "p_accepted (at t c s) = p_accepted s" "p_finished (at t c s) = p_finished s"
  "p_threads (at t c s) = (p_threads s)[t := c]"
  by (simp_all add: at_def)

lemma notify_all_sel [pool]:
  "p_pending (notify_all s) = p_pending s" "p_active (notify_all s) = p_active s" "p_exception (notify_all s) = p_exception s"
  "p_draining (notify_all s) = p_draining s" "p_quit (notify_all s) = p_quit s" "p_maxThreads (notify_all s) = p_maxThreads s"
  "p_accepted (notify_all s) = p_accepted s" "p_finished (notify_all s) = p_finished s"
  "length (p_threads (notify_all s)) = length (p_threads s)" "p_threads (notify_all s) = [] \<longleftrightarrow> p_threads s = []"
  "t < length (p_threads s) \<Longrightarrow> p_threads (notify_all s) ! t = (if p_threads s ! t = Asleep then Woken else p_threads s ! t)"
  by (simp_all add: notify_all_def)

lemma sum_list_update: "t < length xs \<Longrightarrow> sum_list (map f (xs[t := c])) + f (xs ! t) = sum_list (map f xs) + (f c :: 'a multiset)"
  by (induction xs arbitrary: t) (auto split: nat.split simp: ac_simps)

lemma sum_list_empty: "\<forall>m \<in> set ms. m = {#} \<Longrightarrow> sum_list ms = {#}"
  by (induction ms) auto

lemma held_at: "t < length (p_threads s) \<Longrightarrow> held (at t c s) + item_of (p_threads s ! t) = held s + item_of c"
  by (simp add: held_def pool sum_list_update)

lemma held_same: "t < length (p_threads s) \<Longrightarrow> item_of c = item_of (p_threads s ! t) \<Longrightarrow> held (at t c s) = held s"
  using held_at [of t s c] by simp

lemma held_notify_all [pool]: "held (notify_all s) = held s"
proof -
  have "sum_list (map item_of (map (\<lambda>c. if c = Asleep then Woken else c) cs)) = sum_list (map item_of cs)" for cs
    by (induction cs) auto
  then show ?thesis by (simp add: held_def notify_all_def)
qed

lemma held_fields [pool]:
  "held (s\<lparr>p_quit := x\<rparr>) = held s" "held (s\<lparr>p_draining := x\<rparr>) = held s"
  "held (s\<lparr>p_exception := y, p_quit := x\<rparr>) = held s" "held (s\<lparr>p_pending := ws\<rparr>) = held s"
  "held (s\<lparr>p_pending := ws, p_active := n\<rparr>) = held s" "held (s\<lparr>p_active := n, p_finished := ws\<rparr>) = held s"
  "held (s\<lparr>p_pending := ws, p_accepted := ws'\<rparr>) = held s"
  by (simp_all add: held_def)

lemma awake_at: "awake c \<Longrightarrow> t < length (p_threads s) \<Longrightarrow> \<exists>u < length (p_threads (at t c s)). awake (p_threads (at t c s) ! u)"
  by (intro exI [of _ t]) (simp add: pool)

text \<open>A thread goes to another point, without any other change.\<close>

lemma pool_ok_at:
  assumes ok: "pool_ok s" and t: "t < length (p_threads s)"
    and c: "item_of c = item_of (p_threads s ! t)" "thread_ok (p_quit s) (p_draining s) t c" "p_quit s \<or> awake c"
  shows "pool_ok (at t c s)"
  using ok t c awake_at [of c t s] held_same [OF t c(1)]
  by (auto simp: pool_ok_def pool all_threads_def nth_list_update)

lemma pool_ok_thread: "pool_ok s \<Longrightarrow> t < length (p_threads s) \<Longrightarrow> thread_ok (p_quit s) (p_draining s) t (p_threads s ! t)"
  by (simp add: pool_ok_def all_threads_def)

lemma pool_ok_wake: "pool_ok s \<Longrightarrow> t < length (p_threads s) \<Longrightarrow> p_threads s ! t = Asleep \<Longrightarrow> pool_ok (at t Woken s)"
  using pool_ok_thread [of s t] by (intro pool_ok_at) (simp_all add: thread_ok_def)

lemma pool_ok_notify: "pool_ok s \<Longrightarrow> notify_one s s' \<Longrightarrow> pool_ok s'"
  by (auto elim!: notify_oneE intro: pool_ok_wake)

lemma pool_ok_spurious: "pool_ok s \<Longrightarrow> spurious s s' \<Longrightarrow> pool_ok s'"
  by (auto elim!: spurious.cases intro: pool_ok_wake)

lemma pool_ok_enqueue:
  assumes "pool_ok s" "\<not> p_quit s"
  shows "pool_ok (enqueue w s)"
proof -
  have "\<exists>t < length (p_threads s) + n. awake ((p_threads s @ xs) ! t)" for n xs
  proof -
    obtain t where "t < length (p_threads s)" "awake (p_threads s ! t)" using assms by (auto simp: pool_ok_def)
    then show ?thesis by (intro exI [of _ t]) (simp add: nth_append)
  qed
  moreover have "held (s\<lparr>p_threads := p_threads s @ [Top None]\<rparr>) = held s" by (simp add: held_def)
  moreover have "held (s\<lparr>p_pending := ws, p_accepted := ws', p_threads := p_threads s @ [Top None]\<rparr>) = held s" for ws ws'
    by (simp add: held_def)
  ultimately show ?thesis
    using assms
    by (auto simp: enqueue_def Let_def pool_ok_def pool all_threads_def nth_append less_Suc_eq thread_ok_def split: option.splits)
qed

lemma decide_overwrite: "decide t (at t c s) = decide t s"
  by (simp add: decide_def at_def notify_all_def map_update split: list.split)

lemma honest_quit: "honest q c \<Longrightarrow> honest True c"
  by (induction q c rule: honest.induct) auto

lemma item_of_notify: "t < length (p_threads s) \<Longrightarrow> item_of (p_threads (notify_all s) ! t) = item_of (p_threads s ! t)"
  by (simp add: pool)

lemma held_at_notify: "t < length (p_threads s) \<Longrightarrow> held (at t c (notify_all s)) = held (at t c s)"
proof -
  assume t: "t < length (p_threads s)"
  then have "held (at t c (notify_all s)) + item_of (p_threads s ! t) = held s + item_of c"
    using held_at [of t "notify_all s" c] item_of_notify [OF t] by (simp add: held_notify_all notify_all_sel(9,10))
  with held_at [OF t, of c] show ?thesis by (metis add_right_cancel)
qed

lemma thread_ok_quit:
  "thread_ok q d t c \<Longrightarrow> c \<noteq> Asleep \<Longrightarrow> thread_ok True d t c" "thread_ok q d t Asleep \<Longrightarrow> thread_ok True d t Woken"
  using honest_quit [of q c] by (auto simp: thread_ok_def)

lemma all_threads_notify:
  assumes "all_threads (thread_ok q d) s" "thread_ok True d t c" "p_threads u = p_threads s"
  shows "all_threads (thread_ok True d) (at t c (notify_all u))"
proof -
  have "thread_ok True d v ((p_threads (notify_all u))[t := c] ! v)" if v: "v < length (p_threads s)" for v
  proof (cases "v = t")
    case True
    with assms(2,3) v show ?thesis by (simp add: pool)
  next
    case False
    have "thread_ok q d v (p_threads s ! v)" using assms(1) v by (simp add: all_threads_def)
    then show ?thesis
      using thread_ok_quit [of q d v] False v assms(3) by (cases "p_threads s ! v = Asleep") (simp_all add: pool)
  qed
  then show ?thesis using assms(3) by (simp add: all_threads_def pool)
qed

text \<open>The end of an item.\<close>

lemma pool_ok_account:
  assumes ok: "pool_ok s" and t: "t < length (p_threads s)" and d: "p_threads s ! t = Top d"
  shows "pool_ok (at t (Top None) (account d s))"
proof (cases d)
  case None
  then have "at t (Top None) s = s" using d by (simp add: at_def list_update_id [of "p_threads s" t, unfolded d None])
  with ok None show ?thesis by (simp add: account_def)
next
  case (Some x)
  obtain w e where x: "x = (w, e)" by fastforce
  have item: "item_of (p_threads s ! t) = {#w#}" by (simp add: d Some x)
  let ?s = "s\<lparr>p_active := p_active s - 1, p_finished := p_finished s @ [w]\<rparr>"
  have h: "held s = add_mset w (held (at t (Top None) s))" using held_at [OF t, of "Top None"] item by simp
  have held: "held (at t (Top None) (?s\<lparr>p_exception := y, p_quit := q\<rparr>)) = held (at t (Top None) s)"
    "held (at t (Top None) (notify_all (?s\<lparr>p_exception := y, p_quit := q\<rparr>))) = held (at t (Top None) s)"
    "held (at t (Top None) ?s) = held (at t (Top None) s)" for y q
    using t by (simp_all add: held_at_notify) (simp_all add: held_def at_def)
  have act: "p_active s = Suc (size (held (at t (Top None) s)))" using ok h by (simp add: pool_ok_def)
  have tok: "thread_ok (p_quit s) (p_draining s) t (Top d)" using pool_ok_thread [OF ok t] d by simp
  then have tn: "thread_ok q (p_draining s) t (Top None)" for q by (auto simp: thread_ok_def)
  have e: "e = work_result w \<or> p_quit s \<and> e \<noteq> None" using tok by (auto simp: thread_ok_def Some x)
  have thr: "all_threads (thread_ok (p_quit s) (p_draining s)) (at t (Top None) s)"
    using ok tn t by (auto simp: pool_ok_def all_threads_def pool nth_list_update)
  have acc: "mset (p_accepted s) = mset (p_pending s) + held (at t (Top None) s) + mset (p_finished s @ [w])"
    using ok h by (simp add: pool_ok_def)
  have aw: "\<exists>u < length (p_threads s). awake ((p_threads s)[t := Top None] ! u)"
    using t by (intro exI [of _ t]) simp
  have ne: "p_threads s \<noteq> []" using t by auto
  show ?thesis
  proof (cases "e \<noteq> None \<and> p_exception s = None")
    case True
    then obtain y where y: "e = Some y" by auto
    have nq: "\<not> p_quit s" using ok act True by (auto simp: pool_ok_def)
    have thr': "all_threads (thread_ok True (p_draining s)) (at t (Top None) (notify_all u))"
      if "p_threads u = p_threads s" for u
      using that ok tn [of True] by (intro all_threads_notify) (auto simp: pool_ok_def)
    have "account d s = notify_all (?s\<lparr>p_exception := Some y, p_quit := True\<rparr>)"
      using True y by (simp add: account_def Some x Let_def)
    moreover have "outcome_ok (Some y) (p_finished s @ [w])" using e y nq by (cases "work_result w") (simp_all add: outcome_ok_def)
    ultimately show ?thesis
      using acc act held(2) [of True "Some y"] ne thr' by (simp add: pool_ok_def pool)
  next
    case False
    then have s: "account d s = ?s" by (auto simp: account_def Some x Let_def split: option.split)
    have "outcome_ok (p_exception s) (p_finished s @ [w])"
      using ok e False by (auto simp: pool_ok_def outcome_ok_def split: option.splits)
    moreover have "p_exception s \<noteq> None \<longrightarrow> p_quit s" "p_quit s \<and> p_exception s = None \<longrightarrow> False"
      using ok act by (auto simp: pool_ok_def)
    moreover have "all_threads (thread_ok (p_quit s) (p_draining s)) (at t (Top None) ?s)"
      using thr by (simp add: all_threads_def pool)
    ultimately show ?thesis
      using acc act held(3) ne aw by (auto simp: s pool_ok_def pool)
  qed
qed

text \<open>What a thread does next: the last one awake only sleeps if the owner will still come.\<close>

lemma pool_ok_decide:
  assumes ok: "pool_ok s" and t: "t < length (p_threads s)" and c: "item_of (p_threads s ! t) = {#}" "in_loop (p_threads s ! t)"
  shows "pool_ok (decide t s)"
proof -
  have tok: "thread_ok (p_quit s) (p_draining s) t (p_threads s ! t)" by (rule pool_ok_thread [OF ok t])
  consider "p_quit s" | w ws where "\<not> p_quit s" "p_pending s = w # ws"
    | "\<not> p_quit s" "p_pending s = []" "p_active s = 0" "p_draining s"
    | "\<not> p_quit s" "p_pending s = []" "\<not> (p_active s = 0 \<and> p_draining s)"
    by (cases "p_pending s") auto
  then show ?thesis
  proof cases
    case 1
    with tok c have "pool_ok (at t Exited s)" by (intro pool_ok_at [OF ok t]) (auto simp: thread_ok_def)
    with 1 show ?thesis by (simp add: decide_def)
  next
    case (2 w ws)
    let ?s = "s\<lparr>p_pending := ws, p_active := p_active s + 1\<rparr>"
    have "held (at t (Running w (spawns w)) ?s) = add_mset w (held s)"
      using held_at [of t ?s "Running w (spawns w)"] t c(1) by (simp add: pool)
    moreover have "all_threads (thread_ok False (p_draining s)) (at t (Running w (spawns w)) ?s)"
      using ok tok c(2) 2(1) t by (auto simp: pool_ok_def all_threads_def pool nth_list_update thread_ok_def)
    moreover have "decide t s = at t (Running w (spawns w)) ?s" using 2 by (simp add: decide_def)
    ultimately show ?thesis
      using ok 2 t awake_at [of "Running w (spawns w)" t ?s] by (auto simp: pool_ok_def pool)
  next
    case 3
    let ?s = "notify_all (s\<lparr>p_quit := True\<rparr>)"
    have "held (at t Exited ?s) = held s"
      using held_at [of t s Exited] t c(1) by (simp add: held_at_notify) (simp add: held_def at_def)
    moreover have "all_threads (thread_ok True (p_draining s)) (at t Exited ?s)"
      using ok tok c(2) by (intro all_threads_notify) (auto simp: pool_ok_def thread_ok_def)
    moreover have "decide t s = at t Exited ?s" using 3 by (simp add: decide_def)
    ultimately show ?thesis using ok 3 t by (auto simp: pool_ok_def pool)
  next
    case 4
    have "\<exists>u < length (p_threads s). awake ((p_threads s)[t := Asleep] ! u)"
    proof (rule ccontr)
      assume "\<not> ?thesis"
      then have other: "\<not> awake (p_threads s ! u)" if "u < length (p_threads s)" "u \<noteq> t" for u
        using that by (metis nth_list_update_neq)
      have asleep: "p_threads s ! u = Asleep" if "u < length (p_threads s)" "u \<noteq> t" for u
        using other [OF that] pool_ok_thread [OF ok that(1)] 4(1) by (cases "p_threads s ! u") (auto simp: thread_ok_def)
      have "item_of x = {#}" if "x \<in> set (p_threads s)" for x
        using that c(1) asleep by (metis in_set_conv_nth item_of.simps(5))
      then have "held s = {#}" unfolding held_def by (intro sum_list_empty) auto
      then have "p_active s = 0" using ok by (simp add: pool_ok_def)
      moreover have "p_draining s"
      proof (cases "t = 0")
        case True
        with tok c(2) show ?thesis by (simp add: thread_ok_def)
      next
        case False
        then have "p_threads s ! 0 = Asleep" using asleep [of 0] t by linarith
        moreover have "0 < length (p_threads s)" using t by linarith
        ultimately show ?thesis using pool_ok_thread [OF ok, of 0] by (simp add: thread_ok_def)
      qed
      ultimately show False using 4(3) by simp
    qed
    moreover have "held (at t Asleep s) = held s" using held_same [OF t] c(1) by simp
    moreover have "all_threads (thread_ok False (p_draining s)) (at t Asleep s)"
      using ok tok c(2) 4(1) t by (auto simp: pool_ok_def all_threads_def pool nth_list_update thread_ok_def)
    moreover have "decide t s = at t Asleep s" using 4 by (auto simp: decide_def)
    ultimately show ?thesis using ok 4 t by (auto simp: pool_ok_def pool)
  qed
qed

lemma shutdown_quit: "pool_ok s \<Longrightarrow> p_quit s \<Longrightarrow> shutdown s = s"
proof -
  assume ok: "pool_ok s" and q: "p_quit s"
  then have "Asleep \<notin> set (p_threads s)" by (auto simp: pool_ok_def all_threads_def thread_ok_def in_set_conv_nth)
  then have "map (\<lambda>c. if c = Asleep then Woken else c) (p_threads s) = p_threads s" by (intro map_idI) auto
  with q show "shutdown s = s" by (simp add: shutdown_def notify_all_def)
qed

lemma pool_ok_step: "pool_ok s \<Longrightarrow> pool_step s s' \<Longrightarrow> pool_ok s'"
proof -
  assume ok: "pool_ok s" and step: "pool_step s s'"
  have ne: "0 < length (p_threads s)" using ok by (simp add: pool_ok_def)
  note tok = pool_ok_thread [OF ok]
  from step show ?thesis
  proof cases
    case (caller_enqueue w ws)
    have "pool_ok (at 0 (Caller ws) s)"
      using tok [OF ne] caller_enqueue(1) by (intro pool_ok_at [OF ok ne]) (auto simp: thread_ok_def)
    then have "pool_ok (enqueue w (at 0 (Caller ws) s))" using caller_enqueue(2) by (intro pool_ok_enqueue) (simp_all add: pool)
    with caller_enqueue(3) show ?thesis by (rule pool_ok_notify [rotated])
  next
    case (caller_refused w ws)
    have "pool_ok (at 0 (Joining (Some shutDown)) s)"
      using tok [OF ne] caller_refused by (intro pool_ok_at [OF ok ne]) (auto simp: thread_ok_def)
    with caller_refused show ?thesis by (simp add: shutdown_quit pool)
  next
    case caller_process
    have "pool_ok (s\<lparr>p_draining := True\<rparr>)"
      using ok by (auto simp: pool_ok_def all_threads_def thread_ok_def held_fields)
    then show ?thesis
      unfolding caller_process(1) using ne caller_process(2) by (intro pool_ok_at) (auto simp: thread_ok_def)
  next
    case (top t d)
    have "pool_ok (at t (Top None) (account d s))" by (rule pool_ok_account [OF ok top(2,3)])
    moreover have "length (p_threads (account d s)) = length (p_threads s)"
      by (auto simp: account_def Let_def pool split: option.split)
    ultimately have "pool_ok (decide t (at t (Top None) (account d s)))"
      using top(2) by (intro pool_ok_decide) (simp_all add: pool)
    with top(1) show ?thesis by (simp add: decide_overwrite)
  next
    case (woken t)
    then show ?thesis using ok by (simp add: pool_ok_decide)
  next
    case (item_enqueue t w c cs)
    have "pool_ok (at t (Running w cs) s)"
      using tok [OF item_enqueue(1)] item_enqueue(2) by (intro pool_ok_at [OF ok item_enqueue(1)]) (auto simp: thread_ok_def)
    then have "pool_ok (enqueue c (at t (Running w cs) s))" using item_enqueue(3) by (intro pool_ok_enqueue) (simp_all add: pool)
    with item_enqueue(4) show ?thesis by (rule pool_ok_notify [rotated])
  next
    case (item_refused t w c cs)
    then show ?thesis
      using tok [of t] by (simp only: item_refused(1), intro pool_ok_at [OF ok]) (auto simp: thread_ok_def)
  next
    case (item_interrupted t w cs)
    then show ?thesis
      using tok [of t] by (simp only: item_interrupted(1), intro pool_ok_at [OF ok]) (auto simp: thread_ok_def)
  next
    case (item_end t w)
    then show ?thesis
      using tok [of t] by (simp only: item_end(1), intro pool_ok_at [OF ok]) (auto simp: thread_ok_def)
  next
    case returned
    have q: "p_quit s" using tok [OF ne] returned(2) by (auto simp: thread_ok_def)
    have "pool_ok (at 0 (Joining x) s)" "pool_ok (at 0 (Done x) s)" for x
      using tok [OF ne] returned(2) q by (intro pool_ok_at [OF ok ne]; auto simp: thread_ok_def)+
    with q show ?thesis
      by (auto simp: returned(1) process_end_def shutdown_quit pool split: option.split)
  next
    case (joined r)
    have q: "p_quit s" using tok [OF ne] joined(2) by (auto simp: thread_ok_def)
    show ?thesis
      unfolding joined(1) using tok [OF ne] joined(2) q by (intro pool_ok_at [OF ok ne]) (auto simp: thread_ok_def)
  qed
qed

lemma pool_ok_new: "pool_ok (ThreadPool_new n hw ws)"
  by (auto simp: pool_ok_def ThreadPool_new_def all_threads_def thread_ok_def held_def outcome_ok_def)

lemma pool_ok_reaches: "pool_reaches s0 s \<Longrightarrow> pool_ok s0 \<Longrightarrow> pool_ok s"
  by (induction rule: pool_reaches.induct) (auto intro: pool_ok_step pool_ok_spurious)

subsection \<open>Progress\<close>

lemma notify_one_total: "\<exists>s'. notify_one s s'"
proof (cases "Asleep \<in> set (p_threads s)")
  case True
  then obtain t where "t < length (p_threads s)" "p_threads s ! t = Asleep" by (auto simp: in_set_conv_nth)
  then show ?thesis by (auto intro: one)
qed (auto intro: nobody)

text \<open>A thread that is awake can go on, but for the owner who waits for the workers or is done.\<close>

lemma awake_step:
  assumes "t < length (p_threads s)" "awake (p_threads s ! t)" "in_loop (p_threads s ! t) \<or> t = 0 \<and> (\<exists>ws. p_threads s ! t = Caller ws)"
  shows "\<exists>s'. pool_step s s'"
proof (cases "p_threads s ! t")
  case (Caller ws)
  then have c: "p_threads s ! 0 = Caller ws" using assms(3) by auto
  show ?thesis
  proof (cases ws)
    case Nil
    with c show ?thesis by (auto intro: caller_process)
  next
    case (Cons w ws')
    with c show ?thesis
      using notify_one_total [of "enqueue w (at 0 (Caller ws') s)"]
      by (cases "p_quit s") (auto intro: caller_enqueue caller_refused)
  qed
next
  case (Running w cs)
  show ?thesis
  proof (cases cs)
    case Nil
    with Running assms(1) show ?thesis by (auto intro: item_end)
  next
    case (Cons c cs')
    with Running assms(1) show ?thesis
      using notify_one_total [of "enqueue c (at t (Running w cs') s)"]
      by (cases "p_quit s") (auto intro: item_enqueue item_refused)
  qed
qed (use assms in \<open>auto intro: top woken\<close>)

lemma pool_progress:
  assumes ok: "pool_ok s" and d: "\<nexists>r. p_threads s ! 0 = Done r"
  shows "\<exists>s'. pool_step s s'"
proof -
  have ne: "0 < length (p_threads s)" using ok by (simp add: pool_ok_def)
  note tok = pool_ok_thread [OF ok]
  show ?thesis
  proof (cases "p_quit s")
    case False
    then obtain t where t: "t < length (p_threads s)" "awake (p_threads s ! t)" using ok by (auto simp: pool_ok_def)
    with tok [OF t(1)] False show ?thesis by (intro awake_step [OF t]) (auto simp: thread_ok_def)
  next
    case True
    show ?thesis
    proof (cases "\<exists>t \<in> {1..<length (p_threads s)}. p_threads s ! t \<noteq> Exited")
      case True
      then obtain t where "t \<in> {1..<length (p_threads s)}" "p_threads s ! t \<noteq> Exited" by blast
      then have t: "0 < t" "t < length (p_threads s)" "p_threads s ! t \<noteq> Exited" by simp_all
      then have "in_loop (p_threads s ! t)" "p_threads s ! t \<noteq> Asleep" using tok [OF t(2)] \<open>p_quit s\<close> by (auto simp: thread_ok_def)
      moreover from this t(3) have "awake (p_threads s ! t)" by (cases "p_threads s ! t") auto
      ultimately show ?thesis using t(2) by (intro awake_step [of t]) auto
    next
      case False
      have "p_threads s ! 0 \<noteq> Asleep" using tok [OF ne] \<open>p_quit s\<close> by (simp add: thread_ok_def)
      then show ?thesis
        using False d awake_step [OF ne] joined [of s] returned [of s] by (cases "p_threads s ! 0") auto
    qed
  qed
qed

text \<open>
  What is left to do: an item and the items it enqueues, each with the wake-ups it can cause, and
  what each thread has to do besides.
\<close>

fun cost :: "work \<Rightarrow> nat" where
  "cost (Work ws r) = 4 + sum_list (map (\<lambda>w. cost w + 7) ws)"

definition costs :: "work list \<Rightarrow> nat" where
  "costs ws = sum_list (map (\<lambda>w. cost w + 7) ws)"

fun pc_cost :: "pc \<Rightarrow> nat" where
  "pc_cost (Caller ws) = 4 + costs ws"
| "pc_cost (Running _ cs) = 4 + costs cs"
| "pc_cost (Top _) = 3"
| "pc_cost Woken = 3"
| "pc_cost Exited = 2"
| "pc_cost (Joining _) = 1"
| "pc_cost Asleep = 0"
| "pc_cost (Done _) = 0"

definition todo :: "pool \<Rightarrow> nat" where
  "todo s = sum_list (map cost (p_pending s)) + sum_list (map pc_cost (p_threads s))"

lemma cost_spawns: "cost w = 4 + costs (spawns w)"
  by (cases w) (simp add: costs_def)

lemma sum_list_update_nat: "t < length xs \<Longrightarrow> sum_list (map f (xs[t := c])) + f (xs ! t) = sum_list (map f xs) + (f c :: nat)"
  by (induction xs arbitrary: t) (auto split: nat.split)

lemma todo_at: "t < length (p_threads s) \<Longrightarrow> todo (at t c s) + pc_cost (p_threads s ! t) = todo s + pc_cost c"
  using sum_list_update_nat [of t "p_threads s" pc_cost c] by (simp add: todo_def pool)

lemma todo_notify_one: "notify_one s s' \<Longrightarrow> todo s' \<le> todo s + 3 \<and> p_quit s' = p_quit s"
  by (auto elim!: notify_oneE simp: pool dest: todo_at [of _ _ Woken])

lemma todo_enqueue: "todo (enqueue w s) \<le> todo s + cost w + 3" "p_quit (enqueue w s) = p_quit s"
  by (auto simp: enqueue_def Let_def todo_def)

definition pool_rank :: "pool \<Rightarrow> nat \<times> nat" where
  "pool_rank s = (if p_quit s then 0 else 1, todo s)"

lemma rank_less: "p_quit s' = p_quit s \<and> todo s' < todo s \<or> p_quit s' \<and> \<not> p_quit s \<Longrightarrow>
  (pool_rank s', pool_rank s) \<in> less_than <*lex*> less_than"
  by (auto simp: pool_rank_def)

lemma rank_decide:
  assumes "t < length (p_threads s)" "pc_cost (p_threads s ! t) = 3"
  shows "p_quit (decide t s) = p_quit s \<and> todo (decide t s) < todo s \<or> p_quit (decide t s) \<and> \<not> p_quit s"
proof (cases "p_pending s")
  case (Cons w ws)
  let ?s = "s\<lparr>p_pending := ws, p_active := p_active s + 1\<rparr>"
  have "todo (at t (Running w (spawns w)) ?s) + 3 = todo ?s + cost w"
    using todo_at [of t ?s "Running w (spawns w)"] assms by (simp add: cost_spawns)
  moreover have "todo ?s + cost w = todo s" using Cons by (simp add: todo_def)
  ultimately show ?thesis
    using Cons todo_at [OF assms(1), of Exited] assms(2) by (auto simp: decide_def pool)
next
  case Nil
  then show ?thesis
    using todo_at [OF assms(1), of Exited] todo_at [OF assms(1), of Asleep] assms(2) by (auto simp: decide_def pool)
qed

lemma pool_rank_step:
  assumes ok: "pool_ok s" and step: "pool_step s s'"
  shows "(pool_rank s', pool_rank s) \<in> less_than <*lex*> less_than"
proof (rule rank_less)
  have ne: "0 < length (p_threads s)" using ok by (simp add: pool_ok_def)
  note tok = pool_ok_thread [OF ok]
  from step show "p_quit s' = p_quit s \<and> todo s' < todo s \<or> p_quit s' \<and> \<not> p_quit s"
  proof cases
    case (caller_enqueue w ws)
    then show ?thesis
      using todo_at [OF ne, of "Caller ws"] todo_enqueue [of w "at 0 (Caller ws) s"] todo_notify_one [OF caller_enqueue(3)]
      by (simp add: costs_def pool)
  next
    case (caller_refused w ws)
    have "pool_ok (at 0 (Joining (Some shutDown)) s)"
      using tok [OF ne] caller_refused by (intro pool_ok_at [OF ok ne]) (auto simp: thread_ok_def)
    then have "s' = at 0 (Joining (Some shutDown)) s" using caller_refused by (simp add: shutdown_quit pool)
    then show ?thesis using todo_at [OF ne, of "Joining (Some shutDown)"] caller_refused(2) by (simp add: costs_def pool)
  next
    case caller_process
    have "todo (s\<lparr>p_draining := True\<rparr>) = todo s" by (simp add: todo_def)
    with caller_process todo_at [of 0 "s\<lparr>p_draining := True\<rparr>" "Top None"] ne show ?thesis by (simp add: costs_def pool)
  next
    case (top t d)
    have len: "length (p_threads (account d s)) = length (p_threads s)"
      by (auto simp: account_def Let_def pool split: option.split)
    have pc: "pc_cost (p_threads (account d s) ! t) = 3"
      using top(2,3) by (auto simp: account_def Let_def pool split: option.split)
    have acc: "p_quit (account d s) = p_quit s \<and> todo (account d s) = todo s \<or> p_quit (account d s) \<and> \<not> p_quit s \<or>
        p_quit s \<and> p_quit (account d s) \<and> todo (account d s) = todo s"
    proof (cases "p_quit s")
      case True
      then have "Asleep \<notin> set (p_threads s)" using ok by (auto simp: pool_ok_def all_threads_def thread_ok_def in_set_conv_nth)
      then have "map (\<lambda>c. if c = Asleep then Woken else c) (p_threads s) = p_threads s" by (intro map_idI) auto
      with True show ?thesis by (auto simp: account_def Let_def todo_def notify_all_def split: option.split)
    next
      case False
      then show ?thesis by (auto simp: account_def Let_def todo_def notify_all_def split: option.split)
    qed
    have "p_quit (account d s) \<longrightarrow> p_quit (decide t (account d s))" by (simp add: decide_def pool)
    with acc rank_decide [of t "account d s"] len pc top(1,2) show ?thesis by auto
  next
    case (woken t)
    then show ?thesis using rank_decide [of t s] by simp
  next
    case (item_enqueue t w c cs)
    then show ?thesis
      using todo_at [OF item_enqueue(1), of "Running w cs"] todo_enqueue [of c "at t (Running w cs) s"]
        todo_notify_one [OF item_enqueue(4)]
      by (simp add: costs_def pool)
  next
    case (item_refused t w c cs)
    then show ?thesis using todo_at [of t s "Top (Some (w, Some shutDown))"] by (simp add: costs_def pool)
  next
    case (item_interrupted t w cs)
    then show ?thesis using todo_at [of t s "Top (Some (w, Some (Interrupted ''interrupted by the user'')))"] by (simp add: pool)
  next
    case (item_end t w)
    then show ?thesis using todo_at [of t s "Top (Some (w, work_result w))"] by (simp add: costs_def pool)
  next
    case returned
    have q: "p_quit s" using tok [OF ne] returned(2) by (auto simp: thread_ok_def)
    have "pool_ok (at 0 (Joining x) s)" for x
      using tok [OF ne] returned(2) q by (intro pool_ok_at [OF ok ne]; auto simp: thread_ok_def)
    then have "shutdown (at 0 (Joining x) s) = at 0 (Joining x) s" for x using q by (simp add: shutdown_quit pool)
    moreover have "todo (at 0 (Joining x) s) < todo s" for x
      using todo_at [OF ne, of "Joining x"] returned(2) by simp
    ultimately show ?thesis
      using todo_at [OF ne, of "Done None"] returned by (auto simp: process_end_def pool split: option.split)
  next
    case (joined r)
    then show ?thesis using todo_at [OF ne, of "Done r"] by (simp add: pool)
  qed
qed

subsection \<open>What gets done\<close>

text \<open>An item with everything that it leads to, and what a thread still has to see to.\<close>

fun all_items :: "work \<Rightarrow> work multiset" where
  "all_items (Work ws r) = add_mset (Work ws r) (sum_list (map all_items ws))"

definition all_works :: "work list \<Rightarrow> work multiset" where
  "all_works ws = sum_list (map all_items ws)"

lemma all_items_spawns: "all_items w = add_mset w (all_works (spawns w))"
  by (cases w) (simp add: all_works_def)

lemma all_works_simps [simp]: "all_works [] = {#}" "all_works (w # ws) = all_items w + all_works ws"
  "all_works (ws @ ws') = all_works ws + all_works ws'"
  by (simp_all add: all_works_def)

fun remaining :: "pc \<Rightarrow> work multiset" where
  "remaining (Caller ws) = all_works ws"
| "remaining (Running w cs) = add_mset w (all_works cs)"
| "remaining (Top (Some (w, _))) = {#w#}"
| "remaining _ = {#}"

definition ahead :: "pool \<Rightarrow> work multiset" where
  "ahead s = all_works (p_pending s) + sum_list (map remaining (p_threads s)) + mset (p_finished s)"

text \<open>What the owner of the pool knows.\<close>

fun owner_ok :: "bool \<Rightarrow> bool \<Rightarrow> exn option \<Rightarrow> pc \<Rightarrow> bool" where
  "owner_ok quit draining exc (Caller _) \<longleftrightarrow> \<not> draining \<and> (exc = None \<longrightarrow> \<not> quit)"
| "owner_ok quit draining exc (Joining r) \<longleftrightarrow> exc \<noteq> None \<and> (r = exc \<or> r = Some shutDown)"
| "owner_ok quit draining exc (Done r) \<longleftrightarrow> (r = exc \<or> exc \<noteq> None \<and> r = Some shutDown)"
| "owner_ok quit draining exc _ \<longleftrightarrow> True"

definition run_ok :: "work list \<Rightarrow> pool \<Rightarrow> bool" where
  "run_ok ws s \<longleftrightarrow> pool_ok s \<and> owner_ok (p_quit s) (p_draining s) (p_exception s) (p_threads s ! 0) \<and>
     (p_exception s = None \<longrightarrow> ahead s = all_works ws)"

lemma ahead_at: "t < length (p_threads s) \<Longrightarrow> ahead (at t c s) + remaining (p_threads s ! t) = ahead s + remaining c"
  using sum_list_update [of t "p_threads s" remaining c] by (simp add: ahead_def pool ac_simps)

lemma ahead_at_same: "t < length (p_threads s) \<Longrightarrow> remaining c = remaining (p_threads s ! t) \<Longrightarrow> ahead (at t c s) = ahead s"
  using ahead_at [of t s c] by simp

lemma ahead_notify_all: "ahead (notify_all s) = ahead s"
proof -
  have "sum_list (map remaining (map (\<lambda>c. if c = Asleep then Woken else c) cs)) = sum_list (map remaining cs)" for cs
    by (induction cs) auto
  then show ?thesis by (simp add: ahead_def notify_all_def)
qed

lemma notify_one_keeps:
  "notify_one s s' \<Longrightarrow> ahead s' = ahead s \<and> p_exception s' = p_exception s \<and> p_quit s' = p_quit s \<and>
     p_draining s' = p_draining s \<and> length (p_threads s') = length (p_threads s) \<and>
     (p_threads s' ! 0 = p_threads s ! 0 \<or> p_threads s ! 0 = Asleep \<and> p_threads s' ! 0 = Woken)"
  by (auto elim!: notify_oneE simp: pool ahead_at_same nth_list_update split: if_splits)

lemma enqueue_keeps:
  "ahead (enqueue w s) = ahead s + all_items w" "p_exception (enqueue w s) = p_exception s" "p_quit (enqueue w s) = p_quit s"
  "p_draining (enqueue w s) = p_draining s" "p_threads s \<noteq> [] \<Longrightarrow> p_threads (enqueue w s) ! 0 = p_threads s ! 0"
  by (simp_all add: enqueue_def Let_def ahead_def nth_append)

lemma owner_ok_other:
  assumes "owner_ok q d e c" "c = c' \<or> c = Asleep \<and> c' = Woken"
  shows "owner_ok q d e c'"
  using assms by auto

text \<open>An item whose end is noted.\<close>

lemma run_ok_account:
  assumes ok: "run_ok ws s" and t: "t < length (p_threads s)" and d: "p_threads s ! t = Top d"
  shows "run_ok ws (at t (Top None) (account d s))"
proof -
  have p: "pool_ok s" using ok by (simp add: run_ok_def)
  have "owner_ok (p_quit (account d s)) (p_draining (account d s)) (p_exception (account d s)) (p_threads (at t (Top None) (account d s)) ! 0)"
  proof (cases "t = 0")
    case True
    with t show ?thesis by (simp add: account_def Let_def pool split: option.split)
  next
    case False
    have quiet: "p_exception s = None \<longrightarrow> d = None \<or> \<not> p_quit s"
    proof (intro impI disjCI)
      assume e: "p_exception s = None" and q: "\<not> \<not> p_quit s"
      show "d = None"
      proof (rule ccontr)
        assume "d \<noteq> None"
        then have "item_of (p_threads s ! t) \<noteq> {#}" using d by auto
        then have "held s \<noteq> {#}" using t held_at [OF t, of "Top None"] by auto
        with p e q show False by (auto simp: pool_ok_def)
      qed
    qed
    have "thread_ok (p_quit s) (p_draining s) 0 (p_threads s ! 0)" using pool_ok_thread [OF p, of 0] t by linarith
    then have owner: "\<not> p_quit s \<longrightarrow> in_loop (p_threads s ! 0) \<or> (\<exists>ws. p_threads s ! 0 = Caller ws)" by (simp add: thread_ok_def)
    have ne: "0 < length (p_threads s)" using t by linarith
    have n: "p_threads (notify_all u) ! 0 = (if p_threads s ! 0 = Asleep then Woken else p_threads s ! 0)"
      if "p_threads u = p_threads s" for u
      using that ne by (simp add: notify_all_sel(11))
    show ?thesis
      using ok quiet owner False ne
      by (cases "p_threads s ! 0") (auto simp: run_ok_def account_def Let_def n pool split: option.split)
  qed
  moreover have "p_exception (account d s) = None \<longrightarrow> ahead (at t (Top None) (account d s)) = all_works ws"
  proof (cases d)
    case None
    then have "at t (Top None) s = s" using d by (simp add: at_def list_update_id [of "p_threads s" t, unfolded d None])
    with ok None show ?thesis by (simp add: run_ok_def account_def)
  next
    case (Some x)
    obtain w e where x: "x = (w, e)" by fastforce
    let ?s = "s\<lparr>p_active := p_active s - 1, p_finished := p_finished s @ [w]\<rparr>"
    have "ahead (at t (Top None) ?s) + {#w#} = ahead ?s"
      using ahead_at [of t ?s "Top None"] t d Some x by simp
    moreover have "ahead ?s = add_mset w (ahead s)" by (simp add: ahead_def)
    ultimately have "ahead (at t (Top None) ?s) = ahead s" by simp
    moreover have "p_exception (account d s) = None \<Longrightarrow> account d s = ?s \<and> p_exception s = None"
      by (auto simp: account_def Some x Let_def pool split: option.splits if_splits)
    ultimately show ?thesis using ok by (auto simp: run_ok_def)
  qed
  ultimately show ?thesis
    using pool_ok_account [OF p t d] by (simp add: run_ok_def pool)
qed


lemma run_ok_fields:
  assumes "run_ok ws s" "pool_ok s'" "p_quit s' = p_quit s" "p_draining s' = p_draining s" "p_exception s' = p_exception s"
    "ahead s' = ahead s" "p_threads s' ! 0 = p_threads s ! 0 \<or> p_threads s ! 0 = Asleep \<and> p_threads s' ! 0 = Woken"
  shows "run_ok ws s'"
proof -
  have "owner_ok (p_quit s) (p_draining s) (p_exception s) (p_threads s' ! 0)"
    by (rule owner_ok_other [of _ _ _ "p_threads s ! 0"]) (use assms(1,7) in \<open>auto simp: run_ok_def\<close>)
  with assms(1-6) show ?thesis by (simp add: run_ok_def)
qed

lemma run_ok_spurious: "run_ok ws s \<Longrightarrow> spurious s s' \<Longrightarrow> run_ok ws s'"
proof -
  assume ok: "run_ok ws s" and sp: "spurious s s'"
  from sp obtain t where "t < length (p_threads s)" "p_threads s ! t = Asleep" "s' = at t Woken s" by cases
  then have "notify_one s s'" by (simp add: one)
  from notify_one_keeps [OF this] pool_ok_spurious [OF _ sp] ok show ?thesis
    by (intro run_ok_fields [OF ok]) (simp_all add: run_ok_def)
qed

lemma run_ok_at:
  assumes ok: "run_ok ws s" and t: "t < length (p_threads s)" and p: "pool_ok (at t c s)"
    and r: "p_exception s = None \<Longrightarrow> remaining c = remaining (p_threads s ! t)"
    and o: "t = 0 \<Longrightarrow> owner_ok (p_quit s) (p_draining s) (p_exception s) c"
  shows "run_ok ws (at t c s)"
  using ok p o ahead_at_same [OF t] r t by (cases "t = 0") (auto simp: run_ok_def pool)

lemma run_ok_decide:
  assumes ok: "run_ok ws s" and t: "t < length (p_threads s)"
    and c: "item_of (p_threads s ! t) = {#}" "remaining (p_threads s ! t) = {#}" "in_loop (p_threads s ! t)"
  shows "run_ok ws (decide t s)"
proof -
  have p: "pool_ok (decide t s)" using ok t c by (intro pool_ok_decide) (simp_all add: run_ok_def)
  have ne: "0 < length (p_threads s)" using t by linarith
  have simple: "run_ok ws (at t c' s)" if "decide t s = at t c' s" "c' = Exited \<or> c' = Asleep" for c'
    using that c p by (intro run_ok_at [OF ok t]) auto
  show ?thesis
  proof (cases "p_quit s")
    case True
    with simple [of Exited] show ?thesis by (simp add: decide_def)
  next
    case False
    have own: "owner_ok False (p_draining s) (p_exception s) (p_threads s ! 0)" using ok False by (simp add: run_ok_def)
    show ?thesis
    proof (cases "p_pending s")
      case (Cons w rest)
      let ?s = "s\<lparr>p_pending := rest, p_active := p_active s + 1\<rparr>"
      have "ahead (at t (Running w (spawns w)) ?s) = ahead ?s + all_items w"
        using ahead_at [of t ?s "Running w (spawns w)"] t c(2) by (simp add: all_items_spawns)
      moreover have "ahead ?s + all_items w = ahead s" by (simp add: ahead_def Cons ac_simps)
      moreover have "decide t s = at t (Running w (spawns w)) ?s" using False Cons by (simp add: decide_def)
      ultimately show ?thesis
        using ok p own False ne by (cases "t = 0") (simp_all add: run_ok_def pool)
    next
      case Nil
      show ?thesis
      proof (cases "p_active s = 0 \<and> p_draining s")
        case True
        let ?s = "notify_all (s\<lparr>p_quit := True\<rparr>)"
        have d: "decide t s = at t Exited ?s" using False Nil True by (simp add: decide_def)
        have "ahead ?s = ahead s" by (simp add: ahead_notify_all) (simp add: ahead_def)
        then have "ahead (at t Exited ?s) = ahead s" using ahead_at [of t ?s Exited] t c by (simp add: pool split: if_splits)
        moreover have "owner_ok True (p_draining s) (p_exception s) (p_threads ?s ! 0)"
          using own True ne by (cases "p_threads s ! 0") (auto simp: notify_all_sel(11))
        ultimately show ?thesis
          using ok p ne d by (cases "t = 0") (simp_all add: run_ok_def pool)
      next
        case False
        with simple [of Asleep] Nil \<open>\<not> p_quit s\<close> show ?thesis by (auto simp: decide_def)
      qed
    qed
  qed
qed

lemma run_ok_enqueue:
  assumes ok: "run_ok ws s" and t: "t < length (p_threads s)" and q: "\<not> p_quit s" and p: "pool_ok s'"
    and c: "p_exception s = None \<Longrightarrow> remaining (p_threads s ! t) = all_items w + remaining c"
    and o: "t = 0 \<Longrightarrow> owner_ok False (p_draining s) (p_exception s) c" and n: "notify_one (enqueue w (at t c s)) s'"
  shows "run_ok ws s'"
proof -
  let ?s = "enqueue w (at t c s)"
  have ne: "p_threads (at t c s) \<noteq> []" "0 < length (p_threads s)" using t by (auto simp: pool)
  have "ahead (at t c s) + all_items w = ahead s" if "p_exception s = None"
    using ahead_at [OF t, of c] c [OF that] by (simp add: ac_simps)
  then have a: "ahead s' = ahead s" if "p_exception s = None"
    using notify_one_keeps [OF n] that by (simp add: enqueue_keeps)
  have "owner_ok False (p_draining s) (p_exception s) (p_threads (at t c s) ! 0)"
    using ok o q ne by (cases "t = 0") (simp_all add: run_ok_def pool)
  then have own: "owner_ok False (p_draining s) (p_exception s) (p_threads s' ! 0)"
    using notify_one_keeps [OF n] enqueue_keeps(5) [OF ne(1), of w]
    by (elim owner_ok_other) auto
  have "p_quit s' = False" "p_draining s' = p_draining s" "p_exception s' = p_exception s"
    using notify_one_keeps [OF n] q by (simp_all add: enqueue_keeps pool)
  with a own ok p show ?thesis by (simp add: run_ok_def)
qed

lemma quit_without_item:
  assumes "pool_ok s" "p_quit s" "t < length (p_threads s)" "item_of (p_threads s ! t) \<noteq> {#}"
  shows "p_exception s \<noteq> None"
proof
  assume "p_exception s = None"
  then have "size (held s) = 0" using assms by (auto simp: pool_ok_def)
  then have "held s = {#}" by simp
  moreover have "held s = held (at t Asleep s) + item_of (p_threads s ! t)" using held_at [OF assms(3), of Asleep] by simp
  ultimately show False using assms(4) by simp
qed

lemma run_ok_step: "run_ok ws s \<Longrightarrow> pool_step s s' \<Longrightarrow> run_ok ws s'"
proof -
  assume ok: "run_ok ws s" and step: "pool_step s s'"
  have p: "pool_ok s" and p': "pool_ok s'" using ok pool_ok_step [OF _ step] by (simp_all add: run_ok_def)
  have ne: "0 < length (p_threads s)" using p by (simp add: pool_ok_def)
  have own: "owner_ok (p_quit s) (p_draining s) (p_exception s) (p_threads s ! 0)" using ok by (simp add: run_ok_def)
  note tok = pool_ok_thread [OF p]
  from step show ?thesis
  proof cases
    case (caller_enqueue w ws')
    then show ?thesis using own by (intro run_ok_enqueue [OF ok ne _ p']) auto
  next
    case (caller_refused w ws')
    have e: "p_exception s \<noteq> None" using own caller_refused by auto
    have "pool_ok (at 0 (Joining (Some shutDown)) s)"
      using tok [OF ne] caller_refused by (intro pool_ok_at [OF p ne]) (auto simp: thread_ok_def)
    then have "s' = at 0 (Joining (Some shutDown)) s" using caller_refused by (simp add: shutdown_quit pool)
    then show ?thesis using e p' by (auto intro: run_ok_at [OF ok ne])
  next
    case caller_process
    let ?s = "s\<lparr>p_draining := True\<rparr>"
    have "ahead ?s = ahead s" by (simp add: ahead_def)
    then have "ahead s' = ahead s" using ahead_at [of 0 ?s "Top None"] ne caller_process by simp
    then show ?thesis using ok p' ne caller_process(1) by (simp add: run_ok_def pool)
  next
    case (top t d)
    have "length (p_threads (account d s)) = length (p_threads s)"
      by (auto simp: account_def Let_def pool split: option.split)
    then have "run_ok ws (decide t (at t (Top None) (account d s)))"
      using run_ok_account [OF ok top(2,3)] top(2) by (intro run_ok_decide) (simp_all add: pool)
    then show ?thesis by (simp add: top(1) decide_overwrite)
  next
    case (woken t)
    then show ?thesis using ok by (simp add: run_ok_decide)
  next
    case (item_enqueue t w c cs)
    then show ?thesis by (intro run_ok_enqueue [OF ok item_enqueue(1) _ p']) auto
  next
    case (item_refused t w c cs)
    then have "p_exception s \<noteq> None" using quit_without_item [OF p _ item_refused(2)] by simp
    then show ?thesis using p' item_refused by (auto intro: run_ok_at [OF ok])
  next
    case (item_interrupted t w cs)
    then have "p_exception s \<noteq> None" using quit_without_item [OF p _ item_interrupted(2)] by simp
    then show ?thesis using p' item_interrupted by (auto intro: run_ok_at [OF ok])
  next
    case (item_end t w)
    then show ?thesis using p' by (auto intro: run_ok_at [OF ok])
  next
    case returned
    have q: "p_quit s" using tok [OF ne] returned(2) by (auto simp: thread_ok_def)
    have "pool_ok (at 0 (Joining x) s)" for x
      using tok [OF ne] returned(2) q by (intro pool_ok_at [OF p ne]; auto simp: thread_ok_def)
    then have "shutdown (at 0 (Joining x) s) = at 0 (Joining x) s" for x using q by (simp add: shutdown_quit pool)
    then have "s' = at 0 (case p_exception s of Some e \<Rightarrow> Joining (Some e) | None \<Rightarrow> Done None) s"
      using returned(1) by (simp add: process_end_def split: option.split)
    then show ?thesis using p' returned(2) by (auto intro!: run_ok_at [OF ok ne] split: option.splits)
  next
    case (joined r)
    then show ?thesis using p' own by (auto intro!: run_ok_at [OF ok ne])
  qed
qed

lemma run_ok_new: "run_ok ws (ThreadPool_new n hw ws)"
  using pool_ok_new [of n hw ws] by (simp add: run_ok_def ThreadPool_new_def ahead_def)

lemma run_ok_reaches: "pool_reaches (ThreadPool_new n hw ws) s \<Longrightarrow> run_ok ws s"
  by (induction rule: pool_reaches.induct) (auto intro: run_ok_step run_ok_spurious run_ok_new)


subsection \<open>What \<open>process\<close> promises\<close>

lemma remaining_idle: "item_of c = {#} \<Longrightarrow> in_loop c \<or> (\<exists>r. c = Done r) \<Longrightarrow> remaining c = {#}"
  by (cases c rule: item_of.cases) auto

lemma finished_quiet:
  assumes p: "pool_ok s" and d: "p_threads s ! 0 = Done r" and e: "p_exception s = None"
  shows "ahead s = mset (p_finished s)"
proof -
  have ne: "0 < length (p_threads s)" using p by (simp add: pool_ok_def)
  have q: "p_quit s" using pool_ok_thread [OF p ne] d by (auto simp: thread_ok_def)
  have "remaining c = {#}" if "c \<in> set (p_threads s)" for c
  proof -
    from that obtain t where t: "t < length (p_threads s)" "c = p_threads s ! t" by (auto simp: in_set_conv_nth)
    then have "item_of c = {#}" using quit_without_item [OF p q t(1)] e by auto
    moreover have "in_loop c \<or> (\<exists>r. c = Done r)"
      using pool_ok_thread [OF p t(1)] t(2) d by (cases "t = 0") (auto simp: thread_ok_def)
    ultimately show ?thesis by (rule remaining_idle)
  qed
  then have "sum_list (map remaining (p_threads s)) = {#}" by (intro sum_list_empty) auto
  with p q e show ?thesis by (simp add: ahead_def pool_ok_def)
qed

text \<open>
  C26.  When \<open>process\<close> has returned, under any interleaving and any spurious wake-up: if it did not
  throw, then each item that was enqueued, by the owner or by an item, has been executed exactly
  once, and none of them has thrown.  If it threw, then an item has thrown, and \<open>process\<close> threw the same
  exception, or the one of an owner who tried to enqueue while the pool was shutting down.
\<close>

theorem process_outcome:
  assumes "pool_reaches (ThreadPool_new maxThreads hw ws) s" "p_threads s ! 0 = Done r"
  shows "case r of
      None \<Rightarrow> mset (p_finished s) = all_works ws \<and> (\<forall>w. w \<in># all_works ws \<longrightarrow> work_result w = None)
    | Some e \<Rightarrow> \<exists>w \<in> set (p_finished s). work_result w = Some e \<or> work_result w \<noteq> None \<and> e = shutDown"
proof -
  have ok: "run_ok ws s" by (rule run_ok_reaches [OF assms(1)])
  then have p: "pool_ok s" and own: "r = p_exception s \<or> p_exception s \<noteq> None \<and> r = Some shutDown"
    using assms(2) by (auto simp: run_ok_def)
  have out: "outcome_ok (p_exception s) (p_finished s)" using p by (simp add: pool_ok_def)
  show ?thesis
  proof (cases r)
    case None
    then have e: "p_exception s = None" using own by auto
    then have m: "mset (p_finished s) = all_works ws"
      using ok finished_quiet [OF p assms(2) e] by (simp add: run_ok_def)
    then have "w \<in># all_works ws \<longleftrightarrow> w \<in> set (p_finished s)" for w by (metis set_mset_mset)
    with None m e out show ?thesis by (simp add: outcome_ok_def)
  next
    case (Some e)
    then show ?thesis using own out by (auto simp: outcome_ok_def split: option.splits)
  qed
qed

abbreviation failing :: work where
  "failing \<equiv> Work [] (Some shutDown)"

lemma reach_failing: "\<exists>s. pool_reaches (ThreadPool_new 1 0 [failing]) s \<and> p_threads s ! 0 = Done (Some shutDown)"
proof -
  let ?s0 = "ThreadPool_new 1 0 [failing]"
  let ?s1 = "enqueue failing (at 0 (Caller []) ?s0)"
  let ?s2 = "at 0 (Top None) (?s1\<lparr>p_draining := True\<rparr>)"
  let ?s3 = "decide 0 (account None ?s2)"
  let ?s4 = "at 0 (Top (Some (failing, Some shutDown))) ?s3"
  let ?s5 = "decide 0 (account (Some (failing, Some shutDown)) ?s4)"
  let ?s6 = "process_end ?s5"
  let ?s7 = "at 0 (Done (Some shutDown)) ?s6"
  note ev = ThreadPool_new_def enqueue_def Let_def account_def decide_def process_end_def shutdown_def at_def notify_all_def workers_def
  have 1: "pool_step ?s0 ?s1" by (rule caller_enqueue [of _ failing "[]"]) (simp_all add: ev nobody)
  have 2: "pool_step ?s1 ?s2" by (rule caller_process) (simp add: ev)
  have 3: "pool_step ?s2 ?s3" by (rule top) (simp_all add: ev)
  have 4: "pool_step ?s3 ?s4" using item_end [of 0 ?s3 failing] by (simp add: ev)
  have 5: "pool_step ?s4 ?s5" by (rule top) (simp_all add: ev)
  have 6: "pool_step ?s5 ?s6" by (rule returned) (simp add: ev)
  have 7: "pool_step ?s6 ?s7" by (rule joined) (simp_all add: ev)
  have "pool_reaches ?s0 ?s7"
    by (rule pool_reaches.step [OF _ 7], rule pool_reaches.step [OF _ 6], rule pool_reaches.step [OF _ 5],
        rule pool_reaches.step [OF _ 4], rule pool_reaches.step [OF _ 3], rule pool_reaches.step [OF _ 2],
        rule pool_reaches.step [OF _ 1], rule start)
  moreover have "p_threads ?s7 ! 0 = Done (Some shutDown)" by (simp add: ev)
  ultimately show ?thesis by blast
qed

lemma process_outcome_witness:
  "\<exists>s. pool_reaches (ThreadPool_new 1 0 [failing]) s \<and> p_threads s ! 0 = Done (Some shutDown) \<and>
     (\<exists>w \<in> set (p_finished s). work_result w \<noteq> None)"
proof -
  obtain s where s: "pool_reaches (ThreadPool_new 1 0 [failing]) s" "p_threads s ! 0 = Done (Some shutDown)"
    using reach_failing by blast
  from process_outcome [OF this] s show ?thesis by auto
qed

text \<open>
  C27.  \<open>process\<close> returns.  In every state of a run in which the owner is not done, some thread can go
  on: no wake-up is lost and nobody waits for ever.  And the threads cannot go on for ever, so
  whatever the scheduler does, only endless spurious wake-ups could keep \<open>process\<close> from its end.
\<close>

theorem process_returns:
  assumes "pool_reaches (ThreadPool_new maxThreads hw ws) s"
  shows "((\<exists>r. p_threads s ! 0 = Done r) \<or> (\<exists>s'. pool_step s s')) \<and>
    \<not> (\<exists>f. f 0 = s \<and> (\<forall>i. pool_step (f i) (f (Suc i)))) \<and>
    (\<exists>s' r. pool_reaches s s' \<and> p_threads s' ! 0 = Done r)"
proof -
  let ?lt = "less_than <*lex*> less_than"
  have wf: "wf ?lt" by (intro wf_lex_prod wf_less_than)
  have ok: "pool_ok s" using run_ok_reaches [OF assms] by (simp add: run_ok_def)
  have prog: "(\<exists>r. p_threads s ! 0 = Done r) \<or> (\<exists>s'. pool_step s s')" using pool_progress [OF ok] by auto
  have endless: "\<not> (\<exists>f. f 0 = s \<and> (\<forall>i. pool_step (f i) (f (Suc i))))"
  proof
    assume "\<exists>f. f 0 = s \<and> (\<forall>i. pool_step (f i) (f (Suc i)))"
    then obtain f where f: "f 0 = s" "\<And>i. pool_step (f i) (f (Suc i))" by blast
    have "pool_ok (f i)" for i by (induction i) (use ok f pool_ok_step in auto)
    then have "(pool_rank (f (Suc i)), pool_rank (f i)) \<in> ?lt" for i using f(2) pool_rank_step by blast
    then have "\<exists>g. \<forall>i. (g (Suc i), g i) \<in> ?lt" by (intro exI [of _ "\<lambda>i. pool_rank (f i)"]) blast
    with wf show False by (simp add: wf_iff_no_infinite_down_chain)
  qed
  have trans: "pool_reaches s s1 \<Longrightarrow> pool_step s0 s \<Longrightarrow> pool_reaches s0 s1" for s0 s s1
    by (induction rule: pool_reaches.induct) (auto intro: pool_reaches.intros)
  have "\<exists>s' r. pool_reaches s s' \<and> p_threads s' ! 0 = Done r"
    using wf ok
  proof (induction "pool_rank s" arbitrary: s rule: wf_induct_rule)
    case less
    show ?case
    proof (cases "\<exists>r. p_threads s ! 0 = Done r")
      case True
      then show ?thesis by (auto intro: start)
    next
      case False
      then obtain s' where s': "pool_step s s'" using pool_progress [OF less.prems] by auto
      from less.hyps [OF pool_rank_step [OF less.prems s'] pool_ok_step [OF less.prems s']] trans s'
      show ?thesis by blast
    qed
  qed
  with prog endless show ?thesis by simp
qed

lemma process_returns_witness:
  "\<exists>s' r. pool_reaches (ThreadPool_new 2 0 [Work [failing] None, failing]) s' \<and> p_threads s' ! 0 = Done r"
  using process_returns [OF start] by blast

end
