(* ===== verification/FsCalls.thy ===== *)
theory FsCalls
  imports FileSystem
begin

text \<open>
  Reasoning about computations on a file system whose calls may fail: what holds after a
  computation, when it returns and when it throws (\<open>wp\<close>), and for each system call what it does to
  the entries and the inodes.
\<close>

subsection \<open>What holds afterwards\<close>

definition wp :: "('s, 'a) M \<Rightarrow> ('a \<Rightarrow> 's \<Rightarrow> bool) \<Rightarrow> (exn \<Rightarrow> 's \<Rightarrow> bool) \<Rightarrow> 's \<Rightarrow> bool" where
  "wp m Q E s = (case m s of (Inr x, t) \<Rightarrow> Q x t | (Inl e, t) \<Rightarrow> E e t)"

definition sysP :: "'a sys \<Rightarrow> (errno + 'a \<Rightarrow> fsys \<Rightarrow> bool) \<Rightarrow> fsys \<Rightarrow> bool" where
  "sysP m R s = (case m s of (r, t) \<Rightarrow> R r t)"

named_theorems wps "what holds after a computation"

lemma wp_basic [wps]:
  "wp (ret x) Q E = Q x" "wp (throw e) Q E = E e" "wp (getS f) Q E = (\<lambda>s. Q (f s) s)"
  "wp (liftE r) Q E = (case r of Inl e \<Rightarrow> E e | Inr x \<Rightarrow> Q x)"
  by (simp_all add: wp_def fun_eq_iff split: sum.split)

lemma wp_modS [wps]: "wp (modS g) Q E = (\<lambda>s. Q () (g s))"
  by (simp add: wp_def fun_eq_iff)

lemma wp_Pair [wps]: "wp (Pair (Inr x)) Q E = Q x" "wp (Pair (Inl e)) Q E = E e"
  by (simp_all add: wp_def fun_eq_iff)

lemma wp_bindM [wps]: "wp (bindM m f) Q E = wp m (\<lambda>x. wp (f x) Q E) E"
  by (simp add: wp_def bindM_def fun_eq_iff split: prod.split sum.split)

lemma wp_seqM [wps]: "wp (seqM m n) Q E = wp m (\<lambda>_. wp n Q E) E"
  by (simp add: seqM_def wp_bindM)

lemma wp_onL [wps]: "wp (onL m) Q E (s, t) = wp m (\<lambda>x s'. Q x (s', t)) (\<lambda>e s'. E e (s', t)) s"
  by (simp add: wp_def onL_def split: prod.split sum.split)

lemma wp_onR [wps]: "wp (onR m) Q E (s, t) = wp m (\<lambda>x t'. Q x (s, t')) (\<lambda>e t'. E e (s, t')) t"
  by (simp add: wp_def onR_def split: prod.split sum.split)

lemma wp_sysR [wps]: "wp (sysR m) Q E = sysP m Q"
  by (simp add: wp_def sysP_def sysR_def fun_eq_iff split: prod.split)

lemma wp_sys [wps]:
  "wp (sysE msg m) Q E = sysP m (\<lambda>r t. case r of Inl e \<Rightarrow> E (SysError e msg) t | Inr x \<Rightarrow> Q x t)"
  "wp (sysF m) Q E = sysP m (\<lambda>r t. case r of Inl e \<Rightarrow> E (FilesystemError e) t | Inr x \<Rightarrow> Q x t)"
  for m :: "'a sys"
  by (simp_all add: wp_def sysP_def sysE_def sysF_def fun_eq_iff split: prod.split sum.split)

lemma wp_finallyM [wps]:
  "wp (finallyM m fin) Q E =
     wp m (\<lambda>x. wp fin (\<lambda>_. Q x) E) (\<lambda>e. wp fin (\<lambda>_. E e) (\<lambda>_. E (Abort ''Finally'')))"
  by (simp add: wp_def finallyM_def fun_eq_iff split: prod.split sum.split)

lemma wp_mono:
  "wp m Q E s \<Longrightarrow> (\<And>x t. Q x t \<Longrightarrow> Q' x t) \<Longrightarrow> (\<And>e t. E e t \<Longrightarrow> E' e t) \<Longrightarrow> wp m Q' E' s"
  by (auto simp: wp_def split: prod.splits sum.splits)

lemma sysP_mono: "sysP m R s \<Longrightarrow> (\<And>r t. R r t \<Longrightarrow> R' r t) \<Longrightarrow> sysP m R' s"
  by (auto simp: sysP_def)

lemma wpD_Inr: "wp m Q E s \<Longrightarrow> m s = (Inr x, t) \<Longrightarrow> Q x t"
  by (simp add: wp_def)

lemma wpD_Inl: "wp m Q E s \<Longrightarrow> m s = (Inl e, t) \<Longrightarrow> E e t"
  by (simp add: wp_def)

text \<open>A loop, with an invariant over the elements left.\<close>

lemma wp_forM:
  assumes "I xs s" and "\<And>x rest s. I (x # rest) s \<Longrightarrow> wp (f x) (\<lambda>_. I rest) E s" and "\<And>s. I [] s \<Longrightarrow> Q () s"
  shows "wp (forM f xs) Q E s"
  using assms(1)
proof (induction xs arbitrary: s)
  case Nil
  then show ?case using assms(3) by (simp add: wps)
next
  case (Cons x xs)
  from assms(2) [OF Cons.prems] Cons.IH show ?case by (auto simp: wps elim: wp_mono)
qed

subsection \<open>Calls\<close>

text \<open>Nothing has changed but the scripts of the environment; a quiet one stays so.\<close>

definition same_fs :: "fsys \<Rightarrow> fsys \<Rightarrow> bool" where
  "same_fs s t \<longleftrightarrow> fs_dents t = fs_dents s \<and> fs_inodes t = fs_inodes s \<and> fs_next t = fs_next s \<and> fs_now t = fs_now s \<and>
     (fs_quiet s \<longrightarrow> fs_quiet t)"

text \<open>Every inode is there as before, but for the modes and times of directories.\<close>

definition frozen :: "fsys \<Rightarrow> fsys \<Rightarrow> bool" where
  "frozen s t \<longleftrightarrow> fs_next t = fs_next s \<and> (fs_quiet s \<longrightarrow> fs_quiet t) \<and>
     (\<forall>i. in_type (fs_inodes t i) = in_type (fs_inodes s i) \<and>
          (in_type (fs_inodes s i) \<noteq> tDirectory \<longrightarrow> fs_inodes t i = fs_inodes s i))"

lemma same_fs_refl [simp]: "same_fs s s"
  by (simp add: same_fs_def)

lemma same_fs_trans: "same_fs s t \<Longrightarrow> same_fs t u \<Longrightarrow> same_fs s u"
  by (simp add: same_fs_def)

lemma frozen_refl [simp]: "frozen s s"
  by (simp add: frozen_def)

lemma frozen_trans: "frozen s t \<Longrightarrow> frozen t u \<Longrightarrow> frozen s u"
  by (simp add: frozen_def)

lemma same_fs_frozen: "same_fs s t \<Longrightarrow> frozen s t"
  by (simp add: same_fs_def frozen_def)

lemma same_fs_dent: "same_fs s t \<Longrightarrow> dent t p = dent s p"
  by (simp add: same_fs_def dent_def)

lemma same_fs_is_dir: "same_fs s t \<Longrightarrow> is_dir t p = is_dir s p"
  by (simp add: same_fs_def is_dir_dent dent_def)

lemma same_fs_miss: "same_fs s t \<Longrightarrow> miss t p = miss s p"
  by (simp add: same_fs_def miss_def dent_def cong: option.case_cong)

lemma same_fs_stat: "same_fs s t \<Longrightarrow> stat_of t i = stat_of s i"
  by (simp add: same_fs_def stat_of_def nlink_def)

lemma same_fs_children: "same_fs s t \<Longrightarrow> children t p = children s p"
  by (simp add: same_fs_def children_def)

lemma same_fs_ok: "same_fs s t \<Longrightarrow> fs_ok s \<Longrightarrow> fs_ok t"
  by (rule fs_ok_cong [of s]) (simp_all add: same_fs_def same_nodes_def)

lemmas same_fs_eqs = same_fs_dent same_fs_is_dir same_fs_miss same_fs_stat same_fs_children

lemma sysP_call:
  assumes "\<And>e t. same_fs s t \<Longrightarrow> \<not> fs_quiet s \<Longrightarrow> R (Inl e) t"
    and "\<And>t. same_fs s t \<Longrightarrow> (\<And>p. dent t p = dent s p) \<Longrightarrow> (\<And>p. is_dir t p = is_dir s p) \<Longrightarrow>
      (\<And>p. miss t p = miss s p) \<Longrightarrow> (\<And>i. stat_of t i = stat_of s i) \<Longrightarrow> (\<And>p. children t p = children s p) \<Longrightarrow>
      fs_inodes t = fs_inodes s \<Longrightarrow> sysP m R t"
  shows "sysP (sys_call m) R s"
proof (cases "fs_faults s")
  case Nil
  then show ?thesis using assms(2) [of s] by (simp add: sysP_def sys_call_def)
next
  case (Cons f r)
  have "same_fs s (s\<lparr>fs_faults := r\<rparr>)" "\<not> fs_quiet s" using Cons by (auto simp: same_fs_def fs_quiet_def)
  then show ?thesis
    using assms [of "s\<lparr>fs_faults := r\<rparr>"] Cons same_fs_eqs [OF \<open>same_fs s (s\<lparr>fs_faults := r\<rparr>)\<close>]
    by (simp add: sysP_def sys_call_def split: option.split)
qed

lemma wp_checkInterrupt:
  "wp fs_checkInterrupt (\<lambda>_ t. same_fs s t) (\<lambda>e t. same_fs s t \<and> \<not> fs_quiet s \<and> (\<exists>m. e = Interrupted m)) s"
  by (auto simp: wp_def fs_checkInterrupt_def same_fs_def fs_quiet_def split: list.split)

lemma sysP_lstat:
  "sysP (sys_lstat p) (\<lambda>r t. same_fs s t \<and>
     (case r of Inr st \<Rightarrow> \<exists>i. dent s p = Some i \<and> st = stat_of s i | Inl e \<Rightarrow> fs_quiet s \<longrightarrow> dent s p = None \<and> e = miss s p)) s"
  unfolding sys_lstat_def
  by (rule sysP_call) (auto simp: sysP_def split: option.split)

lemma sysP_read_inode:
  "sysP (read_inode p) (\<lambda>r t. same_fs s t \<and>
     (case r of Inr n \<Rightarrow> \<exists>i. dent s p = Some i \<and> n = fs_inodes s i | Inl e \<Rightarrow> fs_quiet s \<longrightarrow> dent s p = None)) s"
  unfolding read_inode_def
  by (rule sysP_call) (auto simp: sysP_def split: option.split)

lemma sysP_readdir:
  "sysP (sys_readdir p) (\<lambda>r t. same_fs s t \<and>
     (case r of Inr es \<Rightarrow> is_dir s p \<and> es = map (\<lambda>(n, i). (n, i, in_type (fs_inodes s i))) (children s p)
      | Inl e \<Rightarrow> fs_quiet s \<longrightarrow> \<not> is_dir s p)) s"
  unfolding sys_readdir_def
  by (rule sysP_call) (auto simp: sysP_def is_dir_dent [of s] split: option.split)

lemma miss_cases: "miss s p = ENOENT \<or> miss s p = ENOTDIR"
  by (simp add: miss_def)

lemma wp_maybeLstat:
  "wp (maybeLstat p) (\<lambda>r t. same_fs s t \<and> (case r of Some st \<Rightarrow> \<exists>i. dent s p = Some i \<and> st = stat_of s i | None \<Rightarrow> fs_quiet s \<longrightarrow> dent s p = None))
     (\<lambda>e t. same_fs s t \<and> \<not> fs_quiet s \<and> (\<exists>n m. e = SysError n m)) s"
  unfolding maybeLstat_def
  using miss_cases [of s p]
  by (simp add: wps, intro sysP_mono [OF sysP_lstat]) (auto simp: wps split: sum.splits)

lemma wp_lstat:
  "wp (lstat p) (\<lambda>st t. same_fs s t \<and> (\<exists>i. dent s p = Some i \<and> st = stat_of s i))
     (\<lambda>e t. same_fs s t \<and> (fs_quiet s \<longrightarrow> dent s p = None) \<and> (\<exists>n m. e = SysError n m)) s"
  unfolding lstat_def
  by (simp add: wps, rule sysP_mono [OF sysP_lstat]) (auto split: sum.splits)

text \<open>An inode of a directory gets another mode or time.\<close>

lemma frozen_set_inode:
  assumes "in_type (fs_inodes s i) = tDirectory" "in_type (f (fs_inodes s i)) = tDirectory"
  shows "frozen s (set_inode i f s)"
  using assms by (auto simp: frozen_def fs fs_quiet_def)

lemma frozen_touch: "is_dir s p \<Longrightarrow> frozen s (touch p s)"
  by (auto simp: touch_def is_dir_dent intro!: frozen_set_inode)

lemma frozen_is_dir: "frozen s t \<Longrightarrow> dent t p = dent s p \<Longrightarrow> is_dir t p = is_dir s p"
  by (simp add: frozen_def is_dir_dent)

lemma frozen_ok: "fs_ok s \<Longrightarrow> frozen s t \<Longrightarrow> fs_dents t = fs_dents s \<Longrightarrow> fs_ok t"
proof -
  assume ok: "fs_ok s" and f: "frozen s t" and d: "fs_dents t = fs_dents s"
  have "is_dir t p = is_dir s p" for p using frozen_is_dir [OF f] d by (simp add: dent_def)
  then show ?thesis using ok f d by (simp add: fs_ok_def frozen_def)
qed

lemma sysP_inode_dir:
  assumes "\<And>n. in_type (f n) = in_type n"
  shows "sysP (sys_inode p f) (\<lambda>r t. fs_dents t = fs_dents s \<and> (is_dir s p \<longrightarrow> frozen s t) \<and>
     (\<forall>i. dent s p \<noteq> Some i \<longrightarrow> fs_inodes t i = fs_inodes s i) \<and>
     (case r of Inl e \<Rightarrow> same_fs s t \<and> (fs_quiet s \<longrightarrow> dent s p = None)
      | Inr _ \<Rightarrow> \<forall>i. dent s p = Some i \<longrightarrow> fs_inodes t i = f (fs_inodes s i))) s"
  unfolding sys_inode_def
proof (rule sysP_call)
  fix t assume t: "same_fs s t" "fs_inodes t = fs_inodes s" "\<And>p. dent t p = dent s p"
  show "sysP (\<lambda>s. case dent s p of None \<Rightarrow> (Inl (miss s p), s) | Some i \<Rightarrow> (Inr (), set_inode i f s))
     (\<lambda>r t. fs_dents t = fs_dents s \<and> (is_dir s p \<longrightarrow> frozen s t) \<and>
     (\<forall>i. dent s p \<noteq> Some i \<longrightarrow> fs_inodes t i = fs_inodes s i) \<and>
     (case r of Inl e \<Rightarrow> same_fs s t \<and> (fs_quiet s \<longrightarrow> dent s p = None)
      | Inr _ \<Rightarrow> \<forall>i. dent s p = Some i \<longrightarrow> fs_inodes t i = f (fs_inodes s i))) t"
  proof (cases "dent s p")
    case None
    with t(1,2) same_fs_frozen [OF t(1)] show ?thesis by (simp add: sysP_def t(3)) (simp add: same_fs_def)
  next
    case (Some i)
    have "frozen t (set_inode i f t)" if "is_dir s p"
      using that Some t assms by (intro frozen_set_inode) (auto simp: is_dir_dent)
    then have "is_dir s p \<longrightarrow> frozen s (set_inode i f t)" using same_fs_frozen [OF t(1)] frozen_trans by blast
    moreover have "fs_dents t = fs_dents s" using t(1) by (simp add: same_fs_def)
    ultimately show ?thesis using Some t(2) by (simp add: sysP_def t(3) fs)
  qed
next
  fix e t assume t: "same_fs s t" "\<not> fs_quiet s"
  then show "fs_dents t = fs_dents s \<and> (is_dir s p \<longrightarrow> frozen s t) \<and>
     (\<forall>i. dent s p \<noteq> Some i \<longrightarrow> fs_inodes t i = fs_inodes s i) \<and>
     (case Inl e of Inl e \<Rightarrow> same_fs s t \<and> (fs_quiet s \<longrightarrow> dent s p = None)
      | Inr _ \<Rightarrow> \<forall>i. dent s p = Some i \<longrightarrow> fs_inodes t i = f (fs_inodes s i))"
    using same_fs_frozen [OF t(1)] by (simp add: same_fs_def)
qed

text \<open>Links of what is no directory: made, removed, moved.\<close>

lemma frozen_dents [simp]: "frozen s (s\<lparr>fs_dents := ds\<rparr>)"
  by (simp add: frozen_def fs_quiet_def)

lemma is_dir_dents: "is_dir (s\<lparr>fs_dents := ds\<rparr>) p \<longleftrightarrow> (\<exists>i. map_of ds p = Some i \<and> in_type (fs_inodes s i) = tDirectory)"
  by (simp add: is_dir_dent dent_def)

lemma sysP_link:
  "sysP (sys_link old new) (\<lambda>r t. case r of
      Inr _ \<Rightarrow> \<exists>i. dent s old = Some i \<and> in_type (fs_inodes s i) \<noteq> tDirectory \<and> dent s new = None \<and> is_dir s (butlast new) \<and>
        fs_dents t = fs_dents s @ [(new, i)] \<and> frozen s t
    | Inl e \<Rightarrow> same_fs s t \<and> (fs_quiet s \<longrightarrow> \<not> (\<exists>i. dent s old = Some i \<and> in_type (fs_inodes s i) \<noteq> tDirectory) \<or>
        dent s new \<noteq> None \<and> e = EEXIST \<or> \<not> is_dir s (butlast new))) s"
  unfolding sys_link_def
proof (rule sysP_call)
  fix t assume t: "same_fs s t" "fs_inodes t = fs_inodes s" "\<And>p. dent t p = dent s p" "\<And>p. is_dir t p = is_dir s p"
  have "frozen s (add_dent new i t)" if "is_dir s (butlast new)" for i
  proof -
    have "is_dir (t\<lparr>fs_dents := fs_dents t @ [(new, i)]\<rparr>) (butlast new)"
      using that t(1,2) t(3) [of "butlast new"] by (auto simp: is_dir_dents is_dir_dent dent_def map_add_def split: option.split)
    then show ?thesis
      unfolding add_dent_def using same_fs_frozen [OF t(1)] frozen_dents frozen_touch frozen_trans by blast
  qed
  moreover have "fs_dents t = fs_dents s" using t(1) by (simp add: same_fs_def)
  ultimately show "sysP (\<lambda>s. case dent s old of
       None \<Rightarrow> (Inl (miss s old), s)
     | Some i \<Rightarrow>
         if in_type (fs_inodes s i) = tDirectory then (Inl EPERM, s)
         else if dent s new \<noteq> None then (Inl EEXIST, s)
         else if \<not> is_dir s (butlast new) then (Inl (miss s new), s)
         else (Inr (), add_dent new i s)) (\<lambda>r t. case r of
      Inr _ \<Rightarrow> \<exists>i. dent s old = Some i \<and> in_type (fs_inodes s i) \<noteq> tDirectory \<and> dent s new = None \<and> is_dir s (butlast new) \<and>
        fs_dents t = fs_dents s @ [(new, i)] \<and> frozen s t
    | Inl e \<Rightarrow> same_fs s t \<and> (fs_quiet s \<longrightarrow> \<not> (\<exists>i. dent s old = Some i \<and> in_type (fs_inodes s i) \<noteq> tDirectory) \<or>
        dent s new \<noteq> None \<and> e = EEXIST \<or> \<not> is_dir s (butlast new))) t"
    using t(1,2) by (simp add: sysP_def t(3,4) fs split: option.split)
qed simp

lemma dent_link:
  assumes "fs_dents t = fs_dents s @ [(new, i)]" "dent s new = None"
  shows "dent t q = (if q = new then Some i else dent s q)"
  using assms by (auto simp: dent_def map_add_def split: option.split)

lemma fs_ok_link:
  assumes ok: "fs_ok s" and t: "fs_dents t = fs_dents s @ [(new, i)]" "dent s new = None" "is_dir s (butlast new)" "frozen s t"
    and i: "i < fs_next s"
  shows "fs_ok t"
proof -
  have d: "dent t q = (if q = new then Some i else dent s q)" for q using t(1,2) by (rule dent_link)
  have dir: "is_dir t p" if "is_dir s p" for p
    using that d [of p] t(2,4) by (auto simp: is_dir_dent frozen_def)
  have "new \<notin> fst ` set (fs_dents s)" using t(2) by (simp add: dent_none)
  moreover have "fs_next t = fs_next s" using t(4) by (simp add: frozen_def)
  ultimately show ?thesis using ok dir t(1,3) i by (auto simp: fs_ok_def)
qed

lemma fs_ok_new_inode:
  assumes ok: "fs_ok s" and p: "dent s p = None" "is_dir s (butlast p)"
  shows "fs_ok (new_inode p n s)" "dent (new_inode p n s) q = (if q = p then Some (fs_next s) else dent s q)"
proof -
  let ?t = "new_inode p n s"
  have ds: "fs_dents ?t = fs_dents s @ [(p, fs_next s)]" "fs_next ?t = Suc (fs_next s)" by (simp_all add: new_inode_def fs)
  show d: "dent ?t q = (if q = p then Some (fs_next s) else dent s q)" for q using dent_link [OF ds(1) p(1)] .
  have less: "i < fs_next s" if "dent s q = Some i" for q i using dent_in [OF that] ok by (auto simp: fs_ok_def)
  have dir: "is_dir ?t q" if dq: "is_dir s q" for q
  proof -
    obtain i where i: "dent s q = Some i" "in_type (fs_inodes s i) = tDirectory" using dq by (auto simp: is_dir_dent)
    have "in_type (fs_inodes ?t i) = in_type (fs_inodes s i)" using less [OF i(1)] by (simp add: new_inode_def fs)
    moreover have "q \<noteq> p" using i(1) p(1) by auto
    ultimately show ?thesis using i d [of q] by (simp add: is_dir_dent)
  qed
  have "p \<notin> fst ` set (fs_dents s)" using p(1) by (simp add: dent_none)
  then show "fs_ok ?t" using ok dir p(2) ds by (auto simp: fs_ok_def less_Suc_eq)
qed

lemma sysP_unlink:
  assumes ok: "fs_ok s"
  shows "sysP (sys_unlink p) (\<lambda>r t. case r of
      Inr _ \<Rightarrow> \<exists>i. dent s p = Some i \<and> in_type (fs_inodes s i) \<noteq> tDirectory \<and>
        fs_dents t = filter (\<lambda>(x, _). x \<noteq> p) (fs_dents s) \<and> frozen s t
    | Inl e \<Rightarrow> same_fs s t \<and> (fs_quiet s \<longrightarrow> \<not> (\<exists>i. dent s p = Some i \<and> in_type (fs_inodes s i) \<noteq> tDirectory) \<and>
        (dent s p = None \<longrightarrow> e = miss s p))) s"
  unfolding sys_unlink_def
proof (rule sysP_call)
  fix t assume t: "same_fs s t" "fs_inodes t = fs_inodes s" "\<And>p. dent t p = dent s p" "\<And>p. miss t p = miss s p"
  have d: "fs_dents t = fs_dents s" using t(1) by (simp add: same_fs_def)
  have "frozen s (del_dent p t)" if i: "dent s p = Some i" "in_type (fs_inodes s i) \<noteq> tDirectory" for i
  proof -
    have p: "p \<noteq> []" using i ok by (auto simp: fs_ok_def is_dir_dent)
    then have "is_dir s (butlast p)" using ok i by (auto simp: fs_ok_def dest!: dent_in)
    moreover have "butlast p \<noteq> p" using p by (metis append_butlast_last_id append_self_conv list.distinct(1))
    ultimately have "is_dir (t\<lparr>fs_dents := filter (\<lambda>(x, _). x \<noteq> p) (fs_dents t)\<rparr>) (butlast p)"
      using t(2) d ok by (auto simp: is_dir_dents is_dir_dent dent_def fs_ok_def distinct_map_filter)
    then show ?thesis
      unfolding del_dent_def using same_fs_frozen [OF t(1)] frozen_dents frozen_touch frozen_trans by blast
  qed
  then show "sysP (\<lambda>s. case dent s p of
       None \<Rightarrow> (Inl (miss s p), s)
     | Some i \<Rightarrow> if in_type (fs_inodes s i) = tDirectory then (Inl EISDIR, s) else (Inr (), del_dent p s)) (\<lambda>r t. case r of
      Inr _ \<Rightarrow> \<exists>i. dent s p = Some i \<and> in_type (fs_inodes s i) \<noteq> tDirectory \<and>
        fs_dents t = filter (\<lambda>(x, _). x \<noteq> p) (fs_dents s) \<and> frozen s t
    | Inl e \<Rightarrow> same_fs s t \<and> (fs_quiet s \<longrightarrow> \<not> (\<exists>i. dent s p = Some i \<and> in_type (fs_inodes s i) \<noteq> tDirectory) \<and>
        (dent s p = None \<longrightarrow> e = miss s p))) t"
    using t(1,2) d by (simp add: sysP_def t(3,4) fs split: option.split)
qed simp

lemma dent_unlink:
  assumes "fs_dents t = filter (\<lambda>(x, _). x \<noteq> p) (fs_dents s)"
  shows "dent t q = (if q = p then None else dent s q)"
proof -
  have "map_of (filter (\<lambda>(x, _). x \<noteq> p) ds) q = (if q = p then None else map_of ds q)" for ds :: "(fpath \<times> nat) list"
    by (induction ds) auto
  with assms show ?thesis by (simp add: dent_def)
qed

lemma fs_ok_unlink:
  assumes ok: "fs_ok s" and t: "fs_dents t = filter (\<lambda>(x, _). x \<noteq> p) (fs_dents s)" "frozen s t"
    and i: "dent s p = Some i" "in_type (fs_inodes s i) \<noteq> tDirectory"
  shows "fs_ok t"
proof -
  have dir: "is_dir t q" if "is_dir s q" for q
    using that dent_unlink [OF t(1), of q] t(2) i by (auto simp: is_dir_dent frozen_def)
  have "fs_next t = fs_next s" using t(2) by (simp add: frozen_def)
  with ok dir t(1) show ?thesis by (auto simp: fs_ok_def distinct_map_filter)
qed

text \<open>The move of one link of a file onto a file's name or a free one.\<close>

definition renamed :: "fpath \<Rightarrow> fpath \<Rightarrow> (fpath \<times> nat) list \<Rightarrow> (fpath \<times> nat) list" where
  "renamed old new ds = map (\<lambda>(q, i). (if q = old then new else q, i)) (filter (\<lambda>(q, _). q \<noteq> new) ds)"

lemma move_leaf:
  assumes ok: "fs_ok s" and i: "dent s old = Some i" "in_type (fs_inodes s i) \<noteq> tDirectory"
  shows "move_dents old new (fs_dents s) = renamed old new (fs_dents s)"
proof -
  have "prefix old q \<longleftrightarrow> q = old" if "(q, j) \<in> set (fs_dents s)" for q j
  proof
    assume "prefix old q"
    then obtain r where r: "q = old @ r" by (auto simp: prefix_def)
    show "q = old"
    proof (cases r)
      case (Cons n r')
      then have "is_dir s old" using ancestor_dir [OF ok, of old n r' j] that r by simp
      then show ?thesis using i by (simp add: is_dir_dent)
    qed (simp add: r)
  qed simp
  then show ?thesis by (auto simp: move_dents_def renamed_def)
qed

lemma dent_renamed:
  assumes "fs_dents t = renamed old new (fs_dents s)" "old \<noteq> new" "dent s old = Some i"
  shows "dent t q = (if q = new then Some i else if q = old then None else dent s q)"
proof -
  have "map_of (renamed old new ds) q = (if q = new then map_of ds old else if q = old then None else map_of ds q)"
    for ds :: "(fpath \<times> nat) list"
  proof (induction ds)
    case Nil
    then show ?case by (simp add: renamed_def)
  next
    case (Cons x ds)
    obtain p j where x: "x = (p, j)" by fastforce
    have "renamed old new (x # ds) = (if p = new then [] else [(if p = old then new else p, j)]) @ renamed old new ds"
      by (simp add: renamed_def x)
    then show ?case using Cons.IH assms(2) by (cases "p = new"; cases "p = old"; auto simp: x)
  qed
  with assms show ?thesis by (simp add: dent_def)
qed

lemma fs_ok_renamed:
  assumes ok: "fs_ok s" and t: "fs_dents t = renamed old new (fs_dents s)" "frozen s t" and ne: "old \<noteq> new"
    and i: "dent s old = Some i" "in_type (fs_inodes s i) \<noteq> tDirectory" and new: "is_dir s (butlast new)" "\<not> is_dir s new"
  shows "fs_ok t"
proof -
  note d = dent_renamed [OF t(1) ne i(1)]
  have dir: "is_dir t q" if "is_dir s q" for q
    using that d [of q] t(2) i new(2) by (auto simp: is_dir_dent frozen_def)
  have old: "(old, i) \<in> set (fs_dents s)" using i(1) by (rule dent_in)
  let ?ps = "map fst (filter (\<lambda>(q, _). q \<noteq> new) (fs_dents s))"
  have "distinct ?ps" using ok by (simp add: fs_ok_def distinct_map_filter)
  moreover have "inj_on (\<lambda>q. if q = old then new else q) (set ?ps)" by (auto simp: inj_on_def)
  ultimately have "distinct (map (\<lambda>q. if q = old then new else q) ?ps)" by (rule distinct_map [THEN iffD2, OF conjI])
  then have "distinct (map fst (fs_dents t))" by (simp add: t(1) renamed_def comp_def case_prod_unfold)
  moreover have "is_dir t (butlast q)" if q: "(q, j) \<in> set (fs_dents t)" "q \<noteq> []" for q j
  proof (cases "q = new")
    case True
    with new(1) dir show ?thesis by simp
  next
    case False
    with q have "(q, j) \<in> set (fs_dents s)" by (auto simp: t(1) renamed_def split: if_splits)
    with q(2) ok dir show ?thesis by (auto simp: fs_ok_def)
  qed
  moreover have "j < fs_next t" if "(q, j) \<in> set (fs_dents t)" for q j
    using that ok t(2) by (auto simp: t(1) renamed_def fs_ok_def frozen_def)
  ultimately show ?thesis using ok dir by (auto simp: fs_ok_def)
qed

lemma sysP_rename:
  assumes ok: "fs_ok s" and i: "dent s old = Some i" "in_type (fs_inodes s i) \<noteq> tDirectory"
    and new: "is_dir s (butlast new)" "\<not> is_dir s new" and ne: "old \<noteq> new"
  shows "sysP (sys_rename old new) (\<lambda>r t. case r of
      Inr _ \<Rightarrow> dent s new = Some i \<and> same_fs s t \<or> dent s new \<noteq> Some i \<and> frozen s t \<and> fs_dents t = renamed old new (fs_dents s)
    | Inl e \<Rightarrow> same_fs s t \<and> \<not> fs_quiet s) s"
  unfolding sys_rename_def
proof (rule sysP_call)
  fix t assume t: "same_fs s t" "fs_inodes t = fs_inodes s" "\<And>p. dent t p = dent s p" "\<And>p. is_dir t p = is_dir s p"
    "\<And>p. children t p = children s p"
  have d: "fs_dents t = fs_dents s" using t(1) by (simp add: same_fs_def)
  have old: "old \<noteq> []" using i ok by (auto simp: fs_ok_def is_dir_dent)
  let ?u = "t\<lparr>fs_dents := move_dents old new (fs_dents t)\<rparr>"
  have u: "fs_dents ?u = renamed old new (fs_dents s)" using move_leaf [OF ok i] d by simp
  have "is_dir s (butlast old)" using ok old i by (auto simp: fs_ok_def dest!: dent_in)
  then have dirs: "is_dir ?u (butlast old)" "is_dir ?u (butlast new)"
    using dent_renamed [OF u ne i(1)] i new t(2) by (auto simp: is_dir_dent)
  have "frozen s (do_rename old new t)"
  proof -
    have "frozen s ?u" using same_fs_frozen [OF t(1)] frozen_dents frozen_trans by blast
    moreover have "frozen ?u (touch (butlast new) ?u)" by (rule frozen_touch [OF dirs(2)])
    moreover have "is_dir (touch (butlast new) ?u) (butlast old)"
      using dirs(1) frozen_is_dir [OF frozen_touch [OF dirs(2)], of "butlast old"] by (simp add: dent_def fs)
    ultimately show ?thesis unfolding do_rename_def using frozen_touch frozen_trans by blast
  qed
  moreover have "fs_dents (do_rename old new t) = renamed old new (fs_dents s)" using u by (simp add: do_rename_def fs)
  moreover have "children s new = []" if "dent s new = Some j" for j
  proof (rule ccontr)
    assume "children s new \<noteq> []"
    then obtain n where "n \<in> fst ` set (children s new)" by (cases "children s new") auto
    then obtain k where "(new @ [n], k) \<in> set (fs_dents s)" by (auto simp: children_names)
    then have "is_dir s new" using ancestor_dir [OF ok, of new n "[]" k] by simp
    with new(2) show False by simp
  qed
  ultimately show "sysP (\<lambda>s. case dent s old of
       None \<Rightarrow> (Inl (miss s old), s)
     | Some i \<Rightarrow>
         let d = (in_type (fs_inodes s i) = tDirectory) in
         if \<not> is_dir s (butlast new) then (Inl (miss s new), s)
         else if d \<and> strict_prefix old new then (Inl EINVAL, s)
         else (case dent s new of
             None \<Rightarrow> (Inr (), do_rename old new s)
           | Some j \<Rightarrow>
               if i = j then (Inr (), s)
               else if d \<and> \<not> is_dir s new then (Inl ENOTDIR, s)
               else if \<not> d \<and> is_dir s new then (Inl EISDIR, s)
               else if children s new \<noteq> [] then (Inl ENOTEMPTY, s)
               else (Inr (), do_rename old new s))) (\<lambda>r t. case r of
      Inr _ \<Rightarrow> dent s new = Some i \<and> same_fs s t \<or> dent s new \<noteq> Some i \<and> frozen s t \<and> fs_dents t = renamed old new (fs_dents s)
    | Inl e \<Rightarrow> same_fs s t \<and> \<not> fs_quiet s) t"
    using i new t(1,2) by (auto simp: sysP_def t(3,4,5) Let_def split: option.split)
qed simp

end
