(* ===== verification/Optimise.thy ===== *)
theory Optimise
  imports FsCalls StoreDb
begin

text \<open>
  Hard-linking of identical files (\<open>libstore/optimise-store.cc\<close>).  Below the store directory,
  \<open>.links\<close> has a link to each file that was seen, under the hash of the file's archive; a file that
  comes with a hash that is there is replaced by a link to the one that is there.

  The state is the file system with the context of one run.  A walk that has a pool enqueues
  each subdirectory as a task; \<open>oc_schedule\<close> picks the task that runs next, so a theorem about all
  schedules is one about all orders.  A task runs as a whole: the steps of two
  tasks do not interleave here.
\<close>

subsection \<open>State\<close>

record opt_ctx =
  oc_inodeHash :: "nat set"
  oc_fileHashes :: "(string \<rightharpoonup> Hash) option"
  oc_fileHashesBase :: nat
  oc_visited :: "64 word"
  oc_filesLinked :: "64 word"
  oc_bytesFreed :: "64 word"
  oc_tmpCounter :: "32 word"
  oc_toggled :: bool
  oc_tasks :: "fpath list"
  oc_schedule :: "nat list"

type_synonym opt_state = "fsys \<times> opt_ctx"

text \<open>What does not change in a run: the digest, the physical store directory, the process, the platform.\<close>

record 'c opt_env =
  oe_sha :: "'c sha256_api"
  oe_realStoreDir :: fpath
  oe_pid :: nat
  oe_can_link_symlink :: bool

definition linksDir :: "'c opt_env \<Rightarrow> fpath" where
  "linksDir env = oe_realStoreDir env @ [''.links'']"

definition opt_ctx_new :: "nat set \<Rightarrow> 32 word \<Rightarrow> nat list \<Rightarrow> opt_ctx" where
  "opt_ctx_new inodeHash counter sched = \<lparr> oc_inodeHash = inodeHash, oc_fileHashes = None, oc_fileHashesBase = 0,
     oc_visited = 0, oc_filesLinked = 0, oc_bytesFreed = 0, oc_tmpCounter = counter, oc_toggled = False,
     oc_tasks = [], oc_schedule = sched \<rparr>"

subsection \<open>Operations\<close>

definition S_IWUSR :: "32 word" where
  "S_IWUSR = 0x80"

definition makeWritable :: "fpath \<Rightarrow> (fsys, unit) M" where
  "makeWritable path = bindM (lstat path) (\<lambda>st.
     if ps_mode st AND S_IWUSR = 0 then fs_chmod path (ps_mode st OR S_IWUSR) else ret ())"

text \<open>A destructor: what it throws is only printed.\<close>

definition swallow :: "('s, unit) M \<Rightarrow> ('s, unit) M" where
  "swallow m = (\<lambda>s. (Inr (), snd (m s)))"

definition MakeReadOnly :: "fpath \<Rightarrow> (fsys, unit) M" where
  "MakeReadOnly path = swallow (canonicaliseTimestampAndPermissions path)"

text \<open>\<open>readdir\<close> gives the two entries of every directory as well.\<close>

definition ino_at :: "fsys \<Rightarrow> fpath \<Rightarrow> nat" where
  "ino_at s p = (case dent s p of None \<Rightarrow> 0 | Some i \<Rightarrow> i)"

definition read_dirents :: "string \<Rightarrow> fpath \<Rightarrow> (fsys, (string \<times> nat \<times> file_type) list) M" where
  "read_dirents msg p = bindM (sysE msg (sys_readdir p)) (\<lambda>es.
     getS (\<lambda>s. (''.'', ino_at s p, tDirectory) # (''..'', ino_at s (butlast p), tDirectory) # es))"

definition loadInodeHash :: "'c opt_env \<Rightarrow> (fsys \<times> nat set, unit) M" where
  "loadInodeHash env = bindM (onL (read_dirents ''opening directory %1%'' (linksDir env)))
     (forM (\<lambda>(name, ino, ty). seqM (onL fs_checkInterrupt) (onR (modS (insert ino)))))"

text \<open>The entries of a directory that are not linked yet, and whether each is a directory.\<close>

definition keep_dirent :: "nat set \<Rightarrow> string \<times> nat \<times> file_type \<Rightarrow> bool" where
  "keep_dirent inodeHash = (\<lambda>(name, ino, ty). ino \<notin> inodeHash \<and> name \<noteq> ''.'' \<and> name \<noteq> ''..'')"

definition readDirectoryIgnoringInodes :: "nat set \<Rightarrow> fpath \<Rightarrow> (fsys, (string \<times> bool) list) M" where
  "readDirectoryIgnoringInodes inodeHash path = bindM (read_dirents ''opening directory %s'' path) (\<lambda>es.
     seqM (forM (\<lambda>_. fs_checkInterrupt) es)
       (ret (map (\<lambda>(name, ino, ty). (name, ty = tDirectory)) (filter (keep_dirent inodeHash) es))))"

text \<open>The hash of a file or link, as its restore captured it or from the disk.\<close>

definition native :: "fpath \<Rightarrow> string" where
  "native p = concat (map (\<lambda>c. CHR ''/'' # c) p)"

definition node_fso :: "inode \<Rightarrow> fso" where
  "node_fso n = (if in_type n = tSymlink then Symlink (in_data n) else Regular (in_mode n AND 0x40 \<noteq> 0) (in_data n))"

definition hash_on_disk :: "'c opt_env \<Rightarrow> fpath \<Rightarrow> (fsys, Hash) M" where
  "hash_on_disk env path = bindM (sysE ''opening file %1%'' (read_inode path)) (\<lambda>n.
     bindM (liftE (hashPath (oe_sha env) (memory_accessor (Some (node_fso n))) cp_root)) (\<lambda>(h, _). ret h))"

definition captured_hash :: "opt_ctx \<Rightarrow> fpath \<Rightarrow> PosixStat \<Rightarrow> Hash option" where
  "captured_hash cx path st =
     (case oc_fileHashes cx of
        None \<Rightarrow> None
      | Some files \<Rightarrow>
          if ps_mtime st = mtimeStore
          then let rel = drop (oc_fileHashesBase cx) (native path) in files (if rel = [] then ''/'' else rel)
          else None)"

definition optimise_hash :: "'c opt_env \<Rightarrow> fpath \<Rightarrow> PosixStat \<Rightarrow> (opt_state, Hash) M" where
  "optimise_hash env path st = bindM (getS (\<lambda>(_, cx). captured_hash cx path st)) (\<lambda>h.
     case h of Some h \<Rightarrow> ret h | None \<Rightarrow> onL (hash_on_disk env path))"

text \<open>The link of that hash, without one of another size; then a new link, unless there is one: \<open>None\<close> is a return.\<close>

definition find_link :: "fpath \<Rightarrow> PosixStat \<Rightarrow> (fsys, PosixStat option) M" where
  "find_link linkPath st = bindM (maybeLstat linkPath) (\<lambda>stLink.
     case stLink of
       None \<Rightarrow> ret None
     | Some l \<Rightarrow>
         if ps_size st \<noteq> ps_size l then seqM (unlinkIfExists linkPath) (ret None) else ret (Some l))"

definition publish_link :: "fpath \<Rightarrow> fpath \<Rightarrow> PosixStat \<Rightarrow> (opt_state, PosixStat option) M" where
  "publish_link path linkPath st = bindM (onL (sysR (sys_link path linkPath))) (\<lambda>r.
     case r of
       Inr _ \<Rightarrow> seqM (onR (modS (\<lambda>c. c\<lparr>oc_inodeHash := insert (ps_ino st) (oc_inodeHash c)\<rparr>))) (ret None)
     | Inl e \<Rightarrow>
         if e = EEXIST then onL (maybeLstat linkPath)
         else if e = ENOSPC then ret None
         else throw (SysError e ''creating hard link from %1% to %2%''))"

text \<open>The swap by a temporary link in the store directory.\<close>

definition temp_link :: "'c opt_env \<Rightarrow> 32 word \<Rightarrow> fpath" where
  "temp_link env n = oe_realStoreDir env @ [''.tmp-link-'' @ digits10 (oe_pid env) @ ''-'' @ digits10 (unat n)]"

definition swap_link :: "'c opt_env \<Rightarrow> fpath \<Rightarrow> fpath \<Rightarrow> PosixStat \<Rightarrow> (opt_state, unit) M" where
  "swap_link env path linkPath st =
     bindM (getS (\<lambda>(_, c). temp_link env (oc_tmpCounter c))) (\<lambda>tempLink.
     seqM (onR (modS (\<lambda>c. c\<lparr>oc_tmpCounter := oc_tmpCounter c + 1\<rparr>)))
       (bindM (onL (sysR (sys_link linkPath tempLink))) (\<lambda>r.
          case r of
            Inl e \<Rightarrow> if e = EMLINK \<or> e = ENOENT then ret () else throw (SysError e ''creating hard link from %1% to %2%'')
          | Inr _ \<Rightarrow>
              bindM (onL (sysR (sys_rename tempLink path))) (\<lambda>r.
                case r of
                  Inl e \<Rightarrow> seqM (onL (swallow (fs_remove tempLink)))
                             (if e = EMLINK then ret () else throw (SysError e ''renaming %1% to %2%''))
                | Inr _ \<Rightarrow> onR (modS (\<lambda>c. c\<lparr>oc_filesLinked := oc_filesLinked c + 1,
                    oc_bytesFreed := (if ps_type st = tRegular then oc_bytesFreed c + word_of_nat (ps_size st)
                                      else oc_bytesFreed c)\<rparr>))))))"

text \<open>The parent is made writable: once for all files of a directory, or for this swap only.\<close>

definition writable_parent :: "'c opt_env \<Rightarrow> bool \<Rightarrow> fpath \<Rightarrow> (opt_state, unit) M \<Rightarrow> (opt_state, unit) M" where
  "writable_parent env parentToggled path swap =
     (if parentToggled then
        seqM (bindM (getS (\<lambda>(_, c). oc_toggled c)) (\<lambda>b.
                if b then ret ()
                else seqM (onL (makeWritable (butlast path))) (onR (modS (\<lambda>c. c\<lparr>oc_toggled := True\<rparr>)))))
          swap
      else if butlast path \<noteq> oe_realStoreDir env then
        seqM (onL (makeWritable (butlast path))) (finallyM swap (onL (MakeReadOnly (butlast path))))
      else swap)"

definition link_file :: "'c opt_env \<Rightarrow> bool \<Rightarrow> fpath \<Rightarrow> fpath \<Rightarrow> PosixStat \<Rightarrow> (opt_state, unit) M" where
  "link_file env parentToggled path linkPath st =
     bindM (onL (find_link linkPath st)) (\<lambda>stLink.
     bindM (if stLink = None then publish_link path linkPath st else ret stLink) (\<lambda>stLink.
       case stLink of
         None \<Rightarrow> ret ()
       | Some l \<Rightarrow>
           if ps_ino st = ps_ino l then ret ()
           else writable_parent env parentToggled path (swap_link env path linkPath st)))"

text \<open>\<open>optimisePath_\<close> for what is no directory.\<close>

definition optimise_file :: "'c opt_env \<Rightarrow> bool \<Rightarrow> fpath \<Rightarrow> PosixStat \<Rightarrow> (opt_state, unit) M" where
  "optimise_file env parentToggled path st =
     (if ps_type st \<noteq> tRegular \<and> \<not> (oe_can_link_symlink env \<and> ps_type st = tSymlink) then ret ()
      else seqM (onR (modS (\<lambda>c. c\<lparr>oc_visited := oc_visited c + 1\<rparr>)))
        (bindM (getS (\<lambda>(_, c). ps_ino st \<in> oc_inodeHash c)) (\<lambda>known.
           if ps_type st = tRegular \<and> ps_mode st AND S_IWUSR \<noteq> 0 then ret ()
           else if ps_type st = tRegular \<and> ps_size st = 0 then ret ()
           else if 1 < ps_nlink st \<and> known then ret ()
           else bindM (optimise_hash env path st) (\<lambda>h.
             bindM (liftE (hash_to_string h Nix32 False)) (\<lambda>hashStr.
               link_file env parentToggled path (linksDir env @ [hashStr]) st)))))"

text \<open>A frame of a directory has its own flag; its mode is restored when the frame is left.\<close>

definition toggle_frame :: "fpath \<Rightarrow> (opt_state, unit) M \<Rightarrow> (opt_state, unit) M" where
  "toggle_frame path m =
     bindM (getS (\<lambda>(_, c). oc_toggled c)) (\<lambda>outer.
       seqM (onR (modS (\<lambda>c. c\<lparr>oc_toggled := False\<rparr>)))
         (finallyM m
           (bindM (getS (\<lambda>(_, c). oc_toggled c)) (\<lambda>toggled.
             seqM (if toggled then onL (swallow (canonicaliseTimestampAndPermissions path)) else ret ())
               (onR (modS (\<lambda>c. c\<lparr>oc_toggled := outer\<rparr>)))))))"

text \<open>A subdirectory is a task when there is a pool; any other entry is walked with this frame's flag.\<close>

definition walk_child :: "bool \<Rightarrow> fpath \<Rightarrow> (fpath \<Rightarrow> (opt_state, unit) M) \<Rightarrow> string \<times> bool \<Rightarrow> (opt_state, unit) M" where
  "walk_child pool path walk = (\<lambda>(name, isDir).
     if pool \<and> isDir then onR (modS (\<lambda>c. c\<lparr>oc_tasks := oc_tasks c @ [path @ [name]]\<rparr>))
     else walk (path @ [name]))"

definition walk_directory :: "bool \<Rightarrow> fpath \<Rightarrow> (fpath \<Rightarrow> (opt_state, unit) M) \<Rightarrow> (opt_state, unit) M" where
  "walk_directory pool path walk =
     bindM (getS (\<lambda>(_, c). oc_inodeHash c)) (\<lambda>inodeHash.
     bindM (onL (readDirectoryIgnoringInodes inodeHash path)) (\<lambda>names.
       toggle_frame path (forM (walk_child pool path walk) names)))"

fun optimisePath0 :: "nat \<Rightarrow> 'c opt_env \<Rightarrow> bool \<Rightarrow> bool \<Rightarrow> fpath \<Rightarrow> (opt_state, unit) M" where
  "optimisePath0 0 env pool parentToggled path = throw Diverge"
| "optimisePath0 (Suc fuel) env pool parentToggled path =
     seqM (onL fs_checkInterrupt)
       (bindM (onL (lstat path)) (\<lambda>st.
          if ps_type st = tDirectory then walk_directory pool path (\<lambda>child. optimisePath0 fuel env pool True child)
          else optimise_file env parentToggled path st))"

text \<open>\<open>ThreadPool::process\<close>: the tasks that are there and those they add, in the order of the schedule.\<close>

definition next_task :: "opt_ctx \<Rightarrow> nat" where
  "next_task c = (case oc_schedule c of [] \<Rightarrow> 0 | k # _ \<Rightarrow> k mod length (oc_tasks c))"

definition take_task :: "opt_ctx \<Rightarrow> opt_ctx" where
  "take_task c = c\<lparr>oc_tasks := take (next_task c) (oc_tasks c) @ drop (Suc (next_task c)) (oc_tasks c),
     oc_schedule := tl (oc_schedule c)\<rparr>"

fun process_tasks :: "nat \<Rightarrow> (fpath \<Rightarrow> (opt_state, unit) M) \<Rightarrow> (opt_state, unit) M" where
  "process_tasks 0 run = throw Diverge"
| "process_tasks (Suc fuel) run =
     bindM (getS (\<lambda>(_, c). if oc_tasks c = [] then None else Some (oc_tasks c ! next_task c))) (\<lambda>task.
       case task of
         None \<Rightarrow> ret ()
       | Some path \<Rightarrow> seqM (onR (modS take_task)) (seqM (run path) (process_tasks fuel run)))"

text \<open>More tasks than there are entries there are not.\<close>

definition task_fuel :: "fsys \<Rightarrow> nat" where
  "task_fuel s = Suc (Suc (length (fs_dents s)))"

record OptimiseStats =
  os_filesLinked :: "64 word"
  os_bytesFreed :: "64 word"
  os_filesVisited :: "64 word"

definition ctx_into :: "opt_ctx \<Rightarrow> OptimiseStats \<Rightarrow> OptimiseStats" where
  "ctx_into c stats = \<lparr> os_filesLinked = os_filesLinked stats + oc_filesLinked c,
     os_bytesFreed = os_bytesFreed stats + oc_bytesFreed c, os_filesVisited = os_filesVisited stats + oc_visited c \<rparr>"

text \<open>The pass over one fresh path, with the hashes of its restore; \<open>isValidPath\<close> is asked first.\<close>

definition optimise_pass :: "'c opt_env \<Rightarrow> (string \<rightharpoonup> Hash) option \<Rightarrow> 32 word \<Rightarrow> nat list \<Rightarrow> fpath \<Rightarrow>
    (fsys, opt_ctx) M" where
  "optimise_pass env fileHashes counter sched realPath s =
     (case loadInodeHash env (s, {}) of
        (Inl e, (s, _)) \<Rightarrow> (Inl e, s)
      | (Inr _, (s, inodeHash)) \<Rightarrow>
          let cx = (opt_ctx_new inodeHash counter sched)
                \<lparr>oc_fileHashes := fileHashes, oc_fileHashesBase := length (native realPath)\<rparr> in
          (case seqM (optimisePath0 (tree_fuel s) env True False realPath)
                  (process_tasks (task_fuel s) (optimisePath0 (tree_fuel s) env True False)) (s, cx) of
             (Inl e, (s, _)) \<Rightarrow> (Inl e, s)
           | (Inr _, (s, cx)) \<Rightarrow> (Inr cx, s)))"

definition optimisePath :: "'c opt_env \<Rightarrow> string \<Rightarrow> (string \<rightharpoonup> Hash) option \<Rightarrow> 32 word \<Rightarrow> nat list \<Rightarrow> StorePath \<Rightarrow>
    OptimiseStats \<Rightarrow> (store_db \<times> fsys, OptimiseStats) M" where
  "optimisePath env storeDir fileHashes counter sched path stats =
     bindM (onL (isValidPath storeDir path)) (\<lambda>valid.
       if \<not> valid then ret stats
       else bindM (onR (optimise_pass env fileHashes counter sched (oe_realStoreDir env @ [sp_to_string path])))
              (\<lambda>cx. ret (ctx_into cx stats)))"

text \<open>The pass over the whole store: a task for each valid path, its walk without a pool.\<close>

definition enqueue_valid :: "'c opt_env \<Rightarrow> string \<Rightarrow> StorePath \<Rightarrow> (store_db \<times> opt_state, unit) M" where
  "enqueue_valid env storeDir i = bindM (onL (isValidPath storeDir i)) (\<lambda>valid.
     if \<not> valid then ret ()
     else onR (onR (modS (\<lambda>c. c\<lparr>oc_tasks := oc_tasks c @ [oe_realStoreDir env @ [sp_to_string i]]\<rparr>))))"

definition optimiseStore :: "'c opt_env \<Rightarrow> string \<Rightarrow> 32 word \<Rightarrow> nat list \<Rightarrow> OptimiseStats \<Rightarrow>
    (store_db \<times> fsys, OptimiseStats) M" where
  "optimiseStore env storeDir counter sched stats =
     bindM (onL (queryAllValidPaths storeDir)) (\<lambda>paths.
     bindM (onR (\<lambda>s. case loadInodeHash env (s, {}) of (Inl e, (s, _)) \<Rightarrow> (Inl e, s) | (Inr _, (s, h)) \<Rightarrow> (Inr h, s))) (\<lambda>inodeHash.
       (\<lambda>(db, s). case
           seqM (forM (enqueue_valid env storeDir) paths)
             (onR (process_tasks (Suc (length paths)) (optimisePath0 (tree_fuel s) env False False)))
             (db, (s, opt_ctx_new inodeHash counter sched)) of
           (Inl e, (db, (s, _))) \<Rightarrow> (Inl e, (db, s))
         | (Inr _, (db, (s, cx))) \<Rightarrow> (Inr (ctx_into cx stats), (db, s)))))"

text \<open>The pass over any path, without stats, when the store is set to optimise as it goes.\<close>

definition auto_optimisePath :: "'c opt_env \<Rightarrow> bool \<Rightarrow> 32 word \<Rightarrow> fpath \<Rightarrow> (fsys, unit) M" where
  "auto_optimisePath env autoOptimiseStore counter path s =
     (if \<not> autoOptimiseStore then (Inr (), s)
      else case optimisePath0 (tree_fuel s) env False False path (s, opt_ctx_new {} counter []) of (r, (s, _)) \<Rightarrow> (r, s))"

subsection \<open>What a pass may do\<close>

text \<open>The files and links that can be farmed, their hash and the name of their link.\<close>

definition leaf :: "inode \<Rightarrow> bool" where
  "leaf n \<longleftrightarrow> in_type n = tRegular \<or> in_type n = tSymlink"

definition node_hash :: "'c opt_env \<Rightarrow> inode \<Rightarrow> Hash" where
  "node_hash env n = hashString (oe_sha env) (nar (node_fso n))"

definition link_name :: "'c opt_env \<Rightarrow> inode \<Rightarrow> string" where
  "link_name env n = (case hash_to_string (node_hash env n) Nix32 False of Inr s \<Rightarrow> s | Inl _ \<Rightarrow> [])"

definition farm_path :: "'c opt_env \<Rightarrow> inode \<Rightarrow> fpath" where
  "farm_path env n = linksDir env @ [link_name env n]"

text \<open>What the farm has under the name of a file is a file with that name.\<close>

definition farm_ok :: "'c opt_env \<Rightarrow> fsys \<Rightarrow> bool" where
  "farm_ok env s \<longleftrightarrow> (\<forall>i j. i < fs_next s \<and> leaf (fs_inodes s i) \<and> dent s (farm_path env (fs_inodes s i)) = Some j \<longrightarrow>
     leaf (fs_inodes s j) \<and> link_name env (fs_inodes s j) = link_name env (fs_inodes s i))"

definition no_collision :: "'c opt_env \<Rightarrow> fsys \<Rightarrow> bool" where
  "no_collision env s \<longleftrightarrow> (\<forall>i j. i < fs_next s \<and> j < fs_next s \<and> leaf (fs_inodes s i) \<and> leaf (fs_inodes s j) \<and>
     link_name env (fs_inodes s i) = link_name env (fs_inodes s j) \<longrightarrow> node_fso (fs_inodes s i) = node_fso (fs_inodes s j))"

definition nar_sized :: "fsys \<Rightarrow> bool" where
  "nar_sized s \<longleftrightarrow> (\<forall>i. i < fs_next s \<and> leaf (fs_inodes s i) \<longrightarrow> nar_ok 0 (node_fso (fs_inodes s i)))"

definition opt_ok :: "'c opt_env \<Rightarrow> fsys \<Rightarrow> bool" where
  "opt_ok env s \<longleftrightarrow> sha256_ok (oe_sha env) \<and> fs_ok s \<and> is_dir s (oe_realStoreDir env) \<and> is_dir s (linksDir env) \<and>
     farm_ok env s \<and> no_collision env s \<and> nar_sized s"

text \<open>The names that the optimiser makes for itself.\<close>

definition aux_name :: "'c opt_env \<Rightarrow> fpath \<Rightarrow> bool" where
  "aux_name env q \<longleftrightarrow> (\<exists>n. q = linksDir env @ [n]) \<or> (\<exists>c. q = temp_link env c)"

text \<open>What is at a path: its type, and the contents of a file with the executable bit.\<close>

definition content :: "fsys \<Rightarrow> fpath \<Rightarrow> (file_type \<times> fso option) option" where
  "content s q = map_option (\<lambda>i. let n = fs_inodes s i in (in_type n, if leaf n then Some (node_fso n) else None)) (dent s q)"

text \<open>All paths keep their contents; only those in \<open>A\<close> may get another inode.\<close>

definition opt_step :: "'c opt_env \<Rightarrow> fpath set \<Rightarrow> fsys \<Rightarrow> fsys \<Rightarrow> bool" where
  "opt_step env A s t \<longleftrightarrow> frozen s t \<and> opt_ok env t \<and>
     (\<forall>q. \<not> aux_name env q \<longrightarrow> content t q = content s q \<and> (q \<notin> A \<longrightarrow> dent t q = dent s q))"

definition same_run :: "opt_ctx \<Rightarrow> opt_ctx \<Rightarrow> bool" where
  "same_run c c' \<longleftrightarrow> oc_fileHashes c' = oc_fileHashes c \<and> oc_fileHashesBase c' = oc_fileHashesBase c \<and>
     oc_tasks c' = oc_tasks c \<and> oc_schedule c' = oc_schedule c"

definition sys_exn :: "exn \<Rightarrow> bool" where
  "sys_exn e \<longleftrightarrow> (\<exists>n m. e = SysError n m) \<or> (\<exists>m. e = Interrupted m)"

lemma sys_exn_simps [simp]: "sys_exn (SysError n m)" "sys_exn (Interrupted m)"
  by (simp_all add: sys_exn_def)

lemma same_run_refl [simp]: "same_run c c"
  by (simp add: same_run_def)

lemma same_run_trans: "same_run c d \<Longrightarrow> same_run d e \<Longrightarrow> same_run c e"
  by (simp add: same_run_def)

lemma same_run_updates [simp]:
  "same_run c (c\<lparr>oc_inodeHash := x\<rparr>)" "same_run c (c\<lparr>oc_visited := y\<rparr>)" "same_run c (c\<lparr>oc_tmpCounter := z\<rparr>)"
  "same_run c (c\<lparr>oc_toggled := b\<rparr>)" "same_run c (c\<lparr>oc_filesLinked := y, oc_bytesFreed := v\<rparr>)"
  by (simp_all add: same_run_def)

lemma wp_swallow [wps]: "wp (swallow m) Q E = wp m (\<lambda>_. Q ()) (\<lambda>_. Q ())"
  by (simp add: wp_def swallow_def fun_eq_iff split: prod.split sum.split)

lemma frozen_leaf: "frozen s t \<Longrightarrow> leaf (fs_inodes t i) = leaf (fs_inodes s i)"
  by (simp add: frozen_def leaf_def)

lemma frozen_leaf_inode: "frozen s t \<Longrightarrow> leaf (fs_inodes s i) \<Longrightarrow> fs_inodes t i = fs_inodes s i"
  by (auto simp: frozen_def leaf_def)

lemma frozen_content: "frozen s t \<Longrightarrow> dent t q = dent s q \<Longrightarrow> content t q = content s q"
  by (cases "dent s q") (auto simp: content_def Let_def frozen_leaf frozen_leaf_inode, auto simp: frozen_def)

lemma content_is_dir: "content t q = content s q \<Longrightarrow> is_dir t q = is_dir s q"
  by (cases "dent s q"; cases "dent t q") (auto simp: content_def is_dir_def Let_def)

lemma not_aux_dirs: "\<not> aux_name env (oe_realStoreDir env)" "\<not> aux_name env (linksDir env)"
  by (auto simp: aux_name_def linksDir_def temp_link_def)

lemma farm_not_temp: "linksDir env @ [n] \<noteq> temp_link env c"
  by (simp add: linksDir_def temp_link_def)

lemma opt_stepI:
  assumes ok: "opt_ok env s" and t: "frozen s t" "fs_ok t" "farm_ok env t"
    and q: "\<And>q. \<not> aux_name env q \<Longrightarrow> content t q = content s q \<and> (q \<notin> A \<longrightarrow> dent t q = dent s q)"
  shows "opt_step env A s t"
proof -
  have n: "fs_next t = fs_next s" using t(1) by (simp add: frozen_def)
  note same = frozen_leaf [OF t(1)] frozen_leaf_inode [OF t(1)]
  have c: "no_collision env s" "nar_sized s" using ok by (simp_all add: opt_ok_def)
  have "no_collision env t"
    unfolding no_collision_def
  proof (intro allI impI, elim conjE)
    fix i j assume "i < fs_next t" "j < fs_next t" "leaf (fs_inodes t i)" "leaf (fs_inodes t j)"
      "link_name env (fs_inodes t i) = link_name env (fs_inodes t j)"
    then show "node_fso (fs_inodes t i) = node_fso (fs_inodes t j)"
      using c(1) same(1) same(2) [of i] same(2) [of j] unfolding no_collision_def n by metis
  qed
  moreover have "nar_sized t"
    unfolding nar_sized_def
  proof (intro allI impI, elim conjE)
    fix i assume "i < fs_next t" "leaf (fs_inodes t i)"
    then show "nar_ok 0 (node_fso (fs_inodes t i))"
      using c(2) same(1) same(2) [of i] unfolding nar_sized_def n by metis
  qed
  moreover have "is_dir t (oe_realStoreDir env)" "is_dir t (linksDir env)"
    using ok content_is_dir [OF conjunct1 [OF q [OF not_aux_dirs(1)]]] content_is_dir [OF conjunct1 [OF q [OF not_aux_dirs(2)]]]
    by (simp_all add: opt_ok_def)
  ultimately show ?thesis using ok t q by (simp add: opt_step_def opt_ok_def)
qed

lemma opt_step_refl: "opt_ok env s \<Longrightarrow> opt_step env A s s"
  by (simp add: opt_step_def)

lemma opt_step_mono: "opt_step env A s t \<Longrightarrow> A \<subseteq> B \<Longrightarrow> opt_step env B s t"
  by (auto simp: opt_step_def)

lemma opt_step_trans: "opt_step env A s t \<Longrightarrow> opt_step env B t u \<Longrightarrow> A \<subseteq> C \<Longrightarrow> B \<subseteq> C \<Longrightarrow> opt_step env C s u"
proof -
  assume st: "opt_step env A s t" and tu: "opt_step env B t u" and AB: "A \<subseteq> C" "B \<subseteq> C"
  have "frozen s u" using st tu frozen_trans by (simp add: opt_step_def) blast
  moreover have "opt_ok env u" using tu by (simp add: opt_step_def)
  moreover have "content u q = content s q \<and> (q \<notin> C \<longrightarrow> dent u q = dent s q)" if "\<not> aux_name env q" for q
  proof -
    have "content t q = content s q" "q \<notin> A \<longrightarrow> dent t q = dent s q" using st that by (simp_all add: opt_step_def)
    moreover have "content u q = content t q" "q \<notin> B \<longrightarrow> dent u q = dent t q" using tu that by (simp_all add: opt_step_def)
    moreover have "q \<notin> C \<longrightarrow> q \<notin> A \<and> q \<notin> B" using AB by blast
    ultimately show ?thesis by simp
  qed
  ultimately show "opt_step env C s u" by (simp add: opt_step_def)
qed

lemma farm_ok_cong:
  assumes "farm_ok env s" "frozen s t" "\<And>n. dent t (linksDir env @ [n]) = dent s (linksDir env @ [n])"
  shows "farm_ok env t"
  unfolding farm_ok_def
proof (intro allI impI, elim conjE)
  fix i j assume i: "i < fs_next t" "leaf (fs_inodes t i)" and j: "dent t (farm_path env (fs_inodes t i)) = Some j"
  note same = frozen_leaf [OF assms(2)] frozen_leaf_inode [OF assms(2)]
  have l: "leaf (fs_inodes s i)" using i(2) same(1) by simp
  have "dent s (farm_path env (fs_inodes s i)) = Some j" using j assms(3) same(2) [OF l] by (simp add: farm_path_def)
  moreover have "i < fs_next s" using i(1) assms(2) by (simp add: frozen_def)
  ultimately have "leaf (fs_inodes s j) \<and> link_name env (fs_inodes s j) = link_name env (fs_inodes s i)"
    using assms(1) l by (simp add: farm_ok_def)
  then show "leaf (fs_inodes t j) \<and> link_name env (fs_inodes t j) = link_name env (fs_inodes t i)"
    using same(1) [of j] same(2) [of j] same(2) [OF l] by simp
qed

text \<open>Modes and times of directories.\<close>

lemma opt_step_dents:
  assumes "opt_ok env s" "frozen s t" "fs_dents t = fs_dents s"
  shows "opt_step env A s t"
proof (rule opt_stepI [OF assms(1,2)])
  have d: "dent t q = dent s q" for q using assms(3) by (simp add: dent_def)
  have ok: "fs_ok s" "farm_ok env s" using assms(1) by (simp_all add: opt_ok_def)
  show "fs_ok t" by (rule frozen_ok [OF ok(1) assms(2,3)])
  show "farm_ok env t" by (rule farm_ok_cong [OF ok(2) assms(2) d])
  show "content t q = content s q \<and> (q \<notin> A \<longrightarrow> dent t q = dent s q)" for q
    using frozen_content [OF assms(2)] d by simp
qed

lemma opt_step_same: "opt_ok env s \<Longrightarrow> same_fs s t \<Longrightarrow> opt_step env A s t"
  by (rule opt_step_dents [OF _ same_fs_frozen]) (simp_all add: same_fs_def)

lemma opt_step_ok: "opt_step env A s t \<Longrightarrow> opt_ok env t"
  by (simp add: opt_step_def)

lemma link_name_string: "opt_ok env s \<Longrightarrow> hash_to_string (node_hash env n) Nix32 False = Inr (link_name env n)"
proof -
  assume "opt_ok env s"
  then have "hashSize (node_hash env n) = 32"
    using hashString_sha256 [of "oe_sha env"] by (simp add: opt_ok_def node_hash_def sha256_hash_def)
  then show ?thesis by (simp add: link_name_def hash_to_string_def Let_def)
qed

lemma not_aux_ne: "\<not> aux_name env p \<Longrightarrow> p \<noteq> linksDir env @ [n] \<and> p \<noteq> temp_link env c"
  by (auto simp: aux_name_def)

lemma aux_names [simp]: "aux_name env (linksDir env @ [n])" "aux_name env (temp_link env c)" "aux_name env (farm_path env x)"
  by (auto simp: aux_name_def farm_path_def)

text \<open>A link that is removed from the farm, and one that is made there.\<close>

lemma opt_step_farm_removed:
  assumes ok: "opt_ok env s" and t: "frozen s t" "fs_dents t = filter (\<lambda>(x, _). x \<noteq> p) (fs_dents s)"
    and p: "aux_name env p" "dent s p = Some i" "in_type (fs_inodes s i) \<noteq> tDirectory"
  shows "opt_step env {} s t"
proof (rule opt_stepI [OF ok t(1)])
  have fs: "fs_ok s" "farm_ok env s" using ok by (simp_all add: opt_ok_def)
  show "fs_ok t" by (rule fs_ok_unlink [OF fs(1) t(2,1) p(2,3)])
  note d = dent_unlink [OF t(2)]
  show "farm_ok env t"
    unfolding farm_ok_def
  proof (intro allI impI, elim conjE)
    fix k j assume k: "k < fs_next t" "leaf (fs_inodes t k)" and j: "dent t (farm_path env (fs_inodes t k)) = Some j"
    note same = frozen_leaf [OF t(1)] frozen_leaf_inode [OF t(1)]
    have l: "leaf (fs_inodes s k)" using k(2) same(1) by simp
    have "dent s (farm_path env (fs_inodes s k)) = Some j" using j d same(2) [OF l] by (simp split: if_splits)
    moreover have "k < fs_next s" using k(1) t(1) by (simp add: frozen_def)
    ultimately have "leaf (fs_inodes s j) \<and> link_name env (fs_inodes s j) = link_name env (fs_inodes s k)"
      using fs(2) l by (simp add: farm_ok_def)
    then show "leaf (fs_inodes t j) \<and> link_name env (fs_inodes t j) = link_name env (fs_inodes t k)"
      using same(1) [of j] same(2) [of j] same(2) [OF l] by simp
  qed
  show "content t q = content s q \<and> (q \<notin> {} \<longrightarrow> dent t q = dent s q)" if "\<not> aux_name env q" for q
  proof -
    have "dent t q = dent s q" using d that p(1) by auto
    with frozen_content [OF t(1)] show ?thesis by simp
  qed
qed

lemma opt_step_linked:
  assumes ok: "opt_ok env s" and t: "frozen s t" "fs_dents t = fs_dents s @ [(new, i)]"
    and new: "aux_name env new" "dent s new = None" "is_dir s (butlast new)"
    and old: "dent s old = Some i" "leaf (fs_inodes s i)"
    and name: "new = farm_path env (fs_inodes s i) \<or> (\<exists>c. new = temp_link env c)"
  shows "opt_step env {} s t"
proof (rule opt_stepI [OF ok t(1)])
  have fs: "fs_ok s" "farm_ok env s" using ok by (simp_all add: opt_ok_def)
  have i: "i < fs_next s" using fs(1) old(1) by (auto simp: fs_ok_def dest!: dent_in)
  show "fs_ok t" by (rule fs_ok_link [OF fs(1) t(2) new(2,3) t(1) i])
  note d = dent_link [OF t(2) new(2)]
  show "farm_ok env t"
    unfolding farm_ok_def
  proof (intro allI impI, elim conjE)
    fix k j assume k: "k < fs_next t" "leaf (fs_inodes t k)" and j: "dent t (farm_path env (fs_inodes t k)) = Some j"
    note same = frozen_leaf [OF t(1)] frozen_leaf_inode [OF t(1)]
    have l: "leaf (fs_inodes s k)" using k(2) same(1) by simp
    have kn: "k < fs_next s" using k(1) t(1) by (simp add: frozen_def)
    have "leaf (fs_inodes s j) \<and> link_name env (fs_inodes s j) = link_name env (fs_inodes s k)"
    proof (cases "farm_path env (fs_inodes s k) = new")
      case True
      then have "link_name env (fs_inodes s k) = link_name env (fs_inodes s i)"
        using name farm_not_temp [of env] by (auto simp: farm_path_def)
      moreover have "j = i" using True j d same(2) [OF l] by simp
      ultimately show ?thesis using old(2) by simp
    next
      case False
      then have "dent s (farm_path env (fs_inodes s k)) = Some j" using j d same(2) [OF l] by simp
      then show ?thesis using fs(2) l kn by (simp add: farm_ok_def)
    qed
    then show "leaf (fs_inodes t j) \<and> link_name env (fs_inodes t j) = link_name env (fs_inodes t k)"
      using same(1) [of j] same(2) [of j] same(2) [OF l] by simp
  qed
  show "content t q = content s q \<and> (q \<notin> {} \<longrightarrow> dent t q = dent s q)" if "\<not> aux_name env q" for q
  proof -
    have "dent t q = dent s q" using d that new(1) by auto
    with frozen_content [OF t(1)] show ?thesis by simp
  qed
qed

text \<open>The hash, on a file that is still as its restore left it, or read again.\<close>

definition captured_ok :: "'c opt_env \<Rightarrow> opt_ctx \<Rightarrow> fsys \<Rightarrow> fpath \<Rightarrow> bool" where
  "captured_ok env c s p \<longleftrightarrow> (\<forall>i h. dent s p = Some i \<and> leaf (fs_inodes s i) \<and> captured_hash c p (stat_of s i) = Some h \<longrightarrow>
     h = node_hash env (fs_inodes s i))"

lemma captured_hash_cong:
  "oc_fileHashes c' = oc_fileHashes c \<Longrightarrow> oc_fileHashesBase c' = oc_fileHashesBase c \<Longrightarrow> ps_mtime st' = ps_mtime st \<Longrightarrow>
   captured_hash c' p st' = captured_hash c p st"
  by (simp add: captured_hash_def Let_def split: option.split)

lemma wp_optimise_hash:
  assumes ok: "opt_ok env s" and i: "dent s p = Some i" "leaf (fs_inodes s i)" and cap: "captured_ok env c s p"
  shows "wp (optimise_hash env p (stat_of s i))
     (\<lambda>h (t, c'). same_fs s t \<and> c' = c \<and> h = node_hash env (fs_inodes s i))
     (\<lambda>e (t, c'). same_fs s t \<and> c' = c \<and> sys_exn e \<and> \<not> fs_quiet s) (s, c)"
proof (cases "captured_hash c p (stat_of s i)")
  case (Some h)
  with cap i show ?thesis by (simp add: optimise_hash_def wps captured_ok_def)
next
  case None
  have "i < fs_next s" using ok i(1) by (auto simp: opt_ok_def fs_ok_def dest!: dent_in)
  then have "nar_ok 0 (node_fso (fs_inodes s i))" "sha256_ok (oe_sha env)"
    using ok i(2) by (simp_all add: opt_ok_def nar_sized_def)
  then have h: "hashPath (oe_sha env) (memory_accessor (Some (node_fso (fs_inodes s i)))) cp_root =
      Inr (node_hash env (fs_inodes s i), word_of_nat (length (nar (node_fso (fs_inodes s i)))))"
    by (simp add: hashPath_nar node_hash_def)
  show ?thesis
    using None i
    by (simp add: optimise_hash_def hash_on_disk_def wps, intro sysP_mono [OF sysP_read_inode])
      (auto simp: wps h split: sum.splits)
qed

lemma wp_find_link:
  assumes ok: "opt_ok env s" and lp: "aux_name env lp"
  shows "wp (find_link lp st)
     (\<lambda>r t. opt_step env {} s t \<and> (\<forall>l. r = Some l \<longrightarrow> same_fs s t \<and> (\<exists>j. dent s lp = Some j \<and> l = stat_of s j)))
     (\<lambda>e t. opt_step env {} s t \<and> sys_exn e) s"
proof -
  have step: "opt_step env {} s t" if "same_fs s t" for t using opt_step_same [OF ok that] .
  have un: "wp (unlinkIfExists lp) (\<lambda>_ t. opt_step env {} s t) (\<lambda>e t. opt_step env {} s t \<and> sys_exn e) t" if t: "same_fs s t" for t
  proof -
    have okt: "opt_ok env t" using step [OF t] by (rule opt_step_ok)
    then have fs: "fs_ok t" by (simp add: opt_ok_def)
    show ?thesis
      unfolding unlinkIfExists_def wp_bindM wp_sysR
    proof (rule sysP_mono [OF sysP_unlink [OF fs]])
      fix r u assume r: "case r of
          Inr _ \<Rightarrow> \<exists>i. dent t lp = Some i \<and> in_type (fs_inodes t i) \<noteq> tDirectory \<and>
            fs_dents u = filter (\<lambda>(x, _). x \<noteq> lp) (fs_dents t) \<and> frozen t u
        | Inl e \<Rightarrow> same_fs t u \<and> (fs_quiet t \<longrightarrow> \<not> (\<exists>i. dent t lp = Some i \<and> in_type (fs_inodes t i) \<noteq> tDirectory) \<and>
            (dent t lp = None \<longrightarrow> e = miss t lp))"
      have "opt_step env {} t u"
        using r opt_step_same [OF okt] opt_step_farm_removed [OF okt _ _ lp] by (auto split: sum.splits)
      then have "opt_step env {} s u" using opt_step_trans [OF step [OF t]] by blast
      then show "wp (case r of Inl e \<Rightarrow> if e \<noteq> ENOENT then throw (SysError e ''removing %s'') else ret () | Inr x \<Rightarrow> ret ())
          (\<lambda>_ t. opt_step env {} s t) (\<lambda>e t. opt_step env {} s t \<and> sys_exn e) u"
        by (auto simp: wps split: sum.split)
    qed
  qed
  show ?thesis
    unfolding find_link_def wp_bindM
  proof (rule wp_mono [OF wp_maybeLstat])
    fix r t assume r: "same_fs s t \<and> (case r of Some st \<Rightarrow> \<exists>i. dent s lp = Some i \<and> st = stat_of s i | None \<Rightarrow> fs_quiet s \<longrightarrow> dent s lp = None)"
    then show "wp (case r of None \<Rightarrow> ret None
         | Some l \<Rightarrow> if ps_size st \<noteq> ps_size l then seqM (unlinkIfExists lp) (ret None) else ret (Some l))
        (\<lambda>r t. opt_step env {} s t \<and> (\<forall>l. r = Some l \<longrightarrow> same_fs s t \<and> (\<exists>j. dent s lp = Some j \<and> l = stat_of s j)))
        (\<lambda>e t. opt_step env {} s t \<and> sys_exn e) t"
      using step un by (auto simp: wps split: option.splits)
  qed (auto simp: step)
qed

lemma leaf_not_dir: "leaf n \<Longrightarrow> in_type n \<noteq> tDirectory"
  by (auto simp: leaf_def)

text \<open>The first file of its hash becomes the link; with a link there, it is the one to take.\<close>

lemma wp_publish_link:
  assumes ok: "opt_ok env s" and i: "dent s p = Some i" "leaf (fs_inodes s i)" and lp: "lp = farm_path env (fs_inodes s i)"
  shows "wp (publish_link p lp st)
     (\<lambda>r (t, c'). opt_step env {} s t \<and> same_run c c' \<and> (\<forall>l. r = Some l \<longrightarrow> same_fs s t \<and> (\<exists>j. dent s lp = Some j \<and> l = stat_of s j)))
     (\<lambda>e (t, c'). opt_step env {} s t \<and> same_run c c' \<and> sys_exn e) (s, c)"
proof -
  have same: "opt_step env {} s t" if "same_fs s t" for t using opt_step_same [OF ok that] .
  have step: "opt_step env {} s t"
    if "\<exists>j. dent s p = Some j \<and> in_type (fs_inodes s j) \<noteq> tDirectory \<and> dent s lp = None \<and> is_dir s (butlast lp) \<and>
      fs_dents t = fs_dents s @ [(lp, j)] \<and> frozen s t" for t
    using that i lp by (intro opt_step_linked [OF ok _ _ _ _ _ i]) auto
  have seen: "wp (maybeLstat lp) (\<lambda>x t. opt_step env {} s t \<and> (\<forall>l. x = Some l \<longrightarrow> same_fs s t \<and> (\<exists>j. dent s lp = Some j \<and> l = stat_of s j)))
      (\<lambda>e t. opt_step env {} s t \<and> sys_exn e) t" if t: "same_fs s t" for t
  proof (rule wp_mono [OF wp_maybeLstat])
    fix x u assume x: "same_fs t u \<and> (case x of Some st \<Rightarrow> \<exists>i. dent t lp = Some i \<and> st = stat_of t i | None \<Rightarrow> fs_quiet t \<longrightarrow> dent t lp = None)"
    then have u: "same_fs s u" using same_fs_trans [OF t] by simp
    from x same [OF u] u show "opt_step env {} s u \<and> (\<forall>l. x = Some l \<longrightarrow> same_fs s u \<and> (\<exists>j. dent s lp = Some j \<and> l = stat_of s j))"
      by (auto simp: same_fs_dent [OF t] same_fs_stat [OF t])
  next
    fix e u assume "same_fs t u \<and> \<not> fs_quiet t \<and> (\<exists>n m. e = SysError n m)"
    then show "opt_step env {} s u \<and> sys_exn e" using same same_fs_trans [OF t] by auto
  qed
  show ?thesis
    unfolding publish_link_def wp_bindM wp_onL wp_sysR
  proof (rule sysP_mono [OF sysP_link])
    fix r t assume r: "case r of
        Inr _ \<Rightarrow> \<exists>i. dent s p = Some i \<and> in_type (fs_inodes s i) \<noteq> tDirectory \<and> dent s lp = None \<and> is_dir s (butlast lp) \<and>
          fs_dents t = fs_dents s @ [(lp, i)] \<and> frozen s t
      | Inl e \<Rightarrow> same_fs s t \<and> (fs_quiet s \<longrightarrow> \<not> (\<exists>i. dent s p = Some i \<and> in_type (fs_inodes s i) \<noteq> tDirectory) \<or>
          dent s lp \<noteq> None \<and> e = EEXIST \<or> \<not> is_dir s (butlast lp))"
    show "wp (case r of
          Inl e \<Rightarrow> if e = EEXIST then onL (maybeLstat lp) else if e = ENOSPC then ret None
                   else throw (SysError e ''creating hard link from %1% to %2%'')
        | Inr x \<Rightarrow> seqM (onR (modS (\<lambda>c. c\<lparr>oc_inodeHash := insert (ps_ino st) (oc_inodeHash c)\<rparr>))) (ret None))
        (\<lambda>r (t, c'). opt_step env {} s t \<and> same_run c c' \<and> (\<forall>l. r = Some l \<longrightarrow> same_fs s t \<and> (\<exists>j. dent s lp = Some j \<and> l = stat_of s j)))
        (\<lambda>e (t, c'). opt_step env {} s t \<and> same_run c c' \<and> sys_exn e) (t, c)"
    proof (cases r)
      case (Inr x)
      with r step show ?thesis by (simp add: wps)
    next
      case (Inl e)
      with r same seen [of t] show ?thesis by (simp add: wps)
    qed
  qed
qed

text \<open>What is left of a temporary link that could not be moved.\<close>

lemma wp_fs_remove_temp:
  assumes ok: "opt_ok env s" and p: "aux_name env p" and d: "\<not> is_dir s p"
  shows "wp (fs_remove p) (\<lambda>_ t. opt_step env {} s t) (\<lambda>_ t. opt_step env {} s t) s"
proof -
  have fs: "fs_ok s" using ok by (simp add: opt_ok_def)
  have "sysP (sys_unlink p) (\<lambda>r t. opt_step env {} s t) s"
    by (rule sysP_mono [OF sysP_unlink [OF fs]])
      (auto intro: opt_step_same [OF ok] opt_step_farm_removed [OF ok _ _ p] split: sum.splits)
  with d show ?thesis by (auto simp: wp_def sysP_def fs_remove_def split: prod.splits sum.splits)
qed

text \<open>The swap: the new link goes to a file of the same contents, so nothing can be seen of it.\<close>

lemma opt_step_renamed:
  assumes ok: "opt_ok env s" and t: "frozen s t" "fs_dents t = renamed tmp p (fs_dents s)"
    and tmp: "tmp = temp_link env n" "dent s tmp = Some j" and p: "\<not> aux_name env p" "dent s p = Some i" "leaf (fs_inodes s i)"
    and same: "leaf (fs_inodes s j)" "node_fso (fs_inodes s j) = node_fso (fs_inodes s i)"
  shows "opt_step env {p} s t"
proof (rule opt_stepI [OF ok t(1)])
  have fs: "fs_ok s" "farm_ok env s" using ok by (simp_all add: opt_ok_def)
  have ne: "tmp \<noteq> p" using p(1) tmp(1) by auto
  have dir: "\<not> is_dir s p" using p(2,3) leaf_not_dir by (auto simp: is_dir_dent)
  have "p \<noteq> []" using p(2) dir fs(1) by (auto simp: fs_ok_def)
  then have par: "is_dir s (butlast p)" using p(2) fs(1) by (auto simp: fs_ok_def dest!: dent_in)
  note d = dent_renamed [OF t(2) ne tmp(2)]
  show "fs_ok t" by (rule fs_ok_renamed [OF fs(1) t(2,1) ne tmp(2) leaf_not_dir [OF same(1)] par dir])
  show "farm_ok env t"
  proof (rule farm_ok_cong [OF fs(2) t(1)])
    fix m
    have "linksDir env @ [m] \<noteq> tmp" using farm_not_temp tmp(1) by metis
    moreover have "linksDir env @ [m] \<noteq> p" using p(1) by auto
    ultimately show "dent t (linksDir env @ [m]) = dent s (linksDir env @ [m])" by (simp add: d)
  qed
  have ty: "in_type (fs_inodes s j) = in_type (fs_inodes s i)"
    using same p(3) by (auto simp: leaf_def node_fso_def split: if_splits)
  show "content t q = content s q \<and> (q \<notin> {p} \<longrightarrow> dent t q = dent s q)" if "\<not> aux_name env q" for q
  proof (cases "q = p")
    case True
    then show ?thesis
      using d [of p] p(2,3) same ty frozen_leaf_inode [OF t(1)] by (simp add: content_def Let_def)
  next
    case False
    moreover have "q \<noteq> tmp" using that tmp(1) by auto
    ultimately have "dent t q = dent s q" by (simp add: d)
    with False frozen_content [OF t(1)] show ?thesis by simp
  qed
qed

lemma wp_swap_link:
  assumes ok: "opt_ok env s" and p: "\<not> aux_name env p" "dent s p = Some i" "leaf (fs_inodes s i)"
    and lp: "lp = farm_path env (fs_inodes s i)"
  shows "wp (swap_link env p lp st)
     (\<lambda>_ (t, c'). opt_step env {p} s t \<and> same_run c c') (\<lambda>e (t, c'). opt_step env {p} s t \<and> same_run c c' \<and> sys_exn e) (s, c)"
proof -
  let ?tmp = "temp_link env (oc_tmpCounter c)"
  let ?c = "c\<lparr>oc_tmpCounter := oc_tmpCounter c + 1\<rparr>"
  let ?Q = "\<lambda>_ (t, c'). opt_step env {p} s t \<and> same_run c c'"
  let ?E = "\<lambda>e (t, c'). opt_step env {p} s t \<and> same_run c c' \<and> sys_exn e"
  have fs: "fs_ok s" "farm_ok env s" "no_collision env s" using ok by (simp_all add: opt_ok_def)
  have less: "k < fs_next s" if "dent s q = Some k" for q k using that fs(1) by (auto simp: fs_ok_def dest!: dent_in)
  have moved: "wp (bindM (onL (sysR (sys_rename ?tmp p))) (\<lambda>r.
                case r of
                  Inl e \<Rightarrow> seqM (onL (swallow (fs_remove ?tmp)))
                             (if e = EMLINK then ret () else throw (SysError e ''renaming %1% to %2%''))
                | Inr _ \<Rightarrow> onR (modS (\<lambda>c. c\<lparr>oc_filesLinked := oc_filesLinked c + 1,
                    oc_bytesFreed := (if ps_type st = tRegular then oc_bytesFreed c + word_of_nat (ps_size st)
                                      else oc_bytesFreed c)\<rparr>)))) ?Q ?E (t, ?c)"
    if j: "dent s lp = Some j" "dent s ?tmp = None" "is_dir s (butlast ?tmp)" "fs_dents t = fs_dents s @ [(?tmp, j)]" "frozen s t" for t j
  proof -
    have lj: "leaf (fs_inodes s j)" "link_name env (fs_inodes s j) = link_name env (fs_inodes s i)"
      using fs(2) less [OF p(2)] p(3) j(1) lp by (simp_all add: farm_ok_def)
    then have same: "node_fso (fs_inodes s j) = node_fso (fs_inodes s i)"
      using fs(3) less [OF p(2)] less [OF j(1)] p(3) unfolding no_collision_def by blast
    have st: "opt_step env {} s t"
      using opt_step_linked [OF ok j(5,4) _ j(2,3) j(1) lj(1)] by auto
    then have okt: "opt_ok env t" by (rule opt_step_ok)
    then have fst: "fs_ok t" by (simp add: opt_ok_def)
    note ino = frozen_leaf_inode [OF j(5)]
    have d: "dent t q = (if q = ?tmp then Some j else dent s q)" for q by (rule dent_link [OF j(4,2)])
    have tmp: "dent t ?tmp = Some j" "leaf (fs_inodes t j)" using d ino [OF lj(1)] lj(1) by simp_all
    have ne: "?tmp \<noteq> p" using p(1) by auto
    have pt: "dent t p = Some i" "leaf (fs_inodes t i)" using d ne p(2,3) ino [OF p(3)] by simp_all
    have nd: "\<not> is_dir t p" using pt leaf_not_dir by (auto simp: is_dir_dent)
    have "p \<noteq> []" using pt nd fst by (auto simp: fs_ok_def)
    then have par: "is_dir t (butlast p)" using pt fst by (auto simp: fs_ok_def dest!: dent_in)
    have ntmp: "\<not> is_dir t ?tmp" using tmp leaf_not_dir by (auto simp: is_dir_dent)
    have same': "node_fso (fs_inodes t j) = node_fso (fs_inodes t i)" using ino [OF lj(1)] ino [OF p(3)] same by simp
    show ?thesis
      unfolding wp_bindM wp_onL wp_sysR
    proof (rule sysP_mono [OF sysP_rename [OF fst tmp(1) leaf_not_dir [OF tmp(2)] par nd ne]])
      fix r :: "errno + unit" and u assume r: "case r of
          Inr _ \<Rightarrow> dent t p = Some j \<and> same_fs t u \<or> dent t p \<noteq> Some j \<and> frozen t u \<and> fs_dents u = renamed ?tmp p (fs_dents t)
        | Inl e \<Rightarrow> same_fs t u \<and> \<not> fs_quiet t"
      have tu: "opt_step env {p} t u"
        using r opt_step_same [OF okt] opt_step_renamed [OF okt _ _ refl tmp(1) p(1) pt tmp(2) same'] by (auto split: sum.splits)
      then have su: "opt_step env {p} s u" using opt_step_trans [OF st] by blast
      have clean: "wp (fs_remove ?tmp) (\<lambda>_ v. opt_step env {p} s v) (\<lambda>_ v. opt_step env {p} s v) u" if "same_fs t u"
      proof -
        have "\<not> is_dir u ?tmp" using ntmp same_fs_is_dir [OF that] by simp
        from wp_fs_remove_temp [OF opt_step_ok [OF tu] _ this]
        show ?thesis by (rule wp_mono) (use opt_step_trans [OF su] in auto)
      qed
      show "wp (case r of
                  Inl e \<Rightarrow> seqM (onL (swallow (fs_remove ?tmp)))
                             (if e = EMLINK then ret () else throw (SysError e ''renaming %1% to %2%''))
                | Inr _ \<Rightarrow> onR (modS (\<lambda>c. c\<lparr>oc_filesLinked := oc_filesLinked c + 1,
                    oc_bytesFreed := (if ps_type st = tRegular then oc_bytesFreed c + word_of_nat (ps_size st)
                                      else oc_bytesFreed c)\<rparr>))) ?Q ?E (u, ?c)"
      proof (cases r)
        case (Inl e)
        with r clean show ?thesis by (auto simp: wps same_run_def elim!: wp_mono)
      next
        case (Inr x)
        with su show ?thesis by (simp add: wps same_run_def)
      qed
    qed
  qed
  have same: "opt_step env {p} s t" if "same_fs s t" for t by (rule opt_step_same [OF ok that])
  show ?thesis
    unfolding swap_link_def wp_bindM wp_seqM wp_basic wp_onR wp_modS prod.case
    unfolding wp_onL wp_sysR
    by (rule sysP_mono [OF sysP_link]) (use moved same in \<open>auto simp: wps same_run_def split: sum.splits\<close>)
qed

subsection \<open>The parent's mode\<close>

lemma wp_fs_chmod_dir:
  assumes "opt_ok env s" "is_dir s d"
  shows "wp (fs_chmod d m) (\<lambda>_ t. opt_step env {} s t) (\<lambda>e t. opt_step env {} s t \<and> sys_exn e) s"
proof -
  have "sysP (sys_chmod d m) (\<lambda>_ t. opt_step env {} s t) s"
    unfolding sys_chmod_def
    by (rule sysP_mono [OF sysP_inode_dir]) (use assms in \<open>auto intro: opt_step_dents\<close>)
  then show ?thesis unfolding fs_chmod_def wp_sys by (rule sysP_mono) (simp split: sum.split)
qed

lemma wp_setWriteTime_dir:
  assumes "opt_ok env s" "is_dir s d"
  shows "wp (setWriteTime d m) (\<lambda>_ t. opt_step env {} s t) (\<lambda>e t. opt_step env {} s t \<and> sys_exn e) s"
proof -
  have "sysP (sys_utimes d m) (\<lambda>_ t. opt_step env {} s t) s"
    unfolding sys_utimes_def
    by (rule sysP_mono [OF sysP_inode_dir]) (use assms in \<open>auto intro: opt_step_dents\<close>)
  then show ?thesis unfolding setWriteTime_def wp_sys by (rule sysP_mono) (simp split: sum.split)
qed

text \<open>Composition: what a second computation may do is one step with what the first did.\<close>

definition safe :: "'c opt_env \<Rightarrow> fpath set \<Rightarrow> fsys \<Rightarrow> (fsys, 'a) M \<Rightarrow> fsys \<Rightarrow> bool" where
  "safe env A s m t \<longleftrightarrow> wp m (\<lambda>_ u. opt_step env A s u) (\<lambda>e u. opt_step env A s u \<and> sys_exn e) t"

lemma safe_after: "opt_step env A s t \<Longrightarrow> safe env B t m t \<Longrightarrow> A \<subseteq> C \<Longrightarrow> B \<subseteq> C \<Longrightarrow> safe env C s m t"
  unfolding safe_def by (erule wp_mono) (auto intro: opt_step_trans)

lemma opt_step_is_dir: "opt_step env A s t \<Longrightarrow> \<not> aux_name env d \<Longrightarrow> is_dir t d = is_dir s d"
  using content_is_dir [of t d s] by (simp add: opt_step_def)

lemma wp_makeWritable:
  assumes ok: "opt_ok env s" and d: "is_dir s d" "\<not> aux_name env d"
  shows "safe env {} s (makeWritable d) s"
  unfolding makeWritable_def safe_def wp_bindM
proof (rule wp_mono [OF wp_lstat])
  fix st t assume t: "same_fs s t \<and> (\<exists>i. dent s d = Some i \<and> st = stat_of s i)"
  then have s: "opt_step env {} s t" using opt_step_same [OF ok] by blast
  have "is_dir t d" using d opt_step_is_dir [OF s] by simp
  then have "safe env {} t (fs_chmod d m) t" for m unfolding safe_def by (rule wp_fs_chmod_dir [OF opt_step_ok [OF s]])
  then have "safe env {} s (fs_chmod d m) t" for m using safe_after [OF s] by blast
  with s show "wp (if ps_mode st AND S_IWUSR = 0 then fs_chmod d (ps_mode st OR S_IWUSR) else ret ())
      (\<lambda>_. opt_step env {} s) (\<lambda>e u. opt_step env {} s u \<and> sys_exn e) t"
    by (simp add: safe_def wps)
qed (use opt_step_same [OF ok] in auto)

lemma wp_canonicaliseTimestampAndPermissions:
  assumes ok: "opt_ok env s" and d: "is_dir s d" "\<not> aux_name env d"
  shows "safe env {} s (canonicaliseTimestampAndPermissions d) s"
  unfolding canonicaliseTimestampAndPermissions_def safe_def wp_bindM
proof (rule wp_mono [OF wp_lstat])
  fix st t assume t: "same_fs s t \<and> (\<exists>i. dent s d = Some i \<and> st = stat_of s i)"
  then have s: "opt_step env {} s t" using opt_step_same [OF ok] by blast
  have time: "safe env {} s (if ps_mtime st \<noteq> mtimeStore then setWriteTime d mtimeStore else ret ()) u" if u: "opt_step env {} s u" for u
  proof -
    have "is_dir u d" using d opt_step_is_dir [OF u] by simp
    then have "safe env {} u (setWriteTime d m) u" for m unfolding safe_def by (rule wp_setWriteTime_dir [OF opt_step_ok [OF u]])
    then have "safe env {} s (setWriteTime d m) u" for m using safe_after [OF u] by blast
    with u show ?thesis by (simp add: safe_def wps)
  qed
  have "is_dir t d" using d opt_step_is_dir [OF s] by simp
  then have "safe env {} t (fs_chmod d m) t" for m unfolding safe_def by (rule wp_fs_chmod_dir [OF opt_step_ok [OF s]])
  then have ch: "safe env {} s (fs_chmod d m) t" for m using safe_after [OF s] by blast
  have "safe env {} s (if ps_type st \<noteq> tSymlink \<and> ps_mode st \<noteq> canon_mode st then fs_chmod d (canon_mode st) else ret ()) t"
    using ch s by (simp add: safe_def wps)
  with time show "wp (canonicaliseTimestampAndPermissions_st d st) (\<lambda>_. opt_step env {} s) (\<lambda>e u. opt_step env {} s u \<and> sys_exn e) t"
    unfolding canonicaliseTimestampAndPermissions_st_def safe_def wp_seqM by (elim wp_mono) auto
qed (use opt_step_same [OF ok] in auto)

subsection \<open>One file\<close>

definition run_safe :: "'c opt_env \<Rightarrow> fpath set \<Rightarrow> fsys \<Rightarrow> opt_ctx \<Rightarrow> (opt_state, 'a) M \<Rightarrow> opt_state \<Rightarrow> bool" where
  "run_safe env A s c m sc \<longleftrightarrow> wp m (\<lambda>_ (t, c'). opt_step env A s t \<and> same_run c c')
     (\<lambda>e (t, c'). opt_step env A s t \<and> same_run c c' \<and> sys_exn e) sc"

lemma run_safe_onL: "safe env A s m t \<Longrightarrow> same_run c c' \<Longrightarrow> run_safe env A s c (onL m) (t, c')"
  by (simp add: safe_def run_safe_def wps)

lemma run_safe_ret: "opt_step env A s t \<Longrightarrow> same_run c c' \<Longrightarrow> run_safe env A s c (ret x) (t, c')"
  by (simp add: run_safe_def wps)

lemma run_safe_modS: "opt_step env A s t \<Longrightarrow> same_run c (f c') \<Longrightarrow> run_safe env A s c (onR (modS f)) (t, c')"
  by (simp add: run_safe_def wps)

lemma run_safe_bindM:
  "run_safe env A s c m sc \<Longrightarrow> (\<And>x t c'. opt_step env A s t \<Longrightarrow> same_run c c' \<Longrightarrow> run_safe env A s c (f x) (t, c')) \<Longrightarrow>
   run_safe env A s c (bindM m f) sc"
  unfolding run_safe_def wp_bindM by (erule wp_mono) auto

lemma run_safe_seqM:
  "run_safe env A s c m sc \<Longrightarrow> (\<And>t c'. opt_step env A s t \<Longrightarrow> same_run c c' \<Longrightarrow> run_safe env A s c n (t, c')) \<Longrightarrow>
   run_safe env A s c (seqM m n) sc"
  unfolding seqM_def by (rule run_safe_bindM)

lemma run_safe_finallyM:
  assumes "run_safe env A s c m sc"
    and "\<And>t c'. opt_step env A s t \<Longrightarrow> same_run c c' \<Longrightarrow> wp fin (\<lambda>_ (u, d). opt_step env A s u \<and> same_run c d) (\<lambda>_ _. False) (t, c')"
  shows "run_safe env A s c (finallyM m fin) sc"
  unfolding run_safe_def wp_finallyM
proof (rule wp_mono [OF assms(1) [unfolded run_safe_def]])
  fix x u assume "case u of (t, c') \<Rightarrow> opt_step env A s t \<and> same_run c c'"
  then obtain t c' where u: "u = (t, c')" "opt_step env A s t" "same_run c c'" by (cases u) auto
  show "wp fin (\<lambda>_ (t, c'). opt_step env A s t \<and> same_run c c') (\<lambda>e (t, c'). opt_step env A s t \<and> same_run c c' \<and> sys_exn e) u"
    unfolding u(1) by (rule wp_mono [OF assms(2) [OF u(2,3)]]) auto
next
  fix e u assume "case u of (t, c') \<Rightarrow> opt_step env A s t \<and> same_run c c' \<and> sys_exn e"
  then obtain t c' where u: "u = (t, c')" "opt_step env A s t" "same_run c c'" "sys_exn e" by (cases u) auto
  show "wp fin (\<lambda>_. case_prod (\<lambda>t c'. opt_step env A s t \<and> same_run c c' \<and> sys_exn e))
      (\<lambda>_. case_prod (\<lambda>t c'. opt_step env A s t \<and> same_run c c' \<and> sys_exn (Abort ''Finally''))) u"
    unfolding u(1) by (rule wp_mono [OF assms(2) [OF u(2,3)]]) (use u(4) in auto)
qed

text \<open>A destructor that restores a directory.\<close>

lemma restores:
  assumes step: "opt_step env A s t" and d: "is_dir s d" "\<not> aux_name env d" and run: "same_run c c'"
  shows "wp (onL (swallow (canonicaliseTimestampAndPermissions d))) (\<lambda>_ (u, d). opt_step env A s u \<and> same_run c d) E (t, c')"
proof -
  have "is_dir t d" using d opt_step_is_dir [OF step] by simp
  then have "safe env {} t (canonicaliseTimestampAndPermissions d) t"
    by (rule wp_canonicaliseTimestampAndPermissions [OF opt_step_ok [OF step] _ d(2)])
  then have "safe env A s (canonicaliseTimestampAndPermissions d) t" by (rule safe_after [OF step]) simp_all
  with run show ?thesis by (simp add: safe_def wps) (auto elim!: wp_mono)
qed

lemma run_safe_writable_parent:
  assumes step: "opt_step env {} s t" and run: "same_run c c'" and d: "is_dir s (butlast p)" "\<not> aux_name env (butlast p)"
    and swap: "\<And>u c'. opt_step env {} s u \<Longrightarrow> same_run c c' \<Longrightarrow> run_safe env A s c swap (u, c')"
  shows "run_safe env A s c (writable_parent env parentToggled p swap) (t, c')"
proof -
  have mono: "opt_step env {} s u \<Longrightarrow> opt_step env A s u" for u
    by (erule opt_step_mono) simp
  have wr: "safe env {} s (makeWritable (butlast p)) t"
  proof -
    have "is_dir t (butlast p)" using d opt_step_is_dir [OF step] by simp
    then have "safe env {} t (makeWritable (butlast p)) t" by (rule wp_makeWritable [OF opt_step_ok [OF step] _ d(2)])
    then show ?thesis by (rule safe_after [OF step]) simp_all
  qed
  have wrA: "wp (onL (makeWritable (butlast p))) (\<lambda>_ (u, d). opt_step env {} s u \<and> same_run c d)
      (\<lambda>e (u, d). opt_step env A s u \<and> same_run c d \<and> sys_exn e) (t, c')"
    using wr run mono by (simp add: safe_def wps) (auto elim!: wp_mono)
  consider "parentToggled" | "\<not> parentToggled" "butlast p \<noteq> oe_realStoreDir env" | "\<not> parentToggled" "butlast p = oe_realStoreDir env"
    by blast
  then show ?thesis
  proof cases
    case 1
    have "wp (bindM (getS (\<lambda>(_, c). oc_toggled c)) (\<lambda>b. if b then ret ()
        else seqM (onL (makeWritable (butlast p))) (onR (modS (\<lambda>c. c\<lparr>oc_toggled := True\<rparr>)))))
      (\<lambda>_ (u, d). opt_step env {} s u \<and> same_run c d) (\<lambda>e (u, d). opt_step env A s u \<and> same_run c d \<and> sys_exn e) (t, c')"
    proof (cases "oc_toggled c'")
      case True
      with step run show ?thesis by (simp add: wps)
    next
      case False
      then show ?thesis
        using wrA by (simp add: wps, elim wp_mono) (auto simp: wps elim: same_run_trans)
    qed
    with 1 swap show ?thesis
      by (simp add: writable_parent_def run_safe_def wp_seqM) (elim wp_mono, auto)
  next
    case 2
    have fin: "run_safe env A s c (finallyM swap (onL (MakeReadOnly (butlast p)))) (u, d')"
      if "opt_step env {} s u" "same_run c d'" for u d'
      unfolding MakeReadOnly_def by (rule run_safe_finallyM [OF swap [OF that] restores [OF _ d]])
    from 2 have "writable_parent env parentToggled p swap = seqM (onL (makeWritable (butlast p))) (finallyM swap (onL (MakeReadOnly (butlast p))))"
      by (simp add: writable_parent_def)
    with wrA fin show ?thesis by (simp add: run_safe_def wp_seqM) (elim wp_mono, auto)
  next
    case 3
    with swap [OF step run] show ?thesis by (simp add: writable_parent_def)
  qed
qed

lemma run_safe_optimise_file:
  assumes ok: "opt_ok env s" and p: "\<not> aux_name env p" "\<not> aux_name env (butlast p)" "dent s p = Some i"
    and cap: "captured_ok env c s p"
  shows "run_safe env {p} s c (optimise_file env parentToggled p (stat_of s i)) (s, c)"
proof (cases "leaf (fs_inodes s i)")
  case False
  then show ?thesis
    using ok by (simp add: optimise_file_def run_safe_ret opt_step_refl stat_of_def Let_def leaf_def)
next
  case leaf: True
  let ?st = "stat_of s i" and ?n = "fs_inodes s i"
  have fs: "fs_ok s" using ok by (simp add: opt_ok_def)
  have "\<not> is_dir s p" using p(3) leaf leaf_not_dir by (auto simp: is_dir_dent)
  then have "p \<noteq> []" using fs by (auto simp: fs_ok_def)
  then have par: "is_dir s (butlast p)" using p(3) fs by (auto simp: fs_ok_def dest!: dent_in)
  have ret: "run_safe env {p} s c (ret ()) (t, c')" if "opt_step env {} s t" "same_run c c'" for t c'
    by (rule run_safe_ret [OF opt_step_mono [OF that(1)] that(2)]) simp
  have swap: "run_safe env {p} s c (writable_parent env parentToggled p (swap_link env p (farm_path env ?n) ?st)) (t, c')"
    if t: "opt_step env {} s t" "same_run c c'" for t c'
  proof (rule run_safe_writable_parent [OF t par p(2)])
    fix u d assume u: "opt_step env {} s u" "same_run c d"
    have n: "fs_inodes u i = ?n" using u(1) leaf by (simp add: opt_step_def frozen_leaf_inode)
    have i: "dent u p = Some i" using u(1) p(1,3) by (simp add: opt_step_def)
    have "wp (swap_link env p (farm_path env ?n) ?st) (\<lambda>_ (t, c'). opt_step env {p} u t \<and> same_run d c')
        (\<lambda>e (t, c'). opt_step env {p} u t \<and> same_run d c' \<and> sys_exn e) (u, d)"
      using wp_swap_link [OF opt_step_ok [OF u(1)] p(1) i] leaf n by simp
    then show "run_safe env {p} s c (swap_link env p (farm_path env ?n) ?st) (u, d)"
      unfolding run_safe_def
      by (rule wp_mono) (auto intro: opt_step_trans [OF u(1)] same_run_trans [OF u(2)])
  qed
  have publish: "run_safe env {p} s c (bindM (if stLink = None then publish_link p (farm_path env ?n) ?st else ret stLink) (\<lambda>stLink.
      case stLink of None \<Rightarrow> ret () | Some l \<Rightarrow> if ps_ino ?st = ps_ino l then ret ()
        else writable_parent env parentToggled p (swap_link env p (farm_path env ?n) ?st))) (t, c')"
    if t: "opt_step env {} s t" "same_run c c'" for t c' stLink
  proof -
    have n: "fs_inodes t i = ?n" using t(1) leaf by (simp add: opt_step_def frozen_leaf_inode)
    have i: "dent t p = Some i" using t(1) p(1,3) by (simp add: opt_step_def)
    have okt: "opt_ok env t" using t(1) by (rule opt_step_ok)
    have "wp (publish_link p (farm_path env ?n) ?st) (\<lambda>_ (u, d). opt_step env {} s u \<and> same_run c d)
       (\<lambda>e (u, d). opt_step env {p} s u \<and> same_run c d \<and> sys_exn e) (t, c')"
      by (rule wp_mono [OF wp_publish_link [OF okt i]])
        (use leaf n in \<open>auto intro: opt_step_trans [OF t(1)] same_run_trans [OF t(2)]\<close>)
    then have "wp (if stLink = None then publish_link p (farm_path env ?n) ?st else ret stLink)
       (\<lambda>_ (u, d). opt_step env {} s u \<and> same_run c d) (\<lambda>e (u, d). opt_step env {p} s u \<and> same_run c d \<and> sys_exn e) (t, c')"
      using t by (auto simp: wps)
    then show ?thesis
      unfolding run_safe_def wp_bindM
      by (rule wp_mono) (use ret swap in \<open>auto simp: run_safe_def split: option.splits\<close>)
  qed
  have link: "run_safe env {p} s c (link_file env parentToggled p (farm_path env ?n) ?st) (t, c')"
    if t: "same_fs s t" "same_run c c'" for t c'
  proof -
    have st: "opt_step env {} s t" by (rule opt_step_same [OF ok t(1)])
    have "wp (find_link (farm_path env ?n) ?st) (\<lambda>_ u. opt_step env {} s u) (\<lambda>e u. opt_step env {p} s u \<and> sys_exn e) t"
      by (rule wp_mono [OF wp_find_link [OF opt_step_ok [OF st]]]) (auto intro: opt_step_trans [OF st])
    then show ?thesis
      unfolding run_safe_def link_file_def wp_bindM wp_onL
      by (rule wp_mono) (use publish t(2) in \<open>auto simp: run_safe_def wp_bindM\<close>)
  qed
  have body: "run_safe env {p} s c (bindM (optimise_hash env p ?st) (\<lambda>h.
             bindM (liftE (hash_to_string h Nix32 False)) (\<lambda>hashStr.
               link_file env parentToggled p (linksDir env @ [hashStr]) ?st))) (s, c')"
    if c': "same_run c c'" for c'
  proof -
    have "captured_hash c' p st = captured_hash c p st" for st using c' by (intro captured_hash_cong) (simp_all add: same_run_def)
    then have cap': "captured_ok env c' s p" using cap by (simp add: captured_ok_def)
    show ?thesis
      unfolding run_safe_def wp_bindM
      by (rule wp_mono [OF wp_optimise_hash [OF ok p(3) leaf cap']])
        (use link c' link_name_string [OF ok] opt_step_same [OF ok]
          in \<open>auto simp: wps run_safe_def farm_path_def [symmetric]\<close>)
  qed
  have skip: "run_safe env {p} s c (ret ()) (s, c')" if "same_run c c'" for c'
    using that ok by (simp add: run_safe_ret opt_step_refl)
  have start: "run_safe env {p} s c (seqM (onR (modS f)) (bindM (getS g) k)) (s, c) = run_safe env {p} s c (k (g (s, f c))) (s, f c)"
    for f g and k :: "bool \<Rightarrow> (opt_state, unit) M"
    by (simp add: run_safe_def wps)
  have "same_run c (c\<lparr>oc_visited := oc_visited c + 1\<rparr>)" by simp
  from skip [OF this] body [OF this] skip [of c] show ?thesis
    unfolding optimise_file_def by (simp add: start split: if_split)
qed

subsection \<open>The walk\<close>

definition apart :: "fpath \<Rightarrow> fpath \<Rightarrow> bool" where
  "apart a b \<longleftrightarrow> \<not> prefix a b \<and> \<not> prefix b a"

definition under :: "fpath list \<Rightarrow> fpath \<Rightarrow> bool" where
  "under ns q \<longleftrightarrow> (\<exists>n \<in> set ns. prefix n q)"

text \<open>What a walk leaves: the subtrees of the tasks that it has added are as they were.\<close>

definition walked :: "'c opt_env \<Rightarrow> (fpath \<Rightarrow> bool) \<Rightarrow> fsys \<Rightarrow> opt_ctx \<Rightarrow> fpath list \<Rightarrow> fsys \<Rightarrow> opt_ctx \<Rightarrow> bool" where
  "walked env P s c new t c' \<longleftrightarrow> opt_step env {q. P q \<and> \<not> under new q} s t \<and>
     oc_fileHashes c' = oc_fileHashes c \<and> oc_fileHashesBase c' = oc_fileHashesBase c \<and> oc_schedule c' = oc_schedule c \<and>
     oc_tasks c' = oc_tasks c @ new \<and> sorted_wrt apart new \<and> (\<forall>n \<in> set new. P n \<and> is_dir s n)"

lemma apart_sym: "apart a b = apart b a"
  by (auto simp: apart_def)

lemma apart_under: "apart a b \<Longrightarrow> prefix a q \<Longrightarrow> \<not> prefix b q"
  by (auto simp: apart_def dest: prefix_same_cases)

lemma walked_run:
  assumes "run_safe env A s c m (s, c)" "A \<subseteq> Collect P"
  shows "wp m (\<lambda>_ (t, c'). walked env P s c [] t c') (\<lambda>e (t, c'). walked env P s c [] t c' \<and> sys_exn e) (s, c)"
  using assms(1) unfolding run_safe_def
  by (rule wp_mono) (use assms(2) in \<open>auto simp: walked_def same_run_def under_def intro: opt_step_mono\<close>)

lemma wp_toggle_frame:
  assumes body: "wp m (\<lambda>_. J) (\<lambda>e sc. J sc \<and> sys_exn e) (t, c\<lparr>oc_toggled := False\<rparr>)"
    and restore: "\<And>u d. J (u, d) \<Longrightarrow> wp (onL (swallow (canonicaliseTimestampAndPermissions p))) (\<lambda>_. J) (\<lambda>_ _. False) (u, d)"
    and toggle: "\<And>u d b. J (u, d) \<Longrightarrow> J (u, d\<lparr>oc_toggled := b\<rparr>)"
  shows "wp (toggle_frame p m) (\<lambda>_. J) (\<lambda>e sc. J sc \<and> sys_exn e) (t, c)"
proof -
  let ?fin = "bindM (getS (\<lambda>(_, c). oc_toggled c)) (\<lambda>toggled.
      seqM (if toggled then onL (swallow (canonicaliseTimestampAndPermissions p)) else ret ())
        (onR (modS (\<lambda>x. x\<lparr>oc_toggled := oc_toggled c\<rparr>))))"
  have fin: "wp ?fin (\<lambda>_. J) (\<lambda>_ _. False) sc" if J: "J sc" for sc
  proof -
    obtain u d where sc: "sc = (u, d)" by fastforce
    have mid: "wp (if oc_toggled d then onL (swallow (canonicaliseTimestampAndPermissions p)) else ret ()) (\<lambda>_. J) (\<lambda>_ _. False) (u, d)"
      using J restore by (simp add: sc wps)
    have "wp (onR (modS (\<lambda>x. x\<lparr>oc_toggled := oc_toggled c\<rparr>))) (\<lambda>_. J) (\<lambda>_ _. False) v" if "J v" for v
      using that toggle by (cases v) (simp add: wps)
    then show ?thesis
      unfolding wp_bindM wp_seqM wp_basic sc prod.case by (intro wp_mono [OF mid]) simp_all
  qed
  have "wp (finallyM m ?fin) (\<lambda>_. J) (\<lambda>e sc. J sc \<and> sys_exn e) (t, c\<lparr>oc_toggled := False\<rparr>)"
    unfolding wp_finallyM
  proof (rule wp_mono [OF body])
    fix x sc assume "J sc"
    from fin [OF this] show "wp ?fin (\<lambda>_. J) (\<lambda>e sc. J sc \<and> sys_exn e) sc" by (rule wp_mono) auto
  next
    fix e sc assume e: "J sc \<and> sys_exn e"
    then have "J sc" by simp
    from fin [OF this] show "wp ?fin (\<lambda>_ sc. J sc \<and> sys_exn e) (\<lambda>_ sc. J sc \<and> sys_exn (Abort ''Finally'')) sc"
      by (rule wp_mono) (use e in auto)
  qed
  then show ?thesis by (simp add: toggle_frame_def wps)
qed

lemma children_child: "(n, i) \<in> set (children s p) \<longleftrightarrow> (p @ [n], i) \<in> set (fs_dents s)"
  unfolding children_def by (force simp: image_iff)

lemma children_distinct: "fs_ok s \<Longrightarrow> distinct (map fst (children s p))"
proof -
  assume "fs_ok s"
  then have d: "distinct (map fst (fs_dents s))" by (simp add: fs_ok_def)
  have "distinct (map fst [(last q, i). (q, i) \<leftarrow> ds, q \<noteq> [] \<and> butlast q = p])"
    if "distinct (map fst ds)" for ds :: "(fpath \<times> nat) list"
    using that
  proof (induction ds)
    case (Cons x ds)
    obtain q i where x: "x = (q, i)" by fastforce
    have "last q \<notin> set (map fst [(last q, i). (q, i) \<leftarrow> ds, q \<noteq> [] \<and> butlast q = p])" if "q \<noteq> []" "butlast q = p"
    proof
      assume "last q \<in> set (map fst [(last q, i). (q, i) \<leftarrow> ds, q \<noteq> [] \<and> butlast q = p])"
      then obtain r j where r: "(r, j) \<in> set ds" "r \<noteq> []" "butlast r = p" "last r = last q" by (auto split: if_splits)
      then have "r = q" using that by (metis append_butlast_last_id)
      with r(1) Cons.prems show False by (force simp: x)
    qed
    with Cons show ?case by (auto simp: x)
  qed simp
  from this [OF d] show ?thesis by (simp add: children_def)
qed

lemma read_dirents_eq: "wp (read_dirents msg p)
  (\<lambda>es t. same_fs s t \<and> is_dir s p \<and> es = (''.'', ino_at s p, tDirectory) # (''..'', ino_at s (butlast p), tDirectory) #
      map (\<lambda>(n, i). (n, i, in_type (fs_inodes s i))) (children s p))
  (\<lambda>e t. same_fs s t \<and> sys_exn e \<and> (fs_quiet s \<longrightarrow> \<not> is_dir s p)) s"
  unfolding read_dirents_def wp_bindM wp_sys
  by (rule sysP_mono [OF sysP_readdir]) (auto simp: wps ino_at_def same_fs_dent split: sum.splits)

lemma wp_interrupts: "same_fs s t \<Longrightarrow>
  wp (forM (\<lambda>_. fs_checkInterrupt) xs) (\<lambda>_ u. same_fs s u) (\<lambda>e u. same_fs s u \<and> sys_exn e \<and> \<not> fs_quiet s) t"
  by (rule wp_forM [where I = "\<lambda>_ t. same_fs s t"])
    (auto intro!: wp_mono [OF wp_checkInterrupt] dest: same_fs_trans simp: same_fs_def)

lemma wp_readDirectoryIgnoringInodes:
  "wp (readDirectoryIgnoringInodes ih p)
     (\<lambda>ns t. same_fs s t \<and> is_dir s p \<and> ns = [(n, in_type (fs_inodes s i) = tDirectory). (n, i) \<leftarrow> children s p,
        i \<notin> ih \<and> n \<noteq> ''.'' \<and> n \<noteq> ''..''])
     (\<lambda>e t. same_fs s t \<and> sys_exn e \<and> (fs_quiet s \<longrightarrow> \<not> is_dir s p)) s"
proof -
  have eq: "map (\<lambda>(name, ino, ty). (name, ty = tDirectory)) (filter (keep_dirent ih) ((''.'', a, tDirectory) # (''..'', b, tDirectory) #
      map (\<lambda>(n, i). (n, i, in_type (fs_inodes s i))) cs)) =
    [(n, in_type (fs_inodes s i) = tDirectory). (n, i) \<leftarrow> cs, i \<notin> ih \<and> n \<noteq> ''.'' \<and> n \<noteq> ''..'']" for a b cs
    by (induction cs) (auto simp: keep_dirent_def)
  show ?thesis
    unfolding readDirectoryIgnoringInodes_def wp_bindM wp_seqM wp_basic
  proof (rule wp_mono [OF read_dirents_eq], elim conjE)
    fix es t assume t: "same_fs s t" and d: "is_dir s p" and es: "es = (''.'', ino_at s p, tDirectory) #
      (''..'', ino_at s (butlast p), tDirectory) # map (\<lambda>(n, i). (n, i, in_type (fs_inodes s i))) (children s p)"
    show "wp (forM (\<lambda>_. fs_checkInterrupt) es)
        (\<lambda>_ t. same_fs s t \<and> is_dir s p \<and> map (\<lambda>(name, ino, ty). (name, ty = tDirectory)) (filter (keep_dirent ih) es) =
          [(n, in_type (fs_inodes s i) = tDirectory). (n, i) \<leftarrow> children s p, i \<notin> ih \<and> n \<noteq> ''.'' \<and> n \<noteq> ''..''])
        (\<lambda>e t. same_fs s t \<and> sys_exn e \<and> (fs_quiet s \<longrightarrow> \<not> is_dir s p)) t"
      by (rule wp_mono [OF wp_interrupts [OF t]]) (simp_all only: d es eq simp_thms)
  qed
qed

lemma walked_mono: "walked env P s c new t c' \<Longrightarrow> (\<And>q. P q \<Longrightarrow> P' q) \<Longrightarrow> walked env P' s c new t c'"
  unfolding walked_def by (auto elim!: opt_step_mono)

lemma walked_same: "opt_ok env s \<Longrightarrow> same_fs s t \<Longrightarrow> walked env P s c [] t c"
  by (simp add: walked_def opt_step_same)

lemma walked_trans:
  assumes 1: "walked env P s c new t c1" and 2: "walked env Q t c1 new' u d"
    and up: "\<And>q r. P q \<Longrightarrow> prefix q r \<Longrightarrow> P r" "\<And>q r. Q q \<Longrightarrow> prefix q r \<Longrightarrow> Q r"
    and sep: "\<And>q. P q \<Longrightarrow> Q q \<Longrightarrow> False" and aux: "\<And>q. Q q \<Longrightarrow> \<not> aux_name env q"
  shows "walked env (\<lambda>q. P q \<or> Q q) s c (new @ new') u d"
proof -
  have new: "\<forall>n \<in> set new. P n \<and> is_dir s n" "sorted_wrt apart new" using 1 by (simp_all add: walked_def)
  have new': "\<forall>n \<in> set new'. Q n \<and> is_dir t n" "sorted_wrt apart new'" using 2 by (simp_all add: walked_def)
  have st: "opt_step env {q. P q \<and> \<not> under new q} s t" using 1 by (simp add: walked_def)
  have tu: "opt_step env {q. Q q \<and> \<not> under new' q} t u" using 2 by (simp add: walked_def)
  have un: "under new q \<Longrightarrow> P q" "under new' q \<Longrightarrow> Q q" for q using new(1) new'(1) up by (auto simp: under_def)
  have split: "under (new @ new') q \<longleftrightarrow> under new q \<or> under new' q" for q by (auto simp: under_def)
  have "opt_step env {q. (P q \<or> Q q) \<and> \<not> under (new @ new') q} s u"
    by (rule opt_step_trans [OF st tu]) (use un sep split in blast)+
  moreover have "apart a b" if "a \<in> set new" "b \<in> set new'" for a b
    using that new(1) new'(1) up sep unfolding apart_def by metis
  then have "sorted_wrt apart (new @ new')" using new(2) new'(2) by (simp add: sorted_wrt_append)
  moreover have "is_dir s n" if "n \<in> set new'" for n
    using that new'(1) aux opt_step_is_dir [OF st, of n] by auto
  ultimately show ?thesis using 1 2 new new' by (auto simp: walked_def)
qed

lemma captured_ok_step:
  assumes cap: "captured_ok env c s q" and st: "opt_step env A s t" and q: "q \<notin> A" "\<not> aux_name env q"
    and c: "oc_fileHashes c' = oc_fileHashes c" "oc_fileHashesBase c' = oc_fileHashesBase c"
  shows "captured_ok env c' t q"
  unfolding captured_ok_def
proof (intro allI impI, elim conjE)
  fix i h assume i: "dent t q = Some i" "leaf (fs_inodes t i)" and h: "captured_hash c' q (stat_of t i) = Some h"
  have f: "frozen s t" and d: "dent t q = dent s q" using st q by (simp_all add: opt_step_def)
  have l: "leaf (fs_inodes s i)" using i(2) frozen_leaf [OF f] by simp
  have n: "fs_inodes t i = fs_inodes s i" by (rule frozen_leaf_inode [OF f l])
  have "captured_hash c' q (stat_of t i) = captured_hash c q (stat_of s i)"
    by (rule captured_hash_cong [OF c]) (simp add: stat_of_def Let_def n)
  with cap i(1) d l h n show "h = node_hash env (fs_inodes t i)" by (simp add: captured_ok_def)
qed

lemma opt_step_present: "opt_step env A s t \<Longrightarrow> \<not> aux_name env q \<Longrightarrow> dent t q = None \<longleftrightarrow> dent s q = None"
  by (auto simp: opt_step_def content_def map_option_is_None [symmetric] simp del: map_option_is_None)

lemma deep_step:
  assumes d: "deep k p s" and st: "opt_step env A s t" and aux: "\<And>q. prefix p q \<Longrightarrow> \<not> aux_name env q"
  shows "deep k p t"
  unfolding deep_def
proof (intro ballI, clarify)
  fix q i assume q: "(q, i) \<in> set (fs_dents t)" "prefix p q"
  have "dent t q \<noteq> None" unfolding dent_none using image_eqI [OF _ q(1), of q fst] by simp
  then have "dent s q \<noteq> None" using opt_step_present [OF st aux [OF q(2)]] by simp
  then obtain j where "(q, j) \<in> set (fs_dents s)" by (auto dest: dent_in)
  with d q(2) show "length q < length p + k" by (auto simp: deep_def)
qed

text \<open>What a task or a walk needs to start.\<close>

definition can_walk :: "'c opt_env \<Rightarrow> opt_ctx \<Rightarrow> fsys \<Rightarrow> nat \<Rightarrow> fpath \<Rightarrow> bool" where
  "can_walk env c s k p \<longleftrightarrow> 0 < k \<and> deep k p s \<and> \<not> aux_name env (butlast p) \<and>
     (\<forall>q. prefix p q \<longrightarrow> \<not> aux_name env q \<and> captured_ok env c s q)"

lemma can_walk_step:
  assumes w: "can_walk env c s k p" and st: "walked env P s c new t c'"
    and A: "\<And>q. prefix p q \<Longrightarrow> \<not> P q \<or> under new q"
  shows "can_walk env c' t k p"
proof -
  have step: "opt_step env {q. P q \<and> \<not> under new q} s t" and c: "oc_fileHashes c' = oc_fileHashes c" "oc_fileHashesBase c' = oc_fileHashesBase c"
    using st by (simp_all add: walked_def)
  have "captured_ok env c' t q" if "prefix p q" for q
    using captured_ok_step [OF _ step _ _ c, of q] w A [OF that] that by (auto simp: can_walk_def)
  moreover have "deep k p t" using w by (intro deep_step [OF _ step]) (auto simp: can_walk_def)
  ultimately show ?thesis using w by (auto simp: can_walk_def)
qed

lemma can_walk_child:
  assumes "can_walk env c s (Suc k) p" "dent s (p @ [n]) \<noteq> None"
  shows "can_walk env c s k (p @ [n])"
proof -
  have w: "deep (Suc k) p s" "\<forall>q. prefix p q \<longrightarrow> \<not> aux_name env q \<and> captured_ok env c s q" using assms(1) by (simp_all add: can_walk_def)
  obtain i where "(p @ [n], i) \<in> set (fs_dents s)" using assms(2) by (auto dest: dent_in)
  then have "0 < k" using w(1) by (fastforce simp: deep_def)
  moreover have "prefix p q" if "prefix (p @ [n]) q" for q using that by (auto simp: prefix_def)
  ultimately show ?thesis using w deep_child by (auto simp: can_walk_def)
qed

definition others :: "fpath \<Rightarrow> (string \<times> bool) list \<Rightarrow> fpath \<Rightarrow> bool" where
  "others p rest q \<longleftrightarrow> (\<exists>n. n \<notin> fst ` set rest \<and> prefix (p @ [n]) q)"

lemma others_step:
  "n \<notin> fst ` set rest \<Longrightarrow> others p ((n, d) # rest) q \<or> prefix (p @ [n]) q \<longleftrightarrow> others p rest q"
  by (auto simp: others_def)

lemma others_sep: "others p ((n, d) # rest) q \<Longrightarrow> prefix (p @ [n]) q \<Longrightarrow> False"
  by (auto simp: others_def prefix_def)

lemma others_up: "others p rest q \<Longrightarrow> prefix q r \<Longrightarrow> others p rest r"
  unfolding others_def by (meson prefix_order.trans)

lemma others_below: "others p rest q \<Longrightarrow> prefix p q \<and> q \<noteq> p"
  by (auto simp: others_def prefix_def)

text \<open>What holds after a walk, and of the exceptions it may throw.\<close>

definition walk_post :: "'c opt_env \<Rightarrow> bool \<Rightarrow> fpath \<Rightarrow> fsys \<Rightarrow> opt_ctx \<Rightarrow> opt_state \<Rightarrow> bool" where
  "walk_post env pool p s c sc \<longleftrightarrow> (\<exists>new. walked env (prefix p) s c new (fst sc) (snd sc) \<and> (pool \<or> new = []) \<and> p \<notin> set new)"

definition loop_post :: "'c opt_env \<Rightarrow> bool \<Rightarrow> fpath \<Rightarrow> fsys \<Rightarrow> opt_ctx \<Rightarrow> (string \<times> bool) list \<Rightarrow> opt_state \<Rightarrow> bool" where
  "loop_post env pool p s c rest sc \<longleftrightarrow> (\<exists>new. walked env (others p rest) s c new (fst sc) (snd sc) \<and> (pool \<or> new = []))"

lemma loop_walk_post: "loop_post env pool p s c rest sc \<Longrightarrow> walk_post env pool p s c sc"
proof -
  assume "loop_post env pool p s c rest sc"
  then obtain new where new: "walked env (others p rest) s c new (fst sc) (snd sc)" "pool \<or> new = []" by (auto simp: loop_post_def)
  have "p \<notin> set new" using new(1) others_below by (force simp: walked_def)
  moreover have "walked env (prefix p) s c new (fst sc) (snd sc)" by (rule walked_mono [OF new(1)]) (simp add: others_below)
  ultimately show ?thesis using new(2) by (auto simp: walk_post_def)
qed

lemma loop_step:
  assumes I: "loop_post env pool p s c ((n, isDir) # rest) (t, d)" and n: "n \<notin> fst ` set rest"
    and step: "walked env (prefix (p @ [n])) t d new u e" "pool \<or> new = []"
    and aux: "\<And>q. prefix p q \<Longrightarrow> \<not> aux_name env q"
  shows "loop_post env pool p s c rest (u, e)"
proof -
  obtain new0 where new0: "walked env (others p ((n, isDir) # rest)) s c new0 t d" "pool \<or> new0 = []" using I by (auto simp: loop_post_def)
  have "walked env (\<lambda>q. others p ((n, isDir) # rest) q \<or> prefix (p @ [n]) q) s c (new0 @ new) u e"
  proof (rule walked_trans [OF new0(1) step(1)])
    show "\<And>q r. others p ((n, isDir) # rest) q \<Longrightarrow> prefix q r \<Longrightarrow> others p ((n, isDir) # rest) r" by (rule others_up)
    show "\<And>q r. prefix (p @ [n]) q \<Longrightarrow> prefix q r \<Longrightarrow> prefix (p @ [n]) r" by (rule prefix_order.trans)
    show "\<And>q. others p ((n, isDir) # rest) q \<Longrightarrow> prefix (p @ [n]) q \<Longrightarrow> False" by (rule others_sep)
    show "\<not> aux_name env q" if "prefix (p @ [n]) q" for q
      using aux [of q] that by (auto simp: prefix_def)
  qed
  then have "walked env (others p rest) s c (new0 @ new) u e" by (rule walked_mono) (simp add: others_step [OF n])
  with new0(2) step(2) show ?thesis by (auto simp: loop_post_def)
qed

abbreviation walk_ends :: "'c opt_env \<Rightarrow> bool \<Rightarrow> fpath \<Rightarrow> fsys \<Rightarrow> opt_ctx \<Rightarrow> (opt_state, unit) M \<Rightarrow> opt_state \<Rightarrow> bool" where
  "walk_ends env pool p s c m sc \<equiv> wp m (\<lambda>_. walk_post env pool p s c) (\<lambda>e sc. walk_post env pool p s c sc \<and> sys_exn e) sc"

lemma walk_post_same: "opt_ok env s \<Longrightarrow> same_fs s t \<Longrightarrow> walk_post env pool p s c (t, c)"
  by (auto simp: walk_post_def walked_same intro!: exI [of _ "[]"])

lemma can_walk_same: "can_walk env c s k p \<Longrightarrow> opt_ok env s \<Longrightarrow> same_fs s t \<Longrightarrow> can_walk env c t k p"
  by (rule can_walk_step [OF _ walked_same [where P = "\<lambda>_. False"]]) simp_all

lemma opt_ok_same: "opt_ok env s \<Longrightarrow> same_fs s t \<Longrightarrow> opt_ok env t"
  using opt_step_ok opt_step_same by blast

lemma walk_file:
  assumes ok: "opt_ok env s" and w: "can_walk env c s k p" and t: "same_fs s t" and i: "dent s p = Some i"
  shows "walk_ends env pool p s c (optimise_file env tgl p (stat_of s i)) (t, c)"
proof -
  have it: "dent t p = Some i" using i same_fs_dent [OF t] by simp
  have "run_safe env {p} t c (optimise_file env tgl p (stat_of t i)) (t, c)"
    using can_walk_same [OF w ok t] by (intro run_safe_optimise_file [OF opt_ok_same [OF ok t] _ _ it]) (auto simp: can_walk_def)
  then have "wp (optimise_file env tgl p (stat_of t i)) (\<lambda>_ (u, d). walked env (prefix p) t c [] u d)
      (\<lambda>e (u, d). walked env (prefix p) t c [] u d \<and> sys_exn e) (t, c)"
    by (rule walked_run) simp
  moreover have "walk_post env pool p s c (u, d)" if "walked env (prefix p) t c [] u d" for u d
  proof -
    have "opt_step env {q. prefix p q \<and> \<not> under [] q} s u"
      using that opt_step_trans [OF opt_step_same [OF ok t]] by (simp add: walked_def) blast
    with that show ?thesis by (auto simp: walk_post_def walked_def)
  qed
  ultimately show ?thesis unfolding same_fs_stat [OF t] by (elim wp_mono) auto
qed

text \<open>One entry of a directory, when the walk of its path is known.\<close>

lemma walk_one:
  assumes w: "can_walk env c s (Suc k) p" and I: "loop_post env pool p s c ((n, isDir) # rest) (u, e)"
    and n: "n \<notin> fst ` set rest" "dent s (p @ [n]) = Some i" "isDir = (in_type (fs_inodes s i) = tDirectory)"
    and child: "opt_ok env u \<Longrightarrow> can_walk env e u k (p @ [n]) \<Longrightarrow> walk_ends env pool (p @ [n]) u e (walk (p @ [n])) (u, e)"
  shows "wp (walk_child pool p walk (n, isDir)) (\<lambda>_. loop_post env pool p s c rest)
    (\<lambda>x sc. loop_post env pool p s c rest sc \<and> sys_exn x) (u, e)"
proof -
  have aux: "\<not> aux_name env q" if "prefix p q" for q using w that by (simp add: can_walk_def)
  obtain new where new: "walked env (others p ((n, isDir) # rest)) s c new u e" using I by (auto simp: loop_post_def)
  have st: "opt_step env {q. others p ((n, isDir) # rest) q \<and> \<not> under new q} s u" using new by (simp add: walked_def)
  have oku: "opt_ok env u" using st by (rule opt_step_ok)
  have "can_walk env c s k (p @ [n])" using can_walk_child [OF w] n(2) by simp
  then have wu: "can_walk env e u k (p @ [n])" by (rule can_walk_step [OF _ new]) (use others_sep in blast)
  have after: "loop_post env pool p s c rest (v, f)" if "walked env (prefix (p @ [n])) u e new' v f" "pool \<or> new' = []" for v f new'
    by (rule loop_step [OF I n(1) that aux])
  show ?thesis
  proof (cases "pool \<and> isDir")
    case True
    have "is_dir s (p @ [n])" using n True by (simp add: is_dir_dent)
    then have "is_dir u (p @ [n])" using opt_step_is_dir [OF st] aux [of "p @ [n]"] by (auto simp: prefix_def)
    then have "walked env (prefix (p @ [n])) u e [p @ [n]] u (e\<lparr>oc_tasks := oc_tasks e @ [p @ [n]]\<rparr>)"
      using oku by (simp add: walked_def opt_step_refl)
    with True after show ?thesis by (simp add: walk_child_def wps)
  next
    case False
    have "wp (walk (p @ [n])) (\<lambda>_. loop_post env pool p s c rest) (\<lambda>x sc. loop_post env pool p s c rest sc \<and> sys_exn x) (u, e)"
      by (rule wp_mono [OF child [OF oku wu]]) (use after in \<open>auto simp: walk_post_def\<close>)
    moreover have "walk_child pool p walk (n, isDir) = walk (p @ [n])" using False by (auto simp: walk_child_def)
    ultimately show ?thesis by simp
  qed
qed

lemma walk_directory_ends:
  assumes ok: "opt_ok env s" and w: "can_walk env c s (Suc k) p" and t: "same_fs s t" and d: "is_dir s p"
    and child: "\<And>n u e. opt_ok env u \<Longrightarrow> can_walk env e u k (p @ [n]) \<Longrightarrow> walk_ends env pool (p @ [n]) u e (walk (p @ [n])) (u, e)"
  shows "walk_ends env pool p s c (walk_directory pool p walk) (t, c)"
proof -
  have fs: "fs_ok s" using ok by (simp add: opt_ok_def)
  let ?ns = "\<lambda>cs. [(n, in_type (fs_inodes s i) = tDirectory). (n, i) \<leftarrow> cs, i \<notin> oc_inodeHash c \<and> n \<noteq> ''.'' \<and> n \<noteq> ''..'']"
  let ?names = "?ns (children s p)"
  have "distinct (map fst cs) \<Longrightarrow> distinct (map fst (?ns cs))" for cs by (induction cs) (force split: if_splits)+
  then have dist: "distinct (map fst ?names)" using children_distinct [OF fs] .
  have names: "\<exists>i. dent s (p @ [n]) = Some i \<and> isDir = (in_type (fs_inodes s i) = tDirectory)" if "(n, isDir) \<in> set ?names" for n isDir
    using that dent_iff [OF fs] by (auto simp: children_child split: if_splits)
  let ?I = "\<lambda>xs sc. loop_post env pool p s c xs sc \<and> distinct (map fst xs) \<and> set xs \<subseteq> set ?names"
  have loop: "walk_ends env pool p s c (forM (walk_child pool p walk) ?names) sc" if "loop_post env pool p s c ?names sc" for sc
  proof (rule wp_forM [where I = ?I])
    show "?I ?names sc" using that dist by simp
    show "walk_post env pool p s c sc" if "?I [] sc" for sc using that loop_walk_post by blast
    fix x rest sc assume I: "?I (x # rest) sc"
    obtain n isDir where x: "x = (n, isDir)" by fastforce
    obtain u e where sc: "sc = (u, e)" by fastforce
    from I have "set ((n, isDir) # rest) \<subseteq> set ?names" unfolding x by (elim conjE)
    then have "(n, isDir) \<in> set ?names" by (rule subsetD) (rule list.set_intros(1))
    from names [OF this] obtain i where i: "dent s (p @ [n]) = Some i" "isDir = (in_type (fs_inodes s i) = tDirectory)" by blast
    have L: "loop_post env pool p s c ((n, isDir) # rest) (u, e)" "n \<notin> fst ` set rest" using I by (auto simp: x sc)
    show "wp (walk_child pool p walk x) (\<lambda>_. ?I rest) (\<lambda>e sc. walk_post env pool p s c sc \<and> sys_exn e) sc"
      unfolding x sc
    proof (rule wp_mono [OF walk_one [OF w L i]])
      show "walk_ends env pool (p @ [n]) u e (walk (p @ [n])) (u, e)" if "opt_ok env u" "can_walk env e u k (p @ [n])"
        using that by (rule child)
    qed (use I loop_walk_post in \<open>auto simp: x\<close>)
  qed
  have frame: "walk_ends env pool p s c (toggle_frame p (forM (walk_child pool p walk) ?names)) (u, c)" if u: "same_fs s u" for u
  proof (rule wp_toggle_frame)
    have "walked env (others p ?names) s c [] u (c\<lparr>oc_toggled := False\<rparr>)"
      using walked_same [OF ok u, of "others p ?names" c] by (simp add: walked_def)
    then show "walk_ends env pool p s c (forM (walk_child pool p walk) ?names) (u, c\<lparr>oc_toggled := False\<rparr>)"
      by (intro loop) (auto simp: loop_post_def)
    show "walk_post env pool p s c (v, f\<lparr>oc_toggled := b\<rparr>)" if "walk_post env pool p s c (v, f)" for v f b
      using that by (auto simp: walk_post_def walked_def)
    show "wp (onL (swallow (canonicaliseTimestampAndPermissions p))) (\<lambda>_. walk_post env pool p s c) (\<lambda>_ _. False) (v, f)"
      if J: "walk_post env pool p s c (v, f)" for v f
    proof -
      from J obtain new where new: "walked env (prefix p) s c new v f" "pool \<or> new = []" "p \<notin> set new" by (auto simp: walk_post_def)
      have "opt_step env {q. prefix p q \<and> \<not> under new q} s v" using new(1) by (simp add: walked_def)
      then have "wp (onL (swallow (canonicaliseTimestampAndPermissions p)))
          (\<lambda>_ (u, d). opt_step env {q. prefix p q \<and> \<not> under new q} s u \<and> same_run f d) (\<lambda>_ _. False) (v, f)"
        using d w by (intro restores) (simp_all add: can_walk_def)
      then show ?thesis by (rule wp_mono) (use new in \<open>auto simp: walk_post_def walked_def same_run_def\<close>)
    qed
  qed
  show ?thesis
    unfolding walk_directory_def wp_bindM wp_basic wp_onL prod.case
  proof (rule wp_mono [OF wp_readDirectoryIgnoringInodes], elim conjE)
    fix ns u assume u: "same_fs t u" and ns: "ns = [(n, in_type (fs_inodes t i) = tDirectory). (n, i) \<leftarrow> children t p,
        i \<notin> oc_inodeHash c \<and> n \<noteq> ''.'' \<and> n \<noteq> ''..'']"
    have ino: "fs_inodes t = fs_inodes s" using t by (simp add: same_fs_def)
    have "ns = ?names" unfolding ns ino same_fs_children [OF t] ..
    with frame [OF same_fs_trans [OF t u]] show "walk_ends env pool p s c (toggle_frame p (forM (walk_child pool p walk) ns)) (u, c)" by simp
  next
    fix e u assume "same_fs t u \<and> sys_exn e \<and> (fs_quiet t \<longrightarrow> \<not> is_dir t p)"
    then show "walk_post env pool p s c (u, c) \<and> sys_exn e" using walk_post_same [OF ok same_fs_trans [OF t]] by simp
  qed
qed

lemma wp_optimisePath0:
  assumes "opt_ok env s" "can_walk env c s k p"
  shows "walk_ends env pool p s c (optimisePath0 k env pool tgl p) (s, c)"
  using assms
proof (induction k arbitrary: p s c tgl)
  case 0
  then show ?case by (simp add: can_walk_def)
next
  case (Suc k)
  note ok = Suc.prems(1) and w = Suc.prems(2)
  let ?walk = "\<lambda>child. optimisePath0 k env pool True child"
  show ?case
    unfolding optimisePath0.simps wp_seqM wp_bindM [of "onL (lstat p)"] wp_onL
  proof (rule wp_mono [OF wp_checkInterrupt])
    fix x t assume t: "same_fs s t"
    show "wp (lstat p) (\<lambda>st u. walk_ends env pool p s c (if ps_type st = tDirectory then walk_directory pool p ?walk
        else optimise_file env tgl p st) (u, c)) (\<lambda>e u. walk_post env pool p s c (u, c) \<and> sys_exn e) t"
    proof (rule wp_mono [OF wp_lstat], elim conjE exE)
      fix st u i assume u: "same_fs t u" and i: "dent t p = Some i" and st: "st = stat_of t i"
      have su: "same_fs s u" by (rule same_fs_trans [OF t u])
      have i': "dent s p = Some i" "st = stat_of s i" using i st same_fs_dent [OF t] same_fs_stat [OF t] by simp_all
      have "is_dir s p" if "ps_type st = tDirectory" using that i' by (simp add: is_dir_dent stat_of_def Let_def)
      then show "walk_ends env pool p s c (if ps_type st = tDirectory then walk_directory pool p ?walk else optimise_file env tgl p st) (u, c)"
        using walk_directory_ends [OF ok w su _ Suc.IH] walk_file [OF ok w su i'(1)] i'(2) by simp
    next
      fix e u assume "same_fs t u \<and> (fs_quiet t \<longrightarrow> dent t p = None) \<and> (\<exists>n m. e = SysError n m)"
      then show "walk_post env pool p s c (u, c) \<and> sys_exn e" using walk_post_same [OF ok] same_fs_trans [OF t] by auto
    qed
  qed (use walk_post_same [OF ok] in auto)
qed
subsection \<open>Tasks\<close>

lemma can_walk_cong:
  "oc_fileHashes c' = oc_fileHashes c \<Longrightarrow> oc_fileHashesBase c' = oc_fileHashesBase c \<Longrightarrow> can_walk env c' s k p = can_walk env c s k p"
  using captured_hash_cong [of c' c] by (simp add: can_walk_def captured_ok_def)

lemma can_walk_below:
  assumes "can_walk env c s k p" "prefix p n" "n \<noteq> p"
  shows "can_walk env c s k n"
proof -
  have w: "0 < k" "deep k p s" "\<forall>q. prefix p q \<longrightarrow> \<not> aux_name env q \<and> captured_ok env c s q" using assms(1) by (simp_all add: can_walk_def)
  have b: "prefix p (butlast n)" using assms(2,3) by (metis butlast_snoc prefix_def append_butlast_last_id butlast_append)
  have "length p \<le> length n" using assms(2) by (rule prefix_length_le)
  then have "deep k n s" using w(2) assms(2) unfolding deep_def by (fastforce dest: prefix_order.trans)
  then show ?thesis using w b assms(2) by (auto simp: can_walk_def dest: prefix_order.trans)
qed

lemma next_task_bound: "oc_tasks c \<noteq> [] \<Longrightarrow> next_task c < length (oc_tasks c)"
  by (simp add: next_task_def split: list.split)

lemma take_task_simps [simp]:
  "oc_fileHashes (take_task c) = oc_fileHashes c" "oc_fileHashesBase (take_task c) = oc_fileHashesBase c"
  "oc_tasks (take_task c) = take (next_task c) (oc_tasks c) @ drop (Suc (next_task c)) (oc_tasks c)"
  by (simp_all add: take_task_def)

text \<open>The entries that are still to be walked; without a pool, the tasks.\<close>

definition pending :: "bool \<Rightarrow> fsys \<Rightarrow> fpath list \<Rightarrow> nat" where
  "pending pool s ts = (if pool then card {q. dent s q \<noteq> None \<and> under ts q} else length ts)"

definition can_run :: "'c opt_env \<Rightarrow> bool \<Rightarrow> nat \<Rightarrow> fsys \<Rightarrow> opt_ctx \<Rightarrow> bool" where
  "can_run env pool k s c \<longleftrightarrow> opt_ok env s \<and> sorted_wrt apart (oc_tasks c) \<and>
     (\<forall>p \<in> set (oc_tasks c). can_walk env c s k p \<and> (pool \<longrightarrow> is_dir s p))"

lemma sorted_wrt_remove:
  assumes "sorted_wrt P xs" "i < length xs" "\<And>x y. P x y \<Longrightarrow> P y x"
  shows "sorted_wrt P (take i xs @ drop (Suc i) xs)" "\<And>y. y \<in> set (take i xs @ drop (Suc i) xs) \<Longrightarrow> P (xs ! i) y"
proof -
  have "sorted_wrt P (take i xs @ xs ! i # drop (Suc i) xs)" using assms(1) by (simp add: id_take_nth_drop [OF assms(2), symmetric])
  then show "sorted_wrt P (take i xs @ drop (Suc i) xs)" "\<And>y. y \<in> set (take i xs @ drop (Suc i) xs) \<Longrightarrow> P (xs ! i) y"
    using assms(3) by (auto simp: sorted_wrt_append)
qed

lemma present_sub: "{q. dent s q \<noteq> None \<and> P q} \<subseteq> fst ` set (fs_dents s)"
  by (force dest: dent_in)

lemma present_finite: "finite {q. dent s q \<noteq> None \<and> P q}"
  by (rule finite_subset [OF present_sub]) simp

lemma task_step:
  assumes run: "can_run env pool k s c" and ne: "oc_tasks c \<noteq> []"
    and p: "p = oc_tasks c ! next_task c" and post: "walk_post env pool p s (take_task c) (t, d)"
  shows "can_run env pool k t d" "pending pool t (oc_tasks d) < pending pool s (oc_tasks c)"
    "opt_step env {q. under (oc_tasks c) q} s t" "under (oc_tasks d) q \<Longrightarrow> under (oc_tasks c) q"
proof -
  let ?rest = "oc_tasks (take_task c)"
  have i: "next_task c < length (oc_tasks c)" by (rule next_task_bound [OF ne])
  have sorted: "sorted_wrt apart (oc_tasks c)" and ok: "opt_ok env s" using run by (simp_all add: can_run_def)
  have rest: "sorted_wrt apart ?rest" "\<And>r. r \<in> set ?rest \<Longrightarrow> apart p r"
    using sorted_wrt_remove [OF sorted i] by (simp_all add: p apart_sym)
  have sub: "set ?rest \<subseteq> set (oc_tasks c)" by (auto dest: in_set_takeD in_set_dropD)
  have pin: "p \<in> set (oc_tasks c)" using i by (simp add: p)
  obtain new where new: "walked env (prefix p) s (take_task c) new t d" "pool \<or> new = []" "p \<notin> set new" using post by (auto simp: walk_post_def)
  have st: "opt_step env {q. prefix p q \<and> \<not> under new q} s t" using new(1) by (simp add: walked_def)
  have below: "prefix p n \<and> n \<noteq> p \<and> is_dir s n" if "n \<in> set new" for n using new that by (auto simp: walked_def)
  have d: "oc_tasks d = ?rest @ new" "sorted_wrt apart new" using new(1) by (simp_all add: walked_def)
  have cw: "can_walk env (take_task c) s k r" "pool \<Longrightarrow> is_dir s r" if "r \<in> set (oc_tasks c)" for r
    using run that can_walk_cong [of "take_task c" c env s k r] by (simp_all add: can_run_def)
  have aux: "\<not> aux_name env q" if "prefix r q" "r \<in> set (oc_tasks c)" for r q using cw(1) [OF that(2)] that(1) by (simp add: can_walk_def)
  have keep: "is_dir t q = is_dir s q" if "prefix r q" "r \<in> set (oc_tasks c)" for r q
    using opt_step_is_dir [OF st aux [OF that]] .
  show up: "under (oc_tasks c) q" if u: "under (oc_tasks d) q" for q
  proof -
    obtain n where n: "n \<in> set ?rest \<or> n \<in> set new" "prefix n q" using u unfolding under_def d(1) set_append by blast
    from n(1) show ?thesis
    proof
      assume "n \<in> set ?rest"
      then show ?thesis using n(2) sub by (auto simp: under_def)
    next
      assume "n \<in> set new"
      then have "prefix p q" using below n(2) by (blast intro: prefix_order.trans)
      then show ?thesis using pin by (auto simp: under_def)
    qed
  qed
  have wr: "can_walk env d t k r \<and> (pool \<longrightarrow> is_dir t r)" if r: "r \<in> set ?rest" for r
  proof
    have rc: "r \<in> set (oc_tasks c)" using r sub by blast
    show "can_walk env d t k r" by (rule can_walk_step [OF cw(1) [OF rc] new(1)]) (use apart_under rest(2) [OF r] apart_sym in blast)
    show "pool \<longrightarrow> is_dir t r" using cw(2) [OF rc] keep [OF _ rc, of r] by simp
  qed
  have wn: "can_walk env d t k n \<and> (pool \<longrightarrow> is_dir t n)" if n: "n \<in> set new" for n
  proof
    have "can_walk env (take_task c) s k n" using can_walk_below [OF cw(1) [OF pin]] below [OF n] by blast
    then show "can_walk env d t k n" by (rule can_walk_step [OF _ new(1)]) (use n in \<open>auto simp: under_def\<close>)
    show "pool \<longrightarrow> is_dir t n" using below [OF n] keep [OF _ pin, of n] by simp
  qed
  have "apart r n" if r: "r \<in> set ?rest" and n: "n \<in> set new" for r n
  proof -
    have a: "apart p r" and b: "prefix p n" using rest(2) [OF r] below [OF n] by simp_all
    have "\<not> prefix r n" by (rule apart_under [OF a b])
    moreover have "\<not> prefix n r" using a prefix_order.trans [OF b] by (auto simp: apart_def)
    ultimately show ?thesis by (simp add: apart_def)
  qed
  then have "sorted_wrt apart (oc_tasks d)" using rest(1) d by (simp only: d(1) sorted_wrt_append) blast
  moreover have "\<forall>q \<in> set (oc_tasks d). can_walk env d t k q \<and> (pool \<longrightarrow> is_dir t q)"
    unfolding d(1) set_append using wr wn by blast
  ultimately show "can_run env pool k t d" using opt_step_ok [OF st] by (simp add: can_run_def)
  show "opt_step env {q. under (oc_tasks c) q} s t" by (rule opt_step_mono [OF st]) (use pin in \<open>auto simp: under_def\<close>)
  show "pending pool t (oc_tasks d) < pending pool s (oc_tasks c)"
  proof (cases pool)
    case False
    with new(2) i d(1) show ?thesis by (simp add: pending_def)
  next
    case True
    have "\<not> prefix n p" if "n \<in> set ?rest \<union> set new" for n
      using that rest(2) [of n] below [of n] by (auto simp: apart_def dest: prefix_order.antisym)
    then have "\<not> under (oc_tasks d) p" unfolding under_def d(1) set_append by blast
    moreover have "dent s p \<noteq> None" "under (oc_tasks c) p" using cw(2) [OF pin True] pin by (auto simp: is_dir_dent under_def)
    moreover have "{q. dent t q \<noteq> None \<and> under (oc_tasks d) q} \<subseteq> {q. dent s q \<noteq> None \<and> under (oc_tasks c) q}"
    proof (rule Collect_mono, intro impI, elim conjE, intro conjI)
      fix q assume q: "dent t q \<noteq> None" "under (oc_tasks d) q"
      show u: "under (oc_tasks c) q" by (rule up [OF q(2)])
      then have "\<not> aux_name env q" using aux by (auto simp: under_def)
      from opt_step_present [OF st this] q(1) show "dent s q \<noteq> None" by blast
    qed
    ultimately have "{q. dent t q \<noteq> None \<and> under (oc_tasks d) q} \<subset> {q. dent s q \<noteq> None \<and> under (oc_tasks c) q}" by blast
    from psubset_card_mono [OF present_finite this] True show ?thesis by (simp add: pending_def)
  qed
qed

declare process_tasks.simps(2) [simp del]

lemma process_tasks_step: "wp (process_tasks (Suc fuel) run) Q E (s, c) =
  (if oc_tasks c = [] then Q () (s, c)
   else wp (run (oc_tasks c ! next_task c)) (\<lambda>_. wp (process_tasks fuel run) Q E) E (s, take_task c))"
  unfolding process_tasks.simps wp_bindM wp_basic prod.case by (simp add: wps)

lemma wp_process_tasks:
  assumes "can_run env pool k s c" "pending pool s (oc_tasks c) < fuel"
  shows "wp (process_tasks fuel (optimisePath0 k env pool False))
     (\<lambda>_ (t, d). opt_step env {q. under (oc_tasks c) q} s t \<and> oc_tasks d = [])
     (\<lambda>e (t, d). opt_step env {q. under (oc_tasks c) q} s t \<and> sys_exn e) (s, c)"
  using assms
proof (induction fuel arbitrary: s c)
  case (Suc fuel)
  have ok: "opt_ok env s" using Suc.prems(1) by (simp add: can_run_def)
  show ?case
  proof (cases "oc_tasks c = []")
    case True
    then show ?thesis by (simp add: process_tasks_step opt_step_refl ok)
  next
    case False
    define p where "p = oc_tasks c ! next_task c"
    have "p \<in> set (oc_tasks c)" using next_task_bound [OF False] by (simp add: p_def)
    then have w: "can_walk env (take_task c) s k p" using Suc.prems(1) can_walk_cong [of "take_task c" c env s k p] by (simp add: can_run_def)
    let ?A = "{q. under (oc_tasks c) q}"
    have "wp (optimisePath0 k env pool False p) (\<lambda>_. wp (process_tasks fuel (optimisePath0 k env pool False))
          (\<lambda>_ (t, d). opt_step env ?A s t \<and> oc_tasks d = []) (\<lambda>e (t, d). opt_step env ?A s t \<and> sys_exn e))
        (\<lambda>e (t, d). opt_step env ?A s t \<and> sys_exn e) (s, take_task c)"
    proof (rule wp_mono [OF wp_optimisePath0 [OF ok w]])
      fix x sc assume post: "walk_post env pool p s (take_task c) sc"
      obtain t d where sc: "sc = (t, d)" by fastforce
      note step = task_step [OF Suc.prems(1) False p_def post [unfolded sc]]
      have "opt_step env ?A s u" if "opt_step env {q. under (oc_tasks d) q} t u" for u
        by (rule opt_step_trans [OF step(3) that]) (use step(4) in auto)
      then show "wp (process_tasks fuel (optimisePath0 k env pool False))
          (\<lambda>_ (t, d). opt_step env ?A s t \<and> oc_tasks d = []) (\<lambda>e (t, d). opt_step env ?A s t \<and> sys_exn e) sc"
        unfolding sc by (intro wp_mono [OF Suc.IH [OF step(1)]]) (use step(2) Suc.prems(2) in auto)
    next
      fix e sc assume post: "walk_post env pool p s (take_task c) sc \<and> sys_exn e"
      then show "(\<lambda>(t, d). opt_step env ?A s t \<and> sys_exn e) sc"
        using task_step(3) [OF Suc.prems(1) False p_def, of "fst sc" "snd sc"] by (simp add: case_prod_beta)
    qed
    with False show ?thesis by (simp add: process_tasks_step p_def)
  qed
qed simp

subsection \<open>A pass\<close>

lemma wp_loadInodeHash:
  "wp (loadInodeHash env) (\<lambda>_ (t, _). same_fs s t) (\<lambda>e (t, _). same_fs s t \<and> sys_exn e) (s, h)"
proof -
  have step: "wp ((\<lambda>(name, ino, ty). seqM (onL fs_checkInterrupt) (onR (modS (insert ino)))) x) (\<lambda>_ (u, _). same_fs s u)
      (\<lambda>e (u, _). same_fs s u \<and> sys_exn e) (t, h)" if "same_fs s t" for x :: "string \<times> nat \<times> file_type" and t h
    by (cases x) (auto simp: wps intro!: wp_mono [OF wp_checkInterrupt] dest: same_fs_trans [OF that])
  show ?thesis
    unfolding loadInodeHash_def wp_bindM wp_onL
  proof (rule wp_mono [OF read_dirents_eq], elim conjE)
    fix es t assume t: "same_fs s t"
    show "wp (forM (\<lambda>(name, ino, ty). seqM (onL fs_checkInterrupt) (onR (modS (insert ino)))) es) (\<lambda>_ (t, _). same_fs s t)
        (\<lambda>e (t, _). same_fs s t \<and> sys_exn e) (t, h)"
      by (rule wp_forM [where I = "\<lambda>_ (t, _). same_fs s t"]) (use t step in auto)
  qed auto
qed

lemma first_walk:
  assumes ok: "opt_ok env s" and w: "can_walk env c s k p" and none: "oc_tasks c = []" and post: "walk_post env True p s c (t, d)"
  shows "can_run env True k t d" "pending True t (oc_tasks d) \<le> length (fs_dents s)"
    "opt_step env {q. prefix p q} s t" "under (oc_tasks d) q \<Longrightarrow> prefix p q"
proof -
  obtain new where new: "walked env (prefix p) s c new t d" "p \<notin> set new" using post by (auto simp: walk_post_def)
  have d: "oc_tasks d = new" and st: "opt_step env {q. prefix p q \<and> \<not> under new q} s t" using new(1) none by (simp_all add: walked_def)
  show "opt_step env {q. prefix p q} s t" by (rule opt_step_mono [OF st]) auto
  have "can_run env True k t d \<and> pending True t (oc_tasks d) \<le> length (fs_dents s) \<and> (under (oc_tasks d) q \<longrightarrow> prefix p q)" for q
  proof (cases "new = []")
    case True
    then show ?thesis using opt_step_ok [OF st] d by (simp add: can_run_def pending_def under_def)
  next
    case False
    then obtain n where n: "prefix p n" "is_dir s n" "n \<noteq> p" using new by (cases new) (auto simp: walked_def)
    obtain i where i: "(n, i) \<in> set (fs_dents s)" using n(2) by (auto simp: is_dir_dent dest: dent_in)
    from n(1) obtain z where z: "n = p @ z" by (rule prefixE)
    with n(3) obtain a r where "z = a # r" by (cases z) simp_all
    with z have a: "n = p @ a # r" by simp
    have "fs_ok s" using ok by (simp add: opt_ok_def)
    from ancestor_dir [OF this i [unfolded a]] have dir: "is_dir s p" .
    let ?c = "c\<lparr>oc_tasks := [p], oc_schedule := 0 # oc_schedule c\<rparr>"
    have taken: "take_task ?c = c" using none by (simp add: take_task_def next_task_def)
    have run: "can_run env True k s ?c" using ok dir w can_walk_cong [of ?c c env s k p] by (simp add: can_run_def)
    have p: "p = oc_tasks ?c ! next_task ?c" by (simp add: next_task_def)
    have post': "walk_post env True p s (take_task ?c) (t, d)" using post by (simp only: taken)
    have ne: "oc_tasks ?c \<noteq> []" by simp
    note step = task_step [OF run ne p post']
    have "pending True s (oc_tasks ?c) \<le> card (fst ` set (fs_dents s))"
      using card_mono [OF _ present_sub] by (simp add: pending_def)
    also have "\<dots> \<le> length (fs_dents s)" by (meson card_image_le card_length finite_set order_trans)
    finally show ?thesis using step by (auto simp: under_def)
  qed
  then show "can_run env True k t d" "pending True t (oc_tasks d) \<le> length (fs_dents s)" "under (oc_tasks d) q \<Longrightarrow> prefix p q" by blast+
qed

lemma wp_pass:
  assumes ok: "opt_ok env s" and w: "can_walk env c s k p" and none: "oc_tasks c = []" and fuel: "length (fs_dents s) < fuel"
  shows "wp (seqM (optimisePath0 k env True False p) (process_tasks fuel (optimisePath0 k env True False)))
     (\<lambda>_ (t, d). opt_step env {q. prefix p q} s t) (\<lambda>e (t, d). opt_step env {q. prefix p q} s t \<and> sys_exn e) (s, c)"
  unfolding wp_seqM
proof (rule wp_mono [OF wp_optimisePath0 [OF ok w]])
  fix x sc assume post: "walk_post env True p s c sc"
  obtain t d where sc: "sc = (t, d)" by fastforce
  note step = first_walk [OF ok w none post [unfolded sc]]
  have mid: "opt_step env {q. prefix p q} s u" if "opt_step env {q. under (oc_tasks d) q} t u" for u
    by (rule opt_step_trans [OF step(3) that]) (use step(4) in auto)
  have "pending True t (oc_tasks d) < fuel" using step(2) fuel by simp
  from wp_process_tasks [OF step(1) this]
  show "wp (process_tasks fuel (optimisePath0 k env True False)) (\<lambda>_ (t, d). opt_step env {q. prefix p q} s t)
      (\<lambda>e (t, d). opt_step env {q. prefix p q} s t \<and> sys_exn e) sc"
    unfolding sc by (rule wp_mono) (use mid in auto)
next
  fix e sc assume "walk_post env True p s c sc \<and> sys_exn e"
  then show "(\<lambda>(t, d). opt_step env {q. prefix p q} s t \<and> sys_exn e) sc"
    using first_walk(3) [OF ok w none, of "fst sc" "snd sc"] by (simp add: case_prod_beta)
qed

text \<open>The hashes that a restore gives are those of the files that it has left.\<close>

definition true_hashes :: "'c opt_env \<Rightarrow> (string \<rightharpoonup> Hash) option \<Rightarrow> fpath \<Rightarrow> fsys \<Rightarrow> bool" where
  "true_hashes env fileHashes p s \<longleftrightarrow> (\<forall>files q i h. fileHashes = Some files \<and> dent s (p @ q) = Some i \<and> leaf (fs_inodes s i) \<and>
     files (if q = [] then ''/'' else native q) = Some h \<longrightarrow> h = node_hash env (fs_inodes s i))"

lemma native_append: "native (p @ q) = native p @ native q"
  by (simp add: native_def)

lemma native_Nil_iff: "native q = [] \<longleftrightarrow> q = []"
  by (cases q) (simp_all add: native_def)

lemma true_hashes_captured:
  "true_hashes env fileHashes p s \<Longrightarrow> prefix p q \<Longrightarrow> oc_fileHashes c = fileHashes \<Longrightarrow> oc_fileHashesBase c = length (native p) \<Longrightarrow>
   captured_ok env c s q"
  by (auto simp: captured_ok_def captured_hash_def true_hashes_def prefix_def native_append native_Nil_iff Let_def split: option.splits if_splits)

text \<open>A path of the store, not one of the names of the optimiser.\<close>

definition store_child :: "'c opt_env \<Rightarrow> string \<Rightarrow> bool" where
  "store_child env n \<longleftrightarrow> n \<noteq> ''.links'' \<and> \<not> prefix ''.tmp-link-'' n"

lemma store_child_not_aux:
  assumes "store_child env n" "prefix (oe_realStoreDir env @ [n]) q"
  shows "\<not> aux_name env q"
  using assms by (auto simp: aux_name_def linksDir_def temp_link_def store_child_def prefix_def append_eq_append_conv2 append_eq_Cons_conv)

lemma can_walk_root:
  assumes "store_child env n" "true_hashes env fileHashes (oe_realStoreDir env @ [n]) s"
    "oc_fileHashes c = fileHashes" "oc_fileHashesBase c = length (native (oe_realStoreDir env @ [n]))"
  shows "can_walk env c s (tree_fuel s) (oe_realStoreDir env @ [n])"
proof -
  have "deep (tree_fuel s) (oe_realStoreDir env @ [n]) s"
    using deep_tree_fuel [of s] by (fastforce simp: deep_def tree_fuel_def)
  moreover have "0 < tree_fuel s" by (simp add: tree_fuel_def)
  ultimately show ?thesis
    using store_child_not_aux [OF assms(1)] true_hashes_captured [OF assms(2)] assms(3,4) not_aux_dirs by (auto simp: can_walk_def)
qed

lemma true_hashes_same: "true_hashes env fh p s \<Longrightarrow> same_fs s t \<Longrightarrow> true_hashes env fh p t"
  by (auto simp: true_hashes_def same_fs_def dent_def)

lemma wp_optimise_pass:
  assumes ok: "opt_ok env s" and n: "store_child env n" and h: "true_hashes env fileHashes (oe_realStoreDir env @ [n]) s"
  defines "A \<equiv> {q. prefix (oe_realStoreDir env @ [n]) q}"
  shows "wp (optimise_pass env fileHashes counter sched (oe_realStoreDir env @ [n]))
    (\<lambda>_. opt_step env A s) (\<lambda>e t. opt_step env A s t \<and> sys_exn e) s"
proof -
  let ?p = "oe_realStoreDir env @ [n]"
  obtain r t ih where l: "loadInodeHash env (s, {}) = (r, (t, ih))" by (metis prod.collapse)
  have t: "same_fs s t" "\<And>e. r = Inl e \<Longrightarrow> sys_exn e"
    using wp_loadInodeHash [of env s "{}"] by (auto simp: wp_def l split: sum.splits)
  let ?c = "(opt_ctx_new ih counter sched)\<lparr>oc_fileHashes := fileHashes, oc_fileHashesBase := length (native ?p)\<rparr>"
  have c: "oc_tasks ?c = []" by (simp add: opt_ctx_new_def)
  have okt: "opt_ok env t" by (rule opt_ok_same [OF ok t(1)])
  have w: "can_walk env ?c t (tree_fuel t) ?p" by (rule can_walk_root [OF n true_hashes_same [OF h t(1)]]) simp_all
  have lift: "opt_step env A s u" if "opt_step env A t u" for u
    by (rule opt_step_trans [OF opt_step_same [OF ok t(1)] that]) (rule subset_refl)+
  have "wp (seqM (optimisePath0 (tree_fuel t) env True False ?p) (process_tasks (task_fuel t) (optimisePath0 (tree_fuel t) env True False)))
     (\<lambda>_ (u, d). opt_step env A t u) (\<lambda>e (u, d). opt_step env A t u \<and> sys_exn e) (t, ?c)"
    unfolding A_def by (rule wp_pass [OF okt w c]) (simp add: task_fuel_def)
  then show ?thesis
    using lift t opt_step_same [OF ok t(1), of A]
    by (auto simp: wp_def optimise_pass_def l Let_def split: prod.splits sum.splits)
qed

subsection \<open>A quiet run links\<close>

lemma quiet_step: "fs_quiet s \<Longrightarrow> same_fs s t \<Longrightarrow> fs_quiet t" "fs_quiet s \<Longrightarrow> frozen s t \<Longrightarrow> fs_quiet t"
  by (simp_all add: same_fs_def frozen_def)

lemma quiet_makeWritable:
  assumes q: "fs_quiet s" and d: "is_dir s d"
  shows "wp (makeWritable d) (\<lambda>_ t. fs_dents t = fs_dents s \<and> frozen s t) (\<lambda>_ _. False) s"
  unfolding makeWritable_def wp_bindM
proof (rule wp_mono [OF wp_lstat])
  fix st t assume t: "same_fs s t \<and> (\<exists>i. dent s d = Some i \<and> st = stat_of s i)"
  then have s: "fs_dents t = fs_dents s" "frozen s t" "fs_quiet t" "is_dir t d"
    using quiet_step(1) [OF q] same_fs_frozen same_fs_is_dir d by (auto simp: same_fs_def)
  have "sysP (sys_chmod d m) (\<lambda>r u. (\<exists>x. r = Inr x) \<and> fs_dents u = fs_dents s \<and> frozen s u) t" for m
    unfolding sys_chmod_def
    by (rule sysP_mono [OF sysP_inode_dir])
      (use s frozen_trans [OF s(2)] in \<open>auto simp: is_dir_dent split: sum.splits\<close>)
  then have "wp (fs_chmod d m) (\<lambda>_ u. fs_dents u = fs_dents s \<and> frozen s u) (\<lambda>_ _. False) t" for m
    unfolding fs_chmod_def wp_sys by (rule sysP_mono) (auto split: sum.split)
  with s show "wp (if ps_mode st AND S_IWUSR = 0 then fs_chmod d (ps_mode st OR S_IWUSR) else ret ())
      (\<lambda>_ t. fs_dents t = fs_dents s \<and> frozen s t) (\<lambda>_ _. False) t"
    by (simp add: wps)
qed (use q d in \<open>auto simp: is_dir_dent\<close>)

lemma MakeReadOnly_dents:
  "wp (MakeReadOnly d) (\<lambda>_ t. fs_dents t = fs_dents s) E s"
proof -
  have ino: "sysP (sys_inode d f) (\<lambda>_ u. fs_dents u = fs_dents s) t" if "fs_dents t = fs_dents s" "\<And>n. in_type (f n) = in_type n" for f t
    using sysP_inode_dir [OF that(2), of d t] by (rule sysP_mono) (use that(1) in simp)
  have ch: "wp (fs_chmod d m) (\<lambda>_ u. fs_dents u = fs_dents s) (\<lambda>_ u. fs_dents u = fs_dents s) t" if "fs_dents t = fs_dents s" for m t
    unfolding fs_chmod_def wp_sys sys_chmod_def by (rule sysP_mono [OF ino [OF that]]) (auto split: sum.split)
  have ti: "wp (setWriteTime d m) (\<lambda>_ u. fs_dents u = fs_dents s) (\<lambda>_ u. fs_dents u = fs_dents s) t" if "fs_dents t = fs_dents s" for m t
    unfolding setWriteTime_def wp_sys sys_utimes_def by (rule sysP_mono [OF ino [OF that]]) (auto split: sum.split)
  have "wp (canonicaliseTimestampAndPermissions d) (\<lambda>_ t. fs_dents t = fs_dents s) (\<lambda>_ t. fs_dents t = fs_dents s) s"
    unfolding canonicaliseTimestampAndPermissions_def wp_bindM
  proof (rule wp_mono [OF wp_lstat], elim conjE)
    fix st t assume "same_fs s t"
    then have t: "fs_dents t = fs_dents s" by (simp add: same_fs_def)
    have "wp (if ps_type st \<noteq> tSymlink \<and> ps_mode st \<noteq> canon_mode st then fs_chmod d (canon_mode st) else ret ())
        (\<lambda>_ u. fs_dents u = fs_dents s) (\<lambda>_ u. fs_dents u = fs_dents s) t" using ch [OF t] t by (simp add: wps)
    then show "wp (canonicaliseTimestampAndPermissions_st d st) (\<lambda>_ t. fs_dents t = fs_dents s) (\<lambda>_ t. fs_dents t = fs_dents s) t"
      unfolding canonicaliseTimestampAndPermissions_st_def wp_seqM by (elim wp_mono) (use ti in \<open>auto simp: wps\<close>)
  qed (simp add: same_fs_def)
  then show ?thesis by (simp add: MakeReadOnly_def wp_swallow)
qed

abbreviation linked_to :: "nat option \<Rightarrow> fpath \<Rightarrow> fpath \<Rightarrow> fsys \<Rightarrow> bool" where
  "linked_to k p lp t \<equiv> \<exists>j. dent t p = Some j \<and> dent t lp = Some j \<and> (k = None \<or> k = Some j)"

abbreviation links :: "nat option \<Rightarrow> (opt_state, unit) M \<Rightarrow> fpath \<Rightarrow> fpath \<Rightarrow> opt_state \<Rightarrow> bool" where
  "links k m p lp sc \<equiv> wp m (\<lambda>_ (t, _). linked_to k p lp t) (\<lambda>_ _. False) sc"

lemma linked_dents: "linked_to k p lp s \<Longrightarrow> fs_dents t = fs_dents s \<Longrightarrow> linked_to k p lp t"
  by (simp add: dent_def)

lemma quiet_swap:
  assumes fs: "fs_ok s" "fs_quiet s" and j: "dent s lp = Some j" "leaf (fs_inodes s j)" and i: "dent s p = Some i" "leaf (fs_inodes s i)"
    and tmp: "dent s (temp_link env (oc_tmpCounter c)) = None" "is_dir s (oe_realStoreDir env)" and ij: "i \<noteq> j"
  shows "links (Some j) (swap_link env p lp st) p lp (s, c)"
proof -
  let ?tmp = "temp_link env (oc_tmpCounter c)"
  have par: "butlast ?tmp = oe_realStoreDir env" by (simp add: temp_link_def)
  have ne: "?tmp \<noteq> p" "?tmp \<noteq> lp" "lp \<noteq> p" using tmp(1) i(1) j(1) ij by auto
  have dir: "\<not> is_dir s p" using i leaf_not_dir by (auto simp: is_dir_dent)
  then have p: "p \<noteq> []" using fs(1) by (auto simp: fs_ok_def)
  have move: "sysP (sys_rename ?tmp p) (\<lambda>r u. (\<exists>x. r = Inr x) \<and> linked_to (Some j) p lp u) t"
    if t: "fs_dents t = fs_dents s @ [(?tmp, j)]" "frozen s t" for t
  proof -
    have d: "dent t q = (if q = ?tmp then Some j else dent s q)" for q by (rule dent_link [OF t(1) tmp(1)])
    have "j < fs_next s" using fs(1) j(1) by (auto simp: fs_ok_def dest!: dent_in)
    then have fst: "fs_ok t" using fs_ok_link [OF fs(1) t(1) tmp(1) _ t(2)] tmp(2) par by simp
    have ino: "fs_inodes t j = fs_inodes s j" "fs_inodes t i = fs_inodes s i" using frozen_leaf_inode [OF t(2)] i(2) j(2) by simp_all
    have dt: "\<not> is_dir t p" using d [of p] ne(1) i ino leaf_not_dir by (auto simp: is_dir_dent)
    have "dent t p = Some i" using d [of p] ne(1) i(1) by simp
    with p fst have pd: "is_dir t (butlast p)" by (auto simp: fs_ok_def dest!: dent_in)
    have jt: "dent t ?tmp = Some j" "in_type (fs_inodes t j) \<noteq> tDirectory" using d ino(1) leaf_not_dir [OF j(2)] by simp_all
    show ?thesis
    proof (rule sysP_mono [OF sysP_rename [OF fst jt pd dt ne(1)]])
      fix r :: "errno + unit" and u assume r: "case r of
          Inr _ \<Rightarrow> dent t p = Some j \<and> same_fs t u \<or> dent t p \<noteq> Some j \<and> frozen t u \<and> fs_dents u = renamed ?tmp p (fs_dents t)
        | Inl e \<Rightarrow> same_fs t u \<and> \<not> fs_quiet t"
      have u: "fs_dents u = renamed ?tmp p (fs_dents t)" "\<exists>x. r = Inr x"
        using r quiet_step(2) [OF fs(2) t(2)] \<open>dent t p = Some i\<close> ij by (auto split: sum.splits)
      from dent_renamed [OF u(1) ne(1) jt(1)] have "dent u p = Some j" "dent u lp = Some j" using ne d [of lp] j(1) by simp_all
      with u(2) show "(\<exists>x. r = Inr x) \<and> linked_to (Some j) p lp u" by blast
    qed
  qed
  show ?thesis
    unfolding swap_link_def wp_bindM wp_seqM wp_basic wp_onR wp_modS prod.case
    unfolding wp_onL wp_sysR
  proof (rule sysP_mono [OF sysP_link])
    fix r t assume r: "case r of
        Inr _ \<Rightarrow> \<exists>i. dent s lp = Some i \<and> in_type (fs_inodes s i) \<noteq> tDirectory \<and> dent s ?tmp = None \<and> is_dir s (butlast ?tmp) \<and>
          fs_dents t = fs_dents s @ [(?tmp, i)] \<and> frozen s t
      | Inl e \<Rightarrow> same_fs s t \<and> (fs_quiet s \<longrightarrow> \<not> (\<exists>i. dent s lp = Some i \<and> in_type (fs_inodes s i) \<noteq> tDirectory) \<or>
          dent s ?tmp \<noteq> None \<and> e = EEXIST \<or> \<not> is_dir s (butlast ?tmp))"
    then obtain x where x: "r = Inr x" "fs_dents t = fs_dents s @ [(?tmp, j)]" "frozen s t"
      using fs(2) j tmp par leaf_not_dir by (cases r) auto
    from move [OF x(2,3)]
    show "wp (case r of
            Inl e \<Rightarrow> if e = EMLINK \<or> e = ENOENT then ret () else throw (SysError e ''creating hard link from %1% to %2%'')
          | Inr _ \<Rightarrow> bindM (onL (sysR (sys_rename ?tmp p))) (\<lambda>r. case r of
                Inl e \<Rightarrow> seqM (onL (swallow (fs_remove ?tmp))) (if e = EMLINK then ret () else throw (SysError e ''renaming %1% to %2%''))
              | Inr _ \<Rightarrow> onR (modS (\<lambda>c. c\<lparr>oc_filesLinked := oc_filesLinked c + 1, oc_bytesFreed :=
                    (if ps_type st = tRegular then oc_bytesFreed c + word_of_nat (ps_size st) else oc_bytesFreed c)\<rparr>))))
        (\<lambda>_ (t, _). linked_to (Some j) p lp t) (\<lambda>_ _. False) (t, c\<lparr>oc_tmpCounter := oc_tmpCounter c + 1\<rparr>)"
      unfolding x(1) sum.case wp_bindM wp_onL wp_sysR by (rule sysP_mono) (auto simp: wps)
  qed
qed

lemma quiet_writable_parent:
  assumes q: "fs_quiet s" and d: "is_dir s (butlast p)"
    and swap: "\<And>t c'. fs_dents t = fs_dents s \<Longrightarrow> frozen s t \<Longrightarrow> oc_tmpCounter c' = oc_tmpCounter c \<Longrightarrow> links k swap p lp (t, c')"
  shows "links k (writable_parent env parentToggled p swap) p lp (s, c)"
proof -
  have wr: "wp (onL (makeWritable (butlast p))) (\<lambda>_ (t, c'). fs_dents t = fs_dents s \<and> frozen s t \<and> c' = c) (\<lambda>_ _. False) (s, c)"
    unfolding wp_onL by (rule wp_mono [OF quiet_makeWritable [OF q d]]) auto
  have fin: "wp (onL (MakeReadOnly (butlast p))) (\<lambda>_ (t, _). linked_to k p lp t) (\<lambda>_ _. E) (t, c')" if "linked_to k p lp t" for t c' E
    unfolding wp_onL prod.case by (rule wp_mono [OF MakeReadOnly_dents [where E = "\<lambda>_ _. E"]]) (use linked_dents [OF that] in auto)
  consider "parentToggled" "oc_toggled c" | "parentToggled" "\<not> oc_toggled c"
    | "\<not> parentToggled" "butlast p \<noteq> oe_realStoreDir env" | "\<not> parentToggled" "butlast p = oe_realStoreDir env"
    by blast
  then show ?thesis
  proof cases
    case 1
    with swap [of s c] show ?thesis by (simp add: writable_parent_def wps)
  next
    case 2
    then have "writable_parent env parentToggled p swap (s, c) =
      seqM (onL (makeWritable (butlast p))) (seqM (onR (modS (\<lambda>c. c\<lparr>oc_toggled := True\<rparr>))) swap) (s, c)"
      by (simp add: writable_parent_def seqM_def bindM_def split: prod.split sum.split)
    moreover have "links k (seqM (onL (makeWritable (butlast p))) (seqM (onR (modS (\<lambda>c. c\<lparr>oc_toggled := True\<rparr>))) swap)) p lp (s, c)"
      unfolding wp_seqM wp_onR wp_modS by (rule wp_mono [OF wr]) (auto simp: wps intro!: swap)
    ultimately show ?thesis by (simp add: wp_def)
  next
    case 3
    then have "writable_parent env parentToggled p swap = seqM (onL (makeWritable (butlast p))) (finallyM swap (onL (MakeReadOnly (butlast p))))"
      by (simp add: writable_parent_def)
    moreover have "links k (finallyM swap (onL (MakeReadOnly (butlast p)))) p lp (t, c)" if "fs_dents t = fs_dents s" "frozen s t" for t
      unfolding wp_finallyM
    proof (rule wp_mono [OF swap [OF that refl]])
      fix x and sc :: opt_state assume "case sc of (t, _) \<Rightarrow> linked_to k p lp t"
      then show "links k (onL (MakeReadOnly (butlast p))) p lp sc" using fin [of "fst sc" False "snd sc"] by (cases sc) simp
    qed simp
    ultimately show ?thesis by (simp only: wp_seqM) (rule wp_mono [OF wr], auto)
  next
    case 4
    with swap [of s c] show ?thesis by (simp add: writable_parent_def)
  qed
qed

lemma quiet_find_link:
  assumes ok: "opt_ok env s" and q: "fs_quiet s" and i: "dent s p = Some i" "leaf (fs_inodes s i)"
    and lp: "lp = farm_path env (fs_inodes s i)"
  shows "wp (find_link lp (stat_of s i)) (\<lambda>r t. same_fs s t \<and> r = map_option (stat_of s) (dent s lp)) (\<lambda>_ _. False) s"
  unfolding find_link_def wp_bindM
proof (rule wp_mono [OF wp_maybeLstat])
  fix r t assume r: "same_fs s t \<and> (case r of Some st \<Rightarrow> \<exists>i. dent s lp = Some i \<and> st = stat_of s i | None \<Rightarrow> fs_quiet s \<longrightarrow> dent s lp = None)"
  have less: "k < fs_next s" if "dent s q = Some k" for q k using that ok by (auto simp: opt_ok_def fs_ok_def dest!: dent_in)
  have "ps_size (stat_of s j) = ps_size (stat_of s i)" if j: "dent s lp = Some j" for j
  proof -
    have "leaf (fs_inodes s j)" "link_name env (fs_inodes s j) = link_name env (fs_inodes s i)"
      using ok less [OF i(1)] i(2) j lp by (simp_all add: opt_ok_def farm_ok_def)
    then have "node_fso (fs_inodes s j) = node_fso (fs_inodes s i)"
      using ok less [OF i(1)] less [OF j] i(2) unfolding opt_ok_def no_collision_def by blast
    then show ?thesis by (auto simp: stat_of_def Let_def node_fso_def split: if_splits)
  qed
  with r q show "wp (case r of None \<Rightarrow> ret None
       | Some l \<Rightarrow> if ps_size (stat_of s i) \<noteq> ps_size l then seqM (unlinkIfExists lp) (ret None) else ret (Some l))
      (\<lambda>r t. same_fs s t \<and> r = map_option (stat_of s) (dent s lp)) (\<lambda>_ _. False) t"
    by (auto simp: wps split: option.splits)
qed (use q in auto)

lemma quiet_link_file:
  assumes ok: "opt_ok env s" and q: "fs_quiet s" and i: "dent s p = Some i" "leaf (fs_inodes s i)"
    and lp: "lp = farm_path env (fs_inodes s i)" and tmp: "dent s (temp_link env (oc_tmpCounter c)) = None"
  shows "links (dent s lp) (link_file env parentToggled p lp (stat_of s i)) p lp (s, c)"
proof -
  have fs: "fs_ok s" "is_dir s (linksDir env)" "is_dir s (oe_realStoreDir env)" using ok by (simp_all add: opt_ok_def)
  have "\<not> is_dir s p" using i leaf_not_dir by (auto simp: is_dir_dent)
  then have "p \<noteq> []" using fs(1) by (auto simp: fs_ok_def)
  then have par: "is_dir s (butlast p)" using i(1) fs(1) by (auto simp: fs_ok_def dest!: dent_in)
  have less: "k < fs_next s" if "dent s q = Some k" for q k using that fs(1) by (auto simp: fs_ok_def dest!: dent_in)
  show ?thesis
  proof (cases "dent s lp")
    case None
    have pub: "wp (publish_link p lp (stat_of s i)) (\<lambda>r (t, _). r = None \<and> linked_to (dent s lp) p lp t) (\<lambda>_ _. False) (t, c)" if t: "same_fs s t" for t
      unfolding publish_link_def wp_bindM wp_onL wp_sysR
    proof (rule sysP_mono [OF sysP_link])
      fix r u assume r: "case r of
          Inr _ \<Rightarrow> \<exists>i. dent t p = Some i \<and> in_type (fs_inodes t i) \<noteq> tDirectory \<and> dent t lp = None \<and> is_dir t (butlast lp) \<and>
            fs_dents u = fs_dents t @ [(lp, i)] \<and> frozen t u
        | Inl e \<Rightarrow> same_fs t u \<and> (fs_quiet t \<longrightarrow> \<not> (\<exists>i. dent t p = Some i \<and> in_type (fs_inodes t i) \<noteq> tDirectory) \<or>
            dent t lp \<noteq> None \<and> e = EEXIST \<or> \<not> is_dir t (butlast lp))"
      have st: "dent t p = Some i" "dent t lp = None" "is_dir t (butlast lp)" "fs_quiet t" "fs_inodes t = fs_inodes s"
        using None i(1) fs(2) lp quiet_step(1) [OF q t] t by (simp_all add: same_fs_eqs [OF t] farm_path_def) (simp add: same_fs_def)
      then obtain x where x: "r = Inr x" "fs_dents u = fs_dents t @ [(lp, i)]"
        using r i(2) leaf_not_dir by (cases r) auto
      have ne: "p \<noteq> lp" using st by auto
      have "linked_to (dent s lp) p lp u" using dent_link [OF x(2) st(2)] ne st(1) None by simp
      with x(1) show "wp (case r of
            Inl e \<Rightarrow> if e = EEXIST then onL (maybeLstat lp) else if e = ENOSPC then ret None
                     else throw (SysError e ''creating hard link from %1% to %2%'')
          | Inr x \<Rightarrow> seqM (onR (modS (\<lambda>c. c\<lparr>oc_inodeHash := insert (ps_ino (stat_of s i)) (oc_inodeHash c)\<rparr>))) (ret None))
          (\<lambda>r (t, _). r = None \<and> linked_to (dent s lp) p lp t) (\<lambda>_ _. False) (u, c)"
        by (simp add: wps)
    qed
    show ?thesis
      unfolding link_file_def wp_bindM wp_onL prod.case
    proof (rule wp_mono [OF quiet_find_link [OF ok q i lp]])
      fix r t assume r: "same_fs s t \<and> r = map_option (stat_of s) (dent s lp)"
      with None have "r = None" by simp
      have "wp (publish_link p lp (stat_of s i)) (\<lambda>r (t, _). r = None \<and> linked_to (dent s lp) p lp t) (\<lambda>_ _. False) (t, c)"
        using pub r by simp
      then show "wp (if r = None then publish_link p lp (stat_of s i) else ret r)
          (\<lambda>x. wp (case x of None \<Rightarrow> ret () | Some l \<Rightarrow> if ps_ino (stat_of s i) = ps_ino l then ret ()
              else writable_parent env parentToggled p (swap_link env p lp (stat_of s i)))
            (\<lambda>_ (t, _). linked_to (dent s lp) p lp t) (\<lambda>_ _. False)) (\<lambda>_ _. False) (t, c)"
        unfolding \<open>r = None\<close> if_P [OF refl] by (rule wp_mono) (auto simp: wps)
    qed simp
  next
    case (Some j)
    have lj: "leaf (fs_inodes s j)" using ok less [OF i(1)] i(2) Some lp by (simp add: opt_ok_def farm_ok_def)
    have swap: "links (dent s lp) (writable_parent env parentToggled p (swap_link env p lp (stat_of s i))) p lp (t, c)" if t: "same_fs s t" and ij: "i \<noteq> j" for t
    proof (rule quiet_writable_parent)
      show "fs_quiet t" "is_dir t (butlast p)" using quiet_step(1) [OF q t] par same_fs_is_dir [OF t] by simp_all
      fix u and d :: opt_ctx assume u: "fs_dents u = fs_dents t" "frozen t u" "oc_tmpCounter d = oc_tmpCounter c"
      have su: "frozen s u" using same_fs_frozen [OF t] u(2) by (rule frozen_trans)
      have du: "fs_dents u = fs_dents s" using u(1) t by (simp add: same_fs_def)
      then have d: "dent u x = dent s x" for x by (simp add: dent_def)
      note ino = frozen_leaf_inode [OF su]
      show "links (dent s lp) (swap_link env p lp (stat_of s i)) p lp (u, d)"
        unfolding Some
      proof (rule quiet_swap [OF frozen_ok [OF fs(1) su du] quiet_step(2) [OF q su]])
        show "dent u lp = Some j" "leaf (fs_inodes u j)" "dent u p = Some i" "leaf (fs_inodes u i)"
          using d Some i(1) lj i(2) ino [OF lj] ino [OF i(2)] by simp_all
        show "dent u (temp_link env (oc_tmpCounter d)) = None" using d tmp u(3) by simp
        show "is_dir u (oe_realStoreDir env)" using fs(3) frozen_is_dir [OF su d] by simp
      qed (rule ij)
    qed
    show ?thesis
      unfolding link_file_def wp_bindM wp_onL prod.case
    proof (rule wp_mono [OF quiet_find_link [OF ok q i lp]])
      fix r t assume r: "same_fs s t \<and> r = map_option (stat_of s) (dent s lp)"
      have ino: "ps_ino (stat_of s k) = k" for k by (simp add: stat_of_def Let_def)
      have "links (dent s lp) (if i = j then ret () else writable_parent env parentToggled p (swap_link env p lp (stat_of s i))) p lp (t, c)"
        using swap [of t] r Some i(1) by (auto simp: wps same_fs_dent)
      with r Some show "wp (if r = None then publish_link p lp (stat_of s i) else ret r)
          (\<lambda>x. wp (case x of None \<Rightarrow> ret () | Some l \<Rightarrow> if ps_ino (stat_of s i) = ps_ino l then ret ()
              else writable_parent env parentToggled p (swap_link env p lp (stat_of s i)))
            (\<lambda>_ (t, _). linked_to (dent s lp) p lp t) (\<lambda>_ _. False)) (\<lambda>_ _. False) (t, c)"
        by (simp add: wps ino)
    qed simp
  qed
qed

text \<open>What is linked: links where the platform has them, files that are closed and not empty.\<close>

definition farmable :: "'c opt_env \<Rightarrow> inode \<Rightarrow> bool" where
  "farmable env n \<longleftrightarrow> in_type n = tSymlink \<and> oe_can_link_symlink env \<or>
     in_type n = tRegular \<and> in_mode n AND S_IWUSR = 0 \<and> in_data n \<noteq> []"

lemma quiet_optimise_file:
  assumes ok: "opt_ok env s" and q: "fs_quiet s" and i: "dent s p = Some i" "farmable env (fs_inodes s i)"
    and new: "\<not> (1 < nlink s i \<and> i \<in> oc_inodeHash c)" and cap: "captured_ok env c s p"
    and tmp: "dent s (temp_link env (oc_tmpCounter c)) = None"
  shows "links (dent s (farm_path env (fs_inodes s i))) (optimise_file env parentToggled p (stat_of s i)) p (farm_path env (fs_inodes s i)) (s, c)"
proof -
  let ?n = "fs_inodes s i" and ?st = "stat_of s i"
  have leaf: "leaf ?n" using i(2) by (auto simp: farmable_def leaf_def)
  have st: "ps_type ?st = in_type ?n" "ps_mode ?st = in_mode ?n" "ps_size ?st = length (in_data ?n)" "ps_nlink ?st = nlink s i" "ps_ino ?st = i"
    by (simp_all add: stat_of_def Let_def)
  let ?link = "bindM (optimise_hash env p ?st) (\<lambda>h. bindM (liftE (hash_to_string h Nix32 False)) (\<lambda>hashStr.
      link_file env parentToggled p (linksDir env @ [hashStr]) ?st))"
  let ?c = "c\<lparr>oc_visited := oc_visited c + 1\<rparr>"
  have "captured_hash ?c p x = captured_hash c p x" for x by (rule captured_hash_cong) simp_all
  then have cap': "captured_ok env ?c s p" using cap by (simp add: captured_ok_def)
  have linked: "links (dent s (farm_path env (fs_inodes s i))) (link_file env parentToggled p (farm_path env ?n) ?st) p (farm_path env ?n) (t, ?c)" if t: "same_fs s t" for t
  proof -
    have n: "fs_inodes t i = ?n" "stat_of t i = ?st" "dent t p = Some i" "dent t (temp_link env (oc_tmpCounter ?c)) = None"
      using i(1) tmp t by (simp_all add: same_fs_eqs [OF t]) (simp add: same_fs_def)
    have "leaf (fs_inodes t i)" "farm_path env ?n = farm_path env (fs_inodes t i)" using leaf n(1) by simp_all
    from quiet_link_file [OF opt_ok_same [OF ok t] quiet_step(1) [OF q t] n(3) this n(4)] show ?thesis by (simp only: n(2) same_fs_dent [OF t])
  qed
  have "links (dent s (farm_path env (fs_inodes s i))) ?link p (farm_path env ?n) (s, ?c)"
    unfolding wp_bindM
    by (rule wp_mono [OF wp_optimise_hash [OF ok i(1) leaf cap']])
      (use linked q link_name_string [OF ok] in \<open>auto simp: wps farm_path_def [symmetric]\<close>)
  moreover have "optimise_file env parentToggled p ?st (s, c) = ?link (s, ?c)"
    using i(2) new by (auto simp: optimise_file_def st farmable_def seqM_def bindM_def onR_def split: prod.split sum.split)
  ultimately show ?thesis by (simp add: wp_def)
qed

subsection \<open>The whole store\<close>

lemma retry_result:
  assumes "\<And>s x t. m s = (Inr x, t) \<Longrightarrow> P x"
  shows "wp (retrySQLite m) (\<lambda>x _. P x) (\<lambda>_ _. True) s"
proof -
  have "wp (retry_loop k m) (\<lambda>x _. P x) (\<lambda>_ _. True) s" for k s
  proof (induction k arbitrary: s)
    case (Suc k)
    have "P x" if "retry_loop (Suc k) m s = (Inr x, t)" for x t
    proof -
      obtain r u where m: "m s = (r, u)" by fastforce
      show ?thesis
      proof (cases r)
        case (Inr y)
        then show ?thesis using that m assms by (simp add: catchM_def)
      next
        case (Inl e)
        with that m obtain v where "retry_loop k m v = (Inr x, t)"
          by (cases e) (auto simp: catchM_def seqM_def bindM_def split: prod.splits sum.splits)
        with Suc.IH [of v] show ?thesis by (simp add: wp_def)
      qed
    qed
    then show ?case by (auto simp: wp_def split: prod.split sum.split)
  qed (simp add: wps)
  then show ?thesis by (simp only: wp_def retrySQLite_def)
qed

lemma insert_all_valid:
  assumes "store_dir_ok storeDir" "insert_all storeDir ss acc = Inr ps" "distinct acc" "\<forall>p \<in> set acc. sp_ok p"
  shows "distinct ps \<and> (\<forall>p \<in> set ps. sp_ok p)"
  using assms
proof (induction ss arbitrary: acc)
  case (Cons s ss)
  then obtain p where p: "parseStorePath storeDir s = Inr p" "insert_all storeDir ss (path_insert p acc) = Inr ps"
    by (auto simp: bindE_def split: sum.splits)
  have ok: "sp_ok p" by (rule parse_result(1) [OF Cons.prems(1) p(1)])
  have "set (path_insert p acc) = insert p (set acc)" by (auto simp: path_insert_def set_insort_key)
  with ok Cons.prems(4) have "\<forall>q \<in> set (path_insert p acc). sp_ok q" by simp
  moreover have "distinct (path_insert p acc)" using Cons.prems(3) by (simp add: path_insert_def distinct_insort)
  ultimately show ?case by (intro Cons.IH [OF Cons.prems(1) p(2)])
qed simp

lemma wp_queryAllValidPaths:
  assumes "store_dir_ok storeDir"
  shows "wp (queryAllValidPaths storeDir) (\<lambda>ps _. distinct ps \<and> (\<forall>p \<in> set ps. sp_ok p)) (\<lambda>_ _. True) s"
  unfolding queryAllValidPaths_def
proof (rule retry_result)
  fix s ps t assume "bindM QueryValidPaths (\<lambda>ss. liftE (insert_all storeDir ss [])) s = (Inr ps, t)"
  then obtain ss where "insert_all storeDir ss [] = Inr ps"
    by (auto simp: bindM_def liftE_def split: prod.splits sum.splits)
  from insert_all_valid [OF assms this] show "distinct ps \<and> (\<forall>p \<in> set ps. sp_ok p)" by simp
qed

lemma sp_store_child: "sp_ok p \<Longrightarrow> store_child env (sp_to_string p)"
proof -
  assume "sp_ok p"
  then have v: "33 \<le> length (sp_baseName p)" "list_all (\<lambda>c. \<not> illegal_hash_char c) (take 32 (sp_baseName p))"
    by (simp_all add: sp_ok_def valid_baseName_def)
  then obtain c cs where b: "sp_baseName p = c # cs" by (cases "sp_baseName p") simp_all
  have "\<not> illegal_hash_char c" using v(2) by (simp add: b take_Cons')
  moreover have "illegal_hash_char CHR ''.''" by code_simp
  ultimately show ?thesis by (auto simp: store_child_def sp_to_string_def b)
qed

lemma wp_isValidPath: "wp (isValidPath storeDir p) (\<lambda>_ _. True) (\<lambda>_ _. True) s"
  by (simp add: wp_def split: prod.split sum.split)

text \<open>The tasks are distinct paths of the store, in the order of the query.\<close>

lemma wp_enqueue_all:
  assumes "distinct paths" "c = opt_ctx_new ih counter sched"
  shows "wp (forM (enqueue_valid env storeDir) paths)
     (\<lambda>_ (db, t, d). t = s \<and> (\<exists>qs. d = c\<lparr>oc_tasks := map (\<lambda>q. oe_realStoreDir env @ [sp_to_string q]) qs\<rparr> \<and>
        distinct qs \<and> set qs \<subseteq> set paths \<and> length qs \<le> length paths))
     (\<lambda>_ (db, t, d). t = s) (db, s, c)"
proof (rule wp_forM [where I = "\<lambda>rest (db, t, d). t = s \<and> distinct rest \<and> set rest \<subseteq> set paths \<and>
    (\<exists>qs. d = c\<lparr>oc_tasks := map (\<lambda>q. oe_realStoreDir env @ [sp_to_string q]) qs\<rparr> \<and>
      distinct qs \<and> set qs \<subseteq> set paths \<and> set qs \<inter> set rest = {} \<and> length qs + length rest \<le> length paths)"], goal_cases)
  case 1
  have "c = c\<lparr>oc_tasks := []\<rparr>" using assms(2) by (simp add: opt_ctx_new_def)
  then show ?case using assms(1) by (auto intro!: exI [of _ "[]"])
next
  case (2 x rest sc)
  then obtain db qs where sc: "sc = (db, s, c\<lparr>oc_tasks := map (\<lambda>q. oe_realStoreDir env @ [sp_to_string q]) qs\<rparr>)"
    and qs: "distinct (x # rest)" "set (x # rest) \<subseteq> set paths" "distinct qs" "set qs \<subseteq> set paths" "set qs \<inter> set (x # rest) = {}"
      "length qs + length (x # rest) \<le> length paths"
    by auto
  show ?case
    unfolding sc enqueue_valid_def wp_bindM wp_onL
  proof (rule wp_mono [OF wp_isValidPath])
    fix valid and db' :: store_db
    let ?I = "\<lambda>(db, t, d). t = s \<and> distinct rest \<and> set rest \<subseteq> set paths \<and>
      (\<exists>qs. d = c\<lparr>oc_tasks := map (\<lambda>q. oe_realStoreDir env @ [sp_to_string q]) qs\<rparr> \<and>
        distinct qs \<and> set qs \<subseteq> set paths \<and> set qs \<inter> set rest = {} \<and> length qs + length rest \<le> length paths)"
    have "?I (db', s, c\<lparr>oc_tasks := map (\<lambda>q. oe_realStoreDir env @ [sp_to_string q]) qs\<rparr>)"
      using qs by (auto intro!: exI [of _ qs])
    moreover have "?I (db', s, c\<lparr>oc_tasks := map (\<lambda>q. oe_realStoreDir env @ [sp_to_string q]) (qs @ [x])\<rparr>)"
      using qs by (auto intro!: exI [of _ "qs @ [x]"])
    ultimately show "wp (if \<not> valid then ret () else onR (onR (modS (\<lambda>c. c\<lparr>oc_tasks := oc_tasks c @ [oe_realStoreDir env @ [sp_to_string x]]\<rparr>))))
        (\<lambda>_. ?I) (\<lambda>_ (db, t, d). t = s) (db', s, c\<lparr>oc_tasks := map (\<lambda>q. oe_realStoreDir env @ [sp_to_string q]) qs\<rparr>)"
      by (simp add: wps)
  qed simp
next
  case (3 sc)
  then show ?case by auto
qed

lemma apart_siblings: "a \<noteq> b \<Longrightarrow> apart (d @ [a]) (d @ [b])"
  by (auto simp: apart_def prefix_def)

lemma can_run_paths:
  assumes ok: "opt_ok env s" and c: "oc_fileHashes c = None" "oc_tasks c = map (\<lambda>q. oe_realStoreDir env @ [sp_to_string q]) qs"
    and qs: "distinct qs" "\<forall>q \<in> set qs. sp_ok q"
  shows "can_run env False (tree_fuel s) s c"
proof -
  have "inj_on sp_to_string (set qs)" by (auto simp: inj_on_def sp_to_string_def StorePath.expand)
  then have "distinct (map sp_to_string qs)" using qs(1) by (simp add: distinct_map)
  moreover have "distinct xs \<Longrightarrow> sorted_wrt (\<noteq>) xs" for xs :: "string list" by (induction xs) auto
  ultimately have "sorted_wrt (\<noteq>) (map sp_to_string qs)" by blast
  then have "sorted_wrt apart (oc_tasks c)" unfolding c(2) sorted_wrt_map by (rule sorted_wrt_mono_rel [rotated]) (rule apart_siblings)
  moreover have "can_walk env c s (tree_fuel s) (oe_realStoreDir env @ [sp_to_string q])" if "q \<in> set qs" for q
  proof -
    have "captured_ok env c s x" for x using c(1) by (simp add: captured_ok_def captured_hash_def)
    moreover have "deep (tree_fuel s) p s" for p using deep_tree_fuel [of s] by (fastforce simp: deep_def tree_fuel_def)
    moreover have "0 < tree_fuel s" by (simp add: tree_fuel_def)
    moreover have "sp_ok q" using qs(2) that by blast
    from store_child_not_aux [OF sp_store_child [OF this]]
    have "\<not> aux_name env r" if "prefix (oe_realStoreDir env @ [sp_to_string q]) r" for r using that .
    ultimately show ?thesis using not_aux_dirs(1) [of env] by (simp add: can_walk_def)
  qed
  ultimately show ?thesis using ok c(2) by (auto simp: can_run_def)
qed

lemma optimiseStore_safe:
  assumes ok: "opt_ok env s" and dir: "store_dir_ok storeDir"
    and run: "optimiseStore env storeDir counter sched stats (db, s) = (r, (db', t))"
  shows "opt_step env {q. \<exists>p. sp_ok p \<and> prefix (oe_realStoreDir env @ [sp_to_string p]) q} s t"
proof -
  let ?A = "{q. \<exists>p. sp_ok p \<and> prefix (oe_realStoreDir env @ [sp_to_string p]) q}"
  have none: "opt_step env ?A s s" by (rule opt_step_refl [OF ok])
  obtain r1 db1 where q: "queryAllValidPaths storeDir db = (r1, db1)" by fastforce
  show ?thesis
  proof (cases r1)
    case (Inl e)
    with q run none show ?thesis by (simp add: optimiseStore_def bindM_def onL_def)
  next
    case (Inr paths)
    have paths: "distinct paths" "\<forall>p \<in> set paths. sp_ok p"
      using wp_queryAllValidPaths [OF dir, of db] by (simp_all add: wp_def q Inr)
    obtain r2 u ih where l: "loadInodeHash env (s, {}) = (r2, (u, ih))" by (metis prod.collapse)
    have u: "same_fs s u" using wp_loadInodeHash [of env s "{}"] by (auto simp: wp_def l split: sum.splits)
    have su: "opt_step env ?A s u" by (rule opt_step_same [OF ok u])
    have oku: "opt_ok env u" by (rule opt_step_ok [OF su])
    show ?thesis
    proof (cases r2)
      case (Inl e)
      with q \<open>r1 = Inr paths\<close> run l su show ?thesis by (auto simp: optimiseStore_def bindM_def onL_def onR_def)
    next
      case (Inr x)
      let ?c = "opt_ctx_new ih counter sched"
      let ?m = "seqM (forM (enqueue_valid env storeDir) paths)
        (onR (process_tasks (Suc (length paths)) (optimisePath0 (tree_fuel u) env False False)))"
      have "wp ?m (\<lambda>_ (db, v, d). opt_step env ?A u v) (\<lambda>_ (db, v, d). opt_step env ?A u v) (db1, u, ?c)"
        unfolding wp_seqM
      proof (rule wp_mono [OF wp_enqueue_all [OF paths(1) refl, of env storeDir u ih counter sched db1]])
        fix y sc assume "case sc of (db, t, d) \<Rightarrow> t = u \<and> (\<exists>qs. d = ?c\<lparr>oc_tasks := map (\<lambda>q. oe_realStoreDir env @ [sp_to_string q]) qs\<rparr> \<and>
          distinct qs \<and> set qs \<subseteq> set paths \<and> length qs \<le> length paths)"
        then obtain db2 qs where sc: "sc = (db2, u, ?c\<lparr>oc_tasks := map (\<lambda>q. oe_realStoreDir env @ [sp_to_string q]) qs\<rparr>)"
          and qs: "distinct qs" "set qs \<subseteq> set paths" "length qs \<le> length paths" by auto
        let ?d = "?c\<lparr>oc_tasks := map (\<lambda>q. oe_realStoreDir env @ [sp_to_string q]) qs\<rparr>"
        have run: "can_run env False (tree_fuel u) u ?d"
          by (rule can_run_paths [OF oku _ _ qs(1)]) (use qs(2) paths(2) in \<open>auto simp: opt_ctx_new_def\<close>)
        have le: "pending False u (oc_tasks ?d) < Suc (length paths)" using qs(3) by (simp add: pending_def)
        have sub: "{q. under (oc_tasks ?d) q} \<subseteq> ?A" using qs(2) paths(2) by (auto simp: under_def)
        show "wp (onR (process_tasks (Suc (length paths)) (optimisePath0 (tree_fuel u) env False False)))
            (\<lambda>_ (db, v, d). opt_step env ?A u v) (\<lambda>_ (db, v, d). opt_step env ?A u v) sc"
          unfolding sc wp_onR by (rule wp_mono [OF wp_process_tasks [OF run le]]) (auto intro: opt_step_mono [OF _ sub])
      qed (use opt_step_refl [OF oku] in auto)
      moreover obtain r3 db3 v d where m: "?m (db1, u, ?c) = (r3, (db3, (v, d)))" by (metis prod.collapse)
      ultimately have uv: "opt_step env ?A u v" by (simp add: wp_def split: sum.splits)
      have "t = v" using q \<open>r1 = Inr paths\<close> run l Inr m by (auto simp: optimiseStore_def bindM_def onL_def onR_def split: sum.splits)
      with opt_step_trans [OF su uv] show ?thesis by blast
    qed
  qed
qed

subsection \<open>Properties\<close>

text \<open>A store with an empty farm and a directory of two equal files.\<close>

definition farm_env :: "string opt_env" where
  "farm_env = \<lparr> oe_sha = toy_sha, oe_realStoreDir = [''s''], oe_pid = 7, oe_can_link_symlink = True \<rparr>"

definition farm_fs :: fsys where
  "farm_fs = \<lparr> fs_dents = [([], 0), ([''s''], 1), ([''s'', ''.links''], 2), ([''s'', ''x''], 3), ([''s'', ''x'', ''a''], 4), ([''s'', ''x'', ''b''], 5)],
     fs_inodes = (\<lambda>i. if i < 4 then example_dir else blank_inode\<lparr>in_data := ''abc'', in_mode := 0x124, in_mtime := 1\<rparr>),
     fs_next = 6, fs_now = 7, fs_faults = [], fs_signals = [] \<rparr>"

lemma farm_fs_ok: "opt_ok farm_env farm_fs" "fs_quiet farm_fs" "store_child farm_env ''x''"
proof -
  have "fs_ok farm_fs" "is_dir farm_fs [''s'']" "is_dir farm_fs [''s'', ''.links'']"
    by (simp_all add: fs_ok_def is_dir_def dent_def farm_fs_def example_dir_def blank_inode_def)
  moreover have "farm_ok farm_env farm_fs"
    by (simp add: farm_ok_def farm_path_def linksDir_def farm_env_def farm_fs_def dent_def)
  moreover have "no_collision farm_env farm_fs" "nar_sized farm_fs"
    by (auto simp: no_collision_def nar_sized_def farm_fs_def leaf_def node_fso_def blank_inode_def example_dir_def)
  ultimately show "opt_ok farm_env farm_fs"
    by (simp add: opt_ok_def toy_sha_ok linksDir_def farm_env_def)
  show "fs_quiet farm_fs" by (simp add: fs_quiet_def farm_fs_def)
  show "store_child farm_env ''x''" by (simp add: store_child_def)
qed



text \<open>
  C29.  When no call fails, a link, or a file that is not empty and not writable, is linked: after its
  turn it is the same inode as the link of its hash, which is the one that was there when there
  was one and which has the contents it had; so two files of the same contents share an inode. No other
  path outside the farm is touched.
\<close>

theorem optimise_file_links:
  assumes "opt_ok env s" "fs_quiet s" "dent s p = Some i" "farmable env (fs_inodes s i)"
    and "\<not> (1 < nlink s i \<and> i \<in> oc_inodeHash c)" "captured_ok env c s p" "dent s (temp_link env (oc_tmpCounter c)) = None"
    and "\<not> aux_name env p" "\<not> aux_name env (butlast p)"
  shows "\<exists>t c' j. optimise_file env parentToggled p (stat_of s i) (s, c) = (Inr (), (t, c')) \<and>
    dent t p = Some j \<and> dent t (farm_path env (fs_inodes s i)) = Some j \<and>
    node_fso (fs_inodes t j) = node_fso (fs_inodes s i) \<and>
    (\<forall>k. dent s (farm_path env (fs_inodes s i)) = Some k \<longrightarrow> j = k) \<and>
    (\<forall>q. \<not> aux_name env q \<and> q \<noteq> p \<longrightarrow> dent t q = dent s q)"
proof -
  obtain r t c' where run: "optimise_file env parentToggled p (stat_of s i) (s, c) = (r, (t, c'))" by (metis prod.collapse)
  have leaf: "leaf (fs_inodes s i)" using assms(4) by (auto simp: farmable_def leaf_def)
  have "r = Inr () \<and> linked_to (dent s (farm_path env (fs_inodes s i))) p (farm_path env (fs_inodes s i)) t"
    using quiet_optimise_file [OF assms(1-7), of parentToggled] by (cases r) (simp_all add: wp_def run)
  moreover have st: "opt_step env {p} s t"
    using run_safe_optimise_file [OF assms(1,8,9,3,6), of parentToggled]
    by (auto simp: run_safe_def wp_def run split: sum.splits)
  moreover have "node_fso (fs_inodes t j) = node_fso (fs_inodes s i)" if "dent t p = Some j" for j
  proof -
    have "content t p = content s p" using st assms(8) by (simp add: opt_step_def)
    with that assms(3) leaf show ?thesis by (simp add: content_def Let_def split: if_splits)
  qed
  ultimately show ?thesis using run by (auto simp: opt_step_def)
qed

theorem optimise_file_links_witness:
  "\<exists>t c' j. optimise_file farm_env True [''s'', ''x'', ''a''] (stat_of farm_fs 4) (farm_fs, opt_ctx_new {} 0 []) = (Inr (), (t, c')) \<and>
    dent t [''s'', ''x'', ''a''] = Some j \<and> dent t (farm_path farm_env (fs_inodes farm_fs 4)) = Some j"
proof -
  have i: "dent farm_fs [''s'', ''x'', ''a''] = Some 4" "farmable farm_env (fs_inodes farm_fs 4)" "nlink farm_fs 4 = 1"
    by (simp_all add: dent_def farm_fs_def farmable_def blank_inode_def S_IWUSR_def nlink_def example_dir_def)
  have c: "captured_ok farm_env (opt_ctx_new {} 0 []) farm_fs [''s'', ''x'', ''a'']"
    by (simp add: captured_ok_def captured_hash_def opt_ctx_new_def)
  have t: "dent farm_fs (temp_link farm_env (oc_tmpCounter (opt_ctx_new {} 0 []))) = None"
    by (simp add: dent_def farm_fs_def temp_link_def farm_env_def)
  have a: "\<not> aux_name farm_env [''s'', ''x'', ''a'']" "\<not> aux_name farm_env (butlast [''s'', ''x'', ''a''])"
    by (simp_all add: aux_name_def linksDir_def temp_link_def farm_env_def)
  show ?thesis using optimise_file_links [OF farm_fs_ok(1,2) i(1,2) _ c t a, of True] i(3) by auto
qed

end
