(* ===== verification/PathLocks.thy ===== *)
theory PathLocks
  imports FileSystem "HOL-Library.List_Lexorder" "HOL-Library.Char_ord"
begin

text \<open>
  File locks (\<open>libstore/pathlocks.cc\<close>).  A lock on a path is an advisory lock on the file of that name
  with \<open>.lock\<close> at its end; a process that deletes that file writes a byte to it, so that one who still
  has it open sees that it is stale.

  Two views.  \<open>lockFile\<close> and \<open>FdLock\<close> are computations over a script of what the kernel answers.
  \<open>lockPaths\<close> and \<open>unlock\<close> run in many processes at once: \<open>locker_step\<close> is one system call of a process,
  and a run takes the steps of all processes in any order.  A process that dies is not modelled.
\<close>

subsection \<open>One lock\<close>

datatype LockType = ltRead | ltWrite | ltNone

text \<open>The kernel: the answers it will give, the interrupts, and what this descriptor holds.\<close>

record flock_state =
  fl_answers :: "(errno + unit) list"
  fl_signals :: "bool list"
  fl_held :: LockType

definition fl_checkInterrupt :: "(flock_state, unit) M" where
  "fl_checkInterrupt s = (case fl_signals s of
     [] \<Rightarrow> (Inr (), s)
   | b # r \<Rightarrow> (if b then Inl (Interrupted ''interrupted by the user'') else Inr (), s\<lparr>fl_signals := r\<rparr>))"

definition flock :: "LockType \<Rightarrow> (flock_state, errno + unit) M" where
  "flock ty s = (case fl_answers s of
     [] \<Rightarrow> (Inr (Inr ()), s\<lparr>fl_held := ty\<rparr>)
   | Inr _ # r \<Rightarrow> (Inr (Inr ()), s\<lparr>fl_answers := r, fl_held := ty\<rparr>)
   | Inl e # r \<Rightarrow> (Inr (Inl e), s\<lparr>fl_answers := r\<rparr>))"

text \<open>A wait that a signal ends is a \<open>False\<close>; a try is repeated.\<close>

fun lockFile_try :: "nat \<Rightarrow> LockType \<Rightarrow> (flock_state, bool) M" where
  "lockFile_try 0 ty = throw Diverge"
| "lockFile_try (Suc fuel) ty = bindM (flock ty) (\<lambda>r.
     case r of
       Inr _ \<Rightarrow> ret True
     | Inl e \<Rightarrow> seqM fl_checkInterrupt
         (if e = EAGAIN then ret False
          else if e \<noteq> EINTR then throw (SysError e ''acquiring/releasing lock'')
          else lockFile_try fuel ty))"

definition lockFile :: "LockType \<Rightarrow> bool \<Rightarrow> (flock_state, bool) M" where
  "lockFile ty wait s =
     (if wait then
        bindM (flock ty) (\<lambda>r.
          case r of
            Inr _ \<Rightarrow> ret True
          | Inl e \<Rightarrow> seqM fl_checkInterrupt
              (if e \<noteq> EINTR then throw (SysError e ''acquiring/releasing lock'') else ret False)) s
      else lockFile_try (Suc (length (fl_answers s))) ty s)"

text \<open>\<open>FdLock\<close>: its constructor, with the flag that the destructor reads.\<close>

definition FdLock :: "LockType \<Rightarrow> bool \<Rightarrow> (flock_state, bool) M" where
  "FdLock ty wait =
     (if wait then bindM (lockFile ty False) (\<lambda>b. if \<not> b then lockFile ty True else ret False)
      else lockFile ty False)"

definition FdLock_delete :: "bool \<Rightarrow> (flock_state, unit) M" where
  "FdLock_delete acquired = (if acquired then bindM (lockFile ltNone False) (\<lambda>_. ret ()) else ret ())"

subsection \<open>The kernel of many processes\<close>

text \<open>
  The lock files, the sizes of inodes, the inode of each descriptor and which descriptor
  has the exclusive lock of an inode.
\<close>

record lock_world =
  lw_file :: "fpath \<Rightarrow> nat option"
  lw_size :: "nat \<Rightarrow> nat"
  lw_ino :: "nat \<Rightarrow> nat"
  lw_held :: "nat \<Rightarrow> nat option"
  lw_next_ino :: nat
  lw_next_fd :: nat

definition lock_world_new :: lock_world where
  "lock_world_new = \<lparr> lw_file = Map.empty, lw_size = (\<lambda>_. 0), lw_ino = (\<lambda>_. 0), lw_held = Map.empty, lw_next_ino = 0, lw_next_fd = 0 \<rparr>"

definition lock_path :: "fpath \<Rightarrow> fpath" where
  "lock_path p = butlast p @ [last p @ ''.lock'']"

definition openLockFile :: "fpath \<Rightarrow> lock_world \<Rightarrow> nat \<times> lock_world" where
  "openLockFile p w = (case lw_file w p of
     Some i \<Rightarrow> (lw_next_fd w, w\<lparr>lw_ino := (lw_ino w)(lw_next_fd w := i), lw_next_fd := Suc (lw_next_fd w)\<rparr>)
   | None \<Rightarrow> (lw_next_fd w, w\<lparr>lw_file := (lw_file w)(p \<mapsto> lw_next_ino w), lw_size := (lw_size w)(lw_next_ino w := 0),
       lw_ino := (lw_ino w)(lw_next_fd w := lw_next_ino w), lw_next_ino := Suc (lw_next_ino w), lw_next_fd := Suc (lw_next_fd w)\<rparr>))"

definition flock_free :: "nat \<Rightarrow> lock_world \<Rightarrow> bool" where
  "flock_free fd w \<longleftrightarrow> lw_held w (lw_ino w fd) = None \<or> lw_held w (lw_ino w fd) = Some fd"

definition flock_take :: "nat \<Rightarrow> lock_world \<Rightarrow> lock_world" where
  "flock_take fd w = w\<lparr>lw_held := (lw_held w)(lw_ino w fd \<mapsto> fd)\<rparr>"

definition close_fd :: "nat \<Rightarrow> lock_world \<Rightarrow> lock_world" where
  "close_fd fd w = (if lw_held w (lw_ino w fd) = Some fd then w\<lparr>lw_held := (lw_held w)(lw_ino w fd := None)\<rparr> else w)"

subsection \<open>One process\<close>

text \<open>
  Where a process is in \<open>lockPaths\<close>, in the section that the locks guard, or in \<open>unlock\<close>; the
  descriptor that \<open>unlock\<close> has with it is the one of the path that could not be locked.
\<close>

datatype pc =
    NextPath
  | OpenLock fpath "nat option"
  | CloseOld fpath nat nat
  | TryLock fpath nat
  | WaitLock fpath nat
  | CheckStale fpath nat
  | Locked
  | Unwind "nat option"
  | Unlock "nat option"
  | WriteToken "nat option"
  | CloseFd "nat option"
  | Ended

record locker =
  lk_pc :: pc
  lk_fds :: "(nat \<times> fpath) list"
  lk_todo :: "fpath list"
  lk_wait :: bool
  lk_delete :: bool
  lk_ctor :: bool

definition PathLocks_new :: "fpath list \<Rightarrow> bool \<Rightarrow> bool \<Rightarrow> locker" where
  "PathLocks_new paths wait ctor =
     \<lparr> lk_pc = NextPath, lk_fds = [], lk_todo = paths, lk_wait = wait, lk_delete = False, lk_ctor = ctor \<rparr>"

text \<open>
  What happens at a call: it succeeds; a signal ends it; it throws; it fails and the failure is ignored;
  and, in the guarded section, \<open>setDeletion\<close>.  A wait for a lock that another has cannot succeed.
  An exception of a constructor leaves what it has locked; else the destructor unlocks.
\<close>

datatype lk_event = Go | Eintr | Throws | Ignored | SetDeletion bool

inductive locker_step :: "lock_world \<Rightarrow> locker \<Rightarrow> lk_event \<Rightarrow> lock_world \<Rightarrow> locker \<Rightarrow> bool" where
  next_path: "lk_pc l = NextPath \<Longrightarrow> lk_todo l = p # ps \<Longrightarrow>
    locker_step w l Go w (l\<lparr>lk_pc := OpenLock p None, lk_todo := ps\<rparr>)"
| all_locked: "lk_pc l = NextPath \<Longrightarrow> lk_todo l = [] \<Longrightarrow> locker_step w l Go w (l\<lparr>lk_pc := Locked\<rparr>)"
| interrupted: "lk_pc l = NextPath \<Longrightarrow> locker_step w l Throws w (l\<lparr>lk_pc := Unwind None\<rparr>)"
| open_first: "lk_pc l = OpenLock p None \<Longrightarrow> openLockFile (lock_path p) w = (fd, w') \<Longrightarrow>
    locker_step w l Go w' (l\<lparr>lk_pc := TryLock p fd\<rparr>)"
| open_again: "lk_pc l = OpenLock p (Some old) \<Longrightarrow> openLockFile (lock_path p) w = (fd, w') \<Longrightarrow>
    locker_step w l Go w' (l\<lparr>lk_pc := CloseOld p fd old\<rparr>)"
| open_throws: "lk_pc l = OpenLock p old \<Longrightarrow> locker_step w l Throws w (l\<lparr>lk_pc := Unwind old\<rparr>)"
| close_old: "lk_pc l = CloseOld p fd old \<Longrightarrow> locker_step w l Go (close_fd old w) (l\<lparr>lk_pc := TryLock p fd\<rparr>)"
| try_taken: "lk_pc l = TryLock p fd \<Longrightarrow> flock_free fd w \<Longrightarrow>
    locker_step w l Go (flock_take fd w) (l\<lparr>lk_pc := CheckStale p fd\<rparr>)"
| try_wait: "lk_pc l = TryLock p fd \<Longrightarrow> \<not> flock_free fd w \<Longrightarrow> lk_wait l \<Longrightarrow>
    locker_step w l Go w (l\<lparr>lk_pc := WaitLock p fd\<rparr>)"
| try_refused: "lk_pc l = TryLock p fd \<Longrightarrow> \<not> flock_free fd w \<Longrightarrow> \<not> lk_wait l \<Longrightarrow>
    locker_step w l Go w (l\<lparr>lk_pc := Unlock (Some fd)\<rparr>)"
| try_eintr: "lk_pc l = TryLock p fd \<Longrightarrow> locker_step w l Eintr w l"
| try_throws: "lk_pc l = TryLock p fd \<Longrightarrow> locker_step w l Throws w (l\<lparr>lk_pc := Unwind (Some fd)\<rparr>)"
| wait_taken: "lk_pc l = WaitLock p fd \<Longrightarrow> flock_free fd w \<Longrightarrow>
    locker_step w l Go (flock_take fd w) (l\<lparr>lk_pc := CheckStale p fd\<rparr>)"
| wait_eintr: "lk_pc l = WaitLock p fd \<Longrightarrow> locker_step w l Eintr w (l\<lparr>lk_pc := CheckStale p fd\<rparr>)"
| wait_throws: "lk_pc l = WaitLock p fd \<Longrightarrow> locker_step w l Throws w (l\<lparr>lk_pc := Unwind (Some fd)\<rparr>)"
| stale: "lk_pc l = CheckStale p fd \<Longrightarrow> lw_size w (lw_ino w fd) \<noteq> 0 \<Longrightarrow>
    locker_step w l Go w (l\<lparr>lk_pc := OpenLock p (Some fd)\<rparr>)"
| acquired: "lk_pc l = CheckStale p fd \<Longrightarrow> lw_size w (lw_ino w fd) = 0 \<Longrightarrow>
    locker_step w l Go w (l\<lparr>lk_pc := NextPath, lk_fds := lk_fds l @ [(fd, lock_path p)]\<rparr>)"
| stat_throws: "lk_pc l = CheckStale p fd \<Longrightarrow> locker_step w l Throws w (l\<lparr>lk_pc := Unwind (Some fd)\<rparr>)"
| set_deletion: "lk_pc l = Locked \<Longrightarrow> locker_step w l (SetDeletion b) w (l\<lparr>lk_delete := b\<rparr>)"
| leave: "lk_pc l = Locked \<Longrightarrow> locker_step w l Go w (l\<lparr>lk_pc := Unlock None\<rparr>)"
| unwind_none: "lk_pc l = Unwind None \<Longrightarrow>
    locker_step w l Go w (l\<lparr>lk_pc := if lk_ctor l then Ended else Unlock None\<rparr>)"
| unwind_fd: "lk_pc l = Unwind (Some fd) \<Longrightarrow>
    locker_step w l Go (close_fd fd w) (l\<lparr>lk_pc := if lk_ctor l then Ended else Unlock None\<rparr>)"
| unlocked: "lk_pc l = Unlock None \<Longrightarrow> lk_fds l = [] \<Longrightarrow> locker_step w l Go w (l\<lparr>lk_pc := Ended\<rparr>)"
| unlocked_fd: "lk_pc l = Unlock (Some fd) \<Longrightarrow> lk_fds l = [] \<Longrightarrow> locker_step w l Go (close_fd fd w) (l\<lparr>lk_pc := Ended\<rparr>)"
| unlock_keep: "lk_pc l = Unlock k \<Longrightarrow> lk_fds l \<noteq> [] \<Longrightarrow> \<not> lk_delete l \<Longrightarrow> locker_step w l Go w (l\<lparr>lk_pc := CloseFd k\<rparr>)"
| unlink: "lk_pc l = Unlock k \<Longrightarrow> lk_fds l = (fd, p) # r \<Longrightarrow> lk_delete l \<Longrightarrow>
    locker_step w l Go (w\<lparr>lw_file := (lw_file w)(p := None)\<rparr>) (l\<lparr>lk_pc := WriteToken k\<rparr>)"
| unlink_fails: "lk_pc l = Unlock k \<Longrightarrow> lk_fds l \<noteq> [] \<Longrightarrow> lk_delete l \<Longrightarrow>
    locker_step w l Ignored w (l\<lparr>lk_pc := WriteToken k\<rparr>)"
| token: "lk_pc l = WriteToken k \<Longrightarrow> lk_fds l = (fd, p) # r \<Longrightarrow>
    locker_step w l Go (w\<lparr>lw_size := (lw_size w)(lw_ino w fd := Suc (lw_size w (lw_ino w fd)))\<rparr>) (l\<lparr>lk_pc := CloseFd k\<rparr>)"
| token_throws: "lk_pc l = WriteToken k \<Longrightarrow> locker_step w l Throws w (l\<lparr>lk_pc := Ended\<rparr>)"
| closed: "lk_pc l = CloseFd k \<Longrightarrow> lk_fds l = (fd, p) # r \<Longrightarrow>
    locker_step w l Go (close_fd fd w) (l\<lparr>lk_pc := Unlock k, lk_fds := r\<rparr>)"

text \<open>The processes, each with the paths it locks, in any order of their steps.\<close>

type_synonym lock_system = "lock_world \<times> (nat \<Rightarrow> locker)"

inductive lock_run :: "(lk_event \<Rightarrow> pc \<Rightarrow> bool) \<Rightarrow> (nat \<Rightarrow> locker) \<Rightarrow> lock_system \<Rightarrow> bool" for may start where
  start: "lock_run may start (lock_world_new, start)"
| step: "lock_run may start (w, ls) \<Longrightarrow> locker_step w (ls p) ev w' l' \<Longrightarrow> may ev (lk_pc (ls p)) \<Longrightarrow>
    lock_run may start (w', ls(p := l'))"

text \<open>Finitely many processes begin with \<open>lockPaths\<close>, each with a sorted set of paths; the others are not there.\<close>

definition no_locker :: locker where
  "no_locker = (PathLocks_new [] False False)\<lparr>lk_pc := Ended\<rparr>"

definition lockers :: "(nat \<Rightarrow> locker) \<Rightarrow> bool" where
  "lockers start \<longleftrightarrow> finite {p. start p \<noteq> no_locker} \<and> (\<forall>p. start p = no_locker \<or>
     (\<exists>paths wait ctor. start p = PathLocks_new paths wait ctor \<and> sorted_wrt (<) paths \<and> [] \<notin> set paths))"

text \<open>A process has a path locked: from when it has seen that the file is not stale until it begins to unlock.\<close>

definition has_lock :: "lock_system \<Rightarrow> nat \<Rightarrow> fpath \<Rightarrow> bool" where
  "has_lock = (\<lambda>(w, ls) p path. lock_path path \<in> snd ` set (lk_fds (ls p)) \<and>
     (case lk_pc (ls p) of Unlock _ \<Rightarrow> False | WriteToken _ \<Rightarrow> False | CloseFd _ \<Rightarrow> False | Ended \<Rightarrow> False | _ \<Rightarrow> True))"

subsection \<open>Exclusion\<close>

fun opt_fd :: "nat option \<Rightarrow> nat list" where
  "opt_fd None = []"
| "opt_fd (Some fd) = [fd]"

fun pc_fds :: "pc \<Rightarrow> nat list" where
  "pc_fds (OpenLock p old) = opt_fd old"
| "pc_fds (CloseOld p fd old) = [fd, old]"
| "pc_fds (TryLock p fd) = [fd]"
| "pc_fds (WaitLock p fd) = [fd]"
| "pc_fds (CheckStale p fd) = [fd]"
| "pc_fds (Unwind k) = opt_fd k"
| "pc_fds (Unlock k) = opt_fd k"
| "pc_fds (WriteToken k) = opt_fd k"
| "pc_fds (CloseFd k) = opt_fd k"
| "pc_fds _ = []"

fun want :: "pc \<Rightarrow> (nat \<times> fpath) list" where
  "want (CloseOld p fd old) = [(fd, lock_path p)]"
| "want (TryLock p fd) = [(fd, lock_path p)]"
| "want (WaitLock p fd) = [(fd, lock_path p)]"
| "want (CheckStale p fd) = [(fd, lock_path p)]"
| "want _ = []"

fun live :: "pc \<Rightarrow> 'a list \<Rightarrow> 'a list" where
  "live (WriteToken k) fds = tl fds"
| "live (CloseFd k) fds = tl fds"
| "live _ fds = fds"

definition open_fds :: "locker \<Rightarrow> nat list" where
  "open_fds l = map fst (lk_fds l) @ pc_fds (lk_pc l)"

text \<open>What a process may rely on; \<open>nm\<close> is the name an inode was made under.\<close>

definition loc :: "(nat \<Rightarrow> fpath) \<Rightarrow> lock_world \<Rightarrow> locker \<Rightarrow> bool" where
  "loc nm w l \<longleftrightarrow> distinct (open_fds l) \<and> (\<forall>fd \<in> set (open_fds l). fd < lw_next_fd w) \<and>
     (\<forall>(fd, n) \<in> set (lk_fds l) \<union> set (want (lk_pc l)). lw_ino w fd < lw_next_ino w \<and> nm (lw_ino w fd) = n) \<and>
     (\<forall>(fd, n) \<in> set (lk_fds l). lw_held w (lw_ino w fd) = Some fd) \<and>
     (\<forall>(fd, n) \<in> set (live (lk_pc l) (lk_fds l)). lw_file w n = Some (lw_ino w fd)) \<and>
     (\<forall>p fd. lk_pc l = CheckStale p fd \<longrightarrow> lw_held w (lw_ino w fd) = Some fd)"

definition named :: "(nat \<Rightarrow> fpath) \<Rightarrow> lock_world \<Rightarrow> bool" where
  "named nm w \<longleftrightarrow> (\<forall>n i. lw_file w n = Some i \<longrightarrow> i < lw_next_ino w \<and> nm i = n)"

definition apart_fds :: "(nat \<Rightarrow> locker) \<Rightarrow> bool" where
  "apart_fds ls \<longleftrightarrow> (\<forall>p q. p \<noteq> q \<longrightarrow> set (open_fds (ls p)) \<inter> set (open_fds (ls q)) = {})"

text \<open>A file that a process has open under its name is the file of that name, or is marked, or will be.\<close>

definition marking :: "lock_world \<Rightarrow> locker \<Rightarrow> nat \<Rightarrow> bool" where
  "marking w l i \<longleftrightarrow> (\<exists>k fd n r. lk_pc l = WriteToken k \<and> lk_fds l = (fd, n) # r \<and> lw_ino w fd = i)"

definition fresh :: "lock_world \<Rightarrow> (nat \<Rightarrow> locker) \<Rightarrow> bool" where
  "fresh w ls \<longleftrightarrow> (\<forall>p. \<forall>(fd, n) \<in> set (want (lk_pc (ls p))).
     lw_file w n = Some (lw_ino w fd) \<or> lw_size w (lw_ino w fd) \<noteq> 0 \<or> (\<exists>q. marking w (ls q) (lw_ino w fd)))"

definition lock_inv :: "lock_system \<Rightarrow> bool" where
  "lock_inv = (\<lambda>(w, ls). \<exists>nm. named nm w \<and> apart_fds ls \<and> fresh w ls \<and> (\<forall>p. loc nm w (ls p)))"

text \<open>A signal does not end a wait, and the byte is written.\<close>

fun orderly :: "lk_event \<Rightarrow> pc \<Rightarrow> bool" where
  "orderly Eintr (WaitLock p fd) = False"
| "orderly Throws (WriteToken k) = False"
| "orderly _ _ = True"

lemma locD:
  assumes "loc nm w l"
  shows "distinct (open_fds l)" "fd \<in> set (open_fds l) \<Longrightarrow> fd < lw_next_fd w"
    "(fd, n) \<in> set (lk_fds l) \<or> (fd, n) \<in> set (want (lk_pc l)) \<Longrightarrow> lw_ino w fd < lw_next_ino w \<and> nm (lw_ino w fd) = n"
    "(fd, n) \<in> set (lk_fds l) \<Longrightarrow> lw_held w (lw_ino w fd) = Some fd"
    "(fd, n) \<in> set (live (lk_pc l) (lk_fds l)) \<Longrightarrow> lw_file w n = Some (lw_ino w fd)"
    "lk_pc l = CheckStale p fd \<Longrightarrow> lw_held w (lw_ino w fd) = Some fd"
proof -
  have l: "distinct (open_fds l)" "\<forall>fd \<in> set (open_fds l). fd < lw_next_fd w"
    "\<forall>(fd, n) \<in> set (lk_fds l) \<union> set (want (lk_pc l)). lw_ino w fd < lw_next_ino w \<and> nm (lw_ino w fd) = n"
    "\<forall>(fd, n) \<in> set (lk_fds l). lw_held w (lw_ino w fd) = Some fd"
    "\<forall>(fd, n) \<in> set (live (lk_pc l) (lk_fds l)). lw_file w n = Some (lw_ino w fd)"
    "\<forall>p fd. lk_pc l = CheckStale p fd \<longrightarrow> lw_held w (lw_ino w fd) = Some fd"
    using assms unfolding loc_def by - (elim conjE, assumption)+
  show "distinct (open_fds l)" by (rule l(1))
  show "fd \<in> set (open_fds l) \<Longrightarrow> fd < lw_next_fd w" using l(2) by blast
  show "(fd, n) \<in> set (lk_fds l) \<or> (fd, n) \<in> set (want (lk_pc l)) \<Longrightarrow> lw_ino w fd < lw_next_ino w \<and> nm (lw_ino w fd) = n"
    using bspec [OF l(3), of "(fd, n)"] by simp
  show "(fd, n) \<in> set (lk_fds l) \<Longrightarrow> lw_held w (lw_ino w fd) = Some fd" using bspec [OF l(4), of "(fd, n)"] by simp
  show "(fd, n) \<in> set (live (lk_pc l) (lk_fds l)) \<Longrightarrow> lw_file w n = Some (lw_ino w fd)" using bspec [OF l(5), of "(fd, n)"] by simp
  show "lk_pc l = CheckStale p fd \<Longrightarrow> lw_held w (lw_ino w fd) = Some fd" using l(6) by blast
qed

lemma open_fdsI: "(fd, n) \<in> set (lk_fds l) \<Longrightarrow> fd \<in> set (open_fds l)" "fd \<in> set (pc_fds (lk_pc l)) \<Longrightarrow> fd \<in> set (open_fds l)"
  by (force simp: open_fds_def)+

lemma want_open: "(fd, n) \<in> set (want c) \<Longrightarrow> fd \<in> set (pc_fds c)"
  by (cases c) auto

lemma live_sub: "x \<in> set (live c fds) \<Longrightarrow> x \<in> set fds"
  by (cases c; cases fds) simp_all

lemma loc_mono:
  assumes l: "loc nm w l"
    and files: "\<And>fd n. (fd, n) \<in> set (live (lk_pc l) (lk_fds l)) \<Longrightarrow> lw_file w n = Some (lw_ino w fd) \<Longrightarrow> lw_file w' n = Some (lw_ino w fd)"
    and held: "\<And>fd. fd \<in> set (open_fds l) \<Longrightarrow> lw_held w (lw_ino w fd) = Some fd \<Longrightarrow> lw_held w' (lw_ino w fd) = Some fd"
    and ino: "\<And>fd. fd < lw_next_fd w \<Longrightarrow> lw_ino w' fd = lw_ino w fd"
    and le: "lw_next_fd w \<le> lw_next_fd w'" "lw_next_ino w \<le> lw_next_ino w'" and nm: "\<And>i. i < lw_next_ino w \<Longrightarrow> nm' i = nm i"
  shows "loc nm' w' l"
proof -
  have fd: "lw_ino w' fd = lw_ino w fd" if "fd \<in> set (open_fds l)" for fd using ino locD(2) [OF l that] .
  have "lw_ino w' fd < lw_next_ino w' \<and> nm' (lw_ino w' fd) = n" if "(fd, n) \<in> set (lk_fds l) \<or> (fd, n) \<in> set (want (lk_pc l))" for fd n
  proof -
    have "fd \<in> set (open_fds l)" using that open_fdsI want_open by blast
    with locD(3) [OF l that] fd le(2) nm show ?thesis by simp
  qed
  moreover have "lw_held w' (lw_ino w' fd) = Some fd" if "(fd, n) \<in> set (lk_fds l)" for fd n
    using held locD(4) [OF l that] open_fdsI(1) [OF that] fd by simp
  moreover have "lw_file w' n = Some (lw_ino w' fd)" if "(fd, n) \<in> set (live (lk_pc l) (lk_fds l))" for fd n
    using files [OF that] locD(5) [OF l that] fd [OF open_fdsI(1) [OF live_sub [OF that]]] by simp
  moreover have "lw_held w' (lw_ino w' fd) = Some fd" if "lk_pc l = CheckStale p fd" for p fd
  proof -
    have "fd \<in> set (open_fds l)" using that by (simp add: open_fds_def)
    with locD(6) [OF l that] held fd show ?thesis by simp
  qed
  ultimately show ?thesis using locD(1,2) [OF l] le(1) unfolding loc_def by (fastforce dest: less_le_trans)
qed

text \<open>What each call does to the others.\<close>

lemma loc_close:
  assumes "loc nm w l" "fd \<notin> set (open_fds l)"
  shows "loc nm (close_fd fd w) l"
  by (rule loc_mono [OF assms(1)]) (use assms(2) in \<open>auto simp: close_fd_def\<close>)

lemma loc_take:
  assumes "loc nm w l" "fd \<notin> set (open_fds l)" "flock_free fd w"
  shows "loc nm (flock_take fd w) l"
  by (rule loc_mono [OF assms(1)]) (use assms(2,3) in \<open>auto simp: flock_take_def flock_free_def\<close>)

lemma open_facts:
  assumes "openLockFile n w = (fd, w')" "named nm w"
  obtains nm' where "fd = lw_next_fd w" "lw_next_fd w' = Suc (lw_next_fd w)" "named nm' w'" "lw_file w' n = Some (lw_ino w' fd)"
    "\<And>n i. lw_file w n = Some i \<Longrightarrow> lw_file w' n = Some i" "\<And>fd. fd < lw_next_fd w \<Longrightarrow> lw_ino w' fd = lw_ino w fd"
    "lw_held w' = lw_held w" "lw_next_ino w \<le> lw_next_ino w'" "\<And>i. i < lw_next_ino w \<Longrightarrow> nm' i = nm i \<and> lw_size w' i = lw_size w i"
proof (cases "lw_file w n")
  case None
  with assms show ?thesis
    by (intro that [of "nm(lw_next_ino w := n)"]) (auto simp: openLockFile_def named_def split: if_splits; force)+
next
  case (Some i)
  with assms show ?thesis by (intro that [of nm]) (auto simp: openLockFile_def named_def)
qed

lemma loc_open:
  assumes "loc nm w l" "openLockFile n w = (fd, w')" "named nm w"
    and "lw_next_fd w' = Suc (lw_next_fd w)" "\<And>n i. lw_file w n = Some i \<Longrightarrow> lw_file w' n = Some i"
      "\<And>fd. fd < lw_next_fd w \<Longrightarrow> lw_ino w' fd = lw_ino w fd" "lw_held w' = lw_held w" "lw_next_ino w \<le> lw_next_ino w'"
      "\<And>i. i < lw_next_ino w \<Longrightarrow> nm' i = nm i \<and> lw_size w' i = lw_size w i"
  shows "loc nm' w' l"
  by (rule loc_mono [OF assms(1)]) (use assms(4-) in auto)

definition known :: "lock_world \<Rightarrow> (nat \<Rightarrow> locker) \<Rightarrow> nat \<times> fpath \<Rightarrow> bool" where
  "known w ls x \<longleftrightarrow> (case x of (fd, n) \<Rightarrow> lw_file w n = Some (lw_ino w fd) \<or> lw_size w (lw_ino w fd) \<noteq> 0 \<or> (\<exists>q. marking w (ls q) (lw_ino w fd)))"

lemma fresh_known: "fresh w ls \<longleftrightarrow> (\<forall>p. \<forall>x \<in> set (want (lk_pc (ls p))). known w ls x)"
  by (simp add: fresh_def known_def)

lemma known_keep:
  assumes "known w ls (fd, n)" and "lw_ino w' fd = lw_ino w fd"
    and "lw_file w n = Some (lw_ino w fd) \<Longrightarrow> lw_file w' n = Some (lw_ino w fd) \<or> marking w' l' (lw_ino w fd)"
    and "lw_size w (lw_ino w fd) \<noteq> 0 \<Longrightarrow> lw_size w' (lw_ino w fd) \<noteq> 0"
    and "\<And>q. q \<noteq> p \<Longrightarrow> marking w (ls q) (lw_ino w fd) \<Longrightarrow> marking w' (ls q) (lw_ino w fd)"
    and "marking w (ls p) (lw_ino w fd) \<Longrightarrow> marking w' l' (lw_ino w fd) \<or> lw_size w' (lw_ino w fd) \<noteq> 0"
  shows "known w' (ls(p := l')) (fd, n)"
proof -
  let ?i = "lw_ino w fd"
  have ex: "\<exists>q. marking w' ((ls(p := l')) q) ?i" if "marking w' l' ?i" using that by (intro exI [of _ p]) simp
  consider "lw_file w n = Some ?i" | "lw_size w ?i \<noteq> 0" | q where "marking w (ls q) ?i" using assms(1) by (auto simp: known_def)
  then have "lw_file w' n = Some ?i \<or> lw_size w' ?i \<noteq> 0 \<or> (\<exists>q. marking w' ((ls(p := l')) q) ?i)"
  proof cases
    case 1
    then show ?thesis using assms(3) ex by blast
  next
    case 2
    then show ?thesis using assms(4) by blast
  next
    case 3
    show ?thesis
    proof (cases "q = p")
      case True
      with 3 show ?thesis using assms(6) ex by blast
    next
      case False
      with 3 assms(5) have "marking w' ((ls(p := l')) q) ?i" by simp
      then show ?thesis by blast
    qed
  qed
  then show ?thesis by (simp add: known_def assms(2))
qed

lemma lock_invI:
  assumes inv: "apart_fds ls" "\<And>q. loc nm w (ls q)"
    and named: "named nm' w'" and l': "loc nm' w' l'" and others: "\<And>q. q \<noteq> p \<Longrightarrow> loc nm' w' (ls q)"
    and fds: "\<And>fd. fd \<in> set (open_fds l') \<Longrightarrow> fd \<in> set (open_fds (ls p)) \<or> lw_next_fd w \<le> fd"
    and own: "\<And>x. x \<in> set (want (lk_pc l')) \<Longrightarrow> known w' (ls(p := l')) x"
    and rest: "\<And>q x. q \<noteq> p \<Longrightarrow> x \<in> set (want (lk_pc (ls q))) \<Longrightarrow> known w' (ls(p := l')) x"
  shows "lock_inv (w', ls(p := l'))"
proof -
  have "set (open_fds l') \<inter> set (open_fds (ls q)) = {}" if "q \<noteq> p" for q
  proof -
    have "set (open_fds (ls p)) \<inter> set (open_fds (ls q)) = {}" using inv(1) that by (simp add: apart_fds_def)
    then show ?thesis using fds locD(2) [OF inv(2), of _ q] by (meson disjoint_iff leD)
  qed
  then have "apart_fds (ls(p := l'))" using inv(1) by (simp add: apart_fds_def Int_commute)
  moreover have "fresh w' (ls(p := l'))" using own rest by (auto simp: fresh_known)
  ultimately show ?thesis using named l' others by (auto simp: lock_inv_def)
qed

text \<open>A step that leaves the kernel as it is.\<close>

lemma lock_inv_local:
  assumes inv: "lock_inv (w, ls)" and l': "\<And>nm. loc nm w (ls p) \<Longrightarrow> loc nm w l'"
    and fds: "set (open_fds l') \<subseteq> set (open_fds (ls p))" and want: "set (want (lk_pc l')) \<subseteq> set (want (lk_pc (ls p)))"
    and mark: "\<And>i. marking w (ls p) i \<Longrightarrow> marking w l' i"
  shows "lock_inv (w, ls(p := l'))"
proof -
  obtain nm where nm: "named nm w" "apart_fds ls" "fresh w ls" "\<And>q. loc nm w (ls q)" using inv by (auto simp: lock_inv_def)
  have keep: "known w (ls(p := l')) x" if "x \<in> set (want (lk_pc (ls q)))" for q x
  proof -
    have "known w ls x" using nm(3) that by (auto simp: fresh_known)
    then show ?thesis by (cases x) (simp, erule known_keep, use mark in auto)
  qed
  show ?thesis
    by (rule lock_invI [OF nm(2,4,1) l' [OF nm(4)] nm(4)]) (use fds want keep in auto)
qed

text \<open>A lock that is taken or given up.\<close>

lemma lock_inv_held:
  assumes inv: "lock_inv (w, ls)"
    and w': "lw_file w' = lw_file w" "lw_size w' = lw_size w" "lw_ino w' = lw_ino w" "lw_next_ino w' = lw_next_ino w" "lw_next_fd w' = lw_next_fd w"
    and l': "\<And>nm. loc nm w (ls p) \<Longrightarrow> loc nm w' l'" and others: "\<And>nm q. q \<noteq> p \<Longrightarrow> loc nm w (ls q) \<Longrightarrow> loc nm w' (ls q)"
    and fds: "set (open_fds l') \<subseteq> set (open_fds (ls p))" and want: "set (want (lk_pc l')) \<subseteq> set (want (lk_pc (ls p)))"
    and mark: "\<And>i. marking w (ls p) i \<Longrightarrow> marking w l' i \<or> lw_size w i \<noteq> 0"
  shows "lock_inv (w', ls(p := l'))"
proof -
  obtain nm where nm: "named nm w" "apart_fds ls" "fresh w ls" "\<And>q. loc nm w (ls q)" using inv by (auto simp: lock_inv_def)
  have m: "marking w' l i = marking w l i" for l i using w'(3) by (simp add: marking_def)
  have keep: "known w' (ls(p := l')) x" if "x \<in> set (want (lk_pc (ls q)))" for q x
  proof -
    have "known w ls x" using nm(3) that by (auto simp: fresh_known)
    then show ?thesis by (cases x) (simp, erule known_keep, use mark w' m in auto)
  qed
  have "named nm w'" using nm(1) w' by (simp add: named_def)
  then show ?thesis
    by (intro lock_invI [OF nm(2,4) _ l' [OF nm(4)] others [OF _ nm(4)]]) (use fds want keep in auto)
qed

lemma lock_invD:
  assumes "lock_inv (w, ls)"
  obtains nm where "named nm w" "apart_fds ls" "fresh w ls" "\<And>q. loc nm w (ls q)"
  using assms by (auto simp: lock_inv_def)

lemma others_fds: "apart_fds ls \<Longrightarrow> q \<noteq> p \<Longrightarrow> fd \<in> set (open_fds (ls p)) \<Longrightarrow> fd \<notin> set (open_fds (ls q))"
  by (auto simp: apart_fds_def)

lemma marking_none: "(\<And>k. lk_pc l \<noteq> WriteToken k) \<Longrightarrow> \<not> marking w l i"
  by (simp add: marking_def)

text \<open>The descriptors of a process are closed or locked.\<close>

lemma lock_inv_close:
  assumes inv: "lock_inv (w, ls)" and fd: "fd \<in> set (open_fds (ls p))" "fd \<notin> set (open_fds l')"
    and l': "\<And>nm. loc nm w (ls p) \<Longrightarrow> loc nm w l'"
    and sub: "set (open_fds l') \<subseteq> set (open_fds (ls p))" "set (want (lk_pc l')) \<subseteq> set (want (lk_pc (ls p)))"
    and pc: "\<And>k. lk_pc (ls p) \<noteq> WriteToken k"
  shows "lock_inv (close_fd fd w, ls(p := l'))"
proof -
  have ap: "apart_fds ls" using inv by (rule lock_invD)
  show ?thesis
  proof (rule lock_inv_held [OF inv])
    show "loc nm (close_fd fd w) l'" if "loc nm w (ls p)" for nm using loc_close [OF l' [OF that] fd(2)] .
    show "loc nm (close_fd fd w) (ls q)" if "q \<noteq> p" "loc nm w (ls q)" for nm q
      using loc_close [OF that(2) others_fds [OF ap that(1) fd(1)]] .
    show "marking w l' i \<or> lw_size w i \<noteq> 0" if "marking w (ls p) i" for i using that pc by (simp add: marking_def)
  qed (use sub in \<open>simp_all add: close_fd_def\<close>)
qed

lemma lock_inv_take:
  assumes inv: "lock_inv (w, ls)" and pc: "lk_pc (ls p) = TryLock n fd \<or> lk_pc (ls p) = WaitLock n fd" and free: "flock_free fd w"
  shows "lock_inv (flock_take fd w, ls(p := (ls p)\<lparr>lk_pc := CheckStale n fd\<rparr>))"
proof -
  have ap: "apart_fds ls" using inv by (rule lock_invD)
  have fd: "fd \<in> set (open_fds (ls p))" using pc by (auto simp: open_fds_def)
  show ?thesis
  proof (rule lock_inv_held [OF inv])
    show "loc nm (flock_take fd w) ((ls p)\<lparr>lk_pc := CheckStale n fd\<rparr>)" if l: "loc nm w (ls p)" for nm
    proof -
      have "lw_held w (lw_ino w x) = Some x \<Longrightarrow> x \<noteq> fd \<Longrightarrow> lw_ino w x \<noteq> lw_ino w fd" for x
        using free by (auto simp: flock_free_def)
      moreover have "fd \<notin> fst ` set (lk_fds (ls p))" using locD(1) [OF l] pc by (auto simp: open_fds_def)
      ultimately show ?thesis
        using l pc by (fastforce simp: loc_def open_fds_def flock_take_def)
    qed
    show "loc nm (flock_take fd w) (ls q)" if "q \<noteq> p" "loc nm w (ls q)" for nm q
      using loc_take [OF that(2) others_fds [OF ap that(1) fd] free] .
    show "marking w ((ls p)\<lparr>lk_pc := CheckStale n fd\<rparr>) i \<or> lw_size w i \<noteq> 0" if "marking w (ls p) i" for i
      using that pc by (auto simp: marking_def)
  qed (use pc in \<open>auto simp: flock_take_def open_fds_def\<close>)
qed

lemma lock_inv_open:
  assumes inv: "lock_inv (w, ls)" and run: "openLockFile (lock_path n) w = (fd, w')" and pc: "lk_pc (ls p) = OpenLock n old"
    and l': "l' = (ls p)\<lparr>lk_pc := case old of None \<Rightarrow> TryLock n fd | Some o' \<Rightarrow> CloseOld n fd o'\<rparr>"
  shows "lock_inv (w', ls(p := l'))"
proof -
  obtain nm where nm: "named nm w" "apart_fds ls" "fresh w ls" "\<And>q. loc nm w (ls q)" using inv by (auto simp: lock_inv_def)
  obtain nm' where f: "fd = lw_next_fd w" "lw_next_fd w' = Suc (lw_next_fd w)" "named nm' w'" "lw_file w' (lock_path n) = Some (lw_ino w' fd)"
    "\<And>n i. lw_file w n = Some i \<Longrightarrow> lw_file w' n = Some i" "\<And>fd. fd < lw_next_fd w \<Longrightarrow> lw_ino w' fd = lw_ino w fd"
    "lw_held w' = lw_held w" "lw_next_ino w \<le> lw_next_ino w'" "\<And>i. i < lw_next_ino w \<Longrightarrow> nm' i = nm i \<and> lw_size w' i = lw_size w i"
    by (rule open_facts [OF run nm(1)]) (rule that, assumption+)
  have frame: "loc nm' w' (ls q)" for q by (rule loc_open [OF nm(4) run nm(1) f(2,5-9)])
  have nmfd: "lw_ino w' fd < lw_next_ino w'" "nm' (lw_ino w' fd) = lock_path n" using f(3,4) by (simp_all add: named_def)
  have new: "fd \<notin> set (open_fds (ls p))" using locD(2) [OF nm(4), of fd p] f(1) by auto
  have L: "loc nm' w' l'"
    using frame [of p] nmfd new pc f(1,2) unfolding l' loc_def open_fds_def by (cases old) auto
  have own: "known w' (ls(p := l')) x" if "x \<in> set (want (lk_pc l'))" for x
    using that f(4) by (cases old) (simp_all add: l' known_def)
  have rest: "known w' (ls(p := l')) x" if q: "q \<noteq> p" "x \<in> set (want (lk_pc (ls q)))" for q x
  proof -
    obtain a m where x: "x = (a, m)" by fastforce
    have a: "a \<in> set (open_fds (ls q))" using q want_open open_fdsI(2) x by blast
    have i: "lw_ino w a < lw_next_ino w" using locD(3) [OF nm(4)] q x by blast
    have "marking w' (ls r) (lw_ino w a)" if mk: "marking w (ls r) (lw_ino w a)" for r
    proof -
      obtain k b m r' where m: "lk_pc (ls r) = WriteToken k" "lk_fds (ls r) = (b, m) # r'" "lw_ino w b = lw_ino w a" using mk by (auto simp: marking_def)
      then have "b < lw_next_fd w" using locD(2) [OF nm(4), of b r] by (simp add: open_fds_def)
      with m f(6) show ?thesis by (auto simp: marking_def)
    qed
    moreover have "\<not> marking w (ls p) i" for i by (rule marking_none) (simp add: pc)
    moreover have "known w ls (a, m)" using nm(3) q x by (auto simp: fresh_known)
    ultimately show ?thesis unfolding x
      using f(5,6) f(9) [OF i] locD(2) [OF nm(4) a] by (intro known_keep [where w = w]) auto
  qed
  show ?thesis
  proof (rule lock_invI [OF nm(2,4) f(3) L frame _ own rest])
    show "a \<in> set (open_fds (ls p)) \<or> lw_next_fd w \<le> a" if "a \<in> set (open_fds l')" for a
      using that f(1) pc by (cases old) (auto simp: l' open_fds_def)
  qed
qed

lemma lock_inv_unlink:
  assumes inv: "lock_inv (w, ls)" and pc: "lk_pc (ls p) = Unlock k" "lk_fds (ls p) = (fd, n) # r"
  shows "lock_inv (w\<lparr>lw_file := (lw_file w)(n := None)\<rparr>, ls(p := (ls p)\<lparr>lk_pc := WriteToken k\<rparr>))"
proof -
  let ?w = "w\<lparr>lw_file := (lw_file w)(n := None)\<rparr>" and ?l = "(ls p)\<lparr>lk_pc := WriteToken k\<rparr>"
  obtain nm where nm: "named nm w" "apart_fds ls" "fresh w ls" "\<And>q. loc nm w (ls q)" using inv by (auto simp: lock_inv_def)
  have fd: "lw_held w (lw_ino w fd) = Some fd" "lw_file w n = Some (lw_ino w fd)" "fd \<in> set (open_fds (ls p))"
    using locD(4,5) [OF nm(4), of fd n p] pc by (simp_all add: open_fds_def)
  have other: "m \<noteq> n" if "(a, m) \<in> set (live (lk_pc (ls q)) (lk_fds (ls q)))" "a \<noteq> fd" for a m q
  proof
    assume "m = n"
    have "lw_file w m = Some (lw_ino w a)" "lw_held w (lw_ino w a) = Some a"
      using locD(5) [OF nm(4) that(1)] locD(4) [OF nm(4) live_sub [OF that(1)]] .
    with fd \<open>m = n\<close> that(2) show False by simp
  qed
  have frame: "loc nm ?w (ls q)" if qp: "q \<noteq> p" for q
  proof (rule loc_mono [OF nm(4)])
    show "lw_file ?w m = Some (lw_ino w a)" if m: "(a, m) \<in> set (live (lk_pc (ls q)) (lk_fds (ls q)))" "lw_file w m = Some (lw_ino w a)" for a m
    proof -
      have "a \<in> set (open_fds (ls q))" using open_fdsI(1) [OF live_sub [OF m(1)]] .
      then have "a \<noteq> fd" using others_fds [OF nm(2) qp fd(3)] by blast
      with other [OF m(1)] m(2) show ?thesis by simp
    qed
  qed simp_all
  have L: "loc nm ?w ?l"
  proof -
    have "a \<noteq> fd" if "(a, m) \<in> set r" for a m using locD(1) [OF nm(4), of p] pc that by (force simp: open_fds_def)
    then have "m \<noteq> n" if "(a, m) \<in> set r" for a m using other [of a m p] that pc by auto
    then show ?thesis using nm(4) [of p] pc unfolding loc_def open_fds_def by auto
  qed
  have m: "marking ?w l i = marking w l i" for l i by (simp add: marking_def)
  have "named nm ?w" using nm(1) by (simp add: named_def)
  then show ?thesis
  proof (rule lock_invI [OF nm(2,4) _ L frame])
    show "known ?w (ls(p := ?l)) x" if x: "x \<in> set (want (lk_pc (ls q)))" for q x
    proof -
      obtain a b where ab: "x = (a, b)" by fastforce
      have "known w ls (a, b)" using nm(3) x ab by (auto simp: fresh_known)
      then show ?thesis unfolding ab
      proof (rule known_keep)
        show "lw_file ?w b = Some (lw_ino w a) \<or> marking ?w ?l (lw_ino w a)" if "lw_file w b = Some (lw_ino w a)"
          using that fd(2) pc by (cases "b = n") (auto simp: marking_def)
      qed (use pc m in \<open>auto simp: marking_def\<close>)
    qed
  qed (use pc in \<open>auto simp: open_fds_def\<close>)
qed

lemma lock_inv_token:
  assumes inv: "lock_inv (w, ls)" and pc: "lk_pc (ls p) = WriteToken k" "lk_fds (ls p) = (fd, n) # r"
  shows "lock_inv (w\<lparr>lw_size := (lw_size w)(lw_ino w fd := Suc (lw_size w (lw_ino w fd)))\<rparr>, ls(p := (ls p)\<lparr>lk_pc := CloseFd k\<rparr>))"
proof -
  let ?w = "w\<lparr>lw_size := (lw_size w)(lw_ino w fd := Suc (lw_size w (lw_ino w fd)))\<rparr>" and ?l = "(ls p)\<lparr>lk_pc := CloseFd k\<rparr>"
  obtain nm where nm: "named nm w" "apart_fds ls" "fresh w ls" "\<And>q. loc nm w (ls q)" using inv by (auto simp: lock_inv_def)
  have frame: "loc nm ?w l" if "loc nm w l" for l by (rule loc_mono [OF that]) simp_all
  have "loc nm w ?l" using nm(4) [of p] pc unfolding loc_def open_fds_def by simp
  from frame [OF this] have L: "loc nm ?w ?l" .
  have m: "marking ?w l i = marking w l i" for l i by (simp add: marking_def)
  have "named nm ?w" using nm(1) by (simp add: named_def)
  then show ?thesis
  proof (rule lock_invI [OF nm(2,4) _ L frame [OF nm(4)]])
    show "known ?w (ls(p := ?l)) x" if x: "x \<in> set (want (lk_pc (ls q)))" for q x
    proof -
      obtain a b where ab: "x = (a, b)" by fastforce
      have "known w ls (a, b)" using nm(3) x ab by (auto simp: fresh_known)
      then show ?thesis unfolding ab by (rule known_keep) (use pc m in \<open>auto simp: marking_def\<close>)
    qed
  qed (use pc in \<open>auto simp: open_fds_def\<close>)
qed

lemma loc_pc:
  assumes "loc nm w l" "set (want (lk_pc l')) \<subseteq> set (want (lk_pc l))" "distinct (open_fds l')" "set (open_fds l') \<subseteq> set (open_fds l)"
    and "lk_fds l' = lk_fds l" "set (live (lk_pc l') (lk_fds l)) \<subseteq> set (live (lk_pc l) (lk_fds l))"
    and "\<And>p fd. lk_pc l' = CheckStale p fd \<Longrightarrow> lk_pc l = CheckStale p fd"
  shows "loc nm w l'"
proof -
  note l = locD [OF assms(1)]
  have "\<forall>fd \<in> set (open_fds l'). fd < lw_next_fd w" using assms(4) l(2) by blast
  moreover have "\<forall>x \<in> set (lk_fds l') \<union> set (want (lk_pc l')). case x of (fd, n) \<Rightarrow> lw_ino w fd < lw_next_ino w \<and> nm (lw_ino w fd) = n"
    using assms(2,5) l(3) by auto
  moreover have "\<forall>(fd, n) \<in> set (lk_fds l'). lw_held w (lw_ino w fd) = Some fd" using assms(5) l(4) by auto
  moreover have "\<forall>(fd, n) \<in> set (live (lk_pc l') (lk_fds l')). lw_file w n = Some (lw_ino w fd)" using assms(5,6) l(5) by auto
  moreover have "\<forall>p fd. lk_pc l' = CheckStale p fd \<longrightarrow> lw_held w (lw_ino w fd) = Some fd" using assms(7) l(6) by blast
  ultimately show ?thesis using assms(3) unfolding loc_def by blast
qed

text \<open>A file that is not stale is still the file of its name.\<close>

lemma lock_inv_acquired:
  assumes inv: "lock_inv (w, ls)" and pc: "lk_pc (ls p) = CheckStale n fd" and size: "lw_size w (lw_ino w fd) = 0"
  shows "lw_file w (lock_path n) = Some (lw_ino w fd)"
proof -
  obtain nm where nm: "named nm w" "apart_fds ls" "fresh w ls" "\<And>q. loc nm w (ls q)" using inv by (auto simp: lock_inv_def)
  have "(fd, lock_path n) \<in> set (want (lk_pc (ls p)))" using pc by simp
  with nm(3) have "known w ls (fd, lock_path n)" unfolding fresh_known by blast
  moreover have "\<not> marking w (ls q) (lw_ino w fd)" for q
  proof
    assume "marking w (ls q) (lw_ino w fd)"
    then obtain k b m r where m: "lk_pc (ls q) = WriteToken k" "lk_fds (ls q) = (b, m) # r" "lw_ino w b = lw_ino w fd" by (auto simp: marking_def)
    have "(b, m) \<in> set (lk_fds (ls q))" using m(2) by simp
    from locD(4) [OF nm(4) this] have "lw_held w (lw_ino w fd) = Some b" by (simp only: m(3))
    then have "b = fd" using locD(6) [OF nm(4) pc] by simp
    moreover have "q \<noteq> p" using m(1) pc by auto
    moreover have "b \<in> set (open_fds (ls q))" "fd \<in> set (open_fds (ls p))" using m pc by (simp_all add: open_fds_def)
    ultimately show False using others_fds [OF nm(2), of q p fd] by simp
  qed
  ultimately show ?thesis using size by (simp add: known_def)
qed

text \<open>A step within one process, whatever it is.\<close>

lemma lock_inv_pc:
  assumes inv: "lock_inv (w, ls)" and same: "w' = w" "lk_fds l' = lk_fds (ls p)"
    and c: "set (want (lk_pc l')) \<subseteq> set (want (lk_pc (ls p)))" "pc_fds (lk_pc l') = pc_fds (lk_pc (ls p))"
      "live (lk_pc l') (lk_fds (ls p)) = live (lk_pc (ls p)) (lk_fds (ls p)) \<or> live (lk_pc l') (lk_fds (ls p)) = tl (lk_fds (ls p))"
      "\<And>p fd. lk_pc l' \<noteq> CheckStale p fd" "\<And>k. lk_pc (ls p) \<noteq> WriteToken k"
  shows "lock_inv (w', ls(p := l'))"
  unfolding same(1)
proof (rule lock_inv_local [OF inv])
  have o: "open_fds l' = open_fds (ls p)" using c(2) same(2) by (simp add: open_fds_def)
  show "loc nm w l'" if l: "loc nm w (ls p)" for nm
  proof (rule loc_pc [OF l])
    show "set (live (lk_pc l') (lk_fds (ls p))) \<subseteq> set (live (lk_pc (ls p)) (lk_fds (ls p)))"
      using c(3,5) by (cases "lk_fds (ls p)"; cases "lk_pc (ls p)") auto
  qed (use c locD(1) [OF l] o same(2) in auto)
qed (use c same(2) in \<open>auto simp: open_fds_def marking_def\<close>)

lemma lock_inv_step:
  assumes inv: "lock_inv (w, ls)" and st: "locker_step w (ls p) ev w' l'" and ok: "orderly ev (lk_pc (ls p))"
  shows "lock_inv (w', ls(p := l'))"
  using st
proof cases
  case (open_first n fd)
  from lock_inv_open [OF inv this(4,3) refl] this(2) show ?thesis by simp
next
  case (open_again n old fd)
  from lock_inv_open [OF inv this(4,3) refl] this(2) show ?thesis by simp
next
  case (close_old n fd old)
  have "loc nm w l'" if l: "loc nm w (ls p)" for nm
    by (rule loc_pc [OF l]) (use locD(1) [OF l] close_old in \<open>auto simp: open_fds_def\<close>)
  moreover have "distinct (open_fds (ls p))" using inv locD(1) by (auto simp: lock_inv_def)
  ultimately show ?thesis unfolding close_old(2) using close_old(1,3,4)
    by (intro lock_inv_close [OF inv]) (auto simp: open_fds_def)
next
  case (try_taken n fd)
  with lock_inv_take [OF inv _ try_taken(5)] show ?thesis by simp
next
  case (wait_taken n fd)
  with lock_inv_take [OF inv _ wait_taken(5)] show ?thesis by simp
next
  case (try_eintr n fd)
  with inv show ?thesis by simp
next
  case (wait_eintr n fd)
  with ok show ?thesis by simp
next
  case (acquired n fd)
  note cur = lock_inv_acquired [OF inv acquired(4,5)]
  have "loc nm w l'" if l: "loc nm w (ls p)" for nm
    using l locD(6) [OF l acquired(4)] cur acquired(3,4) by (auto simp: loc_def open_fds_def)
  then show ?thesis unfolding acquired(2) using acquired(3,4) by (intro lock_inv_local [OF inv]) (auto simp: open_fds_def marking_def)
next
  case (unwind_fd fd)
  have "loc nm w l'" if l: "loc nm w (ls p)" for nm
    by (rule loc_pc [OF l]) (use locD(1) [OF l] unwind_fd in \<open>auto simp: open_fds_def split: if_splits\<close>)
  moreover have "distinct (open_fds (ls p))" using inv locD(1) by (auto simp: lock_inv_def)
  ultimately show ?thesis unfolding unwind_fd(2) using unwind_fd(1,3,4)
    by (intro lock_inv_close [OF inv]) (auto simp: open_fds_def split: if_splits)
next
  case (unlocked_fd fd)
  have "loc nm w l'" if l: "loc nm w (ls p)" for nm
    by (rule loc_pc [OF l]) (use locD(1) [OF l] unlocked_fd in \<open>auto simp: open_fds_def\<close>)
  then show ?thesis unfolding unlocked_fd(2) using unlocked_fd(1,3,4,5)
    by (intro lock_inv_close [OF inv]) (auto simp: open_fds_def)
next
  case (unlink k fd n r)
  from lock_inv_unlink [OF inv this(4,5)] this(2,3) show ?thesis by simp
next
  case (token k fd n r)
  from lock_inv_token [OF inv this(4,5)] this(2,3) show ?thesis by simp
next
  case (token_throws k)
  with ok show ?thesis by simp
next
  case (closed k fd n r)
  have "loc nm w l'" if l: "loc nm w (ls p)" for nm
    using l closed(3-5) by (auto simp: loc_def open_fds_def)
  moreover have "distinct (open_fds (ls p))" using inv locD(1) by (auto simp: lock_inv_def)
  ultimately show ?thesis unfolding closed(2) using closed(1,3-5)
    by (intro lock_inv_close [OF inv]) (auto simp: open_fds_def)
qed (rule lock_inv_pc [OF inv]; auto split: if_splits)+

lemma lock_inv_start: "lockers start \<Longrightarrow> lock_inv (lock_world_new, start)"
proof -
  assume "lockers start"
  then have l: "(lk_pc (start p) = NextPath \<or> lk_pc (start p) = Ended) \<and> lk_fds (start p) = []" for p
    unfolding lockers_def PathLocks_new_def no_locker_def
    by (elim conjE allE [of _ p] disjE exE) simp_all
  have "open_fds (start p) = []" "want (lk_pc (start p)) = []" "live (lk_pc (start p)) (lk_fds (start p)) = []" "lk_pc (start p) \<noteq> CheckStale n fd" for p n fd
    using l [of p] by (elim conjE disjE; simp add: open_fds_def)+
  then have "named undefined lock_world_new" "apart_fds start" "fresh lock_world_new start" "\<And>p. loc undefined lock_world_new (start p)"
    using l by (simp_all add: named_def apart_fds_def fresh_def loc_def lock_world_new_def)
  then show ?thesis by (auto simp: lock_inv_def)
qed

lemma lock_inv_run: "lock_run orderly start sys \<Longrightarrow> lockers start \<Longrightarrow> lock_inv sys"
  by (induction rule: lock_run.induct) (auto intro: lock_inv_start lock_inv_step)

subsection \<open>Progress\<close>

fun pc_holds :: "pc \<Rightarrow> nat list" where
  "pc_holds (CloseOld p fd old) = [old]"
| "pc_holds (TryLock p fd) = []"
| "pc_holds (WaitLock p fd) = []"
| "pc_holds c = pc_fds c"

definition holds :: "locker \<Rightarrow> nat set" where
  "holds l = fst ` set (lk_fds l) \<union> set (pc_holds (lk_pc l))"

fun pc_path :: "pc \<Rightarrow> fpath list option" where
  "pc_path NextPath = Some []"
| "pc_path (OpenLock p old) = Some [p]"
| "pc_path (CloseOld p fd old) = Some [p]"
| "pc_path (TryLock p fd) = Some [p]"
| "pc_path (WaitLock p fd) = Some [p]"
| "pc_path (CheckStale p fd) = Some [p]"
| "pc_path _ = None"

text \<open>A process that still locks has locked, locks and will lock paths in their order.\<close>

definition goes_on :: "locker \<Rightarrow> bool" where
  "goes_on l \<longleftrightarrow> \<not> lk_ctor l \<and> (lk_pc l = Ended \<longrightarrow> lk_fds l = []) \<and>
     (\<forall>k. lk_pc l = WriteToken k \<or> lk_pc l = CloseFd k \<longrightarrow> lk_fds l \<noteq> []) \<and>
     (\<forall>cur. pc_path (lk_pc l) = Some cur \<longrightarrow>
        (\<exists>ds. map snd (lk_fds l) = map lock_path ds \<and> sorted_wrt (<) (ds @ cur @ lk_todo l) \<and> [] \<notin> set (ds @ cur @ lk_todo l)))"

definition held_open :: "lock_system \<Rightarrow> bool" where
  "held_open = (\<lambda>(w, ls). \<forall>i fd. lw_held w i = Some fd \<longrightarrow> lw_ino w fd = i \<and> fd < lw_next_fd w \<and> (\<exists>p. fd \<in> holds (ls p)))"

lemma goes_on_step:
  assumes "locker_step w l ev w' l'" "orderly ev (lk_pc l)" "goes_on l"
  shows "goes_on l'"
  using assms
proof cases
  case (next_path p ps)
  then obtain ds where "map snd (lk_fds l) = map lock_path ds" "sorted_wrt (<) (ds @ p # ps)" "[] \<notin> set (ds @ p # ps)"
    using assms(3) by (auto simp: goes_on_def)
  with next_path assms(3) show ?thesis by (auto simp: goes_on_def intro!: exI [of _ ds])
next
  case (acquired p fd)
  then obtain ds where "map snd (lk_fds l) = map lock_path ds" "sorted_wrt (<) (ds @ p # lk_todo l)" "[] \<notin> set (ds @ p # lk_todo l)"
    using assms(3) by (auto simp: goes_on_def)
  with acquired assms(3) show ?thesis by (auto simp: goes_on_def intro!: exI [of _ "ds @ [p]"])
qed (auto simp: goes_on_def split: if_splits)

lemma held_openI:
  assumes "held_open (w, ls)" and "\<And>i fd. lw_held w' i = Some fd \<Longrightarrow> lw_held w i = Some fd \<and> (fd \<in> holds (ls p) \<longrightarrow> fd \<in> holds l') \<or>
      fd \<in> holds l' \<and> lw_ino w fd = i \<and> fd < lw_next_fd w"
    and "\<And>fd. fd < lw_next_fd w \<Longrightarrow> lw_ino w' fd = lw_ino w fd" "lw_next_fd w \<le> lw_next_fd w'"
  shows "held_open (w', ls(p := l'))"
  unfolding held_open_def
proof (clarify)
  fix i fd assume h: "lw_held w' i = Some fd"
  from assms(2) [OF h] show "lw_ino w' fd = i \<and> fd < lw_next_fd w' \<and> (\<exists>q. fd \<in> holds ((ls(p := l')) q))"
  proof
    assume a: "lw_held w i = Some fd \<and> (fd \<in> holds (ls p) \<longrightarrow> fd \<in> holds l')"
    then obtain q where q: "lw_ino w fd = i" "fd < lw_next_fd w" "fd \<in> holds (ls q)" using assms(1) by (auto simp: held_open_def)
    have "fd \<in> holds ((ls(p := l')) q)" using a q(3) by (cases "q = p") simp_all
    with q(1,2) assms(3,4) show ?thesis by (metis order.strict_trans2)
  next
    assume a: "fd \<in> holds l' \<and> lw_ino w fd = i \<and> fd < lw_next_fd w"
    then have "fd \<in> holds ((ls(p := l')) p)" by simp
    with a assms(3,4) show ?thesis by (metis order.strict_trans2)
  qed
qed

lemma held_open_step:
  assumes "locker_step w (ls p) ev w' l'" "orderly ev (lk_pc (ls p))" "goes_on (ls p)" "held_open (w, ls)" "lock_inv (w, ls)"
  shows "held_open (w', ls(p := l'))"
proof (rule held_openI [OF assms(4)])
  have lt: "fd < lw_next_fd w" if "fd \<in> set (open_fds (ls p))" for fd proof -
    obtain nm where "loc nm w (ls p)" using assms(5) by (auto simp: lock_inv_def)
    from locD(2) [OF this that] show ?thesis .
  qed
  have closed_held: "lw_held w i = Some fd \<and> fd \<noteq> x" if "lw_held (close_fd x w) i = Some fd" for x i fd
  proof -
    have h: "lw_held w i = Some fd" using that by (auto simp: close_fd_def split: if_splits)
    then have "lw_ino w fd = i" using assms(4) by (auto simp: held_open_def)
    with that h show ?thesis by (auto simp: close_fd_def split: if_splits)
  qed
  have new: "openLockFile n w = (fd, w') \<Longrightarrow> lw_held w' = lw_held w \<and> lw_next_fd w \<le> lw_next_fd w' \<and> (\<forall>fd < lw_next_fd w. lw_ino w' fd = lw_ino w fd)" for n fd
    by (auto simp: openLockFile_def split: option.splits)
  show "lw_held w i = Some fd \<and> (fd \<in> holds (ls p) \<longrightarrow> fd \<in> holds l') \<or> fd \<in> holds l' \<and> lw_ino w fd = i \<and> fd < lw_next_fd w"
    if h: "lw_held w' i = Some fd" for i fd
    using assms(1)
  proof cases
    case (open_first n x)
    with h new show ?thesis by (simp add: holds_def)
  next
    case (open_again n old x)
    with h new show ?thesis by (simp add: holds_def)
  next
    case (try_taken n x)
    then have "x < lw_next_fd w" using lt by (simp add: open_fds_def)
    with try_taken h show ?thesis by (auto simp: holds_def flock_take_def split: if_splits)
  next
    case (wait_taken n x)
    then have "x < lw_next_fd w" using lt by (simp add: open_fds_def)
    with wait_taken h show ?thesis by (auto simp: holds_def flock_take_def split: if_splits)
  next
    case (close_old n x old)
    with h closed_held show ?thesis by (auto simp: holds_def)
  next
    case (unwind_fd x)
    with h closed_held assms(3) show ?thesis by (auto simp: holds_def goes_on_def)
  next
    case (unlocked_fd x)
    with h closed_held show ?thesis by (auto simp: holds_def)
  next
    case (closed k x n r)
    with h closed_held show ?thesis by (auto simp: holds_def)
  next
    case (token_throws k)
    with assms(2) show ?thesis by simp
  next
    case (unwind_none)
    with h assms(3) show ?thesis by (auto simp: holds_def goes_on_def)
  qed (use h assms(2) in \<open>auto simp: holds_def\<close>)
  show "lw_ino w' fd = lw_ino w fd" if "fd < lw_next_fd w" for fd
    using assms(1) that new by cases (auto simp: close_fd_def flock_take_def)
  show "lw_next_fd w \<le> lw_next_fd w'"
    using assms(1) new by cases (auto simp: close_fd_def flock_take_def)
qed

lemma lock_run_progress:
  assumes "lock_run orderly start sys" "lockers start" "\<And>p. \<not> lk_ctor (start p)"
  shows "held_open sys \<and> (\<forall>p. goes_on (snd sys p))"
  using assms(1)
proof (induction rule: lock_run.induct)
  case start
  have "goes_on (start p)" for p
  proof -
    consider "start p = no_locker" | paths wait ctor where "start p = PathLocks_new paths wait ctor" "sorted_wrt (<) paths" "[] \<notin> set paths"
      using assms(2) unfolding lockers_def by blast
    then show ?thesis
    proof cases
      case 1
      then show ?thesis by (simp add: goes_on_def PathLocks_new_def no_locker_def)
    next
      case (2 paths wait ctor)
      with assms(3) [of p] show ?thesis by (auto simp: goes_on_def PathLocks_new_def intro!: exI [of _ "[]"])
    qed
  qed
  then show ?case by (simp add: held_open_def lock_world_new_def)
next
  case (step w ls p ev w' l')
  have "lock_inv (w, ls)" by (rule lock_inv_run [OF step.hyps(1) assms(2)])
  with step show ?case using held_open_step [of w ls p ev w' l'] goes_on_step [of w "ls p" ev w' l'] by simp
qed

lemma lock_path_inj: "lock_path p = lock_path q \<Longrightarrow> p \<noteq> [] \<Longrightarrow> q \<noteq> [] \<Longrightarrow> p = q"
proof -
  assume l: "lock_path p = lock_path q" and ne: "p \<noteq> []" "q \<noteq> []"
  then have "butlast p = butlast q" "last p = last q" by (simp_all add: lock_path_def)
  with ne show "p = q" by (metis append_butlast_last_id)
qed

text \<open>What has ended has no step, so finitely many processes run.\<close>

lemma lock_run_finite:
  assumes "lock_run may start sys" "lockers start"
  shows "finite {p. lk_pc (snd sys p) \<noteq> Ended}"
  using assms(1)
proof (induction rule: lock_run.induct)
  case start
  have "{p. lk_pc (start p) \<noteq> Ended} \<subseteq> {p. start p \<noteq> no_locker}" by (auto simp: no_locker_def)
  then show ?case using assms(2) by (auto simp: lockers_def intro: finite_subset)
next
  case (step w ls p ev w' l')
  have "{q. lk_pc (snd (w', ls(p := l')) q) \<noteq> Ended} \<subseteq> insert p {q. lk_pc (snd (w, ls) q) \<noteq> Ended}" by auto
  with step.IH show ?case by (meson finite_insert finite_subset)
qed

text \<open>What is not at an end, and does not wait, has a step.\<close>

lemma can_go:
  assumes "goes_on l" "lk_pc l \<noteq> Ended" "\<And>p fd. lk_pc l \<noteq> WaitLock p fd"
  shows "\<exists>w' l'. locker_step w l Go w' l'"
proof (cases "lk_pc l")
  case NextPath
  then show ?thesis by (cases "lk_todo l") (blast intro: locker_step.intros)+
next
  case (OpenLock p old)
  obtain fd w' where "openLockFile (lock_path p) w = (fd, w')" by fastforce
  with OpenLock show ?thesis by (cases old) (blast intro: locker_step.intros)+
next
  case (TryLock p fd)
  then show ?thesis by (cases "flock_free fd w"; cases "lk_wait l") (blast intro: locker_step.intros)+
next
  case (Unwind k)
  then show ?thesis by (cases k) (blast intro: locker_step.intros)+
next
  case (Unlock k)
  show ?thesis
  proof (cases "lk_fds l")
    case Nil
    with Unlock show ?thesis by (cases k) (blast intro: locker_step.intros)+
  next
    case (Cons x r)
    then obtain fd n where "lk_fds l = (fd, n) # r" by (cases x) simp
    with Unlock show ?thesis using locker_step.unlink [of l k fd n r w] locker_step.unlock_keep [of l k w] by (cases "lk_delete l") auto
  qed
next
  case (WriteToken k)
  with assms(1) obtain fd n r where "lk_fds l = (fd, n) # r" by (cases "lk_fds l") (auto simp: goes_on_def)
  with WriteToken show ?thesis by (blast intro: locker_step.intros)
next
  case (CloseFd k)
  with assms(1) obtain fd n r where "lk_fds l = (fd, n) # r" by (cases "lk_fds l") (auto simp: goes_on_def)
  with CloseFd show ?thesis by (blast intro: locker_step.intros)
qed (use assms in \<open>blast intro: locker_step.intros\<close>)+

text \<open>Two processes that lock the same path: the first has it, the second waits.\<close>

definition two_lockers :: "nat \<Rightarrow> locker" where
  "two_lockers p = (if p < 2 then PathLocks_new [[''a'']] True False else no_locker)"

lemma two_lockers_ok: "lockers two_lockers" "\<not> lk_ctor (two_lockers p)"
proof -
  have "{p. two_lockers p \<noteq> no_locker} \<subseteq> {0, 1}" by (auto simp: two_lockers_def)
  then have "finite {p. two_lockers p \<noteq> no_locker}" by (rule finite_subset) simp
  moreover have "sorted_wrt (<) [[''a'']]" "[] \<notin> set [[''a'']]" by simp_all
  ultimately show "lockers two_lockers" unfolding lockers_def two_lockers_def by (metis (full_types))
  show "\<not> lk_ctor (two_lockers p)" by (simp add: two_lockers_def PathLocks_new_def no_locker_def)
qed

abbreviation at_locker :: "pc \<Rightarrow> fpath list \<Rightarrow> (nat \<times> fpath) list \<Rightarrow> locker" where
  "at_locker c todo fds \<equiv> \<lparr> lk_pc = c, lk_fds = fds, lk_todo = todo, lk_wait = True, lk_delete = False, lk_ctor = False \<rparr>"

lemma lock_run_to:
  "lock_run may start (w, ls) \<Longrightarrow> ls p = l \<Longrightarrow> locker_step w l ev w' l' \<Longrightarrow> may ev (lk_pc l) \<Longrightarrow> ls' = ls(p := l') \<Longrightarrow>
   lock_run may start (w', ls')"
  using lock_run.step [of may start w ls p ev w' l'] by simp

lemma at_locker_steps:
  "locker_step w (at_locker NextPath (p # ps) fds) Go w (at_locker (OpenLock p None) ps fds)"
  "openLockFile (lock_path p) w = (fd, w') \<Longrightarrow> locker_step w (at_locker (OpenLock p None) ps fds) Go w' (at_locker (TryLock p fd) ps fds)"
  "flock_free fd w \<Longrightarrow> locker_step w (at_locker (TryLock p fd) ps fds) Go (flock_take fd w) (at_locker (CheckStale p fd) ps fds)"
  "\<not> flock_free fd w \<Longrightarrow> locker_step w (at_locker (TryLock p fd) ps fds) Go w (at_locker (WaitLock p fd) ps fds)"
  "locker_step w (at_locker (WaitLock p fd) ps fds) Eintr w (at_locker (CheckStale p fd) ps fds)"
  "lw_size w (lw_ino w fd) = 0 \<Longrightarrow> locker_step w (at_locker (CheckStale p fd) ps fds) Go w (at_locker NextPath ps (fds @ [(fd, lock_path p)]))"
  using locker_step.next_path [of "at_locker NextPath (p # ps) fds" p ps w] locker_step.open_first [of "at_locker (OpenLock p None) ps fds" p w fd w']
    locker_step.try_taken [of "at_locker (TryLock p fd) ps fds" p fd w] locker_step.try_wait [of "at_locker (TryLock p fd) ps fds" p fd w]
    locker_step.wait_eintr [of "at_locker (WaitLock p fd) ps fds" p fd w] locker_step.acquired [of "at_locker (CheckStale p fd) ps fds" p fd w]
  by simp_all

lemma two_lockers_run:
  assumes may: "\<And>c. may Go c"
  obtains w where "lock_run may two_lockers (w, two_lockers(0 := at_locker NextPath [] [(0, [''a.lock''])], 1 := at_locker (WaitLock [''a''] 1) [] []))"
    "lw_size w (lw_ino w 1) = 0"
proof -
  let ?s = two_lockers and ?n = "[''a'']"
  have n: "lock_path ?n = [''a.lock'']" by (simp add: lock_path_def)
  obtain w1 where w1: "openLockFile (lock_path ?n) lock_world_new = (0, w1)"
    "lw_file w1 [''a.lock''] = Some 0" "lw_ino w1 0 = 0" "lw_held w1 0 = None" "lw_size w1 0 = 0" "lw_next_fd w1 = 1"
    by (simp add: openLockFile_def lock_world_new_def n)
  let ?w2 = "flock_take 0 w1"
  obtain w3 where w3: "openLockFile (lock_path ?n) ?w2 = (1, w3)" "lw_ino w3 1 = 0" "lw_held w3 0 = Some 0" "lw_size w3 0 = 0"
    using w1 by (simp add: openLockFile_def n flock_take_def)
  have s: "?s 0 = at_locker NextPath [?n] []" "?s 1 = at_locker NextPath [?n] []" by (simp_all add: two_lockers_def PathLocks_new_def)
  note go = lock_run_to [where may = may and ev = Go and start = two_lockers]
  have "lock_run may ?s (lock_world_new, ?s(0 := at_locker (OpenLock ?n None) [] []))"
    by (rule go [OF lock_run.start s(1) at_locker_steps(1) may refl])
  then have "lock_run may ?s (w1, ?s(0 := at_locker (TryLock ?n 0) [] []))"
    by (rule go [OF _ _ at_locker_steps(2) [OF w1(1)], where p = 0]) (simp_all add: may)
  then have "lock_run may ?s (?w2, ?s(0 := at_locker (CheckStale ?n 0) [] []))"
    by (rule go [OF _ _ at_locker_steps(3), where p = 0]) (simp_all add: may flock_free_def w1)
  moreover have "locker_step ?w2 (at_locker (CheckStale ?n 0) [] []) Go ?w2 (at_locker NextPath [] [(0, [''a.lock''])])"
    using at_locker_steps(6) [of ?w2 0 ?n "[]" "[]"] w1 n by (simp add: flock_take_def)
  ultimately have "lock_run may ?s (?w2, ?s(0 := at_locker NextPath [] [(0, [''a.lock''])]))"
    using go [where p = 0] may by fastforce
  then have "lock_run may ?s (?w2, ?s(0 := at_locker NextPath [] [(0, [''a.lock''])], 1 := at_locker (OpenLock ?n None) [] []))"
    by (rule go [OF _ _ at_locker_steps(1), where p = 1]) (simp_all add: may s(2) [simplified])
  then have "lock_run may ?s (w3, ?s(0 := at_locker NextPath [] [(0, [''a.lock''])], 1 := at_locker (TryLock ?n 1) [] []))"
    by (rule go [OF _ _ at_locker_steps(2) [OF w3(1)], where p = 1]) (simp_all add: may)
  then have "lock_run may ?s (w3, ?s(0 := at_locker NextPath [] [(0, [''a.lock''])], 1 := at_locker (WaitLock ?n 1) [] []))"
    by (rule go [OF _ _ at_locker_steps(4), where p = 1]) (simp_all add: may flock_free_def w3 del: One_nat_def)
  with w3 that show ?thesis by simp
qed

text \<open>A signal that ends the wait: the second goes on without the lock, and both have the path.\<close>

lemma lockPaths_signal:
  "\<exists>sys. lock_run (\<lambda>ev c. ev = Go \<or> ev = Eintr) two_lockers sys \<and> has_lock sys 0 [''a''] \<and> has_lock sys 1 [''a'']"
proof -
  let ?may = "\<lambda>ev (c :: pc). ev = Go \<or> ev = Eintr"
  obtain w where w: "lock_run ?may two_lockers (w, two_lockers(0 := at_locker NextPath [] [(0, [''a.lock''])], 1 := at_locker (WaitLock [''a''] 1) [] []))"
    "lw_size w (lw_ino w 1) = 0"
    by (rule two_lockers_run [of ?may]) simp
  have run: "lock_run ?may two_lockers (w, two_lockers(0 := at_locker NextPath [] [(0, [''a.lock''])], 1 := at_locker (CheckStale [''a''] 1) [] []))"
    by (rule lock_run_to [OF w(1) _ at_locker_steps(5), where p = 1]) simp_all
  have got: "locker_step w (at_locker (CheckStale [''a''] 1) [] []) Go w (at_locker NextPath [] [(1, [''a.lock''])])"
    using at_locker_steps(6) [of w 1 "[''a'']" "[]" "[]"] w(2) by (simp add: lock_path_def)
  have "lock_run ?may two_lockers (w, two_lockers(0 := at_locker NextPath [] [(0, [''a.lock''])], 1 := at_locker NextPath [] [(1, [''a.lock''])]))"
    by (rule lock_run_to [OF run _ got, where p = 1]) simp_all
  then show ?thesis by (intro exI conjI) (auto simp: has_lock_def lock_path_def)
qed

text \<open>A lock that is free when it is waited for does not set the flag, and is not given up.\<close>

lemma FdLock_uncontended:
  "FdLock ty True \<lparr> fl_answers = [], fl_signals = [], fl_held = ltNone \<rparr> = (Inr False, \<lparr> fl_answers = [], fl_signals = [], fl_held = ty \<rparr>)"
  "FdLock_delete False s = (Inr (), s)"
  by (simp_all add: FdLock_def FdLock_delete_def lockFile_def flock_def bindM_def)

subsection \<open>Properties\<close>

text \<open>
  C30.  Two processes never have a lock on the same path, in any interleaving of any number of
  processes that lock any sets of paths, delete lock files or keep them, are interrupted or fail:
  as long as no signal ends a wait for a lock and no mark of a deleted file fails to be written. A process that has a
  path locked holds the file that the name of the lock stands for now.
\<close>

theorem lock_exclusive:
  assumes "lockers start" "lock_run orderly start sys" "has_lock sys p path"
  shows "(\<forall>q. has_lock sys q path \<longrightarrow> q = p) \<and>
    (\<exists>fd i. lw_file (fst sys) (lock_path path) = Some i \<and> lw_held (fst sys) i = Some fd \<and> fd \<in> fst ` set (lk_fds (snd sys p)))"
proof -
  obtain w ls where sys: "sys = (w, ls)" by fastforce
  obtain nm where nm: "apart_fds ls" "\<And>q. loc nm w (ls q)" using lock_inv_run [OF assms(2,1)] by (auto simp: sys lock_inv_def)
  have has: "\<exists>fd. (fd, lock_path path) \<in> set (lk_fds (ls q)) \<and> lw_file w (lock_path path) = Some (lw_ino w fd) \<and> lw_held w (lw_ino w fd) = Some fd"
    if q: "has_lock sys q path" for q
  proof -
    obtain fd where fd: "(fd, lock_path path) \<in> set (lk_fds (ls q))" using q by (auto simp: has_lock_def sys)
    have "live (lk_pc (ls q)) (lk_fds (ls q)) = lk_fds (ls q)" using q by (cases "lk_pc (ls q)") (simp_all add: has_lock_def sys)
    then show ?thesis using locD(4,5) [OF nm(2), of fd "lock_path path" q] fd by auto
  qed
  obtain fd where fd: "(fd, lock_path path) \<in> set (lk_fds (ls p))" "lw_file w (lock_path path) = Some (lw_ino w fd)" "lw_held w (lw_ino w fd) = Some fd"
    using has [OF assms(3)] by blast
  have "q = p" if q: "has_lock sys q path" for q
  proof (rule ccontr)
    assume "q \<noteq> p"
    obtain g where g: "(g, lock_path path) \<in> set (lk_fds (ls q))" "lw_file w (lock_path path) = Some (lw_ino w g)" "lw_held w (lw_ino w g) = Some g"
      using has [OF q] by blast
    have "g = fd" using g(2,3) fd(2,3) by simp
    with others_fds [OF nm(1) \<open>q \<noteq> p\<close> open_fdsI(1) [OF fd(1)]] open_fdsI(1) [OF g(1)] show False by simp
  qed
  then show ?thesis using fd sys by (auto intro!: exI [of _ fd] rev_image_eqI)
qed


theorem lock_exclusive_witness:
  "\<exists>sys. lock_run orderly two_lockers sys \<and> has_lock sys 0 [''a''] \<and> \<not> has_lock sys 1 [''a'']"
proof -
  obtain w where w: "lock_run orderly two_lockers (w, two_lockers(0 := at_locker NextPath [] [(0, [''a.lock''])], 1 := at_locker (WaitLock [''a''] 1) [] []))"
    by (rule two_lockers_run [of orderly]) simp
  let ?sys = "(w, two_lockers(0 := at_locker NextPath [] [(0, [''a.lock''])], 1 := at_locker (WaitLock [''a''] 1) [] []))"
  have h: "has_lock ?sys 0 [''a'']" by (simp add: has_lock_def lock_path_def)
  from lock_exclusive [OF two_lockers_ok(1) w h] have "\<not> has_lock ?sys 1 [''a'']" by (metis zero_neq_one)
  with w h show ?thesis by blast
qed


end
