(* ===== verification/Gc.thy ===== *)
theory Gc
  imports FsCalls StoreDb
begin

text \<open>
  Roots and deletion of store paths (\<open>libstore/gc.cc\<close>, with \<open>openGCLock\<close> and \<open>deleteStorePath\<close> of
  \<open>local-store.cc\<close>).  The state is the database with the file system and, in a third component, the
  roots found or the results.  The lock of the collector is a check for an interrupt: what waits for it is
  another process.
\<close>

subsection \<open>Roots\<close>

record gc_env =
  ge_storeDir :: string
  ge_realStoreDir :: fpath
  ge_stateDir :: fpath
  ge_reservedPath :: fpath
  ge_ignoreGcDeleteFailure :: bool
  ge_tmp_locked :: "fpath \<Rightarrow> bool"

definition gcRootsDir :: string where
  "gcRootsDir = ''gcroots''"

definition ge_linksDir :: "gc_env \<Rightarrow> fpath" where
  "ge_linksDir env = ge_realStoreDir env @ [''.links'']"

text \<open>\<open>pid\<close> and \<open>rand\<close> make the temporary name.\<close>

definition makeSymlink :: "nat \<Rightarrow> nat \<Rightarrow> fpath \<Rightarrow> string \<Rightarrow> (fsys, unit) M" where
  "makeSymlink pid rand link tgt =
     seqM (createDirs (butlast link))
       (let tempLink = butlast link @ [last link @ ''.tmp-'' @ digits10 pid @ ''-'' @ digits10 rand] in
        seqM (createSymlink tgt tempLink) (sysF (sys_rename tempLink link)))"

text \<open>The root is given as a string; the file system has paths as lists.\<close>

definition fpath_of :: "string \<Rightarrow> fpath" where
  "fpath_of s = tokenizeString s ''/''"

definition is_symlink :: "fpath \<Rightarrow> (fsys, bool) M" where
  "is_symlink p = bindM (sysR (sys_lstat p)) (\<lambda>r.
     case r of
       Inr st \<Rightarrow> ret (ps_type st = tSymlink)
     | Inl e \<Rightarrow> if e = ENOENT \<or> e = ENOTDIR then ret False else throw (FilesystemError e))"

definition addPermRoot :: "gc_env \<Rightarrow> nat \<Rightarrow> nat \<Rightarrow> StorePath \<Rightarrow> string \<Rightarrow> (fsys, string) M" where
  "addPermRoot env pid rand storePath root =
     bindM (liftE (canonPath (\<lambda>_. None) root)) (\<lambda>gcRoot.
     if isInStore (ge_storeDir env) gcRoot
     then throw (Error ''creating a garbage collector root (%1%) in the Nix store is forbidden (are you running nix-build inside the store?)'')
     else
       let p = fpath_of gcRoot in
       bindM (pathExists p) (\<lambda>ex.
       bindM (if \<not> ex then ret False
              else bindM (is_symlink p) (\<lambda>l.
                if \<not> l then ret True else bindM (readLink p) (\<lambda>t. ret (\<not> isInStore (ge_storeDir env) t)))) (\<lambda>clobbers.
         if clobbers then throw (Error ''cannot create symlink %1%; already exists'')
         else seqM (makeSymlink pid rand p (printStorePath (ge_storeDir env) storePath)) (ret gcRoot))))"

type_synonym 'a gc_state = "store_db \<times> fsys \<times> 'a"

abbreviation on_fs :: "(fsys, 'a) M \<Rightarrow> ('b gc_state, 'a) M" where
  "on_fs m \<equiv> onR (onL m)"

abbreviation on_acc :: "('b, 'a) M \<Rightarrow> ('b gc_state, 'a) M" where
  "on_acc m \<equiv> onR (onR m)"

text \<open>A link into the store is a root when the path that it is in is valid.\<close>

definition add_root :: "string \<Rightarrow> string \<Rightarrow> (StorePath list gc_state, unit) M" where
  "add_root storeDir tgt =
     (if \<not> isInStore storeDir tgt then ret ()
      else catchM
        (bindM (liftE (toStorePath storeDir tgt)) (\<lambda>(storePath, _).
         bindM (onL (isValidPath storeDir storePath)) (\<lambda>valid.
           if valid then on_acc (modS (path_insert storePath)) else ret ())))
        (\<lambda>e. if is_BadStorePath e then ret () else throw e))"

definition permanent :: "errno \<Rightarrow> bool" where
  "permanent e \<longleftrightarrow> e = EACCES \<or> e = ENOENT \<or> e = ENOTDIR"

definition ignore_permanent :: "exn \<Rightarrow> (StorePath list gc_state, unit) M" where
  "ignore_permanent e =
     (case e of
        FilesystemError n \<Rightarrow> if permanent n then ret () else throw (SysError n ''finding GC roots in %1%'')
      | SysError n _ \<Rightarrow> if permanent n then ret () else throw e
      | _ \<Rightarrow> throw e)"

text \<open>The type of an entry comes with it; \<open>None\<close> is the unknown type, asked for first.\<close>

definition symlink_status_type :: "fpath \<Rightarrow> (fsys, file_type option) M" where
  "symlink_status_type p = bindM (sysR (sys_lstat p)) (\<lambda>r.
     case r of
       Inr st \<Rightarrow> ret (Some (ps_type st))
     | Inl e \<Rightarrow> if e = ENOENT \<or> e = ENOTDIR then ret None else throw (FilesystemError e))"

fun findRoots :: "nat \<Rightarrow> string \<Rightarrow> fpath \<Rightarrow> file_type option \<Rightarrow> (StorePath list gc_state, unit) M" where
  "findRoots 0 storeDir path ty = throw Diverge"
| "findRoots (Suc fuel) storeDir path ty = catchM
     (bindM (case ty of None \<Rightarrow> on_fs (symlink_status_type path) | Some t \<Rightarrow> ret (Some t)) (\<lambda>ty.
        if ty = Some tDirectory then
          bindM (on_fs (sysE ''cannot read directory %s'' (sys_readdir path)))
            (forM (\<lambda>(name, _, t). seqM (on_fs fs_checkInterrupt) (findRoots fuel storeDir (path @ [name]) (Some t))))
        else if ty = Some tSymlink then bindM (on_fs (readLink path)) (add_root storeDir)
        else ret ()))
     ignore_permanent"

subsection \<open>Deletion\<close>

definition openGCLock :: "gc_env \<Rightarrow> (fsys, unit) M" where
  "openGCLock env = bindM (sysR (sys_create (ge_stateDir env @ [''gc.lock'']) (blank_inode\<lparr>in_mode := 0x180\<rparr>))) (\<lambda>r.
     case r of Inr _ \<Rightarrow> ret () | Inl e \<Rightarrow> if e = EEXIST then ret () else throw (SysError e ''opening lock file %1%''))"

text \<open>The bytes that a deletion has counted when it ends, also when it throws.\<close>

definition deletePath_freed :: "fpath \<Rightarrow> fsys \<Rightarrow> 64 word" where
  "deletePath_freed p s =
     (if p = [] then 0
      else case sysR (sys_readdir (butlast p)) s of
        (Inr (Inr _), s) \<Rightarrow> (case deletePath_walk (tree_fuel s) p (s, 0, None) of (_, (_, freed, _)) \<Rightarrow> freed)
      | _ \<Rightarrow> 0)"

definition deleteStorePath :: "gc_env \<Rightarrow> fpath \<Rightarrow> (fsys, 64 word) M" where
  "deleteStorePath env p s =
     (case deletePath p s of
        (Inl (SysError e m), t) \<Rightarrow>
          if ge_ignoreGcDeleteFailure env then (Inr (deletePath_freed p s), t) else (Inl (SysError e m), t)
      | r \<Rightarrow> r)"

record GCResults =
  gr_paths :: "string list"
  gr_bytesFreed :: "64 word"

definition deleteFromStore :: "gc_env \<Rightarrow> string \<Rightarrow> (GCResults gc_state, unit) M" where
  "deleteFromStore env name =
     (let realPath = ge_realStoreDir env @ [name] in
      if prefix ''tmp-'' name \<and> ge_tmp_locked env realPath then ret ()
      else seqM (on_acc (modS (\<lambda>r. r\<lparr>gr_paths := List.insert (ge_storeDir env @ ''/'' @ name) (gr_paths r)\<rparr>)))
        (bindM (on_fs (deleteStorePath env realPath)) (\<lambda>n.
          on_acc (modS (\<lambda>r. r\<lparr>gr_bytesFreed := gr_bytesFreed r + n\<rparr>)))))"

definition delete_one :: "gc_env \<Rightarrow> StorePath list \<Rightarrow> StorePath \<Rightarrow> (GCResults gc_state, unit) M" where
  "delete_one env roots path =
     seqM (on_fs fs_checkInterrupt)
       (if path \<in> set roots
        then throw (Error ''cannot delete path '%1%' since it is still a garbage collector root'')
        else catchM
          (seqM (onL (invalidatePathChecked (ge_storeDir env) path)) (deleteFromStore env (sp_to_string path)))
          (\<lambda>e. case e of PathInUse _ \<Rightarrow> ret () | _ \<Rightarrow> throw e))"

text \<open>The links of the farm that nothing else links to.\<close>

definition sweep_link :: "gc_env \<Rightarrow> string \<Rightarrow> (fsys, unit) M" where
  "sweep_link env name = seqM fs_checkInterrupt
     (if name = ''.'' \<or> name = ''..'' then ret ()
      else bindM (lstat (ge_linksDir env @ [name])) (\<lambda>st.
        if ps_nlink st \<noteq> 1 then ret () else fs_unlink (ge_linksDir env @ [name])))"

definition sweep_links :: "gc_env \<Rightarrow> (fsys, unit) M" where
  "sweep_links env = bindM (sysE ''opening directory %1%'' (sys_readdir (ge_linksDir env)))
     (forM (\<lambda>(name, _). sweep_link env name))"

definition collect_roots :: "gc_env \<Rightarrow> (GCResults gc_state, StorePath list) M" where
  "collect_roots env = (\<lambda>(db, s, res).
     case findRoots (tree_fuel s) (ge_storeDir env) (ge_stateDir env @ [gcRootsDir]) None (db, s, []) of
       (Inl e, (db, s, _)) \<Rightarrow> (Inl e, (db, s, res))
     | (Inr _, (db, s, roots)) \<Rightarrow> (Inr roots, (db, s, res)))"

text \<open>\<open>paths\<close> are the elements of a set, in order.\<close>

definition collectGarbage :: "gc_env \<Rightarrow> StorePath list \<Rightarrow> (GCResults gc_state, unit) M" where
  "collectGarbage env paths =
     (if paths = [] then ret ()
      else seqM (on_fs (deletePath (ge_reservedPath env)))
        (seqM (on_fs (openGCLock env))
        (seqM (on_fs fs_checkInterrupt)
        (bindM (collect_roots env) (\<lambda>roots.
         seqM (forM (delete_one env roots) paths) (on_fs (sweep_links env)))))))"

subsection \<open>What a deletion leaves alone\<close>

text \<open>The database maps \<open>p\<close> to \<open>v\<close>.\<close>

definition maps_to :: "string \<Rightarrow> StorePath \<Rightarrow> ValidPathInfo option \<Rightarrow> store_db \<Rightarrow> bool" where
  "maps_to storeDir p v db \<longleftrightarrow> db_ok storeDir db \<and> store_map storeDir db p = v"

lemma maps_to_calm: "calm t = calm s \<Longrightarrow> maps_to storeDir p v t = maps_to storeDir p v s"
  using calm_eq_facts [of t s storeDir] by (simp add: maps_to_def)

lemma maps_to_isValidPath: "keeps (maps_to storeDir p v) (isValidPath storeDir q)"
  unfolding keeps_def
proof (intro allI impI)
  fix s assume s: "maps_to storeDir p v s"
  have "atomic (isValidPath0 storeDir q)" by (intro atomic_reads steps_isValidPath0 reads_queries)
  from retry_calm [OF this, of s] obtain t where
    "snd (isValidPath storeDir q s) = t" "calm t = snd (isValidPath0 storeDir q (calm s)) \<or> calm t = calm s"
    unfolding isValidPath_def by (metis snd_conv)
  then have "calm (snd (isValidPath storeDir q s)) = calm s"
    unfolding isValidPath0_map snd_conv by blast
  from maps_to_calm [OF this] s show "maps_to storeDir p v (snd (isValidPath storeDir q s))" by simp
qed

lemma invalidate_outcome:
  assumes "db_ok storeDir s"
  shows "calm (snd (invalidatePathChecked storeDir q s)) = calm s \<or>
    db_ok storeDir (snd (invalidatePathChecked storeDir q s)) \<and>
    store_map storeDir (snd (invalidatePathChecked storeDir q s)) = (store_map storeDir s)(q := None)"
proof -
  note body = steps_invalidatePathChecked_body [of storeDir q]
  obtain t where t: "snd (invalidatePathChecked storeDir q s) = t"
    "calm t = snd (sqlite_txn (invalidatePathChecked_body storeDir q) (calm s)) \<or> calm t = calm s"
    using retry_calm [OF atomic_txn(1) [OF body], of s] unfolding invalidatePathChecked_def by fastforce
  have "snd (sqlite_txn (invalidatePathChecked_body storeDir q) (calm s)) = calm s \<or>
    (\<exists>u. snd (sqlite_txn (invalidatePathChecked_body storeDir q) (calm s)) = u \<and> db_ok storeDir u \<and>
      store_map storeDir u = (store_map storeDir s)(q := None))"
    using invalidate_body [OF assms, of q] unfolding atomic_txn(2) [OF body]
    by (auto simp: rollback_def calm_def split: if_splits)
  with t show ?thesis by (metis db_ok_calm store_map_calm)
qed

lemma maps_to_invalidate: "q \<noteq> p \<Longrightarrow> keeps (maps_to storeDir p v) (invalidatePathChecked storeDir q)"
  unfolding keeps_def
proof (intro allI impI)
  fix s assume "q \<noteq> p" "maps_to storeDir p v s"
  with invalidate_outcome [of storeDir s q] maps_to_calm [of "snd (invalidatePathChecked storeDir q s)" s storeDir p v]
  show "maps_to storeDir p v (snd (invalidatePathChecked storeDir q s))" by (auto simp: maps_to_def)
qed

text \<open>The tree at \<open>b\<close> is as it was: its entries, and the types and contents of the inodes.\<close>

definition kept :: "fpath \<Rightarrow> fsys \<Rightarrow> fsys \<Rightarrow> bool" where
  "kept b s t \<longleftrightarrow> fs_next s \<le> fs_next t \<and>
     filter (\<lambda>(q, _). prefix b q) (fs_dents t) = filter (\<lambda>(q, _). prefix b q) (fs_dents s) \<and>
     (\<forall>i < fs_next s. in_type (fs_inodes t i) = in_type (fs_inodes s i) \<and> in_data (fs_inodes t i) = in_data (fs_inodes s i))"

lemma kept_refl [simp]: "kept b s s"
  by (simp add: kept_def)

lemma kept_trans: "kept b s t \<Longrightarrow> kept b t u \<Longrightarrow> kept b s u"
  by (auto simp: kept_def)

lemma kept_faults [simp]:
  "kept b s (t\<lparr>fs_faults := x\<rparr>) = kept b s t" "kept b s (t\<lparr>fs_signals := y\<rparr>) = kept b s t"
  by (simp_all add: kept_def)

lemma kept_call: "(\<And>t. kept b s t \<Longrightarrow> kept b s (snd (m t))) \<Longrightarrow> kept b s t \<Longrightarrow> kept b s (snd (sys_call m t))"
  by (simp add: sys_call_def split: list.split option.split)

lemma kept_outside:
  assumes "outside q t u" "\<not> prefix b q" "\<not> prefix q b" "kept b s t"
  shows "kept b s u"
proof -
  have "filter (\<lambda>(r, _). prefix b r) (prune [q] ds) = filter (\<lambda>(r, _). prefix b r) ds" for ds :: "(fpath \<times> nat) list"
    using assms(2,3) by (auto simp: prune_def intro!: filter_cong dest: prefix_same_cases)
  then have "filter (\<lambda>(r, _). prefix b r) (fs_dents u) = filter (\<lambda>(r, _). prefix b r) (fs_dents t)"
    using assms(1) unfolding outside_def by metis
  with assms(1,4) show ?thesis by (simp add: outside_def same_nodes_def kept_def)
qed

lemma kept_reads [keep]:
  "keeps (kept b s) fs_checkInterrupt" "keeps (kept b s) (sysE msg (sys_readdir q))" "keeps (kept b s) (lstat q)"
  "keeps (kept b s) (sysR (sys_lstat q))" "keeps (kept b s) (sysE msg (sys_readlink q))"
  by (simp add: keeps_def fs_checkInterrupt_def split: list.split)
    (unfold sys_readdir_def lstat_def sys_lstat_def sys_readlink_def,
      (intro keeps_sysE keeps_sysR kept_call; simp split: option.split)+)

lemma kept_new_inode: "\<not> prefix b q \<Longrightarrow> kept b s t \<Longrightarrow> kept b s (new_inode q n t)"
  by (auto simp: kept_def new_inode_def fs)

lemma kept_create: "\<not> prefix b q \<Longrightarrow> keeps (kept b s) (sysR (sys_create q n))"
  unfolding sys_create_def by (intro keeps_sysR kept_call) (simp_all add: kept_new_inode)

lemma kept_del: "\<not> prefix b q \<Longrightarrow> kept b s t \<Longrightarrow> kept b s (del_dent q t)"
proof -
  assume "\<not> prefix b q" "kept b s t"
  moreover from this have "filter (\<lambda>(r, _). prefix b r) (filter (\<lambda>(x, _). x \<noteq> q) ds) = filter (\<lambda>(r, _). prefix b r) ds"
    for ds :: "(fpath \<times> nat) list" by (auto intro!: filter_cong)
  ultimately show ?thesis by (simp add: kept_def fs)
qed

lemma kept_unlink: "\<not> prefix b q \<Longrightarrow> keeps (kept b s) (fs_unlink q)"
  unfolding fs_unlink_def sys_unlink_def
  by (intro keeps_sysE kept_call) (simp_all add: kept_del split: option.split)

lemma kept_deletePath: "\<not> prefix b q \<Longrightarrow> \<not> prefix q b \<Longrightarrow> keeps (kept b s) (deletePath q)"
  using outside_deletePath kept_outside unfolding keeps_def by blast

subsection \<open>What the collection keeps\<close>

text \<open>The paths that the collection works on lie apart from the store path.\<close>

definition apart :: "fpath \<Rightarrow> fpath \<Rightarrow> bool" where
  "apart a b \<longleftrightarrow> \<not> prefix a b \<and> \<not> prefix b a"

definition env_ok :: "gc_env \<Rightarrow> bool" where
  "env_ok env \<longleftrightarrow> apart (ge_reservedPath env) (ge_realStoreDir env) \<and> apart (ge_stateDir env) (ge_realStoreDir env)"

abbreviation store_fpath :: "gc_env \<Rightarrow> StorePath \<Rightarrow> fpath" where
  "store_fpath env p \<equiv> ge_realStoreDir env @ [sp_to_string p]"

definition safe :: "gc_env \<Rightarrow> StorePath \<Rightarrow> ValidPathInfo option \<Rightarrow> fsys \<Rightarrow> 'a gc_state \<Rightarrow> bool" where
  "safe env p v s = (\<lambda>(db, t, _). maps_to (ge_storeDir env) p v db \<and> kept (store_fpath env p) s t)"

lemma safe_db: "keeps (maps_to (ge_storeDir env) p v) m \<Longrightarrow> keeps (safe env p v s) (onL m)"
  by (force simp: keeps_def safe_def onL_def split: prod.split)

lemma safe_fs: "keeps (kept (store_fpath env p) s) m \<Longrightarrow> keeps (safe env p v s) (on_fs m)"
  by (force simp: keeps_def safe_def onL_def onR_def split: prod.split)

lemma safe_acc [keep]: "keeps (safe env p v s) (on_acc m)"
  by (auto simp: keeps_def safe_def onR_def split: prod.split)

lemmas safe_intros = keep safe_db safe_fs

lemma apart_below: "apart (ge_realStoreDir env @ [m]) (store_fpath env p) \<longleftrightarrow> m \<noteq> sp_to_string p"
  by (auto simp: apart_def)

lemma apart_other: "apart d (ge_realStoreDir env) \<Longrightarrow> prefix d q \<Longrightarrow> apart q (store_fpath env p)"
proof -
  assume a: "apart d (ge_realStoreDir env)" and d: "prefix d q"
  have r: "prefix (ge_realStoreDir env) (store_fpath env p)" by simp
  have "\<not> prefix q (store_fpath env p)" "\<not> prefix (store_fpath env p) q"
    using a prefix_same_cases [OF prefix_order.trans [OF d] r] prefix_same_cases [OF d prefix_order.trans [OF r]]
    by (auto simp: apart_def)
  then show ?thesis by (simp add: apart_def)
qed

lemma safe_add_root: "keeps (safe env p v s) (add_root (ge_storeDir env) t)"
  unfolding add_root_def
  by (intro safe_intros maps_to_isValidPath) (auto intro!: safe_intros maps_to_isValidPath split: exn.split)

lemma safe_findRoots: "keeps (safe env p v s) (findRoots fuel (ge_storeDir env) path ty)"
proof (induction fuel arbitrary: path ty)
  case (Suc fuel)
  have st: "keeps (kept (store_fpath env p) s) (symlink_status_type q)" for q
    unfolding symlink_status_type_def by (intro keep) (auto split: sum.split intro: keep)
  have rl: "keeps (kept (store_fpath env p) s) (readLink q)" for q
    unfolding readLink_def by (intro keep)
  have ig: "keeps (safe env p v s) (ignore_permanent e)" for e
    unfolding ignore_permanent_def by (auto split: exn.split intro: keep)
  show ?case
    unfolding findRoots.simps(2)
    by (intro safe_intros st rl ig safe_add_root)
      (auto split: option.split intro!: safe_intros st rl ig safe_add_root Suc.IH)
qed (simp add: keep)

lemma safe_deleteFromStore:
  assumes "m \<noteq> sp_to_string p"
  shows "keeps (safe env p v s) (deleteFromStore env m)"
proof -
  have "keeps (kept (store_fpath env p) s) (deleteStorePath env (ge_realStoreDir env @ [m]))"
    using kept_deletePath [of "store_fpath env p" "ge_realStoreDir env @ [m]" s] apart_below [of env m p] assms
    by (force simp: keeps_def deleteStorePath_def apart_def split: prod.split sum.split exn.split)
  then show ?thesis unfolding deleteFromStore_def Let_def by (intro safe_intros)
qed

lemma safe_delete_one:
  assumes "q \<noteq> p \<or> q \<in> set roots"
  shows "keeps (safe env p v s) (delete_one env roots q)"
proof -
  have "keeps (safe env p v s) (seqM (onL (invalidatePathChecked (ge_storeDir env) q)) (deleteFromStore env (sp_to_string q)))"
    if "q \<noteq> p"
  proof -
    have "sp_to_string q \<noteq> sp_to_string p" using that by (cases p; cases q) (simp add: sp_to_string_def)
    then show ?thesis using that by (intro safe_intros maps_to_invalidate safe_deleteFromStore)
  qed
  then have "keeps (safe env p v s) (catchM
      (seqM (onL (invalidatePathChecked (ge_storeDir env) q)) (deleteFromStore env (sp_to_string q)))
      (\<lambda>e. case e of PathInUse _ \<Rightarrow> ret () | _ \<Rightarrow> throw e))" if "q \<noteq> p"
    using that by (intro keeps_catchM) (auto intro: keep split: exn.split)
  with assms show ?thesis
    unfolding delete_one_def by (auto intro!: keeps_seqM keeps_throw safe_fs kept_reads)
qed

lemma safe_sweep:
  assumes "sp_to_string p \<noteq> ''.links''"
  shows "keeps (safe env p v s) (on_fs (sweep_links env))"
proof -
  have "\<not> prefix (store_fpath env p) (ge_linksDir env @ [m])" for m
    using assms by (auto simp: ge_linksDir_def)
  then have "keeps (kept (store_fpath env p) s) (sweep_link env m)" for m
    unfolding sweep_link_def by (intro keep kept_unlink)
  then show ?thesis
    unfolding sweep_links_def by (intro safe_intros) (auto split: prod.split)
qed

lemma safe_start:
  assumes "env_ok env"
  shows "keeps (safe env p v s) (on_fs (deletePath (ge_reservedPath env)))" "keeps (safe env p v s) (on_fs (openGCLock env))"
proof -
  have r: "apart (ge_reservedPath env) (store_fpath env p)" "apart (ge_stateDir env @ [''gc.lock'']) (store_fpath env p)"
    using assms by (auto simp: env_ok_def intro: apart_other)
  then show "keeps (safe env p v s) (on_fs (deletePath (ge_reservedPath env)))"
    by (intro safe_fs kept_deletePath) (simp_all add: apart_def)
  from r show "keeps (safe env p v s) (on_fs (openGCLock env))"
    unfolding openGCLock_def
    by (intro safe_fs keep kept_create) (auto simp: apart_def split: sum.split intro: keep)
qed

lemma safe_collect_roots: "keeps (safe env p v s) (collect_roots env)"
proof -
  show ?thesis
    unfolding keeps_def
  proof (intro allI impI)
    fix x :: "GCResults gc_state" assume x: "safe env p v s x"
    obtain db t acc where eq: "x = (db, t, acc)" by (cases x)
    from x have "safe env p v s (db, t, [] :: StorePath list)" by (simp add: eq safe_def)
    from keepsD [OF safe_findRoots this, of "tree_fuel t" "ge_stateDir env @ [gcRootsDir]" None]
    show "safe env p v s (snd (collect_roots env x))"
      by (auto simp: eq collect_roots_def safe_def split: prod.splits sum.splits)
  qed
qed

subsection \<open>Which roots are found\<close>

text \<open>A symlink with this target keeps \<open>p\<close>.\<close>

definition roots_at :: "string \<Rightarrow> StorePath \<Rightarrow> string \<Rightarrow> bool" where
  "roots_at storeDir p tgt \<longleftrightarrow> isInStore storeDir tgt \<and> (\<exists>r. toStorePath storeDir tgt = Inr (p, r))"

fun io_exn :: "exn \<Rightarrow> bool" where
  "io_exn (SysError _ _) = True"
| "io_exn (FilesystemError _) = True"
| "io_exn _ = False"

lemma parse_no_io: "parseStorePath storeDir s = Inl e \<Longrightarrow> \<not> io_exn e"
proof (cases "s = [] \<or> hd s \<noteq> CHR ''/''")
  case True
  assume "parseStorePath storeDir s = Inl e"
  with True show ?thesis by (auto simp: parseStorePath_def canonPath_def split: if_splits)
next
  case False
  assume e: "parseStorePath storeDir s = Inl e"
  have "storePath_of_baseName b = Inl e' \<Longrightarrow> \<not> io_exn e'" for b e'
    using storePath_of_baseName_result [of b] by auto
  with e False show ?thesis by (auto simp: parseStorePath_def canonPath_resolve split: if_splits)
qed

lemma toStorePath_no_io: "toStorePath storeDir s = Inl e \<Longrightarrow> \<not> io_exn e"
  by (auto simp: toStorePath_def bindE_eq_Inl canon_path_eq Let_def dest: parse_no_io split: if_splits option.splits)

lemma isValidPath_quiet:
  assumes "db_signals s = []"
  obtains t where "isValidPath storeDir q s = (Inr (store_map storeDir s q \<noteq> None), t)" "calm t = calm s" "db_signals t = []"
proof -
  have "steps m \<Longrightarrow> keeps (\<lambda>s. db_signals s = []) (retry_loop fuel m)" for m :: "(store_db, bool) M" and fuel
  proof (induction fuel)
    case (Suc fuel)
    have "keeps (\<lambda>s. db_signals s = []) m"
      using Suc.prems by (auto simp: keeps_def steps_def busy_answer_def calm_answer_def) metis+
    moreover have "keeps (\<lambda>s. db_signals s = []) handleSQLiteBusy"
      by (simp add: keeps_def handleSQLiteBusy_def db_checkInterrupt_def)
    ultimately show ?case
      using Suc by (auto intro!: keep split: exn.split)
  qed (simp add: keep)
  from this [OF steps_isValidPath0] assms have "db_signals (snd (isValidPath storeDir q s)) = []"
    by (simp add: keeps_def isValidPath_def retrySQLite_def del: retry_loop.simps)
  moreover obtain t where "isValidPath storeDir q s = (fst (isValidPath0 storeDir q (calm s)), t)"
    "calm t = snd (isValidPath0 storeDir q (calm s))"
    using retry_no_signal [OF atomic_reads [OF steps_isValidPath0 reads_queries(2)] assms, of storeDir q]
    by (metis isValidPath_def)
  ultimately show ?thesis using that [of t] by (simp add: isValidPath0_map)
qed

text \<open>On quiet calls nothing changes but the roots, and no error of a file is raised.\<close>

definition db_quiet :: "store_db \<Rightarrow> store_db \<Rightarrow> bool" where
  "db_quiet s t \<longleftrightarrow> calm t = calm s \<and> db_signals t = []"

definition only_grows :: "store_db \<times> fsys \<times> StorePath list \<Rightarrow> StorePath list gc_state \<Rightarrow> bool" where
  "only_grows x y \<longleftrightarrow> db_quiet (fst x) (fst y) \<and> same_fs (fst (snd x)) (fst (snd y)) \<and> set (snd (snd x)) \<subseteq> set (snd (snd y))"

lemma only_grows_trans: "only_grows x y \<Longrightarrow> only_grows y z \<Longrightarrow> only_grows x z"
  by (auto simp: only_grows_def db_quiet_def elim: same_fs_trans)

lemma add_root_quiet:
  assumes "db_signals db = []"
  shows "wp (add_root storeDir tgt)
    (\<lambda>_ y. only_grows (db, s, rs) y \<and> (roots_at storeDir p tgt \<and> store_map storeDir db p \<noteq> None \<longrightarrow> p \<in> set (snd (snd y))))
    (\<lambda>e _. \<not> io_exn e) (db, s, rs)"
proof (cases "isInStore storeDir tgt")
  case False
  then show ?thesis by (simp add: add_root_def wps only_grows_def db_quiet_def roots_at_def assms)
next
  case True
  show ?thesis
  proof (cases "toStorePath storeDir tgt")
    case (Inl e)
    then show ?thesis
      using True toStorePath_no_io [OF Inl] assms
      by (simp add: add_root_def run wp_def only_grows_def db_quiet_def roots_at_def)
  next
    case (Inr qr)
    obtain q r where qr: "qr = (q, r)" by fastforce
    obtain t where t: "isValidPath storeDir q db = (Inr (store_map storeDir db q \<noteq> None), t)" "calm t = calm db" "db_signals t = []"
      using isValidPath_quiet [OF assms] .
    have "set (path_insert q rs) = insert q (set rs)" by (auto simp: path_insert_def set_insort_key)
    then show ?thesis
      using True Inr qr t by (auto simp: add_root_def run wp_def only_grows_def db_quiet_def roots_at_def)
  qed
qed

lemma wp_catchM [wps]: "wp (catchM m h) Q E = wp m Q (\<lambda>e. wp (h e) Q E)"
  by (simp add: wp_def catchM_def fun_eq_iff split: prod.split sum.split)

lemma wp_readLink:
  "wp (readLink p) (\<lambda>x t. same_fs s t \<and> (\<exists>i. dent s p = Some i \<and> in_type (fs_inodes s i) = tSymlink \<and> x = in_data (fs_inodes s i)))
     (\<lambda>e t. same_fs s t \<and> (fs_quiet s \<longrightarrow> \<not> (\<exists>i. dent s p = Some i \<and> in_type (fs_inodes s i) = tSymlink))) s"
proof -
  have "sysP (sys_readlink p) (\<lambda>r t. same_fs u t \<and>
     (case r of Inr x \<Rightarrow> \<exists>i. dent u p = Some i \<and> in_type (fs_inodes u i) = tSymlink \<and> x = in_data (fs_inodes u i)
      | Inl e \<Rightarrow> fs_quiet u \<longrightarrow> \<not> (\<exists>i. dent u p = Some i \<and> in_type (fs_inodes u i) = tSymlink))) u" for u
    unfolding sys_readlink_def by (rule sysP_call) (auto simp: sysP_def split: option.split)
  note call = this
  have "sysP (sys_readlink p) (\<lambda>r u. same_fs s u \<and>
     (case r of Inr x \<Rightarrow> \<exists>i. dent s p = Some i \<and> in_type (fs_inodes s i) = tSymlink \<and> x = in_data (fs_inodes s i)
      | Inl e \<Rightarrow> fs_quiet s \<longrightarrow> \<not> (\<exists>i. dent s p = Some i \<and> in_type (fs_inodes s i) = tSymlink))) t" if t: "same_fs s t" for t
  proof (rule sysP_mono [OF call [of t]])
    have eq: "dent t p = dent s p" "fs_inodes t = fs_inodes s" "fs_quiet s \<longrightarrow> fs_quiet t"
      using t by (simp_all add: same_fs_def dent_def)
    fix r u assume "same_fs t u \<and> (case r of Inr x \<Rightarrow> \<exists>i. dent t p = Some i \<and> in_type (fs_inodes t i) = tSymlink \<and> x = in_data (fs_inodes t i)
      | Inl e \<Rightarrow> fs_quiet t \<longrightarrow> \<not> (\<exists>i. dent t p = Some i \<and> in_type (fs_inodes t i) = tSymlink))"
    with eq same_fs_trans [OF t, of u] show "same_fs s u \<and>
     (case r of Inr x \<Rightarrow> \<exists>i. dent s p = Some i \<and> in_type (fs_inodes s i) = tSymlink \<and> x = in_data (fs_inodes s i)
      | Inl e \<Rightarrow> fs_quiet s \<longrightarrow> \<not> (\<exists>i. dent s p = Some i \<and> in_type (fs_inodes s i) = tSymlink))"
      by (auto split: sum.splits)
  qed
  note call' = this
  have "wp (sysE msg (sys_readlink p)) (\<lambda>x t. same_fs s t \<and> (\<exists>i. dent s p = Some i \<and> in_type (fs_inodes s i) = tSymlink \<and> x = in_data (fs_inodes s i)))
     (\<lambda>e t. same_fs s t \<and> (fs_quiet s \<longrightarrow> \<not> (\<exists>i. dent s p = Some i \<and> in_type (fs_inodes s i) = tSymlink))) t"
    if "same_fs s t" for t msg
    unfolding wp_sys by (rule sysP_mono [OF call' [OF that]]) (auto split: sum.splits)
  then show ?thesis
    unfolding readLink_def wp_seqM by (intro wp_mono [OF wp_checkInterrupt]) auto
qed

lemma wp_symlink_status:
  "wp (symlink_status_type p) (\<lambda>x t. same_fs s t \<and>
       (case x of Some ty \<Rightarrow> \<exists>i. dent s p = Some i \<and> ty = in_type (fs_inodes s i) | None \<Rightarrow> fs_quiet s \<longrightarrow> dent s p = None))
     (\<lambda>e t. same_fs s t \<and> \<not> fs_quiet s) s"
  unfolding symlink_status_type_def
  using miss_cases [of s p]
  by (simp add: wps, intro sysP_mono [OF sysP_lstat]) (auto simp: wps stat_of_def Let_def split: sum.splits)

lemma below_missing: "fs_ok s \<Longrightarrow> prefix path q \<Longrightarrow> dent s q = Some i \<Longrightarrow> q = path \<or> is_dir s path \<and> (\<exists>n j. (n, j) \<in> set (children s path) \<and> prefix (path @ [n]) q)"
proof -
  assume ok: "fs_ok s" and p: "prefix path q" and i: "dent s q = Some i"
  obtain r where r: "q = path @ r" using p by (auto simp: prefix_def)
  show ?thesis
  proof (cases r)
    case (Cons n r')
    have q: "(path @ n # r', i) \<in> set (fs_dents s)" using dent_in [OF i] r Cons by simp
    have d: "is_dir s path" by (rule ancestor_dir [OF ok q])
    have "\<exists>j. (path @ [n], j) \<in> set (fs_dents s)"
    proof (cases r')
      case (Cons m r'')
      have "is_dir s (path @ [n])" using ancestor_dir [OF ok, of "path @ [n]" m r'' i] q Cons by simp
      then show ?thesis using dent_in by (fastforce simp: is_dir_dent)
    qed (use q in auto)
    then have "n \<in> fst ` set (children s path)" by (auto simp: children_names)
    then show ?thesis using d r Cons by (auto simp: prefix_def)
  qed (simp add: r)
qed

lemma children_iff: "(n, i) \<in> set (children s p) \<longleftrightarrow> (p @ [n], i) \<in> set (fs_dents s)"
  by (force simp: children_def)

lemma findRoots_quiet:
  assumes "fs_ok s" "fs_quiet s" "db_signals db = []"
    and q: "dent s q = Some i" "in_type (fs_inodes s i) = tSymlink" "roots_at storeDir p (in_data (fs_inodes s i))"
      "store_map storeDir db p \<noteq> None"
    and ty: "case ty of None \<Rightarrow> True | Some t \<Rightarrow> \<exists>j. dent s path = Some j \<and> in_type (fs_inodes s j) = t"
  shows "wp (findRoots fuel storeDir path ty) (\<lambda>_ y. only_grows (db, s, rs) y \<and> (prefix path q \<longrightarrow> p \<in> set (snd (snd y))))
    (\<lambda>e _. \<not> io_exn e) (db, s, rs)"
  using assms
proof (induction fuel arbitrary: path ty db s rs)
  case 0
  then show ?case by (simp add: wps)
next
  case (Suc fuel)
  note pre = Suc.prems
  let ?Q = "\<lambda>_ y. only_grows (db, s, rs) y \<and> (prefix path q \<longrightarrow> p \<in> set (snd (snd y)))"
  let ?E = "\<lambda>e _. \<not> io_exn e"
  have again: "fs_ok t" "fs_quiet t" "db_signals db' = []" "dent t = dent s" "fs_inodes t = fs_inodes s"
    "store_map storeDir db' = store_map storeDir db" if "only_grows (db, s, rs) (db', t, rs')" for db' t rs'
    using that pre(1,2) same_fs_ok [of s t] calm_eq_facts(2) [of db' db storeDir]
    by (auto simp: only_grows_def db_quiet_def same_fs_def dent_def fun_eq_iff)
  have handler: "wp (ignore_permanent e) ?Q ?E y" if "\<not> io_exn e" for e y
    using that by (cases e) (simp_all add: ignore_permanent_def wps)
  have dir: "wp (bindM (on_fs (sysE ''cannot read directory %s'' (sys_readdir path)))
      (forM (\<lambda>(name, _, t). seqM (on_fs fs_checkInterrupt) (findRoots fuel storeDir (path @ [name]) (Some t))))) ?Q ?E (db, t, rs)"
    if t: "same_fs s t" and d: "is_dir s path" for t
  proof -
    let ?es = "map (\<lambda>(n, i). (n, i, in_type (fs_inodes s i))) (children s path)"
    let ?I = "\<lambda>rest y. only_grows (db, s, rs) y \<and> set rest \<subseteq> set ?es \<and>
      (prefix path q \<longrightarrow> p \<in> set (snd (snd y)) \<or> (\<exists>e \<in> set rest. prefix (path @ [fst e]) q))"
    let ?body = "\<lambda>(name, _, t). seqM (on_fs fs_checkInterrupt) (findRoots fuel storeDir (path @ [name]) (Some t))"
    have start: "?I ?es (db, u, rs)" if u: "same_fs s u" for u
    proof -
      have "q \<noteq> path" using pre(4,5) d by (auto simp: is_dir_dent)
      then have "prefix path q \<longrightarrow> (\<exists>e \<in> set ?es. prefix (path @ [fst e]) q)"
        using below_missing [OF pre(1) _ pre(4), of path] by force
      then show ?thesis using u pre(3) by (simp add: only_grows_def db_quiet_def)
    qed
    have step: "wp (?body e) (\<lambda>_. ?I rest) ?E y" if I: "?I (e # rest) y" for e rest y
    proof -
      obtain db' u rs' where y: "y = (db', u, rs')" by (cases y)
      obtain n k ty' where e: "e = (n, k, ty')" by (cases e)
      have g: "only_grows (db, s, rs) (db', u, rs')" using I y by simp
      have "(path @ [n], k) \<in> set (fs_dents s)" "ty' = in_type (fs_inodes s k)"
        using I e by (auto simp: children_iff)
      then have k: "dent s (path @ [n]) = Some k" "ty' = in_type (fs_inodes s k)"
        using pre(1) by (simp_all add: dent_iff)
      have "wp (findRoots fuel storeDir (path @ [n]) (Some ty')) (\<lambda>_. ?I rest) ?E (db', u', rs')"
        if u': "same_fs u u'" for u'
      proof -
        have "only_grows (db', u, rs') (db', u', rs')" using u' again(3) [OF g] by (simp add: only_grows_def db_quiet_def)
        then have g': "only_grows (db, s, rs) (db', u', rs')" by (rule only_grows_trans [OF g])
        note a = again [OF g']
        have "wp (findRoots fuel storeDir (path @ [n]) (Some ty')) (\<lambda>_ y. only_grows (db', u', rs') y \<and>
            (prefix (path @ [n]) q \<longrightarrow> p \<in> set (snd (snd y)))) ?E (db', u', rs')"
          using pre(4-7) k by (intro Suc.IH a(1-3)) (simp_all add: a(4-6))
        then show ?thesis
          by (rule wp_mono) (use I y e only_grows_trans [OF g'] in \<open>auto simp: only_grows_def\<close>)
      qed
      then show ?thesis
        unfolding e y using again(2) [OF g]
        by (simp add: wps) (rule wp_mono [OF wp_checkInterrupt], auto)
    qed
    have "wp (forM ?body ?es) ?Q ?E (db, u, rs)" if u: "same_fs s u" for u
      by (rule wp_forM [where I = ?I, OF start [OF u] step]) auto
    note loop = this
    have eq: "fs_quiet t" "is_dir t path" "children t path = children s path" "fs_inodes t = fs_inodes s"
      using t pre(2) d same_fs_is_dir [OF t] same_fs_children [OF t] by (simp_all add: same_fs_def)
    have "sysP (sys_readdir path) (\<lambda>r u. same_fs s u \<and> r = Inr ?es) t"
      by (rule sysP_mono [OF sysP_readdir]) (auto simp: eq split: sum.splits intro: same_fs_trans [OF t])
    then have "sysP (sys_readdir path) (\<lambda>r u. case r of Inl e \<Rightarrow> ?E (SysError e ''cannot read directory %s'') (db, u, rs)
        | Inr es \<Rightarrow> wp (forM ?body es) ?Q ?E (db, u, rs)) t"
      by (rule sysP_mono) (auto simp del: forM.simps simp: loop)
    then show ?thesis by (simp only: wps)
  qed
  have link: "wp (bindM (on_fs (readLink path)) (add_root storeDir)) ?Q ?E (db, t, rs)"
    if t: "same_fs s t" and l: "dent s path = Some j" "in_type (fs_inodes s j) = tSymlink" for t j
  proof -
    have eq: "fs_quiet t" "dent t path = Some j" "fs_inodes t = fs_inodes s"
      using t pre(2) l same_fs_dent [OF t] by (simp_all add: same_fs_def)
    have here: "prefix path q \<Longrightarrow> q = path" using below_missing [OF pre(1) _ pre(4), of path] l by (auto simp: is_dir_dent)
    have "wp (add_root storeDir (in_data (fs_inodes s j))) ?Q ?E (db, u, rs)" if u: "same_fs t u" for u
    proof (rule wp_mono [OF add_root_quiet [OF pre(3), of storeDir _ u rs p]])
      fix x y assume y: "only_grows (db, u, rs) y \<and> (roots_at storeDir p (in_data (fs_inodes s j)) \<and> store_map storeDir db p \<noteq> None \<longrightarrow> p \<in> set (snd (snd y)))"
      have "only_grows (db, s, rs) (db, u, rs)" using same_fs_trans [OF t u] pre(3) by (simp add: only_grows_def db_quiet_def)
      with y show "?Q x y" using here pre(4,6,7) l only_grows_trans by auto
    qed
    moreover have "wp (readLink path) (\<lambda>x u. same_fs t u \<and> x = in_data (fs_inodes s j)) (\<lambda>_ _. False) t"
      by (rule wp_mono [OF wp_readLink]) (use eq l in auto)
    ultimately have "wp (readLink path) (\<lambda>x u. wp (add_root storeDir x) ?Q ?E (db, u, rs)) (\<lambda>e u. ?E e (db, u, rs)) t"
      by (elim wp_mono) auto
    then show ?thesis by (simp only: wps)
  qed
  have other: "?Q x (db, t, rs)"
    if t: "same_fs s t" and "\<not> is_dir s path" "\<And>j. dent s path = Some j \<Longrightarrow> in_type (fs_inodes s j) \<noteq> tSymlink" for t x
    using that below_missing [OF pre(1) _ pre(4), of path] pre(3-5) by (auto simp: only_grows_def db_quiet_def)
  let ?go = "\<lambda>ty. if ty = Some tDirectory then
      bindM (on_fs (sysE ''cannot read directory %s'' (sys_readdir path)))
        (forM (\<lambda>(name, _, t). seqM (on_fs fs_checkInterrupt) (findRoots fuel storeDir (path @ [name]) (Some t))))
    else if ty = Some tSymlink then bindM (on_fs (readLink path)) (add_root storeDir)
    else ret ()"
  have go: "wp (?go ty) ?Q ?E (db, t, rs)"
    if "same_fs s t" "case ty of Some ty \<Rightarrow> \<exists>i. dent s path = Some i \<and> ty = in_type (fs_inodes s i) | None \<Rightarrow> dent s path = None"
    for t ty
  proof (cases "ty = Some tDirectory")
    case True
    with that have "is_dir s path" by (auto simp: is_dir_dent)
    with True show ?thesis using dir [OF that(1)] by simp
  next
    case False
    show ?thesis
    proof (cases "ty = Some tSymlink")
      case True
      with that(2) obtain j where "dent s path = Some j" "in_type (fs_inodes s j) = tSymlink" by auto
      from link [OF that(1) this] show ?thesis using True by simp
    next
      case False
      with \<open>ty \<noteq> Some tDirectory\<close> that show ?thesis
        by (simp only: if_False wps) (rule other, auto simp: is_dir_dent split: option.splits)
    qed
  qed
  have "wp (case ty of None \<Rightarrow> on_fs (symlink_status_type path) | Some t \<Rightarrow> ret (Some t))
      (\<lambda>ty y. wp (?go ty) ?Q ?E y) ?E (db, s, rs)"
  proof (cases ty)
    case None
    have "wp (symlink_status_type path) (\<lambda>ty t. wp (?go ty) ?Q ?E (db, t, rs)) (\<lambda>e t. ?E e (db, t, rs)) s"
      by (rule wp_mono [OF wp_symlink_status], rule go) (use pre(2) in \<open>auto split: option.splits\<close>)
    then show ?thesis unfolding None by (simp only: wps option.case)
  next
    case (Some t)
    then show ?thesis using go [of s "Some t"] pre(8) by (simp only: wps option.case) auto
  qed
  then have "wp (case ty of None \<Rightarrow> on_fs (symlink_status_type path) | Some t \<Rightarrow> ret (Some t))
      (\<lambda>ty y. wp (?go ty) ?Q (\<lambda>e. wp (ignore_permanent e) ?Q ?E) y) (\<lambda>e. wp (ignore_permanent e) ?Q ?E) (db, s, rs)"
    by (elim wp_mono) (auto intro: handler)
  then show ?case unfolding findRoots.simps(2) by (simp only: wps)
qed
text \<open>A symlink below the roots directory that keeps \<open>p\<close>.\<close>

definition rooted :: "gc_env \<Rightarrow> fsys \<Rightarrow> StorePath \<Rightarrow> bool" where
  "rooted env s p \<longleftrightarrow> (\<exists>q i. prefix (ge_stateDir env @ [gcRootsDir]) q \<and> \<not> prefix (ge_reservedPath env) q \<and> dent s q = Some i \<and>
     in_type (fs_inodes s i) = tSymlink \<and> roots_at (ge_storeDir env) p (in_data (fs_inodes s i)))"

text \<open>Nothing goes wrong, and a root of \<open>p\<close> is there.\<close>

definition root_there :: "gc_env \<Rightarrow> StorePath \<Rightarrow> fsys \<Rightarrow> bool" where
  "root_there env p s \<longleftrightarrow> fs_ok s \<and> fs_quiet s \<and> rooted env s p"

lemma root_there_same: "same_fs s t \<Longrightarrow> root_there env p s \<Longrightarrow> root_there env p t"
  using same_fs_ok [of s t] by (auto simp: root_there_def rooted_def same_fs_def dent_def)

lemma root_there_start:
  assumes r: "root_there env p s"
  shows "wp (deletePath (ge_reservedPath env)) (\<lambda>_. root_there env p) (\<lambda>_ _. True) s"
    "wp (openGCLock env) (\<lambda>_. root_there env p) (\<lambda>_ _. True) s"
proof -
  note f = r [unfolded root_there_def]
  let ?r = "ge_reservedPath env"
  show "wp (deletePath ?r) (\<lambda>_. root_there env p) (\<lambda>_ _. True) s"
  proof (cases "?r \<noteq> [] \<and> is_dir s (butlast ?r)")
    case True
    then obtain t freed where t: "deletePath ?r s = (Inr freed, t)" "pruned [?r] s t"
      using deletePath_quiet [of s ?r] f by blast
    have "dent t q = Some i" if "dent s q = Some i" "\<not> prefix ?r q" for q i
    proof -
      have "(q, i) \<in> set (fs_dents t)" using dent_in [OF that(1)] that(2) t(2) by (simp add: pruned_def prune_def)
      then show ?thesis using pruned_ok [OF _ _ t(2)] f True by (simp add: dent_iff)
    qed
    with f t True pruned_ok [OF _ _ t(2)] show ?thesis
      by (simp add: wp_def root_there_def rooted_def) (auto simp: pruned_def same_nodes_def)
  next
    case False
    then have "\<exists>e. sysR (sys_readdir (butlast ?r)) s = (Inr (Inl e), s)" if "?r \<noteq> []"
      using that f by (auto simp: sysR_def sys_readdir_def sys_call_quiet fs_quiet_def split: option.split)
    with r show ?thesis by (auto simp: wp_def deletePath_def split: if_splits)
  qed
  let ?l = "ge_stateDir env @ [''gc.lock'']"
  have "root_there env p (new_inode ?l n s)" if new: "dent s ?l = None" "is_dir s (butlast ?l)" for n
  proof -
    have i: "i < fs_next s \<and> q \<noteq> ?l" if "dent s q = Some i" for q i
      using dent_in [OF that] that f new(1) by (auto simp: fs_ok_def)
    have "fs_quiet (new_inode ?l n s)" using f by (simp add: fs_quiet_def new_inode_def fs)
    moreover have "rooted env (new_inode ?l n s) p"
    proof -
      obtain q j where q: "prefix (ge_stateDir env @ [gcRootsDir]) q" "\<not> prefix (ge_reservedPath env) q" "dent s q = Some j"
        "in_type (fs_inodes s j) = tSymlink" "roots_at (ge_storeDir env) p (in_data (fs_inodes s j))"
        using f by (auto simp: rooted_def)
      have "dent (new_inode ?l n s) q = Some j"
        using fs_ok_new_inode(2) [OF conjunct1 [OF f] new, of n q] i [OF q(3)] q(3) by simp
      moreover have "in_type (fs_inodes (new_inode ?l n s) j) = in_type (fs_inodes s j)"
        "in_data (fs_inodes (new_inode ?l n s) j) = in_data (fs_inodes s j)"
        using i [OF q(3)] by (simp_all add: new_inode_def fs)
      ultimately show ?thesis using q unfolding rooted_def by metis
    qed
    ultimately show ?thesis using fs_ok_new_inode(1) [OF _ new] f by (simp add: root_there_def)
  qed
  note made = this
  show "wp (openGCLock env) (\<lambda>_. root_there env p) (\<lambda>_ _. True) s"
  proof (cases "dent s ?l = None \<and> is_dir s (butlast ?l)")
    case True
    with f made show ?thesis
      by (simp add: openGCLock_def wps sysP_def sys_create_def sys_call_quiet fs_quiet_def)
  next
    case False
    then show ?thesis using f r
      by (cases "dent s ?l") (simp_all add: openGCLock_def wps sysP_def sys_create_def sys_call_quiet fs_quiet_def)
  qed
qed

lemma collect_roots_finds:
  assumes "root_there env p s" "db_signals db = []" "store_map (ge_storeDir env) db p \<noteq> None"
  shows "wp (collect_roots env) (\<lambda>roots _. p \<in> set roots) (\<lambda>_ _. True) (db, s, res)"
proof -
  obtain q i where q: "prefix (ge_stateDir env @ [gcRootsDir]) q" "dent s q = Some i" "in_type (fs_inodes s i) = tSymlink"
    "roots_at (ge_storeDir env) p (in_data (fs_inodes s i))"
    using assms(1) by (auto simp: root_there_def rooted_def)
  have "fs_ok s" "fs_quiet s" using assms(1) by (simp_all add: root_there_def)
  from findRoots_quiet [OF this assms(2) q(2-4) assms(3), where ty = None and path = "ge_stateDir env @ [gcRootsDir]" and fuel = "tree_fuel s" and rs = "[]"] q(1)
  show ?thesis by (auto simp: wp_def collect_roots_def split: prod.splits sum.splits)
qed

subsection \<open>Properties\<close>

lemma wp_keeps: "wp m Q E s \<Longrightarrow> keeps P m \<Longrightarrow> P s \<Longrightarrow> wp m (\<lambda>x t. Q x t \<and> P t) (\<lambda>e t. E e t \<and> P t) s"
  by (force simp: wp_def keeps_def split: prod.splits sum.splits)

lemma wp_True: "wp m (\<lambda>_ _. True) (\<lambda>_ _. True) s"
  by (simp add: wp_def split: prod.split sum.split)

lemma wp_cond: "(b \<Longrightarrow> wp m (\<lambda>_. J) (\<lambda>_ _. True) s) \<Longrightarrow> wp m (\<lambda>_ t. b \<longrightarrow> J t) (\<lambda>_ _. True) s"
  using wp_True [of m s] by (cases b) simp_all

lemma delete_loop_refuses: "p \<in> set paths \<Longrightarrow> p \<in> set roots \<Longrightarrow> wp (forM (delete_one env roots) paths) (\<lambda>_ _. False) (\<lambda>_ _. True) y"
proof (induction paths arbitrary: y)
  case (Cons q paths y)
  show ?case
  proof (cases "q = p")
    case True
    obtain db t res where y: "y = (db, t, res)" by (cases y)
    from True Cons.prems show ?thesis by (simp add: y delete_one_def wps wp_True)
  next
    case False
    with Cons.prems have "wp (forM (delete_one env roots) paths) (\<lambda>_ _. False) (\<lambda>_ _. True) z" for z
      by (intro Cons.IH) simp_all
    then show ?thesis using wp_True [of "delete_one env roots q" y] by (simp add: wps) (elim wp_mono, simp_all)
  qed
qed simp

lemma safe_step:
  assumes "keeps S (on_fs m)" "S (db, t, res)" "wp m (\<lambda>_. J) (\<lambda>_ _. True) t"
  shows "wp (on_fs m) (\<lambda>_ y. \<exists>u. y = (db, u, res) \<and> S y \<and> J u) (\<lambda>_. S) (db, t, res)"
proof -
  have "wp (on_fs m) (\<lambda>_ y. \<exists>u. y = (db, u, res) \<and> J u) (\<lambda>_ _. True) (db, t, res)"
    using assms(3) by (simp add: wps)
  from wp_keeps [OF this assms(1,2)] show ?thesis by (rule wp_mono) auto
qed


definition example_env :: gc_env where
  "example_env = \<lparr> ge_storeDir = ''/nix/store'', ge_realStoreDir = [''nix'', ''store''], ge_stateDir = [''var''],
     ge_reservedPath = [''db'', ''reserved''], ge_ignoreGcDeleteFailure = False, ge_tmp_locked = (\<lambda>_. False) \<rparr>"

text \<open>A store with one path and one root that points to it.\<close>

definition example_roots :: fsys where
  "example_roots = \<lparr>
     fs_dents = [([], 0), ([''var''], 1), ([''var'', ''gcroots''], 2), ([''var'', ''gcroots'', ''r''], 3), ([''nix''], 4),
       ([''nix'', ''store''], 5), ([''nix'', ''store'', sp_to_string (vpi_path example_info)], 6)],
     fs_inodes = (\<lambda>i. if i = 3 then blank_inode\<lparr>in_type := tSymlink, in_data := printStorePath ''/nix/store'' (vpi_path example_info)\<rparr>
       else if i = 6 then blank_inode\<lparr>in_data := ''abc''\<rparr> else example_dir),
     fs_next = 7, fs_now = 7, fs_faults = [], fs_signals = [] \<rparr>"

lemma example_roots_ok:
  "env_ok example_env" "fs_ok example_roots" "fs_quiet example_roots" "rooted example_env example_roots (vpi_path example_info)"
proof -
  show "env_ok example_env" by (simp add: env_ok_def apart_def example_env_def)
  show "fs_ok example_roots"
    by (simp add: fs_ok_def is_dir_def dent_def example_roots_def example_dir_def blank_inode_def sp_to_string_def example_info_def)
  show "fs_quiet example_roots" by (simp add: fs_quiet_def example_roots_def)
  have "roots_at ''/nix/store'' (vpi_path example_info) (printStorePath ''/nix/store'' (vpi_path example_info))"
    using toStorePath_below [OF nix_store_ok example_facts(2), of "[]"] by (auto simp: roots_at_def example_info_def)
  then show "rooted example_env example_roots (vpi_path example_info)"
    unfolding rooted_def
    by (intro exI [of _ "[''var'', ''gcroots'', ''r'']"] exI [of _ 3])
      (simp add: dent_def example_roots_def blank_inode_def example_env_def gcRootsDir_def)
qed


lemma not_tmp: "sp_ok q \<Longrightarrow> \<not> prefix ''tmp-'' (sp_to_string q)"
proof
  assume ok: "sp_ok q" and "prefix ''tmp-'' (sp_to_string q)"
  then obtain r where "sp_baseName q = CHR ''t'' # r" by (auto simp: sp_to_string_def prefix_def)
  with ok show False by (auto simp: sp_ok_def valid_baseName_def illegal_hash_char_def)
qed



end
