(* ===== verification/FsAt.thy ===== *)
theory FsAt
  imports FsCalls
begin

text \<open>
  The calls relative to a directory descriptor (\<open>libutil/file-system-at.cc\<close>).  A descriptor is the
  inode that it is open on; the path of a directory is looked up when it is used, so it follows
  a directory that is moved, and of one that is removed nothing is found.  The kernel resolves the
  components in turn and never through a symbolic link.
\<close>

subsection \<open>Descriptors and calls\<close>

definition fd_path :: "fsys \<Rightarrow> nat \<Rightarrow> fpath option" where
  "fd_path s d = map_option fst (find (\<lambda>(_, i). i = d) (fs_dents s))"

datatype open_flags = OpenDirectory | OpenReadonly | CreateExcl "32 word"

text \<open>The directory that the components lead to.\<close>

fun walk_at :: "fsys \<Rightarrow> fpath \<Rightarrow> string list \<Rightarrow> errno + fpath" where
  "walk_at s p [] = Inr p"
| "walk_at s p (c # cs) =
     (case dent s (p @ [c]) of
        None \<Rightarrow> Inl ENOENT
      | Some i \<Rightarrow>
          if in_type (fs_inodes s i) = tSymlink then Inl ELOOP
          else if in_type (fs_inodes s i) \<noteq> tDirectory then Inl ENOTDIR
          else walk_at s (p @ [c]) cs)"

text \<open>The last component; with \<open>O_NOFOLLOW\<close> a link where a directory is wanted is \<open>ENOTDIR\<close>.\<close>

definition open_last :: "bool \<Rightarrow> open_flags \<Rightarrow> fpath \<Rightarrow> string \<Rightarrow> fsys \<Rightarrow> (errno + nat) \<times> fsys" where
  "open_last nofollow fl p c s =
     (case dent s (p @ [c]) of
        None \<Rightarrow>
          (case fl of
             CreateExcl m \<Rightarrow> (Inr (fs_next s), new_inode (p @ [c]) (blank_inode\<lparr>in_mode := m, in_mtime := fs_now s\<rparr>) s)
           | _ \<Rightarrow> (Inl ENOENT, s))
      | Some i \<Rightarrow>
          let ty = in_type (fs_inodes s i) in
          (case fl of
             CreateExcl m \<Rightarrow> Inl EEXIST
           | OpenDirectory \<Rightarrow>
               if ty = tDirectory then Inr i else if ty = tSymlink \<and> \<not> nofollow then Inl ELOOP else Inl ENOTDIR
           | OpenReadonly \<Rightarrow> if ty = tSymlink then Inl ELOOP else Inr i, s))"

definition at_dir :: "nat \<Rightarrow> (fpath \<Rightarrow> 'a sys) \<Rightarrow> 'a sys" where
  "at_dir d f s =
     (case fd_path s d of
        None \<Rightarrow> (Inl ENOENT, s)
      | Some p \<Rightarrow> if in_type (fs_inodes s d) \<noteq> tDirectory then (Inl ENOTDIR, s) else f p s)"

text \<open>\<open>openat2\<close> with \<open>RESOLVE_BENEATH | RESOLVE_NO_SYMLINKS\<close>; \<open>openat\<close> of one component with \<open>O_NOFOLLOW\<close>.\<close>

definition sys_openat2 :: "nat \<Rightarrow> string list \<Rightarrow> open_flags \<Rightarrow> nat sys" where
  "sys_openat2 d cs fl = sys_call (at_dir d (\<lambda>p s.
     case walk_at s p (butlast cs) of Inl e \<Rightarrow> (Inl e, s) | Inr q \<Rightarrow> open_last False fl q (last cs) s))"

definition sys_openat :: "nat \<Rightarrow> string \<Rightarrow> open_flags \<Rightarrow> nat sys" where
  "sys_openat d c fl = sys_call (at_dir d (\<lambda>p. open_last True fl p c))"

definition sys_fstatat :: "nat \<Rightarrow> string list \<Rightarrow> PosixStat sys" where
  "sys_fstatat d cs = sys_call (at_dir d (\<lambda>p s.
     (case dent s (p @ cs) of None \<Rightarrow> Inl (miss s (p @ cs)) | Some i \<Rightarrow> Inr (stat_of s i), s)))"

text \<open>A call that creates, changes or reads the entry at the path below the directory.\<close>

definition at_path :: "nat \<Rightarrow> string list \<Rightarrow> (fpath \<Rightarrow> 'a sys) \<Rightarrow> 'a sys" where
  "at_path d cs f s = (case fd_path s d of None \<Rightarrow> sys_call (Pair (Inl ENOENT)) s | Some p \<Rightarrow> f (p @ cs) s)"

definition sys_fd_inode :: "nat \<Rightarrow> (inode \<Rightarrow> inode) \<Rightarrow> unit sys" where
  "sys_fd_inode i f = sys_call (\<lambda>s. (Inr (), set_inode i f s))"

definition sys_fstat :: "nat \<Rightarrow> PosixStat sys" where
  "sys_fstat i = sys_call (\<lambda>s. (Inr (stat_of s i), s))"

subsection \<open>Wrappers\<close>

text \<open>Which calls the kernel has been found to lack.\<close>

record at_flags =
  no_openat2 :: bool
  no_fchmodat2 :: bool
  no_proc :: bool

type_synonym at_state = "at_flags \<times> fsys"

definition fd_stat :: "nat \<Rightarrow> (fsys, PosixStat) M" where
  "fd_stat fd = sysE ''getting status of %s'' (sys_fstat fd)"

definition maybeFstatat :: "nat \<Rightarrow> string list \<Rightarrow> (fsys, PosixStat option) M" where
  "maybeFstatat dirFd path = bindM (sysR (sys_fstatat dirFd path)) (\<lambda>r.
     case r of
       Inr st \<Rightarrow> ret (Some st)
     | Inl e \<Rightarrow> if e = ENOENT \<or> e = ENOTDIR then ret None else throw (SysError e ''getting status of %s''))"

definition openat2 :: "nat \<Rightarrow> string list \<Rightarrow> open_flags \<Rightarrow> (at_state, (errno + nat) option) M" where
  "openat2 dirFd path fl = bindM (getS (\<lambda>(k, _). no_openat2 k)) (\<lambda>unsupported.
     if unsupported then ret None
     else bindM (onR (sysR (sys_openat2 dirFd path fl))) (\<lambda>r.
       case r of
         Inl e \<Rightarrow>
           if e = ENOSYS \<or> e = EPERM \<or> e = EOPNOTSUPP
           then seqM (onL (modS (\<lambda>k. k\<lparr>no_openat2 := True\<rparr>))) (ret None)
           else ret (Some (Inl e))
       | Inr fd \<Rightarrow> ret (Some (Inr fd))))"

definition symlink_not_allowed :: exn where
  "symlink_not_allowed = SymlinkNotAllowed ''relative path '%s' points to a symlink, which is not allowed''"

text \<open>
  An error at a component: a link is thrown; \<open>ENOTDIR\<close> may be one, so it is looked up.
\<close>

definition open_failed :: "nat \<Rightarrow> string \<Rightarrow> errno \<Rightarrow> (fsys, errno + nat) M" where
  "open_failed parentFd c e =
     (if e = ENOTDIR then
        bindM (maybeFstatat parentFd [c]) (\<lambda>st.
          case st of
            Some st \<Rightarrow> if ps_type st = tSymlink then throw symlink_not_allowed else ret (Inl ENOTDIR)
          | None \<Rightarrow> ret (Inl ENOTDIR))
      else if e = ELOOP then throw symlink_not_allowed
      else ret (Inl e))"

text \<open>
  The components one by one: \<open>parentFd\<close> is the directory opened so far and \<open>prev\<close> its path.  The
  callback gets the directories on the way, but neither the first nor the last one.
\<close>

fun open_components :: "(string list \<Rightarrow> nat \<Rightarrow> ('t, unit) M) \<Rightarrow> nat \<Rightarrow> nat option \<Rightarrow> string list \<Rightarrow> string list \<Rightarrow>
    ('t \<times> at_state, errno + nat) M" where
  "open_components cb dirFd parentFd prev [] = ret (Inr (case parentFd of None \<Rightarrow> dirFd | Some p \<Rightarrow> p))"
| "open_components cb dirFd parentFd prev (c # cs) =
     (let pfd = (case parentFd of None \<Rightarrow> dirFd | Some p \<Rightarrow> p) in
      bindM (onR (onR (sysR (sys_openat pfd c OpenDirectory)))) (\<lambda>r.
        case r of
          Inl e \<Rightarrow> onR (onR (open_failed pfd c e))
        | Inr fd \<Rightarrow>
            seqM (case parentFd of None \<Rightarrow> ret () | Some p \<Rightarrow> onL (cb prev p))
              (open_components cb dirFd (Some fd) (prev @ [c]) cs)))"

definition openFileEnsureBeneathNoSymlinksIterative ::
  "(string list \<Rightarrow> nat \<Rightarrow> ('t, unit) M) \<Rightarrow> nat \<Rightarrow> string list \<Rightarrow> open_flags \<Rightarrow> ('t \<times> at_state, errno + nat) M" where
  "openFileEnsureBeneathNoSymlinksIterative cb dirFd path fl =
     bindM (open_components cb dirFd None [] (butlast path)) (\<lambda>pfd.
       case pfd of
         Inl e \<Rightarrow> ret (Inl e)
       | Inr pfd \<Rightarrow> bindM (onR (onR (sysR (sys_openat pfd (last path) fl)))) (\<lambda>r.
           case r of
             Inl e \<Rightarrow> onR (onR (open_failed pfd (last path) e))
           | Inr fd \<Rightarrow> ret (Inr fd)))"

definition openFileEnsureBeneathNoSymlinks ::
  "(string list \<Rightarrow> nat \<Rightarrow> ('t, unit) M) \<Rightarrow> nat \<Rightarrow> string list \<Rightarrow> open_flags \<Rightarrow> ('t \<times> at_state, errno + nat) M" where
  "openFileEnsureBeneathNoSymlinks cb dirFd path fl =
     (if path = [] then throw (Abort ''!path.isRoot()'')
      else bindM (onR (openat2 dirFd path fl)) (\<lambda>maybeFd.
        case maybeFd of
          Some (Inl e) \<Rightarrow> if e = ELOOP then throw symlink_not_allowed else ret (Inl e)
        | Some (Inr fd) \<Rightarrow> ret (Inr fd)
        | None \<Rightarrow> openFileEnsureBeneathNoSymlinksIterative cb dirFd path fl))"

definition setWriteTimeAt :: "nat \<Rightarrow> string list \<Rightarrow> int \<Rightarrow> (fsys, unit) M" where
  "setWriteTimeAt dirFd path t = sysE ''changing modification time of %s'' (at_path dirFd path (\<lambda>p. sys_utimes p t))"

text \<open>\<open>fchmodat2\<close> where there is one; else the file named by the descriptor under \<open>/proc\<close>; else \<open>fchmodat\<close>.\<close>

definition fchmodatTryNoFollow :: "nat \<Rightarrow> string list \<Rightarrow> 32 word \<Rightarrow> (at_state, unit) M" where
  "fchmodatTryNoFollow dirFd path mode =
     (if path = [] then throw (Abort ''!path.isRoot()'')
      else
        bindM (bindM (getS (\<lambda>(k, _). no_fchmodat2 k)) (\<lambda>unsupported.
          if unsupported then ret False
          else bindM (onR (sysR (at_path dirFd path (\<lambda>p. sys_chmod p mode)))) (\<lambda>r.
            case r of
              Inl e \<Rightarrow> if e = ENOSYS then seqM (onL (modS (\<lambda>k. k\<lparr>no_fchmodat2 := True\<rparr>))) (ret False)
                       else throw (SysError e ''fchmodat2 %s'')
            | Inr _ \<Rightarrow> ret True))) (\<lambda>done1.
        if done1 then ret ()
        else bindM (onR (sysE ''opening %s to get an O_PATH file descriptor (fchmodat2 is unsupported)'' (sys_fstatat dirFd path))) (\<lambda>st0.
          bindM (onR (fd_stat (ps_ino st0))) (\<lambda>st.
          if ps_type st = tSymlink then throw (SysError EOPNOTSUPP ''can't change mode of symlink %s'')
          else
            bindM (bindM (getS (\<lambda>(k, _). no_proc k)) (\<lambda>dontHaveProc.
              if dontHaveProc then ret False
              else bindM (onR (sysR (sys_fd_inode (ps_ino st0) (in_mode_update (\<lambda>_. mode))))) (\<lambda>r.
                case r of
                  Inl e \<Rightarrow> if e = ENOENT then seqM (onL (modS (\<lambda>k. k\<lparr>no_proc := True\<rparr>))) (ret False)
                           else throw (SysError e ''chmod %s (%s)'')
                | Inr _ \<Rightarrow> ret True))) (\<lambda>done2.
            if done2 then ret ()
            else onR (sysE ''fchmodat %s'' (at_path dirFd path (\<lambda>p. sys_chmod p mode))))))))"

text \<open>
  \<open>readLinkAt\<close>: a buffer that is filled to the end may have cut the target off, so it grows and is
  read again.
\<close>

definition sys_readlinkat :: "nat \<Rightarrow> string list \<Rightarrow> nat \<Rightarrow> string sys" where
  "sys_readlinkat d cs n = at_path d cs (\<lambda>p s. case sys_readlink p s of (Inl e, t) \<Rightarrow> (Inl e, t) | (Inr x, t) \<Rightarrow> (Inr (take n x), t))"

fun readLinkAt_loop :: "nat \<Rightarrow> nat \<Rightarrow> nat \<Rightarrow> string list \<Rightarrow> (fsys, string) M" where
  "readLinkAt_loop 0 n dirFd path = throw Diverge"
| "readLinkAt_loop (Suc fuel) n dirFd path =
     seqM fs_checkInterrupt
       (bindM (sysE ''reading symbolic link %1%'' (sys_readlinkat dirFd path n)) (\<lambda>buf.
          if length buf < n then ret buf
          else readLinkAt_loop fuel (n + n div 2) dirFd path))"

text \<open>More tries than the longest target has characters.\<close>

definition link_fuel :: "fsys \<Rightarrow> nat" where
  "link_fuel s = Suc (foldr (\<lambda>(_, i). max (length (in_data (fs_inodes s i)))) (fs_dents s) 0)"

definition readLinkAt :: "nat \<Rightarrow> string list \<Rightarrow> (fsys, string) M" where
  "readLinkAt dirFd path s = readLinkAt_loop (link_fuel s) 1024 dirFd path s"

subsection \<open>The two ways of opening agree\<close>

text \<open>Every directory has one entry, so a descriptor has one path.\<close>

definition dirs_single :: "fsys \<Rightarrow> bool" where
  "dirs_single s \<longleftrightarrow> (\<forall>(p, i) \<in> set (fs_dents s). \<forall>(q, j) \<in> set (fs_dents s).
     i = j \<and> in_type (fs_inodes s i) = tDirectory \<longrightarrow> p = q)"

definition dir_fd :: "fsys \<Rightarrow> nat \<Rightarrow> fpath \<Rightarrow> bool" where
  "dir_fd s d p \<longleftrightarrow> fd_path s d = Some p \<and> in_type (fs_inodes s d) = tDirectory"

lemma fd_path_dir:
  assumes "dirs_single s" "dent s p = Some i" "in_type (fs_inodes s i) = tDirectory"
  shows "dir_fd s i p"
proof -
  have p: "(p, i) \<in> set (fs_dents s)" using assms(2) by (rule dent_in)
  then obtain q j where q: "find (\<lambda>(_, k). k = i) (fs_dents s) = Some (q, j)"
    by (cases "find (\<lambda>(_, k). k = i) (fs_dents s)") (force simp: find_None_iff)+
  then have "(q, i) \<in> set (fs_dents s)" "j = i" by (auto simp: find_Some_iff) (metis nth_mem)
  with p assms(1,3) have "q = p" by (auto simp: dirs_single_def)
  with q assms(3) show ?thesis by (simp add: fd_path_def dir_fd_def)
qed

text \<open>What either way makes of the answer of the kernel.\<close>

definition opened :: "errno + nat \<Rightarrow> exn + (errno + nat)" where
  "opened r = (case r of Inl e \<Rightarrow> if e = ELOOP then Inl symlink_not_allowed else Inr (Inl e) | Inr i \<Rightarrow> Inr (Inr i))"

lemma open_failed_quiet:
  assumes "fs_faults s = []" "dir_fd s d p"
    and e: "e = (if dent s (p @ [c]) = None then ENOENT else e)" "e \<noteq> ENOTDIR \<or> dent s (p @ [c]) \<noteq> None"
  shows "open_failed d c e s = (if e = ELOOP \<or> e = ENOTDIR \<and> (\<exists>i. dent s (p @ [c]) = Some i \<and> in_type (fs_inodes s i) = tSymlink)
      then (Inl symlink_not_allowed, s) else (Inr (Inl e), s))"
proof -
  have "sys_fstatat d [c] s = (case dent s (p @ [c]) of None \<Rightarrow> Inl (miss s (p @ [c])) | Some i \<Rightarrow> Inr (stat_of s i), s)"
    using assms(1,2) by (simp add: sys_fstatat_def sys_call_quiet at_dir_def dir_fd_def)
  then show ?thesis
    using e by (auto simp: open_failed_def maybeFstatat_def sysR_def run stat_of_def Let_def split: option.splits)
qed

lemma sys_openat_quiet:
  "fs_faults s = [] \<Longrightarrow> dir_fd s d p \<Longrightarrow> sys_openat d c fl s = open_last True fl p c s"
  by (simp add: sys_openat_def sys_call_quiet at_dir_def dir_fd_def)

text \<open>A callback that keeps an invariant, given that its descriptors are the directories it is told.\<close>

definition keeps_dirs :: "fsys \<Rightarrow> fpath \<Rightarrow> ('t \<Rightarrow> bool) \<Rightarrow> (string list \<Rightarrow> nat \<Rightarrow> ('t, unit) M) \<Rightarrow> bool" where
  "keeps_dirs s p I cb \<longleftrightarrow> (\<forall>prev fd t. dir_fd s fd (p @ prev) \<and> I t \<longrightarrow> (\<exists>t'. cb prev fd t = (Inr (), t') \<and> I t'))"

lemma keeps_dirs_none: "keeps_dirs s p I (\<lambda>_ _. ret ())"
  by (simp add: keeps_dirs_def)

lemma open_components_quiet:
  assumes "fs_faults s = []" "dirs_single s" "keeps_dirs s p I cb" "I t"
    and "dir_fd s (case pfd of None \<Rightarrow> d | Some fd \<Rightarrow> fd) (p @ prev)"
  shows "case walk_at s (p @ prev) cs of
      Inl e \<Rightarrow> \<exists>t'. open_components cb d pfd prev cs (t, k, s) = (opened (Inl e), (t', k, s)) \<and> I t'
    | Inr q \<Rightarrow> \<exists>i t'. open_components cb d pfd prev cs (t, k, s) = (Inr (Inr i), (t', k, s)) \<and> I t' \<and> dir_fd s i q"
  using assms(4,5)
proof (induction cs arbitrary: pfd prev t)
  case Nil
  then show ?case by simp
next
  case (Cons c cs)
  let ?d = "case pfd of None \<Rightarrow> d | Some fd \<Rightarrow> fd" and ?p = "p @ prev"
  note op = sys_openat_quiet [OF assms(1) Cons.prems(2), of c OpenDirectory]
  show ?case
  proof (cases "dent s (?p @ [c])")
    case None
    then have "sysR (sys_openat ?d c OpenDirectory) s = (Inr (Inl ENOENT), s)"
      by (simp add: sysR_def op open_last_def)
    moreover have "open_failed ?d c ENOENT s = (Inr (Inl ENOENT), s)"
      using open_failed_quiet [OF assms(1) Cons.prems(2), of ENOENT c] None by simp
    ultimately show ?thesis using None Cons.prems(1) by (simp add: run Let_def opened_def)
  next
    case (Some i)
    show ?thesis
    proof (cases "in_type (fs_inodes s i) = tDirectory")
      case True
      then have o: "sysR (sys_openat ?d c OpenDirectory) s = (Inr (Inr i), s)"
        using Some by (simp add: sysR_def op open_last_def)
      obtain t1 where t1: "(case pfd of None \<Rightarrow> ret () | Some fd \<Rightarrow> onL (cb prev fd)) (t, k, s) = (Inr (), (t1, k, s))" "I t1"
        using assms(3) Cons.prems unfolding keeps_dirs_def by (cases pfd) (simp, force simp: run_onL)
      have "dir_fd s (case Some i of None \<Rightarrow> d | Some fd \<Rightarrow> fd) (p @ prev @ [c])"
        using fd_path_dir [OF assms(2) Some True] by simp
      note ih = Cons.IH [OF t1(2) this]
      have "open_components cb d pfd prev (c # cs) (t, k, s) = open_components cb d (Some i) (prev @ [c]) cs (t1, k, s)"
        using o t1(1) by (simp add: run Let_def)
      then show ?thesis using ih True Some
        by (simp only: walk_at.simps option.case file_type.distinct if_False not_True_eq_False simp_thms append_assoc)
    next
      case False
      then have o: "sysR (sys_openat ?d c OpenDirectory) s = (Inr (Inl ENOTDIR), s)"
        using Some by (simp add: sysR_def op open_last_def)
      have "open_failed ?d c ENOTDIR s = (if in_type (fs_inodes s i) = tSymlink then (Inl symlink_not_allowed, s) else (Inr (Inl ENOTDIR), s))"
        using open_failed_quiet [OF assms(1) Cons.prems(2), of ENOTDIR c] Some by simp
      then show ?thesis using o False Some Cons.prems(1) by (simp add: run Let_def opened_def)
    qed
  qed
qed

lemma open_last_nofollow:
  "fst (open_last nf fl p c s) = Inl e \<Longrightarrow>
     snd (open_last nf fl p c s) = s \<and> (e = ENOENT \<longrightarrow> dent s (p @ [c]) = None) \<and> (e = ENOTDIR \<longrightarrow> dent s (p @ [c]) \<noteq> None) \<and>
     (dent s (p @ [c]) = None \<longrightarrow> e = ENOENT)"
  by (auto simp: open_last_def Let_def split: option.splits open_flags.splits if_splits)

lemma open_last_agree:
  assumes "fs_faults s = []" "dir_fd s d p"
  shows "(case open_last True fl p c s of (Inl e, u) \<Rightarrow> open_failed d c e u | (Inr i, u) \<Rightarrow> (Inr (Inr i), u)) =
    (case open_last False fl p c s of (r, u) \<Rightarrow> (opened r, u))"
proof (cases "dent s (p @ [c])")
  case None
  then show ?thesis
    using open_failed_quiet [OF assms, of ENOENT c] by (cases fl) (simp_all add: open_last_def opened_def)
next
  case (Some i)
  then show ?thesis
    using open_failed_quiet [OF assms, of EEXIST c] open_failed_quiet [OF assms, of ELOOP c] open_failed_quiet [OF assms, of ENOTDIR c]
    by (cases fl) (simp_all add: open_last_def opened_def Let_def)
qed

lemma iterative_quiet:
  assumes "fs_faults s = []" "dirs_single s" "dir_fd s d p" "keeps_dirs s p I cb" "I t"
  shows "\<exists>t'. openFileEnsureBeneathNoSymlinksIterative cb d cs fl (t, k, s) =
    (case sys_openat2 d cs fl s of (r, u) \<Rightarrow> (opened r, (t', k, u))) \<and> I t'"
proof -
  have "dir_fd s (case None of None \<Rightarrow> d | Some fd \<Rightarrow> fd) (p @ [])" using assms(3) by simp
  note walk = open_components_quiet [OF assms(1,2,4,5) this, where cs = "butlast cs" and k = k, simplified append_Nil2]
  have o2: "sys_openat2 d cs fl s = (case walk_at s p (butlast cs) of Inl e \<Rightarrow> (Inl e, s) | Inr q \<Rightarrow> open_last False fl q (last cs) s)"
    using assms(1,3) by (simp add: sys_openat2_def sys_call_quiet at_dir_def dir_fd_def)
  show ?thesis
  proof (cases "walk_at s p (butlast cs)")
    case (Inl e)
    with walk obtain t' where "open_components cb d None [] (butlast cs) (t, k, s) = (opened (Inl e), (t', k, s))" "I t'" by auto
    then show ?thesis using Inl
      by (cases "e = ELOOP") (simp_all add: openFileEnsureBeneathNoSymlinksIterative_def run o2 opened_def)
  next
    case (Inr q)
    with walk obtain i t' where i: "open_components cb d None [] (butlast cs) (t, k, s) = (Inr (Inr i), (t', k, s))" "dir_fd s i q" "I t'"
      by auto
    obtain r u where r: "open_last True fl q (last cs) s = (r, u)" by fastforce
    have "sysR (sys_openat i (last cs) fl) s = (Inr r, u)"
      using sys_openat_quiet [OF assms(1) i(2)] r by (simp add: sysR_def)
    then have "openFileEnsureBeneathNoSymlinksIterative cb d cs fl (t, k, s) =
        (case (case open_last True fl q (last cs) s of (Inl e, u) \<Rightarrow> open_failed i (last cs) e u | (Inr i, u) \<Rightarrow> (Inr (Inr i), u)) of
          (x, u) \<Rightarrow> (x, (t', k, u)))"
      using i(1) r by (simp add: openFileEnsureBeneathNoSymlinksIterative_def run split: sum.split prod.split)
    then show ?thesis
      unfolding open_last_agree [OF assms(1) i(2)] using Inr i(3) by (auto simp: o2 split: prod.split)
  qed
qed

lemma openat2_quiet:
  assumes "fs_faults s = []"
  shows "openat2 d cs fl (k, s) = (if no_openat2 k then (Inr None, (k, s)) else
    (case sys_openat2 d cs fl s of (r, u) \<Rightarrow> (Inr (Some r), (k, u))))"
proof -
  have "e \<noteq> ENOSYS \<and> e \<noteq> EPERM \<and> e \<noteq> EOPNOTSUPP" if "sys_openat2 d cs fl s = (Inl e, u)" for e u
  proof -
    have w: "walk_at s p cs = Inl e \<Longrightarrow> e = ENOENT \<or> e = ELOOP \<or> e = ENOTDIR" for p cs
      by (induction cs arbitrary: p) (auto split: option.splits if_splits)
    show ?thesis
      using that assms w by (auto simp: sys_openat2_def sys_call_quiet at_dir_def open_last_def Let_def
          split: option.splits sum.splits open_flags.splits if_splits)
  qed
  then show ?thesis
    by (auto simp: openat2_def run sysR_def split: prod.split sum.split)
qed

lemma openBeneath_cb_quiet:
  assumes "fs_faults s = []" "dirs_single s" "dir_fd s d p" "cs \<noteq> []" "keeps_dirs s p I cb" "I t"
  shows "\<exists>t'. openFileEnsureBeneathNoSymlinks cb d cs fl (t, k, s) =
    (case sys_openat2 d cs fl s of (r, u) \<Rightarrow> (opened r, (t', k, u))) \<and> I t'"
proof (cases "no_openat2 k")
  case True
  with assms(4) openat2_quiet [OF assms(1), of d cs fl k] iterative_quiet [OF assms(1-3,5,6), of cs fl k]
  show ?thesis by (simp add: openFileEnsureBeneathNoSymlinks_def run)
next
  case False
  obtain r u where "sys_openat2 d cs fl s = (r, u)" by fastforce
  with False assms(4,6) openat2_quiet [OF assms(1), of d cs fl k]
  show ?thesis by (cases r) (simp_all add: openFileEnsureBeneathNoSymlinks_def run opened_def)
qed

lemma openBeneath_quiet:
  assumes "fs_faults s = []" "dirs_single s" "dir_fd s d p" "cs \<noteq> []"
  shows "openFileEnsureBeneathNoSymlinks (\<lambda>_ _. ret ()) d cs fl (t, k, s) =
    (case sys_openat2 d cs fl s of (r, u) \<Rightarrow> (opened r, (t, k, u)))"
  using openBeneath_cb_quiet [OF assms keeps_dirs_none, of "\<lambda>x. x = t" t fl k] by simp

subsection \<open>Reading a link\<close>

text \<open>The buffer grows past any target.\<close>

lemma readLinkAt_loop_quiet:
  assumes "fs_quiet s" "fd_path s d = Some p" "dent s (p @ cs) = Some i" "in_type (fs_inodes s i) = tSymlink"
    and "Suc (length (in_data (fs_inodes s i))) < n + fuel" "2 \<le> n" "0 < fuel"
  shows "readLinkAt_loop fuel n d cs s = (Inr (in_data (fs_inodes s i)), s)"
  using assms(5-7)
proof (induction fuel arbitrary: n)
  case (Suc fuel)
  let ?x = "in_data (fs_inodes s i)"
  have r: "sysE msg (sys_readlinkat d cs n) s = (Inr (take n ?x), s)" for msg
    using assms(1-4) by (simp add: sysE_def sys_readlinkat_def at_path_def sys_readlink_def sys_call_quiet fs_quiet_def)
  have c: "fs_checkInterrupt s = (Inr (), s)" using assms(1) by (simp add: fs_checkInterrupt_quiet fs_quiet_def)
  show ?case
  proof (cases "length ?x < n")
    case True
    then show ?thesis by (simp add: run c r)
  next
    case False
    with Suc.prems have "fuel \<noteq> 0" by auto
    with Suc.prems have "Suc (length ?x) < (n + n div 2) + fuel" "2 \<le> n + n div 2" "0 < fuel" by auto
    from Suc.IH [OF this] False show ?thesis by (simp add: run c r)
  qed
qed simp

lemma foldr_max_less: "(q, i) \<in> set ds \<Longrightarrow> f i \<le> foldr (\<lambda>(_, i). max (f i)) ds (0 :: nat)"
  by (induction ds) auto

lemma readLinkAt_quiet:
  assumes "fs_quiet s" "fd_path s d = Some p" "dent s (p @ cs) = Some i" "in_type (fs_inodes s i) = tSymlink"
  shows "readLinkAt d cs s = (Inr (in_data (fs_inodes s i)), s)"
proof -
  have "length (in_data (fs_inodes s i)) < link_fuel s"
    using foldr_max_less [OF dent_in [OF assms(3)], of "\<lambda>i. length (in_data (fs_inodes s i))"]
    by (simp add: link_fuel_def)
  then show ?thesis
    unfolding readLinkAt_def by (intro readLinkAt_loop_quiet [OF assms]) simp_all
qed

subsection \<open>Nothing is followed\<close>

definition is_link :: "fsys \<Rightarrow> fpath \<Rightarrow> bool" where
  "is_link s p \<longleftrightarrow> (\<exists>i. dent s p = Some i \<and> in_type (fs_inodes s i) = tSymlink)"

lemma is_link_dir: "is_link s p \<Longrightarrow> \<not> is_dir s p"
  by (auto simp: is_link_def is_dir_dent)

lemma walk_at_ok: "walk_at s p cs = Inr q \<Longrightarrow> q = p @ cs \<and> (\<forall>m<length cs. is_dir s (p @ take (Suc m) cs))"
proof (induction cs arbitrary: p)
  case (Cons c cs)
  then have c: "is_dir s (p @ [c])" "walk_at s (p @ [c]) cs = Inr q"
    by (auto simp: is_dir_dent split: option.splits if_splits)
  from Cons.IH [OF c(2)] c(1) show ?case by (auto simp: less_Suc_eq_0_disj)
qed simp

lemma walk_at_link:
  "walk_at s p cs = Inl ELOOP \<longleftrightarrow> (\<exists>n<length cs. is_link s (p @ take (Suc n) cs) \<and> (\<forall>m<n. is_dir s (p @ take (Suc m) cs)))"
proof (induction cs arbitrary: p)
  case (Cons c cs)
  have "(\<exists>n<length (c # cs). is_link s (p @ take (Suc n) (c # cs)) \<and> (\<forall>m<n. is_dir s (p @ take (Suc m) (c # cs)))) \<longleftrightarrow>
      is_link s (p @ [c]) \<or> is_dir s (p @ [c]) \<and>
        (\<exists>n<length cs. is_link s ((p @ [c]) @ take (Suc n) cs) \<and> (\<forall>m<n. is_dir s ((p @ [c]) @ take (Suc m) cs)))"
    by (auto simp: Ex_less_Suc2 All_less_Suc2)
  moreover have "walk_at s p (c # cs) = Inl ELOOP \<longleftrightarrow>
      is_link s (p @ [c]) \<or> is_dir s (p @ [c]) \<and> walk_at s (p @ [c]) cs = Inl ELOOP"
    by (auto simp: is_link_def is_dir_dent split: option.splits)
  ultimately show ?case unfolding Cons.IH by simp
qed simp

lemma open_last_ok:
  assumes "open_last nf fl p c s = (Inr i, u)"
  shows "dent u (p @ [c]) = Some i \<and> \<not> is_link u (p @ [c]) \<and> ((\<forall>m. fl \<noteq> CreateExcl m) \<longrightarrow> u = s)"
proof (cases "dent s (p @ [c])")
  case None
  with assms have u: "u = new_inode (p @ [c]) (blank_inode\<lparr>in_mode := m, in_mtime := fs_now s\<rparr>) s" "i = fs_next s" "fl = CreateExcl m"
    if "fl = CreateExcl m" for m using that by (simp_all add: open_last_def)
  from assms None obtain m where "fl = CreateExcl m" by (auto simp: open_last_def split: open_flags.splits)
  from u [OF this] None show ?thesis
    by (simp add: new_inode_def add_dent_def touch_def dent_def fs is_link_def blank_inode_def map_add_def Let_def split: option.splits)
next
  case (Some j)
  with assms show ?thesis by (auto simp: open_last_def is_link_def Let_def split: open_flags.splits if_splits)
qed

lemma open_last_link:
  "fst (open_last False fl p c s) = Inl ELOOP \<longleftrightarrow> is_link s (p @ [c]) \<and> (\<forall>m. fl \<noteq> CreateExcl m)"
  by (auto simp: open_last_def is_link_def Let_def split: option.splits open_flags.splits)

lemma openat2_result:
  assumes "fs_faults s = []" "dir_fd s d p" "cs \<noteq> []" "sys_openat2 d cs fl s = (r, u)"
  shows "r = Inl ELOOP \<longleftrightarrow> (\<exists>n<length cs. is_link s (p @ take (Suc n) cs) \<and> (\<forall>m<n. is_dir s (p @ take (Suc m) cs)) \<and>
      (Suc n = length cs \<longrightarrow> (\<forall>m. fl \<noteq> CreateExcl m)))"
    and "r = Inr fd \<Longrightarrow> (\<forall>m<length cs - 1. is_dir s (p @ take (Suc m) cs)) \<and> dent u (p @ cs) = Some fd \<and>
      \<not> is_link u (p @ cs) \<and> ((\<forall>m. fl \<noteq> CreateExcl m) \<longrightarrow> u = s)"
proof -
  obtain as c where cs: "cs = as @ [c]" using assms(3) by (metis append_butlast_last_id)
  have o: "(r, u) = (case walk_at s p as of Inl e \<Rightarrow> (Inl e, s) | Inr q \<Rightarrow> open_last False fl q c s)"
    using assms by (cases "walk_at s p as") (simp_all add: sys_openat2_def sys_call_quiet at_dir_def dir_fd_def cs)
  note w = walk_at_ok [of s p as] and l = walk_at_link [of s p as]
  have split: "(\<exists>n<length cs. P n) \<longleftrightarrow> P (length as) \<or> (\<exists>n<length as. P n)" for P by (auto simp: cs less_Suc_eq)
  show "r = Inl ELOOP \<longleftrightarrow> (\<exists>n<length cs. is_link s (p @ take (Suc n) cs) \<and> (\<forall>m<n. is_dir s (p @ take (Suc m) cs)) \<and>
      (Suc n = length cs \<longrightarrow> (\<forall>m. fl \<noteq> CreateExcl m)))"
  proof (cases "walk_at s p as")
    case (Inl e)
    have "\<not> (\<forall>m<length as. is_dir s (p @ take (Suc m) cs))"
    proof
      assume "\<forall>m<length as. is_dir s (p @ take (Suc m) cs)"
      then have "walk_at s p as = Inr (p @ as)"
        unfolding cs
      proof (induction as arbitrary: p)
        case (Cons a as)
        then have "is_dir s (p @ [a])" "\<forall>m<length as. is_dir s ((p @ [a]) @ take (Suc m) (as @ [c]))" by (auto simp: All_less_Suc2)
        with Cons.IH [of "p @ [a]"] show ?case by (auto simp: is_dir_dent)
      qed simp
      with Inl show False by simp
    qed
    with Inl o l show ?thesis unfolding split by (auto simp: cs)
  next
    case (Inr q)
    with w have q: "q = p @ as" "\<forall>m<length as. is_dir s (p @ take (Suc m) cs)" by (auto simp: cs)
    have "\<not> (\<exists>n<length as. is_link s (p @ take (Suc n) cs))" using q(2) is_link_dir by blast
    moreover have "r = Inl ELOOP \<longleftrightarrow> is_link s (p @ take (Suc (length as)) cs) \<and> (\<forall>m. fl \<noteq> CreateExcl m)"
      using o Inr q(1) open_last_link [of fl q c s] by (simp add: cs) (metis fst_conv)
    ultimately show ?thesis unfolding split using q(2) by (auto simp: cs)
  qed
  show "(\<forall>m<length cs - 1. is_dir s (p @ take (Suc m) cs)) \<and> dent u (p @ cs) = Some fd \<and>
      \<not> is_link u (p @ cs) \<and> ((\<forall>m. fl \<noteq> CreateExcl m) \<longrightarrow> u = s)" if "r = Inr fd"
    using that o w open_last_ok [of False fl "p @ as" c s fd u] by (auto simp: cs split: sum.splits)
qed


lemma example_fs_dirs: "dirs_single example_fs" "dir_fd example_fs 1 [''s'']"
  by (auto simp: dirs_single_def dir_fd_def fd_path_def example_fs_def example_dir_def blank_inode_def)


end
