(* ===== verification/RestoreSink.thy ===== *)
theory RestoreSink
  imports FsAt FileDescriptor
begin

text \<open>
  Restoring a file system object on disk (\<open>libutil/fs-sink.cc\<close> and \<open>restorePath\<close> of
  \<open>libutil/archive.cc\<close>): \<open>RestoreSink\<close> as a sink of the NAR parser.

  A sink object is the root sink, whose directory is opened when it has been created, or the sink
  of a directory, which has the descriptor of that directory.  The state are the parts of the
  objects that change (the root's descriptor, the buffer of the one file that is open, the
  directories deferred so far), the flags of the calls that the kernel lacks, and the file
  system.  A path below a directory is given by its components; so is the destination, with \<open>[]\<close>
  for the empty path.  The destructor of a file's sink, which flushes what an exception leaves
  behind, is not modelled, nor is \<open>startFsync\<close>.
\<close>

subsection \<open>State\<close>

record restore_env =
  re_dst :: fpath
  re_canonical :: bool
  re_umask :: "32 word"
  re_defer :: bool

datatype restore_obj = RootSink | DirSink nat "string list"

record restore_state =
  rs_dirFd :: "nat option"
  rs_sink :: buffered_sink
  rs_madeExecutable :: bool
  rs_deferred :: "string list list"

type_synonym restore = "restore_state \<times> at_state"

definition on_fs :: "(fsys, 'a) M \<Rightarrow> (restore, 'a) M" where
  "on_fs m = onR (onR m)"

fun obj_dirFd :: "restore_obj \<Rightarrow> (restore, nat option) M" where
  "obj_dirFd RootSink = getS (\<lambda>(l, _). rs_dirFd l)"
| "obj_dirFd (DirSink fd toRoot) = ret (Some fd)"

fun relToRoot :: "restore_obj \<Rightarrow> string list" where
  "relToRoot RootSink = []"
| "relToRoot (DirSink fd toRoot) = toRoot"

definition canonicalTimes :: int where
  "canonicalTimes = 1"

definition umaskPreservesCanonicalModes :: "restore_env \<Rightarrow> bool" where
  "umaskPreservesCanonicalModes env \<longleftrightarrow> re_umask env AND 0x16d = 0"

text \<open>The mode of a new file or directory.\<close>

definition masked :: "restore_env \<Rightarrow> 32 word \<Rightarrow> 32 word" where
  "masked env m = m AND NOT (re_umask env)"

subsection \<open>Directories\<close>

definition sys_opendir :: "fpath \<Rightarrow> nat sys" where
  "sys_opendir p = sys_call (\<lambda>s.
     (case dent s p of
        None \<Rightarrow> Inl (miss s p)
      | Some i \<Rightarrow> if in_type (fs_inodes s i) = tDirectory then Inr i else Inl ENOTDIR, s))"

definition open_beneath :: "nat \<Rightarrow> string list \<Rightarrow> open_flags \<Rightarrow> (restore, errno + nat) M" where
  "open_beneath = openFileEnsureBeneathNoSymlinks (\<lambda>_ _. ret ())"

text \<open>The errno of a failed open, thrown with a message.\<close>

definition or_throw :: "string \<Rightarrow> (restore, errno + nat) M \<Rightarrow> (restore, nat) M" where
  "or_throw msg m = bindM m (\<lambda>r. case r of Inl e \<Rightarrow> throw (SysError e msg) | Inr fd \<Rightarrow> ret fd)"

definition getParentFdAndName :: "restore_env \<Rightarrow> nat option \<Rightarrow> string list \<Rightarrow> (restore, nat \<times> string) M" where
  "getParentFdAndName env dirFd path =
     (case dirFd of
        Some fd \<Rightarrow>
          if path = [] then throw (Abort ''!path.isRoot()'')
          else if butlast path = [] then ret (fd, last path)
          else bindM (or_throw ''opening parent directory of %s'' (open_beneath fd (butlast path) OpenDirectory)) (\<lambda>parentFd.
            ret (parentFd, last path))
      | None \<Rightarrow>
          let p = re_dst env in
          if path \<noteq> [] then throw (Error ''cannot create non-root path %s without a root directory'')
          else if p = [] then throw (Error ''restore destination path is empty'')
          else if last p = ''.'' \<or> last p = ''..''
          then throw (Error ''restore destination %s ends in %s, which is not a valid filename'')
          else bindM (on_fs (sysE ''opening parent directory of %s'' (sys_opendir (butlast p)))) (\<lambda>parentFd.
            ret (parentFd, last p)))"

definition RestoreSink_mkdir :: "restore_env \<Rightarrow> restore_obj \<Rightarrow> string list \<Rightarrow> (restore, unit) M" where
  "RestoreSink_mkdir env d path =
     bindM (obj_dirFd d) (\<lambda>dirFd.
       if dirFd \<noteq> None \<and> path = [] then throw (Error ''path %s already exists'')
       else
         bindM (getParentFdAndName env dirFd path) (\<lambda>(fd, name).
         seqM (on_fs (sysE ''creating directory %s'' (at_path fd [name] (\<lambda>p. sys_mkdir p (masked env 0x1ff)))))
           (if dirFd = None then
              bindM (or_throw ''opening directory %s'' (open_beneath fd [name] OpenDirectory)) (\<lambda>fd.
                onL (modS (\<lambda>l. l\<lparr>rs_dirFd := Some fd\<rparr>)))
            else ret ())))"

definition finishCanonical :: "restore_env \<Rightarrow> restore_obj \<Rightarrow> (restore, unit) M" where
  "finishCanonical env d =
     bindM (obj_dirFd d) (\<lambda>dirFd.
       case dirFd of
         None \<Rightarrow> ret ()
       | Some fd \<Rightarrow>
           if \<not> re_canonical env then ret ()
           else if re_defer env then onL (modS (\<lambda>l. l\<lparr>rs_deferred := rs_deferred l @ [relToRoot d]\<rparr>))
           else seqM (on_fs (sysE ''fchmod'' (sys_fd_inode fd (in_mode_update (\<lambda>_. 0x1ed)))))
             (on_fs (sysE ''setting mtime of %1%'' (sys_fd_inode fd (in_mtime_update (\<lambda>_. canonicalTimes))))))"

text \<open>The overload with a callback: what happens before it and after it.\<close>

definition RestoreSink_createDirectory :: "restore_env \<Rightarrow> restore_obj \<Rightarrow> CanonPath \<Rightarrow> (restore, restore_obj \<times> CanonPath) M" where
  "RestoreSink_createDirectory env d path =
     (if components path = [] then seqM (RestoreSink_mkdir env d []) (ret (d, path))
      else
        seqM (RestoreSink_mkdir env d (components path))
          (bindM (obj_dirFd d) (\<lambda>dirFd.
             case dirFd of
               None \<Rightarrow> throw (Abort ''dirFd'')
             | Some dirFd \<Rightarrow>
                 bindM (or_throw ''opening directory %s'' (open_beneath dirFd (components path) OpenDirectory)) (\<lambda>fd.
                   ret (DirSink fd (relToRoot d @ components path), cp_root)))))"

definition RestoreSink_closeDirectory :: "restore_env \<Rightarrow> restore_obj \<Rightarrow> CanonPath \<Rightarrow> restore_obj \<Rightarrow> (restore, unit) M" where
  "RestoreSink_closeDirectory env d path dirSink =
     (if components path = [] then ret () else finishCanonical env dirSink)"

subsection \<open>Files\<close>

text \<open>
  \<open>writeFull\<close> to the open file: the descriptor has the contents of the inode, and each of its
  calls takes the next line of the scripts.
\<close>

fun fd_outcome :: "nat \<Rightarrow> errno option \<Rightarrow> io_outcome" where
  "fd_outcome n None = Transfer n"
| "fd_outcome n (Some e) = (if e = EINTR then Intr else if e = EAGAIN then Again else Failed e)"

definition fd_write :: "nat \<Rightarrow> string \<Rightarrow> (fsys, unit) M" where
  "fd_write i data s =
     (case writeFull data True \<lparr> fd_bytes = in_data (fs_inodes s i), fd_off = 0, fd_seekable = True,
          fd_script = map (fd_outcome (length data)) (fs_faults s), fd_signals = fs_signals s \<rparr> of
        (r, k) \<Rightarrow> (r, set_inode i (\<lambda>n. n\<lparr>in_data := fd_bytes k, in_mtime := fs_now s\<rparr>)
          (s\<lparr>fs_faults := drop (length (fs_faults s) - length (fd_script k)) (fs_faults s), fs_signals := fd_signals k\<rparr>)))"

text \<open>The buffered sink over the open file.\<close>

definition on_sink :: "(buffered_sink \<times> fsys, 'a) M \<Rightarrow> (restore, 'a) M" where
  "on_sink m = (\<lambda>(l, k, s). case m (rs_sink l, s) of (r, (b, s)) \<Rightarrow> (r, (l\<lparr>rs_sink := b\<rparr>, k, s)))"

definition RestoreRegularFile_write :: "nat \<Rightarrow> restore sink" where
  "RestoreRegularFile_write i data = on_sink (BufferedSink (fd_write i) data)"

definition RestoreRegularFile_isExecutable :: "restore_env \<Rightarrow> nat \<Rightarrow> (restore, unit) M" where
  "RestoreRegularFile_isExecutable env i =
     (if re_canonical env then
        seqM (onL (modS (\<lambda>l. l\<lparr>rs_madeExecutable := True\<rparr>)))
          (on_fs (sysE ''fchmod'' (sys_fd_inode i (in_mode_update (\<lambda>_. 0x16d)))))
      else
        bindM (on_fs (fd_stat i)) (\<lambda>st.
          on_fs (sysE ''fchmod'' (sys_fd_inode i (in_mode_update (\<lambda>_. ps_mode st OR 0x49))))))"

text \<open>\<open>preallocateContents\<close> is a setting that nothing changes.\<close>

definition restoreSinkSettings_preallocateContents :: bool where
  "restoreSinkSettings_preallocateContents = False"

definition RestoreRegularFile_preallocate :: "nat \<Rightarrow> 64 word \<Rightarrow> (restore, unit) M" where
  "RestoreRegularFile_preallocate i len =
     (if \<not> restoreSinkSettings_preallocateContents then ret ()
      else if len = 0 then ret ()
      else if 2 ^ 63 - 1 < unat len then throw (Error ''cannot preallocate contents for a file because it's too large'')
      else bindM (on_fs (sysR (sys_fd_inode i (in_data_update (\<lambda>c. c @ replicate (unat len - length c) (CHR 0x00)))))) (\<lambda>r.
        case r of
          Inr _ \<Rightarrow> ret ()
        | Inl e \<Rightarrow> if e \<noteq> EINVAL \<and> e \<noteq> EOPNOTSUPP \<and> e \<noteq> ENOSYS then throw (SysError e ''preallocating file of %1% bytes'') else ret ()))"

definition RestoreSink_openRegular :: "restore_env \<Rightarrow> restore_obj \<Rightarrow> CanonPath \<Rightarrow> (restore, nat) M" where
  "RestoreSink_openRegular env d path =
     bindM (obj_dirFd d) (\<lambda>dirFd.
     bindM (getParentFdAndName env dirFd (components path)) (\<lambda>(fd, name).
     bindM (or_throw ''creating file %1%''
       (open_beneath fd [name] (CreateExcl (masked env (if re_canonical env then 0x124 else 0x1b6))))) (\<lambda>i.
     seqM (onL (modS (\<lambda>l. l\<lparr>rs_sink := BufferedSink_new (32 * 1024), rs_madeExecutable := False\<rparr>))) (ret i))))"

definition RestoreSink_closeRegular :: "restore_env \<Rightarrow> restore_obj \<Rightarrow> CanonPath \<Rightarrow> nat \<Rightarrow> (restore, unit) M" where
  "RestoreSink_closeRegular env d path i =
     seqM (on_sink (BufferedSink_flush (fd_write i)))
       (if re_canonical env then
          seqM (bindM (getS (\<lambda>(l, _). rs_madeExecutable l)) (\<lambda>madeExecutable.
              if \<not> umaskPreservesCanonicalModes env \<and> \<not> madeExecutable
              then on_fs (sysE ''fchmod'' (sys_fd_inode i (in_mode_update (\<lambda>_. 0x124))))
              else ret ()))
            (on_fs (sysE ''setting mtime of %1%'' (sys_fd_inode i (in_mtime_update (\<lambda>_. canonicalTimes)))))
        else ret ())"

subsection \<open>Symbolic links\<close>

definition requireCString :: "string \<Rightarrow> exn + string" where
  "requireCString s =
     (if CHR 0x00 \<in> set s then Inl (Error ''string %s with null bytes used where it's not allowed'') else Inr s)"

definition RestoreSink_createSymlink :: "restore_env \<Rightarrow> restore_obj \<Rightarrow> CanonPath \<Rightarrow> string \<Rightarrow> (restore, unit) M" where
  "RestoreSink_createSymlink env d path tgt =
     bindM (obj_dirFd d) (\<lambda>dirFd.
     bindM (getParentFdAndName env dirFd (components path)) (\<lambda>(fd, name).
     bindM (liftE (requireCString tgt)) (\<lambda>tgt.
     seqM (on_fs (sysE ''creating symlink from %1% -> %2%'' (at_path fd [name] (sys_symlink tgt))))
       (if re_canonical env
        then on_fs (sysE ''setting mtime of %1%'' (at_path fd [name] (\<lambda>p. sys_utimes p canonicalTimes)))
        else ret ()))))"

subsection \<open>The sink\<close>

definition RestoreSink :: "restore_env \<Rightarrow> (restore_obj, nat, restore) fso_sink" where
  "RestoreSink env =
     \<lparr> createDirectory = RestoreSink_createDirectory env,
       closeDirectory = RestoreSink_closeDirectory env,
       openRegular = RestoreSink_openRegular env,
       crf_isExecutable = RestoreRegularFile_isExecutable env,
       crf_preallocate = RestoreRegularFile_preallocate,
       crf_skipContents = (\<lambda>_. False),
       crf_write = RestoreRegularFile_write,
       closeRegular = RestoreSink_closeRegular env,
       createSymlink = RestoreSink_createSymlink env \<rparr>"

definition restore_new :: restore_state where
  "restore_new = \<lparr> rs_dirFd = None, rs_sink = BufferedSink_new (32 * 1024), rs_madeExecutable = False, rs_deferred = [] \<rparr>"

definition restorePath :: "nat \<Rightarrow> restore_env \<Rightarrow> 's source_ops \<Rightarrow> ('s \<times> restore, unit) M" where
  "restorePath fuel env src =
     seqM (onR (onL (modS (\<lambda>_. restore_new)))) (parseDump fuel (RestoreSink env) src RootSink)"
subsection \<open>What is to be there\<close>

text \<open>
  The nodes of a tree as the sink leaves them, and \<open>plant\<close>: a file system with a tree created in
  it, node after node.  The topmost directory is not finished.
\<close>

definition file_mode :: "restore_env \<Rightarrow> bool \<Rightarrow> 32 word" where
  "file_mode env x =
     (if re_canonical env then if x then 0x16d else 0x124 else masked env 0x1b6 OR (if x then 0x49 else 0))"

definition node_time :: "restore_env \<Rightarrow> int \<Rightarrow> int" where
  "node_time env now = (if re_canonical env then canonicalTimes else now)"

definition file_node :: "restore_env \<Rightarrow> int \<Rightarrow> bool \<Rightarrow> string \<Rightarrow> inode" where
  "file_node env now x c = blank_inode\<lparr>in_data := c, in_mode := file_mode env x, in_mtime := node_time env now\<rparr>"

definition link_node :: "restore_env \<Rightarrow> int \<Rightarrow> string \<Rightarrow> inode" where
  "link_node env now g =
     blank_inode\<lparr>in_type := tSymlink, in_data := g, in_mode := 0x1ff, in_mtime := node_time env now\<rparr>"

definition dir_node :: "restore_env \<Rightarrow> int \<Rightarrow> inode" where
  "dir_node env now = blank_inode\<lparr>in_type := tDirectory, in_mode := masked env 0x1ff, in_mtime := now\<rparr>"

definition finished :: "restore_env \<Rightarrow> bool \<Rightarrow> nat \<Rightarrow> fsys \<Rightarrow> fsys" where
  "finished env outer d s =
     (if re_canonical env \<and> \<not> re_defer env \<and> \<not> outer
      then set_inode d (\<lambda>n. n\<lparr>in_mode := 0x1ed, in_mtime := canonicalTimes\<rparr>) s else s)"

fun plant :: "restore_env \<Rightarrow> bool \<Rightarrow> fpath \<Rightarrow> fso \<Rightarrow> fsys \<Rightarrow> fsys" where
  "plant env outer q (Regular x c) s = new_inode q (file_node env (fs_now s) x c) s"
| "plant env outer q (Symlink g) s = new_inode q (link_node env (fs_now s) g) s"
| "plant env outer q (Directory es) s = finished env outer (fs_next s)
     (fold (\<lambda>(n, y). plant env False (q @ [n]) y) es (new_inode q (dir_node env (fs_now s)) s))"

abbreviation plants :: "restore_env \<Rightarrow> fpath \<Rightarrow> (string \<times> fso) list \<Rightarrow> fsys \<Rightarrow> fsys" where
  "plants env q es \<equiv> fold (\<lambda>(n, y). plant env False (q @ [n]) y) es"

text \<open>The directories that are deferred, children before parents.\<close>

fun defers :: "bool \<Rightarrow> string list \<Rightarrow> fso \<Rightarrow> string list list" where
  "defers outer r (Directory es) = concat (map (\<lambda>(n, y). defers False (r @ [n]) y) es) @ (if outer then [] else [r])"
| "defers outer r _ = []"

definition deferred :: "restore_env \<Rightarrow> bool \<Rightarrow> string list \<Rightarrow> fso \<Rightarrow> string list list" where
  "deferred env outer r x = (if re_canonical env \<and> re_defer env then defers outer r x else [])"

subsection \<open>File systems with more in them\<close>

definition good :: "fsys \<Rightarrow> bool" where
  "good s \<longleftrightarrow> fs_quiet s \<and> fs_ok s \<and> dirs_single s"

definition free_at :: "fsys \<Rightarrow> fpath \<Rightarrow> bool" where
  "free_at s q \<longleftrightarrow> q \<noteq> [] \<and> dent s q = None \<and> is_dir s (butlast q)"

text \<open>New entries at and below a path only; of what was there the time of the directory may have changed.\<close>

definition extends :: "fpath \<Rightarrow> fsys \<Rightarrow> fsys \<Rightarrow> bool" where
  "extends q s t \<longleftrightarrow> good t \<and> fs_now t = fs_now s \<and> fs_next s \<le> fs_next t \<and>
     (\<exists>ds. fs_dents t = fs_dents s @ ds \<and> (\<forall>(r, i) \<in> set ds. prefix q r \<and> fs_next s \<le> i)) \<and>
     (\<forall>i < fs_next s. fs_inodes t i = (if dent s (butlast q) = Some i then (fs_inodes s i)\<lparr>in_mtime := fs_now s\<rparr> else fs_inodes s i))"

lemma extendsE:
  assumes "extends q s t"
  obtains ds where "fs_dents t = fs_dents s @ ds" "\<And>r i. (r, i) \<in> set ds \<Longrightarrow> prefix q r \<and> fs_next s \<le> i"
  using assms by (fastforce simp: extends_def)

lemma extends_dent:
  assumes "extends q s t"
  shows "dent s r = Some i \<Longrightarrow> dent t r = Some i" "\<not> prefix q r \<Longrightarrow> dent t r = dent s r"
proof -
  obtain ds where ds: "fs_dents t = fs_dents s @ ds" "\<And>r i. (r, i) \<in> set ds \<Longrightarrow> prefix q r \<and> fs_next s \<le> i"
    using assms by (rule extendsE) blast
  have d: "dent t r = (case dent s r of None \<Rightarrow> map_of ds r | Some i \<Rightarrow> Some i)" for r
    by (simp add: dent_def ds(1) map_add_def split: option.split)
  then show "dent s r = Some i \<Longrightarrow> dent t r = Some i" by simp
  show "\<not> prefix q r \<Longrightarrow> dent t r = dent s r"
    using d [of r] ds(2) [of r] by (cases "map_of ds r") (auto split: option.splits dest: map_of_SomeD)
qed

lemma dent_less: "fs_ok s \<Longrightarrow> dent s p = Some i \<Longrightarrow> i < fs_next s"
  using dent_in [of s p i] by (auto simp: fs_ok_def)

lemma extends_type: "extends q s t \<Longrightarrow> i < fs_next s \<Longrightarrow> in_type (fs_inodes t i) = in_type (fs_inodes s i)"
  by (simp add: extends_def)

lemma extends_is_dir:
  assumes "fs_ok s" "extends q s t" "is_dir s p"
  shows "is_dir t p"
  using assms extends_dent(1) [OF assms(2), of p] extends_type [OF assms(2)] dent_less [OF assms(1), of p]
  by (auto simp: is_dir_dent)

lemma extends_fd_path:
  assumes "extends q s t" "fd_path s d = Some p"
  shows "fd_path t d = Some p"
proof -
  obtain ds where ds: "fs_dents t = fs_dents s @ ds"
    using assms(1) by (rule extendsE) blast
  have "find P (xs @ ys) = Some x" if "find P xs = Some x" for P x and xs ys :: "(fpath \<times> nat) list"
    using that by (induction xs) (auto split: if_splits)
  with assms(2) show ?thesis by (auto simp: fd_path_def ds)
qed

lemma fd_path_in: "fd_path s d = Some p \<Longrightarrow> (p, d) \<in> set (fs_dents s)"
  by (auto simp: fd_path_def find_Some_iff) (metis nth_mem)

lemma extends_dir_fd:
  assumes "fs_ok s" "extends q s t" "dir_fd s d p"
  shows "dir_fd t d p"
proof -
  have "d < fs_next s" using fd_path_in [of s d p] assms(1,3) by (auto simp: dir_fd_def fs_ok_def)
  with assms(3) extends_fd_path [OF assms(2)] extends_type [OF assms(2)] show ?thesis by (simp add: dir_fd_def)
qed
lemma extends_step:
  assumes "extends q s t" "dent t q = Some d" "fs_next s \<le> d" "extends (q @ [n]) t u"
  shows "extends q s u"
proof -
  obtain ds where ds: "fs_dents t = fs_dents s @ ds" "\<And>r i. (r, i) \<in> set ds \<Longrightarrow> prefix q r \<and> fs_next s \<le> i"
    using assms(1) by (rule extendsE) blast
  obtain es where es: "fs_dents u = fs_dents t @ es" "\<And>r i. (r, i) \<in> set es \<Longrightarrow> prefix (q @ [n]) r \<and> fs_next t \<le> i"
    using assms(4) by (rule extendsE) blast
  have "prefix q r \<and> fs_next s \<le> i" if "(r, i) \<in> set (ds @ es)" for r i
    using that ds(2) es(2) [of r i] assms(1) by (auto simp: extends_def intro: append_prefixD)
  then have "\<exists>ds. fs_dents u = fs_dents s @ ds \<and> (\<forall>(r, i) \<in> set ds. prefix q r \<and> fs_next s \<le> i)"
    using ds(1) es(1) by (intro exI [of _ "ds @ es"]) auto
  with assms show ?thesis by (auto simp: extends_def)
qed

lemma dirs_singleD:
  assumes "dirs_single s" "(p, i) \<in> set (fs_dents s)" "(q, i) \<in> set (fs_dents s)" "in_type (fs_inodes s i) = tDirectory"
  shows "p = q"
  using bspec [OF bspec [OF assms(1) [unfolded dirs_single_def] assms(2), unfolded prod.case] assms(3)] assms(4) by simp

lemma dirs_single_cong:
  "fs_dents t = fs_dents s \<Longrightarrow> (\<And>i. in_type (fs_inodes t i) = in_type (fs_inodes s i)) \<Longrightarrow> dirs_single s \<Longrightarrow> dirs_single t"
  by (simp add: dirs_single_def)

lemma fs_ok_types:
  assumes "fs_ok s" "fs_dents t = fs_dents s" "fs_next t = fs_next s" "\<And>i. in_type (fs_inodes t i) = in_type (fs_inodes s i)"
  shows "fs_ok t"
proof -
  have "is_dir t p = is_dir s p" for p using assms(2,4) by (simp add: is_dir_dent dent_def)
  with assms(1-3) show ?thesis by (simp add: fs_ok_def)
qed

lemma extends_set_inode:
  assumes "extends q s t" "fs_next s \<le> d" "\<And>n. in_type (f n) = in_type n"
  shows "extends q s (set_inode d f t)"
proof -
  have t: "fs_ok t" "dirs_single t" using assms(1) by (simp_all add: extends_def good_def)
  have "fs_ok (set_inode d f t)"
    by (rule fs_ok_types [OF t(1)]) (simp_all add: fs assms(3))
  moreover have "dirs_single (set_inode d f t)"
    by (rule dirs_single_cong [OF _ _ t(2)]) (simp_all add: fs assms(3))
  ultimately show ?thesis
    using assms(1,2) by (auto simp: extends_def good_def fs_quiet_def fs)
qed

lemma new_inode_sel:
  "fs_dents (new_inode q n s) = fs_dents s @ [(q, fs_next s)]" "fs_next (new_inode q n s) = Suc (fs_next s)"
  "fs_now (new_inode q n s) = fs_now s" "fs_faults (new_inode q n s) = fs_faults s" "fs_signals (new_inode q n s) = fs_signals s"
  by (simp_all add: new_inode_def add_dent_def fs)

lemma new_inode_nodes:
  assumes "fs_ok s" "free_at s q"
  shows "fs_inodes (new_inode q n s) i = (if i = fs_next s then n
    else if dent s (butlast q) = Some i then (fs_inodes s i)\<lparr>in_mtime := fs_now s\<rparr> else fs_inodes s i)"
proof -
  obtain d where d: "dent s (butlast q) = Some d" using assms(2) by (auto simp: free_at_def is_dir_dent)
  moreover have "d < fs_next s" using dent_less [OF assms(1) d] .
  moreover have "butlast q \<noteq> q" using assms(2) d by (auto simp: free_at_def)
  ultimately show ?thesis
    by (auto simp: new_inode_def add_dent_def touch_def dent_def map_add_def set_inode_def split: option.split)
qed

lemma set_new_inode:
  assumes "fs_ok s" "free_at s q"
  shows "set_inode (fs_next s) f (new_inode q n s) = new_inode q (f n) s"
proof -
  have "fs_inodes (set_inode (fs_next s) f (new_inode q n s)) = fs_inodes (new_inode q (f n) s)"
    by (rule ext) (simp add: fs new_inode_nodes [OF assms])
  then show ?thesis
    by (intro fsys.equality) (simp_all add: fs new_inode_sel)
qed

lemma extends_new_inode:
  assumes "good s" "free_at s q"
  shows "extends q s (new_inode q n s)" "dent (new_inode q n s) q = Some (fs_next s)"
    "fs_inodes (new_inode q n s) (fs_next s) = n"
proof -
  have ok: "fs_ok s" using assms(1) by (simp add: good_def)
  note nodes = new_inode_nodes [OF ok assms(2), of n]
  have free: "dent s q = None" "is_dir s (butlast q)" using assms(2) by (simp_all add: free_at_def)
  note new = fs_ok_new_inode [OF ok free, of n]
  have old: "in_type (fs_inodes (new_inode q n s) i) = in_type (fs_inodes s i)" "i \<noteq> fs_next s"
    if "(p, i) \<in> set (fs_dents s)" for p i
    using that ok nodes [of i] by (auto simp: fs_ok_def)
  have "a = b" if *: "(a, i) \<in> set (fs_dents (new_inode q n s))" "(b, i) \<in> set (fs_dents (new_inode q n s))"
    "in_type (fs_inodes (new_inode q n s) i) = tDirectory" for a b i
  proof (cases "i = fs_next s")
    case True
    with *(1,2) old(2) show ?thesis by (auto simp: new_inode_sel)
  next
    case False
    with *(1,2) have ab: "(a, i) \<in> set (fs_dents s)" "(b, i) \<in> set (fs_dents s)" by (auto simp: new_inode_sel)
    show ?thesis using dirs_singleD [OF _ ab] old(1) [OF ab(1)] *(3) assms(1) by (simp add: good_def)
  qed
  then have "dirs_single (new_inode q n s)" by (auto simp: dirs_single_def)
  with new(1) assms(1) nodes show "extends q s (new_inode q n s)"
    by (simp add: extends_def good_def new_inode_sel fs_quiet_def)
  show "dent (new_inode q n s) q = Some (fs_next s)" using new(2) by simp
  show "fs_inodes (new_inode q n s) (fs_next s) = n" using nodes by simp
qed
subsection \<open>Reading a tree\<close>

text \<open>The tree at a path: types, contents, executable bits, targets, and no other entries.\<close>

fun reads :: "fsys \<Rightarrow> fpath \<Rightarrow> fso \<Rightarrow> bool" where
  "reads s q (Regular x c) \<longleftrightarrow> (case dent s q of None \<Rightarrow> False | Some i \<Rightarrow>
     in_type (fs_inodes s i) = tRegular \<and> in_data (fs_inodes s i) = c \<and> (x \<longleftrightarrow> in_mode (fs_inodes s i) AND 0x40 \<noteq> 0))"
| "reads s q (Symlink g) \<longleftrightarrow> (case dent s q of None \<Rightarrow> False | Some i \<Rightarrow>
     in_type (fs_inodes s i) = tSymlink \<and> in_data (fs_inodes s i) = g)"
| "reads s q (Directory es) \<longleftrightarrow> is_dir s q \<and> fst ` set (children s q) = fst ` set es \<and>
     list_all (\<lambda>(n, y). reads s (q @ [n]) y) es"

definition looks_same :: "fsys \<Rightarrow> fsys \<Rightarrow> fpath \<Rightarrow> bool" where
  "looks_same s t q \<longleftrightarrow> (\<forall>r. prefix q r \<longrightarrow> dent t r = dent s r \<and> (\<forall>i. dent s r = Some i \<longrightarrow>
     in_type (fs_inodes t i) = in_type (fs_inodes s i) \<and> in_data (fs_inodes t i) = in_data (fs_inodes s i) \<and>
     (in_type (fs_inodes s i) \<noteq> tDirectory \<longrightarrow> in_mode (fs_inodes t i) = in_mode (fs_inodes s i))))"

lemma names_dent: "n \<in> fst ` set (children s q) \<longleftrightarrow> dent s (q @ [n]) \<noteq> None"
  unfolding children_names dent_none by force

lemma looks_sameD:
  assumes "looks_same s t q"
  shows "dent t q = dent s q" "is_dir t q = is_dir s q" "fst ` set (children t q) = fst ` set (children s q)"
    "looks_same s t (q @ [n])"
proof -
  show d: "dent t q = dent s q" using assms unfolding looks_same_def by blast
  have "in_type (fs_inodes t i) = in_type (fs_inodes s i)" if "dent s q = Some i" for i
    using assms that unfolding looks_same_def by blast
  with d show "is_dir t q = is_dir s q" by (auto simp: is_dir_dent)
  have "dent t (q @ [m]) = dent s (q @ [m])" for m using assms unfolding looks_same_def by simp
  then show "fst ` set (children t q) = fst ` set (children s q)" by (intro set_eqI) (simp only: names_dent)
  show "looks_same s t (q @ [n])" using assms unfolding looks_same_def by (meson append_prefixD)
qed

lemma reads_same: "reads s q x \<Longrightarrow> looks_same s t q \<Longrightarrow> reads t q x"
proof (induction x arbitrary: q)
  case (Directory es)
  have "reads t (q @ [n]) y" if "(n, y) \<in> set es" for n y
    using Directory.IH [OF that, of y "q @ [n]"] Directory.prems looks_sameD(4) that by (auto simp: list_all_iff)
  with Directory.prems looks_sameD(2,3) [OF Directory.prems(2)] show ?case by (auto simp: list_all_iff)
next
  case (Regular x c)
  then obtain i where "dent s q = Some i" "in_type (fs_inodes s i) = tRegular" by (auto split: option.splits)
  with Regular show ?case unfolding looks_same_def by (auto simp: prefix_order.refl)
next
  case (Symlink g)
  then obtain i where "dent s q = Some i" "in_type (fs_inodes s i) = tSymlink" by (auto split: option.splits)
  with Symlink show ?case unfolding looks_same_def by (auto simp: prefix_order.refl)
qed

lemma extends_looks:
  assumes "fs_ok s" "extends r s t" "\<not> prefix q r" "\<not> prefix r q"
  shows "looks_same s t q"
  unfolding looks_same_def
proof (intro allI impI conjI)
  fix p i assume p: "prefix q p"
  have "\<not> prefix r p" using p assms(3,4) prefix_same_cases by blast
  then show "dent t p = dent s p" using extends_dent(2) [OF assms(2)] by blast
  assume i: "dent s p = Some i"
  have "i < fs_next s" using dent_less [OF assms(1) i] .
  then have "fs_inodes t i = (if dent s (butlast r) = Some i then (fs_inodes s i)\<lparr>in_mtime := fs_now s\<rparr> else fs_inodes s i)"
    using assms(2) by (simp add: extends_def)
  then show "in_type (fs_inodes t i) = in_type (fs_inodes s i)" "in_data (fs_inodes t i) = in_data (fs_inodes s i)"
    "in_type (fs_inodes s i) \<noteq> tDirectory \<Longrightarrow> in_mode (fs_inodes t i) = in_mode (fs_inodes s i)" by simp_all
qed

lemma dir_looks:
  assumes "in_type (fs_inodes s d) = tDirectory" "\<And>n. in_type (f n) = in_type n" "\<And>n. in_data (f n) = in_data n"
  shows "looks_same s (set_inode d f s) q"
  using assms by (auto simp: looks_same_def fs dent_def)

definition planted :: "fpath \<Rightarrow> fso \<Rightarrow> fsys \<Rightarrow> fsys \<Rightarrow> bool" where
  "planted q x s t \<longleftrightarrow> extends q s t \<and> dent t q = Some (fs_next s) \<and> reads t q x"
lemma file_mode_executable: "file_mode env x AND 0x40 \<noteq> 0 \<longleftrightarrow> x"
proof -
  have "(masked env 0x1b6) AND 0x40 = (0x1b6 AND 0x40) AND NOT (re_umask env)"
    by (simp add: masked_def and.assoc and.commute and.left_commute)
  then have "(masked env 0x1b6) AND 0x40 = 0" by simp
  then show ?thesis by (simp add: file_mode_def word_ao_dist)
qed

lemma plant_leaf:
  assumes "good s" "free_at s q"
  shows "planted q (Regular x c) s (plant env outer q (Regular x c) s)" "planted q (Symlink g) s (plant env outer q (Symlink g) s)"
  using extends_new_inode [OF assms] file_mode_executable [of env x]
  by (simp_all add: planted_def file_node_def link_node_def blank_inode_def)

lemma finished_planted:
  assumes "planted q x s t" "in_type (fs_inodes t (fs_next s)) = tDirectory"
  shows "planted q x s (finished env outer (fs_next s) t)"
proof (cases "re_canonical env \<and> \<not> re_defer env \<and> \<not> outer")
  case True
  let ?t = "set_inode (fs_next s) (\<lambda>n. n\<lparr>in_mode := 0x1ed, in_mtime := canonicalTimes\<rparr>) t"
  have "reads ?t q x"
    using assms by (intro reads_same [OF _ dir_looks]) (simp_all add: planted_def)
  with True assms(1) extends_set_inode [of q s t "fs_next s"] show ?thesis
    by (simp add: finished_def planted_def dent_def fs)
qed (use assms(1) in \<open>auto simp: finished_def\<close>)

text \<open>The loop over the entries of a directory.\<close>

lemma plants_planted:
  assumes "planted q (Directory es) s t" "map_sorted (es @ es')" "list_all (\<lambda>(n, y). valid_component n \<and> file_ok y) es'"
    and "\<And>n y t. (n, y) \<in> set es' \<Longrightarrow> good t \<Longrightarrow> free_at t (q @ [n]) \<Longrightarrow> planted (q @ [n]) y t (plant env False (q @ [n]) y t)"
  shows "planted q (Directory (es @ es')) s (plants env q es' t)"
  using assms
proof (induction es' arbitrary: es t)
  case Nil
  then show ?case by simp
next
  case (Cons e es')
  obtain n y where e: "e = (n, y)" by (cases e)
  let ?u = "plant env False (q @ [n]) y t"
  have t: "extends q s t" "dent t q = Some (fs_next s)" "is_dir t q" "fst ` set (children t q) = fst ` set es"
    "list_all (\<lambda>(n, y). reads t (q @ [n]) y) es"
    using Cons.prems(1) by (simp_all add: planted_def)
  have g: "good t" using t(1) by (simp add: extends_def)
  have new: "n \<notin> fst ` set es" using Cons.prems(2) by (auto simp: e map_sorted_def sorted_wrt_append)
  have "free_at t (q @ [n])" using new t(3,4) names_dent [of n t q] by (simp add: free_at_def)
  from Cons.prems(4) [OF _ g this, of y] have u: "planted (q @ [n]) y t ?u" by (simp add: e)
  then have ext: "extends (q @ [n]) t ?u" by (simp add: planted_def)
  have ok: "fs_ok t" using g by (simp add: good_def)
  have names: "fst ` set (children ?u q) = fst ` set (es @ [(n, y)])"
  proof (rule set_eqI)
    fix m
    have "dent ?u (q @ [m]) = dent t (q @ [m])" if "m \<noteq> n" using that by (intro extends_dent(2) [OF ext]) auto
    moreover have "dent ?u (q @ [n]) \<noteq> None" using u by (simp add: planted_def)
    ultimately have "dent ?u (q @ [m]) \<noteq> None \<longleftrightarrow> m = n \<or> dent t (q @ [m]) \<noteq> None"
      by (cases "m = n") simp_all
    then show "m \<in> fst ` set (children ?u q) \<longleftrightarrow> m \<in> fst ` set (es @ [(n, y)])"
      using t(4) names_dent [of m t q] by (simp only: names_dent) auto
  qed
  have "reads ?u (q @ [m]) z" if "(m, z) \<in> set es" for m z
  proof -
    have "m \<noteq> n" using that new by force
    then have "looks_same t ?u (q @ [m])" by (intro extends_looks [OF ok ext]) auto
    moreover have "reads t (q @ [m]) z" using t(5) that by (auto simp: list_all_iff)
    ultimately show ?thesis by (rule reads_same [rotated])
  qed
  moreover have "extends q s ?u" by (rule extends_step [OF t(1,2) _ ext]) simp
  moreover have "is_dir ?u q" by (rule extends_is_dir [OF ok ext t(3)])
  moreover have "dent ?u q = Some (fs_next s)" by (rule extends_dent(1) [OF ext t(2)])
  ultimately have "planted q (Directory (es @ [(n, y)])) s ?u"
    using u names by (auto simp: planted_def list_all_iff)
  from Cons.IH [OF this] Cons.prems(2-4) have "planted q (Directory ((es @ [(n, y)]) @ es')) s (plants env q es' ?u)"
    by (simp add: e)
  then show ?case by (simp add: e)
qed

text \<open>A directory just made.\<close>

lemma made_planted:
  assumes "good s" "free_at s q"
  shows "planted q (Directory []) s (new_inode q (dir_node env (fs_now s)) s)"
proof -
  let ?t = "new_inode q (dir_node env (fs_now s)) s"
  note new = extends_new_inode [OF assms, of "dir_node env (fs_now s)"]
  have ok: "fs_ok s" using assms(1) by (simp add: good_def)
  have "dent s (q @ [n]) = None" for n
  proof (rule ccontr)
    assume "dent s (q @ [n]) \<noteq> None"
    then have "is_dir s q" using ok ancestor_dir [OF ok, of q n "[]"] by (auto dest: dent_in)
    then show False using assms(2) by (simp add: free_at_def is_dir_dent)
  qed
  moreover have "dent ?t (q @ [n]) = dent s (q @ [n])" for n
    using assms(2) fs_ok_new_inode(2) [OF ok] by (simp add: free_at_def)
  ultimately have "fst ` set (children ?t q) = {}" by (intro equals0I) (simp only: names_dent simp_thms)
  then show ?thesis using new by (simp add: planted_def is_dir_dent dir_node_def blank_inode_def)
qed

lemma planted_dir:
  assumes "planted q (Directory es) s t"
  shows "in_type (fs_inodes t (fs_next s)) = tDirectory" "good t" "dir_fd t (fs_next s) q"
proof -
  show g: "good t" "in_type (fs_inodes t (fs_next s)) = tDirectory"
    using assms by (auto simp: planted_def is_dir_dent extends_def)
  then show "dir_fd t (fs_next s) q" using assms by (intro fd_path_dir) (simp_all add: planted_def good_def)
qed

lemma plant_planted:
  "good s \<Longrightarrow> free_at s q \<Longrightarrow> file_ok x \<Longrightarrow> planted q x s (plant env outer q x s)"
proof (induction x arbitrary: s q outer)
  case (Directory es)
  let ?t = "new_inode q (dir_node env (fs_now s)) s"
  have "planted q (Directory ([] @ es)) s (plants env q es ?t)"
    using made_planted [OF Directory.prems(1,2)] Directory.prems(3) Directory.IH by (intro plants_planted) (auto simp: list_all_iff)
  then show ?case using planted_dir(1) [of q es s "plants env q es ?t"] by (simp add: finished_planted)
qed (rule plant_leaf; assumption)+
subsection \<open>The contract of the sink\<close>

definition obj_fd :: "restore_obj \<Rightarrow> restore_state \<Rightarrow> nat option" where
  "obj_fd d l = (case d of RootSink \<Rightarrow> rs_dirFd l | DirSink fd _ \<Rightarrow> Some fd)"

lemma obj_dirFd_run: "obj_dirFd d (l, k, s) = (Inr (obj_fd d l), (l, k, s))"
  by (cases d) (simp_all add: obj_fd_def)

text \<open>Where on disk the path of a sink object is.\<close>

definition spot :: "restore_env \<Rightarrow> restore_obj \<Rightarrow> CanonPath \<Rightarrow> restore \<Rightarrow> fpath" where
  "spot env d p = (\<lambda>(l, k, s). case obj_fd d l of None \<Rightarrow> re_dst env | Some fd \<Rightarrow> the (fd_path s fd) @ components p)"

definition ready :: "restore_env \<Rightarrow> restore_obj \<Rightarrow> CanonPath \<Rightarrow> restore \<Rightarrow> bool" where
  "ready env d p t \<longleftrightarrow> (case t of (l, k, s) \<Rightarrow> good s \<and> free_at s (spot env d p t) \<and>
     (case obj_fd d l of
        None \<Rightarrow> components p = [] \<and> last (re_dst env) \<noteq> ''.'' \<and> last (re_dst env) \<noteq> ''..''
      | Some fd \<Rightarrow> (\<exists>pp. dir_fd s fd pp) \<and> length (components p) = 1))"

lemma getParent_quiet:
  assumes "ready env d p (l, k, s)"
  shows "\<exists>fd. getParentFdAndName env (obj_fd d l) (components p) (l, k, s) = (Inr (fd, last (spot env d p (l, k, s))), (l, k, s)) \<and>
    dir_fd s fd (butlast (spot env d p (l, k, s)))"
proof (cases "obj_fd d l")
  case None
  with assms have q: "spot env d p (l, k, s) = re_dst env" "good s" "free_at s (re_dst env)" "components p = []"
    "last (re_dst env) \<noteq> ''.''" "last (re_dst env) \<noteq> ''..''"
    by (simp_all add: ready_def spot_def)
  obtain i where i: "dent s (butlast (re_dst env)) = Some i" "in_type (fs_inodes s i) = tDirectory"
    using q(3) by (auto simp: free_at_def is_dir_dent)
  have "sysE msg (sys_opendir (butlast (re_dst env))) s = (Inr i, s)" for msg
    using q(2) i by (simp add: sysE_def sys_opendir_def sys_call_quiet good_def fs_quiet_def)
  moreover have "dir_fd s i (butlast (re_dst env))" using q(2) i by (intro fd_path_dir) (simp_all add: good_def)
  ultimately show ?thesis using None q by (simp add: getParentFdAndName_def Let_def free_at_def run on_fs_def)
next
  case (Some fd)
  with assms obtain pp n where "dir_fd s fd pp" "components p = [n]" by (auto simp: ready_def length_Suc_conv)
  then show ?thesis using Some by (auto simp: getParentFdAndName_def spot_def dir_fd_def)
qed

text \<open>The calls at a name below a directory.\<close>

lemma at_path_dir: "dir_fd s fd pp \<Longrightarrow> at_path fd [n] f s = f (pp @ [n]) s"
  by (simp add: at_path_def dir_fd_def)

lemma sys_create_quiet:
  "good s \<Longrightarrow> free_at s q \<Longrightarrow> sys_create q n s = (Inr (), new_inode q (n\<lparr>in_mtime := fs_now s\<rparr>) s)"
  by (simp add: sys_create_def sys_call_quiet good_def fs_quiet_def free_at_def)

lemma open_beneath_quiet:
  assumes "good s" "dir_fd s fd pp"
  shows "open_beneath fd [n] fl (l, k, s) = (case open_last False fl pp n s of (r, u) \<Rightarrow> (opened r, (l, k, u)))"
proof -
  have "sys_openat2 fd [n] fl s = open_last False fl pp n s"
    using assms by (simp add: sys_openat2_def sys_call_quiet at_dir_def dir_fd_def good_def fs_quiet_def)
  then show ?thesis
    unfolding open_beneath_def using assms by (subst openBeneath_quiet) (simp_all add: good_def fs_quiet_def)
qed

lemma open_beneath_dir:
  assumes "good s" "dir_fd s fd pp" "dent s (pp @ [n]) = Some i" "in_type (fs_inodes s i) = tDirectory"
  shows "or_throw msg (open_beneath fd [n] OpenDirectory) (l, k, s) = (Inr i, (l, k, s))"
  using assms(3,4) open_beneath_quiet [OF assms(1,2)] by (simp add: or_throw_def run open_last_def opened_def)

lemma ready_split:
  assumes "ready env d p (l, k, s)"
  shows "good s" "free_at s (spot env d p (l, k, s))"
    "butlast (spot env d p (l, k, s)) @ [last (spot env d p (l, k, s))] = spot env d p (l, k, s)"
  using assms by (auto simp: ready_def free_at_def)

text \<open>The directory is made, and for the topmost one the descriptor is kept.\<close>

lemma mkdir_quiet:
  assumes "ready env d p (l, k, s)"
  shows "RestoreSink_mkdir env d (components p) (l, k, s) =
    (Inr (), (if obj_fd d l = None then l\<lparr>rs_dirFd := Some (fs_next s)\<rparr> else l, k,
      new_inode (spot env d p (l, k, s)) (dir_node env (fs_now s)) s))"
proof -
  let ?q = "spot env d p (l, k, s)" and ?t = "new_inode (spot env d p (l, k, s)) (dir_node env (fs_now s)) s"
  note r = ready_split [OF assms]
  obtain fd where fd: "getParentFdAndName env (obj_fd d l) (components p) (l, k, s) = (Inr (fd, last ?q), (l, k, s))"
    "dir_fd s fd (butlast ?q)"
    using getParent_quiet [OF assms] by blast
  have mk: "on_fs (sysE ''creating directory %s'' (at_path fd [last ?q] (\<lambda>p. sys_mkdir p (masked env 0x1ff)))) (l, k, s) =
      (Inr (), (l, k, ?t))"
    using r fd(2) by (simp add: on_fs_def run sysE_def at_path_dir sys_mkdir_def sys_create_quiet dir_node_def)
  have p: "planted ?q (Directory []) s ?t" by (rule made_planted [OF r(1,2)])
  then have ext: "extends ?q s ?t" by (simp add: planted_def)
  have "dir_fd ?t fd (butlast ?q)" using r(1) by (intro extends_dir_fd [OF _ ext fd(2)]) (simp add: good_def)
  moreover have "dent ?t (butlast ?q @ [last ?q]) = Some (fs_next s)" unfolding r(3) using p by (simp add: planted_def)
  ultimately have "or_throw ''opening directory %s'' (open_beneath fd [last ?q] OpenDirectory) (l, k, ?t) = (Inr (fs_next s), (l, k, ?t))"
    using planted_dir(1,2) [OF p] by (intro open_beneath_dir)
  moreover have "\<not> (obj_fd d l \<noteq> None \<and> components p = [])" using assms by (auto simp: ready_def)
  ultimately show ?thesis
    using fd(1) mk by (simp add: RestoreSink_mkdir_def obj_dirFd_run run)
qed
definition restore_here :: "restore_env \<Rightarrow> restore_obj \<Rightarrow> CanonPath \<Rightarrow> fso option \<Rightarrow> restore \<Rightarrow> restore \<Rightarrow> bool" where
  "restore_here env d p x t0 t \<longleftrightarrow> ready env d p t0 \<and> canonical p \<and>
     (case x of
        None \<Rightarrow> t = t0
      | Some y \<Rightarrow> (case (t0, t) of ((l0, k0, s0), (l, k, s)) \<Rightarrow>
          k = k0 \<and> s = plant env (components p = []) (spot env d p t0) y s0 \<and>
          rs_deferred l = rs_deferred l0 @ deferred env (components p = []) (relToRoot d @ components p) y \<and>
          rs_dirFd l = (if components p = [] then case y of Directory _ \<Rightarrow> Some (fs_next s0) | _ \<Rightarrow> None else rs_dirFd l0)))"

definition restore_in_dir ::
  "restore_env \<Rightarrow> restore_obj \<Rightarrow> CanonPath \<Rightarrow> (string \<times> fso) list \<Rightarrow> restore \<Rightarrow> restore_obj \<Rightarrow> CanonPath \<Rightarrow> restore \<Rightarrow> bool" where
  "restore_in_dir env d p es t0 d' p' t \<longleftrightarrow> (case (t0, t) of ((l0, k0, s0), (l, k, s)) \<Rightarrow>
     ready env d p t0 \<and> canonical p \<and> file_ok (Directory es) \<and> k = k0 \<and>
     s = plants env (spot env d p t0) es (new_inode (spot env d p t0) (dir_node env (fs_now s0)) s0) \<and>
     rs_deferred l = rs_deferred l0 @ concat (map (\<lambda>(n, y). deferred env False (relToRoot d @ components p @ [n]) y) es) \<and>
     rs_dirFd l = (if components p = [] then Some (fs_next s0) else rs_dirFd l0) \<and>
     obj_fd d' l = Some (fs_next s0) \<and> relToRoot d' = relToRoot d @ components p \<and> components p' = [] \<and> canonical p')"

text \<open>The inode of a file that is open.\<close>

definition open_node :: "restore_env \<Rightarrow> int \<Rightarrow> bool \<Rightarrow> string \<Rightarrow> inode" where
  "open_node env now x c = blank_inode\<lparr>in_data := c, in_mtime := now,
     in_mode := (if re_canonical env then if x then 0x16d else masked env 0x124 else file_mode env x)\<rparr>"

definition on_disk :: "restore_env \<Rightarrow> fpath \<Rightarrow> bool \<Rightarrow> fsys \<Rightarrow> nat \<Rightarrow> fsys \<Rightarrow> string \<Rightarrow> bool" where
  "on_disk env q x s0 i s w \<longleftrightarrow> good s0 \<and> free_at s0 q \<and> i = fs_next s0 \<and> s = new_inode q (open_node env (fs_now s0) x w) s0"

definition restore_in_file ::
  "restore_env \<Rightarrow> restore_obj \<Rightarrow> CanonPath \<Rightarrow> bool \<Rightarrow> string \<Rightarrow> restore \<Rightarrow> nat \<Rightarrow> restore \<Rightarrow> bool" where
  "restore_in_file env d p x c t0 i t \<longleftrightarrow> (case (t0, t) of ((l0, k0, s0), (l, k, s)) \<Rightarrow>
     ready env d p t0 \<and> canonical p \<and> k = k0 \<and> rs_deferred l = rs_deferred l0 \<and> rs_dirFd l = rs_dirFd l0 \<and>
     (re_canonical env \<longrightarrow> rs_madeExecutable l = x) \<and>
     buffered_has (on_disk env (spot env d p t0) x s0 i) (rs_sink l, s) c)"

text \<open>Writing without failures appends.\<close>

lemma fd_write_quiet:
  assumes "fs_quiet s"
  shows "fd_write i data s = (Inr (), set_inode i (\<lambda>n. n\<lparr>in_data := in_data n @ data, in_mtime := fs_now s\<rparr>) s)"
proof -
  let ?k = "\<lparr> fd_bytes = in_data (fs_inodes s i), fd_off = 0, fd_seekable = True,
          fd_script = map (fd_outcome (length data)) (fs_faults s), fd_signals = fs_signals s \<rparr>"
  have "quiet ?k" using assms by (simp add: quiet_def fs_quiet_def)
  from writeFull_quiet [OF this, of data True] obtain k where k: "writeFull data True ?k = (Inr (), k)" "quiet k"
    by (cases "writeFull data True ?k") auto
  with writeFull_bytes [OF k(1)] have "fd_bytes k = in_data (fs_inodes s i) @ data" "fd_signals k = []"
    by (auto simp: quiet_def)
  moreover have "s\<lparr>fs_faults := [], fs_signals := []\<rparr> = s" using assms by (simp add: fs_quiet_def)
  ultimately show ?thesis
    using k(1) assms by (simp add: fd_write_def fs_quiet_def set_inode_def)
qed

interpretation restore_file: buffered_byte_sink "on_disk env q x s0 i" "fd_write i" for env q x s0 i
proof
  fix s w data assume h: "on_disk env q x s0 i s w"
  then have h': "good s0" "free_at s0 q" "i = fs_next s0" "s = new_inode q (open_node env (fs_now s0) x w) s0"
    by (simp_all add: on_disk_def)
  then have "fs_quiet s" by (simp add: good_def fs_quiet_def new_inode_sel)
  moreover have "set_inode i (\<lambda>n. n\<lparr>in_data := in_data n @ data, in_mtime := fs_now s\<rparr>) s =
      new_inode q (open_node env (fs_now s0) x (w @ data)) s0"
    using h' set_new_inode [of s0 q "\<lambda>n. n\<lparr>in_data := in_data n @ data, in_mtime := fs_now s\<rparr>" "open_node env (fs_now s0) x w"]
    by (simp add: good_def new_inode_sel open_node_def blank_inode_def)
  ultimately show "\<exists>s'. fd_write i data s = (Inr (), s') \<and> on_disk env q x s0 i s' (w @ data)"
    using h' by (simp add: fd_write_quiet on_disk_def)
qed

lemma sys_fd_inode_quiet: "fs_quiet s \<Longrightarrow> sysE msg (sys_fd_inode i f) s = (Inr (), set_inode i f s)"
  by (simp add: sysE_def sys_fd_inode_def sys_call_quiet fs_quiet_def)

text \<open>A directory is made ready for its entries.\<close>

lemma in_dir_planted:
  assumes "restore_in_dir env d p es (l0, k0, s0) d' p' (l, k, s)"
  shows "planted (spot env d p (l0, k0, s0)) (Directory es) s0 s"
proof -
  let ?q = "spot env d p (l0, k0, s0)"
  have h: "ready env d p (l0, k0, s0)" "file_ok (Directory es)"
    "s = plants env ?q es (new_inode ?q (dir_node env (fs_now s0)) s0)"
    using assms by (simp_all add: restore_in_dir_def)
  have "planted ?q (Directory ([] @ es)) s0 s"
    unfolding h(3) using ready_split [OF h(1)] h(2)
    by (intro plants_planted made_planted plant_planted) (auto simp: list_all_iff)
  then show ?thesis by simp
qed
lemma restore_mkdir:
  assumes "restore_here env d p None t0 t"
  shows "\<exists>d' p' t'. RestoreSink_createDirectory env d p t = (Inr (d', p'), t') \<and> restore_in_dir env d p [] t0 d' p' t'"
proof -
  obtain l k s where t: "t = (l, k, s)" "t0 = t" using assms by (cases t) (auto simp: restore_here_def)
  have h: "ready env d p (l, k, s)" "canonical p" using assms t by (simp_all add: restore_here_def)
  note r = ready_split [OF h(1)]
  let ?q = "spot env d p (l, k, s)" and ?u = "new_inode (spot env d p (l, k, s)) (dir_node env (fs_now s)) s"
  let ?l = "if obj_fd d l = None then l\<lparr>rs_dirFd := Some (fs_next s)\<rparr> else l"
  have root: "canonical cp_root" "components cp_root = []"
    using canonical_of_components [of "[]"] components_of_components [of "[]"] by (simp_all add: of_components_def cp_root_def)
  note made = made_planted [OF r(1,2), of env]
  show ?thesis
  proof (cases "components p = []")
    case True
    then have n: "obj_fd d l = None" using h(1) by (auto simp: ready_def split: option.splits)
    then have "d = RootSink" by (cases d) (simp_all add: obj_fd_def)
    with mkdir_quiet [OF h(1)] True n h t show ?thesis
      by (simp add: RestoreSink_createDirectory_def restore_in_dir_def obj_fd_def map_sorted_def)
  next
    case False
    then obtain fd pp n where fd: "obj_fd d l = Some fd" "dir_fd s fd pp" "components p = [n]"
      using h(1) by (auto simp: ready_def length_Suc_conv split: option.splits)
    have q: "?q = pp @ [n]" using fd by (simp add: spot_def dir_fd_def)
    have ext: "extends ?q s ?u" using made by (simp add: planted_def)
    have "dir_fd ?u fd pp" using r(1) by (intro extends_dir_fd [OF _ ext fd(2)]) (simp add: good_def)
    moreover have "dent ?u (pp @ [n]) = Some (fs_next s)" using made q by (simp add: planted_def)
    ultimately have "or_throw ''opening directory %s'' (open_beneath fd [n] OpenDirectory) (l, k, ?u) = (Inr (fs_next s), (l, k, ?u))"
      using planted_dir(1,2) [OF made] by (intro open_beneath_dir)
    with mkdir_quiet [OF h(1)] fd have "RestoreSink_createDirectory env d p (l, k, s) =
        (Inr (DirSink (fs_next s) (relToRoot d @ [n]), cp_root), (l, k, ?u))"
      by (simp add: RestoreSink_createDirectory_def run obj_dirFd_run)
    with t h fd(3) root show ?thesis by (simp add: restore_in_dir_def obj_fd_def map_sorted_def)
  qed
qed

lemma restore_child:
  assumes "restore_in_dir env d p es t0 d' p' t" "valid_component n" "\<forall>m\<in>fst ` set es. m < n"
  shows "\<exists>q. push p' n = Inr q \<and> canonical q \<and> components q = [n] \<and> restore_here env d' q None t t \<and>
    spot env d' q t = spot env d p t0 @ [n]"
proof -
  obtain l k s l0 k0 s0 where t: "t = (l, k, s)" "t0 = (l0, k0, s0)" by (metis prod.exhaust)
  have h: "obj_fd d' l = Some (fs_next s0)" "components p' = []" "canonical p'"
    using assms(1) by (simp_all add: restore_in_dir_def t)
  obtain q where q: "push p' n = Inr q" "canonical q" "components q = [n]"
    using canonical_push [OF h(3) assms(2)] h(2) by auto
  have p: "planted (spot env d p t0) (Directory es) s0 s" using in_dir_planted assms(1) by (simp add: t)
  note dir = planted_dir [OF p]
  have names: "fst ` set (children s (spot env d p t0)) = fst ` set es" "is_dir s (spot env d p t0)"
    using p by (simp_all add: planted_def)
  have "n \<notin> fst ` set es" using assms(3) by blast
  then have "dent s (spot env d p t0 @ [n]) = None"
    using names(1) names_dent [of n s "spot env d p t0"] by simp
  with dir h q names(2) have "restore_here env d' q None t t" "spot env d' q t = spot env d p t0 @ [n]"
    by (auto simp: restore_here_def ready_def spot_def t dir_fd_def free_at_def)
  with q show ?thesis by blast
qed

lemma restore_child_done:
  assumes dir: "restore_in_dir env d p es t0 d' p' t" "valid_component n" "\<forall>m\<in>fst ` set es. m < n"
    and q: "push p' n = Inr q" "file_ok y" "restore_here env d' q (Some y) t t'"
  shows "restore_in_dir env d p (es @ [(n, y)]) t0 d' p' t'"
proof -
  obtain l k s l0 k0 s0 l1 k1 s1 where t: "t = (l, k, s)" "t0 = (l0, k0, s0)" "t' = (l1, k1, s1)" by (metis prod.exhaust)
  from restore_child [OF dir] q(1) have c: "components q = [n]" "spot env d' q t = spot env d p t0 @ [n]" by auto
  have "file_ok (Directory (es @ [(n, y)]))"
    using dir q(2) by (auto simp: restore_in_dir_def t map_sorted_def sorted_wrt_append)
  moreover have "obj_fd d' l1 = obj_fd d' l" using q(3) c(1) by (cases d') (auto simp: restore_here_def t obj_fd_def)
  ultimately show ?thesis
    using dir(1) q(3) c by (simp add: restore_in_dir_def restore_here_def t)
qed

lemma deferred_Directory:
  "deferred env outer r (Directory es) =
     concat (map (\<lambda>(n, y). deferred env False (r @ [n]) y) es) @ (if re_canonical env \<and> re_defer env \<and> \<not> outer then [r] else [])"
  by (induction es) (auto simp: deferred_def)

lemma finished_run:
  assumes "fs_quiet s" "obj_fd d l = Some fd"
  shows "finishCanonical env d (l, k, s) =
    (Inr (), (if re_canonical env \<and> re_defer env then l\<lparr>rs_deferred := rs_deferred l @ [relToRoot d]\<rparr> else l, k,
      finished env False fd s))"
proof -
  have "fs_quiet (set_inode fd f s)" for f using assms(1) by (simp add: fs_quiet_def fs)
  then show ?thesis
    using assms by (simp add: finishCanonical_def obj_dirFd_run run on_fs_def sys_fd_inode_quiet finished_def set_inode_twice)
qed

lemma restore_close_dir:
  assumes "restore_in_dir env d p es t0 d' p' t"
  shows "\<exists>t'. RestoreSink_closeDirectory env d p d' t = (Inr (), t') \<and> restore_here env d p (Some (Directory es)) t0 t'"
proof -
  obtain l k s l0 k0 s0 where t: "t = (l, k, s)" "t0 = (l0, k0, s0)" by (metis prod.exhaust)
  have p: "planted (spot env d p t0) (Directory es) s0 s" using in_dir_planted assms by (simp add: t)
  then have "fs_quiet s" using planted_dir(2) by (simp add: good_def)
  with finished_run [of s d' l "fs_next s0" env k] assms show ?thesis
    by (simp add: RestoreSink_closeDirectory_def restore_in_dir_def restore_here_def t deferred_Directory finished_def)
qed
lemma restore_open_file:
  assumes "restore_here env d p None t0 t"
  shows "\<exists>i t'. RestoreSink_openRegular env d p t = (Inr i, t') \<and> restore_in_file env d p False [] t0 i t'"
proof -
  obtain l k s where t: "t = (l, k, s)" "t0 = t" using assms by (cases t) (auto simp: restore_here_def)
  have h: "ready env d p (l, k, s)" "canonical p" using assms t by (simp_all add: restore_here_def)
  note r = ready_split [OF h(1)]
  let ?q = "spot env d p (l, k, s)" and ?m = "masked env (if re_canonical env then 0x124 else 0x1b6)"
  obtain fd where fd: "getParentFdAndName env (obj_fd d l) (components p) (l, k, s) = (Inr (fd, last ?q), (l, k, s))"
    "dir_fd s fd (butlast ?q)"
    using getParent_quiet [OF h(1)] by blast
  have node: "blank_inode\<lparr>in_mode := ?m, in_mtime := fs_now s\<rparr> = open_node env (fs_now s) False []"
    by (simp add: open_node_def file_mode_def blank_inode_def)
  have "dent s (butlast ?q @ [last ?q]) = None" unfolding r(3) using r(2) by (simp add: free_at_def)
  then have "open_last False (CreateExcl ?m) (butlast ?q) (last ?q) s = (Inr (fs_next s), new_inode ?q (open_node env (fs_now s) False []) s)"
    unfolding open_last_def by (simp only: option.case open_flags.case r(3) node)
  then have "or_throw ''creating file %1%'' (open_beneath fd [last ?q] (CreateExcl ?m)) (l, k, s) =
      (Inr (fs_next s), (l, k, new_inode ?q (open_node env (fs_now s) False []) s))"
    using open_beneath_quiet [OF r(1) fd(2)] by (simp add: or_throw_def run opened_def)
  with fd(1) have "RestoreSink_openRegular env d p (l, k, s) = (Inr (fs_next s),
      (l\<lparr>rs_sink := BufferedSink_new (32 * 1024), rs_madeExecutable := False\<rparr>, k, new_inode ?q (open_node env (fs_now s) False []) s))"
    by (simp add: RestoreSink_openRegular_def run obj_dirFd_run)
  with t h r(1,2) show ?thesis
    by (simp add: restore_in_file_def buffered_has_def on_disk_def BufferedSink_new_def bufPos_def)
qed

text \<open>The metadata of the open file is set while some of its contents are in the buffer.\<close>

lemma on_disk_update:
  assumes "on_disk env q x s0 i s w"
  shows "fs_quiet s" "fs_inodes s i = open_node env (fs_now s0) x w"
    "set_inode i f s = new_inode q (f (open_node env (fs_now s0) x w)) s0"
proof -
  have h: "good s0" "free_at s0 q" "i = fs_next s0" "s = new_inode q (open_node env (fs_now s0) x w) s0"
    using assms by (simp_all add: on_disk_def)
  show "fs_quiet s" using h by (simp add: good_def fs_quiet_def new_inode_sel)
  have "fs_ok s0" using h(1) by (simp add: good_def)
  with h show "set_inode i f s = new_inode q (f (open_node env (fs_now s0) x w)) s0" "fs_inodes s i = open_node env (fs_now s0) x w"
    by (simp_all add: set_new_inode new_inode_nodes)
qed

lemma restore_executable:
  assumes "restore_in_file env d p x c t0 i t"
  shows "\<exists>t'. RestoreRegularFile_isExecutable env i t = (Inr (), t') \<and> restore_in_file env d p True c t0 i t'"
proof -
  obtain l k s l0 k0 s0 where t: "t = (l, k, s)" "t0 = (l0, k0, s0)" by (metis prod.exhaust)
  from assms obtain w where w: "on_disk env (spot env d p t0) x s0 i s w" "c = w @ buffer (rs_sink l)"
    "bufPos (rs_sink l) < bufSize (rs_sink l)"
    by (auto simp: restore_in_file_def buffered_has_def t)
  note u = on_disk_update [OF w(1)]
  let ?n = "open_node env (fs_now s0) x w"
  have "?n\<lparr>in_mode := (if re_canonical env then 0x16d else in_mode ?n OR 0x49)\<rparr> = open_node env (fs_now s0) True w"
    by (simp add: open_node_def file_mode_def or.assoc)
  then have s: "set_inode i (in_mode_update (\<lambda>_. if re_canonical env then 0x16d else in_mode ?n OR 0x49)) s =
      new_inode (spot env d p t0) (open_node env (fs_now s0) True w) s0"
    using u(3) by simp
  have st: "fd_stat i s = (Inr (stat_of s i), s)" "ps_mode (stat_of s i) = in_mode ?n"
    using u(1,2) by (simp_all add: fd_stat_def sysE_def sys_fstat_def sys_call_quiet fs_quiet_def stat_of_def Let_def)
  have "RestoreRegularFile_isExecutable env i t = (Inr (), (if re_canonical env then l\<lparr>rs_madeExecutable := True\<rparr> else l, k,
      new_inode (spot env d p t0) (open_node env (fs_now s0) True w) s0))"
    using s st sys_fd_inode_quiet [OF u(1)]
    by (cases "re_canonical env") (simp_all add: RestoreRegularFile_isExecutable_def run on_fs_def t)
  with assms w show ?thesis
    by (auto simp: restore_in_file_def buffered_has_def on_disk_def t)
qed

lemma restore_write:
  assumes "restore_in_file env d p x c t0 i t"
  shows "\<exists>t'. RestoreRegularFile_write i data t = (Inr (), t') \<and> restore_in_file env d p x (c @ data) t0 i t'"
proof -
  obtain l k s l0 k0 s0 where t: "t = (l, k, s)" "t0 = (l0, k0, s0)" by (metis prod.exhaust)
  from assms have "buffered_has (on_disk env (spot env d p t0) x s0 i) (rs_sink l, s) c"
    by (simp add: restore_in_file_def t)
  from restore_file.buffered.accepts [OF this, of data] obtain b s' where
    "BufferedSink (fd_write i) data (rs_sink l, s) = (Inr (), (b, s'))"
    "buffered_has (on_disk env (spot env d p t0) x s0 i) (b, s') (c @ data)"
    by auto
  with assms show ?thesis
    by (simp add: RestoreRegularFile_write_def on_sink_def restore_in_file_def t)
qed

lemma masked_canonical:
  assumes "umaskPreservesCanonicalModes env"
  shows "masked env 0x124 = 0x124"
proof -
  have disj: "a AND NOT u = a" if "a AND u = 0" for a u :: "32 word"
  proof (rule bit_word_eqI)
    fix n assume "n < LENGTH(32)"
    have "bit (a AND u) n = False" using that by simp
    then show "bit (a AND NOT u) n = bit a n" using \<open>n < LENGTH(32)\<close> by (auto simp: bit_simps)
  qed
  have "(0x124 :: 32 word) AND re_umask env = 0x124 AND (re_umask env AND 0x16d)"
  proof -
    have "(0x124 :: 32 word) = 0x124 AND 0x16d" by simp
    then show ?thesis by (metis and.assoc and.commute)
  qed
  with assms show ?thesis unfolding masked_def by (intro disj) (simp add: umaskPreservesCanonicalModes_def)
qed

lemma restore_close_file:
  assumes "restore_in_file env d p x c t0 i t"
  shows "\<exists>t'. RestoreSink_closeRegular env d p i t = (Inr (), t') \<and> restore_here env d p (Some (Regular x c)) t0 t'"
proof -
  obtain l k s l0 k0 s0 where t: "t = (l, k, s)" "t0 = (l0, k0, s0)" by (metis prod.exhaust)
  let ?q = "spot env d p t0"
  have h: "buffered_has (on_disk env ?q x s0 i) (rs_sink l, s) c" "ready env d p t0" "canonical p"
    "rs_deferred l = rs_deferred l0" "rs_dirFd l = rs_dirFd l0" "k = k0" "re_canonical env \<longrightarrow> rs_madeExecutable l = x"
    using assms by (simp_all add: restore_in_file_def t)
  obtain s1 where s1: "BufferedSink_flush (fd_write i) (rs_sink l, s) = (Inr (), (rs_sink l\<lparr>buffer := []\<rparr>, s1))"
    "on_disk env ?q x s0 i s1 c"
    using restore_file.flush_all [OF h(1)] by blast
  note u = on_disk_update [OF s1(2)]
  have flush: "on_sink (BufferedSink_flush (fd_write i)) (l, k, s) = (Inr (), (l\<lparr>rs_sink := rs_sink l\<lparr>buffer := []\<rparr>\<rparr>, k, s1))"
    using s1(1) by (simp add: on_sink_def)
  have "\<exists>l'. RestoreSink_closeRegular env d p i t = (Inr (), (l', k, new_inode ?q (file_node env (fs_now s0) x c) s0)) \<and>
      rs_deferred l' = rs_deferred l \<and> rs_dirFd l' = rs_dirFd l"
  proof (cases "re_canonical env")
    case True
    let ?s2 = "new_inode ?q (blank_inode\<lparr>in_data := c, in_mode := file_mode env x, in_mtime := fs_now s0\<rparr>) s0"
    have s2: "(if \<not> umaskPreservesCanonicalModes env \<and> \<not> x then set_inode i (in_mode_update (\<lambda>_. 0x124)) s1 else s1) = ?s2"
      using s1(2) u(3) True masked_canonical [of env] by (auto simp: on_disk_def open_node_def file_mode_def blank_inode_def)
    have ok: "fs_quiet ?s2" using s1(2) by (simp add: on_disk_def fs_quiet_def new_inode_sel good_def)
    have "set_inode i (in_mtime_update (\<lambda>_. canonicalTimes)) ?s2 = new_inode ?q (file_node env (fs_now s0) x c) s0"
      using s1(2) set_new_inode [of s0 ?q] True by (simp add: on_disk_def good_def file_node_def node_time_def)
    then have time: "on_fs (sysE ''setting mtime of %1%'' (sys_fd_inode i (in_mtime_update (\<lambda>_. canonicalTimes)))) (m, k, ?s2) =
        (Inr (), (m, k, new_inode ?q (file_node env (fs_now s0) x c) s0))" for m
      using sys_fd_inode_quiet [OF ok] by (simp add: on_fs_def)
    have mode: "bindM (getS (\<lambda>(l, _). rs_madeExecutable l)) (\<lambda>madeExecutable.
              if \<not> umaskPreservesCanonicalModes env \<and> \<not> madeExecutable
              then on_fs (sysE ''fchmod'' (sys_fd_inode i (in_mode_update (\<lambda>_. 0x124))))
              else ret ()) (m, k, s1) = (Inr (), (m, k, ?s2))" if "rs_madeExecutable m = x" for m
    proof (cases "\<not> umaskPreservesCanonicalModes env \<and> \<not> x")
      case chmod: True
      have "set_inode i (in_mode_update (\<lambda>_. 0x124)) s1 = ?s2" by (rule trans [OF if_P [OF chmod, symmetric] s2])
      with sys_fd_inode_quiet [OF u(1)] chmod that show ?thesis by (simp add: on_fs_def)
    next
      case False
      then have "s1 = ?s2" by (rule trans [OF if_not_P [symmetric] s2])
      with False that show ?thesis by (simp only: run_bindM run_getS prod.case sum.case if_False run_ret)
    qed
    have "RestoreSink_closeRegular env d p i (l, k, s) =
        (Inr (), (l\<lparr>rs_sink := rs_sink l\<lparr>buffer := []\<rparr>\<rparr>, k, new_inode ?q (file_node env (fs_now s0) x c) s0))"
    proof -
      have "rs_madeExecutable (l\<lparr>rs_sink := rs_sink l\<lparr>buffer := []\<rparr>\<rparr>) = x" using h(7) True by simp
      note mode = mode [OF this]
      show ?thesis
        unfolding RestoreSink_closeRegular_def if_P [OF True]
        by (simp only: run_seqM flush mode time prod.case sum.case)
    qed
    then show ?thesis by (simp add: t)
  next
    case False
    then have "s1 = new_inode ?q (file_node env (fs_now s0) x c) s0"
      using s1(2) by (simp add: on_disk_def open_node_def file_node_def node_time_def blank_inode_def)
    with False flush show ?thesis by (simp add: RestoreSink_closeRegular_def run t)
  qed
  moreover have "components p = [] \<Longrightarrow> rs_dirFd l0 = None"
    using h(2) by (cases d) (auto simp: ready_def t obj_fd_def split: option.splits)
  ultimately show ?thesis
    using h(2-6) by (auto simp: restore_here_def t deferred_def)
qed

lemma restore_symlink:
  assumes "restore_here env d p None t0 t" "CHR 0x00 \<notin> set g"
  shows "\<exists>t'. RestoreSink_createSymlink env d p g t = (Inr (), t') \<and> restore_here env d p (Some (Symlink g)) t0 t'"
proof -
  obtain l k s where t: "t = (l, k, s)" "t0 = t" using assms(1) by (cases t) (auto simp: restore_here_def)
  have h: "ready env d p (l, k, s)" "canonical p" using assms(1) t by (simp_all add: restore_here_def)
  note r = ready_split [OF h(1)]
  let ?q = "spot env d p (l, k, s)"
  let ?u = "new_inode ?q (blank_inode\<lparr>in_type := tSymlink, in_data := g, in_mode := 0x1ff, in_mtime := fs_now s\<rparr>) s"
  obtain fd where fd: "getParentFdAndName env (obj_fd d l) (components p) (l, k, s) = (Inr (fd, last ?q), (l, k, s))"
    "dir_fd s fd (butlast ?q)"
    using getParent_quiet [OF h(1)] by blast
  have mk: "sysE msg (at_path fd [last ?q] (sys_symlink g)) s = (Inr (), ?u)" for msg
    using r fd(2) by (simp add: sysE_def at_path_dir sys_symlink_def sys_create_quiet)
  have ok: "fs_ok s" using r(1) by (simp add: good_def)
  note new = extends_new_inode [OF r(1,2), of "blank_inode\<lparr>in_type := tSymlink, in_data := g, in_mode := 0x1ff, in_mtime := fs_now s\<rparr>"]
  have "dir_fd ?u fd (butlast ?q)" by (rule extends_dir_fd [OF ok new(1) fd(2)])
  moreover have "fs_faults ?u = []" using r(1) by (simp add: good_def fs_quiet_def new_inode_sel)
  ultimately have time: "sysE msg (at_path fd [last ?q] (\<lambda>p. sys_utimes p canonicalTimes)) ?u =
      (Inr (), set_inode (fs_next s) (in_mtime_update (\<lambda>_. canonicalTimes)) ?u)" for msg
    using new(2) r(3) by (simp add: sysE_def at_path_dir sys_utimes_def sys_inode_def sys_call_quiet)
  have "RestoreSink_createSymlink env d p g (l, k, s) = (Inr (), (l, k, new_inode ?q (link_node env (fs_now s) g) s))"
    using fd(1) mk time assms(2) set_new_inode [OF ok r(2)]
    by (simp add: RestoreSink_createSymlink_def obj_dirFd_run run on_fs_def requireCString_def link_node_def node_time_def)
  moreover have "components p = [] \<Longrightarrow> rs_dirFd l = None"
    using h(1) by (cases d) (auto simp: ready_def obj_fd_def split: option.splits)
  ultimately show ?thesis
    using h by (auto simp: restore_here_def t deferred_def)
qed

lemma RestoreSink_sel:
  "createDirectory (RestoreSink env) = RestoreSink_createDirectory env" "closeDirectory (RestoreSink env) = RestoreSink_closeDirectory env"
  "openRegular (RestoreSink env) = RestoreSink_openRegular env" "crf_isExecutable (RestoreSink env) = RestoreRegularFile_isExecutable env"
  "crf_preallocate (RestoreSink env) i len t = (Inr (), t)" "crf_skipContents (RestoreSink env) i = False"
  "crf_write (RestoreSink env) = RestoreRegularFile_write" "closeRegular (RestoreSink env) = RestoreSink_closeRegular env"
  "fso_sink.createSymlink (RestoreSink env) = RestoreSink_createSymlink env"
  by (simp_all add: RestoreSink_def RestoreRegularFile_preallocate_def restoreSinkSettings_preallocateContents_def)

interpretation restore_sink: tree_sink "RestoreSink env" "restore_here env" "restore_in_dir env" "restore_in_file env" for env
proof (unfold_locales, goal_cases)
  case (2 d p es t0 d' p' t n)
  from restore_child [OF this] show ?case by auto
next
  case (3 d p es t0 d' p' t n q y t')
  then show ?case by (intro restore_child_done)
qed (simp_all only: RestoreSink_sel not_False_eq_True,
     (rule restore_mkdir restore_close_dir restore_open_file restore_executable restore_write restore_close_file restore_symlink
       exI conjI refl | assumption)+)
subsection \<open>Canonical metadata\<close>

text \<open>The last entry of a directory is planted next to the others.\<close>

lemma plants_last:
  fixes env :: restore_env
  assumes "good s" "free_at s q" "file_ok (Directory (es @ [(n, y)]))"
  defines "t \<equiv> plants env q es (new_inode q (dir_node env (fs_now s)) s)"
  shows "planted q (Directory es) s t" "planted (q @ [n]) y t (plant env False (q @ [n]) y t)"
    "good t" "free_at t (q @ [n])"
proof -
  have "planted q (Directory ([] @ es)) s t"
    unfolding t_def using assms(1-3)
    by (intro plants_planted made_planted plant_planted) (auto simp: list_all_iff map_sorted_def sorted_wrt_append)
  then show p: "planted q (Directory es) s t" by simp
  have "n \<notin> fst ` set es" using assms(3) by (auto simp: map_sorted_def sorted_wrt_append)
  then show "free_at t (q @ [n])" using p names_dent [of n t q] by (simp add: planted_def free_at_def)
  moreover show "good t" by (rule planted_dir(2) [OF p])
  ultimately show "planted (q @ [n]) y t (plant env False (q @ [n]) y t)"
    using assms(3) by (intro plant_planted) simp_all
qed

definition canonical_from :: "nat \<Rightarrow> fsys \<Rightarrow> bool" where
  "canonical_from a s \<longleftrightarrow> (\<forall>i. a \<le> i \<and> i < fs_next s \<longrightarrow> canon_node 0 [] (fs_inodes s i) = fs_inodes s i \<and>
     in_type (fs_inodes s i) \<in> {tRegular, tDirectory, tSymlink})"

definition is_Directory :: "fso \<Rightarrow> bool" where
  "is_Directory x = (case x of Directory _ \<Rightarrow> True | _ \<Rightarrow> False)"

lemma plant_next: "good s \<Longrightarrow> free_at s q \<Longrightarrow> file_ok x \<Longrightarrow> fs_next s < fs_next (plant env outer q x s)"
  using plant_planted [of s q x env outer] dent_less [of "plant env outer q x s" q "fs_next s"]
  by (simp add: planted_def extends_def good_def)

lemma plant_canonical:
  assumes "re_canonical env" "\<not> re_defer env"
  shows "good s \<Longrightarrow> free_at s q \<Longrightarrow> file_ok x \<Longrightarrow>
    canonical_from (if outer \<and> is_Directory x then Suc (fs_next s) else fs_next s) (plant env outer q x s)"
proof (induction x arbitrary: s q outer)
  case (Regular x c)
  then have "fs_ok s" by (simp add: good_def)
  with Regular assms(1) show ?case
    by (auto simp: canonical_from_def new_inode_sel new_inode_nodes is_Directory_def canon_node_def file_node_def file_mode_def
        node_time_def canonicalTimes_def mtimeStore_def blank_inode_def less_Suc_eq)
next
  case (Symlink g)
  then have "fs_ok s" by (simp add: good_def)
  with Symlink assms(1) show ?case
    by (auto simp: canonical_from_def new_inode_sel new_inode_nodes is_Directory_def canon_node_def link_node_def
        node_time_def canonicalTimes_def mtimeStore_def blank_inode_def less_Suc_eq)
next
  case (Directory es)
  let ?t = "\<lambda>es. plants env q es (new_inode q (dir_node env (fs_now s)) s)"
  let ?P = "\<lambda>u. canonical_from (Suc (fs_next s)) u \<and> in_uid (fs_inodes u (fs_next s)) = 0 \<and> in_xattrs (fs_inodes u (fs_next s)) = [] \<and>
      in_type (fs_inodes u (fs_next s)) = tDirectory"
  have ok: "fs_ok s" using Directory.prems(1) by (simp add: good_def)
  have sub: "canonical_from (fs_next t) (plant env False r y t)"
    if "(n, y) \<in> set es" "good t" "free_at t r" "file_ok y" for n y t r
    using Directory.IH [OF that(1), of y t r False] that(2-4) by simp
  have "?P (?t es)"
    using Directory.prems(3) sub
  proof (induction es rule: rev_induct)
    case Nil
    then show ?case using ok Directory.prems(2)
      by (auto simp: canonical_from_def new_inode_sel new_inode_nodes dir_node_def blank_inode_def)
  next
    case (snoc e es)
    obtain n y where e: "e = (n, y)" by (cases e)
    note p = plants_last [OF Directory.prems(1,2) snoc.prems(1) [unfolded e], of env]
    let ?u = "plant env False (q @ [n]) y (?t es)"
    have "file_ok (Directory es)" using snoc.prems(1) by (simp add: map_sorted_def sorted_wrt_append)
    then have IH: "?P (?t es)" by (rule snoc.IH) (rule snoc.prems(2), auto)
    have sub: "canonical_from (fs_next (?t es)) ?u"
      using snoc.prems(1) by (intro snoc.prems(2) [of n] p(3,4)) (simp_all add: e)
    have d: "dent (?t es) q = Some (fs_next s)" using p(1) by (simp add: planted_def)
    then have less: "fs_next s < fs_next (?t es)" using p(3) dent_less [of "?t es"] by (simp add: good_def)
    have old: "fs_inodes ?u i = (if i = fs_next s then (fs_inodes (?t es) i)\<lparr>in_mtime := fs_now (?t es)\<rparr> else fs_inodes (?t es) i)"
      if "i < fs_next (?t es)" for i
      using p(2) d that by (simp add: planted_def extends_def)
    have "canon_node 0 [] (fs_inodes ?u i) = fs_inodes ?u i \<and> in_type (fs_inodes ?u i) \<in> {tRegular, tDirectory, tSymlink}" if "Suc (fs_next s) \<le> i" "i < fs_next ?u" for i
    proof (cases "i < fs_next (?t es)")
      case True
      with old [OF True] that IH show ?thesis by (simp add: canonical_from_def)
    next
      case False
      with sub that show ?thesis by (simp add: canonical_from_def)
    qed
    then show ?case using old [OF less] IH by (simp add: e canonical_from_def)
  qed
  then have u: "?P (?t es)" .
  show ?case
  proof (cases outer)
    case True
    then show ?thesis using u by (simp add: is_Directory_def finished_def)
  next
    case False
    have "canon_node 0 [] (fs_inodes (plant env False q (Directory es) s) i) = fs_inodes (plant env False q (Directory es) s) i \<and>
        in_type (fs_inodes (plant env False q (Directory es) s) i) \<in> {tRegular, tDirectory, tSymlink}"
      if "fs_next s \<le> i" "i < fs_next (plant env False q (Directory es) s)" for i
      using u that assms
      by (cases "i = fs_next s")
         (simp_all add: finished_def fs canonical_from_def canon_node_def canonicalTimes_def mtimeStore_def)
    with False show ?thesis by (simp add: canonical_from_def)
  qed
qed
subsection \<open>Restoring a NAR\<close>

interpretation string_to_disk: nar_reader string_pending "''end of string reached''" string_ops "RestoreSink env"
  "restore_here env" "restore_in_dir env" "restore_in_file env" for env
  by (rule nar_reader.intro)
     (simp_all add: string_ops_def string_source.byte_source_axioms restore_sink.tree_sink_axioms)

text \<open>A destination that is free.\<close>

definition dst_ok :: "restore_env \<Rightarrow> fsys \<Rightarrow> bool" where
  "dst_ok env s \<longleftrightarrow> good s \<and> free_at s (re_dst env) \<and> last (re_dst env) \<noteq> ''.'' \<and> last (re_dst env) \<noteq> ''..''"

lemma root_path: "canonical cp_root" "components cp_root = []"
  using canonical_of_components [of "[]"] components_of_components [of "[]"] by (simp_all add: of_components_def cp_root_def)

lemma dst_here: "dst_ok env s \<Longrightarrow> restore_here env RootSink cp_root None (restore_new, k, s) (restore_new, k, s)"
  by (simp add: dst_ok_def restore_here_def ready_def spot_def obj_fd_def restore_new_def root_path)

lemma restored:
  assumes "dst_ok env s" "nar_ok 0 x" "length (nar x) \<le> fuel" "string_pending src (nar x @ q)"
  shows "\<exists>s' l. restorePath fuel env string_ops (src, l0, k, s) = (Inr (), (s', l, k, plant env True (re_dst env) x s)) \<and>
    string_pending s' q \<and> rs_deferred l = deferred env True [] x \<and>
    rs_dirFd l = (case x of Directory _ \<Rightarrow> Some (fs_next s) | _ \<Rightarrow> None)"
proof -
  have "length (nar_node x) \<le> fuel" using assms(3) by (simp add: nar_def)
  from string_to_disk.succeeds_parseDump [OF assms(4) dst_here [OF assms(1)] assms(2) this, of k]
  obtain s' l k' u where "parseDump fuel (RestoreSink env) string_ops RootSink (src, restore_new, k, s) = (Inr (), (s', l, k', u))"
    "string_pending s' q" "restore_here env RootSink cp_root (Some x) (restore_new, k, s) (l, k', u)"
    by (auto simp: succeeds_def)
  then show ?thesis
    by (auto simp: restorePath_def restore_here_def root_path spot_def obj_fd_def run) (simp_all add: restore_new_def)
qed

text \<open>
  C35.  Restoring a NAR to a free destination returns, consumes exactly the NAR, and leaves exactly its
  tree at the destination: types, contents, executable bits, targets and names.  No other entry is
  added or removed, and of the inodes that were there only the time of the destination's
  directory changes.
\<close>

theorem restorePath_exact:
  assumes "dst_ok env s" "nar_ok 0 x" "length (nar x) \<le> fuel"
  shows "\<exists>s' l u. restorePath fuel env string_ops (\<lparr> str_src = nar x @ q, str_pos = 0 \<rparr>, l0, k, s) = (Inr (), (s', l, k, u)) \<and>
    string_pending s' q \<and> reads u (re_dst env) x \<and> fs_ok u \<and> dirs_single u \<and>
    (\<forall>r. \<not> prefix (re_dst env) r \<longrightarrow> dent u r = dent s r) \<and>
    (\<forall>i < fs_next s. fs_inodes u i =
      (if dent s (butlast (re_dst env)) = Some i then (fs_inodes s i)\<lparr>in_mtime := fs_now s\<rparr> else fs_inodes s i))"
proof -
  let ?u = "plant env True (re_dst env) x s"
  have "string_pending \<lparr> str_src = nar x @ q, str_pos = 0 \<rparr> (nar x @ q)" by (simp add: string_pending_def)
  from restored [OF assms this, of l0 k] obtain s' l where
    r: "restorePath fuel env string_ops (\<lparr> str_src = nar x @ q, str_pos = 0 \<rparr>, l0, k, s) = (Inr (), (s', l, k, ?u))" "string_pending s' q"
    by blast
  have p: "planted (re_dst env) x s ?u"
    using assms(1,2) by (intro plant_planted) (simp_all add: dst_ok_def nar_ok_file_ok)
  then have "fs_ok ?u" "dirs_single ?u" "reads ?u (re_dst env) x" by (simp_all add: planted_def extends_def good_def)
  moreover have "\<forall>r. \<not> prefix (re_dst env) r \<longrightarrow> dent ?u r = dent s r"
    using p extends_dent(2) by (auto simp: planted_def)
  moreover have "\<forall>i < fs_next s. fs_inodes ?u i =
      (if dent s (butlast (re_dst env)) = Some i then (fs_inodes s i)\<lparr>in_mtime := fs_now s\<rparr> else fs_inodes s i)"
    using p unfolding planted_def extends_def by blast
  ultimately show ?thesis using r by blast
qed

lemma planted_inos:
  assumes "good s" "free_at s q" "planted q x s u" "i \<in> inos q u"
  shows "fs_next s \<le> i" "i < fs_next u"
proof -
  obtain r where r: "(r, i) \<in> set (fs_dents u)" "prefix q r" using assms(4) by (auto simp: inos_def)
  obtain ds where ds: "fs_dents u = fs_dents s @ ds" "\<And>r i. (r, i) \<in> set ds \<Longrightarrow> prefix q r \<and> fs_next s \<le> i"
    using assms(3) extendsE [of q s u] by (auto simp: planted_def)
  have "(r, i) \<notin> set (fs_dents s)"
  proof
    assume old: "(r, i) \<in> set (fs_dents s)"
    obtain z where "r = q @ z" using r(2) by (auto simp: prefix_def)
    then have "q \<in> fst ` set (fs_dents s)"
    proof (cases z)
      case Nil
      then show ?thesis using old \<open>r = q @ z\<close> by force
    next
      case (Cons n z')
      have "is_dir s q" using assms(1) old \<open>r = q @ z\<close> Cons by (intro ancestor_dir [of s q n z' i]) (simp_all add: good_def)
      then show ?thesis by (metis dent_none is_dir_dent option.distinct(1))
    qed
    then show False using assms(2) by (simp add: free_at_def dent_none)
  qed
  with r ds show "fs_next s \<le> i" by auto
  show "i < fs_next u" using assms(3) r(1) by (auto simp: planted_def extends_def good_def fs_ok_def)
qed

text \<open>
  C36.  A canonical restore makes the walk that canonicalises metadata redundant: after it, the walk over
  the restored tree returns, and the only inode whose metadata it changes is that of the
  topmost directory, which the sink leaves to its owner.
\<close>

theorem restore_canonical:
  assumes "dst_ok env s" "nar_ok 0 x" "length (nar x) \<le> fuel" "re_canonical env" "\<not> re_defer env"
  shows "\<exists>s' l u v. restorePath fuel env string_ops (\<lparr> str_src = nar x @ q, str_pos = 0 \<rparr>, l0, k, s) = (Inr (), (s', l, k, u)) \<and>
    canonicalisePathMetaData 0 None [] (re_dst env) u = (Inr (), v) \<and> fs_dents v = fs_dents u \<and>
    (\<forall>i. fs_inodes v i \<noteq> fs_inodes u i \<longrightarrow> dent u (re_dst env) = Some i \<and> is_dir u (re_dst env))"
proof -
  let ?d = "re_dst env" and ?u = "plant env True (re_dst env) x s"
  have "string_pending \<lparr> str_src = nar x @ q, str_pos = 0 \<rparr> (nar x @ q)" by (simp add: string_pending_def)
  from restored [OF assms(1-3) this, of l0 k] obtain s' l where
    r: "restorePath fuel env string_ops (\<lparr> str_src = nar x @ q, str_pos = 0 \<rparr>, l0, k, s) = (Inr (), (s', l, k, ?u))" by blast
  have h: "good s" "free_at s ?d" "file_ok x" using assms(1,2) by (simp_all add: dst_ok_def nar_ok_file_ok)
  have p: "planted ?d x s ?u" using h by (rule plant_planted)
  have d: "dent ?u ?d = Some (fs_next s)" "good ?u" using p by (simp_all add: planted_def extends_def)
  have c: "canonical_from (if is_Directory x then Suc (fs_next s) else fs_next s) ?u"
    using plant_canonical [OF assms(4,5) h, of True] by simp
  have dir: "in_type (fs_inodes ?u (fs_next s)) = tDirectory \<and> is_dir ?u ?d" if "is_Directory x"
    using that p by (cases x) (auto simp: is_Directory_def planted_def is_dir_dent)
  have node: "in_type (fs_inodes ?u i) \<in> {tRegular, tDirectory, tSymlink} \<and>
      (canon_node 0 [] (fs_inodes ?u i) = fs_inodes ?u i \<or> i = fs_next s \<and> is_dir ?u ?d)" if "i \<in> inos ?d ?u" for i
  proof (cases "is_Directory x \<and> i = fs_next s")
    case True
    with dir show ?thesis by simp
  next
    case False
    with c planted_inos [OF h(1,2) p that] show ?thesis by (auto simp: canonical_from_def split: if_splits)
  qed
  have "supported ?d ?u" unfolding supported_def using node by blast
  moreover have "deep (tree_fuel ?u) ?d ?u"
    using deep_tree_fuel [of ?u ?d] by (fastforce simp: deep_def tree_fuel_def)
  ultimately obtain v seen where
    "canonicalisePathMetaData_walk (tree_fuel ?u) 0 None [] ?d (?u, []) = (Inr (), (v, seen))" "canonised 0 [] (inos ?d ?u) ?u v"
    using canonicalise_walk [of ?u "tree_fuel ?u" ?d 0 "[]" "[]"] d by (auto simp: good_def)
  then have v: "canonicalisePathMetaData 0 None [] ?d ?u = (Inr (), v)" "fs_dents v = fs_dents ?u"
    "\<And>i. fs_inodes v i = (if i \<in> inos ?d ?u then canon_node 0 [] (fs_inodes ?u i) else fs_inodes ?u i)"
    by (auto simp: canonicalisePathMetaData_def canonised_def)
  then have "\<forall>i. fs_inodes v i \<noteq> fs_inodes ?u i \<longrightarrow> dent ?u ?d = Some i \<and> is_dir ?u ?d"
    using node d(1) by (auto split: if_splits)
  with r v(1,2) show ?thesis by blast
qed

definition example_restore :: restore_env where
  "example_restore = \<lparr> re_dst = [''s'', ''c''], re_canonical = True, re_umask = 0x12, re_defer = False \<rparr>"

definition example_tree :: fso where
  "example_tree = Directory [(''f'', Regular True ''x'')]"

lemma example_restore_ok: "dst_ok example_restore example_fs" "nar_ok 0 example_tree" "length (nar example_tree) \<le> 1000"
  using example_fs_ok example_fs_dirs
  by (simp_all add: dst_ok_def good_def free_at_def example_restore_def dent_def example_fs_def is_dir_def example_dir_def
      example_tree_def map_sorted_def valid_component_def good_component_def nar_def wires_def wire_def padding_def narVersionMagic1_def)

theorem restorePath_exact_witness:
  "\<exists>s' l u. restorePath 1000 example_restore string_ops (\<lparr> str_src = nar example_tree @ [], str_pos = 0 \<rparr>, restore_new, \<lparr>no_openat2 = True, no_fchmodat2 = True, no_proc = True\<rparr>, example_fs) = (Inr (), (s', l, \<lparr>no_openat2 = True, no_fchmodat2 = True, no_proc = True\<rparr>, u)) \<and>
    reads u [''s'', ''c''] example_tree \<and> dent u [''s'', ''b''] = Some 3"
proof -
  have b: "dent example_fs [''s'', ''b''] = Some 3" "re_dst example_restore = [''s'', ''c'']" "\<not> prefix [''s'', ''c''] [''s'', ''b'']"
    by (simp_all add: dent_def example_fs_def example_restore_def)
  obtain s' l u where u: "restorePath 1000 example_restore string_ops (\<lparr> str_src = nar example_tree @ [], str_pos = 0 \<rparr>, restore_new, \<lparr>no_openat2 = True, no_fchmodat2 = True, no_proc = True\<rparr>, example_fs) = (Inr (), (s', l, \<lparr>no_openat2 = True, no_fchmodat2 = True, no_proc = True\<rparr>, u))"
    "reads u (re_dst example_restore) example_tree" "\<forall>r. \<not> prefix (re_dst example_restore) r \<longrightarrow> dent u r = dent example_fs r"
    using restorePath_exact [OF example_restore_ok, of "[]" restore_new "\<lparr>no_openat2 = True, no_fchmodat2 = True, no_proc = True\<rparr>"] by blast
  with b have "reads u [''s'', ''c''] example_tree" "dent u [''s'', ''b''] = Some 3" by (simp_all only: simp_thms)
  with u(1) show ?thesis by blast
qed

theorem restore_canonical_witness:
  "\<exists>s' l u v. restorePath 1000 example_restore string_ops (\<lparr> str_src = nar example_tree @ [], str_pos = 0 \<rparr>, restore_new, \<lparr>no_openat2 = True, no_fchmodat2 = True, no_proc = True\<rparr>, example_fs) = (Inr (), (s', l, \<lparr>no_openat2 = True, no_fchmodat2 = True, no_proc = True\<rparr>, u)) \<and>
    canonicalisePathMetaData 0 None [] [''s'', ''c''] u = (Inr (), v)"
proof -
  have "re_canonical example_restore" "\<not> re_defer example_restore" "re_dst example_restore = [''s'', ''c'']"
    by (simp_all add: example_restore_def)
  with restore_canonical [OF example_restore_ok, of "[]" restore_new "\<lparr>no_openat2 = True, no_fchmodat2 = True, no_proc = True\<rparr>"] show ?thesis by (simp only: simp_thms) blast
qed

end
