(* ===== verification/PosixAccessor.thy ===== *)
theory PosixAccessor
  imports RestoreSink LruCache
begin

text \<open>
  The accessor of files on disk (\<open>libutil/posix-source-accessor.cc\<close>).

  A directory accessor has the descriptor of its root and, when it is made for a whole tree, a cache
  of the descriptors of the directories below it.  The caches of all accessors share one count of
  descriptors, and an accessor that needs room clears whole caches in the order in which the
  accessors were registered.  A directory is named by its components from the accessor's root; a
  descriptor is the inode it is open on.  An accessor that is gone has no entry in \<open>pg_caches\<close>;
  \<open>pg_next\<close> is the number of the next one.
\<close>

subsection \<open>State\<close>

type_synonym dir_cache = "(string list, nat) lru_cache"

record posix_globals =
  pg_caches :: "nat \<Rightarrow> dir_cache option option"
  globalDirFdCacheRegistry :: "nat list"
  globalDirFdCount :: "32 word"
  pg_next :: nat
  pg_limit :: nat

text \<open>\<open>da_id\<close> finds the accessor's cache.\<close>

record dir_accessor =
  da_id :: nat
  da_dirFd :: nat

type_synonym posix = "posix_globals \<times> at_state"

definition dirFdCache :: "nat \<Rightarrow> posix_globals \<Rightarrow> dir_cache option" where
  "dirFdCache a g = (case pg_caches g a of Some (Some c) \<Rightarrow> Some c | _ \<Rightarrow> None)"

definition set_cache :: "nat \<Rightarrow> dir_cache \<Rightarrow> posix_globals \<Rightarrow> posix_globals" where
  "set_cache a c g = g\<lparr>pg_caches := (pg_caches g)(a \<mapsto> Some c)\<rparr>"

definition getGlobalDirFdCacheLimit :: "nat \<Rightarrow> nat" where
  "getGlobalDirFdCacheLimit rlim_cur = min 4096 (rlim_cur div 8)"

definition on_fsys :: "(fsys, 'a) M \<Rightarrow> (posix, 'a) M" where
  "on_fsys m = onR (onR m)"

subsection \<open>The caches\<close>

definition registerAccessor :: "nat \<Rightarrow> posix_globals \<Rightarrow> posix_globals" where
  "registerAccessor a g =
     g\<lparr>globalDirFdCacheRegistry := filter (\<lambda>x. pg_caches g x \<noteq> None) (globalDirFdCacheRegistry g) @ [a]\<rparr>"

definition clear_cache :: "nat \<Rightarrow> posix_globals \<Rightarrow> posix_globals" where
  "clear_cache a g =
     (case dirFdCache a g of
        None \<Rightarrow> g
      | Some c \<Rightarrow> set_cache a (lru_clear c) (g\<lparr>globalDirFdCount := globalDirFdCount g - word_of_nat (lru_size c)\<rparr>))"

text \<open>The accessors from \<open>it\<close> on are visited; the ones that are gone are dropped from the registry.\<close>

fun evict_loop :: "nat list \<Rightarrow> nat list \<Rightarrow> posix_globals \<Rightarrow> posix_globals" where
  "evict_loop kept [] g = g\<lparr>globalDirFdCacheRegistry := kept\<rparr>"
| "evict_loop kept (it # its) g =
     (if unat (globalDirFdCount g) < pg_limit g then g\<lparr>globalDirFdCacheRegistry := kept @ it # its\<rparr>
      else if pg_caches g it = None then evict_loop kept its g
      else evict_loop (kept @ [it]) its (clear_cache it g))"

definition maybeEvictFromGlobalCaches :: "posix_globals \<Rightarrow> posix_globals" where
  "maybeEvictFromGlobalCaches g =
     (if unat (globalDirFdCount g) < pg_limit g then g else evict_loop [] (globalDirFdCacheRegistry g) g)"

definition insertIntoDirFdCache :: "nat \<Rightarrow> string list \<Rightarrow> nat \<Rightarrow> (posix_globals, unit) M" where
  "insertIntoDirFdCache a key fd = bindM (getS (dirFdCache a)) (\<lambda>c.
     case c of
       None \<Rightarrow> throw (Abort ''dirFdCache'')
     | Some c \<Rightarrow>
         let c' = lru_upsert key fd c in
         modS (\<lambda>g. set_cache a c' (g\<lparr>globalDirFdCount := globalDirFdCount g + word_of_nat (lru_size c') - word_of_nat (lru_size c)\<rparr>)))"

text \<open>The constructor, with the size of the cache, and the destructor.\<close>

definition PosixDirectorySourceAccessor :: "nat \<Rightarrow> nat \<Rightarrow> (posix_globals, dir_accessor) M" where
  "PosixDirectorySourceAccessor fd dirFdCacheSize = bindM (getS pg_next) (\<lambda>a.
     seqM (modS (\<lambda>g. g\<lparr>pg_caches := (pg_caches g)(a \<mapsto> if dirFdCacheSize \<noteq> 0 then Some (lru_new dirFdCacheSize) else None),
                        pg_next := Suc a\<rparr>))
       (ret \<lparr> da_id = a, da_dirFd = fd \<rparr>))"

definition invalidateCache :: "dir_accessor \<Rightarrow> (posix_globals, unit) M" where
  "invalidateCache a = modS (clear_cache (da_id a))"

definition PosixDirectory_destroy :: "dir_accessor \<Rightarrow> (posix_globals, unit) M" where
  "PosixDirectory_destroy a =
     seqM (invalidateCache a) (modS (\<lambda>g. g\<lparr>pg_caches := (pg_caches g)(da_id a := None)\<rparr>))"

subsection \<open>Directories\<close>

text \<open>The deepest cached directory on the way to the parent.\<close>

function find_anchor :: "string list \<Rightarrow> dir_cache \<Rightarrow> (string list \<times> nat) option \<times> dir_cache" where
  "find_anchor p c =
     (case lru_get p c of
        (Some fd, c) \<Rightarrow> (Some (p, fd), c)
      | (None, c) \<Rightarrow> if p = [] then (None, c) else find_anchor (butlast p) c)"
  by pat_completeness auto
termination
  by (relation "measure (\<lambda>(p, _). length p)") auto

declare find_anchor.simps [simp del]

definition lookup_anchor :: "nat \<Rightarrow> string list \<Rightarrow> (posix_globals, (string list \<times> nat) option) M" where
  "lookup_anchor a p = bindM (getS (dirFdCache a)) (\<lambda>c.
     case c of
       None \<Rightarrow> ret None
     | Some c \<Rightarrow> (case find_anchor p c of (r, c) \<Rightarrow> seqM (modS (set_cache a c)) (ret r)))"

definition makeDirFdCallback :: "dir_accessor \<Rightarrow> bool \<Rightarrow> string list \<Rightarrow> string list \<Rightarrow> nat \<Rightarrow> (posix_globals, unit) M" where
  "makeDirFdCallback a cached anchor relKey fd =
     (if cached then insertIntoDirFdCache (da_id a) (anchor @ relKey) fd else ret ())"

definition rethrow_symlink :: "string \<Rightarrow> ('s, 'a) M \<Rightarrow> ('s, 'a) M" where
  "rethrow_symlink msg m = catchM m (\<lambda>e. case e of SymlinkNotAllowed _ \<Rightarrow> throw (SymlinkNotAllowed msg) | _ \<Rightarrow> throw e)"

text \<open>The parent's descriptor, and whether it is one to be cached.\<close>

definition openParent :: "dir_accessor \<Rightarrow> string list \<Rightarrow> (posix, errno + (nat \<times> bool)) M" where
  "openParent a path =
     (if path = [] then throw (Abort ''!path.isRoot()'')
      else
        let parent = butlast path in
        if parent = [] then ret (Inr (da_dirFd a, False))
        else
          seqM (onL (modS maybeEvictFromGlobalCaches))
            (bindM (onL (getS (\<lambda>g. dirFdCache (da_id a) g \<noteq> None))) (\<lambda>cached.
             bindM (onL (lookup_anchor (da_id a) parent)) (\<lambda>hit.
               if (case hit of None \<Rightarrow> False | Some (p, _) \<Rightarrow> p = parent)
               then ret (Inr (snd (the hit), True))
               else
                 let (anchor, startFd) = (case hit of None \<Rightarrow> ([], da_dirFd a) | Some (p, fd) \<Rightarrow> (p, fd)) in
                 rethrow_symlink ''path %s (or its ancestor) is a symlink''
                   (bindM (openFileEnsureBeneathNoSymlinks (makeDirFdCallback a cached anchor) startFd
                        (drop (length anchor) parent) OpenDirectory) (\<lambda>r.
                      ret (map_sum id (\<lambda>fd. (fd, True)) r)))))))"

definition openParentAndUpsert :: "dir_accessor \<Rightarrow> string list \<Rightarrow> bool \<Rightarrow> (posix, nat option) M" where
  "openParentAndUpsert a path ignoreMissing =
     bindM (openParent a path) (\<lambda>r.
       case r of
         Inl e \<Rightarrow>
           if e = ENOENT \<or> e = ENOTDIR
           then if ignoreMissing then ret None else throw (FileNotFound ''path %s does not exist'')
           else throw (SysError e ''opening directory %1%'')
       | Inr (fd, owning) \<Rightarrow>
           bindM (onL (getS (\<lambda>g. dirFdCache (da_id a) g \<noteq> None))) (\<lambda>cached.
           seqM (if cached \<and> owning then onL (insertIntoDirFdCache (da_id a) (butlast path) fd) else ret ())
             (ret (Some fd))))"

text \<open>The parent must be there.\<close>

definition parent_of :: "dir_accessor \<Rightarrow> string list \<Rightarrow> (posix, nat) M" where
  "parent_of a path = bindM (openParentAndUpsert a path False) (\<lambda>fd.
     case fd of Some fd \<Rightarrow> ret fd | None \<Rightarrow> throw (Abort ''parentFd''))"

text \<open>The last component, below the parent's descriptor; without a callback.\<close>

definition open_last_component :: "nat \<Rightarrow> string \<Rightarrow> open_flags \<Rightarrow> (posix, errno + nat) M" where
  "open_last_component parentFd name fl =
     rethrow_symlink ''path %s is a symlink''
       (openFileEnsureBeneathNoSymlinks (\<lambda>_ _. ret ()) parentFd [name] fl)"
subsection \<open>Operations\<close>

definition posix_stat :: "PosixStat \<Rightarrow> Stat" where
  "posix_stat st =
     \<lparr> st_type = ps_type st,
       fileSize = (if ps_type st = tRegular then Some (word_of_nat (ps_size st)) else None),
       isExecutable = (ps_type st = tRegular \<and> ps_mode st AND 0x40 \<noteq> 0) \<rparr>"

text \<open>A file: its descriptor and the status it had when it was opened.\<close>

record file_accessor =
  fa_fd :: nat
  fa_st :: PosixStat

text \<open>Reading from an open file: the descriptor has the contents of the inode, and its calls take the
  lines of the scripts.\<close>

definition with_fd :: "nat \<Rightarrow> nat \<Rightarrow> (kernel_fd \<times> 'k, 'a) M \<Rightarrow> (posix \<times> 'k, 'a) M" where
  "with_fd i n m = (\<lambda>((g, f, s), k).
     case m (\<lparr> fd_bytes = in_data (fs_inodes s i), fd_off = 0, fd_seekable = True,
            fd_script = map (fd_outcome n) (fs_faults s), fd_signals = fs_signals s \<rparr>, k) of
       (r, (kf, k)) \<Rightarrow> (r, ((g, f, s\<lparr>fs_faults := drop (length (fs_faults s) - length (fd_script kf)) (fs_faults s),
                                       fs_signals := fd_signals kf\<rparr>), k)))"

definition PosixFile_readFile ::
  "file_accessor \<Rightarrow> string list \<Rightarrow> 'k sink \<Rightarrow> (64 word \<Rightarrow> ('k, unit) M) \<Rightarrow> (posix \<times> 'k, unit) M" where
  "PosixFile_readFile a path sink sizeCallback =
     (if path \<noteq> [] then throw (NotADirectory ''reading file %1%: %2%'')
      else
        let size = ps_size (fa_st a) in
        seqM (onR (sizeCallback (word_of_nat size)))
          (with_fd (fa_fd a) size (copyFdRange 0 size sink)))"

definition PosixFile_maybeLstat :: "file_accessor \<Rightarrow> string list \<Rightarrow> (posix, Stat option) M" where
  "PosixFile_maybeLstat a path = (if path \<noteq> [] then ret None else ret (Some (posix_stat (fa_st a))))"

definition PosixFile_readDirectory :: "file_accessor \<Rightarrow> string list \<Rightarrow> (posix, (string \<times> file_type option) list) M" where
  "PosixFile_readDirectory a path = throw (NotADirectory ''reading directory %1%: %2%'')"

definition PosixFile_readLink :: "file_accessor \<Rightarrow> string list \<Rightarrow> (posix, string) M" where
  "PosixFile_readLink a path =
     (if path \<noteq> [] then throw (NotADirectory ''reading symlink %1%: %2%'')
      else throw (NotASymlink ''path %1% is not a symlink''))"

definition PosixDirectory_maybeLstat :: "dir_accessor \<Rightarrow> string list \<Rightarrow> (posix, Stat option) M" where
  "PosixDirectory_maybeLstat a path =
     (if path = [] then bindM (on_fsys (fd_stat (da_dirFd a))) (\<lambda>st. ret (Some (posix_stat st)))
      else bindM (openParentAndUpsert a path True) (\<lambda>parentFd.
        case parentFd of
          None \<Rightarrow> ret None
        | Some parentFd \<Rightarrow> bindM (on_fsys (sysR (sys_fstatat parentFd [last path]))) (\<lambda>r.
            case r of
              Inl e \<Rightarrow> if e = ENOENT then ret None else throw (SysError e ''getting status of %1%'')
            | Inr st \<Rightarrow> ret (Some (posix_stat st)))))"

definition PosixDirectory_readFile ::
  "dir_accessor \<Rightarrow> string list \<Rightarrow> 'k sink \<Rightarrow> (64 word \<Rightarrow> ('k, unit) M) \<Rightarrow> (posix \<times> 'k, unit) M" where
  "PosixDirectory_readFile a path sink sizeCallback =
     (if path = [] then throw (NotARegularFile ''%s is not a regular file'')
      else
        bindM (onL (parent_of a path)) (\<lambda>parentFd.
        bindM (onL (open_last_component parentFd (last path) OpenReadonly)) (\<lambda>r.
          case r of
            Inl e \<Rightarrow> if e = ENOENT then throw (FileNotFound ''file %s does not exist'') else throw (SysError e ''opening %s'')
          | Inr fileFd \<Rightarrow>
              bindM (onL (on_fsys (fd_stat fileFd))) (\<lambda>st.
                if ps_type st \<noteq> tRegular then throw (NotARegularFile ''file %s is not a regular file'')
                else PosixFile_readFile \<lparr> fa_fd = fileFd, fa_st = st \<rparr> [] sink sizeCallback))))"

text \<open>\<open>openat\<close> of \<open>.\<close> gives a descriptor of its own.\<close>

definition sys_reopen :: "nat \<Rightarrow> nat sys" where
  "sys_reopen d = sys_call (at_dir d (\<lambda>_ s. (Inr d, s)))"

definition openSubdirectory :: "dir_accessor \<Rightarrow> string list \<Rightarrow> (posix, nat) M" where
  "openSubdirectory a path =
     (if path = [] then on_fsys (sysE ''opening directory %s'' (sys_reopen (da_dirFd a)))
      else
        bindM (parent_of a path) (\<lambda>parentFd.
        bindM (open_last_component parentFd (last path) OpenDirectory) (\<lambda>r.
          case r of
            Inl e \<Rightarrow> if e = ENOTDIR then throw (NotADirectory ''%s is not a directory'')
                     else throw (SysError e ''opening directory %s'')
          | Inr fd \<Rightarrow> ret fd)))"

text \<open>The entries come with \<open>.\<close> and \<open>..\<close> in some order; \<open>emplace\<close> keeps what a map has.\<close>

definition dirent_type :: "file_type \<Rightarrow> file_type option" where
  "dirent_type ty = (if ty = tUnknown then None else Some ty)"

definition emplace :: "string \<Rightarrow> 'v \<Rightarrow> (string \<times> 'v) list \<Rightarrow> (string \<times> 'v) list" where
  "emplace n v es = (if map_of es n = None then map_insert n v es else es)"

fun read_entries :: "(string \<times> file_type) list \<Rightarrow> (string \<times> file_type option) list \<Rightarrow> (fsys, (string \<times> file_type option) list) M" where
  "read_entries [] found = ret found"
| "read_entries ((name, ty) # ds) found =
     seqM fs_checkInterrupt
       (if name = ''.'' \<or> name = ''..'' then read_entries ds found
        else read_entries ds (emplace name (dirent_type ty) found))"

definition readEntriesFrom :: "nat \<Rightarrow> (posix, (string \<times> file_type option) list) M" where
  "readEntriesFrom fd = on_fsys
     (bindM (sysE ''reading directory %s'' (at_path fd [] sys_readdir)) (\<lambda>ds.
        read_entries ((''.'', tDirectory) # (''..'', tDirectory) # map (\<lambda>(n, _, ty). (n, ty)) ds) []))"

definition PosixDirectory_readDirectory :: "dir_accessor \<Rightarrow> string list \<Rightarrow> (posix, (string \<times> file_type option) list) M" where
  "PosixDirectory_readDirectory a path =
     rethrow_symlink ''path %s is a symlink'' (bindM (openSubdirectory a path) readEntriesFrom)"

text \<open>
  The overload with a callback: it gets the accessor of the subdirectory, which has no cache and is
  gone afterwards, and the entries.  The entries are read from a duplicate of the descriptor.
\<close>

definition sys_dup :: "nat \<Rightarrow> nat sys" where
  "sys_dup fd = sys_call (Pair (Inr fd))"

definition PosixDirectory_enterDirectory ::
  "dir_accessor \<Rightarrow> string list \<Rightarrow> (dir_accessor \<Rightarrow> (string \<times> file_type option) list \<Rightarrow> (posix \<times> 'k, unit) M) \<Rightarrow> (posix \<times> 'k, unit) M" where
  "PosixDirectory_enterDirectory a dirPath callback =
     bindM (onL (openSubdirectory a dirPath)) (\<lambda>fd.
     bindM (onL (on_fsys (sysE ''duplicating descriptor for directory %s'' (sys_dup fd)))) (\<lambda>readerFd.
     bindM (onL (onL (PosixDirectorySourceAccessor fd 0))) (\<lambda>accessor.
       finallyM (bindM (onL (readEntriesFrom readerFd)) (callback accessor))
         (onL (onL (PosixDirectory_destroy accessor))))))"

definition PosixDirectory_readLink :: "dir_accessor \<Rightarrow> string list \<Rightarrow> (posix, string) M" where
  "PosixDirectory_readLink a path =
     rethrow_symlink ''path %s is a symlink''
       (if path = [] then throw (NotASymlink ''file %s is not a symlink'')
        else
          bindM (parent_of a path) (\<lambda>parentFd.
            catchM (on_fsys (readLinkAt parentFd [last path]))
              (\<lambda>e. case e of
                 SysError n _ \<Rightarrow> if n = EINVAL then throw (NotASymlink ''file %s is not a symlink'') else throw e
               | _ \<Rightarrow> throw e)))"

subsection \<open>The accessor of a path\<close>

datatype posix_accessor = FileAccessor file_accessor | DirectoryAccessor dir_accessor | SymlinkAccessor memory

text \<open>\<open>openFileReadonly\<close> without following the last component, and \<open>openDirectory\<close>.\<close>

definition sys_open_readonly :: "fpath \<Rightarrow> nat sys" where
  "sys_open_readonly p = sys_call (\<lambda>s.
     (case dent s p of
        None \<Rightarrow> Inl (miss s p)
      | Some i \<Rightarrow> if in_type (fs_inodes s i) = tSymlink then Inl ELOOP else Inr i, s))"

definition makeFSSourceAccessor :: "fpath \<Rightarrow> (posix, posix_accessor) M" where
  "makeFSSourceAccessor root =
     bindM (on_fsys (sysR (sys_open_readonly root))) (\<lambda>r.
       case r of
         Inl e \<Rightarrow>
           if e \<noteq> ELOOP then throw (SysError e ''opening file %1%'')
           else
             bindM (on_fsys (sysE ''opening %1%'' (sys_opendir (butlast root)))) (\<lambda>parentFd.
             bindM (on_fsys (readLinkAt parentFd [last root])) (\<lambda>linkTarget.
             bindM (liftE (case MemorySink_createSymlink cp_root linkTarget None of (Inl e, _) \<Rightarrow> Inl e | (Inr _, m) \<Rightarrow> Inr m)) (\<lambda>m.
               ret (SymlinkAccessor m))))
       | Inr fd \<Rightarrow>
           bindM (on_fsys (fd_stat fd)) (\<lambda>st.
             if ps_type st = tRegular then ret (FileAccessor \<lparr> fa_fd = fd, fa_st = st \<rparr>)
             else if ps_type st = tDirectory then
               bindM (onL (getS pg_limit)) (\<lambda>limit.
               bindM (onL (PosixDirectorySourceAccessor fd (limit div 8))) (\<lambda>res.
               seqM (onL (modS (registerAccessor (da_id res)))) (ret (DirectoryAccessor res))))
             else throw (Error ''file %1% has an unsupported type'')))"

definition posix_destroy :: "posix_accessor \<Rightarrow> (posix, unit) M" where
  "posix_destroy acc = (case acc of DirectoryAccessor d \<Rightarrow> onL (PosixDirectory_destroy d) | _ \<Rightarrow> ret ())"

subsection \<open>Dumping from disk\<close>

text \<open>The virtual calls.\<close>

definition posix_maybeLstat :: "posix_accessor \<Rightarrow> CanonPath \<Rightarrow> (posix, Stat option) M" where
  "posix_maybeLstat acc p = (case acc of
     FileAccessor f \<Rightarrow> PosixFile_maybeLstat f (components p)
   | DirectoryAccessor d \<Rightarrow> PosixDirectory_maybeLstat d (components p)
   | SymlinkAccessor m \<Rightarrow> liftE (mem_maybeLstat m p))"

definition posix_lstat :: "posix_accessor \<Rightarrow> CanonPath \<Rightarrow> (posix, Stat) M" where
  "posix_lstat acc p = bindM (posix_maybeLstat acc p) (\<lambda>st.
     case st of Some st \<Rightarrow> ret st | None \<Rightarrow> throw (FileNotFound ''path %s does not exist''))"

definition posix_readFile :: "posix_accessor \<Rightarrow> CanonPath \<Rightarrow> 'k sink \<Rightarrow> (64 word \<Rightarrow> ('k, unit) M) \<Rightarrow> (posix \<times> 'k, unit) M" where
  "posix_readFile acc p sink sizeCallback = (case acc of
     FileAccessor f \<Rightarrow> PosixFile_readFile f (components p) sink sizeCallback
   | DirectoryAccessor d \<Rightarrow> PosixDirectory_readFile d (components p) sink sizeCallback
   | SymlinkAccessor m \<Rightarrow> onR (mem_readFile m p sink sizeCallback))"

definition posix_readLink :: "posix_accessor \<Rightarrow> CanonPath \<Rightarrow> (posix, string) M" where
  "posix_readLink acc p = (case acc of
     FileAccessor f \<Rightarrow> PosixFile_readLink f (components p)
   | DirectoryAccessor d \<Rightarrow> PosixDirectory_readLink d (components p)
   | SymlinkAccessor m \<Rightarrow> liftE (mem_readLink m p))"

text \<open>\<open>readDirectory\<close> with a callback; an accessor that does not override it passes itself on.\<close>

definition posix_enterDirectory ::
  "posix_accessor \<Rightarrow> CanonPath \<Rightarrow> (posix_accessor \<Rightarrow> CanonPath \<Rightarrow> (string \<times> file_type option) list \<Rightarrow> (posix \<times> 'k, unit) M) \<Rightarrow>
   (posix \<times> 'k, unit) M" where
  "posix_enterDirectory acc p callback = (case acc of
     FileAccessor f \<Rightarrow> bindM (onL (PosixFile_readDirectory f (components p))) (callback acc p)
   | DirectoryAccessor d \<Rightarrow> PosixDirectory_enterDirectory d (components p) (\<lambda>sub. callback (DirectoryAccessor sub) cp_root)
   | SymlinkAccessor m \<Rightarrow> bindM (liftE (mem_readDirectory m p)) (callback acc p))"

text \<open>The walk of \<open>dumpPath\<close> with an accessor that works on the file system.\<close>

definition posix_dumpContents :: "posix_accessor \<Rightarrow> 'k sink \<Rightarrow> CanonPath \<Rightarrow> (posix \<times> 'k, unit) M" where
  "posix_dumpContents acc sink path =
     seqM (onR (writeString sink ''contents''))
       (\<lambda>(p, k). case posix_readFile acc path (\<lambda>data. onL (sink data))
                  (\<lambda>n. seqM (onR (modS (\<lambda>_. Some n))) (onL (write_u64 sink n))) (p, (k, None)) of
          (Inl e, (p, (k, _))) \<Rightarrow> (Inl e, (p, k))
        | (Inr _, (p, (k, None))) \<Rightarrow> (Inl (Abort ''size''), (p, k))
        | (Inr _, (p, (k, Some n))) \<Rightarrow> onR (writePadding sink (unat n)) (p, k))"

function posix_dump :: "posix_accessor \<Rightarrow> 'k sink \<Rightarrow> CanonPath \<Rightarrow> nat \<Rightarrow> (posix \<times> 'k, unit) M" where
  "posix_dump acc sink path depth = bindM (onL (on_fsys fs_checkInterrupt)) (\<lambda>_.
     (if narMaxDepth \<le> depth then throw (Error ''path %s exceeds maximum NAR directory depth of %d'')
      else let out = (\<lambda>data. onR (sink data)) in
      bindM (onL (posix_lstat acc path)) (\<lambda>st.
        seqM (writeString out ''('')
          (seqM
            (case st_type st of
               tRegular \<Rightarrow>
                 seqM (writeAll out [''type'', ''regular''])
                   (seqM (if isExecutable st then writeAll out [''executable'', ''''] else ret ())
                     (posix_dumpContents acc sink path))
             | tDirectory \<Rightarrow>
                 seqM (writeAll out [''type'', ''directory''])
                   (posix_enterDirectory acc path (\<lambda>subdirAccessor subdirRelPath entries.
                     forM (\<lambda>(name, _).
                         seqM (writeAll out [''entry'', ''('', ''name'', name, ''node''])
                           (bindM (liftE (push subdirRelPath name)) (\<lambda>child.
                              seqM (posix_dump subdirAccessor sink child (depth + 1)) (writeString out '')''))))
                       (filter (\<lambda>(_, t). \<not> (t = Some tFifo \<or> t = Some tSocket)) entries)))
             | tSymlink \<Rightarrow>
                 seqM (writeAll out [''type'', ''symlink'', ''target''])
                   (bindM (onL (posix_readLink acc path)) (writeString out))
             | _ \<Rightarrow> throw (Error ''file %s has an unsupported type''))
            (writeString out '')'')))))"
  by pat_completeness auto
termination
  by (relation "measure (\<lambda>(_, _, _, depth). narMaxDepth - depth)") auto

declare posix_dump.simps [simp del]

definition disk_dumpPath :: "fpath \<Rightarrow> 'k sink \<Rightarrow> (posix \<times> 'k, unit) M" where
  "disk_dumpPath path sink = bindM (onL (makeFSSourceAccessor path)) (\<lambda>path2.
     finallyM (seqM (onR (writeString sink narVersionMagic1)) (posix_dump path2 sink cp_root 0))
       (onL (posix_destroy path2)))"

subsection \<open>What the caches hold\<close>

text \<open>Each cached descriptor is the directory that its key names.\<close>

definition cache_ok :: "fsys \<Rightarrow> fpath \<Rightarrow> dir_cache \<Rightarrow> bool" where
  "cache_ok s root c \<longleftrightarrow> (\<forall>(key, fd) \<in> set (data c). dir_fd s fd (root @ key))"

lemma cache_ok_sub: "cache_ok s root c \<Longrightarrow> set (data d) \<subseteq> insert (k, fd) (set (data c)) \<Longrightarrow> dir_fd s fd (root @ k) \<Longrightarrow> cache_ok s root d"
  by (auto simp: cache_ok_def)

lemma delete_sub: "set (AList.delete k xs) \<subseteq> set xs"
  by (induction xs) auto

lemma update_sub: "set (AList.update k v xs) \<subseteq> insert (k, v) (set xs)"
  by (induction xs) auto

lemma lru_upsert_data: "set (data (lru_upsert k v c)) \<subseteq> insert (k, v) (set (data c))"
proof -
  have e: "set (data (snd (lru_erase k c))) \<subseteq> set (data c)"
    using delete_sub [of k "data c"] by (cases "map_of (data c) k") (simp_all add: lru_erase_def)
  have u: "set (AList.update k v ys) \<subseteq> insert (k, v) (set (data c))" if "set ys \<subseteq> set (data c)" for ys
    using that update_sub [of k v ys] by blast
  have d: "set (AList.delete h ys) \<subseteq> set (data c)" if "set ys \<subseteq> set (data c)" for h ys
    using that delete_sub [of h ys] by blast
  obtain c1 where c1: "c1 = snd (lru_erase k c)" by simp
  show ?thesis
    using e u [OF e] u [OF d [OF e]] unfolding lru_upsert_def Let_def c1 [symmetric]
    by (auto split: if_splits)
qed

lemma lru_get_data: "data (snd (lru_get k c)) = data c" "fst (lru_get k c) = map_of (data c) k"
  by (auto simp: lru_get_def lru_promote_def split: option.split)

lemma find_anchor_data:
  "snd (find_anchor p c) = c' \<Longrightarrow> data c' = data c \<and>
     (case fst (find_anchor p c) of None \<Rightarrow> True | Some (q, fd) \<Rightarrow> prefix q p \<and> (q, fd) \<in> set (data c))"
proof (induction p c rule: find_anchor.induct)
  case (1 p c)
  obtain r c1 where g: "lru_get p c = (r, c1)" by fastforce
  then have d: "data c1 = data c" "r = map_of (data c) p" using lru_get_data [of p c] by simp_all
  show ?case
  proof (cases r)
    case (Some fd)
    with g have "find_anchor p c = (Some (p, fd), c1)" by (subst find_anchor.simps) simp
    moreover have "(p, fd) \<in> set (data c)" using d(2) Some map_of_SomeD [of "data c" p fd] by simp
    ultimately show ?thesis using d(1) 1(2) by auto
  next
    case None
    show ?thesis
    proof (cases "p = []")
      case True
      with g None have "find_anchor p c = (None, c1)" by (subst find_anchor.simps) simp
      with d 1(2) show ?thesis by auto
    next
      case False
      from g None False have f: "find_anchor p c = find_anchor (butlast p) c1" by (subst find_anchor.simps) simp
      note ih = 1(1) [OF g [symmetric] None False]
      have "prefix q p" if "prefix q (butlast p)" for q using that prefixeq_butlast prefix_order.trans by blast
      with ih f d(1) 1(2) show ?thesis by (auto split: option.splits)
    qed
  qed
qed

subsection \<open>Walks\<close>

lemma walk_append: "walk_at s p (as @ bs) = (case walk_at s p as of Inl e \<Rightarrow> Inl e | Inr q \<Rightarrow> walk_at s q bs)"
  by (induction as arbitrary: p) (auto split: option.split)

lemma walk_dirs:
  "(\<forall>m<length cs. is_dir s (p @ take (Suc m) cs)) \<Longrightarrow> walk_at s p cs = Inr (p @ cs)"
proof (induction cs arbitrary: p)
  case (Cons c cs)
  have "is_dir s (p @ [c])" using Cons.prems by (metis append_Cons append_Nil length_Cons take0 take_Suc_Cons zero_less_Suc)
  moreover have "\<forall>m<length cs. is_dir s ((p @ [c]) @ take (Suc m) cs)"
    using Cons.prems by (metis Suc_less_eq append.assoc append_Cons append_Nil length_Cons take_Suc_Cons)
  ultimately show ?case using Cons.IH [of "p @ [c]"] by (auto simp: is_dir_dent)
qed simp

lemma walk_to:
  assumes "fs_ok s" "dent s (p @ cs @ [c]) = Some i"
  shows "walk_at s p cs = Inr (p @ cs)"
proof (rule walk_dirs, intro allI impI)
  fix m assume m: "m < length cs"
  obtain d ds where "drop (Suc m) (cs @ [c]) = d # ds" using m by (cases "drop (Suc m) (cs @ [c])") auto
  then have "p @ cs @ [c] = (p @ take (Suc m) cs) @ d # ds"
    using m append_take_drop_id [of "Suc m" "cs @ [c]"] by simp
  then show "is_dir s (p @ take (Suc m) cs)" using ancestor_dir [OF assms(1)] dent_in [OF assms(2)] by metis
qed

lemma walk_dir_fd:
  assumes "fs_ok s" "dir_fd s fd (p @ cs)"
  shows "walk_at s p cs = Inr (p @ cs)"
proof (cases cs rule: rev_cases)
  case (snoc as c)
  have "(p @ cs, fd) \<in> set (fs_dents s)" using assms(2) fd_path_in by (simp add: dir_fd_def)
  then have d: "dent s (p @ as @ [c]) = Some fd" using assms(1) dent_iff snoc by simp
  with walk_to [OF assms(1) d] assms(2) snoc show ?thesis by (simp add: walk_append dir_fd_def)
qed simp

lemma dir_fd_dent: "fs_ok s \<Longrightarrow> dir_fd s fd q \<longleftrightarrow> dent s q = Some fd \<and> in_type (fs_inodes s fd) = tDirectory \<and> fd_path s fd = Some q"
  using fd_path_in dent_iff by (auto simp: dir_fd_def)

text \<open>Opening a directory is a walk to it.\<close>

lemma openat2_walk:
  assumes "good s" "dir_fd s d p" "cs \<noteq> []"
  shows "sys_openat2 d cs OpenDirectory s = ((case walk_at s p cs of Inl e \<Rightarrow> Inl e | Inr q \<Rightarrow> Inr (the (dent s q))), s)"
proof -
  obtain as c where cs: "cs = as @ [c]" using assms(3) by (metis append_butlast_last_id)
  show ?thesis
    using assms(1,2) unfolding cs walk_append
    by (auto simp: sys_openat2_def sys_call_quiet at_dir_def dir_fd_def good_def fs_quiet_def open_last_def Let_def split: sum.split option.split)
qed

subsection \<open>The count of descriptors\<close>

text \<open>
  Every cached descriptor is counted; the cache of an accessor that is gone or not made yet is
  empty.
\<close>

definition cached :: "posix_globals \<Rightarrow> nat \<Rightarrow> nat" where
  "cached g b = (case dirFdCache b g of None \<Rightarrow> 0 | Some c \<Rightarrow> lru_size c)"

definition count_ok :: "posix_globals \<Rightarrow> bool" where
  "count_ok g \<longleftrightarrow> (\<forall>b. pg_caches g b \<noteq> None \<longrightarrow> b < pg_next g) \<and>
     globalDirFdCount g = word_of_nat (\<Sum>b<pg_next g. cached g b)"

definition registered :: "posix_globals \<Rightarrow> bool" where
  "registered g \<longleftrightarrow> (\<forall>b. dirFdCache b g \<noteq> None \<longrightarrow> b \<in> set (globalDirFdCacheRegistry g))"

lemma set_cache_sel [simp]:
  "dirFdCache b (set_cache a c g) = (if b = a then Some c else dirFdCache b g)" "pg_limit (set_cache a c g) = pg_limit g"
  "globalDirFdCount (set_cache a c g) = globalDirFdCount g" "pg_next (set_cache a c g) = pg_next g"
  "globalDirFdCacheRegistry (set_cache a c g) = globalDirFdCacheRegistry g"
  "pg_caches (set_cache a c g) b = None \<longleftrightarrow> b \<noteq> a \<and> pg_caches g b = None"
  by (simp_all add: dirFdCache_def set_cache_def)

lemma dirFdCache_sel [simp]:
  "dirFdCache a (g\<lparr>globalDirFdCount := n\<rparr>) = dirFdCache a g" "dirFdCache a (g\<lparr>globalDirFdCacheRegistry := r\<rparr>) = dirFdCache a g"
  "dirFdCache a (g\<lparr>pg_next := m\<rparr>) = dirFdCache a g"
  by (simp_all add: dirFdCache_def)

lemma cached_sel [simp]:
  "cached (g\<lparr>globalDirFdCount := n\<rparr>) = cached g" "cached (g\<lparr>globalDirFdCacheRegistry := r\<rparr>) = cached g"
  "cached (set_cache a c g) = (cached g)(a := lru_size c)"
  by (simp_all add: cached_def fun_eq_iff)

lemma cache_live: "dirFdCache a g = Some c \<Longrightarrow> pg_caches g a \<noteq> None"
  by (auto simp: dirFdCache_def split: option.splits)

lemma count_ok_set:
  assumes "count_ok g" "dirFdCache a g = Some c" "lru_size c + n = lru_size d + m"
  shows "count_ok (set_cache a d (g\<lparr>globalDirFdCount := globalDirFdCount g + word_of_nat n - word_of_nat m\<rparr>))"
proof -
  have a: "a < pg_next g" "pg_caches g a \<noteq> None" using assms(1) cache_live [OF assms(2)] by (auto simp: count_ok_def)
  have ca: "cached g a = lru_size c" using assms(2) by (simp add: cached_def)
  have s: "(\<Sum>b<pg_next g. f b) = f a + (\<Sum>b\<in>{..<pg_next g} - {a}. f b)" for f :: "nat \<Rightarrow> nat"
    using a(1) by (intro sum.remove) simp_all
  have rest: "(\<Sum>b\<in>{..<pg_next g} - {a}. ((cached g)(a := x)) b) = (\<Sum>b\<in>{..<pg_next g} - {a}. cached g b)" for x
    by (intro sum.cong) simp_all
  have "(\<Sum>b<pg_next g. ((cached g)(a := lru_size d)) b) + m = (\<Sum>b<pg_next g. cached g b) + n"
    unfolding s using assms(3) ca by (simp add: rest)
  then have "word_of_nat (\<Sum>b<pg_next g. ((cached g)(a := lru_size d)) b) + (word_of_nat m :: 32 word) =
      word_of_nat (\<Sum>b<pg_next g. cached g b) + word_of_nat n"
    by (metis of_nat_add)
  then have "word_of_nat (\<Sum>b<pg_next g. ((cached g)(a := lru_size d)) b) = (globalDirFdCount g + word_of_nat n - word_of_nat m :: 32 word)"
    using assms(1) by (simp add: count_ok_def algebra_simps)
  with assms(1) a show ?thesis by (simp add: count_ok_def)
qed

lemma count_ok_clear: "count_ok g \<Longrightarrow> count_ok (clear_cache a g)"
proof (cases "dirFdCache a g")
  case (Some c)
  assume "count_ok g"
  from count_ok_set [OF this Some, of 0 "lru_clear c" "lru_size c"] show ?thesis
    using Some by (simp add: clear_cache_def lru_size_def lru_clear_def)
qed (simp add: clear_cache_def)

lemma clear_sel:
  "pg_limit (clear_cache a g) = pg_limit g" "pg_next (clear_cache a g) = pg_next g"
  "globalDirFdCacheRegistry (clear_cache a g) = globalDirFdCacheRegistry g"
  "pg_caches (clear_cache a g) b = None \<longleftrightarrow> pg_caches g b = None"
  "dirFdCache b (clear_cache a g) = (if b = a then map_option lru_clear (dirFdCache b g) else dirFdCache b g)"
  using cache_live [of a g] by (auto simp: clear_cache_def split: option.split)

text \<open>Eviction clears caches from the front of the registry until there is room.\<close>

lemma evict_loop_facts:
  assumes "count_ok g"
  shows "count_ok (evict_loop kept its g) \<and> pg_limit (evict_loop kept its g) = pg_limit g \<and>
    (\<forall>b. dirFdCache b (evict_loop kept its g) = dirFdCache b g \<or>
      b \<in> set its \<and> dirFdCache b (evict_loop kept its g) = map_option lru_clear (dirFdCache b g)) \<and>
    (\<forall>b. pg_caches (evict_loop kept its g) b = None \<longleftrightarrow> pg_caches g b = None) \<and>
    set (globalDirFdCacheRegistry (evict_loop kept its g)) \<supseteq> {b \<in> set kept \<union> set its. pg_caches g b \<noteq> None} \<and>
    (unat (globalDirFdCount (evict_loop kept its g)) < pg_limit g \<or> (\<forall>b \<in> set its. cached (evict_loop kept its g) b = 0))"
  using assms
proof (induction kept its g rule: evict_loop.induct)
  case (1 kept g)
  then show ?case by (auto simp: count_ok_def)
next
  case (2 kept it its g)
  show ?case
  proof (cases "unat (globalDirFdCount g) < pg_limit g")
    case True
    with 2(3) show ?thesis by (auto simp: count_ok_def)
  next
    case room: False
    show ?thesis
    proof (cases "pg_caches g it = None")
      case True
      let ?e = "evict_loop kept its g"
      note ih = 2(1) [OF room True 2(3)]
      have "pg_caches ?e it = None" using ih True by blast
      then have "dirFdCache it ?e = None" by (simp add: dirFdCache_def)
      then have "cached ?e it = 0" by (simp add: cached_def)
      with ih have "unat (globalDirFdCount ?e) < pg_limit g \<or> (\<forall>b \<in> set (it # its). cached ?e b = 0)" by simp
      with ih room True show ?thesis by auto
    next
      case False
      let ?g = "clear_cache it g" and ?e = "evict_loop (kept @ [it]) its (clear_cache it g)"
      from 2(2) [OF room False count_ok_clear [OF 2(3)]]
      have ih: "count_ok ?e" "pg_limit ?e = pg_limit g"
        "\<And>b. dirFdCache b ?e = dirFdCache b ?g \<or> b \<in> set its \<and> dirFdCache b ?e = map_option lru_clear (dirFdCache b ?g)"
        "\<And>b. pg_caches ?e b = None \<longleftrightarrow> pg_caches g b = None"
        "set (globalDirFdCacheRegistry ?e) \<supseteq> {b \<in> insert it (set kept \<union> set its). pg_caches g b \<noteq> None}"
        "unat (globalDirFdCount ?e) < pg_limit g \<or> (\<forall>b \<in> set its. cached ?e b = 0)"
        by (simp_all add: clear_sel)
      have c: "lru_clear (lru_clear x) = lru_clear x" for x :: dir_cache by (simp add: lru_clear_def)
      have d: "dirFdCache b ?e = dirFdCache b g \<or> b \<in> insert it (set its) \<and> dirFdCache b ?e = map_option lru_clear (dirFdCache b g)" for b
        using ih(3) [of b] by (auto simp: clear_sel option.map_comp comp_def c split: if_splits)
      have "dirFdCache it ?e = map_option lru_clear (dirFdCache it g)"
        using ih(3) [of it] by (auto simp: clear_sel option.map_comp comp_def c)
      then have "cached ?e it = 0" by (simp add: cached_def lru_clear_def lru_size_def split: option.split)
      with ih(6) have "unat (globalDirFdCount ?e) < pg_limit g \<or> (\<forall>b \<in> set (it # its). cached ?e b = 0)" by auto
      with ih(1,2,4,5) d room False show ?thesis by (simp del: not_None_eq)
    qed
  qed
qed

lemma evict_facts:
  assumes "count_ok g"
  defines "h \<equiv> maybeEvictFromGlobalCaches g"
  shows "count_ok h" "pg_limit h = pg_limit g" "pg_caches h b = None \<longleftrightarrow> pg_caches g b = None"
    "dirFdCache b h = dirFdCache b g \<or> dirFdCache b h = map_option lru_clear (dirFdCache b g)"
    "registered g \<Longrightarrow> registered h"
    "registered g \<Longrightarrow> unat (globalDirFdCount h) < pg_limit g \<or> globalDirFdCount h = 0"
proof -
  note f = evict_loop_facts [OF assms(1), of "[]" "globalDirFdCacheRegistry g"]
  show "count_ok h" "pg_limit h = pg_limit g" "pg_caches h b = None \<longleftrightarrow> pg_caches g b = None"
    "dirFdCache b h = dirFdCache b g \<or> dirFdCache b h = map_option lru_clear (dirFdCache b g)" for b
    using f assms(1) by (auto simp: h_def maybeEvictFromGlobalCaches_def)
  note d = this
  assume reg: "registered g"
  have none: "dirFdCache b h = None \<longleftrightarrow> dirFdCache b g = None" for b using d(4) [of b] by auto
  have sub: "set (globalDirFdCacheRegistry h) \<supseteq> {b \<in> set (globalDirFdCacheRegistry g). pg_caches g b \<noteq> None}"
    using f by (auto simp: h_def maybeEvictFromGlobalCaches_def)
  show "registered h" unfolding registered_def none
    using reg sub cache_live [of _ g] by (auto simp: registered_def)
  show "unat (globalDirFdCount h) < pg_limit g \<or> globalDirFdCount h = 0"
  proof (cases "unat (globalDirFdCount h) < pg_limit g")
    case False
    then have "\<forall>b \<in> set (globalDirFdCacheRegistry g). cached h b = 0"
      using f by (auto simp: h_def maybeEvictFromGlobalCaches_def split: if_splits)
    then have "cached h b = 0" for b using reg none [of b] by (cases "dirFdCache b g") (auto simp: cached_def registered_def)
    with d(1) show ?thesis by (simp add: count_ok_def)
  qed simp
qed

subsection \<open>What the accessors rely on\<close>

text \<open>
  The caches of the accessors \<open>N\<close>, whose roots are \<open>R\<close>, in a quiet file system: every cached descriptor is
  the directory that its key names, all are counted, and all these accessors are registered.
\<close>

definition globals_ok :: "fsys \<Rightarrow> (nat \<Rightarrow> fpath) \<Rightarrow> nat set \<Rightarrow> posix_globals \<Rightarrow> bool" where
  "globals_ok s R N g \<longleftrightarrow> count_ok g \<and> registered g \<and> (\<forall>b c. dirFdCache b g = Some c \<longrightarrow> cache_ok s (R b) c) \<and>
     (\<forall>b. dirFdCache b g \<noteq> None \<longleftrightarrow> b \<in> N)"

definition at_rest :: "fsys \<Rightarrow> at_flags \<Rightarrow> (nat \<Rightarrow> fpath) \<Rightarrow> nat set \<Rightarrow> posix \<Rightarrow> bool" where
  "at_rest s k R N = (\<lambda>(g, k', t). k' = k \<and> t = s \<and> globals_ok s R N g)"

definition acc_on :: "fsys \<Rightarrow> (nat \<Rightarrow> fpath) \<Rightarrow> nat set \<Rightarrow> dir_accessor \<Rightarrow> fpath \<Rightarrow> bool" where
  "acc_on s R N a root \<longleftrightarrow> dir_fd s (da_dirFd a) root \<and> (da_id a \<in> N \<longrightarrow> R (da_id a) = root)"

text \<open>A computation that has one answer, whatever the caches hold.\<close>

definition answers :: "('s \<Rightarrow> bool) \<Rightarrow> ('s, 'a) M \<Rightarrow> exn + 'a \<Rightarrow> bool" where
  "answers P m r \<longleftrightarrow> (\<forall>p. P p \<longrightarrow> (\<exists>p'. m p = (r, p') \<and> P p'))"

lemma answers_bind: "answers P m (Inr x) \<Longrightarrow> answers P (f x) r \<Longrightarrow> answers P (bindM m f) r"
  unfolding answers_def by (metis bindM_Inr)

lemma answers_bind_Inl: "answers P m (Inl e) \<Longrightarrow> answers P (bindM m f) (Inl e)"
  by (fastforce simp: answers_def bindM_def)

lemma answers_seq: "answers P m (Inr x) \<Longrightarrow> answers P n r \<Longrightarrow> answers P (seqM m n) r"
  unfolding seqM_def by (rule answers_bind)

lemma answers_basic: "answers P (ret x) (Inr x)" "answers P (throw e) (Inl e)" "answers P (liftE r) r"
  by (simp_all add: answers_def split: sum.split)

lemma answers_rethrow:
  "answers P m r \<Longrightarrow> answers P (rethrow_symlink msg m) (case r of Inl (SymlinkNotAllowed _) \<Rightarrow> Inl (SymlinkNotAllowed msg) | _ \<Rightarrow> r)"
  unfolding answers_def rethrow_symlink_def by (fastforce simp: catchM_def split: sum.split exn.split)

lemma answers_fs: "m s = (r, s) \<Longrightarrow> answers (at_rest s k R N) (on_fsys m) r"
  by (auto simp: answers_def at_rest_def on_fsys_def run)

lemma answers_modS: "(\<And>g. globals_ok s R N g \<Longrightarrow> globals_ok s R N (f g)) \<Longrightarrow> answers (at_rest s k R N) (onL (modS f)) (Inr ())"
  by (auto simp: answers_def at_rest_def run)

lemma globals_ok_set:
  assumes "globals_ok s R N g" "dirFdCache a g = Some c" "cache_ok s (R a) d" "lru_size c + n = lru_size d + m"
  shows "globals_ok s R N (set_cache a d (g\<lparr>globalDirFdCount := globalDirFdCount g + word_of_nat n - word_of_nat m\<rparr>))"
proof -
  have "a \<in> N" using assms(1,2) by (force simp: globals_ok_def)
  then show ?thesis
    using assms(1,3) count_ok_set [OF _ assms(2,4)] assms(2) by (auto simp: globals_ok_def registered_def)
qed

lemma globals_ok_evict: "globals_ok s R N g \<Longrightarrow> globals_ok s R N (maybeEvictFromGlobalCaches g)"
proof -
  assume g: "globals_ok s R N g"
  then have "count_ok g" "registered g" by (simp_all add: globals_ok_def)
  note f = evict_facts [OF this(1)]
  have n: "dirFdCache b (maybeEvictFromGlobalCaches g) = None \<longleftrightarrow> dirFdCache b g = None" for b using f(4) [of b] by auto
  have "cache_ok s (R b) c" if c: "dirFdCache b (maybeEvictFromGlobalCaches g) = Some c" for b c
  proof (cases "dirFdCache b g = Some c")
    case True
    with g show ?thesis by (simp add: globals_ok_def)
  next
    case False
    with f(4) [of b] c have "map_option lru_clear (dirFdCache b g) = Some c" by auto
    then have "data c = []" by (auto simp: lru_clear_def)
    then show ?thesis by (simp add: cache_ok_def)
  qed
  with g f(1) f(5) [OF \<open>registered g\<close>] n show ?thesis unfolding globals_ok_def by (simp del: not_None_eq)
qed

lemma insert_answers:
  assumes "a \<in> N" "dir_fd s fd (R a @ key)"
  shows "answers (globals_ok s R N) (insertIntoDirFdCache a key fd) (Inr ())"
  unfolding answers_def
proof (intro allI impI)
  fix g assume g: "globals_ok s R N g"
  then obtain c where c: "dirFdCache a g = Some c" "cache_ok s (R a) c" using assms(1) unfolding globals_ok_def by (metis option.exhaust)
  have "cache_ok s (R a) (lru_upsert key fd c)" by (rule cache_ok_sub [OF c(2) lru_upsert_data assms(2)])
  from globals_ok_set [OF g c(1) this, of "lru_size (lru_upsert key fd c)" "lru_size c"] c(1)
  show "\<exists>g'. insertIntoDirFdCache a key fd g = (Inr (), g') \<and> globals_ok s R N g'"
    by (simp add: insertIntoDirFdCache_def run Let_def)
qed

lemma lookup_quiet:
  assumes "globals_ok s R N g"
  shows "\<exists>g' r. lookup_anchor a p g = (Inr r, g') \<and> globals_ok s R N g' \<and>
    (case r of None \<Rightarrow> True | Some (q, fd) \<Rightarrow> a \<in> N \<and> prefix q p \<and> dir_fd s fd (R a @ q))"
proof (cases "dirFdCache a g")
  case None
  with assms show ?thesis by (simp add: lookup_anchor_def run)
next
  case (Some c)
  obtain r c' where f: "find_anchor p c = (r, c')" by fastforce
  have ok: "cache_ok s (R a) c" "a \<in> N" using assms Some by (force simp: globals_ok_def)+
  have d: "data c' = data c" "case r of None \<Rightarrow> True | Some (q, fd) \<Rightarrow> prefix q p \<and> (q, fd) \<in> set (data c)"
    using find_anchor_data [of p c c'] f by simp_all
  with ok have "cache_ok s (R a) c'" "case r of None \<Rightarrow> True | Some (q, fd) \<Rightarrow> a \<in> N \<and> prefix q p \<and> dir_fd s fd (R a @ q)"
    by (auto simp: cache_ok_def split: option.splits)
  moreover have "set_cache a c' g = set_cache a c' (g\<lparr>globalDirFdCount := globalDirFdCount g + word_of_nat 0 - word_of_nat 0\<rparr>)" by simp
  ultimately show ?thesis
    using globals_ok_set [OF assms Some, of c' 0 0] f Some d(1) by (simp add: lookup_anchor_def run lru_size_def)
qed

subsection \<open>Opening the parent\<close>

text \<open>What the walk to the parent says, without any cache.\<close>

definition walk_msg :: exn where
  "walk_msg = SymlinkNotAllowed ''path %s (or its ancestor) is a symlink''"

definition parent_answer :: "fsys \<Rightarrow> dir_accessor \<Rightarrow> fpath \<Rightarrow> string list \<Rightarrow> exn + (errno + (nat \<times> bool))" where
  "parent_answer s a root p =
     (if p = [] then Inr (Inr (da_dirFd a, False))
      else case walk_at s root p of
        Inl e \<Rightarrow> if e = ELOOP then Inl walk_msg else Inr (Inl e)
      | Inr q \<Rightarrow> Inr (Inr (the (dent s q), True)))"

lemma rethrow_run:
  "m s = (Inr x, t) \<Longrightarrow> rethrow_symlink msg m s = (Inr x, t)"
  "m s = (Inl (SymlinkNotAllowed z), t) \<Longrightarrow> rethrow_symlink msg m s = (Inl (SymlinkNotAllowed msg), t)"
  by (simp_all add: rethrow_symlink_def catchM_def)

lemma openParent_answers:
  assumes "good s" "acc_on s R N a root" "path \<noteq> []"
  shows "answers (at_rest s k R N) (openParent a path) (parent_answer s a root (butlast path))"
  unfolding answers_def
proof (intro allI impI)
  fix p assume p: "at_rest s k R N p"
  then obtain g where g: "p = (g, k, s)" "globals_ok s R N g" by (cases p) (auto simp: at_rest_def)
  let ?parent = "butlast path" and ?a = "da_id a"
  have s: "fs_ok s" "dirs_single s" "fs_faults s = []" using assms(1) by (simp_all add: good_def fs_quiet_def)
  show "\<exists>p'. openParent a path p = (parent_answer s a root ?parent, p') \<and> at_rest s k R N p'"
  proof (cases "?parent = []")
    case True
    with p assms(3) show ?thesis by (simp add: openParent_def parent_answer_def)
  next
    case False
    let ?g = "maybeEvictFromGlobalCaches g"
    let ?c = "dirFdCache ?a ?g \<noteq> None"
    have ev: "globals_ok s R N ?g" using g(2) by (rule globals_ok_evict)
    have cached: "?c \<longleftrightarrow> ?a \<in> N" using ev by (simp add: globals_ok_def)
    obtain h hit where hit: "lookup_anchor ?a ?parent ?g = (Inr hit, h)" "globals_ok s R N h"
      "case hit of None \<Rightarrow> True | Some (q, fd) \<Rightarrow> ?a \<in> N \<and> prefix q ?parent \<and> dir_fd s fd (R ?a @ q)"
      using lookup_quiet [OF ev, of ?a ?parent] by blast
    define anchor startFd where "anchor = (case hit of None \<Rightarrow> [] | Some (q, fd) \<Rightarrow> q)"
      and "startFd = (case hit of None \<Rightarrow> da_dirFd a | Some (q, fd) \<Rightarrow> fd)"
    have start: "prefix anchor ?parent" "dir_fd s startFd (root @ anchor)" "?a \<in> N \<Longrightarrow> R ?a = root"
      using hit(3) assms(2) by (auto simp: anchor_def startFd_def acc_on_def split: option.splits)
    obtain rest where rest: "?parent = anchor @ rest" using start(1) by (auto simp: prefix_def)
    have walk: "walk_at s root ?parent = walk_at s (root @ anchor) rest"
      unfolding rest walk_append using walk_dir_fd [OF s(1) start(2)] by simp
    have run: "openParent a path (g, k, s) = (if (case hit of None \<Rightarrow> False | Some (q, _) \<Rightarrow> q = ?parent) then ret (Inr (snd (the hit), True))
        else rethrow_symlink ''path %s (or its ancestor) is a symlink''
          (bindM (openFileEnsureBeneathNoSymlinks (makeDirFdCallback a ?c anchor) startFd rest OpenDirectory)
             (\<lambda>r. ret (map_sum id (\<lambda>fd. (fd, True)) r)))) (h, k, s)"
      using assms(3) False hit(1) rest unfolding openParent_def Let_def
      by (simp add: run anchor_def startFd_def split: option.split prod.split)
    show ?thesis
    proof (cases "rest = []")
      case True
      with rest False have "\<exists>fd. hit = Some (?parent, fd)" by (auto simp: anchor_def split: option.splits prod.splits)
      then have h: "hit = Some (?parent, startFd)" by (auto simp: startFd_def)
      have "parent_answer s a root ?parent = Inr (Inr (startFd, True))"
        using walk True False rest start(2) dir_fd_dent [OF s(1)] by (simp add: parent_answer_def)
      with run g(1) h hit(2) show ?thesis by (simp add: at_rest_def)
    next
      case ne: False
      have nohit: "\<not> (case hit of None \<Rightarrow> False | Some (q, _) \<Rightarrow> q = ?parent)"
        using ne rest by (auto simp: anchor_def split: option.splits prod.splits)
      have "keeps_dirs s (root @ anchor) (globals_ok s R N) (makeDirFdCallback a ?c anchor)"
        unfolding keeps_dirs_def makeDirFdCallback_def cached
        using insert_answers [of ?a N s _ R] start(3) by (auto simp: answers_def)
      from openBeneath_cb_quiet [where I = "globals_ok s R N", OF s(3,2) start(2) ne this hit(2), of OpenDirectory k]
      obtain h' where o: "openFileEnsureBeneathNoSymlinks (makeDirFdCallback a ?c anchor) startFd rest OpenDirectory (h, k, s) =
          (case sys_openat2 startFd rest OpenDirectory s of (r, u) \<Rightarrow> (opened r, (h', k, u)))" "globals_ok s R N h'" by blast
      have pa: "parent_answer s a root ?parent = (case walk_at s (root @ anchor) rest of
          Inl e \<Rightarrow> if e = ELOOP then Inl walk_msg else Inr (Inl e) | Inr q \<Rightarrow> Inr (Inr (the (dent s q), True)))"
        using False walk by (simp add: parent_answer_def)
      have o': "openFileEnsureBeneathNoSymlinks (makeDirFdCallback a ?c anchor) startFd rest OpenDirectory (h, k, s) =
          (opened (case walk_at s (root @ anchor) rest of Inl e \<Rightarrow> Inl e | Inr q \<Rightarrow> Inr (the (dent s q))), (h', k, s))"
        using o(1) unfolding openat2_walk [OF assms(1) start(2) ne] by simp
      have "openParent a path (g, k, s) = (parent_answer s a root ?parent, (h', k, s))"
        unfolding run pa if_not_P [OF nohit] rethrow_symlink_def catchM_def bindM_def o'
        by (cases "walk_at s (root @ anchor) rest") (simp_all add: opened_def symlink_not_allowed_def walk_msg_def)
      with g(1) o(2) show ?thesis by (simp add: at_rest_def)
    qed
  qed
qed

lemma walk_errors: "walk_at s p cs = Inl e \<Longrightarrow> e = ENOENT \<or> e = ELOOP \<or> e = ENOTDIR"
  by (induction cs arbitrary: p) (auto split: option.splits if_splits)

lemma walk_is_dir: "walk_at s p cs = Inr q \<Longrightarrow> cs \<noteq> [] \<Longrightarrow> q = p @ cs \<and> is_dir s q"
  using walk_at_ok [of s p cs q] by (auto dest!: spec [of _ "length cs - 1"])

lemma parent_answer_dir:
  assumes "good s" "acc_on s R N a root" "parent_answer s a root p = Inr (Inr (fd, b))"
  shows "dir_fd s fd (root @ p)"
proof (cases "p = []")
  case True
  with assms(2,3) show ?thesis by (simp add: parent_answer_def acc_on_def)
next
  case False
  with assms(3) obtain q where q: "walk_at s root p = Inr q" "fd = the (dent s q)"
    by (auto simp: parent_answer_def split: sum.splits if_splits)
  with walk_is_dir [OF q(1) False] obtain i where "dent s (root @ p) = Some i" "in_type (fs_inodes s i) = tDirectory" "fd = i"
    by (auto simp: is_dir_dent)
  with fd_path_dir [of s] assms(1) show ?thesis by (simp add: good_def)
qed

definition parent_fd :: "fsys \<Rightarrow> dir_accessor \<Rightarrow> fpath \<Rightarrow> string list \<Rightarrow> bool \<Rightarrow> exn + nat option" where
  "parent_fd s a root path ignoreMissing =
     (case parent_answer s a root (butlast path) of
        Inl e \<Rightarrow> Inl e
      | Inr (Inl e) \<Rightarrow> if ignoreMissing then Inr None else Inl (FileNotFound ''path %s does not exist'')
      | Inr (Inr (fd, _)) \<Rightarrow> Inr (Some fd))"

lemma has_cache_answers: "answers (at_rest s k R N) (onL (getS (\<lambda>g. dirFdCache b g \<noteq> None))) (Inr (b \<in> N))"
  by (auto simp: answers_def at_rest_def globals_ok_def run)

lemma upsert_answers:
  assumes "good s" "acc_on s R N a root" "path \<noteq> []"
  shows "answers (at_rest s k R N) (openParentAndUpsert a path ignoreMissing) (parent_fd s a root path ignoreMissing)"
proof (cases "parent_answer s a root (butlast path)")
  case (Inl e)
  with openParent_answers [OF assms, of k] show ?thesis
    unfolding openParentAndUpsert_def by (auto simp: parent_fd_def intro: answers_bind_Inl)
next
  case (Inr r)
  note o = openParent_answers [OF assms, of k, unfolded Inr]
  show ?thesis
  proof (cases r)
    case (Inl e)
    then have "e = ENOENT \<or> e = ENOTDIR"
      using Inr walk_errors by (auto simp: parent_answer_def split: sum.splits if_splits)
    with Inl Inr show ?thesis
      unfolding openParentAndUpsert_def by (intro answers_bind [OF o]) (auto simp: parent_fd_def intro: answers_basic)
  next
    case Inr2: (Inr x)
    obtain fd b where x: "x = (fd, b)" by fastforce
    have d: "dir_fd s fd (root @ butlast path)" using parent_answer_dir [OF assms(1,2)] Inr Inr2 x by simp
    have c: "answers (at_rest s k R N) (if da_id a \<in> N \<and> b then onL (insertIntoDirFdCache (da_id a) (butlast path) fd) else ret ()) (Inr ())"
    proof (cases "da_id a \<in> N \<and> b")
      case True
      then have "dir_fd s fd (R (da_id a) @ butlast path)" using d assms(2) by (simp add: acc_on_def)
      with True insert_answers [of "da_id a" N s fd R "butlast path"] show ?thesis
        by (auto simp: answers_def at_rest_def run)
    next
      case False
      then show ?thesis unfolding if_not_P [OF False] by (intro answers_basic)
    qed
    show ?thesis
      using Inr Inr2 x unfolding openParentAndUpsert_def
      by (intro answers_bind [OF o])
         (simp add: parent_fd_def del: not_None_eq, intro answers_bind [OF has_cache_answers] answers_seq [OF c] answers_basic)
  qed
qed

lemma parent_of_answers:
  assumes "good s" "acc_on s R N a root" "path \<noteq> []"
  shows "answers (at_rest s k R N) (parent_of a path)
    (case parent_fd s a root path False of Inl e \<Rightarrow> Inl e | Inr fd \<Rightarrow> Inr (the fd))"
proof (cases "parent_fd s a root path False")
  case (Inl e)
  with upsert_answers [OF assms, of k False] show ?thesis by (simp add: parent_of_def answers_bind_Inl)
next
  case (Inr r)
  then obtain fd where "r = Some fd" by (auto simp: parent_fd_def split: sum.splits)
  with Inr upsert_answers [OF assms, of k False] show ?thesis
    unfolding parent_of_def by (auto intro!: answers_bind answers_basic)
qed

subsection \<open>Operations without a cache\<close>

text \<open>
  What a path below the root is: the walk to its parent, then the entry there.  A link on the way
  and a missing or unsuitable directory are told apart.
\<close>

definition beneath :: "fsys \<Rightarrow> fpath \<Rightarrow> string list \<Rightarrow> (errno \<Rightarrow> 'a) \<Rightarrow> (nat option \<Rightarrow> 'a) \<Rightarrow> 'a" where
  "beneath s root path bad f =
     (case walk_at s root (butlast path) of Inl e \<Rightarrow> bad e | Inr _ \<Rightarrow> f (dent s (root @ path)))"

definition lstat_spec :: "fsys \<Rightarrow> fpath \<Rightarrow> string list \<Rightarrow> exn + Stat option" where
  "lstat_spec s root path = beneath s root path
     (\<lambda>e. if e = ELOOP then Inl walk_msg else Inr None)
     (\<lambda>i. Inr (map_option (\<lambda>i. posix_stat (stat_of s i)) i))"

definition no_parent :: "errno \<Rightarrow> exn + 'a" where
  "no_parent e = Inl (if e = ELOOP then SymlinkNotAllowed ''path %s is a symlink'' else FileNotFound ''path %s does not exist'')"

definition link_spec :: "fsys \<Rightarrow> fpath \<Rightarrow> string list \<Rightarrow> exn + string" where
  "link_spec s root path = beneath s root path no_parent (\<lambda>i. case i of
     None \<Rightarrow> Inl (SysError ENOENT ''reading symbolic link %1%'')
   | Some i \<Rightarrow> if in_type (fs_inodes s i) = tSymlink then Inr (in_data (fs_inodes s i))
              else Inl (NotASymlink ''file %s is not a symlink''))"

lemma beneath_root: "path = [] \<Longrightarrow> dir_fd s d root \<Longrightarrow> fs_ok s \<Longrightarrow> beneath s root path bad f = f (Some d)"
  by (simp add: beneath_def dir_fd_dent)

lemma parent_answer_beneath:
  assumes "good s" "acc_on s R N a root" "parent_answer s a root (butlast path) = x" "path \<noteq> []"
  shows "beneath s root path bad f =
    (case x of Inl _ \<Rightarrow> bad ELOOP | Inr (Inl e) \<Rightarrow> bad e | Inr (Inr _) \<Rightarrow> f (dent s (root @ path)))"
proof (cases "butlast path = []")
  case True
  with assms(3) show ?thesis by (auto simp: parent_answer_def beneath_def)
next
  case False
  with assms(3) show ?thesis by (cases "walk_at s root (butlast path)") (auto simp: parent_answer_def beneath_def)
qed

lemma parent_answer_errors:
  "parent_answer s a root p = Inl e \<Longrightarrow> e = walk_msg" "parent_answer s a root p = Inr (Inl n) \<Longrightarrow> n \<noteq> ELOOP"
  by (auto simp: parent_answer_def split: sum.splits if_splits)

lemma miss_in_dir:
  assumes "fs_ok s" "is_dir s q"
  shows "miss s (q @ [n]) = ENOENT"
proof -
  have "in_type (fs_inodes s i) = tDirectory" if m: "m < length (q @ [n])" and i: "dent s (take m (q @ [n])) = Some i" for m i
  proof -
    have "is_dir s (take m q)"
    proof (cases "m = length q")
      case False
      obtain j where j: "dent s q = Some j" using assms(2) by (auto simp: is_dir_dent)
      obtain c cs where c: "drop m q = c # cs" using m False by (cases "drop m q") auto
      have "(take m q @ c # cs, j) \<in> set (fs_dents s)" unfolding c [symmetric] using dent_in [OF j] by simp
      then show ?thesis by (rule ancestor_dir [OF assms(1)])
    qed (use assms(2) in simp)
    with i m show ?thesis by (auto simp: is_dir_dent)
  qed
  then have "\<not> list_ex (\<lambda>k. case dent s (take k (q @ [n])) of None \<Rightarrow> False | Some i \<Rightarrow> in_type (fs_inodes s i) \<noteq> tDirectory)
      [0..<length (q @ [n])]"
    unfolding list_ex_iff by (auto simp del: take_append length_append length_append_singleton split: option.splits)
  then show ?thesis unfolding miss_def by (rule if_not_P)
qed

lemma fstatat_quiet:
  assumes "good s" "dir_fd s fd q"
  shows "sysR (sys_fstatat fd [n]) s = (Inr (case dent s (q @ [n]) of None \<Rightarrow> Inl ENOENT | Some i \<Rightarrow> Inr (stat_of s i)), s)"
proof -
  have "miss s (q @ [n]) = ENOENT"
    using assms dir_fd_dent [of s fd q] by (intro miss_in_dir) (auto simp: good_def is_dir_dent)
  with assms show ?thesis
    by (simp add: sysR_def sys_fstatat_def sys_call_quiet at_dir_def dir_fd_def good_def fs_quiet_def split: option.split)
qed

lemma fd_stat_quiet: "good s \<Longrightarrow> fd_stat fd s = (Inr (stat_of s fd), s)"
  by (simp add: fd_stat_def sysE_def sys_fstat_def sys_call_quiet good_def fs_quiet_def)

lemma maybeLstat_answers:
  assumes "good s" "acc_on s R N a root"
  shows "answers (at_rest s k R N) (PosixDirectory_maybeLstat a path) (lstat_spec s root path)"
proof (cases "path = []")
  case True
  have d: "dir_fd s (da_dirFd a) root" "fs_ok s" using assms by (simp_all add: acc_on_def good_def)
  have "answers (at_rest s k R N) (on_fsys (fd_stat (da_dirFd a))) (Inr (stat_of s (da_dirFd a)))"
    by (intro answers_fs fd_stat_quiet assms)
  with True show ?thesis
    unfolding PosixDirectory_maybeLstat_def lstat_spec_def beneath_root [OF True d] by (auto intro!: answers_bind answers_basic)
next
  case False
  note u = upsert_answers [OF assms False, of k True] and b = parent_answer_beneath [OF assms refl False]
  have p: "root @ path = (root @ butlast path) @ [last path]" using False by simp
  consider (link) "parent_answer s a root (butlast path) = Inl walk_msg"
    | (miss) e where "parent_answer s a root (butlast path) = Inr (Inl e)" "e \<noteq> ELOOP"
    | (ok) fd x where "parent_answer s a root (butlast path) = Inr (Inr (fd, x))"
    using parent_answer_errors [of s a root "butlast path"] by (metis old.sum.exhaust surj_pair)
  then show ?thesis
  proof cases
    case link
    with u False show ?thesis by (simp add: b PosixDirectory_maybeLstat_def lstat_spec_def parent_fd_def answers_bind_Inl)
  next
    case miss
    with u False show ?thesis
      by (auto simp: b PosixDirectory_maybeLstat_def lstat_spec_def parent_fd_def intro!: answers_bind answers_basic)
  next
    case ok
    note d = parent_answer_dir [OF assms ok]
    have "answers (at_rest s k R N) (on_fsys (sysR (sys_fstatat fd [last path])))
        (Inr (case dent s (root @ path) of None \<Rightarrow> Inl ENOENT | Some i \<Rightarrow> Inr (stat_of s i)))"
      unfolding p by (intro answers_fs fstatat_quiet [OF assms(1) d])
    with ok u False show ?thesis
      by (cases "dent s (root @ path)")
         (auto simp: b PosixDirectory_maybeLstat_def lstat_spec_def parent_fd_def intro!: answers_bind answers_basic)
  qed
qed

text \<open>An operation that begins with the parent.\<close>

definition above :: "errno \<Rightarrow> exn + 'a" where
  "above e = Inl (if e = ELOOP then walk_msg else FileNotFound ''path %s does not exist'')"

lemma parent_answers:
  assumes "good s" "acc_on s R N a root" "path \<noteq> []"
    and "\<And>fd. dir_fd s fd (root @ butlast path) \<Longrightarrow> answers (at_rest s k R N) (f fd) (r (dent s (root @ path)))"
  shows "answers (at_rest s k R N) (bindM (parent_of a path) f) (beneath s root path above r)"
proof -
  note p = parent_of_answers [OF assms(1-3), of k] and b = parent_answer_beneath [OF assms(1,2) refl assms(3)]
  show ?thesis
  proof (cases "parent_answer s a root (butlast path)")
    case (Inl e)
    with p parent_answer_errors(1) [OF Inl] show ?thesis by (simp add: b above_def parent_fd_def answers_bind_Inl)
  next
    case (Inr x)
    show ?thesis
    proof (cases x)
      case (Inl e)
      with Inr p parent_answer_errors(2) show ?thesis by (auto simp: b above_def parent_fd_def intro: answers_bind_Inl)
    next
      case Inr2: (Inr y)
      obtain fd z where y: "y = (fd, z)" by fastforce
      with Inr Inr2 have "dir_fd s fd (root @ butlast path)" using parent_answer_dir [OF assms(1,2)] by simp
      from assms(4) [OF this] p Inr Inr2 y show ?thesis by (auto simp: b parent_fd_def intro: answers_bind)
    qed
  qed
qed

lemma readLinkAt_error:
  assumes "good s" "dir_fd s d p" "\<And>i. dent s (p @ [n]) = Some i \<Longrightarrow> in_type (fs_inodes s i) \<noteq> tSymlink"
  shows "readLinkAt d [n] s = (Inl (SysError (if dent s (p @ [n]) = None then ENOENT else EINVAL) ''reading symbolic link %1%''), s)"
proof -
  have m: "miss s (p @ [n]) = ENOENT"
    using assms(1,2) dir_fd_dent [of s d p] by (intro miss_in_dir) (auto simp: good_def is_dir_dent)
  have q: "fs_quiet s" using assms(1) by (simp add: good_def)
  have r: "sysE msg (sys_readlinkat d [n] 1024) s =
      (Inl (SysError (if dent s (p @ [n]) = None then ENOENT else EINVAL) msg), s)" for msg
    using q m assms(2,3) by (auto simp: sysE_def sys_readlinkat_def at_path_def sys_readlink_def sys_call_quiet fs_quiet_def dir_fd_def split: option.split)
  have c: "fs_checkInterrupt s = (Inr (), s)" using q by (simp add: fs_checkInterrupt_quiet fs_quiet_def)
  obtain l where "link_fuel s = Suc l" by (simp add: link_fuel_def)
  then show ?thesis by (simp add: readLinkAt_def run c r)
qed

lemma readLink_answers:
  assumes "good s" "acc_on s R N a root"
  shows "answers (at_rest s k R N) (PosixDirectory_readLink a path) (link_spec s root path)"
proof (cases "path = []")
  case True
  have d: "dir_fd s (da_dirFd a) root" "fs_ok s" using assms by (simp_all add: acc_on_def good_def)
  then have "in_type (fs_inodes s (da_dirFd a)) = tDirectory" by (simp add: dir_fd_def)
  then have "link_spec s root path = Inl (NotASymlink ''file %s is not a symlink'')"
    unfolding link_spec_def beneath_root [OF True d] by simp
  with True show ?thesis by (simp add: PosixDirectory_readLink_def answers_def rethrow_symlink_def catchM_def run)
next
  case False
  have p: "root @ path = (root @ butlast path) @ [last path]" using False by simp
  define r where "r = (\<lambda>i. case i of None \<Rightarrow> Inl (SysError ENOENT ''reading symbolic link %1%'')
     | Some i \<Rightarrow> if in_type (fs_inodes s i) = tSymlink then Inr (in_data (fs_inodes s i))
              else Inl (NotASymlink ''file %s is not a symlink''))"
  have "answers (at_rest s k R N) (catchM (on_fsys (readLinkAt fd [last path]))
      (\<lambda>e. case e of SysError n _ \<Rightarrow> if n = EINVAL then throw (NotASymlink ''file %s is not a symlink'') else throw e | _ \<Rightarrow> throw e))
      (r (dent s (root @ path)))" if fd: "dir_fd s fd (root @ butlast path)" for fd
  proof (cases "\<exists>i. dent s (root @ path) = Some i \<and> in_type (fs_inodes s i) = tSymlink")
    case True
    then obtain i where i: "dent s ((root @ butlast path) @ [last path]) = Some i" "in_type (fs_inodes s i) = tSymlink" unfolding p by blast
    have "readLinkAt fd [last path] s = (Inr (in_data (fs_inodes s i)), s)"
      using fd assms(1) by (intro readLinkAt_quiet [OF _ _ i]) (simp_all add: good_def dir_fd_def)
    then show ?thesis using i unfolding p by (auto simp: answers_def at_rest_def on_fsys_def r_def catchM_def run)
  next
    case False
    then have "readLinkAt fd [last path] s = (Inl (SysError (if dent s (root @ path) = None then ENOENT else EINVAL) ''reading symbolic link %1%''), s)"
      unfolding p by (intro readLinkAt_error [OF assms(1) fd]) auto
    then show ?thesis using False by (cases "dent s (root @ path)") (auto simp: answers_def at_rest_def on_fsys_def r_def catchM_def run)
  qed
  from answers_rethrow [OF parent_answers [where r = r, OF assms False this]]
  have "answers (at_rest s k R N) (PosixDirectory_readLink a path)
      (case beneath s root path above r of Inl (SymlinkNotAllowed _) \<Rightarrow> Inl (SymlinkNotAllowed ''path %s is a symlink'') | _ \<Rightarrow> beneath s root path above r)"
    using False by (simp add: PosixDirectory_readLink_def)
  moreover have "(case beneath s root path above r of Inl (SymlinkNotAllowed _) \<Rightarrow> Inl (SymlinkNotAllowed ''path %s is a symlink'') | _ \<Rightarrow> beneath s root path above r) = link_spec s root path"
    by (auto simp: beneath_def link_spec_def above_def no_parent_def walk_msg_def r_def split: sum.split option.split)
  ultimately show ?thesis by simp
qed

subsection \<open>Directories and files\<close>

lemma open_last_answers:
  assumes "good s" "dir_fd s fd q" "fl = OpenDirectory \<or> fl = OpenReadonly"
  shows "answers (at_rest s k R N) (open_last_component fd n fl)
    (case fst (open_last False fl q n s) of
       Inl e \<Rightarrow> if e = ELOOP then Inl (SymlinkNotAllowed ''path %s is a symlink'') else Inr (Inl e)
     | Inr i \<Rightarrow> Inr (Inr i))"
proof -
  have same: "open_last False fl q n s = (fst (open_last False fl q n s), s)"
    using assms(3) by (auto simp: open_last_def Let_def split: option.split)
  have "sys_openat2 fd [n] fl s = (fst (open_last False fl q n s), s)"
    using same assms(1,2) by (simp add: sys_openat2_def sys_call_quiet at_dir_def dir_fd_def good_def fs_quiet_def)
  then have o: "openFileEnsureBeneathNoSymlinks (\<lambda>_ _. ret ()) fd [n] fl (g, k, s) = (opened (fst (open_last False fl q n s)), (g, k, s))" for g :: posix_globals
    using openBeneath_quiet [of s fd q "[n]" fl g k] assms(1,2) by (simp add: good_def fs_quiet_def)
  show ?thesis
    unfolding answers_def at_rest_def open_last_component_def rethrow_symlink_def catchM_def
    by (cases "fst (open_last False fl q n s)") (auto simp: o opened_def symlink_not_allowed_def)
qed

definition subdir_spec :: "fsys \<Rightarrow> fpath \<Rightarrow> string list \<Rightarrow> exn + nat" where
  "subdir_spec s root path = beneath s root path above (\<lambda>i. case i of
     None \<Rightarrow> Inl (SysError ENOENT ''opening directory %s'')
   | Some i \<Rightarrow>
       if in_type (fs_inodes s i) = tDirectory then Inr i
       else if in_type (fs_inodes s i) = tSymlink then Inl (SymlinkNotAllowed ''path %s is a symlink'')
       else Inl (NotADirectory ''%s is not a directory''))"

lemma openSubdirectory_answers:
  assumes "good s" "acc_on s R N a root"
  shows "answers (at_rest s k R N) (openSubdirectory a path) (subdir_spec s root path)"
proof (cases "path = []")
  case True
  have d: "dir_fd s (da_dirFd a) root" "fs_ok s" using assms by (simp_all add: acc_on_def good_def)
  then have t: "in_type (fs_inodes s (da_dirFd a)) = tDirectory" by (simp add: dir_fd_def)
  have "sysE msg (sys_reopen (da_dirFd a)) s = (Inr (da_dirFd a), s)" for msg
    using assms(1) d(1) by (simp add: sysE_def sys_reopen_def sys_call_quiet at_dir_def dir_fd_def good_def fs_quiet_def)
  with True t show ?thesis
    unfolding subdir_spec_def beneath_root [OF True d] openSubdirectory_def by (simp add: answers_fs)
next
  case False
  have p: "root @ path = (root @ butlast path) @ [last path]" using False by simp
  have "answers (at_rest s k R N) (bindM (open_last_component fd (last path) OpenDirectory) (\<lambda>r.
          case r of
            Inl e \<Rightarrow> if e = ENOTDIR then throw (NotADirectory ''%s is not a directory'')
                     else throw (SysError e ''opening directory %s'')
          | Inr fd \<Rightarrow> ret fd))
      (case dent s (root @ path) of
     None \<Rightarrow> Inl (SysError ENOENT ''opening directory %s'')
   | Some i \<Rightarrow>
       if in_type (fs_inodes s i) = tDirectory then Inr i
       else if in_type (fs_inodes s i) = tSymlink then Inl (SymlinkNotAllowed ''path %s is a symlink'')
       else Inl (NotADirectory ''%s is not a directory''))" if fd: "dir_fd s fd (root @ butlast path)" for fd
  proof (cases "\<exists>i. dent s (root @ path) = Some i \<and> in_type (fs_inodes s i) = tSymlink")
    case True
    then have "fst (open_last False OpenDirectory (root @ butlast path) (last path) s) = Inl ELOOP"
      unfolding p by (auto simp: open_last_def)
    with open_last_answers [OF assms(1) fd, of OpenDirectory k R N "last path"] True show ?thesis by (auto intro: answers_bind_Inl)
  next
    case False
    define x where "x = fst (open_last False OpenDirectory (root @ butlast path) (last path) s)"
    have x: "x = (case dent s (root @ path) of None \<Rightarrow> Inl ENOENT
        | Some i \<Rightarrow> if in_type (fs_inodes s i) = tDirectory then Inr i else Inl ENOTDIR)"
      using False unfolding p x_def by (auto simp: open_last_def Let_def split: option.split)
    then have "(case x of Inl e \<Rightarrow> if e = ELOOP then Inl (SymlinkNotAllowed ''path %s is a symlink'') else Inr (Inl e) | Inr i \<Rightarrow> Inr (Inr i)) = Inr x"
      by (auto split: option.split)
    then have "answers (at_rest s k R N) (open_last_component fd (last path) OpenDirectory) (Inr x)"
      using open_last_answers [OF assms(1) fd, of OpenDirectory k R N "last path"] by (simp add: x_def)
    with x False show ?thesis
      by (cases "dent s (root @ path)") (auto intro!: answers_bind answers_basic)
  qed
  from parent_answers [where r = "\<lambda>i. case i of
     None \<Rightarrow> Inl (SysError ENOENT ''opening directory %s'')
   | Some i \<Rightarrow>
       if in_type (fs_inodes s i) = tDirectory then Inr i
       else if in_type (fs_inodes s i) = tSymlink then Inl (SymlinkNotAllowed ''path %s is a symlink'')
       else Inl (NotADirectory ''%s is not a directory'')", OF assms False this] False
  show ?thesis by (simp add: openSubdirectory_def subdir_spec_def)
qed

text \<open>The entries as a map: of a name that comes twice the first one, and neither \<open>.\<close> nor \<open>..\<close>.\<close>

definition dir_entries :: "(string \<times> file_type) list \<Rightarrow> (string \<times> file_type option) list \<Rightarrow> (string \<times> file_type option) list" where
  "dir_entries ds found = fold (\<lambda>(n, ty) es. if n = ''.'' \<or> n = ''..'' then es else emplace n (dirent_type ty) es) ds found"

lemma read_entries_quiet: "fs_signals s = [] \<Longrightarrow> read_entries ds found s = (Inr (dir_entries ds found), s)"
  by (induction ds found rule: read_entries.induct) (auto simp: dir_entries_def fs_checkInterrupt_quiet run)

lemma dir_entries_map:
  assumes "map_sorted found"
  shows "map_sorted (dir_entries ds found) \<and> map_of (dir_entries ds found) n =
    (case map_of found n of Some t \<Rightarrow> Some t
     | None \<Rightarrow> if n = ''.'' \<or> n = ''..'' then None else map_option dirent_type (map_of ds n))"
  using assms
proof (induction ds arbitrary: found)
  case Nil
  then show ?case by (simp add: dir_entries_def split: option.split)
next
  case (Cons d ds)
  obtain m ty where d: "d = (m, ty)" by fastforce
  let ?f = "if m = ''.'' \<or> m = ''..'' then found else emplace m (dirent_type ty) found"
  have s: "map_sorted ?f" using Cons.prems by (simp add: emplace_def)
  have m: "map_of ?f n = (if n = m \<and> map_of found m = None \<and> \<not> (m = ''.'' \<or> m = ''..'') then Some (dirent_type ty) else map_of found n)"
    using Cons.prems by (simp add: emplace_def)
  have step: "dir_entries (d # ds) found = dir_entries ds ?f" by (simp add: dir_entries_def d)
  from Cons.IH [OF s] show ?case unfolding step m by (auto simp: d split: option.splits)
qed

lemma map_of_children: "map_of (children s q) n = dent s (q @ [n])"
proof -
  have "map_of [(last r, i). (r, i) \<leftarrow> ds, r \<noteq> [] \<and> butlast r = q] n = map_of ds (q @ [n])" for ds :: "(fpath \<times> nat) list"
  proof (induction ds)
    case (Cons d ds)
    obtain r i where d: "d = (r, i)" by fastforce
    have "r \<noteq> [] \<and> butlast r = q \<and> last r = n \<longleftrightarrow> r = q @ [n]" by (metis append_butlast_last_id butlast_snoc last_snoc snoc_eq_iff_butlast)
    with Cons.IH show ?case by (auto simp: d)
  qed simp
  then show ?thesis by (simp add: children_def dent_def)
qed

lemma sorted_map_eq:
  assumes "map_sorted xs" "map_sorted ys" "map_of xs = map_of ys"
  shows "xs = ys"
proof -
  have d: "sorted (map fst xs)" "distinct (map fst xs)" "sorted (map fst ys)" "distinct (map fst ys)"
    using assms(1,2) by (simp_all add: map_sorted_def strict_sorted_iff)
  have "set xs = set ys" using assms(3) d by (auto simp: map_of_inject_set)
  moreover have "inj_on fst (set xs \<union> set ys)" using d(2) \<open>set xs = set ys\<close> by (simp add: distinct_map)
  ultimately show ?thesis using d by (intro map_sorted_distinct_set_unique [of fst])
qed

definition entries_spec :: "fsys \<Rightarrow> fpath \<Rightarrow> (string \<times> file_type option) list" where
  "entries_spec s q = dir_entries ((''.'', tDirectory) # (''..'', tDirectory) # map (\<lambda>(n, i). (n, in_type (fs_inodes s i))) (children s q)) []"

lemma entries_spec_map:
  "map_sorted (entries_spec s q)"
  "map_of (entries_spec s q) n = (if n = ''.'' \<or> n = ''..'' then None else map_option (\<lambda>i. dirent_type (in_type (fs_inodes s i))) (dent s (q @ [n])))"
proof -
  have m: "map_of (map (\<lambda>(n, i). (n, f i)) xs) n = map_option f (map_of xs n)" for f :: "nat \<Rightarrow> file_type" and xs
    by (induction xs) auto
  note d = dir_entries_map [of "[]" "(''.'', tDirectory) # (''..'', tDirectory) # map (\<lambda>(n, i). (n, in_type (fs_inodes s i))) (children s q)" n]
  show "map_sorted (entries_spec s q)" using d by (simp add: entries_spec_def map_sorted_def)
  show "map_of (entries_spec s q) n = (if n = ''.'' \<or> n = ''..'' then None else map_option (\<lambda>i. dirent_type (in_type (fs_inodes s i))) (dent s (q @ [n])))"
    using d by (auto simp: entries_spec_def map_sorted_def m map_of_children option.map_comp comp_def)
qed

lemma readEntries_answers:
  assumes "good s" "dir_fd s fd q"
  shows "answers (at_rest s k R N) (readEntriesFrom fd) (Inr (entries_spec s q))"
proof -
  have q: "dent s q = Some fd" "is_dir s q" using assms dir_fd_dent [of s fd q] by (auto simp: good_def is_dir_dent)
  have "sysE msg (at_path fd [] sys_readdir) s = (Inr (map (\<lambda>(n, i). (n, i, in_type (fs_inodes s i))) (children s q)), s)" for msg
    using assms q by (simp add: sysE_def at_path_def sys_readdir_def sys_call_quiet dir_fd_def good_def fs_quiet_def)
  moreover have "fs_signals s = []" using assms(1) by (simp add: good_def fs_quiet_def)
  moreover have "map (\<lambda>(n, _, ty). (n, ty)) (map (\<lambda>(n, i). (n, i, in_type (fs_inodes s i))) (children s q)) =
      map (\<lambda>(n, i). (n, in_type (fs_inodes s i))) (children s q)" by auto
  ultimately show ?thesis
    unfolding readEntriesFrom_def
    by (intro answers_fs) (simp add: run read_entries_quiet entries_spec_def del: read_entries.simps map_map)
qed

definition directory_spec :: "fsys \<Rightarrow> fpath \<Rightarrow> string list \<Rightarrow> exn + (string \<times> file_type option) list" where
  "directory_spec s root path = beneath s root path no_parent (\<lambda>i. case i of
     None \<Rightarrow> Inl (SysError ENOENT ''opening directory %s'')
   | Some i \<Rightarrow>
       if in_type (fs_inodes s i) = tDirectory then Inr (entries_spec s (root @ path))
       else if in_type (fs_inodes s i) = tSymlink then Inl (SymlinkNotAllowed ''path %s is a symlink'')
       else Inl (NotADirectory ''%s is not a directory''))"

lemma subdir_fd:
  assumes "good s" "subdir_spec s root path = Inr fd"
  shows "dir_fd s fd (root @ path)"
proof -
  have "dent s (root @ path) = Some fd" "in_type (fs_inodes s fd) = tDirectory"
    using assms(2) by (auto simp: subdir_spec_def beneath_def above_def split: sum.splits option.splits if_splits)
  with assms(1) show ?thesis by (intro fd_path_dir) (simp_all add: good_def)
qed

lemma readDirectory_answers:
  assumes "good s" "acc_on s R N a root"
  shows "answers (at_rest s k R N) (PosixDirectory_readDirectory a path) (directory_spec s root path)"
proof -
  note o = openSubdirectory_answers [OF assms, of k path]
  define r where "r = (case subdir_spec s root path of Inl e \<Rightarrow> Inl e | Inr _ \<Rightarrow> Inr (entries_spec s (root @ path)))"
  have "answers (at_rest s k R N) (bindM (openSubdirectory a path) readEntriesFrom) r"
  proof (cases "subdir_spec s root path")
    case (Inl e)
    with o show ?thesis by (simp add: r_def answers_bind_Inl)
  next
    case (Inr fd)
    from subdir_fd [OF assms(1) this] readEntries_answers [OF assms(1)] o Inr show ?thesis
      by (auto simp: r_def intro: answers_bind)
  qed
  from answers_rethrow [OF this]
  have "answers (at_rest s k R N) (PosixDirectory_readDirectory a path)
      (case r of Inl (SymlinkNotAllowed _) \<Rightarrow> Inl (SymlinkNotAllowed ''path %s is a symlink'') | _ \<Rightarrow> r)"
    by (simp add: PosixDirectory_readDirectory_def)
  moreover have "(case r of Inl (SymlinkNotAllowed _) \<Rightarrow> Inl (SymlinkNotAllowed ''path %s is a symlink'') | _ \<Rightarrow> r) = directory_spec s root path"
    by (auto simp: r_def beneath_def subdir_spec_def directory_spec_def above_def no_parent_def walk_msg_def split: sum.split option.split)
  ultimately show ?thesis by simp
qed

context byte_sink
begin

lemma file_reads:
  assumes "good s" "cb (word_of_nat (length (in_data (fs_inodes s i)))) k = (Inr (), k1)" "has k1 v"
  shows "\<exists>t. PosixFile_readFile \<lparr> fa_fd = i, fa_st = stat_of s i \<rparr> [] sink cb ((g, f, s), k) = (Inr (), ((g, f, s), t)) \<and>
    has t (v @ in_data (fs_inodes s i))"
proof -
  let ?d = "in_data (fs_inodes s i)"
  let ?k = "\<lparr> fd_bytes = ?d, fd_off = 0, fd_seekable = True, fd_script = [], fd_signals = [] \<rparr>"
  have q: "fs_faults s = []" "fs_signals s = []" using assms(1) by (simp_all add: good_def fs_quiet_def)
  have "quiet ?k" by (simp add: quiet_def)
  from copyFdRange_spec [OF this assms(3), of 0 "length ?d"] obtain k' t' where
    c: "copyFdRange 0 (length ?d) sink (?k, k1) = (Inr (), (k', t'))" "quiet k'" "has t' (v @ ?d)" by auto
  have "s\<lparr>fs_faults := [], fs_signals := []\<rparr> = s" using q by simp
  with c q have "with_fd i (length ?d) (copyFdRange 0 (length ?d) sink) ((g, f, s), k1) = (Inr (), ((g, f, s), t'))"
    by (simp add: with_fd_def quiet_def)
  with c(3) assms(2) show ?thesis by (simp add: PosixFile_readFile_def stat_of_def Let_def run)
qed

lemma directory_reads:
  assumes "good s" "acc_on s R N a root" "path \<noteq> []" "walk_at s root (butlast path) = Inr q"
    "dent s (root @ path) = Some i" "in_type (fs_inodes s i) = tRegular"
    "cb (word_of_nat (length (in_data (fs_inodes s i)))) k = (Inr (), k1)" "has k1 v" "at_rest s kf R N p"
  shows "\<exists>p' t. PosixDirectory_readFile a path sink cb (p, k) = (Inr (), (p', t)) \<and> at_rest s kf R N p' \<and>
    has t (v @ in_data (fs_inodes s i))"
proof -
  have pa: "root @ path = (root @ butlast path) @ [last path]" using assms(3) by simp
  obtain fd b where fd: "parent_answer s a root (butlast path) = Inr (Inr (fd, b))"
    using assms(4) by (cases "butlast path = []") (auto simp: parent_answer_def)
  have d: "dir_fd s fd (root @ butlast path)" using parent_answer_dir [OF assms(1,2) fd] .
  have "answers (at_rest s kf R N) (parent_of a path) (Inr fd)"
    using parent_of_answers [OF assms(1-3), of kf] fd by (simp add: parent_fd_def)
  then obtain p1 where 1: "parent_of a path p = (Inr fd, p1)" "at_rest s kf R N p1"
    using assms(9) unfolding answers_def by blast
  have "fst (open_last False OpenReadonly (root @ butlast path) (last path) s) = Inr i"
    using assms(5,6) unfolding pa by (simp add: open_last_def)
  with open_last_answers [OF assms(1) d, of OpenReadonly kf R N "last path"]
  have "answers (at_rest s kf R N) (open_last_component fd (last path) OpenReadonly) (Inr (Inr i))" by simp
  with 1(2) obtain p2 where 2: "open_last_component fd (last path) OpenReadonly p1 = (Inr (Inr i), p2)" "at_rest s kf R N p2"
    unfolding answers_def by blast
  obtain g where g: "p2 = (g, kf, s)" using 2(2) by (cases p2) (auto simp: at_rest_def)
  have st: "onL (on_fsys (fd_stat i)) (p2, k) = (Inr (stat_of s i), (p2, k))"
    by (simp add: g on_fsys_def fd_stat_quiet [OF assms(1)])
  have ty: "ps_type (stat_of s i) = tRegular" using assms(6) by (simp add: stat_of_def Let_def)
  obtain t where t: "PosixFile_readFile \<lparr> fa_fd = i, fa_st = stat_of s i \<rparr> [] sink cb (p2, k) = (Inr (), (p2, t))"
    "has t (v @ in_data (fs_inodes s i))"
    using file_reads [where cb = cb and s = s and i = i, OF assms(1,7,8), of g kf] unfolding g by blast
  have "PosixDirectory_readFile a path sink cb (p, k) = (Inr (), (p2, t))"
    using assms(3) 1(1) 2(1) t(1) ty st by (simp add: PosixDirectory_readFile_def run)
  with 2(2) t(2) show ?thesis by blast
qed

end

subsection \<open>Accessors come and go\<close>

lemma cached_fresh: "globals_ok s R N g \<Longrightarrow> pg_caches g (pg_next g) = None \<and> pg_next g \<notin> N"
  unfolding globals_ok_def count_ok_def by (metis dirFdCache_def less_irrefl option.simps(4))

lemma accessor_made:
  assumes "globals_ok s R N g"
  defines "a \<equiv> pg_next g"
  shows "\<exists>g'. PosixDirectorySourceAccessor fd n g = (Inr \<lparr> da_id = a, da_dirFd = fd \<rparr>, g') \<and>
    globals_ok s (R(a := root)) (if n = 0 then N else insert a N) (registerAccessor a g') \<and>
    (n = 0 \<longrightarrow> globals_ok s R N g')"
proof -
  let ?h = "g\<lparr>pg_caches := (pg_caches g)(a \<mapsto> if n \<noteq> 0 then Some (lru_new n) else None), pg_next := Suc a\<rparr>"
  have fresh: "pg_caches g a = None" "a \<notin> N" "dirFdCache a g = None"
    using cached_fresh [OF assms(1)] by (simp_all add: a_def dirFdCache_def)
  have d: "dirFdCache b ?h = (if b = a then if n = 0 then None else Some (lru_new n) else dirFdCache b g)" for b
    by (simp add: dirFdCache_def)
  have c: "cached ?h = cached g"
  proof
    fix b show "cached ?h b = cached g b" unfolding cached_def d using fresh(3) by (simp add: lru_new_def lru_size_def)
  qed
  have "cached g a = 0" using fresh(3) by (simp add: cached_def)
  then have count: "count_ok ?h" using assms(1) unfolding count_ok_def c by (auto simp: globals_ok_def count_ok_def a_def less_Suc_eq)
  let ?k = "registerAccessor a ?h"
  have k: "dirFdCache b ?k = dirFdCache b ?h" for b by (simp add: registerAccessor_def)
  have "count_ok ?k" using count by (simp add: registerAccessor_def count_ok_def)
  moreover have "registered ?k"
  proof -
    have "b \<in> set (globalDirFdCacheRegistry ?k)" if b: "dirFdCache b ?k \<noteq> None" for b
    proof (cases "b = a")
      case False
      with b have "dirFdCache b g \<noteq> None" unfolding k d by simp
      moreover from this assms(1) have "b \<in> set (globalDirFdCacheRegistry g)" by (simp add: globals_ok_def registered_def)
      moreover obtain x where "dirFdCache b g = Some x" using \<open>dirFdCache b g \<noteq> None\<close> by blast
      then have "pg_caches g b \<noteq> None" by (rule cache_live)
      ultimately have "b \<in> set (globalDirFdCacheRegistry g)" "pg_caches g b \<noteq> None" by blast+
      with False show ?thesis by (simp add: registerAccessor_def)
    qed (simp add: registerAccessor_def)
    then show ?thesis by (simp add: registered_def)
  qed
  moreover have "cache_ok s ((R(a := root)) b) x" if "dirFdCache b ?k = Some x" for b x
    using that assms(1) unfolding k d by (auto simp: globals_ok_def cache_ok_def lru_new_def split: if_splits)
  moreover have "dirFdCache b ?k \<noteq> None \<longleftrightarrow> b \<in> (if n = 0 then N else insert a N)" for b
    using assms(1) fresh(2) unfolding k d by (auto simp: globals_ok_def)
  ultimately have "globals_ok s (R(a := root)) (if n = 0 then N else insert a N) ?k" unfolding globals_ok_def by blast
  moreover have "globals_ok s R N ?h" if "n = 0"
  proof -
    have same: "dirFdCache b ?h = dirFdCache b g" for b unfolding d using that fresh(3) by simp
    show ?thesis using assms(1) count unfolding globals_ok_def registered_def same by simp
  qed
  ultimately show ?thesis by (simp add: PosixDirectorySourceAccessor_def a_def run)
qed

lemma accessor_destroyed:
  assumes "globals_ok s R N g"
  shows "\<exists>g'. PosixDirectory_destroy a g = (Inr (), g') \<and> globals_ok s R (N - {da_id a}) g'"
proof -
  let ?a = "da_id a"
  let ?c = "clear_cache ?a g"
  let ?h = "?c\<lparr>pg_caches := (pg_caches ?c)(?a := None)\<rparr>"
  have count: "count_ok ?c" using assms by (intro count_ok_clear) (simp add: globals_ok_def)
  have d: "dirFdCache b ?h = (if b = ?a then None else dirFdCache b g)" for b
    using clear_sel(5) [of b ?a g] by (auto simp: dirFdCache_def)
  have "cached ?h b = cached ?c b" for b
    by (simp add: cached_def d clear_sel lru_clear_def lru_size_def split: option.split)
  then have "count_ok ?h" using count by (auto simp: count_ok_def)
  moreover have "registered ?h" using assms unfolding registered_def d by (simp add: clear_sel globals_ok_def registered_def)
  moreover have "cache_ok s (R b) x" if "dirFdCache b ?h = Some x" for b x
    using that assms unfolding d by (auto simp: globals_ok_def split: if_splits)
  moreover have "dirFdCache b ?h \<noteq> None \<longleftrightarrow> b \<in> N - {?a}" for b
    using assms unfolding d by (auto simp: globals_ok_def)
  ultimately have "globals_ok s R (N - {?a}) ?h" unfolding globals_ok_def by blast
  then show ?thesis by (simp add: PosixDirectory_destroy_def invalidateCache_def run)
qed

subsection \<open>Dumping a tree on disk\<close>

text \<open>A sink beside a state that keeps an invariant.\<close>

locale beside_sink = byte_sink has sink for has :: "'k \<Rightarrow> string \<Rightarrow> bool" and sink :: "'k sink" +
  fixes inv :: "'p \<Rightarrow> bool"
begin

lemma beside_accepts: "byte_sink (\<lambda>(p, k) v. inv p \<and> has k v) (\<lambda>data. onR (sink data))"
proof
  fix s :: "'p \<times> 'k" and w data assume h: "(\<lambda>(p, k) v. inv p \<and> has k v) s w"
  obtain p k where s: "s = (p, k)" by fastforce
  obtain t where "sink data k = (Inr (), t)" "has t (w @ data)" using accepts [of k w data] h s by auto
  then show "\<exists>t. onR (sink data) s = (Inr (), t) \<and> (\<lambda>(p, k) v. inv p \<and> has k v) t (w @ data)" using h s by simp
qed

end

sublocale beside_sink \<subseteq> beside: byte_sink "\<lambda>(p, k) v. inv p \<and> has k v" "\<lambda>data. onR (sink data)"
  by (rule beside_accepts)

text \<open>An accessor that shows a tree at a path.\<close>

definition shows_at :: "fsys \<Rightarrow> (nat \<Rightarrow> fpath) \<Rightarrow> nat set \<Rightarrow> posix_accessor \<Rightarrow> CanonPath \<Rightarrow> fso \<Rightarrow> bool" where
  "shows_at s R N acc path x \<longleftrightarrow> canonical path \<and> (case acc of
     DirectoryAccessor a \<Rightarrow> (\<exists>root. acc_on s R N a root \<and> reads s (root @ components path) x \<and>
       (\<exists>q. walk_at s root (butlast (components path)) = Inr q) \<and> (components path = [] \<longrightarrow> is_Directory x))
   | FileAccessor f \<Rightarrow> components path = [] \<and> (\<exists>b c i. x = Regular b c \<and> f = \<lparr> fa_fd = i, fa_st = stat_of s i \<rparr> \<and>
       in_type (fs_inodes s i) = tRegular \<and> in_data (fs_inodes s i) = c \<and> (b \<longleftrightarrow> in_mode (fs_inodes s i) AND 0x40 \<noteq> 0))
   | SymlinkAccessor m \<Rightarrow> components path = [] \<and> (\<exists>g. x = Symlink g \<and> m = Some x))"

lemma reads_stat:
  assumes "reads s q x" "dent s q = Some i"
  shows "posix_stat (stat_of s i) = file_lstat x"
  using assms by (cases x) (auto simp: posix_stat_def stat_of_def file_lstat_def Let_def is_dir_dent)

lemma reads_dent: "reads s q x \<Longrightarrow> \<exists>i. dent s q = Some i"
  by (cases x) (auto simp: is_dir_dent split: option.splits)

lemma directory_components:
  assumes "good s" "acc_on s R N a root" "reads s (root @ cs) x" "cs = [] \<longrightarrow> is_Directory x" "\<exists>q. walk_at s root (butlast cs) = Inr q"
  obtains i where "dent s (root @ cs) = Some i" "lstat_spec s root cs = Inr (Some (file_lstat x))"
    "x = Symlink g \<Longrightarrow> link_spec s root cs = Inr g" "x = Directory es \<Longrightarrow> subdir_spec s root cs = Inr i"
proof -
  obtain i where i: "dent s (root @ cs) = Some i" using reads_dent [OF assms(3)] by blast
  obtain q where q: "walk_at s root (butlast cs) = Inr q" using assms(5) by blast
  have "lstat_spec s root cs = Inr (Some (file_lstat x))"
    using i q reads_stat [OF assms(3) i] by (simp add: lstat_spec_def beneath_def)
  moreover have "link_spec s root cs = Inr g" if "x = Symlink g"
    using that i q assms(3) by (simp add: link_spec_def beneath_def)
  moreover have "subdir_spec s root cs = Inr i" if "x = Directory es"
    using that i q assms(3) by (simp add: subdir_spec_def beneath_def is_dir_dent)
  ultimately show ?thesis using i that by blast
qed

lemma lstat_shown:
  assumes "good s" "shows_at s R N acc path x"
  shows "answers (at_rest s k R N) (posix_lstat acc path) (Inr (file_lstat x))"
proof (cases acc)
  case (FileAccessor f)
  with assms(2) show ?thesis
    by (auto simp: shows_at_def posix_lstat_def posix_maybeLstat_def PosixFile_maybeLstat_def posix_stat_def stat_of_def file_lstat_def Let_def
        intro!: answers_bind answers_basic)
next
  case (SymlinkAccessor m)
  with assms(2) obtain g where g: "x = Symlink g" "m = Some x" "canonical path" "components path = []" by (auto simp: shows_at_def)
  have "mem_maybeLstat m path = Inr (Some (file_lstat x))"
    using memory_lstat [of x path x] g
    by (auto simp: acc_lstat_def memory_accessor_def bindE_def split: sum.splits option.splits)
  with SymlinkAccessor have "answers (at_rest s k R N) (posix_maybeLstat acc path) (Inr (Some (file_lstat x)))"
    using answers_basic(3) by (simp add: posix_maybeLstat_def)
  then show ?thesis unfolding posix_lstat_def by (rule answers_bind) (simp add: answers_basic)
next
  case (DirectoryAccessor a)
  with assms(2) obtain root q where r: "acc_on s R N a root" "reads s (root @ components path) x"
    "walk_at s root (butlast (components path)) = Inr q" "components path = [] \<longrightarrow> is_Directory x" by (auto simp: shows_at_def)
  then have "lstat_spec s root (components path) = Inr (Some (file_lstat x))"
    using directory_components [OF assms(1) r(1,2,4)] by blast
  with maybeLstat_answers [OF assms(1) r(1), of k "components path"]
  have "answers (at_rest s k R N) (posix_maybeLstat acc path) (Inr (Some (file_lstat x)))"
    by (simp add: posix_maybeLstat_def DirectoryAccessor)
  then show ?thesis unfolding posix_lstat_def by (rule answers_bind) (simp add: answers_basic)
qed

lemma link_shown:
  assumes "good s" "shows_at s R N acc path (Symlink g)"
  shows "answers (at_rest s k R N) (posix_readLink acc path) (Inr g)"
proof (cases acc)
  case (SymlinkAccessor m)
  with assms(2) have "m = Some (Symlink g)" "canonical path" "components path = []" by (auto simp: shows_at_def)
  then have "mem_readLink m path = Inr g" using mem_file_Some [of m "Symlink g" path] by (simp add: mem_readLink_def)
  with SymlinkAccessor show ?thesis using answers_basic(3) by (simp add: posix_readLink_def)
next
  case (DirectoryAccessor a)
  with assms(2) obtain root q where r: "acc_on s R N a root" "reads s (root @ components path) (Symlink g)"
    "walk_at s root (butlast (components path)) = Inr q" "components path = [] \<longrightarrow> is_Directory (Symlink g)" by (auto simp: shows_at_def)
  then have "link_spec s root (components path) = Inr g"
    using directory_components [OF assms(1) r(1,2,4)] by blast
  with readLink_answers [OF assms(1) r(1), of k "components path"] show ?thesis by (simp add: posix_readLink_def DirectoryAccessor)
qed (use assms(2) in \<open>simp add: shows_at_def\<close>)

lemma reads_type: "reads s q x \<Longrightarrow> dent s q = Some i \<Longrightarrow> dirent_type (in_type (fs_inodes s i)) = Some (st_type (file_lstat x))"
  by (cases x) (auto simp: file_lstat_def dirent_type_def is_dir_dent)

lemma entries_shown:
  assumes "reads s q (Directory es)" "file_ok (Directory es)"
  shows "entries_spec s q = map (\<lambda>(n, c). (n, Some (st_type (file_lstat c)))) es"
proof (rule sorted_map_eq)
  have fst: "map fst (map (\<lambda>(n, c). (n, f c)) es) = map fst es" for f :: "fso \<Rightarrow> file_type option" by auto
  show "map_sorted (entries_spec s q)" by (rule entries_spec_map)
  show "map_sorted (map (\<lambda>(n, c). (n, Some (st_type (file_lstat c)))) es)"
    using assms(2) unfolding map_sorted_def fst by (simp add: map_sorted_def)
  show "map_of (entries_spec s q) = map_of (map (\<lambda>(n, c). (n, Some (st_type (file_lstat c)))) es)"
  proof
    fix n
    have m: "map_of (map (\<lambda>(n, c). (n, Some (st_type (file_lstat c)))) xs) n = map_option (\<lambda>c. Some (st_type (file_lstat c))) (map_of xs n)" for xs :: "(string \<times> fso) list"
      by (induction xs) auto
    show "map_of (entries_spec s q) n = map_of (map (\<lambda>(n, c). (n, Some (st_type (file_lstat c)))) es) n"
    proof (cases "map_of es n")
      case None
      then have "n \<notin> fst ` set (children s q)" using assms(1) by (simp add: map_of_eq_None_iff)
      then have "dent s (q @ [n]) = None" by (simp add: names_dent)
      with None show ?thesis unfolding m by (simp add: entries_spec_map)
    next
      case (Some c)
      then have c: "(n, c) \<in> set es" by (rule map_of_SomeD)
      with assms have r: "reads s (q @ [n]) c" "valid_component n" by (auto simp: list_all_iff)
      obtain i where i: "dent s (q @ [n]) = Some i" using reads_dent [OF r(1)] by blast
      have "n \<noteq> ''.'' \<and> n \<noteq> ''..''" using r(2) by (auto simp: valid_component_def good_component_def)
      with Some i reads_type [OF r(1) i] show ?thesis unfolding m by (simp add: entries_spec_map)
    qed
  qed
qed

context byte_sink
begin

lemma readFile_shown:
  assumes "good s" "shows_at s R N acc path (Regular b c)" "cb (word_of_nat (length c)) k = (Inr (), k1)" "has k1 v" "at_rest s kf R N p"
  shows "\<exists>p' t. posix_readFile acc path sink cb (p, k) = (Inr (), (p', t)) \<and> at_rest s kf R N p' \<and> has t (v @ c)"
proof (cases acc)
  case (FileAccessor f)
  with assms(2) obtain i where i: "f = \<lparr> fa_fd = i, fa_st = stat_of s i \<rparr>" "in_data (fs_inodes s i) = c" "components path = []"
    by (auto simp: shows_at_def)
  obtain g where g: "p = (g, kf, s)" using assms(5) by (cases p) (auto simp: at_rest_def)
  from file_reads [where cb = cb and s = s and i = i, OF assms(1) _ assms(4), of k g kf] assms(3,5) i
  show ?thesis unfolding g posix_readFile_def FileAccessor by auto
next
  case (DirectoryAccessor a)
  with assms(2) obtain root q where r: "acc_on s R N a root" "reads s (root @ components path) (Regular b c)"
    "walk_at s root (butlast (components path)) = Inr q" "components path \<noteq> []" by (auto simp: shows_at_def is_Directory_def)
  obtain i where i: "dent s (root @ components path) = Some i" using reads_dent [OF r(2)] by blast
  with r(2) have t: "in_type (fs_inodes s i) = tRegular" "in_data (fs_inodes s i) = c" by auto
  from directory_reads [where cb = cb, OF assms(1) r(1,4,3) i t(1) _ assms(4,5), of k] assms(3) show ?thesis
    by (simp add: posix_readFile_def DirectoryAccessor t(2))
next
  case (SymlinkAccessor m)
  with assms(2) show ?thesis by (simp add: shows_at_def)
qed

end

locale disk_dump = beside_sink has sink "at_rest s kf R N"
  for has :: "'k \<Rightarrow> string \<Rightarrow> bool" and sink :: "'k sink" and s kf R N
begin

abbreviation "out \<equiv> \<lambda>data. (onR (sink data) :: (posix \<times> 'k, unit) M)"

lemma contents_shown:
  assumes "good s" "shows_at s R N acc path (Regular b c)" "length c < 2 ^ 64"
  shows "beside.writes (posix_dumpContents acc sink path) (wires [''contents'', c])"
  unfolding beside.writes_def
proof (intro allI impI)
  let ?n = "word_of_nat (length c) :: 64 word"
  fix pk v assume "(\<lambda>(p, k) v. at_rest s kf R N p \<and> has k v) pk v"
  then obtain p k0 where p: "pk = (p, k0)" "at_rest s kf R N p" "has k0 v" by auto
  obtain k w where k: "writeString sink ''contents'' k0 = (Inr (), k)" "has k w" "w = v @ wire ''contents''"
    using writes_string p(3) unfolding writes_def by blast
  obtain k1 where 1: "write_u64 sink ?n k = (Inr (), k1)" "has k1 (w @ le64 ?n)"
    using writes_u64 k(2) unfolding writes_def by blast
  let ?cb = "\<lambda>n. seqM (onR (modS (\<lambda>_. Some n))) (onL (write_u64 sink n))"
  have cb: "?cb ?n (k, None) = (Inr (), (k1, Some ?n))" using 1(1) by (simp add: run)
  obtain p2 k2 where 2: "posix_readFile acc path (\<lambda>data. onL (sink data)) ?cb (p, (k, None)) = (Inr (), (p2, (k2, Some ?n)))"
      "has k2 ((w @ le64 ?n) @ c)" "at_rest s kf R N p2"
    using byte_sink.readFile_shown [OF sized_sink assms(1,2), where cb = ?cb and v = "w @ le64 ?n", OF cb _ p(2)] 1(2) by auto
  obtain k3 where 3: "writePadding sink (unat ?n) k2 = (Inr (), k3)" "has k3 (((w @ le64 ?n) @ c) @ padding (length c))"
    using writes_padding 2(2) padding_u64 unfolding writes_def by metis
  have "v @ wires [''contents'', c] = ((w @ le64 ?n) @ c) @ padding (length c)"
    by (simp add: wires_def k(3) wire_def [of c])
  with 2 3 k(1) show "\<exists>t. posix_dumpContents acc sink path pk = (Inr (), t) \<and> (\<lambda>(p, k) v. at_rest s kf R N p \<and> has k v) t (v @ wires [''contents'', c])"
    unfolding p(1) by (simp add: posix_dumpContents_def)
qed

lemma enter_shown:
  assumes "good s" "shows_at s R N acc path (Directory es)" "file_ok (Directory es)"
    and "\<And>sub. shows_at s R N (DirectoryAccessor sub) cp_root (Directory es) \<Longrightarrow>
      beside.writes (callback (DirectoryAccessor sub) cp_root (map (\<lambda>(n, c). (n, Some (st_type (file_lstat c)))) es)) d"
  shows "beside.writes (posix_enterDirectory acc path callback) d"
  unfolding beside.writes_def
proof (intro allI impI)
  fix pk v assume "(\<lambda>(p, k) v. at_rest s kf R N p \<and> has k v) pk v"
  then obtain p k where p: "pk = (p, k)" "at_rest s kf R N p" "has k v" by auto
  obtain a where a: "acc = DirectoryAccessor a" using assms(2) by (cases acc) (auto simp: shows_at_def)
  with assms(2) obtain root q where r: "acc_on s R N a root" "reads s (root @ components path) (Directory es)"
    "walk_at s root (butlast (components path)) = Inr q" by (auto simp: shows_at_def)
  obtain fd where fd: "subdir_spec s root (components path) = Inr fd"
    using directory_components [OF assms(1) r(1,2)] r(3) by (auto simp: is_Directory_def)
  let ?q = "root @ components path"
  have d: "dir_fd s fd ?q" using subdir_fd [OF assms(1) fd] .
  obtain g where 1: "openSubdirectory a (components path) p = (Inr fd, (g, kf, s))" "globals_ok s R N g"
    using openSubdirectory_answers [OF assms(1) r(1), of kf "components path"] p(2) fd
    unfolding answers_def at_rest_def by fastforce
  obtain g1 where g1: "PosixDirectorySourceAccessor fd 0 g = (Inr \<lparr> da_id = pg_next g, da_dirFd = fd \<rparr>, g1)" "globals_ok s R N g1"
    using accessor_made [OF 1(2), of fd 0] by auto
  define sub where "sub = \<lparr> da_id = pg_next g, da_dirFd = fd \<rparr>"
  have id: "da_id sub \<notin> N" using cached_fresh [OF 1(2)] by (simp add: sub_def)
  have on: "acc_on s R N sub ?q" using d id by (simp add: acc_on_def sub_def)
  have dup: "sysE msg (sys_dup fd) s = (Inr fd, s)" for msg
    using assms(1) by (simp add: sysE_def sys_dup_def sys_call_quiet good_def fs_quiet_def)
  obtain g2 where g2: "readEntriesFrom fd (g1, kf, s) = (Inr (entries_spec s ?q), (g2, kf, s))" "globals_ok s R N g2"
    using readEntries_answers [OF assms(1) d, of kf R N] g1(2) unfolding answers_def at_rest_def by fastforce
  have "shows_at s R N (DirectoryAccessor sub) cp_root (Directory es)"
    using on r(2) by (auto simp: shows_at_def root_path is_Directory_def intro: exI [of _ "?q"])
  from assms(4) [OF this] entries_shown [OF r(2) assms(3)]
  have "beside.writes (callback (DirectoryAccessor sub) cp_root (entries_spec s ?q)) d" by simp
  from beside.writesD [OF this, of "((g2, kf, s), k)" v] g2(2) p(3)
  obtain g3 k3 where 3: "callback (DirectoryAccessor sub) cp_root (entries_spec s ?q) ((g2, kf, s), k) = (Inr (), ((g3, kf, s), k3))"
    "globals_ok s R N g3" "has k3 (v @ d)" by (auto simp: at_rest_def)
  obtain g4 where g4: "PosixDirectory_destroy sub g3 = (Inr (), g4)" "globals_ok s R N g4"
    using accessor_destroyed [OF 3(2), of sub] id by auto
  have "posix_enterDirectory acc path callback pk = (Inr (), ((g4, kf, s), k3))"
    using 1(1) g1(1) g2(1) 3(1) g4(1) dup
    by (simp add: p(1) a posix_enterDirectory_def PosixDirectory_enterDirectory_def run on_fsys_def finallyM_def sub_def [symmetric])
  with g4(2) 3(3) show "\<exists>t. posix_enterDirectory acc path callback pk = (Inr (), t) \<and>
      (\<lambda>(p, k) v. at_rest s kf R N p \<and> has k v) t (v @ d)" by (auto simp: at_rest_def)
qed

end

context disk_dump
begin

lemma writes_answer: "answers (at_rest s kf R N) m (Inr x) \<Longrightarrow> beside.writes (f x) d \<Longrightarrow> beside.writes (bindM (onL m) f) d"
  unfolding answers_def beside.writes_def
proof (intro allI impI)
  fix pk v assume m: "\<forall>p. at_rest s kf R N p \<longrightarrow> (\<exists>p'. m p = (Inr x, p') \<and> at_rest s kf R N p')"
    and f: "\<forall>s' w. (\<lambda>(p, k) v. at_rest s kf R N p \<and> has k v) s' w \<longrightarrow>
      (\<exists>t. f x s' = (Inr (), t) \<and> (\<lambda>(p, k) v. at_rest s kf R N p \<and> has k v) t (w @ d))"
    and h: "(\<lambda>(p, k) v. at_rest s kf R N p \<and> has k v) pk v"
  obtain p k where pk: "pk = (p, k)" by fastforce
  have "at_rest s kf R N p" using h pk by simp
  with m obtain p' where p': "m p = (Inr x, p')" "at_rest s kf R N p'" by blast
  then have "bindM (onL m) f pk = f x (p', k)" by (simp add: pk bindM_def)
  with f [rule_format, of "(p', k)" v] p'(2) h pk
  show "\<exists>t. bindM (onL m) f pk = (Inr (), t) \<and> (\<lambda>(p, k) v. at_rest s kf R N p \<and> has k v) t (v @ d)" by simp
qed

lemma dump_step:
  assumes "good s" "depth < 64" "answers (at_rest s kf R N) (posix_lstat acc path) (Inr st)"
    and "beside.writes
            (case st_type st of
               tRegular \<Rightarrow>
                 seqM (writeAll out [''type'', ''regular''])
                   (seqM (if isExecutable st then writeAll out [''executable'', ''''] else ret ())
                     (posix_dumpContents acc sink path))
             | tDirectory \<Rightarrow>
                 seqM (writeAll out [''type'', ''directory''])
                   (posix_enterDirectory acc path (\<lambda>subdirAccessor subdirRelPath entries.
                     forM (\<lambda>(name, _).
                         seqM (writeAll out [''entry'', ''('', ''name'', name, ''node''])
                           (bindM (liftE (push subdirRelPath name)) (\<lambda>child.
                              seqM (posix_dump subdirAccessor sink child (depth + 1)) (writeString out '')''))))
                       (filter (\<lambda>(_, t). \<not> (t = Some tFifo \<or> t = Some tSocket)) entries)))
             | tSymlink \<Rightarrow>
                 seqM (writeAll out [''type'', ''symlink'', ''target''])
                   (bindM (onL (posix_readLink acc path)) (writeString out))
             | _ \<Rightarrow> throw (Error ''file %s has an unsupported type'')) d"
  shows "beside.writes (posix_dump acc sink path depth) (wire ''('' @ d @ wire '')'')"
proof -
  have d: "(narMaxDepth \<le> depth) = False" using assms(2) by (simp add: narMaxDepth_def)
  have c: "answers (at_rest s kf R N) (on_fsys fs_checkInterrupt) (Inr ())"
    using assms(1) by (intro answers_fs fs_checkInterrupt_quiet) (simp add: good_def fs_quiet_def)
  show ?thesis
    unfolding posix_dump.simps [of acc sink path depth] d if_False Let_def
    by (intro writes_answer [OF c] writes_answer [OF assms(3)] beside.writes_seq beside.writes_string assms(4))
qed

text \<open>The dump of a tree is its NAR, whatever the caches hold.\<close>

lemma writes_dump:
  assumes "good s" "shows_at s R N acc path x" "file_ok x" "depth + levels x \<le> 64" "small x"
  shows "beside.writes (posix_dump acc sink path depth) (nar_node x)"
  using assms(2-)
proof (induction x arbitrary: acc path depth)
  case (Regular b c)
  have eq: "nar_node (Regular b c) = wire ''('' @ (wires [''type'', ''regular''] @
      (if b then wires [''executable'', ''''] else []) @ wires [''contents'', c]) @ wire '')''"
    by (simp add: wires_def)
  have ex: "beside.writes (if b then writeAll out [''executable'', ''''] else ret ())
      (if b then wires [''executable'', ''''] else [])"
    by (cases b) (simp_all add: beside.writes_all beside.writes_ret)
  have "length c < 2 ^ 64" "depth < 64" using Regular by simp_all
  then show ?case
    unfolding eq
    by (intro dump_step [OF assms(1) _ lstat_shown [OF assms(1) Regular(1)]])
       (simp, simp only: file_lstat_def fso.case Stat.simps file_type.case,
        intro beside.writes_seq beside.writes_all ex contents_shown [OF assms(1) Regular(1)])
next
  case (Symlink t)
  have eq: "nar_node (Symlink t) = wire ''('' @ (wires [''type'', ''symlink'', ''target''] @ wire t) @ wire '')''"
    by (simp add: wires_def)
  have "depth < 64" using Symlink by simp
  then show ?case
    unfolding eq
    by (intro dump_step [OF assms(1) _ lstat_shown [OF assms(1) Symlink(1)]])
       (simp, simp only: file_lstat_def fso.case Stat.simps file_type.case,
        intro beside.writes_seq beside.writes_all writes_answer [OF link_shown [OF assms(1) Symlink(1)]] beside.writes_string)
next
  case (Directory es)
  define g where "g = (\<lambda>(n, c). wires [''entry'', ''('', ''name'', n, ''node''] @ nar_node c @ wire '')'')"
  have eq: "nar_node (Directory es) = wire ''('' @ (wires [''type'', ''directory''] @ concat (map g es)) @ wire '')''"
    by (simp add: wires_def g_def)
  define entries where "entries = map (\<lambda>(n, c). (n, Some (st_type (file_lstat c)))) es"
  have keep: "filter (\<lambda>(_, t). \<not> (t = Some tFifo \<or> t = Some tSocket)) entries = entries"
    by (auto simp: filter_id_conv entries_def file_lstat_def split: fso.splits)
  have child: "beside.writes (seqM (writeAll out [''entry'', ''('', ''name'', n, ''node''])
        (bindM (liftE (push cp_root n)) (\<lambda>child.
          seqM (posix_dump (DirectoryAccessor sub) sink child (depth + 1)) (writeString out '')'')))) (g (n, c))"
    if "(n, c) \<in> set es" and sub: "shows_at s R N (DirectoryAccessor sub) cp_root (Directory es)" for n c sub
  proof -
    have m: "valid_component n" "file_ok c" using Directory(3) that by (auto simp: list_all_iff)
    obtain q where q: "push cp_root n = Inr q" "canonical q" "components q = [n]"
      using canonical_push [OF root_path(1) m(1)] by (auto simp: root_path)
    obtain root where root: "acc_on s R N sub root" "reads s root (Directory es)" using sub by (auto simp: shows_at_def root_path)
    then have "reads s (root @ [n]) c" using that(1) by (auto simp: list_all_iff)
    with root q have "shows_at s R N (DirectoryAccessor sub) q c" by (auto simp: shows_at_def)
    moreover have "Suc depth + levels c \<le> 64" "small c"
      using levels_child [OF that(1)] Directory(4,5) that(1) by (auto simp: list_all_iff)
    ultimately have "beside.writes (posix_dump (DirectoryAccessor sub) sink q (depth + 1)) (nar_node c)"
      using Directory(1) [OF that(1) _ _ m(2), where acc = "DirectoryAccessor sub" and path = q and depth = "Suc depth"] by simp
    then show ?thesis
      unfolding g_def prod.case
      by (intro beside.writes_seq beside.writes_all beside.writes_lift [OF q(1)] beside.writes_string)
  qed
  have all: "beside.writes (forM (\<lambda>(name, _). seqM (writeAll out [''entry'', ''('', ''name'', name, ''node''])
        (bindM (liftE (push cp_root name)) (\<lambda>child.
          seqM (posix_dump (DirectoryAccessor sub) sink child (depth + 1)) (writeString out '')''))))
      (filter (\<lambda>(_, t). \<not> (t = Some tFifo \<or> t = Some tSocket)) entries)) (concat (map g es))"
    if sub: "shows_at s R N (DirectoryAccessor sub) cp_root (Directory es)" for sub
    unfolding keep unfolding entries_def forM_map
  proof (rule beside.writes_forM)
    fix e assume e: "e \<in> set es"
    obtain n c where nc: "e = (n, c)" by fastforce
    show "beside.writes (case case e of (n, c) \<Rightarrow> (n, Some (st_type (file_lstat c))) of
        (name, _) \<Rightarrow> seqM (writeAll out [''entry'', ''('', ''name'', name, ''node''])
          (bindM (liftE (push cp_root name)) (\<lambda>child.
            seqM (posix_dump (DirectoryAccessor sub) sink child (depth + 1)) (writeString out '')'')))) (g e)"
      unfolding nc prod.case by (rule child) (use e nc sub in simp_all)
  qed
  have "depth < 64" using Directory(4) by simp
  then show ?case
    unfolding eq
    by (intro dump_step [OF assms(1) _ lstat_shown [OF assms(1) Directory(2)]])
       (simp, simp only: file_lstat_def fso.case Stat.simps file_type.case,
        intro beside.writes_seq beside.writes_all enter_shown [OF assms(1) Directory(2,3)] all [unfolded entries_def])
qed

end

lemma symlink_accessor: "MemorySink_createSymlink cp_root t None = (Inr (), Some (Symlink t))"
proof -
  have "isRoot cp_root" by (simp add: isRoot_def cp_root_def)
  then show ?thesis by (simp add: MemorySink_createSymlink_def mem_open_def mem_node_def mem_write_def root_path run)
qed

lemma globals_ok_roots: "globals_ok s R N g \<Longrightarrow> (\<And>b. b \<in> N \<Longrightarrow> R b = R' b) \<Longrightarrow> globals_ok s R' N g"
  unfolding globals_ok_def by (metis option.distinct(1))

text \<open>The accessor of a path shows the tree there, and is gone without a trace.\<close>

lemma accessor_shows:
  assumes "good s" "reads s root x" "at_rest s kf R N p"
  shows "\<exists>acc p1 R' N'. makeFSSourceAccessor root p = (Inr acc, p1) \<and> at_rest s kf R' N' p1 \<and> shows_at s R' N' acc cp_root x \<and>
    (\<forall>q. at_rest s kf R' N' q \<longrightarrow> (\<exists>q'. posix_destroy acc q = (Inr (), q') \<and> at_rest s kf R N q'))"
proof -
  obtain g where p: "p = (g, kf, s)" "globals_ok s R N g" using assms(3) by (cases p) (auto simp: at_rest_def)
  have s: "fs_ok s" "dirs_single s" "fs_quiet s" "fs_faults s = []" using assms(1) by (simp_all add: good_def fs_quiet_def)
  obtain i where i: "dent s root = Some i" using reads_dent [OF assms(2)] by blast
  let ?ty = "in_type (fs_inodes s i)"
  have op: "sysR (sys_open_readonly root) s = (Inr (if ?ty = tSymlink then Inl ELOOP else Inr i), s)"
    using i s(4) by (simp add: sysR_def sys_open_readonly_def sys_call_quiet)
  note st = fd_stat_quiet [OF assms(1), of i]
  have ps: "ps_type (stat_of s i) = ?ty" by (simp add: stat_of_def Let_def)
  show ?thesis
  proof (cases x)
    case (Regular b c)
    with assms(2) i have r: "?ty = tRegular" "in_data (fs_inodes s i) = c" "b \<longleftrightarrow> in_mode (fs_inodes s i) AND 0x40 \<noteq> 0" by auto
    let ?acc = "FileAccessor \<lparr> fa_fd = i, fa_st = stat_of s i \<rparr>"
    have "makeFSSourceAccessor root p = (Inr ?acc, p)"
      using op st ps r by (simp add: makeFSSourceAccessor_def p on_fsys_def run)
    moreover have "shows_at s R N ?acc cp_root x" using r Regular by (simp add: shows_at_def root_path)
    moreover have "\<forall>q. at_rest s kf R N q \<longrightarrow> (\<exists>q'. posix_destroy ?acc q = (Inr (), q') \<and> at_rest s kf R N q')"
      by (simp add: posix_destroy_def)
    ultimately show ?thesis using assms(3) by blast
  next
    case (Symlink g0)
    with assms(2) i have r: "?ty = tSymlink" "in_data (fs_inodes s i) = g0" by auto
    have ne: "root \<noteq> []" using i s(1) r(1) by (auto simp: fs_ok_def is_dir_dent)
    then have "is_dir s (butlast root)" using s(1) dent_in [OF i] by (auto simp: fs_ok_def)
    then obtain j where j: "dent s (butlast root) = Some j" "in_type (fs_inodes s j) = tDirectory" by (auto simp: is_dir_dent)
    then have d: "dir_fd s j (butlast root)" using s(2) by (intro fd_path_dir)
    have od: "sysE msg (sys_opendir (butlast root)) s = (Inr j, s)" for msg
      using j s(4) by (simp add: sysE_def sys_opendir_def sys_call_quiet)
    have "dent s (butlast root @ [last root]) = Some i" using i ne by simp
    from readLinkAt_quiet [OF s(3) _ this r(1)] d r(2) have rl: "readLinkAt j [last root] s = (Inr g0, s)"
      by (simp add: dir_fd_def)
    let ?acc = "SymlinkAccessor (Some (Symlink g0))"
    have "makeFSSourceAccessor root p = (Inr ?acc, p)"
      using op r(1) od rl by (simp add: makeFSSourceAccessor_def p on_fsys_def run symlink_accessor)
    moreover have "shows_at s R N ?acc cp_root x" using Symlink by (simp add: shows_at_def root_path)
    moreover have "\<forall>q. at_rest s kf R N q \<longrightarrow> (\<exists>q'. posix_destroy ?acc q = (Inr (), q') \<and> at_rest s kf R N q')"
      by (simp add: posix_destroy_def)
    ultimately show ?thesis using assms(3) by blast
  next
    case (Directory es)
    with assms(2) i have r: "?ty = tDirectory" by (simp add: is_dir_dent)
    let ?a = "pg_next g" and ?n = "pg_limit g div 8"
    let ?acc = "\<lparr> da_id = ?a, da_dirFd = i \<rparr>" and ?R = "R(pg_next g := root)" and ?N = "if pg_limit g div 8 = 0 then N else insert (pg_next g) N"
    obtain h where h: "PosixDirectorySourceAccessor i ?n g = (Inr ?acc, h)" "globals_ok s ?R ?N (registerAccessor ?a h)"
      using accessor_made [OF p(2), of i ?n root] by blast
    have m1: "makeFSSourceAccessor root p = (Inr (DirectoryAccessor ?acc), (registerAccessor ?a h, kf, s))"
      using op st ps r h(1) by (simp add: makeFSSourceAccessor_def p on_fsys_def run)
    have m2: "at_rest s kf ?R ?N (registerAccessor ?a h, kf, s)" using h(2) by (simp add: at_rest_def)
    have "dir_fd s i root" using fd_path_dir [OF s(2) i r] .
    then have "acc_on s ?R ?N ?acc root" by (simp add: acc_on_def)
    then have m3: "shows_at s ?R ?N (DirectoryAccessor ?acc) cp_root x"
      using assms(2) Directory by (auto simp: shows_at_def root_path is_Directory_def)
    have fresh: "?a \<notin> N" using cached_fresh [OF p(2)] by simp
    have m4: "\<forall>q. at_rest s kf ?R ?N q \<longrightarrow> (\<exists>q'. posix_destroy (DirectoryAccessor ?acc) q = (Inr (), q') \<and> at_rest s kf R N q')"
    proof (intro allI impI)
      fix q assume q: "at_rest s kf ?R ?N q"
      obtain g1 where g1: "q = (g1, kf, s)" "globals_ok s ?R ?N g1" using q by (cases q) (auto simp: at_rest_def)
      obtain g2 where g2: "PosixDirectory_destroy ?acc g1 = (Inr (), g2)" "globals_ok s ?R (?N - {?a}) g2"
        using accessor_destroyed [OF g1(2), of ?acc] by auto
      have n: "?N - {?a} = N" using fresh by auto
      have "globals_ok s R N g2"
        by (rule globals_ok_roots [OF g2(2) [unfolded n]]) (use fresh in auto)
      with g1(1) g2(1) show "\<exists>q'. posix_destroy (DirectoryAccessor ?acc) q = (Inr (), q') \<and> at_rest s kf R N q'"
        by (simp add: posix_destroy_def at_rest_def)
    qed
    show ?thesis by (intro exI conjI) (rule m1, rule m2, rule m3, rule m4)
  qed
qed

context byte_sink
begin

lemma disk_dump_writes:
  assumes "good s" "reads s root x" "file_ok x" "levels x \<le> 64" "small x" "at_rest s kf R N p" "has k v"
  shows "\<exists>p' t. disk_dumpPath root sink (p, k) = (Inr (), (p', t)) \<and> at_rest s kf R N p' \<and> has t (v @ nar x)"
proof -
  obtain acc p1 R' N' where a: "makeFSSourceAccessor root p = (Inr acc, p1)" "at_rest s kf R' N' p1" "shows_at s R' N' acc cp_root x"
    "\<And>q. at_rest s kf R' N' q \<Longrightarrow> \<exists>q'. posix_destroy acc q = (Inr (), q') \<and> at_rest s kf R N q'"
    using accessor_shows [OF assms(1,2,6)] by blast
  obtain k1 where k1: "writeString sink narVersionMagic1 k = (Inr (), k1)" "has k1 (v @ wire narVersionMagic1)"
    using writes_string [of narVersionMagic1] assms(7) unfolding writes_def by blast
  have dd: "disk_dump has sink" by unfold_locales
  have "byte_sink.writes (\<lambda>(p, k) v. at_rest s kf R' N' p \<and> has k v) (posix_dump acc sink cp_root 0) (nar_node x)"
    using assms(4,5) by (intro disk_dump.writes_dump [OF dd assms(1) a(3) assms(3)]) simp_all
  moreover have "byte_sink (\<lambda>(p, k) v. at_rest s kf R' N' p \<and> has k v) (\<lambda>data. onR (sink data))"
    by (intro beside_sink.beside_accepts beside_sink.intro byte_sink_axioms)
  ultimately obtain p2 k2 where d: "posix_dump acc sink cp_root 0 (p1, k1) = (Inr (), (p2, k2))" "at_rest s kf R' N' p2"
      "has k2 ((v @ wire narVersionMagic1) @ nar_node x)"
    using byte_sink.writesD [of "\<lambda>(p, k) v. at_rest s kf R' N' p \<and> has k v" "\<lambda>data. onR (sink data)" "posix_dump acc sink cp_root 0"
        "nar_node x" "(p1, k1)" "v @ wire narVersionMagic1"] a(2) k1(2) by auto
  obtain q' where "posix_destroy acc p2 = (Inr (), q')" "at_rest s kf R N q'" using a(4) [OF d(2)] by blast
  with a(1) k1(1) d(1,3) show ?thesis by (simp add: disk_dumpPath_def run finallyM_def nar_def)
qed

end

interpretation disk_to_string: disk_dump "(=)" StringSink s kf R N for s kf R N
  by intro_locales

interpretation disk_to_hash: disk_dump "buffered_has (hashed sha)" "HashSink sha" s kf R N for sha s kf R N
  unfolding HashSink_def by intro_locales

subsection \<open>Properties\<close>

definition posix_init :: "nat \<Rightarrow> posix_globals" where
  "posix_init limit = \<lparr> pg_caches = (\<lambda>_. None), globalDirFdCacheRegistry = [], globalDirFdCount = 0, pg_next = 0, pg_limit = limit \<rparr>"

lemma posix_init_ok: "globals_ok s R {} (posix_init limit)"
  by (simp add: globals_ok_def posix_init_def count_ok_def registered_def dirFdCache_def)

text \<open>
  C38.  The limit on cached descriptors is kept.  If the count is exact and every accessor with a cache is
  registered, then eviction leaves both so, leaves every cache as it was or empty, and afterwards
  fewer descriptors than the limit are cached (or none are): a wrong count, which wraps around at
  32 bits, cannot arise.
\<close>

theorem evict_limit:
  assumes "count_ok g" "registered g" "(\<Sum>b<pg_next g. cached g b) < 2 ^ 32"
  shows "let h = maybeEvictFromGlobalCaches g in count_ok h \<and> registered h \<and>
    ((\<Sum>b<pg_next h. cached h b) < pg_limit g \<or> (\<Sum>b<pg_next h. cached h b) = 0) \<and>
    (\<forall>b. dirFdCache b h = dirFdCache b g \<or> dirFdCache b h = map_option lru_clear (dirFdCache b g))"
proof -
  let ?h = "maybeEvictFromGlobalCaches g"
  note f = evict_facts [OF assms(1)]
  have next': "pg_next ?h = pg_next g"
  proof -
    have "pg_next (evict_loop kept its g) = pg_next g" for kept its
      by (induction kept its g rule: evict_loop.induct) (simp_all add: clear_sel)
    then show ?thesis by (simp add: maybeEvictFromGlobalCaches_def)
  qed
  have "cached ?h b \<le> cached g b" for b
    using f(4) [of b] by (auto simp: cached_def lru_clear_def lru_size_def split: option.split)
  then have "(\<Sum>b<pg_next ?h. cached ?h b) \<le> (\<Sum>b<pg_next g. cached g b)" unfolding next' by (intro sum_mono)
  then have small: "(\<Sum>b<pg_next ?h. cached ?h b) < 2 ^ 32" using assms(3) by simp
  have "globalDirFdCount ?h = word_of_nat (\<Sum>b<pg_next ?h. cached ?h b)" using f(1) by (simp add: count_ok_def)
  then have c: "unat (globalDirFdCount ?h) = (\<Sum>b<pg_next ?h. cached ?h b)"
    using small by (simp only: unat_of_nat) simp
  from f(6) [OF assms(2)] have "(\<Sum>b<pg_next ?h. cached ?h b) < pg_limit g \<or> (\<Sum>b<pg_next ?h. cached ?h b) = 0"
    unfolding c [symmetric] by auto
  with f(1,4) f(5) [OF assms(2)] show ?thesis by (simp add: Let_def del: sum_eq_0_iff)
qed

definition full_globals :: posix_globals where
  "full_globals = \<lparr> pg_caches = [0 \<mapsto> Some \<lparr> capacity = 2, data = [([''a''], 2), ([''b''], 3)], lru = [[''a''], [''b'']] \<rparr>],
     globalDirFdCacheRegistry = [0], globalDirFdCount = 2, pg_next = 1, pg_limit = 2 \<rparr>"

theorem evict_limit_witness:
  "let h = maybeEvictFromGlobalCaches full_globals in count_ok h \<and> (\<Sum>b<pg_next h. cached h b) < 2"
proof -
  have "count_ok full_globals" "registered full_globals" "(\<Sum>b<pg_next full_globals. cached full_globals b) < 2 ^ 32" "pg_limit full_globals = 2"
    by (auto simp: full_globals_def count_ok_def registered_def cached_def dirFdCache_def lru_size_def)
  with evict_limit [of full_globals] show ?thesis unfolding Let_def by (auto simp del: sum_eq_0_iff)
qed

text \<open>
  C37.  The descriptor cache is transparent.  Whatever it holds, and whatever is evicted on the way, the
  status, the target of a link and the entries that a directory accessor reports are those of a
  walk from its root that follows no link, with the error of that walk where it fails; and the
  caches stay correct, so that every later call is answered in the same way.
\<close>

theorem accessor_transparent:
  assumes "good s" "acc_on s R N a root" "at_rest s k R N p"
  shows "(\<exists>p'. PosixDirectory_maybeLstat a path p = (lstat_spec s root path, p') \<and> at_rest s k R N p') \<and>
    (\<exists>p'. PosixDirectory_readLink a path p = (link_spec s root path, p') \<and> at_rest s k R N p') \<and>
    (\<exists>p'. PosixDirectory_readDirectory a path p = (directory_spec s root path, p') \<and> at_rest s k R N p')"
  using maybeLstat_answers [OF assms(1,2), of k path] readLink_answers [OF assms(1,2), of k path]
    readDirectory_answers [OF assms(1,2), of k path] assms(3) unfolding answers_def by blast

text \<open>
  C39.  Restoring a NAR and dumping the result give the NAR back: the tree that was written to a free
  destination is read back through the accessor of the file system, with whatever is in its
  caches, to exactly the same bytes.
\<close>

theorem restore_dump_roundtrip:
  assumes "dst_ok env s" "nar_ok 0 x" "length (nar x) \<le> fuel" "globals_ok s R N g"
  shows "\<exists>s' l u g'. restorePath fuel env string_ops (\<lparr> str_src = nar x, str_pos = 0 \<rparr>, l0, k, s) = (Inr (), (s', l, k, u)) \<and>
    disk_dumpPath (re_dst env) StringSink ((g, k, u), []) = (Inr (), ((g', k, u), nar x)) \<and> globals_ok u R N g'"
proof -
  let ?u = "plant env True (re_dst env) x s"
  have "string_pending \<lparr> str_src = nar x, str_pos = 0 \<rparr> (nar x @ [])" by (simp add: string_pending_def)
  from restored [OF assms(1-3) this, of l0 k] obtain s' l where
    r: "restorePath fuel env string_ops (\<lparr> str_src = nar x, str_pos = 0 \<rparr>, l0, k, s) = (Inr (), (s', l, k, ?u))" by blast
  have h: "good s" "free_at s (re_dst env)" "file_ok x" using assms(1,2) by (simp_all add: dst_ok_def nar_ok_file_ok)
  then have p: "extends (re_dst env) s ?u" "good ?u" "reads ?u (re_dst env) x"
    using plant_planted [OF h] by (simp_all add: planted_def extends_def)
  have "cache_ok ?u q c" if "cache_ok s q c" for q c
    using that extends_dir_fd [of s "re_dst env" ?u] h(1) p(1) by (auto simp: cache_ok_def good_def)
  then have "globals_ok ?u R N g" using assms(4) unfolding globals_ok_def by blast
  then have rest: "at_rest ?u k R N (g, k, ?u)" by (simp add: at_rest_def)
  have "levels x \<le> 64" "small x" using nar_ok_small [OF assms(2)] nar_ok_levels [OF assms(2)] by simp_all
  from string_sink.disk_dump_writes [OF p(2,3) h(3) this rest, of "[]" "[]"]
  obtain g' where "disk_dumpPath (re_dst env) StringSink ((g, k, ?u), []) = (Inr (), ((g', k, ?u), nar x))" "globals_ok ?u R N g'"
    by (auto simp: at_rest_def)
  with r show ?thesis by blast
qed

lemma example_good: "good example_fs"
  using example_fs_ok example_fs_dirs by (simp add: good_def example_fs_def fs_quiet_def)

text \<open>An accessor of \<open>/s\<close> that has \<open>/s/a\<close> in its cache.\<close>

definition example_globals :: posix_globals where
  "example_globals = \<lparr> pg_caches = [0 \<mapsto> Some \<lparr> capacity = 2, data = [([''a''], 2)], lru = [[''a'']] \<rparr>],
     globalDirFdCacheRegistry = [0], globalDirFdCount = 1, pg_next = 1, pg_limit = 8 \<rparr>"

lemma example_globals_ok: "globals_ok example_fs (\<lambda>_. [''s'']) {0} example_globals"
  by (auto simp: globals_ok_def example_globals_def count_ok_def registered_def cached_def dirFdCache_def lru_size_def cache_ok_def
      dir_fd_def fd_path_def example_fs_def example_dir_def blank_inode_def)

theorem accessor_transparent_witness:
  "\<exists>p'. PosixDirectory_maybeLstat \<lparr> da_id = 0, da_dirFd = 1 \<rparr> [''a'', ''f''] (example_globals, \<lparr>no_openat2 = True, no_fchmodat2 = True, no_proc = True\<rparr>, example_fs) =
    (Inr (Some \<lparr> st_type = tRegular, fileSize = Some 3, isExecutable = False \<rparr>), p')"
proof -
  let ?k = "\<lparr>no_openat2 = True, no_fchmodat2 = True, no_proc = True\<rparr>"
  have a: "acc_on example_fs (\<lambda>_. [''s'']) {0} \<lparr> da_id = 0, da_dirFd = 1 \<rparr> [''s'']"
    using example_fs_dirs(2) by (simp add: acc_on_def)
  have "at_rest example_fs ?k (\<lambda>_. [''s'']) {0} (example_globals, ?k, example_fs)"
    using example_globals_ok by (simp add: at_rest_def)
  moreover have "lstat_spec example_fs [''s''] [''a'', ''f''] = Inr (Some \<lparr> st_type = tRegular, fileSize = Some 3, isExecutable = False \<rparr>)"
    by (simp add: lstat_spec_def beneath_def dent_def example_fs_def example_dir_def blank_inode_def posix_stat_def stat_of_def)
  ultimately show ?thesis
    using accessor_transparent [OF example_good a, of ?k "(example_globals, ?k, example_fs)" "[''a'', ''f'']"] by auto
qed

theorem restore_dump_roundtrip_witness:
  "\<exists>s' l u g'. restorePath 1000 example_restore string_ops (\<lparr> str_src = nar example_tree, str_pos = 0 \<rparr>, restore_new, \<lparr>no_openat2 = True, no_fchmodat2 = True, no_proc = True\<rparr>, example_fs) =
      (Inr (), (s', l, \<lparr>no_openat2 = True, no_fchmodat2 = True, no_proc = True\<rparr>, u)) \<and>
    disk_dumpPath [''s'', ''c''] StringSink ((example_globals, \<lparr>no_openat2 = True, no_fchmodat2 = True, no_proc = True\<rparr>, u), []) =
      (Inr (), ((g', \<lparr>no_openat2 = True, no_fchmodat2 = True, no_proc = True\<rparr>, u), nar example_tree))"
proof -
  have d: "re_dst example_restore = [''s'', ''c'']" by (simp add: example_restore_def)
  from restore_dump_roundtrip [OF example_restore_ok example_globals_ok, of restore_new "\<lparr>no_openat2 = True, no_fchmodat2 = True, no_proc = True\<rparr>"]
  show ?thesis unfolding d by blast
qed

end
