(* ===== verification/Verify.thy ===== *)
theory Verify
  imports Gc PosixAccessor
begin

text \<open>
  Verification of the store (\<open>libstore/local-store.cc\<close>: \<open>verifyStore\<close>, \<open>verifyAllValidPaths\<close>,
  \<open>verifyPath\<close>).  The state is the database with the file system and the accessors' caches.  What
  is printed is left out; the answer is whether there were errors.
\<close>

subsection \<open>Hashing from disk\<close>

text \<open>\<open>hashPath\<close> of an accessor on disk, and the same with a sink of the caller's.\<close>

definition disk_hashPath :: "'c sha256_api \<Rightarrow> fpath \<Rightarrow> (posix, Hash \<times> 64 word) M" where
  "disk_hashPath sha root = (\<lambda>p.
     case seqM (disk_dumpPath root (HashSink sha)) (onR (HashSink_finish sha)) (p, HashSink_new sha) of
       (r, (p, _)) \<Rightarrow> (r, p))"

subsection \<open>Paths\<close>

type_synonym verify = "store_db \<times> posix"

abbreviation on_disk :: "(fsys, 'a) M \<Rightarrow> (verify, 'a) M" where
  "on_disk m \<equiv> onR (on_fsys m)"

text \<open>The entries of the store directory that are names of store paths.\<close>

fun store_dir_paths :: "string list \<Rightarrow> StorePath list \<Rightarrow> (fsys, StorePath list) M" where
  "store_dir_paths [] acc = ret acc"
| "store_dir_paths (name # ns) acc =
     seqM fs_checkInterrupt
       (case storePath_of_baseName name of
          Inr p \<Rightarrow> store_dir_paths ns (path_insert p acc)
        | Inl e \<Rightarrow> if is_BadStorePath e then store_dir_paths ns acc else throw e)"

record verify_sets =
  vs_done :: "StorePath list"
  vs_valid :: "StorePath list"
  vs_errors :: bool

fun verifyPath :: "nat \<Rightarrow> string \<Rightarrow> (StorePath \<Rightarrow> bool) \<Rightarrow> StorePath \<Rightarrow> (verify \<times> verify_sets, unit) M" where
  "verifyPath 0 storeDir existsInStoreDir path = throw Diverge"
| "verifyPath (Suc fuel) storeDir existsInStoreDir path =
     seqM (onL (on_disk fs_checkInterrupt))
       (bindM (onR (getS vs_done)) (\<lambda>done.
         if path \<in> set done then ret ()
         else seqM (onR (modS (\<lambda>v. v\<lparr>vs_done := path_insert path done\<rparr>)))
           (if \<not> existsInStoreDir path then
              bindM (onL (onL (queryReferrers storeDir path []))) (\<lambda>referrers.
                seqM (forM (\<lambda>i. if i \<noteq> path then verifyPath fuel storeDir existsInStoreDir i else ret ()) referrers)
                  (onR (modS (\<lambda>v. v\<lparr>vs_errors := True\<rparr>))))
            else onR (modS (\<lambda>v. v\<lparr>vs_valid := path_insert path (vs_valid v)\<rparr>)))))"

text \<open>A path is passed once, so no walk is deeper than there are paths.\<close>

definition verifyAllValidPaths :: "gc_env \<Rightarrow> (verify, bool \<times> StorePath list) M" where
  "verifyAllValidPaths env =
     bindM (on_disk (bindM (sysE ''cannot read directory %s'' (sys_readdir (ge_realStoreDir env)))
              (\<lambda>es. store_dir_paths (map fst es) []))) (\<lambda>storePathsInStoreDir.
     bindM (onL (queryAllValidPaths (ge_storeDir env))) (\<lambda>paths.
     bindM (getS (\<lambda>(db, _). Suc (Suc (length (db_paths db))))) (\<lambda>fuel s.
       case forM (verifyPath fuel (ge_storeDir env) (\<lambda>p. p \<in> set storePathsInStoreDir)) paths
              (s, \<lparr> vs_done = [], vs_valid = [], vs_errors = False \<rparr>) of
         (Inl e, (s, _)) \<Rightarrow> (Inl e, s)
       | (Inr _, (s, v)) \<Rightarrow> (Inr (vs_errors v, vs_valid v), s))))"

subsection \<open>Contents\<close>

fun verify_links :: "'c sha256_api \<Rightarrow> gc_env \<Rightarrow> string list \<Rightarrow> bool \<Rightarrow> (verify, bool) M" where
  "verify_links sha env [] errors = ret errors"
| "verify_links sha env (name # ns) errors =
     seqM (on_disk fs_checkInterrupt)
       (bindM (onR (disk_hashPath sha (ge_linksDir env @ [name]))) (\<lambda>(h, _).
        bindM (liftE (hash_to_string h Nix32 False)) (\<lambda>hash.
          verify_links sha env ns (errors \<or> hash \<noteq> name))))"

definition nullHash :: Hash where
  "nullHash = zero_hash"

text \<open>One valid path: the new value of \<open>errors\<close>.\<close>

definition verify_contents :: "'c sha256_api \<Rightarrow> gc_env \<Rightarrow> bool \<Rightarrow> StorePath \<Rightarrow> (verify, bool) M" where
  "verify_contents sha env errors i =
     catchM
       (bindM (onL (queryPathInfo (ge_storeDir env) i)) (\<lambda>info.
        bindM (onR (disk_hashPath sha (ge_realStoreDir env @ [sp_to_string i]))) (\<lambda>(current, numBytesDigested).
          if \<not> hash_eq (vpi_narHash info) nullHash \<and> \<not> hash_eq (vpi_narHash info) current then ret True
          else
            let noHash = hash_eq (vpi_narHash info) nullHash;
                noSize = (vpi_narSize info = 0);
                info = (if noHash then info\<lparr>vpi_narHash := current\<rparr> else info);
                info = (if noSize then info\<lparr>vpi_narSize := numBytesDigested\<rparr> else info)
            in seqM (if noHash \<or> noSize then onL (updatePathInfo (ge_storeDir env) info) else ret ()) (ret errors))))
       (\<lambda>e. if is_Error e then bindM (onL (isValidPath (ge_storeDir env) i)) (\<lambda>_. ret True) else throw e)"

fun verify_paths :: "'c sha256_api \<Rightarrow> gc_env \<Rightarrow> StorePath list \<Rightarrow> bool \<Rightarrow> (verify, bool) M" where
  "verify_paths sha env [] errors = ret errors"
| "verify_paths sha env (i # is) errors = bindM (verify_contents sha env errors i) (verify_paths sha env is)"

definition verifyStore :: "'c sha256_api \<Rightarrow> gc_env \<Rightarrow> bool \<Rightarrow> (verify, bool) M" where
  "verifyStore sha env checkContents =
     seqM (on_disk (openGCLock env))
       (seqM (on_disk fs_checkInterrupt)
         (bindM (verifyAllValidPaths env) (\<lambda>(errors, validPaths).
           if checkContents then
             bindM (on_disk (sysE ''cannot read directory %s'' (sys_readdir (ge_linksDir env)))) (\<lambda>links.
             bindM (verify_links sha env (map fst links) errors) (verify_paths sha env validPaths))
           else ret errors)))"

subsection \<open>Queries\<close>

text \<open>The database with the tables \<open>c\<close>, as busy as it likes, but without a signal.\<close>

definition db_rest :: "store_db \<Rightarrow> store_db \<Rightarrow> bool" where
  "db_rest c d \<longleftrightarrow> calm d = c \<and> db_signals d = []"

lemma db_rest_calm: "db_rest c d \<Longrightarrow> calm c = c"
  by (auto simp: db_rest_def)

lemma retry_signals:
  assumes "steps m" "db_signals s = []"
  shows "db_signals (snd (retrySQLite m s)) = []"
proof -
  have "db_signals (snd (retry_loop fuel m s)) = []" for fuel
    using assms(2)
  proof (induction fuel arbitrary: s)
    case (Suc fuel)
    obtain r t where m: "m s = (r, t)" by fastforce
    have t: "db_signals t = []"
      using assms(1) Suc.prems m unfolding steps_def busy_answer_def calm_answer_def by (metis snd_conv)
    show ?case
    proof (cases "\<exists>x. r = Inl (SQLiteBusy x)")
      case True
      then show ?thesis using m t Suc.IH [OF t] by (auto simp: run handleSQLiteBusy_def db_checkInterrupt_def)
    next
      case False
      then show ?thesis using m t by (cases r) (auto simp: catchM_def split: exn.split)
    qed
  qed simp
  then show ?thesis by (simp only: retrySQLite_def)
qed

lemma query_answers:
  assumes "steps m" "StoreDb.reads m"
  shows "answers (db_rest c) (retrySQLite m) (fst (m c))"
  unfolding answers_def
proof (intro allI impI)
  fix d assume d: "db_rest c d"
  obtain t where t: "retrySQLite m d = (fst (m (calm d)), t)" "db_tables t = db_tables d"
    using retry_reads [OF assms, of d] d by (auto simp: db_rest_def)
  then have "calm t = calm d" by (simp add: calm_eq_iff)
  moreover have "db_signals t = []" using retry_signals [OF assms(1), of d] d t(1) by (simp add: db_rest_def)
  ultimately show "\<exists>p'. retrySQLite m d = (fst (m c), p') \<and> db_rest c p'" using d t(1) by (auto simp: db_rest_def)
qed

lemma queryPathInfo_answers:
  assumes "db_ok storeDir c" "calm c = c"
  shows "answers (db_rest c) (queryPathInfo storeDir p)
    (case store_map storeDir c p of None \<Rightarrow> Inl (InvalidPath ''path %s is not valid'') | Some i \<Rightarrow> Inr i)"
proof -
  have "fst (queryPathInfoInternal storeDir p c) = Inr (store_map storeDir c p)"
    using queryPathInfoInternal_map [OF assms(1), of p] assms(2) by simp
  with query_answers [OF steps_queryPathInfoInternal reads_queries(1), of c storeDir p]
  have "answers (db_rest c) (queryPathInfoUnchecked storeDir p) (Inr (store_map storeDir c p))"
    by (simp add: queryPathInfoUnchecked_def)
  then show ?thesis
    unfolding queryPathInfo_def
    by (rule answers_bind) (auto simp: answers_basic goodStorePath_def store_map_def info_of_def split: option.split)
qed

lemma queryReferrers_answers:
  assumes "db_ok storeDir c" "calm c = c"
  shows "answers (db_rest c) (queryReferrers storeDir p []) (Inr (sorted_list_of_set {q. (q, p) \<in> ref_rel storeDir c}))"
  using query_answers [OF steps_queryReferrers0 reads_queries(3), of c storeDir p "[]"] queryReferrers0_map [OF assms(1), of p] assms(2)
  by (simp add: queryReferrers_def)

lemma queryAllValidPaths_answers:
  assumes "db_ok storeDir c" "calm c = c"
  shows "answers (db_rest c) (queryAllValidPaths storeDir) (Inr (sorted_list_of_set (dom (store_map storeDir c))))"
proof -
  let ?all = "bindM QueryValidPaths (\<lambda>ps. liftE (insert_all storeDir ps []))"
  have sd: "store_dir_ok storeDir" using assms(1) by (simp add: db_ok_def)
  have printed: "\<forall>x \<in> set (map r_path (db_paths c)). \<exists>p. sp_ok p \<and> x = printStorePath storeDir p"
    using db_ok_printed [OF assms(1)] by auto
  have "?all (calm c) = (Inr (sorted_list_of_set (dom (store_map storeDir c))), calm c)"
    using insert_all_Nil [OF sd printed] valid_paths [OF assms(1)]
    by (simp add: QueryValidPaths_def run dom_def)
  moreover have "steps ?all" "StoreDb.reads ?all"
    by (intro steps, unfold QueryValidPaths_def, intro reads_intros)
  ultimately show ?thesis using query_answers [of ?all c] assms(2) by (simp add: queryAllValidPaths_def)
qed

lemma isValidPath_answers: "calm c = c \<Longrightarrow> answers (db_rest c) (isValidPath storeDir p) (Inr (store_map storeDir c p \<noteq> None))"
  using query_answers [OF steps_isValidPath0 reads_queries(2), of c storeDir p] isValidPath0_map [of storeDir p c]
  by (simp add: isValidPath_def)

lemma valid_count:
  assumes "db_ok storeDir c"
  shows "finite (dom (store_map storeDir c))" "card (dom (store_map storeDir c)) \<le> length (db_paths c)"
proof -
  let ?f = "printStorePath storeDir"
  have inj: "inj_on ?f (dom (store_map storeDir c))" by (auto simp: inj_on_def print_inject)
  have sub: "?f ` dom (store_map storeDir c) \<subseteq> set (map r_path (db_paths c))"
    using valid_paths [OF assms] by blast
  show fin: "finite (dom (store_map storeDir c))" using finite_imageD [OF finite_subset [OF sub] inj] by simp
  have "card (dom (store_map storeDir c)) = card (?f ` dom (store_map storeDir c))" using inj by (simp add: card_image)
  also have "\<dots> \<le> card (set (map r_path (db_paths c)))" using sub by (intro card_mono) simp_all
  also have "\<dots> \<le> length (db_paths c)" by (metis card_length length_map)
  finally show "card (dom (store_map storeDir c)) \<le> length (db_paths c)" .
qed

lemma referrer_valid: "db_ok storeDir c \<Longrightarrow> (q, p) \<in> ref_rel storeDir c \<Longrightarrow> q \<in> dom (store_map storeDir c)"
  using valid_paths [of storeDir c q] by (auto simp: ref_rel_def) (metis image_eqI)

subsection \<open>The state at rest\<close>

definition verify_rest :: "store_db \<Rightarrow> fsys \<Rightarrow> at_flags \<Rightarrow> (nat \<Rightarrow> fpath) \<Rightarrow> nat set \<Rightarrow> verify \<Rightarrow> bool" where
  "verify_rest c s k R N = (\<lambda>(d, p). db_rest c d \<and> at_rest s k R N p)"

lemma answers_onL: "answers P m r \<Longrightarrow> answers (\<lambda>(a, b). P a \<and> Q b) (onL m) r"
  unfolding answers_def by (fastforce simp: onL_def)

lemma answers_onR: "answers Q m r \<Longrightarrow> answers (\<lambda>(a, b). P a \<and> Q b) (onR m) r"
  unfolding answers_def by (fastforce simp: onR_def)

lemma rest_db: "answers (db_rest c) m r \<Longrightarrow> answers (verify_rest c s k R N) (onL m) r"
  unfolding verify_rest_def by (rule answers_onL)

lemma rest_posix: "answers (at_rest s k R N) m r \<Longrightarrow> answers (verify_rest c s k R N) (onR m) r"
  unfolding verify_rest_def by (rule answers_onR)

lemma rest_fs: "m s = (r, s) \<Longrightarrow> answers (verify_rest c s k R N) (on_disk m) r"
  by (intro rest_posix answers_fs)

text \<open>A tree that can be dumped.\<close>

definition dumpable :: "fso \<Rightarrow> bool" where
  "dumpable x \<longleftrightarrow> file_ok x \<and> levels x \<le> 64 \<and> small x"

lemma hashPath_answers:
  assumes "sha256_ok sha" "good s" "reads s root x" "dumpable x"
  shows "answers (at_rest s k R N) (disk_hashPath sha root) (Inr (hashString sha (nar x), word_of_nat (length (nar x))))"
  unfolding answers_def
proof (intro allI impI)
  fix p assume p: "at_rest s k R N p"
  have x: "file_ok x" "levels x \<le> 64" "small x" using assms(4) by (simp_all add: dumpable_def)
  obtain p' t where t: "disk_dumpPath root (HashSink sha) (p, HashSink_new sha) = (Inr (), (p', t))"
    "at_rest s k R N p'" "buffered_has (hashed sha) t (nar x)"
    using hash_sink.buffered.disk_dump_writes [OF assms(2,3) x p HashSink_new_has [OF assms(1)]]
    unfolding HashSink_def by auto
  with HashSink_finish_hash [OF t(3)]
  show "\<exists>p'. disk_hashPath sha root p = (Inr (hashString sha (nar x), word_of_nat (length (nar x))), p') \<and> at_rest s k R N p'"
    by (cases "HashSink_finish sha t") (simp add: disk_hashPath_def run)
qed
subsection \<open>The walk of valid paths\<close>

lemma path_insert_elem: "set (path_insert p ps) = insert p (set ps)"
  by (auto simp: path_insert_def set_insort_key)

text \<open>What a part of the walk does to its three sets, if \<open>M\<close> are the missing ones of the valid paths \<open>V\<close>.\<close>

definition passed :: "StorePath set \<Rightarrow> StorePath set \<Rightarrow> verify_sets \<Rightarrow> verify_sets \<Rightarrow> bool" where
  "passed V M v w \<longleftrightarrow> set (vs_done v) \<subseteq> set (vs_done w) \<and> set (vs_done w) \<subseteq> set (vs_done v) \<union> V \<and>
     (vs_errors w \<longleftrightarrow> vs_errors v \<or> (set (vs_done w) - set (vs_done v)) \<inter> M \<noteq> {}) \<and>
     set (vs_valid w) = set (vs_valid v) \<union> (set (vs_done w) - set (vs_done v) - M)"

lemma passed_refl: "passed V M v v"
  by (simp add: passed_def)

lemma passed_trans:
  assumes "passed V M u v" "passed V M v w"
  shows "passed V M u w"
proof -
  let ?d = "\<lambda>x. set (vs_done x)"
  have "?d w - ?d u = (?d w - ?d v) \<union> (?d v - ?d u)" using assms by (auto simp: passed_def)
  then show ?thesis using assms unfolding passed_def by (auto simp: Un_Diff Int_Un_distrib2)
qed

text \<open>A computation that keeps the state at rest, goes on with the walk and passes the paths \<open>ps\<close>.\<close>

definition walks :: "(verify \<Rightarrow> bool) \<Rightarrow> StorePath set \<Rightarrow> StorePath set \<Rightarrow> StorePath set \<Rightarrow> (verify \<times> verify_sets, unit) M \<Rightarrow> verify_sets \<Rightarrow> bool" where
  "walks P V M ps m v \<longleftrightarrow> (\<forall>s. P s \<longrightarrow> (\<exists>s' w. m (s, v) = (Inr (), (s', w)) \<and> P s' \<and> passed V M v w \<and> ps \<subseteq> set (vs_done w)))"

lemma walks_forM:
  assumes "\<And>i w. i \<in> set xs \<Longrightarrow> passed V M v w \<Longrightarrow> walks P V M (A i) (f i) w"
  shows "walks P V M (\<Union>i \<in> set xs. A i) (forM f xs) v"
  using assms
proof (induction xs arbitrary: v)
  case Nil
  then show ?case by (auto simp: walks_def passed_refl)
next
  case (Cons i xs)
  show ?case
    unfolding walks_def
  proof (intro allI impI)
    fix s assume s: "P s"
    have "walks P V M (A i) (f i) v" by (rule Cons.prems) (simp_all add: passed_refl)
    with s obtain s1 w1 where 1: "f i (s, v) = (Inr (), (s1, w1))" "P s1" "passed V M v w1" "A i \<subseteq> set (vs_done w1)"
      unfolding walks_def by blast
    have "walks P V M (A j) (f j) w" if "j \<in> set xs" "passed V M w1 w" for j w
      using Cons.prems [of j w] that passed_trans [OF 1(3)] by simp
    then have "walks P V M (\<Union>j \<in> set xs. A j) (forM f xs) w1" by (rule Cons.IH)
    with 1(2) obtain s2 w2 where 2: "forM f xs (s1, w1) = (Inr (), (s2, w2))" "P s2" "passed V M w1 w2"
      "(\<Union>j \<in> set xs. A j) \<subseteq> set (vs_done w2)"
      unfolding walks_def by blast
    moreover have "A i \<subseteq> set (vs_done w2)" using 1(4) 2(3) by (auto simp: passed_def)
    ultimately show "\<exists>s' w. forM f (i # xs) (s, v) = (Inr (), (s', w)) \<and> P s' \<and> passed V M v w \<and> (\<Union>i \<in> set (i # xs). A i) \<subseteq> set (vs_done w)"
      using 1(1) passed_trans [OF 1(3) 2(3)] by simp
  qed
qed

lemma verifyPath_walks:
  assumes "good s" "db_ok storeDir c" "calm c = c"
    and "path \<in> dom (store_map storeDir c)"
    and "card ({q \<in> dom (store_map storeDir c). \<not> here q} - set (vs_done v)) < fuel"
  shows "walks (verify_rest c s k R N) (dom (store_map storeDir c)) {q \<in> dom (store_map storeDir c). \<not> here q} {path}
    (verifyPath fuel storeDir here path) v"
    (is "walks ?P ?V ?M _ _ _")
  using assms(4,5)
proof (induction fuel arbitrary: path v)
  case (Suc fuel)
  have int: "answers ?P (on_disk fs_checkInterrupt) (Inr ())"
    by (rule rest_fs) (use assms(1) in \<open>simp add: fs_checkInterrupt_quiet good_def fs_quiet_def\<close>)
  show ?case
    unfolding walks_def
  proof (intro allI impI)
    fix z assume "?P z"
    with int obtain z1 where z1: "on_disk fs_checkInterrupt z = (Inr (), z1)" "?P z1" unfolding answers_def by blast
    let ?v = "v\<lparr>vs_done := path_insert path (vs_done v)\<rparr>"
    let ?goal = "\<exists>s' w. verifyPath (Suc fuel) storeDir here path (z, v) = (Inr (), (s', w)) \<and> ?P s' \<and> passed ?V ?M v w \<and> {path} \<subseteq> set (vs_done w)"
    consider "path \<in> set (vs_done v)" | "path \<notin> set (vs_done v)" "here path" | "path \<notin> set (vs_done v)" "\<not> here path" by blast
    then show ?goal
    proof cases
      case 1
      with z1 passed_refl show ?thesis by (fastforce simp: run)
    next
      case 2
      then have "passed ?V ?M v (?v\<lparr>vs_valid := path_insert path (vs_valid ?v)\<rparr>)"
        using Suc.prems(1) by (auto simp: passed_def path_insert_elem)
      with 2 z1 show ?thesis by (auto simp: run path_insert_elem)
    next
      case 3
      let ?rs = "sorted_list_of_set {q. (q, path) \<in> ref_rel storeDir c}"
      obtain z2 where z2: "onL (queryReferrers storeDir path []) z1 = (Inr ?rs, z2)" "?P z2"
        using rest_db [OF queryReferrers_answers [OF assms(2,3)]] z1(2) unfolding answers_def by blast
      have fin: "finite ?M" using valid_count(1) [OF assms(2)] by simp
      have rs: "i \<in> ?V" if "i \<in> set ?rs" for i
      proof -
        have "finite {q. (q, path) \<in> ref_rel storeDir c}"
          by (rule finite_subset [OF _ valid_count(1) [OF assms(2)]]) (auto intro: referrer_valid [OF assms(2), THEN domD])
        with that show ?thesis using referrer_valid [OF assms(2)] by simp
      qed
      have "card (?M - set (vs_done ?v)) < card (?M - set (vs_done v))"
        by (rule psubset_card_mono) (use fin 3 Suc.prems(1) in \<open>auto simp: path_insert_elem\<close>)
      then have less: "card (?M - set (vs_done ?v)) < fuel" using Suc.prems(2) by simp
      have step: "walks ?P ?V ?M (if i \<noteq> path then {i} else {}) (if i \<noteq> path then verifyPath fuel storeDir here i else ret ()) w"
        if "i \<in> set ?rs" "passed ?V ?M ?v w" for i w
      proof (cases "i = path")
        case True
        then show ?thesis by (simp add: walks_def passed_refl)
      next
        case False
        have "card (?M - set (vs_done w)) \<le> card (?M - set (vs_done ?v))"
          by (rule card_mono) (use fin that(2) in \<open>auto simp: passed_def\<close>)
        with less Suc.IH [OF rs [OF that(1)], of w] False show ?thesis by simp
      qed
      have "walks ?P ?V ?M (\<Union>i \<in> set ?rs. if i \<noteq> path then {i} else {})
        (forM (\<lambda>i. if i \<noteq> path then verifyPath fuel storeDir here i else ret ()) ?rs) ?v"
        by (rule walks_forM) (rule step)
      then obtain z3 w where loop:
        "forM (\<lambda>i. if i \<noteq> path then verifyPath fuel storeDir here i else ret ()) ?rs (z2, ?v) = (Inr (), (z3, w))" "?P z3" "passed ?V ?M ?v w"
        using z2(2) unfolding walks_def by blast
      have "passed ?V ?M v (w\<lparr>vs_errors := True\<rparr>) \<and> path \<in> set (vs_done w)"
        using loop(3) 3 Suc.prems(1) by (auto simp: passed_def path_insert_elem)
      with loop(1,2) z1(1) z2(1) 3 show ?thesis by (auto simp: run)
    qed
  qed
qed simp

subsection \<open>Directories and contents\<close>

lemma store_dir_paths_quiet:
  assumes "fs_signals s = []"
  shows "\<exists>ps. store_dir_paths ns acc s = (Inr ps, s) \<and> set ps = set acc \<union> {StorePath n | n. n \<in> set ns \<and> valid_baseName n}"
proof (induction ns arbitrary: acc)
  case (Cons n ns)
  consider "valid_baseName n" "storePath_of_baseName n = Inr (StorePath n)"
    | m where "\<not> valid_baseName n" "storePath_of_baseName n = Inl (BadStorePath m)"
    using storePath_of_baseName_iff [of n] storePath_of_baseName_result [of n] by auto
  then show ?case
  proof cases
    case 1
    with Cons.IH [of "path_insert (StorePath n) acc"] show ?thesis
      by (auto simp: run fs_checkInterrupt_quiet assms path_insert_elem)
  next
    case 2
    with Cons.IH [of acc] show ?thesis by (auto simp: run fs_checkInterrupt_quiet assms)
  qed
qed simp

lemma readdir_quiet:
  assumes "good s" "is_dir s p"
  shows "sysE msg (sys_readdir p) s = (Inr (map (\<lambda>(n, i). (n, i, in_type (fs_inodes s i))) (children s p)), s)"
proof -
  have "dent s p \<noteq> None" using assms(2) by (auto simp: is_dir_dent)
  then show ?thesis
    using assms by (auto simp: sysE_def sys_readdir_def sys_call_quiet good_def fs_quiet_def)
qed

lemma child_names: "n \<in> fst ` set (children s p) \<longleftrightarrow> dent s (p @ [n]) \<noteq> None"
  unfolding children_names by (simp add: dent_def map_of_eq_None_iff) force

definition on_store :: "gc_env \<Rightarrow> fsys \<Rightarrow> StorePath \<Rightarrow> bool" where
  "on_store env s p \<longleftrightarrow> dent s (ge_realStoreDir env @ [sp_to_string p]) \<noteq> None"

lemma openGCLock_quiet:
  assumes "good s" "dent s (ge_stateDir env @ [''gc.lock'']) \<noteq> None"
  shows "openGCLock env s = (Inr (), s)"
  using assms by (auto simp: openGCLock_def run sysR_def sys_create_def sys_call_quiet good_def fs_quiet_def)

lemma seqM_assoc: "seqM (seqM a b) c = seqM a (seqM b c)"
  by (simp add: seqM_def bindM_assoc)

lemma answers_catch: "answers P m (Inr x) \<Longrightarrow> answers P (catchM m h) (Inr x)"
  unfolding answers_def catchM_def by fastforce

lemma link_hash_string:
  "sha256_ok sha \<Longrightarrow> \<exists>t. hash_to_string (hashString sha w) Nix32 False = Inr t"
  using hashString_sha256 [of sha w] by (simp add: sha256_hash_def hash_to_string_def Let_def hashSizeSha256_def)

lemma verify_links_answers:
  assumes "sha256_ok sha" "good s"
    and "\<And>n. n \<in> set ns \<Longrightarrow> reads s (ge_linksDir env @ [n]) (L n) \<and> dumpable (L n)"
  shows "answers (verify_rest c s k R N) (verify_links sha env ns errors)
    (Inr (errors \<or> (\<exists>n \<in> set ns. hash_to_string (hashString sha (nar (L n))) Nix32 False \<noteq> Inr n)))"
  using assms(3)
proof (induction ns arbitrary: errors)
  case (Cons n ns)
  let ?P = "verify_rest c s k R N"
  obtain t where t: "hash_to_string (hashString sha (nar (L n))) Nix32 False = Inr t"
    using link_hash_string [OF assms(1)] by blast
  have int: "answers ?P (on_disk fs_checkInterrupt) (Inr ())"
    by (rule rest_fs) (use assms(2) in \<open>simp add: fs_checkInterrupt_quiet good_def fs_quiet_def\<close>)
  have n: "reads s (ge_linksDir env @ [n]) (L n)" "dumpable (L n)" using Cons.prems by simp_all
  note h = rest_posix [OF hashPath_answers [OF assms(1,2) n]]
  have rest: "answers ?P (verify_links sha env ns (errors \<or> t \<noteq> n))
      (Inr ((errors \<or> t \<noteq> n) \<or> (\<exists>n \<in> set ns. hash_to_string (hashString sha (nar (L n))) Nix32 False \<noteq> Inr n)))"
    by (rule Cons.IH) (use Cons.prems in simp)
  have "answers ?P (verify_links sha env (n # ns) errors)
      (Inr ((errors \<or> t \<noteq> n) \<or> (\<exists>n \<in> set ns. hash_to_string (hashString sha (nar (L n))) Nix32 False \<noteq> Inr n)))"
    unfolding verify_links.simps
    by (rule answers_seq [OF int], rule answers_bind [OF h], unfold prod.case, rule answers_bind [where x = t])
       (use rest answers_basic(3) [of ?P "Inr t"] in \<open>simp_all add: t\<close>)
  moreover have "((errors \<or> t \<noteq> n) \<or> (\<exists>n \<in> set ns. hash_to_string (hashString sha (nar (L n))) Nix32 False \<noteq> Inr n)) \<longleftrightarrow>
      (errors \<or> (\<exists>n \<in> set (n # ns). hash_to_string (hashString sha (nar (L n))) Nix32 False \<noteq> Inr n))"
    using t by auto
  ultimately show ?case by (simp only:)
qed (simp add: answers_basic)

definition narHash_wrong :: "'c sha256_api \<Rightarrow> string \<Rightarrow> store_db \<Rightarrow> (StorePath \<Rightarrow> fso) \<Rightarrow> StorePath \<Rightarrow> bool" where
  "narHash_wrong sha storeDir c T p =
     (case store_map storeDir c p of Some i \<Rightarrow> \<not> hash_eq (vpi_narHash i) (hashString sha (nar (T p))) | None \<Rightarrow> False)"

definition complete_info :: "ValidPathInfo \<Rightarrow> bool" where
  "complete_info i \<longleftrightarrow> \<not> hash_eq (vpi_narHash i) nullHash \<and> vpi_narSize i \<noteq> 0"

lemma verify_contents_answers:
  assumes "sha256_ok sha" "good s" "db_ok (ge_storeDir env) c" "calm c = c"
    and "store_map (ge_storeDir env) c p = Some i" "complete_info i"
    and "reads s (ge_realStoreDir env @ [sp_to_string p]) (T p)" "dumpable (T p)"
  shows "answers (verify_rest c s k R N) (verify_contents sha env errors p)
    (Inr (errors \<or> narHash_wrong sha (ge_storeDir env) c T p))"
proof -
  have q: "answers (verify_rest c s k R N) (onL (queryPathInfo (ge_storeDir env) p)) (Inr i)"
    using rest_db [OF queryPathInfo_answers [OF assms(3,4), of p]] assms(5) by simp
  note h = rest_posix [OF hashPath_answers [OF assms(1,2,7,8)]]
  show ?thesis
    unfolding verify_contents_def
    by (rule answers_catch, rule answers_bind [OF q], rule answers_bind [OF h])
       (use assms(5,6) in \<open>auto simp: complete_info_def narHash_wrong_def Let_def intro!: answers_basic answers_seq\<close>)
qed

lemma verify_paths_answers:
  assumes "\<And>p e. p \<in> set ps \<Longrightarrow> answers P (verify_contents sha env e p) (Inr (e \<or> wrong p))"
  shows "answers P (verify_paths sha env ps errors) (Inr (errors \<or> (\<exists>p \<in> set ps. wrong p)))"
  using assms
proof (induction ps arbitrary: errors)
  case (Cons p ps)
  have "answers P (verify_paths sha env ps (errors \<or> wrong p)) (Inr ((errors \<or> wrong p) \<or> (\<exists>p \<in> set ps. wrong p)))"
    by (rule Cons.IH) (use Cons.prems in simp)
  with Cons.prems [of p errors] show ?case by (simp add: disj_assoc) (rule answers_bind)
qed (simp add: answers_basic)

lemma verifyAllValidPaths_walks:
  assumes "good s" "db_ok (ge_storeDir env) c" "calm c = c" "is_dir s (ge_realStoreDir env)"
    and "\<And>p. p \<in> dom (store_map (ge_storeDir env) c) \<Longrightarrow> sp_ok p"
    and "verify_rest c s k R N z"
  shows "\<exists>ps z'. verifyAllValidPaths env z = (Inr (\<exists>p \<in> dom (store_map (ge_storeDir env) c). \<not> on_store env s p, ps), z') \<and>
    set ps = {p \<in> dom (store_map (ge_storeDir env) c). on_store env s p} \<and> verify_rest c s k R N z'"
proof -
  let ?P = "verify_rest c s k R N" and ?V = "dom (store_map (ge_storeDir env) c)"
  let ?ns = "map fst (children s (ge_realStoreDir env))"
  obtain ps0 where ps0: "store_dir_paths ?ns [] s = (Inr ps0, s)" "set ps0 = {StorePath n | n. n \<in> set ?ns \<and> valid_baseName n}"
    using store_dir_paths_quiet [of s ?ns "[]"] assms(1) by (auto simp: good_def fs_quiet_def)
  let ?here = "\<lambda>p. p \<in> set ps0" and ?names = "map fst (map (\<lambda>(n, i). (n, i, in_type (fs_inodes s i))) (children s (ge_realStoreDir env)))"
  have names: "?names = ?ns" by (simp add: comp_def case_prod_beta)
  have here: "?here p \<longleftrightarrow> on_store env s p" if "p \<in> ?V" for p
  proof -
    have "?here p \<longleftrightarrow> sp_baseName p \<in> set ?ns"
      using assms(5) [OF that] unfolding ps0(2) by (cases p) (auto simp: sp_ok_def)
    then show ?thesis using child_names [of "sp_baseName p" s "ge_realStoreDir env"] by (simp add: on_store_def sp_to_string_def)
  qed
  have "answers ?P (on_disk (bindM (sysE ''cannot read directory %s'' (sys_readdir (ge_realStoreDir env)))
      (\<lambda>es. store_dir_paths (map fst es) []))) (Inr ps0)"
    by (rule rest_fs) (simp only: run_bindM readdir_quiet [OF assms(1,4)] prod.case sum.case names ps0(1))
  then obtain z1 where z1: "on_disk (bindM (sysE ''cannot read directory %s'' (sys_readdir (ge_realStoreDir env)))
      (\<lambda>es. store_dir_paths (map fst es) [])) z = (Inr ps0, z1)" "?P z1"
    using assms(6) unfolding answers_def by blast
  obtain z2 where z2: "onL (queryAllValidPaths (ge_storeDir env)) z1 = (Inr (sorted_list_of_set ?V), z2)" "?P z2"
    using rest_db [OF queryAllValidPaths_answers [OF assms(2,3)]] z1(2) unfolding answers_def by blast
  obtain d p where d: "z2 = (d, p)" by (rule prod.exhaust)
  let ?fuel = "Suc (Suc (length (db_paths d)))" and ?M = "{q \<in> ?V. \<not> ?here q}"
  let ?v = "\<lparr> vs_done = [], vs_valid = [], vs_errors = False \<rparr>"
  note fin = valid_count [OF assms(2)]
  have "db_paths d = db_paths c"
    using z2(2) by (auto simp: d verify_rest_def db_rest_def calm_def)
  then have fuel: "card ?V < ?fuel" using fin(2) by simp
  have step: "walks ?P ?V ?M {i} (verifyPath ?fuel (ge_storeDir env) ?here i) w" if "i \<in> set (sorted_list_of_set ?V)" for i w
  proof (rule verifyPath_walks [OF assms(1-3)])
    show "i \<in> ?V" using that fin(1) by simp
    have "card (?M - set (vs_done w)) \<le> card ?V" by (rule card_mono) (use fin(1) in auto)
    with fuel show "card (?M - set (vs_done w)) < ?fuel" by simp
  qed
  have "walks ?P ?V ?M (\<Union>i \<in> set (sorted_list_of_set ?V). {i}) (forM (verifyPath ?fuel (ge_storeDir env) ?here) (sorted_list_of_set ?V)) ?v"
    by (rule walks_forM) (rule step)
  moreover have "(\<Union>i \<in> set (sorted_list_of_set ?V). {i}) = ?V" using fin(1) by simp
  ultimately obtain z3 w where w: "forM (verifyPath ?fuel (ge_storeDir env) ?here) (sorted_list_of_set ?V) (z2, ?v) = (Inr (), (z3, w))"
    "?P z3" "passed ?V ?M ?v w" "?V \<subseteq> set (vs_done w)"
    using z2(2) unfolding walks_def by (simp only:) blast
  have "vs_errors w \<longleftrightarrow> (\<exists>p \<in> ?V. \<not> on_store env s p)" "set (vs_valid w) = {p \<in> ?V. on_store env s p}"
  proof -
    have M: "?M = {q \<in> ?V. \<not> on_store env s q}" using here by blast
    have "set (vs_done w) = ?V" using w(3,4) by (simp add: passed_def)
    with w(3) show "vs_errors w \<longleftrightarrow> (\<exists>p \<in> ?V. \<not> on_store env s p)" "set (vs_valid w) = {p \<in> ?V. on_store env s p}"
      unfolding M passed_def by simp_all blast+
  qed
  moreover have "verifyAllValidPaths env z = (Inr (vs_errors w, vs_valid w), z3)"
    using w(1) by (simp add: verifyAllValidPaths_def run_bindM run_getS z1(1) z2(1) [unfolded d] d del: verifyPath.simps)
  ultimately show ?thesis using w(2) by auto
qed

subsection \<open>Properties\<close>

text \<open>
  A store that nobody else works on: the tables \<open>c\<close> and the file system \<open>s\<close>, in which \<open>T\<close> gives the trees of the
  valid paths that are there and \<open>L\<close> the files in the directory of links.
\<close>

definition verify_ready :: "gc_env \<Rightarrow> store_db \<Rightarrow> fsys \<Rightarrow> (StorePath \<Rightarrow> fso) \<Rightarrow> (string \<Rightarrow> fso) \<Rightarrow> bool" where
  "verify_ready env c s T L \<longleftrightarrow>
     good s \<and> db_ok (ge_storeDir env) c \<and> calm c = c \<and> is_dir s (ge_realStoreDir env) \<and> is_dir s (ge_linksDir env) \<and>
     dent s (ge_stateDir env @ [''gc.lock'']) \<noteq> None \<and>
     (\<forall>p i. store_map (ge_storeDir env) c p = Some i \<longrightarrow> sp_ok p \<and> complete_info i \<and>
        (on_store env s p \<longrightarrow> reads s (ge_realStoreDir env @ [sp_to_string p]) (T p) \<and> dumpable (T p))) \<and>
     (\<forall>n. dent s (ge_linksDir env @ [n]) \<noteq> None \<longrightarrow> reads s (ge_linksDir env @ [n]) (L n) \<and> dumpable (L n))"

definition link_wrong :: "'c sha256_api \<Rightarrow> gc_env \<Rightarrow> fsys \<Rightarrow> (string \<Rightarrow> fso) \<Rightarrow> string \<Rightarrow> bool" where
  "link_wrong sha env s L n \<longleftrightarrow>
     dent s (ge_linksDir env @ [n]) \<noteq> None \<and> hash_to_string (hashString sha (nar (L n))) Nix32 False \<noteq> Inr n"

lemma verify_readyD:
  assumes "verify_ready env c s T L"
  shows "good s" "db_ok (ge_storeDir env) c" "calm c = c" "is_dir s (ge_realStoreDir env)" "is_dir s (ge_linksDir env)"
    "dent s (ge_stateDir env @ [''gc.lock'']) \<noteq> None"
    "store_map (ge_storeDir env) c q = Some i \<Longrightarrow> sp_ok q \<and> complete_info i"
    "store_map (ge_storeDir env) c q = Some i \<Longrightarrow> on_store env s q \<Longrightarrow>
       reads s (ge_realStoreDir env @ [sp_to_string q]) (T q) \<and> dumpable (T q)"
    "dent s (ge_linksDir env @ [n]) \<noteq> None \<Longrightarrow> reads s (ge_linksDir env @ [n]) (L n) \<and> dumpable (L n)"
  using assms unfolding verify_ready_def by blast+

lemma check_answers:
  assumes "sha256_ok sha" "verify_ready env c s T L"
    and "set ps = {q \<in> dom (store_map (ge_storeDir env) c). on_store env s q}"
  shows "answers (verify_rest c s k R N)
    (bindM (on_disk (sysE ''cannot read directory %s'' (sys_readdir (ge_linksDir env)))) (\<lambda>links.
       bindM (verify_links sha env (map fst links) errors) (verify_paths sha env ps)))
    (Inr (errors \<or> (\<exists>n. link_wrong sha env s L n) \<or> (\<exists>q. on_store env s q \<and> narHash_wrong sha (ge_storeDir env) c T q)))"
proof -
  let ?P = "verify_rest c s k R N" and ?ns = "map fst (children s (ge_linksDir env))"
  let ?es = "map (\<lambda>(n, i). (n, i, in_type (fs_inodes s i))) (children s (ge_linksDir env))"
  let ?bad = "\<exists>n \<in> set ?ns. hash_to_string (hashString sha (nar (L n))) Nix32 False \<noteq> Inr n"
  note r = verify_readyD [OF assms(2)]
  have es: "map fst ?es = ?ns" by (simp add: comp_def case_prod_beta)
  have names: "n \<in> set ?ns \<longleftrightarrow> dent s (ge_linksDir env @ [n]) \<noteq> None" for n by (simp only: set_map child_names)
  have "answers ?P (on_disk (sysE ''cannot read directory %s'' (sys_readdir (ge_linksDir env)))) (Inr ?es)"
    by (rule rest_fs) (rule readdir_quiet [OF r(1,5)])
  moreover have "answers ?P (verify_links sha env (map fst ?es) errors) (Inr (errors \<or> ?bad))"
    unfolding es by (rule verify_links_answers [OF assms(1) r(1)]) (simp only: names, rule r(9))
  moreover have "answers ?P (verify_contents sha env e q) (Inr (e \<or> narHash_wrong sha (ge_storeDir env) c T q))" if "q \<in> set ps" for q e
  proof -
    have "q \<in> dom (store_map (ge_storeDir env) c) \<and> on_store env s q" using that unfolding assms(3) by simp
    then obtain i where i: "store_map (ge_storeDir env) c q = Some i" "on_store env s q" by (auto simp: dom_def)
    show ?thesis by (rule verify_contents_answers [OF assms(1) r(1-3) i(1)]) (use r(7,8) [OF i(1)] i(2) in blast)+
  qed
  note v = verify_paths_answers [OF this]
  ultimately have "answers ?P
    (bindM (on_disk (sysE ''cannot read directory %s'' (sys_readdir (ge_linksDir env)))) (\<lambda>links.
       bindM (verify_links sha env (map fst links) errors) (verify_paths sha env ps)))
    (Inr ((errors \<or> ?bad) \<or> (\<exists>q \<in> set ps. narHash_wrong sha (ge_storeDir env) c T q)))"
    by (intro answers_bind v)
  moreover have "?bad \<longleftrightarrow> (\<exists>n. link_wrong sha env s L n)" using names by (simp only: link_wrong_def) blast
  moreover have "(\<exists>q \<in> set ps. narHash_wrong sha (ge_storeDir env) c T q) \<longleftrightarrow>
      (\<exists>q. on_store env s q \<and> narHash_wrong sha (ge_storeDir env) c T q)"
    unfolding assms(3) by (auto simp: narHash_wrong_def split: option.splits)
  ultimately show ?thesis by (simp only: disj_assoc)
qed


text \<open>A store with one path, whose file is not what was registered.\<close>

definition verify_fs :: fsys where
  "verify_fs = \<lparr> fs_dents = [([], 0), ([''s''], 1), ([''s'', ''ffffffffffffffffffffffffffffffff-x''], 2), ([''s'', ''.links''], 3), ([''gc.lock''], 4)],
     fs_inodes = (\<lambda>i. if i \<in> {0, 1, 3} then example_dir else blank_inode\<lparr>in_data := ''abc'', in_mode := 0x124\<rparr>),
     fs_next = 5, fs_now = 7, fs_faults = [], fs_signals = [] \<rparr>"

definition verify_env :: gc_env where
  "verify_env = \<lparr> ge_storeDir = ''/nix/store'', ge_realStoreDir = [''s''], ge_stateDir = [], ge_reservedPath = [''reserved''],
     ge_ignoreGcDeleteFailure = False, ge_tmp_locked = (\<lambda>_. False) \<rparr>"

lemma verify_fs_ok:
  "good verify_fs" "is_dir verify_fs [''s'']" "is_dir verify_fs [''s'', ''.links'']" "dent verify_fs [''gc.lock''] \<noteq> None"
  "dent verify_fs [''s'', ''.links'', n] = None" "on_store verify_env verify_fs (vpi_path example_info)"
  "reads verify_fs [''s'', ''ffffffffffffffffffffffffffffffff-x''] (Regular False ''abc'')" "dumpable (Regular False ''abc'')"
          apply (auto simp: good_def fs_quiet_def fs_ok_def dirs_single_def is_dir_def verify_fs_def example_dir_def blank_inode_def) [1]
  by (simp_all add: is_dir_def dent_def verify_fs_def example_dir_def blank_inode_def on_store_def verify_env_def example_info_def
      sp_to_string_def dumpable_def)


end
