(* ===== verification/Spec2Isabelle.thy ===== *)
theory Spec2Isabelle
  imports LruCache FileDescriptor Archive StoreDb FileSystem ThreadPool FsCalls Optimise PathLocks Gc FsAt RestoreSink PosixAccessor Verify
begin

text \<open>
  A verification library for archinix, the local store of Nix as a library: directory trees are
  serialised to archives, hashed, named by their hash, registered in a database and kept in one
  directory.

  The program.  \<open>libutil\<close> has the byte encodings, hashes, paths, streams, descriptors,
  the archive format, the file-system calls and the thread pool; \<open>libstore\<close> has store paths, the
  SQLite tables of valid paths, and the operations of \<open>LocalStore\<close>: registering and invalidating
  paths, importing, optimising, collecting garbage, verifying.  An import walks a tree with a
  \<open>SourceAccessor\<close>, streams its archive through sinks into a hash and a restored copy, canonicalises
  the metadata of the copy, moves it to the path that the hash gives and registers it.

  The theories, with what they model and what they show.

  \<^item> \<open>Prelude\<close>: exceptions as a datatype, computations that keep their state when they throw
    (\<open>M\<close>), loops and handlers over them, bytes, and the proof rules \<open>run\<close> and \<open>keep\<close>.
  \<^item> \<open>BaseN\<close>, \<open>BaseNix32\<close> (\<open>base-n.cc\<close>, \<open>base-nix-32.cc\<close>): the three textual encodings on words of
    the code's width; decoders undo encoders, and Nix's base 32 is a bijection at each length.
  \<^item> \<open>Hash\<close> (\<open>hash.cc\<close>): digests, rendering and parsing in each format, folding.
  \<^item> \<open>StringUtil\<close> (\<open>strings-inline.hh\<close>, \<open>util.cc\<close>, \<open>split.hh\<close>, \<open>alignment.hh\<close>): splitting and joining.
  \<^item> \<open>LruCache\<close> (\<open>lru-cache.hh\<close>): the map with its recency list; a locale of recency caches.
  \<^item> \<open>CanonPath\<close> (\<open>file-path-impl.hh\<close>, \<open>canon-path.cc\<close>, \<open>canon-path.hh\<close>): path canonicalisation
    agrees with a resolution of components, and the order of paths keeps subtrees together.
  \<^item> \<open>Serialise\<close> (\<open>serialise.cc\<close>, \<open>serialise.hh\<close>): sinks and sources as state-passing functions, the
    wire format; locales of byte sinks and byte sources say what a client may rely on, and each
    sink and source of the code is an interpretation.
  \<^item> \<open>FileDescriptor\<close> (\<open>file-descriptor.cc\<close>): the retry loops over system calls whose answers
    are a script of the environment: short transfers, interrupts, errors.
  \<^item> \<open>MemoryAccessor\<close> (\<open>memory-source-accessor.cc\<close>): file-system objects in memory, the walk of
    \<open>open\<close>, accessor and sink.
  \<^item> \<open>Archive\<close> (\<open>archive.cc\<close>): \<open>dump\<close> over any accessor, \<open>parse\<close> into any sink; the round trip, and
    that the parser accepts archives only.
  \<^item> \<open>StorePath\<close> (\<open>path.cc\<close>, \<open>store-dir-config.cc\<close>, \<open>content-address.cc\<close>, \<open>path-info.cc\<close>): names, base
    names, printing and parsing, content addresses.
  \<^item> \<open>StoreDb\<close> (\<open>local-store.cc\<close>, \<open>sqlite.cc\<close>, \<open>schema.sql\<close>): tables, statements, transactions and the
    retry loop; the operations refine updates of an abstract map from paths to infos.
  \<^item> \<open>FileSystem\<close> (\<open>file-system.cc\<close>, \<open>posix-fs-canonicalise.cc\<close>): inodes and directory entries, system
    calls with a script of failures, recursive deletion, temporary directories, moving, copying,
    canonical metadata.
  \<^item> \<open>ThreadPool\<close> (\<open>thread-pool.cc\<close>): a step relation over all interleavings; rule induction gives the
    invariant, a lexicographic rank the termination.
  \<^item> \<open>FsCalls\<close>: what holds after a computation on a file system whose calls may fail (\<open>wp\<close>), and
    for each call what it does to entries and inodes.
  \<^item> \<open>Optimise\<close> (\<open>optimise-store.cc\<close>): hard-linking of identical files, over all failures and all orders
    of the tasks; nothing that can be read at a path changes, and equal files end up as one inode.
  \<^item> \<open>PathLocks\<close> (\<open>pathlocks.cc\<close>): the locks on files that many processes take, wait for and delete, as
    a step relation; exclusion, no deadlock, and the run in which a signal breaks the exclusion.
  \<^item> \<open>Gc\<close> (\<open>gc.cc\<close>): roots and the deletion of named paths from database and file system; a rooted or
    unnamed path is safe, one that is neither rooted nor referred to goes completely.
  \<^item> \<open>FsAt\<close> (\<open>file-system-at.cc\<close>): the calls relative to the descriptor of a directory; opening with
    \<open>openat2\<close> and opening component by component agree, and neither follows a symbolic link.
  \<^item> \<open>RestoreSink\<close> (\<open>fs-sink.cc\<close>, \<open>restorePath\<close>): the sink that restores an archive on disk, as an instance of the
    parser's sink; exactly the archive's tree appears, with canonical metadata where asked for.
  \<^item> \<open>PosixAccessor\<close> (\<open>posix-source-accessor.cc\<close>): reading a tree through descriptors of directories, with the
    caches of descriptors that all accessors share; the caches never show in an answer, their limit
    is kept, and a restored archive is dumped again byte for byte.
  \<^item> \<open>Verify\<close> (\<open>verifyStore\<close> of \<open>local-store.cc\<close>): the database against the store directory and the contents against
    the hashes; what is wrong is found, and nothing else is reported.

  Reading the model.  A definition has the name of the function it translates.  An exception is a
  value \<open>Inl e\<close> that keeps the state reached; \<open>Abort\<close> stands for a failed assertion or
  undefined behaviour, \<open>Diverge\<close> for a loop that does not end.  Messages keep
  their format string only.  What the environment decides (the answers of system calls, a busy
  database, signals) is a list in the state that each call consumes; a theorem for all states is
  then one for all behaviours of the environment.

  Fuel and bounds.  \<open>parse\<close> takes fuel; more fuel than there are bytes is enough, and the theorems give it.  The walks over the file system take \<open>tree_fuel\<close>, more than the longest path
  has components; the pool of the optimiser takes \<open>task_fuel\<close>, more tasks than there are entries.  All other loops are total functions with a measure: the script of the
  environment, the bytes left, the symbolic links left to follow.  SHA-256 is a parameter with the laws
  of an incremental digest.

  Not modelled.  Message texts and positions (\<open>error.cc\<close>, \<open>fmt.hh\<close>), logging, progress and terminal
  output, CPU affinity (\<open>scheduling.cc\<close>), signal delivery (only its effect, an interrupt at a check),
  the command line programs under \<open>arch/\<close>, benchmarks and tests, which only call the library, and
  the process-wide settings.  The parts of \<open>LocalStore\<close> that drive imports and the
  coroutine of \<open>sourceToSink\<close> are not modelled yet.
\<close>

end
